(* ===== verification/Prelude.thy ===== *)
theory Prelude
  imports Main "HOL-Library.Word"
begin

unbundle bit_operations_syntax

text \<open>
  What the component theories share: the machine integer types of \<^verbatim>\<open>kernel/types.h\<close>,
  the outcome type of kernel code (a value, a panic, or going to sleep), its sequencing, and
  the generic facts on words and lists that the component proofs use.
\<close>

section \<open>Machine integers\<close>

type_synonym u8 = "8 word"
type_synonym u16 = "16 word"
type_synonym u32 = "32 word"
type_synonym u64 = "64 word"

section \<open>Outcomes of kernel code\<close>

text \<open>
  \<^verbatim>\<open>panic\<close> never returns, so a panic is an outcome of its own and keeps the message. A call
  of \<^verbatim>\<open>sleep(chan, lk)\<close> that cannot be undone by the caller itself is the outcome
  \<open>Blocked\<close>: the operation does not get past this point until another process acts.
\<close>

datatype 'a res = Ret 'a | Panic string | Blocked

fun kbind :: "'a res \<Rightarrow> ('a \<Rightarrow> 'b res) \<Rightarrow> 'b res" where
  "kbind (Ret x) f = f x"
| "kbind (Panic m) f = Panic m"
| "kbind Blocked f = Blocked"

named_theorems kres \<open>what it means that a sequence of kernel calls returns\<close>

lemma kbind_Ret_iff [kres]: "kbind m f = Ret y \<longleftrightarrow> (\<exists>x. m = Ret x \<and> f x = Ret y)"
  by (cases m) auto

lemma kbind_RetE: "kbind r f = Ret y \<Longrightarrow> (\<And>x. r = Ret x \<Longrightarrow> f x = Ret y \<Longrightarrow> P) \<Longrightarrow> P"
  by (cases r) auto

lemma kbind_Ret_right [simp]: "kbind m Ret = m"
  by (cases m) auto

lemma kbind_assoc: "kbind (kbind m f) g = kbind m (\<lambda>x. kbind (f x) g)"
  by (cases m) auto

lemma kbind_cong [fundef_cong]:
  "m = m' \<Longrightarrow> (\<And>x. m' = Ret x \<Longrightarrow> f x = f' x) \<Longrightarrow> kbind m f = kbind m' f'"
  by (cases m') auto

definition returns :: "'a res \<Rightarrow> bool" where
  "returns m \<longleftrightarrow> (\<exists>x. m = Ret x)"

lemma returns_Ret [simp]: "returns (Ret x)"
  by (simp add: returns_def)

lemma if_Panic_Ret_iff [kres]: "(if b then Panic m else r) = Ret x \<longleftrightarrow> \<not> b \<and> r = Ret x"
  by simp

lemma if_Blocked_Ret_iff [kres]: "(if b then Blocked else r) = Ret x \<longleftrightarrow> \<not> b \<and> r = Ret x"
  by simp

section \<open>Words\<close>

lemma word_unatI: "unat a = unat b \<Longrightarrow> a = b"
  by (fact unsigned_word_eqI)

lemma not_bit_high:
  fixes f :: "'a::len word"
  assumes "unat f < 2 ^ n" "n \<le> k"
  shows "\<not> bit f k"
proof -
  have "unat (take_bit n f) = unat f"
    using assms(1) unfolding unsigned_take_bit_eq by (simp add: take_bit_nat_eq_self)
  then have "take_bit n f = f" by (rule word_unatI)
  then show ?thesis using assms(2) by (metis bit_take_bit_iff not_le)
qed

text \<open>Counters of a ring buffer wrap; what matters is their distance.\<close>

lemma unat_diff_Suc:
  fixes w r :: "'a::len word"
  assumes "unat (w - r) + 1 < 2 ^ LENGTH('a)"
  shows "unat (w + 1 - r) = Suc (unat (w - r))"
proof -
  have "w + 1 - r = (w - r) + 1" by simp
  moreover have "unat ((w - r) + 1) = unat (w - r) + 1"
    using assms by (simp add: unat_word_ariths)
  ultimately show ?thesis by (metis Suc_eq_plus1)
qed

lemma unat_diff_pred:
  fixes w r :: "'a::len word"
  assumes "w \<noteq> r"
  shows "unat (w - (r + 1)) = unat (w - r) - 1"
proof -
  have "w - (r + 1) = (w - r) - 1" by simp
  moreover have "unat (w - r - 1) = unat (w - r) - 1"
    using assms by (intro unat_minus_one) simp
  ultimately show ?thesis by metis
qed

lemma unat_mod_add:
  fixes r :: "'a::len word"
  assumes "N dvd 2 ^ LENGTH('a)"
  shows "unat (r + of_nat i) mod N = (unat r + i) mod N"
proof -
  have "unat (r + of_nat i) = (unat r + i) mod 2 ^ LENGTH('a)"
    by (simp add: unat_word_ariths unat_of_nat mod_simps)
  then show ?thesis using assms by (simp add: mod_mod_cancel)
qed

lemma mod_eq_less:
  fixes i j N :: nat
  assumes "(a + i) mod N = (a + j) mod N" "i < N" "j < N"
  shows "i = j"
proof -
  have *: "x = y" if "x \<le> y" "y < N" "(a + x) mod N = (a + y) mod N" for x y
  proof -
    have "N dvd (a + y) - (a + x)"
      using that by (metis add_le_cancel_left mod_eq_dvd_iff_nat)
    then have "N dvd y - x" by simp
    with that show ?thesis by (auto dest: dvd_imp_le)
  qed
  show ?thesis using * [of i j] * [of j i] assms by (cases "i \<le> j") auto
qed

section \<open>Lists\<close>

lemma map_upt_Suc_shift: "map f [0..<Suc n] = f 0 # map (\<lambda>i. f (Suc i)) [0..<n]"
  by (simp add: upt_conv_Cons map_Suc_upt [symmetric] del: upt_Suc)

text \<open>The search of a table for its first entry with a property.\<close>

lemma find_upt_Some: "find P [0..<n] = Some i \<Longrightarrow> i < n \<and> P i \<and> (\<forall>j < i. \<not> P j)"
  by (auto simp: find_Some_iff)

lemma find_upt_None: "find P [0..<n] = None \<Longrightarrow> i < n \<Longrightarrow> \<not> P i"
  by (auto simp: find_None_iff)

lemma find_upt_first: "i < n \<Longrightarrow> P i \<Longrightarrow> \<forall>j < i. \<not> P j \<Longrightarrow> find P [0..<n] = Some i"
  by (auto simp: find_Some_iff intro!: exI [of _ i])

end
