(* ===== verification/Machine.thy ===== *)
theory Machine
  imports Prelude
begin

text \<open>
  Byte-addressed memory and the bulk and 64-bit accesses the kernel makes to it. Memory is a
  function from 64-bit addresses to bytes; the addresses of a block \<open>a, a + 1, \<dots>\<close> are
  computed at 64 bits, so a block that runs past the top of the address space wraps, as the
  pointer arithmetic of the code does.
\<close>

section \<open>Memory as a function from addresses to bytes\<close>

type_synonym mem = "u64 \<Rightarrow> u8"

definition rdbytes :: "mem \<Rightarrow> u64 \<Rightarrow> nat \<Rightarrow> u8 list" where
  "rdbytes m a n = map (\<lambda>i. m (a + of_nat i)) [0..<n]"

definition wrbytes :: "mem \<Rightarrow> u64 \<Rightarrow> u8 list \<Rightarrow> mem" where
  "wrbytes m a bs = (\<lambda>x. if unat (x - a) < length bs then bs ! unat (x - a) else m x)"

named_theorems mem_simps \<open>reads of memory after bulk writes\<close>

lemma length_rdbytes [simp]: "length (rdbytes m a n) = n"
  by (simp add: rdbytes_def)

lemma nth_rdbytes [simp]: "i < n \<Longrightarrow> rdbytes m a n ! i = m (a + of_nat i)"
  by (simp add: rdbytes_def)

lemma rdbytes_0 [simp]: "rdbytes m a 0 = []"
  by (simp add: rdbytes_def)

lemma wrbytes_Nil [simp]: "wrbytes m a [] = m"
  by (simp add: wrbytes_def)

lemma wrbytes_apply [mem_simps]:
  "wrbytes m a bs x = (if unat (x - a) < length bs then bs ! unat (x - a) else m x)"
  by (simp add: wrbytes_def)

lemma unat_less_64: "unat (a :: u64) < 2 ^ 64"
  using unsigned_less [of a] by simp

lemma unat_of_nat_64 [simp]: "n < 2 ^ 64 \<Longrightarrow> unat (of_nat n :: u64) = n"
  by (simp add: unat_of_nat)

lemma wrbytes_snoc:
  assumes "length bs < 2 ^ 64"
  shows "wrbytes m a (bs @ [b]) = (wrbytes m a bs)(a + of_nat (length bs) := b)"
proof
  fix x
  have eq: "x = a + of_nat (length bs) \<longleftrightarrow> unat (x - a) = length bs"
  proof
    assume "unat (x - a) = length bs"
    then have "x - a = of_nat (length bs)" using assms by (intro word_unatI) simp
    then show "x = a + of_nat (length bs)" by (simp add: algebra_simps)
  qed (use assms in simp)
  show "wrbytes m a (bs @ [b]) x = ((wrbytes m a bs)(a + of_nat (length bs) := b)) x"
    using eq by (auto simp: mem_simps nth_append)
qed

lemma wrbytes_Cons:
  assumes "length bs < 2 ^ 64"
  shows "wrbytes m a (b # bs) = (wrbytes m (a + 1) bs)(a := b)"
proof
  fix x
  show "wrbytes m a (b # bs) x = ((wrbytes m (a + 1) bs)(a := b)) x"
  proof (cases "x = a")
    case False
    then have "x - a \<noteq> 0" by simp
    moreover have "x - (a + 1) = (x - a) - 1" by simp
    ultimately have "unat (x - (a + 1)) = unat (x - a) - 1" and "0 < unat (x - a)"
      by (metis unat_minus_one, simp add: unat_gt_0)
    with False show ?thesis by (auto simp: mem_simps nth_Cons')
  qed (simp add: mem_simps)
qed

lemma unat_minus_one_64: "unat (a - (a + 1) :: u64) = 2 ^ 64 - 1"
proof -
  have "a - (a + 1) = - 1" by simp
  then show ?thesis by (simp add: unsigned_minus_1_eq_mask mask_eq_exp_minus_1)
qed

lemma wrbytes_upd:
  assumes "Suc (length bs) < 2 ^ 64"
  shows "wrbytes (m(a := b)) (a + 1) bs = wrbytes m a (b # bs)"
proof -
  have "\<not> unat (a - (a + 1)) < length bs" using assms unat_minus_one_64 [of a] by linarith
  then have "wrbytes (m(a := b)) (a + 1) bs = (wrbytes m (a + 1) bs)(a := b)"
    by (auto simp: fun_eq_iff mem_simps)
  then show ?thesis using assms by (simp add: wrbytes_Cons)
qed

lemma rdbytes_wrbytes [simp]:
  assumes "length bs \<le> 2 ^ 64"
  shows "rdbytes (wrbytes m a bs) a (length bs) = bs"
proof (rule nth_equalityI)
  fix i assume "i < length (rdbytes (wrbytes m a bs) a (length bs))"
  then show "rdbytes (wrbytes m a bs) a (length bs) ! i = bs ! i"
    using assms by (simp add: mem_simps)
qed simp

text \<open>Two blocks do not meet when no address is within both.\<close>

definition disjoint_blocks :: "u64 \<Rightarrow> nat \<Rightarrow> u64 \<Rightarrow> nat \<Rightarrow> bool" where
  "disjoint_blocks a n b k \<longleftrightarrow> (\<forall>x. \<not> (unat (x - a) < n \<and> unat (x - b) < k))"

lemma rdbytes_wrbytes_other:
  assumes "disjoint_blocks a n b (length bs)" "n \<le> 2 ^ 64"
  shows "rdbytes (wrbytes m b bs) a n = rdbytes m a n"
proof (rule nth_equalityI)
  fix i assume "i < length (rdbytes (wrbytes m b bs) a n)"
  then have i: "i < n" by simp
  then have "unat ((a + of_nat i) - a) < n" using assms(2) by simp
  then have "\<not> unat ((a + of_nat i) - b) < length bs"
    using assms(1) by (auto simp: disjoint_blocks_def)
  then show "rdbytes (wrbytes m b bs) a n ! i = rdbytes m a n ! i"
    using i by (simp add: mem_simps)
qed simp

lemma disjoint_blocks_shift:
  assumes "disjoint_blocks a (Suc n) b k"
  shows "disjoint_blocks (a + 1) n b k" and "0 < k \<Longrightarrow> a \<noteq> b"
proof -
  have "unat (x - a) < Suc n" if "unat (x - (a + 1)) < n" for x
  proof (cases "x = a")
    case False
    then show ?thesis using that unat_diff_pred [of x a] by simp
  qed simp
  with assms show "disjoint_blocks (a + 1) n b k" by (auto simp: disjoint_blocks_def)
  show "0 < k \<Longrightarrow> a \<noteq> b" using assms by (auto simp: disjoint_blocks_def dest: spec [of _ a])
qed

lemma disjoint_blocks_mono:
  "disjoint_blocks a n b k \<Longrightarrow> n' \<le> n \<Longrightarrow> k' \<le> k \<Longrightarrow> disjoint_blocks a n' b k'"
  by (auto simp: disjoint_blocks_def dest: less_le_trans)

lemma disjoint_blocks_sym: "disjoint_blocks a n b k \<longleftrightarrow> disjoint_blocks b k a n"
  by (auto simp: disjoint_blocks_def)

lemma wrbytes_commute:
  assumes "disjoint_blocks a (length as) b (length bs)"
  shows "wrbytes (wrbytes m a as) b bs = wrbytes (wrbytes m b bs) a as"
  using assms by (auto simp: fun_eq_iff mem_simps disjoint_blocks_def)

section \<open>64-bit loads and stores, little endian\<close>

definition bytes_of_u64 :: "u64 \<Rightarrow> u8 list" where
  "bytes_of_u64 v = map (\<lambda>i. ucast (drop_bit (8 * i) v)) [0..<8]"

definition u64_of_bytes :: "u8 list \<Rightarrow> u64" where
  "u64_of_bytes bs = foldr (\<lambda>b acc. push_bit 8 acc OR ucast b) bs 0"

definition load64 :: "mem \<Rightarrow> u64 \<Rightarrow> u64" where
  "load64 m a = u64_of_bytes (rdbytes m a 8)"

definition store64 :: "mem \<Rightarrow> u64 \<Rightarrow> u64 \<Rightarrow> mem" where
  "store64 m a v = wrbytes m a (bytes_of_u64 v)"

lemma length_bytes_of_u64 [simp]: "length (bytes_of_u64 v) = 8"
  by (simp add: bytes_of_u64_def)

lemma bit_u64_of_bytes:
  "bit (u64_of_bytes bs) n \<longleftrightarrow> n < 64 \<and> n < 8 * length bs \<and> bit (bs ! (n div 8)) (n mod 8)"
proof (induction bs arbitrary: n)
  case Nil
  then show ?case by (simp add: u64_of_bytes_def)
next
  case (Cons b bs)
  have step: "u64_of_bytes (b # bs) = push_bit 8 (u64_of_bytes bs) OR ucast b"
    by (simp add: u64_of_bytes_def)
  show ?case
  proof (cases "n < 8")
    case True
    then show ?thesis by (simp add: step bit_simps)
  next
    case False
    then have "n div 8 = Suc ((n - 8) div 8)" "(n - 8) mod 8 = n mod 8"
      by (simp_all add: le_div_geq le_mod_geq)
    with False Cons.IH [of "n - 8"] show ?thesis
      by (auto simp: step bit_simps dest: bit_imp_le_length)
  qed
qed

lemma u64_of_bytes_inverse [simp]: "u64_of_bytes (bytes_of_u64 v) = v"
proof (rule bit_word_eqI)
  fix n assume n: "n < LENGTH(64)"
  then have "n div 8 < 8" by simp
  with n show "bit (u64_of_bytes (bytes_of_u64 v)) n = bit v n"
    by (simp add: bit_u64_of_bytes bytes_of_u64_def bit_simps)
qed

lemma load64_store64 [simp]: "load64 (store64 m a v) a = v"
  using rdbytes_wrbytes [of "bytes_of_u64 v" m a] by (simp add: load64_def store64_def)

lemma load64_wrbytes_other [mem_simps]:
  "disjoint_blocks a 8 b (length bs) \<Longrightarrow> load64 (wrbytes m b bs) a = load64 m a"
  by (simp add: load64_def rdbytes_wrbytes_other)

lemma load64_store64_other [mem_simps]:
  "disjoint_blocks a 8 b 8 \<Longrightarrow> load64 (store64 m b v) a = load64 m a"
  by (simp add: store64_def load64_wrbytes_other)

lemma load64_cong: "(\<And>i. i < 8 \<Longrightarrow> m (a + of_nat i) = m' (a + of_nat i)) \<Longrightarrow> load64 m a = load64 m' a"
  by (auto simp: load64_def rdbytes_def intro!: arg_cong [where f = u64_of_bytes])

section \<open>Little-endian fields of byte lists\<close>

text \<open>
  A structure on disk or in a buffer is a byte list; its fields are little-endian words at fixed
  offsets. A field write keeps the length of the list and the other fields.
\<close>

definition le_bytes :: "nat \<Rightarrow> 'a::len word \<Rightarrow> u8 list" where
  "le_bytes n v = map (\<lambda>i. ucast (drop_bit (8 * i) v)) [0..<n]"

definition le_word :: "u8 list \<Rightarrow> 'a::len word" where
  "le_word bs = foldr (\<lambda>b acc. push_bit 8 acc OR ucast b) bs 0"

definition get_bytes :: "nat \<Rightarrow> nat \<Rightarrow> u8 list \<Rightarrow> u8 list" where
  "get_bytes off n d = take n (drop off d)"

definition put_bytes :: "nat \<Rightarrow> u8 list \<Rightarrow> u8 list \<Rightarrow> u8 list" where
  "put_bytes off bs d = take off d @ bs @ drop (off + length bs) d"

definition get32 :: "nat \<Rightarrow> u8 list \<Rightarrow> u32" where
  "get32 off d = le_word (get_bytes off 4 d)"

definition put32 :: "nat \<Rightarrow> u32 \<Rightarrow> u8 list \<Rightarrow> u8 list" where
  "put32 off v d = put_bytes off (le_bytes 4 v) d"

definition get16 :: "nat \<Rightarrow> u8 list \<Rightarrow> u16" where
  "get16 off d = le_word (get_bytes off 2 d)"

definition put16 :: "nat \<Rightarrow> u16 \<Rightarrow> u8 list \<Rightarrow> u8 list" where
  "put16 off v d = put_bytes off (le_bytes 2 v) d"

named_theorems field_simps_le \<open>reads of little-endian fields after writes\<close>

lemma length_le_bytes [simp]: "length (le_bytes n v) = n"
  by (simp add: le_bytes_def)

lemma bit_le_word:
  "bit (le_word bs :: 'a::len word) n \<longleftrightarrow> n < LENGTH('a) \<and> n < 8 * length bs \<and> bit (bs ! (n div 8)) (n mod 8)"
proof (induction bs arbitrary: n)
  case Nil
  then show ?case by (simp add: le_word_def)
next
  case (Cons b bs)
  have step: "(le_word (b # bs) :: 'a word) = push_bit 8 (le_word bs) OR ucast b"
    by (simp add: le_word_def)
  show ?case
  proof (cases "n < 8")
    case True
    then show ?thesis by (auto simp: step bit_simps)
  next
    case False
    then have "n div 8 = Suc ((n - 8) div 8)" "(n - 8) mod 8 = n mod 8"
      by (simp_all add: le_div_geq le_mod_geq)
    with False Cons.IH [of "n - 8"] show ?thesis
      by (auto simp: step bit_simps dest: bit_imp_le_length)
  qed
qed

lemma le_word_le_bytes [simp]:
  "LENGTH('a) \<le> 8 * n \<Longrightarrow> (le_word (le_bytes n (v :: 'a::len word)) :: 'a word) = v"
  by (rule bit_word_eqI) (auto simp: bit_le_word le_bytes_def bit_simps less_mult_imp_div_less mult.commute)

lemma length_put_bytes [simp]: "off + length bs \<le> length d \<Longrightarrow> length (put_bytes off bs d) = length d"
  by (simp add: put_bytes_def)

lemma length_put32 [simp]: "off + 4 \<le> length d \<Longrightarrow> length (put32 off v d) = length d"
  by (simp add: put32_def)

lemma length_put16 [simp]: "off + 2 \<le> length d \<Longrightarrow> length (put16 off v d) = length d"
  by (simp add: put16_def)

lemma get_put_bytes: "off + length bs \<le> length d \<Longrightarrow> get_bytes off (length bs) (put_bytes off bs d) = bs"
  by (simp add: get_bytes_def put_bytes_def)

lemma get_put_bytes_other:
  assumes "off + length bs \<le> length d" "off' + n \<le> off \<or> off + length bs \<le> off'"
  shows "get_bytes off' n (put_bytes off bs d) = get_bytes off' n d"
proof (cases "off' + n \<le> off")
  case True
  then show ?thesis using assms(1) by (auto simp: get_bytes_def put_bytes_def min_def drop_take)
next
  case False
  then have le: "off + length bs \<le> off'" using assms(2) by simp
  then have "drop off' (put_bytes off bs d) = drop off' d"
    using assms(1) by (simp add: put_bytes_def)
  then show ?thesis by (simp add: get_bytes_def)
qed

lemma get32_put32 [field_simps_le]: "off + 4 \<le> length d \<Longrightarrow> get32 off (put32 off v d) = v"
  using get_put_bytes [of off "le_bytes 4 v" d] by (simp add: get32_def put32_def)

lemma get32_put32_other [field_simps_le]:
  "off + 4 \<le> length d \<Longrightarrow> off' + 4 \<le> off \<or> off + 4 \<le> off' \<Longrightarrow> get32 off' (put32 off v d) = get32 off' d"
  using get_put_bytes_other [of off "le_bytes 4 v" d off' 4] by (simp add: get32_def put32_def)

lemma get16_put16 [field_simps_le]: "off + 2 \<le> length d \<Longrightarrow> get16 off (put16 off v d) = v"
  using get_put_bytes [of off "le_bytes 2 v" d] by (simp add: get16_def put16_def)

lemma get16_put16_other [field_simps_le]:
  "off + 2 \<le> length d \<Longrightarrow> off' + 2 \<le> off \<or> off + 2 \<le> off' \<Longrightarrow> get16 off' (put16 off v d) = get16 off' d"
  using get_put_bytes_other [of off "le_bytes 2 v" d off' 2] by (simp add: get16_def put16_def)

end
