(* ===== verification/Kernel_String.thy ===== *)
theory Kernel_String
  imports Machine
begin

text \<open>
  \<^verbatim>\<open>kernel/string.c\<close>: the memory and string routines of the kernel, over byte-addressed memory.
  Each C function also returns its first argument; the model gives the new memory. Sizes are the
  \<^verbatim>\<open>uint\<close> of the C prototypes, and the loops count down the same quantity the code counts.
\<close>

section \<open>The routines\<close>

function memset_loop :: "mem \<Rightarrow> u64 \<Rightarrow> u8 \<Rightarrow> nat \<Rightarrow> nat \<Rightarrow> mem" where
  "memset_loop m cdst c i n =
     (if i < n then memset_loop (m(cdst + of_nat i := c)) cdst c (Suc i) n else m)"
  by pat_completeness auto
termination
  by (relation "measure (\<lambda>(m, cdst, c, i, n). n - i)") auto

declare memset_loop.simps [simp del]

definition memset :: "mem \<Rightarrow> u64 \<Rightarrow> u32 \<Rightarrow> u32 \<Rightarrow> mem" where
  "memset m dst c n = memset_loop m dst (ucast c) 0 (unat n)"

fun memcmp_loop :: "mem \<Rightarrow> u64 \<Rightarrow> u64 \<Rightarrow> nat \<Rightarrow> int" where
  "memcmp_loop m s1 s2 0 = 0"
| "memcmp_loop m s1 s2 (Suc n) =
     (if m s1 \<noteq> m s2 then uint (m s1) - uint (m s2) else memcmp_loop m (s1 + 1) (s2 + 1) n)"

definition memcmp :: "mem \<Rightarrow> u64 \<Rightarrow> u64 \<Rightarrow> u32 \<Rightarrow> int" where
  "memcmp m v1 v2 n = memcmp_loop m v1 v2 (unat n)"

fun copy_forward :: "mem \<Rightarrow> u64 \<Rightarrow> u64 \<Rightarrow> nat \<Rightarrow> mem" where
  "copy_forward m d s 0 = m"
| "copy_forward m d s (Suc n) = copy_forward (m(d := m s)) (d + 1) (s + 1) n"

fun copy_backward :: "mem \<Rightarrow> u64 \<Rightarrow> u64 \<Rightarrow> nat \<Rightarrow> mem" where
  "copy_backward m d s 0 = m"
| "copy_backward m d s (Suc n) = copy_backward (m(d - 1 := m (s - 1))) (d - 1) (s - 1) n"

definition memmove :: "mem \<Rightarrow> u64 \<Rightarrow> u64 \<Rightarrow> u32 \<Rightarrow> mem" where
  "memmove m dst src n =
     (if n = 0 then m
      else if src < dst \<and> src + ucast n > dst
      then copy_backward m (dst + ucast n) (src + ucast n) (unat n)
      else copy_forward m dst src (unat n))"

definition memcpy :: "mem \<Rightarrow> u64 \<Rightarrow> u64 \<Rightarrow> u32 \<Rightarrow> mem" where
  "memcpy m dst src n = memmove m dst src n"

fun strncmp_loop :: "mem \<Rightarrow> u64 \<Rightarrow> u64 \<Rightarrow> nat \<Rightarrow> int" where
  "strncmp_loop m p q 0 = 0"
| "strncmp_loop m p q (Suc n) =
     (if m p \<noteq> 0 \<and> m p = m q then strncmp_loop m (p + 1) (q + 1) n
      else uint (m p) - uint (m q))"

definition strncmp :: "mem \<Rightarrow> u64 \<Rightarrow> u64 \<Rightarrow> u32 \<Rightarrow> int" where
  "strncmp m p q n = strncmp_loop m p q (unat n)"

fun zero_fill :: "mem \<Rightarrow> u64 \<Rightarrow> nat \<Rightarrow> mem" where
  "zero_fill m s 0 = m"
| "zero_fill m s (Suc n) = zero_fill (m(s := 0)) (s + 1) n"

fun strncpy_loop :: "mem \<Rightarrow> u64 \<Rightarrow> u64 \<Rightarrow> nat \<Rightarrow> mem" where
  "strncpy_loop m s t 0 = m"
| "strncpy_loop m s t (Suc n) =
     (if m t \<noteq> 0 then strncpy_loop (m(s := m t)) (s + 1) (t + 1) n
      else zero_fill (m(s := m t)) (s + 1) n)"

definition strncpy :: "mem \<Rightarrow> u64 \<Rightarrow> u64 \<Rightarrow> int \<Rightarrow> mem" where
  "strncpy m s t n = strncpy_loop m s t (nat n)"

fun safestrcpy_loop :: "mem \<Rightarrow> u64 \<Rightarrow> u64 \<Rightarrow> nat \<Rightarrow> mem" where
  "safestrcpy_loop m s t 0 = m(s := 0)"
| "safestrcpy_loop m s t (Suc n) =
     (if m t \<noteq> 0 then safestrcpy_loop (m(s := m t)) (s + 1) (t + 1) n
      else m(s := m t, s + 1 := 0))"

definition safestrcpy :: "mem \<Rightarrow> u64 \<Rightarrow> u64 \<Rightarrow> int \<Rightarrow> mem" where
  "safestrcpy m s t n = (if n \<le> 0 then m else safestrcpy_loop m s t (nat n - 1))"

text \<open>\<open>strlen\<close> runs until it finds a NUL byte, so it may not return.\<close>

partial_function (option) strlen_loop :: "mem \<Rightarrow> u64 \<Rightarrow> nat \<Rightarrow> nat option" where
  "strlen_loop m s n = (if m (s + of_nat n) \<noteq> 0 then strlen_loop m s (Suc n) else Some n)"

definition strlen :: "mem \<Rightarrow> u64 \<Rightarrow> nat option" where
  "strlen m s = strlen_loop m s 0"

section \<open>Memory routines against bulk reads and writes\<close>

lemma memset_loop_wrbytes:
  assumes "i \<le> n" "n < 2 ^ 64"
  shows "memset_loop (wrbytes m dst (replicate i c)) dst c i n = wrbytes m dst (replicate n c)"
  using assms
proof (induction "n - i" arbitrary: i)
  case 0
  then show ?case by (simp add: memset_loop.simps)
next
  case (Suc k)
  then have "i < n" "k = n - Suc i" by simp_all
  moreover have "(wrbytes m dst (replicate i c))(dst + of_nat i := c) = wrbytes m dst (replicate (Suc i) c)"
    using Suc.prems \<open>i < n\<close> wrbytes_snoc [of "replicate i c" m dst c]
    by (simp add: replicate_append_same)
  moreover have "memset_loop (wrbytes m dst (replicate (Suc i) c)) dst c (Suc i) n = wrbytes m dst (replicate n c)"
    using Suc \<open>i < n\<close> \<open>k = n - Suc i\<close> by (intro Suc.hyps(1)) simp_all
  ultimately show ?case by (simp only: memset_loop.simps [of _ _ _ i n] if_True)
qed

lemma unat_u32_less [simp]:
  "unat (n :: u32) < 18446744073709551616" "unat (n :: u32) \<le> 18446744073709551616"
proof -
  have "unat n < 4294967296" using unsigned_less [of n] by simp
  then show "unat n < 18446744073709551616" "unat n \<le> 18446744073709551616" by simp_all
qed

lemma memset_wrbytes: "memset m dst c n = wrbytes m dst (replicate (unat n) (ucast c))"
  using memset_loop_wrbytes [of 0 "unat n" m dst "ucast c"] by (simp add: memset_def)

lemma copy_forward_wrbytes:
  assumes "n < 2 ^ 64" "\<And>i j. j < i \<Longrightarrow> i < n \<Longrightarrow> s + of_nat i \<noteq> d + of_nat j"
  shows "copy_forward m d s n = wrbytes m d (rdbytes m s n)"
  using assms
proof (induction n arbitrary: m d s)
  case (Suc n)
  let ?m = "m(d := m s)"
  have "s + 1 + of_nat i \<noteq> d + 1 + of_nat j" if "j < i" "i < n" for i j
    using Suc.prems(2) [of "Suc j" "Suc i"] that by (simp add: algebra_simps)
  then have "copy_forward ?m (d + 1) (s + 1) n = wrbytes ?m (d + 1) (rdbytes ?m (s + 1) n)"
    using Suc.IH Suc.prems(1) by simp
  also have "rdbytes ?m (s + 1) n = rdbytes m (s + 1) n"
  proof (rule nth_equalityI)
    fix i assume "i < length (rdbytes ?m (s + 1) n)"
    then show "rdbytes ?m (s + 1) n ! i = rdbytes m (s + 1) n ! i"
      using Suc.prems(2) [of 0 "Suc i"] by (simp add: algebra_simps)
  qed simp
  also have "wrbytes ?m (d + 1) (rdbytes m (s + 1) n) = wrbytes m d (m s # rdbytes m (s + 1) n)"
    using Suc.prems(1) by (intro wrbytes_upd) simp
  also have "m s # rdbytes m (s + 1) n = rdbytes m s (Suc n)"
    unfolding rdbytes_def map_upt_Suc_shift by (simp add: algebra_simps)
  finally show ?case by (simp only: copy_forward.simps)
qed simp

lemma copy_backward_wrbytes:
  assumes "n < 2 ^ 64" "\<And>i j. i < j \<Longrightarrow> j < n \<Longrightarrow> s + of_nat i \<noteq> d + of_nat j"
  shows "copy_backward m (d + of_nat n) (s + of_nat n) n = wrbytes m d (rdbytes m s n)"
  using assms
proof (induction n arbitrary: m)
  case (Suc n)
  let ?m = "m(d + of_nat n := m (s + of_nat n))"
  have "copy_backward m (d + of_nat (Suc n)) (s + of_nat (Suc n)) (Suc n)
      = copy_backward ?m (d + of_nat n) (s + of_nat n) n"
    by (simp add: algebra_simps)
  also have "\<dots> = wrbytes ?m d (rdbytes ?m s n)"
    using Suc by simp
  also have "rdbytes ?m s n = rdbytes m s n"
  proof (rule nth_equalityI)
    fix i assume "i < length (rdbytes ?m s n)"
    then show "rdbytes ?m s n ! i = rdbytes m s n ! i"
      using Suc.prems(2) [of i n] by simp
  qed simp
  also have "wrbytes ?m d (rdbytes m s n) = (wrbytes m d (rdbytes m s n))(d + of_nat n := m (s + of_nat n))"
    using Suc.prems(1) by (auto simp: fun_eq_iff mem_simps)
  also have "\<dots> = wrbytes m d (rdbytes m s n @ [m (s + of_nat n)])"
    using Suc.prems(1) wrbytes_snoc [of "rdbytes m s n" m d] by simp
  also have "rdbytes m s n @ [m (s + of_nat n)] = rdbytes m s (Suc n)"
    by (simp add: rdbytes_def)
  finally show ?case .
qed simp

lemma unat_add_of_nat: "unat (a :: u64) + i < 2 ^ 64 \<Longrightarrow> unat (a + of_nat i) = unat a + i"
  by (simp add: unat_word_ariths)

lemma ucast_u32_of_nat: "(ucast (n :: u32) :: u64) = of_nat (unat n)"
  by (rule word_unatI) (simp add: unsigned_ucast_eq)

lemma memmove_wrbytes:
  assumes "unat src + unat n < 2 ^ 64" "unat dst + unat n < 2 ^ 64"
  shows "memmove m dst src n = wrbytes m dst (rdbytes m src (unat n))"
proof -
  have n: "unat n < 2 ^ 64" by simp
  have at: "unat (src + of_nat i) = unat src + i" "unat (dst + of_nat i) = unat dst + i"
    if "i \<le> unat n" for i
    using that assms by (simp_all add: unat_add_of_nat)
  have overlap: "src < dst \<and> src + ucast n > dst \<longleftrightarrow> unat src < unat dst \<and> unat dst < unat src + unat n"
    using at(1) [OF order_refl] by (simp only: word_less_nat_alt ucast_u32_of_nat)
  show ?thesis
  proof (cases "src < dst \<and> src + ucast n > dst")
    case True
    have "src + of_nat i \<noteq> dst + of_nat j" if "i < j" "j < unat n" for i j
    proof
      assume "src + of_nat i = dst + of_nat j"
      then have "unat src + i = unat dst + j" using that at [of i] at [of j] by simp
      with that True overlap show False by linarith
    qed
    then have "copy_backward m (dst + of_nat (unat n)) (src + of_nat (unat n)) (unat n)
        = wrbytes m dst (rdbytes m src (unat n))"
      using n by (rule copy_backward_wrbytes [rotated])
    with True show ?thesis by (auto simp: memmove_def)
  next
    case False
    have "src + of_nat i \<noteq> dst + of_nat j" if "j < i" "i < unat n" for i j
    proof
      assume "src + of_nat i = dst + of_nat j"
      then have "unat src + i = unat dst + j" using that at [of i] at [of j] by simp
      with that False overlap show False by linarith
    qed
    then have "copy_forward m dst src (unat n) = wrbytes m dst (rdbytes m src (unat n))"
      using n by (rule copy_forward_wrbytes [rotated])
    with False show ?thesis by (auto simp: memmove_def)
  qed
qed

text \<open>Whatever its arguments, \<open>memmove\<close> changes no byte outside the destination block.\<close>

lemma copy_forward_frame: "(\<And>i. i < n \<Longrightarrow> x \<noteq> d + of_nat i) \<Longrightarrow> copy_forward m d s n x = m x"
proof (induction n arbitrary: m d s)
  case (Suc n)
  have "x \<noteq> d + 1 + of_nat i" if "i < n" for i
    using Suc.prems [of "Suc i"] that by (simp add: algebra_simps)
  then have "copy_forward (m(d := m s)) (d + 1) (s + 1) n x = (m(d := m s)) x" by (rule Suc.IH)
  also have "\<dots> = m x" using Suc.prems [of 0] by simp
  finally show ?case by simp
qed simp

lemma copy_backward_frame:
  "(\<And>i. i < n \<Longrightarrow> x \<noteq> d + of_nat i) \<Longrightarrow> copy_backward m (d + of_nat n) s n x = m x"
proof (induction n arbitrary: m s)
  case (Suc n)
  let ?m = "m(d + of_nat n := m (s - 1))"
  have "copy_backward m (d + of_nat (Suc n)) s (Suc n) x = copy_backward ?m (d + of_nat n) (s - 1) n x"
    by (simp add: algebra_simps)
  also have "\<dots> = ?m x" using Suc.prems by (intro Suc.IH) simp
  also have "\<dots> = m x" using Suc.prems [of n] by simp
  finally show ?case .
qed simp

lemma memmove_frame:
  assumes "\<And>i. i < unat n \<Longrightarrow> x \<noteq> dst + of_nat i"
  shows "memmove m dst src n x = m x"
proof -
  have "copy_backward m (dst + ucast n) s (unat n) x = m x" for s
    unfolding ucast_u32_of_nat using assms by (rule copy_backward_frame)
  moreover have "copy_forward m dst src (unat n) x = m x" using assms by (rule copy_forward_frame)
  ultimately show ?thesis by (simp add: memmove_def)
qed

section \<open>Strings\<close>

lemma rdbytes_Suc: "rdbytes m a (Suc n) = m a # rdbytes m (a + 1) n"
  unfolding rdbytes_def map_upt_Suc_shift by (simp add: algebra_simps)

text \<open>The bytes of a string field of size \<open>n\<close>: up to the first NUL, or all of them.\<close>

definition strfield :: "mem \<Rightarrow> u64 \<Rightarrow> nat \<Rightarrow> u8 list" where
  "strfield m a n = takeWhile (\<lambda>b. b \<noteq> 0) (rdbytes m a n)"

definition cstr :: "mem \<Rightarrow> u64 \<Rightarrow> u8 list \<Rightarrow> bool" where
  "cstr m a cs \<longleftrightarrow> 0 \<notin> set cs \<and> rdbytes m a (length cs) = cs \<and> m (a + of_nat (length cs)) = 0"

lemma strfield_0 [simp]: "strfield m a 0 = []"
  by (simp add: strfield_def)

lemma strfield_Suc:
  "strfield m a (Suc n) = (if m a \<noteq> 0 then m a # strfield m (a + 1) n else [])"
  by (simp add: strfield_def rdbytes_Suc)

lemma length_strfield: "length (strfield m a n) \<le> n"
  unfolding strfield_def by (metis length_rdbytes length_takeWhile_le)

lemma cstr_Nil [simp]: "cstr m a [] \<longleftrightarrow> m a = 0"
  by (simp add: cstr_def)

lemma cstr_Cons [simp]: "cstr m a (c # cs) \<longleftrightarrow> c \<noteq> 0 \<and> m a = c \<and> cstr m (a + 1) cs"
  by (auto simp: cstr_def rdbytes_Suc algebra_simps)

lemma strlen_cstr:
  assumes "cstr m s cs"
  shows "strlen m s = Some (length cs)"
proof -
  have "strlen_loop m s n = Some (length cs)" if "n \<le> length cs" for n
    using that
  proof (induction "length cs - n" arbitrary: n)
    case 0
    then show ?case using assms by (subst strlen_loop.simps) (simp add: cstr_def)
  next
    case (Suc k)
    then have "n < length cs" by simp
    then have "m (s + of_nat n) = cs ! n" using assms by (metis cstr_def nth_rdbytes)
    moreover have "cs ! n \<noteq> 0" using assms \<open>n < length cs\<close> by (metis cstr_def nth_mem)
    moreover have "strlen_loop m s (Suc n) = Some (length cs)"
      using Suc \<open>n < length cs\<close> by (intro Suc.hyps(1)) simp_all
    ultimately show ?case by (subst strlen_loop.simps) simp
  qed
  from this [of 0] show ?thesis by (simp add: strlen_def)
qed

lemma strncmp_loop_0_iff: "strncmp_loop m p q n = 0 \<longleftrightarrow> strfield m p n = strfield m q n"
proof (induction n arbitrary: p q)
  case (Suc n)
  have "uint (m p) - uint (m q) = 0 \<longleftrightarrow> m p = m q" by (simp add: word_uint_eq_iff)
  with Suc show ?case by (auto simp: strfield_Suc)
qed simp

lemma zero_fill_wrbytes: "n < 2 ^ 64 \<Longrightarrow> zero_fill m s n = wrbytes m s (replicate n 0)"
proof (induction n arbitrary: m s)
  case (Suc n)
  then show ?case by (simp add: wrbytes_upd)
qed simp

text \<open>One byte written outside a field leaves the field alone.\<close>

lemma rdbytes_upd_other:
  assumes "disjoint_blocks t n s (Suc k)" "n \<le> 2 ^ 64"
  shows "rdbytes (m(s := b)) t n = rdbytes m t n"
proof -
  have "m(s := b) = wrbytes m s [b]" by (simp add: wrbytes_Cons)
  moreover have "disjoint_blocks t n s 1" using assms(1) by (rule disjoint_blocks_mono) simp_all
  ultimately show ?thesis using assms(2) by (simp add: rdbytes_wrbytes_other)
qed

lemmas strfield_upd_other = rdbytes_upd_other [THEN arg_cong [where f = "takeWhile (\<lambda>b. b \<noteq> 0)"],
    folded strfield_def]

lemma strncpy_loop_wrbytes:
  assumes "disjoint_blocks t n s n" "n < 2 ^ 64"
  shows "strncpy_loop m s t n =
    wrbytes m s (strfield m t n @ replicate (n - length (strfield m t n)) 0)"
  using assms
proof (induction n arbitrary: m s t)
  case (Suc n)
  have dj: "disjoint_blocks (t + 1) n (s + 1) n" and dt: "disjoint_blocks (t + 1) n s (Suc n)"
    using Suc.prems(1) by (metis disjoint_blocks_shift(1) disjoint_blocks_sym)+
  let ?m = "m(s := m t)"
  have same: "strfield ?m (t + 1) n = strfield m (t + 1) n"
    using dt Suc.prems(2) by (intro strfield_upd_other) simp_all
  show ?case
  proof (cases "m t = 0")
    case True
    then show ?thesis using Suc.prems(2) by (simp add: strfield_Suc zero_fill_wrbytes wrbytes_upd)
  next
    case False
    have len: "length (strfield m (t + 1) n) \<le> n" by (rule length_strfield)
    have "strncpy_loop ?m (s + 1) (t + 1) n =
        wrbytes ?m (s + 1) (strfield m (t + 1) n @ replicate (n - length (strfield m (t + 1) n)) 0)"
      using Suc.prems(2) by (subst Suc.IH [OF dj]) (simp_all add: same)
    with False len Suc.prems(2) show ?thesis by (simp add: strfield_Suc wrbytes_upd)
  qed
qed simp

text \<open>\<open>safestrcpy\<close> writes the string, a NUL, and one more NUL when the string is short.\<close>

lemma safestrcpy_loop_wrbytes:
  assumes "disjoint_blocks t n s (Suc n)" "Suc n < 2 ^ 64"
  shows "safestrcpy_loop m s t n =
    wrbytes m s (strfield m t n @ 0 # (if length (strfield m t n) < n then [0] else []))"
  using assms
proof (induction n arbitrary: m s t)
  case (Suc n)
  have dj: "disjoint_blocks (t + 1) n (s + 1) (Suc n)" and dt: "disjoint_blocks (t + 1) n s (Suc (Suc n))"
    using Suc.prems(1) by (metis disjoint_blocks_shift(1) disjoint_blocks_sym)+
  let ?m = "m(s := m t)"
  have same: "strfield ?m (t + 1) n = strfield m (t + 1) n"
    using dt Suc.prems(2) by (intro strfield_upd_other) simp_all
  show ?case
  proof (cases "m t = 0")
    case True
    have "m(s := 0, s + 1 := 0) = wrbytes m s [0, 0]"
      by (simp add: wrbytes_Cons fun_upd_twist)
    with True show ?thesis by (simp add: strfield_Suc)
  next
    case False
    have len: "length (strfield m (t + 1) n) \<le> n" by (rule length_strfield)
    have "safestrcpy_loop ?m (s + 1) (t + 1) n =
        wrbytes ?m (s + 1) (strfield m (t + 1) n @ 0 # (if length (strfield m (t + 1) n) < n then [0] else []))"
      using Suc.prems(2) by (subst Suc.IH [OF dj]) (simp_all add: same)
    with False len Suc.prems(2) show ?thesis by (simp add: strfield_Suc wrbytes_upd)
  qed
qed (simp add: wrbytes_Cons)

section \<open>Properties\<close>

text \<open>
  \<open>memmove\<close> copies: whatever the overlap of source and destination, the destination ends up with
  the bytes the source had before the call, and no byte outside the destination changes. The ranges
  must not reach the top of the address space (the code compares \<open>src + n\<close> with \<open>dst\<close>).
\<close>

theorem memmove_copies:
  assumes "unat src + unat n < 2 ^ 64" "unat dst + unat n < 2 ^ 64"
  shows "rdbytes (memmove m dst src n) dst (unat n) = rdbytes m src (unat n) \<and>
    (\<forall>x. unat n \<le> unat (x - dst) \<longrightarrow> memmove m dst src n x = m x)"
proof -
  have "rdbytes (wrbytes m dst (rdbytes m src (unat n))) dst (length (rdbytes m src (unat n)))
      = rdbytes m src (unat n)"
    by (rule rdbytes_wrbytes) simp
  then show ?thesis by (simp add: memmove_wrbytes [OF assms] mem_simps)
qed

theorem memmove_copies_witness:
  "rdbytes (memmove (\<lambda>a. ucast a) 4098 4096 4) 4098 4 = [0, 1, 2, 3]"
proof -
  have "rdbytes (memmove (\<lambda>a. ucast a) 4098 4096 4) 4098 (unat (4 :: u32)) =
      rdbytes (\<lambda>a. ucast a) 4096 (unat (4 :: u32))"
    using memmove_copies [of 4096 4 4098 "\<lambda>a. ucast a"] by simp
  also have "\<dots> = [0, 1, 2, 3]" by (simp add: rdbytes_def upt_rec)
  finally show ?thesis by simp
qed

text \<open>
  Names round trip: a name copied with \<open>strncpy\<close> into a field of \<open>n\<close> bytes that the source does not
  overlap compares equal to the source with \<open>strncmp\<close> over \<open>n\<close> bytes, the rest of the field is NUL,
  and no byte outside the field changes. This is how directory entries are written and looked up.
\<close>

theorem strncpy_strncmp:
  assumes "disjoint_blocks t (unat n) s (unat n)"
  shows "strncmp (strncpy m s t (uint n)) s t n = 0 \<and>
    drop (length (strfield m t (unat n))) (rdbytes (strncpy m s t (uint n)) s (unat n))
      = replicate (unat n - length (strfield m t (unat n))) 0 \<and>
    (\<forall>x. unat n \<le> unat (x - s) \<longrightarrow> strncpy m s t (uint n) x = m x)"
proof -
  let ?f = "strfield m t (unat n)"
  let ?bs = "?f @ replicate (unat n - length ?f) 0"
  have len: "length ?bs = unat n" using length_strfield [of m t "unat n"] by simp
  have nat_n: "nat (uint n) = unat n" by simp
  have copy: "strncpy m s t (uint n) = wrbytes m s ?bs"
    unfolding strncpy_def nat_n using assms by (intro strncpy_loop_wrbytes) simp_all
  have field: "rdbytes (wrbytes m s ?bs) s (unat n) = ?bs"
    using rdbytes_wrbytes [of ?bs m s] len by simp
  have "takeWhile (\<lambda>b. b \<noteq> 0) ?bs = ?f @ takeWhile (\<lambda>b. b \<noteq> 0) (replicate (unat n - length ?f) 0)"
    by (rule takeWhile_append2) (auto simp: strfield_def dest: set_takeWhileD)
  then have "strfield (wrbytes m s ?bs) s (unat n) = ?f"
    by (simp add: strfield_def [of "wrbytes m s ?bs"] field takeWhile_replicate)
  moreover have "strfield (wrbytes m s ?bs) t (unat n) = ?f"
    using assms len by (simp add: strfield_def rdbytes_wrbytes_other)
  ultimately have "strncmp (wrbytes m s ?bs) s t n = 0"
    by (simp add: strncmp_def strncmp_loop_0_iff)
  then show ?thesis using len by (simp add: copy field mem_simps)
qed

theorem strncpy_strncmp_witness:
  "strncmp (strncpy ((\<lambda>_. 0)(100 := 97, 101 := 98)) 200 100 14) 200 100 14 = 0"
proof -
  have "disjoint_blocks 100 (unat (14 :: u32)) 200 (unat (14 :: u32))"
    unfolding disjoint_blocks_def by (auto simp: unat_word_ariths unat_sub_if' split: if_splits)
  from strncpy_strncmp [OF this, of "(\<lambda>_. 0)(100 := 97, 101 := 98)"] show ?thesis by simp
qed

text \<open>
  \<open>safestrcpy\<close> always terminates its result: for a positive size the destination holds, as a C
  string, the first \<open>n - 1\<close> bytes of the source (fewer if the source ends earlier), and nothing
  outside the \<open>n\<close> bytes of the destination changes.
\<close>

theorem safestrcpy_terminated:
  assumes "0 < n" "n < 2 ^ 31" "disjoint_blocks t (nat n - 1) s (nat n)"
  shows "cstr (safestrcpy m s t n) s (strfield m t (nat n - 1)) \<and>
    (\<forall>x. nat n \<le> unat (x - s) \<longrightarrow> safestrcpy m s t n x = m x)"
proof -
  define k where "k = nat n - 1"
  have k: "nat n = Suc k" using assms(1) by (simp add: k_def)
  have "nat n < 2 ^ 31" using assms(2) by simp
  then have small: "Suc k < 2 ^ 64" by (simp add: k)
  let ?f = "strfield m t k"
  let ?bs = "?f @ 0 # (if length ?f < k then [0] else [])"
  have len: "length ?f \<le> k" by (rule length_strfield)
  have "safestrcpy m s t n = safestrcpy_loop m s t k"
    using assms(1) by (simp add: safestrcpy_def k_def)
  then have copy: "safestrcpy m s t n = wrbytes m s ?bs"
    using safestrcpy_loop_wrbytes [OF _ small] assms(3) [unfolded k] by simp
  have at: "wrbytes m s ?bs (s + of_nat i) = ?bs ! i" if "i \<le> length ?f" for i
    using that len small by (simp add: mem_simps)
  have "rdbytes (wrbytes m s ?bs) s (length ?f) = ?f"
    by (rule nth_equalityI) (use at in \<open>auto simp: nth_append\<close>)
  moreover have "0 \<notin> set ?f" by (auto simp: strfield_def dest: set_takeWhileD)
  moreover have "wrbytes m s ?bs (s + of_nat (length ?f)) = 0"
    using at [of "length ?f"] by simp
  ultimately have "cstr (wrbytes m s ?bs) s ?f" by (simp add: cstr_def)
  moreover have "length ?bs \<le> nat n" using len k by simp
  ultimately show ?thesis by (auto simp: copy mem_simps k_def)
qed

theorem safestrcpy_terminated_witness:
  "cstr (safestrcpy (\<lambda>_. 65) 200 100 4) 200 [65, 65, 65]"
proof -
  have "disjoint_blocks 100 (nat 4 - 1) 200 (nat 4)"
    unfolding disjoint_blocks_def by (auto simp: unat_word_ariths unat_sub_if' split: if_splits)
  from safestrcpy_terminated [OF _ _ this, of "\<lambda>_. 65"] show ?thesis
    by (simp add: strfield_def rdbytes_def upt_rec)
qed

end
