(* ===== verification/Riscv.thy ===== *)
theory Riscv
  imports Machine
begin

text \<open>
  The constants and macros of \<^verbatim>\<open>kernel/riscv.h\<close>, \<^verbatim>\<open>kernel/memlayout.h\<close> and
  \<^verbatim>\<open>kernel/param.h\<close> that the components use: the page size and rounding, the fields of a page
  table entry, the three indices of an Sv39 virtual address, and the memory map.
\<close>

section \<open>Constants\<close>

abbreviation (input) PGSIZE :: u64 where "PGSIZE \<equiv> 4096"
abbreviation (input) PGSHIFT :: nat where "PGSHIFT \<equiv> 12"

abbreviation (input) PTE_V :: u64 where "PTE_V \<equiv> 1"
abbreviation (input) PTE_R :: u64 where "PTE_R \<equiv> 2"
abbreviation (input) PTE_W :: u64 where "PTE_W \<equiv> 4"
abbreviation (input) PTE_X :: u64 where "PTE_X \<equiv> 8"
abbreviation (input) PTE_U :: u64 where "PTE_U \<equiv> 16"

abbreviation (input) MAXVA :: u64 where "MAXVA \<equiv> 0x4000000000"
abbreviation (input) UART0 :: u64 where "UART0 \<equiv> 0x10000000"
abbreviation (input) VIRTIO0 :: u64 where "VIRTIO0 \<equiv> 0x10001000"
abbreviation (input) PLIC :: u64 where "PLIC \<equiv> 0x0c000000"
abbreviation (input) KERNBASE :: u64 where "KERNBASE \<equiv> 0x80000000"
abbreviation (input) PHYSTOP :: u64 where "PHYSTOP \<equiv> 0x88000000"
abbreviation (input) TRAMPOLINE :: u64 where "TRAMPOLINE \<equiv> MAXVA - PGSIZE"
abbreviation (input) TRAPFRAME :: u64 where "TRAPFRAME \<equiv> TRAMPOLINE - PGSIZE"

definition KSTACK :: "nat \<Rightarrow> u64" where
  "KSTACK p = TRAMPOLINE - of_nat (p + 1) * 2 * PGSIZE"

abbreviation (input) NPROC :: nat where "NPROC \<equiv> 64"
abbreviation (input) NCPU :: nat where "NCPU \<equiv> 8"
abbreviation (input) NOFILE :: nat where "NOFILE \<equiv> 16"
abbreviation (input) NFILE :: nat where "NFILE \<equiv> 100"
abbreviation (input) NINODE :: nat where "NINODE \<equiv> 50"
abbreviation (input) NDEV :: nat where "NDEV \<equiv> 10"
abbreviation (input) ROOTDEV :: u32 where "ROOTDEV \<equiv> 1"
abbreviation (input) MAXARG :: nat where "MAXARG \<equiv> 32"
abbreviation (input) MAXOPBLOCKS :: nat where "MAXOPBLOCKS \<equiv> 10"
abbreviation (input) LOGSIZE :: nat where "LOGSIZE \<equiv> MAXOPBLOCKS * 3"
abbreviation (input) NBUF :: nat where "NBUF \<equiv> MAXOPBLOCKS * 3"
abbreviation (input) FSSIZE :: nat where "FSSIZE \<equiv> 2000"
abbreviation (input) MAXPATH :: nat where "MAXPATH \<equiv> 128"
abbreviation (input) USERSTACK :: u64 where "USERSTACK \<equiv> 1"

section \<open>Macros\<close>

definition PGROUNDUP :: "u64 \<Rightarrow> u64" where
  "PGROUNDUP sz = (sz + PGSIZE - 1) AND NOT (PGSIZE - 1)"

definition PGROUNDDOWN :: "u64 \<Rightarrow> u64" where
  "PGROUNDDOWN a = a AND NOT (PGSIZE - 1)"

definition PA2PTE :: "u64 \<Rightarrow> u64" where
  "PA2PTE pa = push_bit 10 (drop_bit 12 pa)"

definition PTE2PA :: "u64 \<Rightarrow> u64" where
  "PTE2PA pte = push_bit 12 (drop_bit 10 pte)"

definition PTE_FLAGS :: "u64 \<Rightarrow> u64" where
  "PTE_FLAGS pte = pte AND 0x3FF"

definition PXSHIFT :: "nat \<Rightarrow> nat" where
  "PXSHIFT level = PGSHIFT + 9 * level"

definition PX :: "nat \<Rightarrow> u64 \<Rightarrow> u64" where
  "PX level va = drop_bit (PXSHIFT level) va AND 0x1FF"

definition MAKE_SATP :: "u64 \<Rightarrow> u64" where
  "MAKE_SATP pagetable = push_bit 60 8 OR drop_bit 12 pagetable"

section \<open>Bits of the masks\<close>

lemma mask_9: "(0x1FF :: u64) = mask 9" by (simp add: mask_eq_exp_minus_1)
lemma mask_10: "(0x3FF :: u64) = mask 10" by (simp add: mask_eq_exp_minus_1)
lemma mask_12: "(0xFFF :: u64) = mask 12" by (simp add: mask_eq_exp_minus_1)

lemma bit_PX: "bit (PX l va) n \<longleftrightarrow> n < 9 \<and> bit va (PXSHIFT l + n)"
  by (auto simp: PX_def mask_9 bit_simps)

lemma PX_less: "unat (PX l va) < 512"
proof -
  have "PX l va = take_bit 9 (drop_bit (PXSHIFT l) va)"
    by (simp add: PX_def mask_9 take_bit_eq_mask)
  then have "unat (PX l va) = take_bit 9 (unat (drop_bit (PXSHIFT l) va))"
    by (simp only: unsigned_take_bit_eq)
  then show ?thesis by (simp add: take_bit_eq_mod)
qed

lemma PGROUNDDOWN_drop_bit: "PGROUNDDOWN a = push_bit 12 (drop_bit 12 a)"
  by (rule bit_word_eqI) (auto simp: PGROUNDDOWN_def mask_12 bit_simps)

lemma unat_PGROUNDDOWN: "unat (PGROUNDDOWN a) = unat a div 4096 * 4096"
proof -
  have "unat a div 4096 * 4096 < 2 ^ 64"
    using unat_less_64 [of a] by (meson div_times_less_eq_dividend le_less_trans)
  then show ?thesis
    by (simp add: PGROUNDDOWN_drop_bit drop_bit_eq_div push_bit_eq_mult unat_word_ariths
        unat_div_distrib)
qed

lemma unat_PGROUNDUP:
  assumes "unat sz + 4095 < 2 ^ 64"
  shows "unat (PGROUNDUP sz) = (unat sz + 4095) div 4096 * 4096"
proof -
  have "PGROUNDUP sz = PGROUNDDOWN (sz + 4095)" by (simp add: PGROUNDUP_def PGROUNDDOWN_def add.commute)
  moreover have "unat (sz + 4095) = unat sz + 4095"
    using assms by (simp add: unat_word_ariths)
  ultimately show ?thesis by (simp add: unat_PGROUNDDOWN)
qed

section \<open>Page-aligned addresses\<close>

definition page_aligned :: "u64 \<Rightarrow> bool" where
  "page_aligned a \<longleftrightarrow> a mod PGSIZE = 0"

lemma page_aligned_unat: "page_aligned a \<longleftrightarrow> 4096 dvd unat a"
proof -
  have "unat (a mod 4096) = unat a mod 4096" by (simp add: unat_mod_distrib)
  then show ?thesis by (auto simp: page_aligned_def dvd_eq_mod_eq_0 simp flip: unat_0_iff)
qed

lemma page_aligned_bits: "page_aligned a \<longleftrightarrow> (\<forall>n < 12. \<not> bit a n)"
proof -
  have "a mod 4096 = take_bit 12 a" by (simp add: take_bit_eq_mod)
  then show ?thesis by (auto simp: page_aligned_def bit_eq_iff bit_simps)
qed

lemma page_aligned_PTE2PA [simp]: "page_aligned (PTE2PA pte)"
  by (auto simp: page_aligned_bits PTE2PA_def bit_simps)

lemma page_aligned_PGROUNDDOWN [simp]: "page_aligned (PGROUNDDOWN a)"
  by (auto simp: page_aligned_bits PGROUNDDOWN_drop_bit bit_simps)

lemma page_aligned_PGROUNDUP [simp]: "page_aligned (PGROUNDUP a)"
proof -
  have "PGROUNDUP a = PGROUNDDOWN (a + 4095)" by (simp add: PGROUNDUP_def PGROUNDDOWN_def add.commute)
  then show ?thesis by simp
qed

text \<open>Addresses of different pages are different, and the blocks of different pages are disjoint.\<close>

lemma page_offset_unat:
  assumes "page_aligned a" "i < 4096"
  shows "unat (a + of_nat i) = unat a + i"
proof -
  obtain k where k: "unat a = 4096 * k" using assms(1) by (auto simp: page_aligned_unat)
  moreover have "unat a < 2 ^ 64" by (rule unat_less_64)
  ultimately have "k < 2 ^ 52" by simp
  then have "4096 * k + i < 2 ^ 64" using assms(2) by simp
  then show ?thesis using k assms(2) by (simp add: unat_word_ariths unat_of_nat)
qed

lemma page_offset_unique:
  assumes "page_aligned a" "page_aligned b" "i < 4096" "j < 4096"
    and "a + of_nat i = b + of_nat j"
  shows "a = b \<and> i = j"
proof -
  have eq: "unat a + i = unat b + j" using assms page_offset_unat by metis
  have "(unat a + i) div 4096 * 4096 = unat a" "(unat b + j) div 4096 * 4096 = unat b"
    using assms by (auto simp: page_aligned_unat elim!: dvdE)
  with eq have "unat a = unat b" by metis
  with eq show ?thesis by (auto intro: word_unatI)
qed

lemma in_page:
  assumes "unat (x - a) < 4096"
  obtains i where "i < 4096" "x = a + of_nat i"
proof
  show "unat (x - a) < 4096" by fact
  show "x = a + of_nat (unat (x - a))" by simp
qed

lemma disjoint_pages:
  assumes "page_aligned a" "page_aligned b" "a \<noteq> b" "i + n \<le> 4096" "j + k \<le> 4096"
  shows "disjoint_blocks (a + of_nat i) n (b + of_nat j) k"
  unfolding disjoint_blocks_def
proof (intro allI notI)
  fix x assume "unat (x - (a + of_nat i)) < n \<and> unat (x - (b + of_nat j)) < k"
  moreover define i' j' where "i' = unat (x - (a + of_nat i))" and "j' = unat (x - (b + of_nat j))"
  ultimately have *: "i' < n" "j' < k" "x = a + of_nat i + of_nat i'" "x = b + of_nat j + of_nat j'"
    by simp_all
  then have "a + of_nat (i + i') = b + of_nat (j + j')" by (simp add: add.assoc)
  with assms * show False using page_offset_unique [of a b "i + i'" "j + j'"] by simp
qed

end
