(* ===== verification/Intrusive_Lists.thy ===== *)
theory Intrusive_Lists
  imports Prelude
begin

text \<open>
  The templates \<^verbatim>\<open>kernel/intrusive_slist.h\<close> and \<^verbatim>\<open>kernel/intrusive_dlist.h\<close>. A template
  argument \<^verbatim>\<open>T\<close> supplies the link fields of its nodes; here the accessors of those fields in the
  store \<open>'s\<close> that holds the nodes are arguments of the operations, and a null pointer is \<open>None\<close>.
  The locales state what the lists need of the accessors; the theories whose objects are linked
  (free pages, disk buffers) interpret them.
\<close>

section \<open>Singly linked lists\<close>

record 'p slist =
  slist_head :: "'p option"
  slist_count :: u64

definition slist_new :: "'p slist" where
  "slist_new = \<lparr>slist_head = None, slist_count = 0\<rparr>"

definition slist_empty :: "'p slist \<Rightarrow> bool" where
  "slist_empty l \<longleftrightarrow> slist_head l = None"

definition slist_push :: "('p \<Rightarrow> 'p option \<Rightarrow> 's \<Rightarrow> 's) \<Rightarrow> 'p \<Rightarrow> 'p slist \<Rightarrow> 's \<Rightarrow> 'p slist \<times> 's" where
  "slist_push set_next ptr l s =
     (l\<lparr>slist_head := Some ptr, slist_count := slist_count l + 1\<rparr>, set_next ptr (slist_head l) s)"

definition slist_pop :: "('s \<Rightarrow> 'p \<Rightarrow> 'p option) \<Rightarrow> 'p slist \<Rightarrow> 's \<Rightarrow> 'p option \<times> 'p slist" where
  "slist_pop get_next l s =
     (case slist_head l of
        None \<Rightarrow> (None, l)
      | Some n \<Rightarrow> (Some n, l\<lparr>slist_head := get_next s n, slist_count := slist_count l - 1\<rparr>))"

definition slist_peek :: "'p slist \<Rightarrow> 'p option" where
  "slist_peek l = slist_head l"

definition slist_get_count :: "'p slist \<Rightarrow> u64" where
  "slist_get_count l = slist_count l"

text \<open>The nodes reached from the head, in order.\<close>

fun chain :: "('s \<Rightarrow> 'p \<Rightarrow> 'p option) \<Rightarrow> 's \<Rightarrow> 'p option \<Rightarrow> 'p list \<Rightarrow> bool" where
  "chain get_next s p [] \<longleftrightarrow> p = None"
| "chain get_next s p (x # xs) \<longleftrightarrow> p = Some x \<and> chain get_next s (get_next s x) xs"

definition slist_abs :: "('s \<Rightarrow> 'p \<Rightarrow> 'p option) \<Rightarrow> 's \<Rightarrow> 'p slist \<Rightarrow> 'p list \<Rightarrow> bool" where
  "slist_abs get_next s l xs \<longleftrightarrow>
     chain get_next s (slist_head l) xs \<and> distinct xs \<and> slist_count l = of_nat (length xs)"

lemma chain_cong:
  "(\<And>x. x \<in> set xs \<Longrightarrow> get_next s x = get_next s' x) \<Longrightarrow> chain get_next s p xs = chain get_next s' p xs"
  by (induction xs arbitrary: p) auto

lemma chain_unique: "chain g s p xs \<Longrightarrow> chain g s p ys \<Longrightarrow> xs = ys"
proof (induction xs arbitrary: p ys)
  case Nil
  then show ?case by (cases ys) auto
next
  case (Cons x xs)
  then show ?case by (cases ys) auto
qed

lemma slist_abs_unique: "slist_abs g s l xs \<Longrightarrow> slist_abs g s l ys \<Longrightarrow> xs = ys"
  by (auto simp: slist_abs_def intro: chain_unique)

lemma slist_abs_new: "slist_abs g s slist_new []"
  by (simp add: slist_abs_def slist_new_def)

lemma slist_empty_abs: "slist_abs g s l xs \<Longrightarrow> slist_empty l \<longleftrightarrow> xs = []"
  by (cases xs) (auto simp: slist_abs_def slist_empty_def)

lemma slist_pop_abs:
  assumes "slist_abs g s l xs"
  shows "slist_pop g l s = (case xs of [] \<Rightarrow> (None, l) | x # ys \<Rightarrow>
      (Some x, l\<lparr>slist_head := g s x, slist_count := of_nat (length ys)\<rparr>))"
  using assms by (auto simp: slist_abs_def slist_pop_def split: list.splits)

lemma slist_pop_rest:
  "slist_abs g s l (x # xs) \<Longrightarrow> slist_pop g l s = (r, l') \<Longrightarrow> r = Some x \<and> slist_abs g s l' xs"
  by (auto simp: slist_abs_def slist_pop_def)

locale slist_nodes =
  fixes get_next :: "'s \<Rightarrow> 'p \<Rightarrow> 'p option"
    and set_next :: "'p \<Rightarrow> 'p option \<Rightarrow> 's \<Rightarrow> 's"
    and node :: "'p \<Rightarrow> bool"
  assumes get_set: "node p \<Longrightarrow> pred_option node q \<Longrightarrow> get_next (set_next p q s) p = q"
    and get_set_other: "node p \<Longrightarrow> node p' \<Longrightarrow> p \<noteq> p' \<Longrightarrow> get_next (set_next p q s) p' = get_next s p'"
begin

lemma push_abs:
  assumes "slist_abs get_next s l xs" "\<forall>x \<in> set xs. node x" "node p" "p \<notin> set xs"
    and "slist_push set_next p l s = (l', s')"
  shows "slist_abs get_next s' l' (p # xs)"
proof -
  have ch: "chain get_next s (slist_head l) xs" using assms(1) by (simp add: slist_abs_def)
  then have hd: "pred_option node (slist_head l)" using assms(2) by (cases xs) auto
  have s': "s' = set_next p (slist_head l) s" using assms(5) by (auto simp: slist_push_def)
  have "chain get_next s' (slist_head l) xs = chain get_next s (slist_head l) xs"
    unfolding s' using assms(2-4) by (intro chain_cong get_set_other) auto
  with ch hd assms show ?thesis
    by (auto simp: slist_abs_def slist_push_def get_set add.commute)
qed

lemma pop_push:
  assumes "slist_abs get_next s l xs" "\<forall>x \<in> set xs. node x" "node p" "p \<notin> set xs"
    and "slist_push set_next p l s = (l', s')"
  shows "slist_pop get_next l' s' = (Some p, l)"
proof -
  have "pred_option node (slist_head l)"
    using assms(1,2) by (cases xs) (auto simp: slist_abs_def)
  with assms show ?thesis by (auto simp: slist_push_def slist_pop_def get_set)
qed

end

section \<open>Doubly linked lists\<close>

record 'p dlist =
  dlist_head :: "'p option"
  dlist_tail :: "'p option"
  dlist_count :: u64

record ('p, 's) dlinks =
  get_prev :: "'s \<Rightarrow> 'p \<Rightarrow> 'p option"
  get_next :: "'s \<Rightarrow> 'p \<Rightarrow> 'p option"
  set_prev :: "'p \<Rightarrow> 'p option \<Rightarrow> 's \<Rightarrow> 's"
  set_next :: "'p \<Rightarrow> 'p option \<Rightarrow> 's \<Rightarrow> 's"

definition dlist_new :: "'p dlist" where
  "dlist_new = \<lparr>dlist_head = None, dlist_tail = None, dlist_count = 0\<rparr>"

definition dlist_empty :: "'p dlist \<Rightarrow> bool" where
  "dlist_empty l \<longleftrightarrow> dlist_head l = None"

definition dlist_push_front :: "('p, 's) dlinks \<Rightarrow> 'p \<Rightarrow> 'p dlist \<Rightarrow> 's \<Rightarrow> 'p dlist \<times> 's" where
  "dlist_push_front k node l s =
     (let s = set_prev k node None s;
          s = set_next k node (dlist_head l) s;
          (l, s) = (case dlist_head l of
                      Some h \<Rightarrow> (l, set_prev k h (Some node) s)
                    | None \<Rightarrow> (l\<lparr>dlist_tail := Some node\<rparr>, s))
      in (l\<lparr>dlist_head := Some node, dlist_count := dlist_count l + 1\<rparr>, s))"

definition dlist_push_back :: "('p, 's) dlinks \<Rightarrow> 'p \<Rightarrow> 'p dlist \<Rightarrow> 's \<Rightarrow> 'p dlist \<times> 's" where
  "dlist_push_back k node l s =
     (let s = set_next k node None s;
          s = set_prev k node (dlist_tail l) s;
          (l, s) = (case dlist_tail l of
                      Some t \<Rightarrow> (l, set_next k t (Some node) s)
                    | None \<Rightarrow> (l\<lparr>dlist_head := Some node\<rparr>, s))
      in (l\<lparr>dlist_tail := Some node, dlist_count := dlist_count l + 1\<rparr>, s))"

definition dlist_remove :: "('p, 's) dlinks \<Rightarrow> 'p \<Rightarrow> 'p dlist \<Rightarrow> 's \<Rightarrow> 'p dlist \<times> 's" where
  "dlist_remove k node l s =
     (let (l, s) = (case get_prev k s node of
                      Some p \<Rightarrow> (l, set_next k p (get_next k s node) s)
                    | None \<Rightarrow> (l\<lparr>dlist_head := get_next k s node\<rparr>, s));
          (l, s) = (case get_next k s node of
                      Some n \<Rightarrow> (l, set_prev k n (get_prev k s node) s)
                    | None \<Rightarrow> (l\<lparr>dlist_tail := get_prev k s node\<rparr>, s));
          s = set_next k node None s;
          s = set_prev k node None s
      in (l\<lparr>dlist_count := dlist_count l - 1\<rparr>, s))"

definition dlist_pop_front :: "('p, 's) dlinks \<Rightarrow> 'p dlist \<Rightarrow> 's \<Rightarrow> 'p option \<times> 'p dlist \<times> 's" where
  "dlist_pop_front k l s =
     (case dlist_head l of None \<Rightarrow> (None, l, s) | Some n \<Rightarrow> (Some n, dlist_remove k n l s))"

definition dlist_pop_back :: "('p, 's) dlinks \<Rightarrow> 'p dlist \<Rightarrow> 's \<Rightarrow> 'p option \<times> 'p dlist \<times> 's" where
  "dlist_pop_back k l s =
     (case dlist_tail l of None \<Rightarrow> (None, l, s) | Some n \<Rightarrow> (Some n, dlist_remove k n l s))"

text \<open>
  A segment: the nodes \<open>xs\<close> are linked in both directions, the first one back to \<open>a\<close> and the last
  one on to \<open>b\<close>.
\<close>

definition first_or :: "'p list \<Rightarrow> 'p option \<Rightarrow> 'p option" where
  "first_or xs d = (case xs of [] \<Rightarrow> d | x # _ \<Rightarrow> Some x)"

definition last_or :: "'p list \<Rightarrow> 'p option \<Rightarrow> 'p option" where
  "last_or xs d = (if xs = [] then d else Some (last xs))"

fun dseg :: "('p, 's) dlinks \<Rightarrow> 's \<Rightarrow> 'p option \<Rightarrow> 'p list \<Rightarrow> 'p option \<Rightarrow> bool" where
  "dseg k s a [] b \<longleftrightarrow> True"
| "dseg k s a (x # xs) b \<longleftrightarrow>
     get_prev k s x = a \<and> get_next k s x = first_or xs b \<and> dseg k s (Some x) xs b"

definition dlist_abs :: "('p, 's) dlinks \<Rightarrow> 's \<Rightarrow> 'p dlist \<Rightarrow> 'p list \<Rightarrow> bool" where
  "dlist_abs k s l xs \<longleftrightarrow> distinct xs \<and> dseg k s None xs None \<and>
     dlist_head l = first_or xs None \<and> dlist_tail l = last_or xs None \<and>
     dlist_count l = of_nat (length xs)"

lemma first_or_simps [simp]:
  "first_or [] d = d" "first_or (x # xs) d = Some x"
  "first_or (xs @ ys) d = first_or xs (first_or ys d)"
  by (auto simp: first_or_def split: list.splits)

lemma last_or_simps [simp]:
  "last_or [] d = d" "last_or (x # xs) d = last_or xs (Some x)"
  "last_or (xs @ ys) d = last_or ys (last_or xs d)"
  by (auto simp: last_or_def)

lemma dseg_append: "dseg k s a (xs @ ys) b \<longleftrightarrow> dseg k s a xs (first_or ys b) \<and> dseg k s (last_or xs a) ys b"
  by (induction xs arbitrary: a) auto

lemma dseg_cong:
  assumes "\<And>x. x \<in> set xs \<Longrightarrow> get_prev k s x = get_prev k s' x \<and> get_next k s x = get_next k s' x"
  shows "dseg k s a xs b = dseg k s' a xs b"
  using assms by (induction xs arbitrary: a) auto

lemma first_or_in: "xs \<noteq> [] \<Longrightarrow> first_or xs d = Some (hd xs)"
  by (cases xs) auto

lemma dlist_abs_new: "dlist_abs k s dlist_new []"
  by (simp add: dlist_abs_def dlist_new_def)

lemma dlist_empty_abs: "dlist_abs k s l xs \<Longrightarrow> dlist_empty l \<longleftrightarrow> xs = []"
  by (cases xs) (auto simp: dlist_abs_def dlist_empty_def)

locale dlist_nodes =
  fixes k :: "('p, 's) dlinks"
  assumes prev_set_prev [simp]: "get_prev k (set_prev k p q s) x = (if x = p then q else get_prev k s x)"
    and next_set_next [simp]: "get_next k (set_next k p q s) x = (if x = p then q else get_next k s x)"
    and prev_set_next [simp]: "get_prev k (set_next k p q s) x = get_prev k s x"
    and next_set_prev [simp]: "get_next k (set_prev k p q s) x = get_next k s x"
begin

text \<open>Relinking the ends of a segment.\<close>

lemma dseg_set_prev_hd:
  assumes "dseg k s a (x # xs) b" "x \<notin> set xs"
  shows "dseg k (set_prev k x p s) p (x # xs) b"
proof -
  have "dseg k (set_prev k x p s) (Some x) xs b = dseg k s (Some x) xs b"
    using assms(2) by (intro dseg_cong) auto
  with assms show ?thesis by simp
qed

lemma dseg_set_next_last:
  assumes "dseg k s a (xs @ [x]) b" "x \<notin> set xs"
  shows "dseg k (set_next k x q s) a (xs @ [x]) q"
proof -
  have "dseg k (set_next k x q s) a xs (Some x) = dseg k s a xs (Some x)"
    using assms(2) by (intro dseg_cong) auto
  with assms show ?thesis by (simp add: dseg_append)
qed

lemma dseg_set_other:
  assumes "n \<notin> set xs"
  shows "dseg k (set_prev k n p s) a xs b = dseg k s a xs b"
    and "dseg k (set_next k n p s) a xs b = dseg k s a xs b"
  using assms by (auto intro!: dseg_cong)

lemma push_front_abs:
  assumes "dlist_abs k s l xs" "n \<notin> set xs" "dlist_push_front k n l s = (l', s')"
  shows "dlist_abs k s' l' (n # xs)"
proof (cases xs)
  case Nil
  then show ?thesis using assms
    by (auto simp: dlist_abs_def dlist_push_front_def Let_def)
next
  case (Cons h ys)
  let ?s = "set_next k n (Some h) (set_prev k n None s)"
  have "dseg k ?s None xs None" using assms(1,2) by (simp add: dlist_abs_def dseg_set_other)
  then have "dseg k (set_prev k h (Some n) ?s) (Some n) xs None"
    using assms(1) Cons unfolding Cons by (intro dseg_set_prev_hd) (auto simp: dlist_abs_def)
  then show ?thesis using assms Cons
    by (auto simp: dlist_abs_def dlist_push_front_def Let_def add.commute)
qed

lemma push_back_abs:
  assumes "dlist_abs k s l xs" "n \<notin> set xs" "dlist_push_back k n l s = (l', s')"
  shows "dlist_abs k s' l' (xs @ [n])"
proof (cases xs rule: rev_cases)
  case Nil
  then show ?thesis using assms
    by (auto simp: dlist_abs_def dlist_push_back_def Let_def)
next
  case (snoc ys t)
  let ?s = "set_prev k n (Some t) (set_next k n None s)"
  have "dseg k ?s None xs None" using assms(1,2) by (simp add: dlist_abs_def dseg_set_other)
  then have "dseg k (set_next k t (Some n) ?s) None xs (Some n)"
    using assms(1) snoc unfolding snoc by (intro dseg_set_next_last) (auto simp: dlist_abs_def)
  then show ?thesis using assms snoc
    by (auto simp: dlist_abs_def dlist_push_back_def Let_def add.commute dseg_append)
qed

lemma remove_abs:
  assumes "dlist_abs k s l (xs @ n # ys)" "dlist_remove k n l s = (l', s')"
  shows "dlist_abs k s' l' (xs @ ys)"
proof -
  have d: "distinct (xs @ n # ys)" and hd: "dlist_head l = first_or xs (Some n)"
    and tl: "dlist_tail l = last_or ys (Some n)"
    and sx: "dseg k s None xs (Some n)" and sy: "dseg k s (Some n) ys None"
    and pn: "get_prev k s n = last_or xs None" and nn: "get_next k s n = first_or ys None"
    and cnt: "dlist_count l = of_nat (length xs) + of_nat (length ys) + 1"
    using assms(1) by (auto simp: dlist_abs_def dseg_append)
  define s1 where "s1 = (if xs = [] then s else set_next k (last xs) (first_or ys None) s)"
  define s2 where "s2 = (if ys = [] then s1 else set_prev k (hd ys) (last_or xs None) s1)"
  have x1: "dseg k s1 None xs (first_or ys None)"
    unfolding s1_def using d sx
    by (cases xs rule: rev_cases) (auto intro: dseg_set_next_last)
  have y1: "dseg k s1 (Some n) ys None"
    unfolding s1_def using d sy by (cases xs rule: rev_cases) (auto simp: dseg_set_other)
  have x2: "dseg k s2 None xs (first_or ys None)"
    unfolding s2_def using d x1 by (cases ys) (auto simp: dseg_set_other)
  have y2: "dseg k s2 (last_or xs None) ys None"
    unfolding s2_def using d y1 dseg_set_prev_hd by (cases ys) auto
  have n1: "get_next k s1 n = first_or ys None" "get_prev k s1 n = last_or xs None"
    unfolding s1_def using d nn pn by (cases xs rule: rev_cases; auto)+
  have s': "s' = set_prev k n None (set_next k n None s2)"
    using assms(2) n1 unfolding dlist_remove_def s2_def s1_def pn nn
    by (cases xs rule: rev_cases; cases ys) (auto simp: Let_def last_or_def)
  have l': "l' = l\<lparr>dlist_head := first_or xs (first_or ys None),
      dlist_tail := last_or ys (last_or xs None), dlist_count := dlist_count l - 1\<rparr>"
    using assms(2) n1 hd tl unfolding dlist_remove_def s1_def pn nn
    by (cases xs; cases ys) (auto simp: Let_def last_or_def)
  show ?thesis using d x2 y2 cnt by (auto simp: dlist_abs_def dseg_append s' l' dseg_set_other)
qed

lemma pop_front_abs:
  assumes "dlist_abs k s l xs" "dlist_pop_front k l s = (r, l', s')"
  shows "r = (case xs of [] \<Rightarrow> None | x # _ \<Rightarrow> Some x) \<and> dlist_abs k s' l' (tl xs)"
proof (cases xs)
  case (Cons x ys)
  with assms have "dlist_remove k x l s = (l', s')" "r = Some x"
    by (auto simp: dlist_pop_front_def dlist_abs_def)
  then show ?thesis using remove_abs [of s l "[]" x ys] assms(1) Cons by simp
qed (use assms in \<open>auto simp: dlist_pop_front_def dlist_abs_def\<close>)

lemma pop_back_abs:
  assumes "dlist_abs k s l xs" "dlist_pop_back k l s = (r, l', s')"
  shows "r = (if xs = [] then None else Some (last xs)) \<and> dlist_abs k s' l' (butlast xs)"
proof (cases xs rule: rev_cases)
  case (snoc ys x)
  with assms have "dlist_remove k x l s = (l', s')" "r = Some x"
    by (auto simp: dlist_pop_back_def dlist_abs_def)
  then show ?thesis using remove_abs [of s l ys x "[]"] assms(1) snoc by simp
qed (use assms in \<open>auto simp: dlist_pop_back_def dlist_abs_def\<close>)

end

end
