(* ===== verification/Page_Allocator.thy ===== *)
theory Page_Allocator
  imports Riscv Intrusive_Lists
begin

text \<open>
  \<^verbatim>\<open>kernel/page_allocator.cpp\<close>: the allocator of physical pages. A free page holds the link of
  the free list in its own first eight bytes, so the state is physical memory together with the
  list object. Between \<^verbatim>\<open>lock_guard\<close>'s acquire and release an operation is one atomic step.
  The linker symbol \<^verbatim>\<open>end\<close> (the first address after the kernel image) is the argument \<open>kend\<close>.
\<close>

section \<open>State and operations\<close>

record machine =
  ram :: mem

record kmem = machine +
  free_list :: "u64 slist"

text \<open>The member \<^verbatim>\<open>next\<close> of \<^verbatim>\<open>page_allocator::page\<close>, in memory.\<close>

definition page_next :: "mem \<Rightarrow> u64 \<Rightarrow> u64 option" where
  "page_next m p = (let v = load64 m p in if v = 0 then None else Some v)"

definition page_set_next :: "u64 \<Rightarrow> u64 option \<Rightarrow> mem \<Rightarrow> mem" where
  "page_set_next p q m = store64 m p (case q of None \<Rightarrow> 0 | Some a \<Rightarrow> a)"

definition page_alloc :: "'a kmem_scheme \<Rightarrow> u64 option \<times> 'a kmem_scheme" where
  "page_alloc s = (let (p, l) = slist_pop page_next (free_list s) (ram s) in (p, s\<lparr>free_list := l\<rparr>))"

definition page_free :: "u64 \<Rightarrow> u64 \<Rightarrow> 'a kmem_scheme \<Rightarrow> 'a kmem_scheme res" where
  "page_free kend p s =
     (if p mod PGSIZE \<noteq> 0 then Panic ''free: unaligned page''
      else if p < kend \<or> p \<ge> PHYSTOP then Panic ''free: out of range''
      else let (l, m) = slist_push page_set_next p (free_list s) (ram s)
           in Ret (s\<lparr>free_list := l, ram := m\<rparr>))"

definition page_get_free_count :: "'a kmem_scheme \<Rightarrow> u64" where
  "page_get_free_count s = slist_get_count (free_list s)"

lemma page_free_range:
  "page_free kend p s = Ret s' \<Longrightarrow> p mod PGSIZE = 0 \<and> kend \<le> p \<and> p < PHYSTOP"
  by (auto simp: page_free_def not_le not_less split: if_splits)

function page_init_loop :: "u64 \<Rightarrow> u64 \<Rightarrow> 'a kmem_scheme \<Rightarrow> 'a kmem_scheme res" where
  "page_init_loop kend p s =
     (if p + PGSIZE \<le> PHYSTOP
      then kbind (page_free kend p s) (\<lambda>s. page_init_loop kend (p + PGSIZE) s)
      else Ret s)"
  by pat_completeness auto
termination
proof (relation "measure (\<lambda>(kend, p, s). unat (PHYSTOP - p))")
  fix kend p :: u64 and s s' :: "'a kmem_scheme"
  assume "p + 4096 \<le> 2281701376" "page_free kend p s = Ret s'"
  then have le: "p + 4096 \<le> 2281701376" and p: "p < 2281701376" by (auto dest: page_free_range)
  have "unat (2281701376 - p) = 2281701376 - unat p"
    using p by (simp add: unat_sub less_imp_le)
  moreover have sum: "unat (p + 4096) = unat p + 4096"
    using p by (simp add: unat_word_ariths word_less_nat_alt)
  moreover have "unat (2281701376 - (p + 4096)) = 2281701376 - unat (p + 4096)"
    using le by (simp only: unat_sub) simp
  moreover have "unat p < 2281701376" using p by (simp add: word_less_nat_alt)
  ultimately show "((kend, p + 4096, s'), (kend, p, s)) \<in> measure (\<lambda>(kend, p, s). unat (2281701376 - p))"
    by simp
qed simp

declare page_init_loop.simps [simp del]

definition page_allocator_init :: "u64 \<Rightarrow> mem \<Rightarrow> kmem res" where
  "page_allocator_init kend m =
     page_init_loop kend (PGROUNDUP kend) \<lparr>ram = m, free_list = slist_new\<rparr>"

section \<open>The free list in memory\<close>

definition page_node :: "u64 \<Rightarrow> bool" where
  "page_node p \<longleftrightarrow> page_aligned p \<and> p \<noteq> 0"

lemma disjoint_page_words:
  "page_aligned a \<Longrightarrow> page_aligned b \<Longrightarrow> a \<noteq> b \<Longrightarrow> disjoint_blocks a 8 b 8"
  using disjoint_pages [of a b 0 8 0 8] by simp

interpretation free_pages: slist_nodes page_next page_set_next page_node
proof
  fix p :: u64 and q :: "u64 option" and s :: mem
  assume "page_node p" "pred_option page_node q"
  then show "page_next (page_set_next p q s) p = q"
    by (cases q) (auto simp: page_next_def page_set_next_def page_node_def)
next
  fix p p' :: u64 and q :: "u64 option" and s :: mem
  assume "page_node p" "page_node p'" "p \<noteq> p'"
  then show "page_next (page_set_next p q s) p' = page_next s p'"
    by (simp add: page_next_def page_set_next_def page_node_def load64_store64_other disjoint_page_words)
qed

text \<open>A page the allocator may hand out.\<close>

definition page_ok :: "u64 \<Rightarrow> u64 \<Rightarrow> bool" where
  "page_ok kend p \<longleftrightarrow> page_aligned p \<and> kend \<le> p \<and> p < PHYSTOP"

definition free_pages :: "u64 \<Rightarrow> 'a kmem_scheme \<Rightarrow> u64 list \<Rightarrow> bool" where
  "free_pages kend s ps \<longleftrightarrow> 0 < kend \<and> slist_abs page_next (ram s) (free_list s) ps \<and> (\<forall>p \<in> set ps. page_ok kend p)"

lemma page_ok_node: "0 < kend \<Longrightarrow> page_ok kend p \<Longrightarrow> page_node p"
  by (auto simp: page_ok_def page_node_def)

lemma free_pages_distinct: "free_pages kend s ps \<Longrightarrow> distinct ps"
  by (simp add: free_pages_def slist_abs_def)

lemma free_pages_unique: "free_pages kend s ps \<Longrightarrow> free_pages kend s qs \<Longrightarrow> ps = qs"
  by (auto simp: free_pages_def intro: slist_abs_unique)

lemma page_free_Ret_iff:
  "page_free kend p s = Ret s' \<longleftrightarrow> page_ok kend p \<and>
     s' = s\<lparr>free_list := fst (slist_push page_set_next p (free_list s) (ram s)),
            ram := snd (slist_push page_set_next p (free_list s) (ram s))\<rparr>"
  by (auto simp: page_free_def page_ok_def page_aligned_def not_le not_less split: prod.splits)

lemma page_alloc_free_pages:
  assumes "free_pages kend s ps" "page_alloc s = (r, s')"
  shows "r = (case ps of [] \<Rightarrow> None | p # _ \<Rightarrow> Some p) \<and> free_pages kend s' (tl ps)"
proof (cases ps)
  case Nil
  then show ?thesis using assms by (auto simp: page_alloc_def free_pages_def slist_pop_abs)
next
  case (Cons p qs)
  with assms show ?thesis
    by (auto simp: page_alloc_def free_pages_def dest!: slist_pop_rest split: prod.splits)
qed

lemma page_free_free_pages:
  assumes "free_pages kend s ps" "page_free kend p s = Ret s'" "p \<notin> set ps"
  shows "free_pages kend s' (p # ps)"
proof -
  have "0 < kend" using assms(1) by (simp add: free_pages_def)
  obtain l m where push: "slist_push page_set_next p (free_list s) (ram s) = (l, m)" by fastforce
  have ok: "page_ok kend p" and s': "s' = s\<lparr>free_list := l, ram := m\<rparr>"
    using assms(2) push by (simp_all add: page_free_Ret_iff)
  have "slist_abs page_next m l (p # ps)"
    using assms push ok page_ok_node [OF \<open>0 < kend\<close>]
    by (intro free_pages.push_abs) (auto simp: free_pages_def)
  with assms(1) ok s' show ?thesis by (simp add: free_pages_def)
qed

text \<open>What the allocator promises does not depend on the pages it has handed out.\<close>

lemma free_pages_cong:
  assumes "free_pages kend s ps" "free_list s' = free_list s"
    and "\<And>p i. p \<in> set ps \<Longrightarrow> i < 4096 \<Longrightarrow> ram s' (p + of_nat i) = ram s (p + of_nat i)"
  shows "free_pages kend s' ps"
proof -
  have "page_next (ram s) p = page_next (ram s') p" if "p \<in> set ps" for p
    using assms(3) [OF that] unfolding page_next_def by (simp add: load64_cong [of "ram s'" p "ram s"])
  then have "chain page_next (ram s) (slist_head (free_list s)) ps =
      chain page_next (ram s') (slist_head (free_list s)) ps"
    by (intro chain_cong) auto
  with assms(1,2) show ?thesis by (simp add: free_pages_def slist_abs_def)
qed

section \<open>The interface\<close>

text \<open>
  What the rest of the kernel relies on: the allocator hands out pages of a pool, never one page
  twice before it is given back, and giving a page back makes it the next one handed out.
\<close>

fun alloc_pages :: "('s \<Rightarrow> 'p option \<times> 's) \<Rightarrow> nat \<Rightarrow> 's \<Rightarrow> 'p list option \<times> 's" where
  "alloc_pages alloc 0 s = (Some [], s)"
| "alloc_pages alloc (Suc n) s =
     (case alloc s of
        (None, s) \<Rightarrow> (None, s)
      | (Some p, s) \<Rightarrow> (case alloc_pages alloc n s of
            (None, s) \<Rightarrow> (None, s)
          | (Some ps, s) \<Rightarrow> (Some (p # ps), s)))"

locale page_pool =
  fixes alloc :: "'s \<Rightarrow> 'p option \<times> 's"
    and free :: "'p \<Rightarrow> 's \<Rightarrow> 's res"
    and pool :: "'s \<Rightarrow> 'p list \<Rightarrow> bool"
    and page :: "'p \<Rightarrow> bool"
  assumes pool_page: "pool s ps \<Longrightarrow> distinct ps \<and> (\<forall>p \<in> set ps. page p)"
    and alloc_Nil: "pool s [] \<Longrightarrow> alloc s = (r, s') \<Longrightarrow> r = None \<and> pool s' []"
    and alloc_Cons: "pool s (p # ps) \<Longrightarrow> alloc s = (r, s') \<Longrightarrow> r = Some p \<and> pool s' ps"
    and free_pool: "pool s ps \<Longrightarrow> page p \<Longrightarrow> p \<notin> set ps \<Longrightarrow> \<exists>s'. free p s = Ret s' \<and> pool s' (p # ps)"
begin

lemma alloc_pages_pool:
  assumes "pool s ps" "alloc_pages alloc n s = (r, s')"
  shows "if n \<le> length ps then r = Some (take n ps) \<and> pool s' (drop n ps) else r = None \<and> pool s' []"
  using assms
proof (induction n arbitrary: s ps r s')
  case (Suc n)
  obtain q s1 where q: "alloc s = (q, s1)" by fastforce
  show ?case
  proof (cases ps)
    case Nil
    then show ?thesis using Suc.prems q alloc_Nil [of s q s1] by (auto split: prod.splits)
  next
    case (Cons p qs)
    obtain t s2 where t: "alloc_pages alloc n s1 = (t, s2)" by fastforce
    from Cons Suc.prems(1) q have "q = Some p" "pool s1 qs" using alloc_Cons by auto
    with Suc.IH [OF this(2) t] Suc.prems(2) q t Cons show ?thesis by (auto split: if_splits)
  qed
qed auto

lemma alloc_free:
  assumes "pool s (p # ps)" "alloc s = (r, s1)"
  shows "\<exists>s2. r = Some p \<and> free p s1 = Ret s2 \<and> pool s2 (p # ps)"
  using assms alloc_Cons [of s p ps r s1] free_pool [of s1 ps p] pool_page [of s "p # ps"] by auto

end

text \<open>The kernel's allocator is such a pool, for every kernel end above address zero.\<close>

interpretation kernel_pages: page_pool page_alloc "page_free kend" "free_pages kend" "page_ok kend"
  for kend :: u64
proof
  fix s s' :: "'a kmem_scheme" and ps p r
  show "free_pages kend s ps \<Longrightarrow> distinct ps \<and> (\<forall>p \<in> set ps. page_ok kend p)"
    by (auto simp: free_pages_def slist_abs_def)
  show "free_pages kend s [] \<Longrightarrow> page_alloc s = (r, s') \<Longrightarrow> r = None \<and> free_pages kend s' []"
    using page_alloc_free_pages [of kend s "[]" r s'] by simp
  show "free_pages kend s (p # ps) \<Longrightarrow> page_alloc s = (r, s') \<Longrightarrow> r = Some p \<and> free_pages kend s' ps"
    using page_alloc_free_pages [of kend s "p # ps" r s'] by simp
  show "free_pages kend s ps \<Longrightarrow> page_ok kend p \<Longrightarrow> p \<notin> set ps \<Longrightarrow>
      \<exists>s'. page_free kend p s = Ret s' \<and> free_pages kend s' (p # ps)"
    using page_free_free_pages [of kend s ps p] by (simp add: page_free_Ret_iff)
qed

lemma page_alloc_ram: "page_alloc s = (r, s') \<Longrightarrow> ram s' = ram s"
  by (auto simp: page_alloc_def split: prod.splits)

lemma page_alloc_snd:
  "snd (page_alloc s) = s\<lparr>free_list := snd (slist_pop page_next (free_list s) (ram s))\<rparr>"
  by (simp add: page_alloc_def case_prod_beta)

lemma page_alloc_state:
  "page_alloc s = (r, s') \<Longrightarrow> s' = s\<lparr>free_list := snd (slist_pop page_next (free_list s) (ram s))\<rparr>"
  by (metis page_alloc_snd snd_conv)

lemma page_alloc_None: "page_alloc s = (None, s') \<Longrightarrow> s' = s"
  by (auto simp: page_alloc_def slist_pop_def split: option.splits)

section \<open>Initialisation\<close>

text \<open>The pages between two addresses, and how many there are.\<close>

definition pages_between :: "u64 \<Rightarrow> u64 \<Rightarrow> u64 set" where
  "pages_between a b = {p. page_aligned p \<and> a \<le> p \<and> p < b}"

lemma next_page_unat: "p < PHYSTOP \<Longrightarrow> unat (p + PGSIZE) = unat p + 4096"
  by (simp add: unat_word_ariths word_less_nat_alt)

lemma next_page_le_PHYSTOP:
  assumes "page_aligned p" "p \<le> PHYSTOP"
  shows "p + PGSIZE \<le> PHYSTOP \<longleftrightarrow> p < PHYSTOP"
proof -
  have "unat (p + 4096) = unat p + 4096"
    using assms(2) by (simp add: unat_word_ariths word_le_nat_alt)
  moreover have "unat p + 4096 \<le> 2281701376 \<longleftrightarrow> unat p < 2281701376"
    using assms(1) by (auto simp: page_aligned_unat elim!: dvdE)
  ultimately show ?thesis by (simp add: word_le_nat_alt word_less_nat_alt)
qed

lemma pages_between_step:
  assumes "page_aligned p" "a \<le> p" "p < PHYSTOP"
  shows "pages_between a (p + PGSIZE) = insert p (pages_between a p)"
proof -
  have "unat q < unat p + 4096 \<longleftrightarrow> unat q < unat p \<or> q = p" if "page_aligned q" for q
    using that assms(1) by (auto simp: page_aligned_unat elim!: dvdE intro: word_unatI)
  then show ?thesis
    using assms next_page_unat [OF assms(3)]
    by (auto simp: pages_between_def word_less_nat_alt)
qed

lemma page_aligned_next: "page_aligned p \<Longrightarrow> p < PHYSTOP \<Longrightarrow> page_aligned (p + PGSIZE)"
  by (simp add: page_aligned_unat next_page_unat)

lemma page_init_loop_free_pages:
  assumes "free_pages kend s ps" "page_aligned p" "kend \<le> p" "p \<le> PHYSTOP"
    and "set ps = pages_between r p" "r \<le> p"
  shows "\<exists>s' qs. page_init_loop kend p s = Ret s' \<and> free_pages kend s' qs \<and>
    set qs = pages_between r PHYSTOP"
  using assms
proof (induction kend p s arbitrary: ps rule: page_init_loop.induct)
  case (1 kend p s)
  show ?case
  proof (cases "p < PHYSTOP")
    case True
    then have step: "p + PGSIZE \<le> PHYSTOP" using 1 next_page_le_PHYSTOP by simp
    have "p \<notin> set ps" using 1 by (simp add: pages_between_def)
    then obtain s' where s': "page_free kend p s = Ret s'" "free_pages kend s' (p # ps)"
      using 1 True kernel_pages.free_pool [of kend s ps p] by (auto simp: page_ok_def)
    have "set (p # ps) = pages_between r (p + PGSIZE)"
      using 1 True pages_between_step [of p r] by simp
    moreover have "page_aligned (p + PGSIZE)" using 1 True by (intro page_aligned_next)
    moreover have "p \<le> p + PGSIZE" using True next_page_unat [of p] by (simp add: word_le_nat_alt)
    ultimately show ?thesis
      using "1.IH" [OF step s'(1) s'(2)] "1.prems" step s'
      by (simp add: page_init_loop.simps [of kend p s])
  next
    case False
    then have "p = PHYSTOP" using 1 by simp
    with 1 show ?thesis by (auto simp: page_init_loop.simps)
  qed
qed

text \<open>
  C28. The constructor of the page allocator returns, and the free list it builds holds every page
  from the end of the kernel image, rounded up, to the top of physical memory, each once.
\<close>

theorem page_allocator_init_pages:
  assumes "0 < kend" "kend \<le> PHYSTOP"
  shows "\<exists>s ps. page_allocator_init kend m = Ret s \<and> free_pages kend s ps \<and>
    set ps = pages_between (PGROUNDUP kend) PHYSTOP"
proof -
  have k: "unat kend \<le> 2281701376" using assms(2) by (simp add: word_le_nat_alt)
  then have r: "unat (PGROUNDUP kend) = (unat kend + 4095) div 4096 * 4096"
    by (intro unat_PGROUNDUP) simp
  have "kend \<le> PGROUNDUP kend" "PGROUNDUP kend \<le> PHYSTOP"
    using k r by (auto simp: word_le_nat_alt)
  moreover have "free_pages kend \<lparr>ram = m, free_list = slist_new\<rparr> []"
    using assms(1) by (simp add: free_pages_def slist_abs_new)
  moreover have "set [] = pages_between (PGROUNDUP kend) (PGROUNDUP kend)"
    by (auto simp: pages_between_def)
  ultimately show ?thesis
    unfolding page_allocator_init_def by (intro page_init_loop_free_pages) simp_all
qed

theorem page_allocator_init_pages_witness:
  "\<exists>s ps. page_allocator_init 0x80024b10 (\<lambda>_. 5) = Ret s \<and> free_pages 0x80024b10 s ps \<and>
    set ps = pages_between (PGROUNDUP 0x80024b10) PHYSTOP"
  using page_allocator_init_pages [of "0x80024b10" "\<lambda>_. 5"] by simp

section \<open>Properties\<close>

text \<open>
  C27. \<open>n\<close> successive calls of \<open>alloc\<close> hand out \<open>n\<close> different pages within the managed range, and
  pages the allocator keeps are never among them; the calls fail only when fewer than \<open>n\<close> are free.
\<close>

theorem page_alloc_distinct:
  assumes "free_pages kend s ps" "alloc_pages page_alloc n s = (r, s')"
  shows "if n \<le> length ps
    then \<exists>qs. r = Some qs \<and> length qs = n \<and> distinct qs \<and> (\<forall>q \<in> set qs. page_ok kend q) \<and>
      (\<exists>rest. free_pages kend s' rest \<and> set rest = set ps - set qs)
    else r = None"
proof (cases "n \<le> length ps")
  case True
  then have r: "r = Some (take n ps)" and rest: "free_pages kend s' (drop n ps)"
    using kernel_pages.alloc_pages_pool [OF assms] by simp_all
  have d: "distinct ps" and ok: "\<forall>p \<in> set ps. page_ok kend p"
    using kernel_pages.pool_page [OF assms(1)] by simp_all
  have "set ps = set (take n ps) \<union> set (drop n ps)" by (metis append_take_drop_id set_append)
  moreover have "set (take n ps) \<inter> set (drop n ps) = {}"
    using d by (simp add: set_take_disj_set_drop_if_distinct)
  ultimately have "set (drop n ps) = set ps - set (take n ps)" by blast
  with r rest d ok True show ?thesis by (auto dest: in_set_takeD)
next
  case False
  with kernel_pages.alloc_pages_pool [OF assms] show ?thesis by simp
qed

definition one_free_page :: kmem where
  "one_free_page = \<lparr>ram = (\<lambda>_. 0), free_list = \<lparr>slist_head = Some 0x87fff000, slist_count = 1\<rparr>\<rparr>"

lemma one_free_page: "free_pages 0x80024b10 one_free_page [0x87fff000]"
  by (simp add: free_pages_def one_free_page_def slist_abs_def page_next_def load64_def
      rdbytes_def u64_of_bytes_def upt_rec page_ok_def page_aligned_def)

theorem page_alloc_distinct_witness:
  "\<exists>r s'. alloc_pages page_alloc (Suc 0) one_free_page = (r, s') \<and> r = Some [0x87fff000]"
proof -
  obtain r s' where e: "alloc_pages page_alloc (Suc 0) one_free_page = (r, s')" by fastforce
  have "\<exists>qs. r = Some qs \<and> length qs = 1 \<and>
      (\<exists>rest. free_pages 0x80024b10 s' rest \<and> set rest = set [0x87fff000] - set qs)"
    using page_alloc_distinct [OF one_free_page e] by auto
  moreover have "page_alloc one_free_page = (Some 0x87fff000, snd (page_alloc one_free_page))"
    by (simp add: page_alloc_def slist_pop_def one_free_page_def)
  ultimately show ?thesis using e by (cases "page_alloc one_free_page") auto
qed

text \<open>
  C29. \<open>free\<close> panics exactly on a pointer that is not page aligned or lies outside the managed range;
  otherwise it returns, the page becomes free, the count grows by one, no memory outside the page's
  first eight bytes changes, and the next \<open>alloc\<close> hands out this page and leaves the other free pages.
\<close>

theorem page_free_spec:
  assumes "free_pages kend s ps" "p \<notin> set ps"
  shows "if p mod PGSIZE \<noteq> 0 then page_free kend p s = Panic ''free: unaligned page''
    else if p < kend \<or> PHYSTOP \<le> p then page_free kend p s = Panic ''free: out of range''
    else \<exists>s'. page_free kend p s = Ret s' \<and> free_pages kend s' (p # ps) \<and>
      page_get_free_count s' = page_get_free_count s + 1 \<and>
      (\<forall>x. 8 \<le> unat (x - p) \<longrightarrow> ram s' x = ram s x) \<and>
      page_alloc s' = (Some p, s'\<lparr>free_list := free_list s\<rparr>)"
proof (cases "page_ok kend p")
  case True
  obtain l m where push: "slist_push page_set_next p (free_list s) (ram s) = (l, m)" by fastforce
  then have ret: "page_free kend p s = Ret (s\<lparr>free_list := l, ram := m\<rparr>)"
    using True by (simp add: page_free_Ret_iff)
  have k: "0 < kend" and ok: "\<forall>p \<in> set ps. page_ok kend p" and
    abs: "slist_abs page_next (ram s) (free_list s) ps"
    using assms(1) by (simp_all add: free_pages_def)
  have "slist_pop page_next l m = (Some p, free_list s)"
    using abs assms(2) True push ok page_ok_node [OF k] by (intro free_pages.pop_push) auto
  moreover have "\<forall>x. 8 \<le> unat (x - p) \<longrightarrow> m x = ram s x"
    using push by (auto simp: slist_push_def page_set_next_def store64_def mem_simps)
  moreover have "slist_get_count l = slist_get_count (free_list s) + 1"
    using push by (auto simp: slist_push_def slist_get_count_def)
  ultimately show ?thesis
    using ret page_free_free_pages [OF assms(1) ret assms(2)] True
    by (simp add: page_ok_def page_aligned_def page_alloc_def page_get_free_count_def
        not_less [symmetric])
next
  case False
  then show ?thesis by (auto simp: page_free_def page_ok_def page_aligned_def not_le not_less)
qed

theorem page_free_spec_witness:
  "\<exists>s'. page_free 0x80024b10 0x80025000 one_free_page = Ret s' \<and>
     free_pages 0x80024b10 s' [0x80025000, 0x87fff000]"
  using page_free_spec [OF one_free_page, of "0x80025000"] by auto

end
