(* ===== verification/Virtual_Memory.thy ===== *)
theory Virtual_Memory
  imports Page_Allocator Kernel_String
begin

text \<open>
  \<^verbatim>\<open>kernel/virtual_memory.cpp\<close>: Sv39 page tables in physical memory. A page table is the physical
  address of its root page; its entries are read and written with 64-bit accesses to memory, and
  the pages it needs come from the page allocator. Physical memory is mapped at its own address in
  the kernel, so a pointer of the kernel into RAM is a physical address.
\<close>

section \<open>State and operations\<close>

record kvm = kmem +
  kernel_pagetable :: u64
  satp :: u64

definition pte_addr :: "u64 \<Rightarrow> u64 \<Rightarrow> u64" where
  "pte_addr pagetable i = pagetable + 8 * i"

definition zero_page :: "u64 \<Rightarrow> 'a kmem_scheme \<Rightarrow> 'a kmem_scheme" where
  "zero_page p s = s\<lparr>ram := memset (ram s) p 0 4096\<rparr>"

definition set_pte :: "u64 \<Rightarrow> u64 \<Rightarrow> 'a kmem_scheme \<Rightarrow> 'a kmem_scheme" where
  "set_pte pte v s = s\<lparr>ram := store64 (ram s) pte v\<rparr>"

text \<open>The loop of \<open>walk\<close> counts the level down from 2; a null pointer is \<open>None\<close>.\<close>

fun walk_loop :: "nat \<Rightarrow> u64 \<Rightarrow> u64 \<Rightarrow> bool \<Rightarrow> 'a kmem_scheme \<Rightarrow> (u64 option \<times> 'a kmem_scheme) res" where
  "walk_loop 0 pagetable va alloc s = Ret (Some (pte_addr pagetable (PX 0 va)), s)"
| "walk_loop (Suc l) pagetable va alloc s =
     (let pte = pte_addr pagetable (PX (Suc l) va); e = load64 (ram s) pte in
      if pte = 0 then Panic ''null pte''
      else if e AND PTE_V \<noteq> 0 then walk_loop l (PTE2PA e) va alloc s
      else if \<not> alloc then Ret (None, s)
      else case page_alloc s of
          (None, s) \<Rightarrow> Ret (None, s)
        | (Some p, s) \<Rightarrow> walk_loop l p va alloc (set_pte pte (PA2PTE p OR PTE_V) (zero_page p s)))"

definition walk :: "u64 \<Rightarrow> u64 \<Rightarrow> bool \<Rightarrow> 'a kmem_scheme \<Rightarrow> (u64 option \<times> 'a kmem_scheme) res" where
  "walk pagetable va alloc s =
     (if va \<ge> MAXVA then Panic ''walk'' else walk_loop 2 pagetable va alloc s)"

lemma walk_Ret_less: "walk pagetable va alloc s = Ret r \<Longrightarrow> va < MAXVA"
  by (simp add: walk_def not_le split: if_splits)

lemma page_step_measure: "a < MAXVA \<Longrightarrow> unat (MAXVA - a) < unat (0x4000001000 - a)"
proof -
  assume a: "a < MAXVA"
  have "unat (MAXVA - a) = unat MAXVA - unat a" using a by (simp add: unat_sub less_imp_le)
  moreover have "unat (0x4000001000 - a) = unat MAXVA + 4096 - unat a"
    using a by (subst unat_sub) (auto simp: word_le_nat_alt word_less_nat_alt)
  moreover have "unat a < unat MAXVA" using a by (simp add: word_less_nat_alt)
  ultimately show ?thesis by simp
qed

function mappages_loop :: "u64 \<Rightarrow> u64 \<Rightarrow> u64 \<Rightarrow> u64 \<Rightarrow> u64 \<Rightarrow> 'a kmem_scheme \<Rightarrow> (int \<times> 'a kmem_scheme) res" where
  "mappages_loop pagetable a lst pa perm s =
     kbind (walk pagetable a True s) (\<lambda>(pte, s).
       case pte of
         None \<Rightarrow> Ret (- 1, s)
       | Some pte \<Rightarrow>
           if load64 (ram s) pte AND PTE_V \<noteq> 0 then Panic ''mappages: remap''
           else let s = set_pte pte (PA2PTE pa OR perm OR PTE_V) s in
             if a = lst then Ret (0, s)
             else mappages_loop pagetable (a + PGSIZE) lst (pa + PGSIZE) perm s)"
  by pat_completeness auto
termination
  by (relation "measure (\<lambda>(pagetable, a, lst, pa, perm, s). unat (MAXVA + PGSIZE - a))")
    (auto simp: page_step_measure dest: walk_Ret_less)

declare mappages_loop.simps [simp del]

definition mappages :: "u64 \<Rightarrow> u64 \<Rightarrow> u64 \<Rightarrow> u64 \<Rightarrow> u64 \<Rightarrow> 'a kmem_scheme \<Rightarrow> (int \<times> 'a kmem_scheme) res" where
  "mappages pagetable va sz pa perm s =
     (if va mod PGSIZE \<noteq> 0 then Panic ''mappages: va not aligned''
      else if sz mod PGSIZE \<noteq> 0 then Panic ''mappages: size not aligned''
      else if sz = 0 then Panic ''mappages: size''
      else mappages_loop pagetable va (va + sz - PGSIZE) pa perm s)"

definition kvm_map :: "u64 \<Rightarrow> u64 \<Rightarrow> u64 \<Rightarrow> u64 \<Rightarrow> u64 \<Rightarrow> 'a kmem_scheme \<Rightarrow> 'a kmem_scheme res" where
  "kvm_map kpgtbl va pa sz perm s =
     kbind (mappages kpgtbl va sz pa perm s) (\<lambda>(r, s). if r \<noteq> 0 then Panic ''kvmmap'' else Ret s)"

definition vm_create :: "'a kmem_scheme \<Rightarrow> u64 option \<times> 'a kmem_scheme" where
  "vm_create s = (case page_alloc s of (None, s) \<Rightarrow> (None, s) | (Some p, s) \<Rightarrow> (Some p, zero_page p s))"

function unmap_loop :: "u64 \<Rightarrow> u64 \<Rightarrow> u64 \<Rightarrow> u64 \<Rightarrow> bool \<Rightarrow> 'a kmem_scheme \<Rightarrow> 'a kmem_scheme res" where
  "unmap_loop kend pagetable a lst do_free s =
     (if \<not> a < lst then Ret s
      else kbind (walk pagetable a False s) (\<lambda>(pte, s).
        case pte of
          None \<Rightarrow> Panic ''uvmunmap: walk''
        | Some pte \<Rightarrow>
            let e = load64 (ram s) pte in
            if e AND PTE_V = 0 then Panic ''uvmunmap: not mapped''
            else if PTE_FLAGS e = PTE_V then Panic ''uvmunmap: not a leaf''
            else kbind (if do_free then page_free kend (PTE2PA e) s else Ret s) (\<lambda>s.
              unmap_loop kend pagetable (a + PGSIZE) lst do_free (set_pte pte 0 s))))"
  by pat_completeness auto
termination
  by (relation "measure (\<lambda>(kend, pagetable, a, lst, do_free, s). unat (MAXVA + PGSIZE - a))")
    (auto simp: page_step_measure dest: walk_Ret_less)

declare unmap_loop.simps [simp del]

definition unmap :: "u64 \<Rightarrow> u64 \<Rightarrow> u64 \<Rightarrow> u64 \<Rightarrow> bool \<Rightarrow> 'a kmem_scheme \<Rightarrow> 'a kmem_scheme res" where
  "unmap kend pagetable va npages do_free s =
     (if va mod PGSIZE \<noteq> 0 then Panic ''uvmunmap: not aligned''
      else unmap_loop kend pagetable va (va + npages * PGSIZE) do_free s)"

text \<open>The page count of \<open>dealloc\<close> is an \<^verbatim>\<open>int\<close>, sign extended when it is passed on.\<close>

definition vm_dealloc :: "u64 \<Rightarrow> u64 \<Rightarrow> u64 \<Rightarrow> u64 \<Rightarrow> 'a kmem_scheme \<Rightarrow> (u64 \<times> 'a kmem_scheme) res" where
  "vm_dealloc kend pagetable oldsz newsz s =
     (if newsz \<ge> oldsz then Ret (oldsz, s)
      else kbind (if PGROUNDUP newsz < PGROUNDUP oldsz
                  then let npages = ucast ((PGROUNDUP oldsz - PGROUNDUP newsz) div PGSIZE) :: u32
                       in unmap kend pagetable (PGROUNDUP newsz) (scast npages) True s
                  else Ret s) (\<lambda>s. Ret (newsz, s)))"

lemma mappages_Ret_less: "mappages pagetable a sz pa perm s = Ret r \<Longrightarrow> a < MAXVA"
  by (auto simp: mappages_def mappages_loop.simps [of _ a] kres intro: walk_Ret_less split: if_splits)

function vm_alloc_loop ::
  "u64 \<Rightarrow> u64 \<Rightarrow> u64 \<Rightarrow> u64 \<Rightarrow> u64 \<Rightarrow> u64 \<Rightarrow> 'a kmem_scheme \<Rightarrow> (u64 \<times> 'a kmem_scheme) res" where
  "vm_alloc_loop kend pagetable oldsz a newsz xperm s =
     (if \<not> a < newsz then Ret (newsz, s)
      else case page_alloc s of
          (None, s) \<Rightarrow> kbind (vm_dealloc kend pagetable a oldsz s) (\<lambda>(_, s). Ret (0, s))
        | (Some p, s) \<Rightarrow>
            kbind (mappages pagetable a PGSIZE p (PTE_R OR PTE_U OR xperm) (zero_page p s)) (\<lambda>(r, s).
              if r \<noteq> 0
              then kbind (page_free kend p s) (\<lambda>s.
                     kbind (vm_dealloc kend pagetable a oldsz s) (\<lambda>(_, s). Ret (0, s)))
              else vm_alloc_loop kend pagetable oldsz (a + PGSIZE) newsz xperm s))"
  by pat_completeness auto
termination
  by (relation "measure (\<lambda>(kend, pagetable, oldsz, a, newsz, xperm, s). unat (MAXVA + PGSIZE - a))")
    (auto simp: page_step_measure dest: mappages_Ret_less)

declare vm_alloc_loop.simps [simp del]

definition vm_alloc ::
  "u64 \<Rightarrow> u64 \<Rightarrow> u64 \<Rightarrow> u64 \<Rightarrow> u64 \<Rightarrow> 'a kmem_scheme \<Rightarrow> (u64 \<times> 'a kmem_scheme) res" where
  "vm_alloc kend pagetable oldsz newsz xperm s =
     (if newsz < oldsz then Ret (oldsz, s)
      else vm_alloc_loop kend pagetable (PGROUNDUP oldsz) (PGROUNDUP oldsz) newsz xperm s)"

function vm_copy_loop ::
  "u64 \<Rightarrow> u64 \<Rightarrow> u64 \<Rightarrow> u64 \<Rightarrow> u64 \<Rightarrow> 'a kmem_scheme \<Rightarrow> (int \<times> 'a kmem_scheme) res" where
  "vm_copy_loop kend old newpt i sz s =
     (if \<not> i < sz then Ret (0, s)
      else kbind (walk old i False s) (\<lambda>(pte, s).
        case pte of
          None \<Rightarrow> Panic ''uvmcopy: pte should exist''
        | Some pte \<Rightarrow>
            let e = load64 (ram s) pte in
            if e AND PTE_V = 0 then Panic ''uvmcopy: page not present''
            else case page_alloc s of
                (None, s) \<Rightarrow> kbind (unmap kend newpt 0 (i div PGSIZE) True s) (\<lambda>s. Ret (- 1, s))
              | (Some p, s) \<Rightarrow>
                  kbind (mappages newpt i PGSIZE p (PTE_FLAGS e)
                      (s\<lparr>ram := memmove (ram s) p (PTE2PA e) 4096\<rparr>)) (\<lambda>(r, s).
                    if r \<noteq> 0
                    then kbind (page_free kend p s) (\<lambda>s.
                           kbind (unmap kend newpt 0 (i div PGSIZE) True s) (\<lambda>s. Ret (- 1, s)))
                    else vm_copy_loop kend old newpt (i + PGSIZE) sz s)))"
  by pat_completeness auto
termination
  by (relation "measure (\<lambda>(kend, old, newpt, i, sz, s). unat (MAXVA + PGSIZE - i))")
    (auto simp: page_step_measure dest: walk_Ret_less)

declare vm_copy_loop.simps [simp del]

definition vm_copy :: "u64 \<Rightarrow> u64 \<Rightarrow> u64 \<Rightarrow> u64 \<Rightarrow> 'a kmem_scheme \<Rightarrow> (int \<times> 'a kmem_scheme) res" where
  "vm_copy kend old newpt sz s = vm_copy_loop kend old newpt 0 sz s"

text \<open>
  \<open>freewalk\<close> follows the entries it finds in memory; on a table that contains itself it would not
  return, which is the value \<open>None\<close>.
\<close>

partial_function (option) freewalk_loop ::
  "u64 \<Rightarrow> u64 \<Rightarrow> nat \<Rightarrow> 'a kmem_scheme \<Rightarrow> 'a kmem_scheme res option" where
  "freewalk_loop kend pagetable i s =
     (if i < 512 then
        let pte = load64 (ram s) (pte_addr pagetable (of_nat i)) in
        if pte AND PTE_V \<noteq> 0 \<and> pte AND (PTE_R OR PTE_W OR PTE_X) = 0
        then Option.bind (freewalk_loop kend (PTE2PA pte) 0 s) (\<lambda>r.
               case r of
                 Ret s \<Rightarrow> freewalk_loop kend pagetable (Suc i) (set_pte (pte_addr pagetable (of_nat i)) 0 s)
               | Panic m \<Rightarrow> Some (Panic m)
               | Blocked \<Rightarrow> Some Blocked)
        else if pte AND PTE_V \<noteq> 0 then Some (Panic ''freewalk: leaf'')
        else freewalk_loop kend pagetable (Suc i) s
      else Some (page_free kend pagetable s))"

definition freewalk :: "u64 \<Rightarrow> u64 \<Rightarrow> 'a kmem_scheme \<Rightarrow> 'a kmem_scheme res option" where
  "freewalk kend pagetable s = freewalk_loop kend pagetable 0 s"

text \<open>To the callers, a call that does not return is \<open>Blocked\<close>.\<close>

definition vm_free :: "u64 \<Rightarrow> u64 \<Rightarrow> u64 \<Rightarrow> 'a kmem_scheme \<Rightarrow> 'a kmem_scheme res" where
  "vm_free kend pagetable sz s =
     kbind (if sz > 0 then unmap kend pagetable 0 (PGROUNDUP sz div PGSIZE) True s else Ret s) (\<lambda>s.
       case freewalk kend pagetable s of Some r \<Rightarrow> r | None \<Rightarrow> Blocked)"

definition vm_clear :: "u64 \<Rightarrow> u64 \<Rightarrow> 'a kmem_scheme \<Rightarrow> 'a kmem_scheme res" where
  "vm_clear pagetable va s =
     kbind (walk pagetable va False s) (\<lambda>(pte, s).
       case pte of
         None \<Rightarrow> Panic ''clear''
       | Some pte \<Rightarrow> Ret (set_pte pte (load64 (ram s) pte AND NOT PTE_U) s))"

definition walkaddr :: "u64 \<Rightarrow> u64 \<Rightarrow> 'a kmem_scheme \<Rightarrow> u64 res" where
  "walkaddr pagetable va s =
     (if va \<ge> MAXVA then Ret 0
      else kbind (walk pagetable va False s) (\<lambda>(pte, s).
        case pte of
          None \<Rightarrow> Ret 0
        | Some pte \<Rightarrow>
            let e = load64 (ram s) pte in
            if e AND PTE_V = 0 then Ret 0
            else if e AND PTE_U = 0 then Ret 0
            else Ret (PTE2PA e)))"

text \<open>The bytes copied in one round of the copy loops: to the end of the page, or what is left.\<close>

definition page_chunk :: "u64 \<Rightarrow> u64 \<Rightarrow> u64" where
  "page_chunk va len = (let n = PGSIZE - (va - PGROUNDDOWN va) in if n > len then len else n)"

lemma unat_page_offset: "unat (va - PGROUNDDOWN va) = unat va mod 4096"
proof -
  have "unat (PGROUNDDOWN va) \<le> unat va" by (simp add: unat_PGROUNDDOWN)
  then have "unat (va - PGROUNDDOWN va) = unat va - unat va div 4096 * 4096"
    by (simp add: unat_sub word_le_nat_alt unat_PGROUNDDOWN)
  then show ?thesis by (simp add: minus_div_mult_eq_mod)
qed

lemma unat_page_chunk: "unat (page_chunk va len) = min (4096 - unat va mod 4096) (unat len)"
proof -
  have "unat va mod 4096 < 4096" by simp
  then have "unat (PGSIZE - (va - PGROUNDDOWN va)) = 4096 - unat va mod 4096"
    by (subst unat_sub) (simp_all add: word_le_nat_alt unat_page_offset less_imp_le)
  then show ?thesis by (auto simp: page_chunk_def Let_def word_less_nat_alt)
qed

lemma page_chunk_measure: "len \<noteq> 0 \<Longrightarrow> unat (len - page_chunk va len) < unat len"
proof -
  assume "len \<noteq> 0"
  then have "0 < unat len" by (simp add: unat_gt_0)
  moreover have "page_chunk va len \<le> len" by (simp add: word_le_nat_alt unat_page_chunk)
  ultimately show ?thesis by (simp add: unat_sub unat_page_chunk)
qed

function copyout :: "u64 \<Rightarrow> u64 \<Rightarrow> u64 \<Rightarrow> u64 \<Rightarrow> 'a kmem_scheme \<Rightarrow> (int \<times> 'a kmem_scheme) res" where
  "copyout pagetable dstva src len s =
     (if len = 0 then Ret (0, s)
      else let va0 = PGROUNDDOWN dstva in
        if va0 \<ge> MAXVA then Ret (- 1, s)
        else kbind (walk pagetable va0 False s) (\<lambda>(pte, s).
          case pte of
            None \<Rightarrow> Ret (- 1, s)
          | Some pte \<Rightarrow>
              let e = load64 (ram s) pte; n = page_chunk dstva len in
              if e AND PTE_V = 0 \<or> e AND PTE_U = 0 \<or> e AND PTE_W = 0 then Ret (- 1, s)
              else copyout pagetable (va0 + PGSIZE) (src + n) (len - n)
                     (s\<lparr>ram := memmove (ram s) (PTE2PA e + (dstva - va0)) src (ucast n)\<rparr>)))"
  by pat_completeness auto
termination
  by (relation "measure (\<lambda>(pagetable, dstva, src, len, s). unat len)") (simp_all add: page_chunk_measure)

function copyin :: "u64 \<Rightarrow> u64 \<Rightarrow> u64 \<Rightarrow> u64 \<Rightarrow> 'a kmem_scheme \<Rightarrow> (int \<times> 'a kmem_scheme) res" where
  "copyin pagetable dst srcva len s =
     (if len = 0 then Ret (0, s)
      else let va0 = PGROUNDDOWN srcva; n = page_chunk srcva len in
        kbind (walkaddr pagetable va0 s) (\<lambda>pa0.
          if pa0 = 0 then Ret (- 1, s)
          else copyin pagetable (dst + n) (va0 + PGSIZE) (len - n)
                 (s\<lparr>ram := memmove (ram s) dst (pa0 + (srcva - va0)) (ucast n)\<rparr>)))"
  by pat_completeness auto
termination
  by (relation "measure (\<lambda>(pagetable, dst, srcva, len, s). unat len)") (simp_all add: page_chunk_measure)

declare copyout.simps [simp del] copyin.simps [simp del]

text \<open>
  The same loops when the kernel's side of the copy is a C++ object that is not part of the modelled
  memory (a structure on the kernel stack, a field of a process): its bytes are given, or collected.
\<close>

function copyout_bytes :: "u64 \<Rightarrow> u64 \<Rightarrow> u8 list \<Rightarrow> 'a kmem_scheme \<Rightarrow> (int \<times> 'a kmem_scheme) res" where
  "copyout_bytes pagetable dstva bs s =
     (if bs = [] then Ret (0, s)
      else let va0 = PGROUNDDOWN dstva in
        if va0 \<ge> MAXVA then Ret (- 1, s)
        else kbind (walk pagetable va0 False s) (\<lambda>(pte, s).
          case pte of
            None \<Rightarrow> Ret (- 1, s)
          | Some pte \<Rightarrow>
              let e = load64 (ram s) pte; n = 4096 - unat (dstva - va0) in
              if e AND PTE_V = 0 \<or> e AND PTE_U = 0 \<or> e AND PTE_W = 0 then Ret (- 1, s)
              else copyout_bytes pagetable (va0 + PGSIZE) (drop n bs)
                     (s\<lparr>ram := wrbytes (ram s) (PTE2PA e + (dstva - va0)) (take n bs)\<rparr>)))"
  by pat_completeness auto
termination
  by (relation "measure (\<lambda>(pagetable, dstva, bs, s). length bs)")
    (auto simp: unat_page_offset length_greater_0_conv [symmetric] simp del: length_greater_0_conv)

function copyin_bytes :: "u64 \<Rightarrow> u64 \<Rightarrow> nat \<Rightarrow> 'a kmem_scheme \<Rightarrow> u8 list option res" where
  "copyin_bytes pagetable srcva len s =
     (if len = 0 then Ret (Some [])
      else let va0 = PGROUNDDOWN srcva; n = min (4096 - unat (srcva - va0)) len in
        kbind (walkaddr pagetable va0 s) (\<lambda>pa0.
          if pa0 = 0 then Ret None
          else kbind (copyin_bytes pagetable (va0 + PGSIZE) (len - n) s) (\<lambda>r.
            Ret (map_option (\<lambda>bs. rdbytes (ram s) (pa0 + (srcva - va0)) n @ bs) r))))"
  by pat_completeness auto
termination
  by (relation "measure (\<lambda>(pagetable, srcva, len, s). len)") (auto simp: unat_page_offset)

declare copyout_bytes.simps [simp del] copyin_bytes.simps [simp del]

text \<open>
  The inner loop of \<open>copyinstr\<close> over the bytes of one page: whether the NUL was found, how many
  bytes were copied before it, and memory.
\<close>

fun copyinstr_page :: "nat \<Rightarrow> u64 \<Rightarrow> u64 \<Rightarrow> mem \<Rightarrow> bool \<times> nat \<times> mem" where
  "copyinstr_page 0 p dst m = (False, 0, m)"
| "copyinstr_page (Suc n) p dst m =
     (if m p = 0 then (True, 0, m(dst := 0))
      else let (found, k, m) = copyinstr_page n (p + 1) (dst + 1) (m(dst := m p)) in (found, Suc k, m))"

lemma copyinstr_page_count: "copyinstr_page n p dst m = (False, k, m') \<Longrightarrow> k = n"
  by (induction n arbitrary: p dst m k m') (auto split: if_splits prod.splits)

function copyinstr :: "u64 \<Rightarrow> u64 \<Rightarrow> u64 \<Rightarrow> u64 \<Rightarrow> 'a kmem_scheme \<Rightarrow> (int \<times> 'a kmem_scheme) res" where
  "copyinstr pagetable dst srcva mx s =
     (if mx = 0 then Ret (- 1, s)
      else let va0 = PGROUNDDOWN srcva; n = page_chunk srcva mx in
        kbind (walkaddr pagetable va0 s) (\<lambda>pa0.
          if pa0 = 0 then Ret (- 1, s)
          else case copyinstr_page (unat n) (pa0 + (srcva - va0)) dst (ram s) of
              (True, k, m) \<Rightarrow> Ret (0, s\<lparr>ram := m\<rparr>)
            | (False, k, m) \<Rightarrow> copyinstr pagetable (dst + of_nat k) (va0 + PGSIZE) (mx - of_nat k) (s\<lparr>ram := m\<rparr>)))"
  by pat_completeness auto
termination
  by (relation "measure (\<lambda>(pagetable, dst, srcva, mx, s). unat mx)")
    (auto simp: page_chunk_measure dest!: copyinstr_page_count sym [of "(False, _, _)"])

declare copyinstr.simps [simp del]

text \<open>
  \<open>pt\<close> is the page table of the current process. The kernel-to-kernel case calls \<open>memmove\<close>, whose
  length is a \<^verbatim>\<open>uint\<close>.
\<close>

definition either_copyout :: "u64 \<Rightarrow> bool \<Rightarrow> u64 \<Rightarrow> u64 \<Rightarrow> u64 \<Rightarrow> 'a kmem_scheme \<Rightarrow> (int \<times> 'a kmem_scheme) res" where
  "either_copyout pt user_dst dst src len s =
     (if user_dst then copyout pt dst src len s
      else Ret (0, s\<lparr>ram := memmove (ram s) dst src (ucast len)\<rparr>))"

definition either_copyin :: "u64 \<Rightarrow> u64 \<Rightarrow> bool \<Rightarrow> u64 \<Rightarrow> u64 \<Rightarrow> 'a kmem_scheme \<Rightarrow> (int \<times> 'a kmem_scheme) res" where
  "either_copyin pt dst user_src src len s =
     (if user_src then copyin pt dst src len s
      else Ret (0, s\<lparr>ram := memmove (ram s) dst src (ucast len)\<rparr>))"

text \<open>\<open>etext\<close> and \<open>trampoline\<close> are linker symbols.\<close>

definition vm_init :: "u64 \<Rightarrow> u64 \<Rightarrow> 'a kvm_scheme \<Rightarrow> 'a kvm_scheme res" where
  "vm_init etext trampoline s =
     (let (p, s) = page_alloc s; pt = (case p of None \<Rightarrow> 0 | Some p \<Rightarrow> p);
          s = zero_page pt (s\<lparr>kernel_pagetable := pt\<rparr>) in
      kbind (kvm_map pt UART0 UART0 PGSIZE (PTE_R OR PTE_W) s) (\<lambda>s.
      kbind (kvm_map pt VIRTIO0 VIRTIO0 PGSIZE (PTE_R OR PTE_W) s) (\<lambda>s.
      kbind (kvm_map pt PLIC PLIC 0x4000000 (PTE_R OR PTE_W) s) (\<lambda>s.
      kbind (kvm_map pt KERNBASE KERNBASE (etext - KERNBASE) (PTE_R OR PTE_X) s) (\<lambda>s.
      kbind (kvm_map pt etext etext (PHYSTOP - etext) (PTE_R OR PTE_W) s) (\<lambda>s.
      kvm_map pt TRAMPOLINE trampoline PGSIZE (PTE_R OR PTE_X) s))))))"

definition vm_inithart :: "'a kvm_scheme \<Rightarrow> 'a kvm_scheme" where
  "vm_inithart s = s\<lparr>satp := MAKE_SATP (kernel_pagetable s)\<rparr>"

end
