(* ===== verification/Page_Tables.thy ===== *)
theory Page_Tables
  imports Virtual_Memory
begin

text \<open>
  Correctness of the page-table code of \<^verbatim>\<open>kernel/virtual_memory.cpp\<close>. A page table in memory is
  read as a partial map from index paths to table pages and as a function from virtual addresses
  to leaf entries; the operations are shown to act on the latter as the specification says and to
  leave every other page of memory alone.
\<close>

section \<open>Entries of a table page\<close>

lemma pte_addr_offset: "i < 512 \<Longrightarrow> pte_addr t i = t + of_nat (8 * unat i) \<and> 8 * unat i + 8 \<le> 4096"
  by (simp add: pte_addr_def word_less_nat_alt)

lemma disjoint_in_page:
  assumes "page_aligned t" "a + n \<le> 4096" "b + k \<le> 4096" "a + n \<le> b \<or> b + k \<le> a"
  shows "disjoint_blocks (t + of_nat a) n (t + of_nat b) k"
  unfolding disjoint_blocks_def
proof (intro allI notI)
  fix x assume "unat (x - (t + of_nat a)) < n \<and> unat (x - (t + of_nat b)) < k"
  moreover define i j where "i = unat (x - (t + of_nat a))" and "j = unat (x - (t + of_nat b))"
  ultimately have *: "i < n" "j < k" "x = t + of_nat a + of_nat i" "x = t + of_nat b + of_nat j"
    by simp_all
  then have "t + of_nat (a + i) = t + of_nat (b + j)" by (simp add: add.assoc)
  with assms * show False using page_offset_unique [of t t "a + i" "b + j"] by auto
qed

lemma disjoint_ptes:
  assumes "page_aligned t" "page_aligned t'" "i < 512" "k < 512" "t \<noteq> t' \<or> i \<noteq> k"
  shows "disjoint_blocks (pte_addr t i) 8 (pte_addr t' k) 8"
proof (cases "t = t'")
  case True
  with assms have "unat i \<noteq> unat k" by (auto simp: word_unat_eq_iff)
  then have "8 * unat i + 8 \<le> 8 * unat k \<or> 8 * unat k + 8 \<le> 8 * unat i" by linarith
  with True assms pte_addr_offset [of i t] pte_addr_offset [of k t] show ?thesis
    using disjoint_in_page [of t "8 * unat i" 8 "8 * unat k" 8] by simp
next
  case False
  with assms pte_addr_offset [of i t] pte_addr_offset [of k t'] show ?thesis
    using disjoint_pages [of t t' "8 * unat i" 8 "8 * unat k" 8] by simp
qed

lemma disjoint_pte_page:
  assumes "page_aligned t" "page_aligned p" "i < 512" "t \<noteq> p"
  shows "disjoint_blocks (pte_addr t i) 8 p 4096"
  using disjoint_pages [of t p "8 * unat i" 8 0 4096] assms pte_addr_offset [of i t] by simp

lemma load64_set_pte [simp]: "load64 (ram (set_pte a v s)) a = v"
  by (simp add: set_pte_def)

lemma load64_set_pte_other [mem_simps]:
  "page_aligned t \<Longrightarrow> page_aligned t' \<Longrightarrow> i < 512 \<Longrightarrow> k < 512 \<Longrightarrow> t \<noteq> t' \<or> i \<noteq> k \<Longrightarrow>
   load64 (ram (set_pte (pte_addr t' k) v s)) (pte_addr t i) = load64 (ram s) (pte_addr t i)"
  by (simp add: set_pte_def load64_store64_other disjoint_ptes)

lemma u64_of_zero_bytes: "u64_of_bytes (replicate n 0) = 0"
  by (induction n) (simp_all add: u64_of_bytes_def)

lemma zero_page_ram: "ram (zero_page p s) = wrbytes (ram s) p (replicate 4096 0)"
  by (simp add: zero_page_def memset_wrbytes)

lemma zero_page_byte:
  assumes "page_aligned p" "a < 4096"
  shows "ram (zero_page p s) (p + of_nat a) = 0"
proof -
  have "unat (p + of_nat a - p) = a" using assms(2) by simp
  then show ?thesis using assms(2) unfolding zero_page_ram wrbytes_def by simp
qed

lemma load64_zero_page:
  assumes "page_aligned p" "i < 512"
  shows "load64 (ram (zero_page p s)) (pte_addr p i) = 0"
proof -
  have i: "pte_addr p i = p + of_nat (8 * unat i)" "8 * unat i + 8 \<le> 4096"
    using pte_addr_offset [OF assms(2)] by auto
  have "rdbytes (ram (zero_page p s)) (pte_addr p i) 8 = replicate 8 0"
  proof (rule nth_equalityI)
    fix n assume n: "n < length (rdbytes (ram (zero_page p s)) (pte_addr p i) 8)"
    then have "pte_addr p i + of_nat n = p + of_nat (8 * unat i + n)" using i by (simp add: add.assoc)
    moreover have "8 * unat i + n < 4096" using i n by simp
    ultimately show "rdbytes (ram (zero_page p s)) (pte_addr p i) 8 ! n = replicate 8 0 ! n"
      using n zero_page_byte [OF assms(1)] by (simp del: of_nat_add)
  qed simp
  then show ?thesis unfolding load64_def by (simp only: u64_of_zero_bytes)
qed

lemma load64_zero_page_other [mem_simps]:
  "page_aligned t \<Longrightarrow> page_aligned p \<Longrightarrow> i < 512 \<Longrightarrow> t \<noteq> p \<Longrightarrow>
   load64 (ram (zero_page p s)) (pte_addr t i) = load64 (ram s) (pte_addr t i)"
  unfolding zero_page_ram by (simp add: load64_wrbytes_other disjoint_pte_page)

section \<open>Fields of an entry\<close>

lemma PTE2PA_PA2PTE [simp]:
  assumes "page_aligned p" "f < 1024"
  shows "PTE2PA (PA2PTE p OR f) = p"
proof (rule bit_word_eqI)
  fix n assume "n < LENGTH(64)"
  have "\<not> bit f k" if "10 \<le> k" for k
    using that assms(2) not_bit_high [of f 10] by (simp add: word_less_nat_alt)
  with assms(1) \<open>n < LENGTH(64)\<close> show "bit (PTE2PA (PA2PTE p OR f)) n = bit p n"
    by (cases "n < 12") (auto simp: PTE2PA_def PA2PTE_def bit_simps page_aligned_bits)
qed

lemma PTE_FLAGS_PA2PTE [simp]:
  assumes "f < 1024"
  shows "PTE_FLAGS (PA2PTE p OR f) = f"
proof (rule bit_word_eqI)
  fix n assume "n < LENGTH(64)"
  have "\<not> bit f k" if "10 \<le> k" for k
    using that assms not_bit_high [of f 10] by (simp add: word_less_nat_alt)
  then show "bit (PTE_FLAGS (PA2PTE p OR f)) n = bit f n"
    using \<open>n < LENGTH(64)\<close> by (cases "n < 10") (auto simp: PTE_FLAGS_def PA2PTE_def bit_simps mask_10)
qed

lemma PX_small [simp]: "PX l va < 512"
  using PX_less by (simp add: word_less_nat_alt)

text \<open>The indices of the three levels determine the page of a virtual address.\<close>

lemma PX_unique:
  assumes "va < MAXVA" "va' < MAXVA" "PX 0 va = PX 0 va'" "PX 1 va = PX 1 va'" "PX 2 va = PX 2 va'"
  shows "PGROUNDDOWN va = PGROUNDDOWN va'"
proof (rule bit_word_eqI)
  have eq: "bit va (PXSHIFT l + n) = bit va' (PXSHIFT l + n)" if "l \<in> {0, 1, 2}" "n < 9" for l n
    using that assms(3-5) bit_PX [of l va n] bit_PX [of l va' n] by auto
  have high: "\<not> bit v n" if "v < MAXVA" "39 \<le> n" for v :: u64 and n
    using that not_bit_high [of v 39 n] by (simp add: word_less_nat_alt)
  fix n assume "n < LENGTH(64)"
  consider "n < 12" | "12 \<le> n" "n < 21" | "21 \<le> n" "n < 30" | "30 \<le> n" "n < 39" | "39 \<le> n" by linarith
  then show "bit (PGROUNDDOWN va) n = bit (PGROUNDDOWN va') n"
  proof cases
    case 1 then show ?thesis by (simp add: PGROUNDDOWN_drop_bit bit_simps)
  next
    case 2 then show ?thesis using eq [of 0 "n - 12"] by (simp add: PGROUNDDOWN_drop_bit bit_simps PXSHIFT_def)
  next
    case 3 then show ?thesis using eq [of 1 "n - 21"] by (simp add: PGROUNDDOWN_drop_bit bit_simps PXSHIFT_def)
  next
    case 4 then show ?thesis using eq [of 2 "n - 30"] by (simp add: PGROUNDDOWN_drop_bit bit_simps PXSHIFT_def)
  next
    case 5 then show ?thesis using high assms by (simp add: PGROUNDDOWN_drop_bit bit_simps)
  qed
qed

section \<open>A page table as a tree of table pages\<close>

definition next_table :: "mem \<Rightarrow> u64 \<Rightarrow> u64 \<Rightarrow> u64 option" where
  "next_table m t i =
     (let e = load64 m (pte_addr t i) in if e AND PTE_V \<noteq> 0 then Some (PTE2PA e) else None)"

fun tab :: "mem \<Rightarrow> u64 \<Rightarrow> u64 list \<Rightarrow> u64 option" where
  "tab m t [] = Some t"
| "tab m t (i # is) = Option.bind (next_table m t i) (\<lambda>t'. tab m t' is)"

definition paths :: "u64 list set" where
  "paths = {is. length is \<le> 2 \<and> (\<forall>i \<in> set is. i < 512)}"

text \<open>The table pages of a page table: those that index paths of length at most two reach.\<close>

definition tables :: "mem \<Rightarrow> u64 \<Rightarrow> u64 set" where
  "tables m root = {t. \<exists>is \<in> paths. tab m root is = Some t}"

text \<open>
  The entry that translates a virtual address: the leaf entry, or 0 when a table on the way is
  missing.
\<close>

definition lookup :: "mem \<Rightarrow> u64 \<Rightarrow> u64 \<Rightarrow> u64" where
  "lookup m root va =
     (case tab m root [PX 2 va, PX 1 va] of None \<Rightarrow> 0 | Some t \<Rightarrow> load64 m (pte_addr t (PX 0 va)))"

text \<open>
  Well-formed: the table pages are managed pages that are in use, and no page is reached twice.
\<close>

definition pt_wf :: "u64 \<Rightarrow> 'a kmem_scheme \<Rightarrow> u64 \<Rightarrow> u64 list \<Rightarrow> bool" where
  "pt_wf kend s root ps \<longleftrightarrow>
     free_pages kend s ps \<and>
     (\<forall>t \<in> tables (ram s) root. page_ok kend t \<and> t \<notin> set ps) \<and>
     inj_on (tab (ram s) root) (paths \<inter> {is. tab (ram s) root is \<noteq> None})"

lemma tab_append: "tab m t (is @ js) = Option.bind (tab m t is) (\<lambda>t'. tab m t' js)"
  by (induction "is" arbitrary: t) (auto split: Option.bind_splits)

lemma tab_snoc: "tab m t (is @ [i]) = Option.bind (tab m t is) (\<lambda>t'. next_table m t' i)"
  by (simp add: tab_append)

lemma paths_simps [simp]:
  "[] \<in> paths" "[i] \<in> paths \<longleftrightarrow> i < 512" "[i, j] \<in> paths \<longleftrightarrow> i < 512 \<and> j < 512"
  by (auto simp: paths_def)

lemma paths_appendD: "is @ js \<in> paths \<Longrightarrow> is \<in> paths"
  by (auto simp: paths_def)

lemma pt_wfD:
  assumes "pt_wf kend s root ps"
  shows "free_pages kend s ps" and "0 < kend"
    and "is \<in> paths \<Longrightarrow> tab (ram s) root is = Some t \<Longrightarrow> page_ok kend t \<and> page_aligned t \<and> t \<notin> set ps"
    and "is \<in> paths \<Longrightarrow> js \<in> paths \<Longrightarrow> tab (ram s) root is = Some t \<Longrightarrow> tab (ram s) root js = Some t \<Longrightarrow> is = js"
  using assms by (auto simp: pt_wf_def tables_def page_ok_def free_pages_def inj_on_def)

lemma tab_cong:
  assumes "\<And>t i. t \<in> tables m root \<Longrightarrow> i < 512 \<Longrightarrow> load64 m' (pte_addr t i) = load64 m (pte_addr t i)"
    and "is \<in> paths"
  shows "tab m' root is = tab m root is"
  using assms(2)
proof (induction "is" rule: rev_induct)
  case (snoc i js)
  then have "js \<in> paths" and i: "i < 512" by (auto simp: paths_def)
  with snoc have IH: "tab m' root js = tab m root js" by simp
  show ?case
  proof (cases "tab m root js")
    case (Some t)
    then have "t \<in> tables m root" using \<open>js \<in> paths\<close> by (auto simp: tables_def)
    then show ?thesis using assms(1) i IH Some by (simp add: tab_snoc next_table_def)
  qed (simp add: tab_snoc IH)
qed simp

section \<open>A new table page\<close>

text \<open>
  The step of \<open>walk\<close> that allocates: a page taken from the free list is zeroed and entered in the
  table at the path \<open>js\<close>. Only the path to the new table changes, and no translation does.
\<close>

definition attach :: "u64 \<Rightarrow> u64 \<Rightarrow> u64 \<Rightarrow> 'a kmem_scheme \<Rightarrow> 'a kmem_scheme" where
  "attach t i p s = set_pte (pte_addr t i) (PA2PTE p OR PTE_V) (zero_page p s)"

lemma next_table_attach:
  assumes "page_aligned t" "page_aligned p" "page_aligned t'" "t \<noteq> p" "i < 512" "k < 512"
  shows "next_table (ram (attach t i p s)) t' k =
    (if t' = p then None else if t' = t \<and> k = i then Some p else next_table (ram s) t' k)"
proof -
  have v: "(PA2PTE p OR 1) AND 1 \<noteq> 0" by (simp add: bit_eq_iff bit_simps) (auto intro!: exI [of _ 0])
  show ?thesis
    using assms v by (auto simp: next_table_def attach_def mem_simps load64_zero_page)
qed

lemma tab_attach:
  assumes wf: "pt_wf kend s root (p # ps)" and js: "js @ [i] \<in> paths" "tab (ram s) root js = Some t"
    and new: "tab (ram s) root (js @ [i]) = None" and "is \<in> paths"
  shows "tab (ram (attach t i p s)) root is = (if is = js @ [i] then Some p else tab (ram s) root is)"
proof -
  have p: "page_aligned p" using pt_wfD(1) [OF wf] by (simp add: free_pages_def page_ok_def)
  have t: "page_aligned t" "t \<noteq> p" using pt_wfD(3) [OF wf paths_appendD js(2)] js(1) by auto
  have i: "i < 512" using js(1) by (auto simp: paths_def)
  show ?thesis using \<open>is \<in> paths\<close>
  proof (induction "is" rule: rev_induct)
    case (snoc k ks)
    then have ks: "ks \<in> paths" and k: "k < 512" by (auto simp: paths_def)
    show ?case
    proof (cases "ks = js @ [i]")
      case True
      then have "tab (ram (attach t i p s)) root ks = Some p" "tab (ram s) root ks = None"
        and "ks @ [k] \<noteq> js @ [i]" using snoc.IH ks new by auto
      then show ?thesis using k i t p by (simp add: tab_snoc next_table_attach)
    next
      case False
      then have IH: "tab (ram (attach t i p s)) root ks = tab (ram s) root ks" using snoc.IH ks by simp
      show ?thesis
      proof (cases "tab (ram s) root ks")
        case (Some t')
        have t': "page_aligned t'" "t' \<noteq> p" using pt_wfD(3) [OF wf ks Some] by auto
        have "t' = t \<longleftrightarrow> ks = js"
          using pt_wfD(4) [OF wf ks paths_appendD [OF js(1)] Some] Some js(2) by auto
        with Some IH t t' p i k show ?thesis by (simp add: tab_snoc next_table_attach)
      next
        case None
        then have "ks \<noteq> js" using js(2) by auto
        with None IH show ?thesis by (simp add: tab_snoc)
      qed
    qed
  qed simp
qed

lemma lookup_attach:
  assumes wf: "pt_wf kend s root (p # ps)" and js: "js @ [i] \<in> paths" "tab (ram s) root js = Some t"
    and new: "tab (ram s) root (js @ [i]) = None"
  shows "lookup (ram (attach t i p s)) root va = lookup (ram s) root va"
proof -
  have p: "page_aligned p" using pt_wfD(1) [OF wf] by (simp add: free_pages_def page_ok_def)
  have t: "page_aligned t" "t \<noteq> p" using pt_wfD(3) [OF wf paths_appendD js(2)] js(1) by auto
  have i: "i < 512" using js(1) by (auto simp: paths_def)
  let ?is = "[PX 2 va, PX 1 va]"
  have path: "?is \<in> paths" by simp
  show ?thesis
  proof (cases "?is = js @ [i]")
    case True
    then have "tab (ram s) root ?is = None" "tab (ram (attach t i p s)) root ?is = Some p"
      unfolding True using tab_attach [OF wf js new js(1)] new by simp_all
    then show ?thesis using t p i
      by (simp add: lookup_def attach_def mem_simps load64_zero_page del: tab.simps)
  next
    case False
    show ?thesis
    proof (cases "tab (ram s) root ?is")
      case (Some t')
      have t': "page_aligned t'" "t' \<noteq> p" using pt_wfD(3) [OF wf path Some] by auto
      moreover have "t' \<noteq> t"
        using pt_wfD(4) [OF wf path paths_appendD [OF js(1)] Some] js by (auto simp: paths_def)
      moreover have "tab (ram (attach t i p s)) root ?is = Some t'"
        using tab_attach [OF wf js new path] False Some by (simp only: if_False)
      ultimately show ?thesis using Some t p i
        by (simp add: lookup_def attach_def mem_simps del: tab.simps)
    next
      case None
      then have "tab (ram (attach t i p s)) root ?is = None"
        using tab_attach [OF wf js new path] False by (simp only: if_False)
      with None show ?thesis by (simp add: lookup_def del: tab.simps)
    qed
  qed
qed

lemma ram_attach_other:
  assumes "page_aligned t" "page_aligned p" "page_aligned q" "i < 512" "q \<noteq> t" "q \<noteq> p" "a < 4096"
  shows "ram (attach t i p s) (q + of_nat a) = ram s (q + of_nat a)"
proof -
  have "disjoint_blocks (q + of_nat a) 1 (pte_addr t i) 8"
    using disjoint_pages [of q t a 1 "8 * unat i" 8] assms pte_addr_offset [of i t] by simp
  moreover have "disjoint_blocks (q + of_nat a) 1 p 4096"
    using disjoint_pages [of q p a 1 0 4096] assms by simp
  ultimately have "\<not> unat (q + of_nat a - pte_addr t i) < 8" "\<not> unat (q + of_nat a - p) < 4096"
    by (auto simp: disjoint_blocks_def dest: spec [of _ "q + of_nat a"])
  then show ?thesis
    unfolding attach_def set_pte_def store64_def by (simp add: zero_page_ram wrbytes_def)
qed

lemma free_list_attach [simp]: "free_list (attach t i p s) = free_list s"
  by (simp add: attach_def set_pte_def zero_page_def)

lemma pt_wf_attach:
  assumes wf: "pt_wf kend s root (p # ps)" and js: "js @ [i] \<in> paths" "tab (ram s) root js = Some t"
    and new: "tab (ram s) root (js @ [i]) = None" and s': "page_alloc s = (Some p, s')"
  shows "pt_wf kend (attach t i p s') root ps"
proof -
  have p: "page_ok kend p" "page_aligned p" "p \<notin> set ps" and ok: "\<forall>q \<in> set ps. page_ok kend q"
    using kernel_pages.pool_page [OF pt_wfD(1) [OF wf]] by (auto simp: page_ok_def)
  have t: "page_aligned t" "t \<notin> set ps" using pt_wfD(3) [OF wf paths_appendD js(2)] js(1) by auto
  have i: "i < 512" using js(1) by (auto simp: paths_def)
  have ram: "ram s' = ram s" using s' by (rule page_alloc_ram)
  have tab: "is \<in> paths \<Longrightarrow> tab (ram (attach t i p s')) root is = (if is = js @ [i] then Some p else tab (ram s) root is)" for "is"
    using tab_attach [OF wf js new] ram by (simp add: attach_def set_pte_def zero_page_def)
  have "free_pages kend s' ps" using pt_wfD(1) [OF wf] s' by (auto dest: kernel_pages.alloc_Cons)
  then have "free_pages kend (attach t i p s') ps"
    using ram_attach_other [of t p _ i] p t i ok
    by (elim free_pages_cong) (auto simp: page_ok_def)
  moreover have "page_ok kend q \<and> q \<notin> set ps" if "q \<in> tables (ram (attach t i p s')) root" for q
    using that tab p pt_wfD(3) [OF wf] by (auto simp: tables_def split: if_splits)
  moreover have "inj_on (tab (ram (attach t i p s')) root) (paths \<inter> {is. tab (ram (attach t i p s')) root is \<noteq> None})"
  proof (rule inj_onI)
    fix x y assume x: "x \<in> paths \<inter> {is. tab (ram (attach t i p s')) root is \<noteq> None}"
      and y: "y \<in> paths \<inter> {is. tab (ram (attach t i p s')) root is \<noteq> None}"
      and eq: "tab (ram (attach t i p s')) root x = tab (ram (attach t i p s')) root y"
    have np: "tab (ram s) root z \<noteq> Some p" if "z \<in> paths" for z using pt_wfD(3) [OF wf that] by auto
    show "x = y"
      using x y eq tab [of x] tab [of y] np [of x] np [of y] pt_wfD(4) [OF wf, of x y]
      by (cases "x = js @ [i]"; cases "y = js @ [i]") auto
  qed
  ultimately show ?thesis by (simp add: pt_wf_def)
qed

section \<open>\<open>walk\<close>\<close>

text \<open>
  What a call of \<open>walk\<close> may do to memory: it takes pages from the front of the free list and
  changes table pages and pages it took, and nothing else; every translation stays as it is.
\<close>

definition vm_frame :: "u64 \<Rightarrow> u64 \<Rightarrow> u64 list \<Rightarrow> 'a kmem_scheme \<Rightarrow> u64 list \<Rightarrow> 'a kmem_scheme \<Rightarrow> bool" where
  "vm_frame kend root ps s ps' s' \<longleftrightarrow>
     pt_wf kend s' root ps' \<and>
     (\<exists>qs. ps = qs @ ps' \<and> tables (ram s') root = tables (ram s) root \<union> set qs) \<and>
     (\<forall>q a. page_aligned q \<longrightarrow> q \<notin> tables (ram s) root \<longrightarrow> q \<notin> set ps \<longrightarrow> a < 4096 \<longrightarrow>
        ram s' (q + of_nat a) = ram s (q + of_nat a)) \<and>
     (\<exists>m l. s' = s\<lparr>free_list := l, ram := m\<rparr>)"

definition walk_frame :: "u64 \<Rightarrow> u64 \<Rightarrow> u64 list \<Rightarrow> 'a kmem_scheme \<Rightarrow> u64 list \<Rightarrow> 'a kmem_scheme \<Rightarrow> bool" where
  "walk_frame kend root ps s ps' s' \<longleftrightarrow>
     vm_frame kend root ps s ps' s' \<and> (\<forall>va. lookup (ram s') root va = lookup (ram s) root va)"

lemma vm_frame_refl: "pt_wf kend s root ps \<Longrightarrow> vm_frame kend root ps s ps s"
  by (auto simp: vm_frame_def intro!: exI [of _ "free_list s"] exI [of _ "ram s"])

lemma vm_frame_trans:
  assumes "vm_frame kend root ps s ps1 s1" "vm_frame kend root ps1 s1 ps2 s2"
  shows "vm_frame kend root ps s ps2 s2"
proof -
  obtain qs qs' where qs: "ps = qs @ ps1" "tables (ram s1) root = tables (ram s) root \<union> set qs"
    "ps1 = qs' @ ps2" "tables (ram s2) root = tables (ram s1) root \<union> set qs'"
    using assms by (auto simp: vm_frame_def)
  obtain m l m' l' where "s1 = s\<lparr>free_list := l, ram := m\<rparr>" "s2 = s1\<lparr>free_list := l', ram := m'\<rparr>"
    using assms unfolding vm_frame_def by blast
  then have "s2 = s\<lparr>free_list := l', ram := m'\<rparr>" by simp
  moreover have "ps = (qs @ qs') @ ps2 \<and> tables (ram s2) root = tables (ram s) root \<union> set (qs @ qs')"
    using qs by auto
  moreover have "ram s2 (q + of_nat a) = ram s (q + of_nat a)"
    if "page_aligned q" "q \<notin> tables (ram s) root" "q \<notin> set ps" "a < 4096" for q a
    using that assms qs by (simp add: vm_frame_def)
  ultimately show ?thesis using assms unfolding vm_frame_def by metis
qed

lemma walk_frame_refl: "pt_wf kend s root ps \<Longrightarrow> walk_frame kend root ps s ps s"
  by (simp add: walk_frame_def vm_frame_refl)

lemma walk_frame_trans:
  "walk_frame kend root ps s ps1 s1 \<Longrightarrow> walk_frame kend root ps1 s1 ps2 s2 \<Longrightarrow> walk_frame kend root ps s ps2 s2"
  by (auto simp: walk_frame_def intro: vm_frame_trans)

lemma walk_frame_attach:
  assumes wf: "pt_wf kend s root (p # ps)" and js: "js @ [i] \<in> paths" "tab (ram s) root js = Some t"
    and new: "tab (ram s) root (js @ [i]) = None" and s': "page_alloc s = (Some p, s')"
  shows "walk_frame kend root (p # ps) s ps (attach t i p s')"
proof -
  have i: "i < 512" using js(1) by (auto simp: paths_def)
  have p: "page_aligned p" using pt_wfD(1) [OF wf] by (simp add: free_pages_def page_ok_def)
  have t: "page_aligned t" "t \<in> tables (ram s) root"
    using pt_wfD(3) [OF wf paths_appendD [OF js(1)] js(2)] js(2) paths_appendD [OF js(1)]
    by (auto simp: tables_def)
  have same: "ram (attach t i p s') = ram (attach t i p s)"
    using page_alloc_ram [OF s'] by (simp add: attach_def set_pte_def zero_page_def)
  have "tables (ram (attach t i p s)) root = tables (ram s) root \<union> set [p]" (is "?A = ?B")
  proof (intro equalityI subsetI)
    show "q \<in> ?A \<Longrightarrow> q \<in> ?B" for q
      using tab_attach [OF wf js new] by (auto simp: tables_def split: if_splits)
    fix q assume "q \<in> ?B"
    then consider "q = p" | ks where "ks \<in> paths" "tab (ram s) root ks = Some q" by (auto simp: tables_def)
    then show "q \<in> ?A"
    proof cases
      case 2
      then have "ks \<noteq> js @ [i]" using new by auto
      with 2 tab_attach [OF wf js new 2(1)] show ?thesis by (auto simp: tables_def)
    qed (use tab_attach [OF wf js new js(1)] js(1) in \<open>auto simp: tables_def\<close>)
  qed
  moreover obtain l where "s' = s\<lparr>free_list := l\<rparr>"
    using page_alloc_state [OF s'] by blast
  then have "attach t i p s' = s\<lparr>free_list := l, ram := ram (attach t i p s')\<rparr>"
    by (simp add: attach_def set_pte_def zero_page_def)
  then have "\<exists>m l. attach t i p s' = s\<lparr>free_list := l, ram := m\<rparr>" by blast
  ultimately show ?thesis
    using pt_wf_attach [OF wf js new s'] lookup_attach [OF wf js new] ram_attach_other [of t p _ i _ s] i p t
    unfolding walk_frame_def vm_frame_def same by (intro conjI allI impI) (auto intro: exI [of _ "[p]"])
qed

definition path :: "u64 \<Rightarrow> u64 list" where
  "path va = [PX 2 va, PX 1 va]"

lemma lookup_path:
  "lookup m root va = (case tab m root (path va) of None \<Rightarrow> 0 | Some t \<Rightarrow> load64 m (pte_addr t (PX 0 va)))"
  by (simp add: lookup_def path_def)

lemma path_in [simp]: "path va \<in> paths" "take n (path va) \<in> paths"
  by (auto simp: path_def paths_def dest!: in_set_takeD)

lemma take_path_Suc: "l < 2 \<Longrightarrow> take (2 - Suc l) (path va) @ [PX (Suc l) va] = take (2 - l) (path va)"
  by (cases l) (auto simp: path_def numeral_2_eq_2)

lemma tab_path_None: "tab m root (take n (path va)) = None \<Longrightarrow> tab m root (path va) = None"
  using tab_append [of m root "take n (path va)" "drop n (path va)"] by simp

lemma pte_addr_nonzero:
  assumes "page_ok kend t" "0 < kend" "i < 512"
  shows "pte_addr t i \<noteq> 0"
proof -
  have "unat (pte_addr t i) = unat t + 8 * unat i"
    using assms pte_addr_offset [of i t] page_offset_unat [of t "8 * unat i"] by (simp add: page_ok_def)
  moreover have "0 < unat t" using assms by (auto simp: page_ok_def unat_gt_0)
  ultimately show ?thesis by auto
qed

definition walk_post :: "u64 \<Rightarrow> u64 \<Rightarrow> u64 \<Rightarrow> bool \<Rightarrow> u64 list \<Rightarrow> 'a kmem_scheme \<Rightarrow> u64 option \<Rightarrow> u64 list \<Rightarrow> 'a kmem_scheme \<Rightarrow> bool" where
  "walk_post kend root va alloc ps s r ps' s' \<longleftrightarrow>
     walk_frame kend root ps s ps' s' \<and> (\<not> alloc \<longrightarrow> s' = s \<and> ps' = ps) \<and>
     (case r of
        None \<Rightarrow> tab (ram s') root (path va) = None \<and> (alloc \<longrightarrow> ps' = [])
      | Some a \<Rightarrow> \<exists>t. tab (ram s') root (path va) = Some t \<and> a = pte_addr t (PX 0 va))"

lemma walk_loop_spec:
  assumes "pt_wf kend s root ps" "tab (ram s) root (take (2 - l) (path va)) = Some t" "l \<le> 2"
  shows "\<exists>r s' ps'. walk_loop l t va alloc s = Ret (r, s') \<and> walk_post kend root va alloc ps s r ps' s' \<and>
    length ps \<le> length ps' + l"
  using assms
proof (induction l arbitrary: s ps t)
  case 0
  then show ?case by (auto simp: walk_post_def path_def intro: walk_frame_refl)
next
  case (Suc l)
  let ?js = "take (2 - Suc l) (path va)" and ?i = "PX (Suc l) va"
  have l: "l < 2" using Suc.prems(3) by simp
  have js: "?js @ [?i] = take (2 - l) (path va)" using take_path_Suc [OF l] .
  have ok: "page_ok kend t" "pte_addr t ?i \<noteq> 0"
    using pt_wfD(2) [OF Suc.prems(1)] pt_wfD(3) [OF Suc.prems(1) _ Suc.prems(2)]
      pte_addr_nonzero [of kend t ?i] by auto
  have nxt: "tab (ram s) root (take (2 - l) (path va)) = next_table (ram s) t ?i"
    using Suc.prems(2) by (simp add: js [symmetric] tab_snoc)
  show ?case
  proof (cases "load64 (ram s) (pte_addr t ?i) AND PTE_V \<noteq> 0")
    case True
    then have "tab (ram s) root (take (2 - l) (path va)) = Some (PTE2PA (load64 (ram s) (pte_addr t ?i)))"
      using nxt by (simp add: next_table_def)
    from Suc.IH [OF Suc.prems(1) this] True ok l show ?thesis by (auto simp: Let_def intro: le_SucI)
  next
    case False
    then have none: "tab (ram s) root (?js @ [?i]) = None" using nxt js by (simp add: next_table_def)
    then have nopath: "tab (ram s) root (path va) = None" using js tab_path_None by metis
    show ?thesis
    proof (cases alloc)
      case True
      obtain r s1 where alloc: "page_alloc s = (r, s1)" by fastforce
      show ?thesis
      proof (cases ps)
        case Nil
        then have "r = None" using kernel_pages.alloc_Nil pt_wfD(1) [OF Suc.prems(1)] alloc by metis
        then show ?thesis using False True alloc nopath Nil ok Suc.prems(1) page_alloc_None [of s s1]
          by (auto simp: walk_post_def Let_def walk_frame_refl)
      next
        case (Cons p ps1)
        then have r: "r = Some p" using kernel_pages.alloc_Cons pt_wfD(1) [OF Suc.prems(1)] alloc by metis
        have fr: "walk_frame kend root ps s ps1 (attach t ?i p s1)"
          using walk_frame_attach [of kend s root p ps1 ?js ?i t s1] Suc.prems none alloc r Cons js
          by simp
        then have "pt_wf kend (attach t ?i p s1) root ps1" by (simp add: walk_frame_def vm_frame_def)
        moreover have "tab (ram (attach t ?i p s1)) root (take (2 - l) (path va)) = Some p"
          using tab_attach [of kend s root p ps1 ?js ?i t] Suc.prems none alloc r Cons js
            page_alloc_ram [OF alloc]
          by (simp add: attach_def set_pte_def zero_page_def)
        ultimately obtain r' s' ps' where step: "walk_loop l p va alloc (attach t ?i p s1) = Ret (r', s')"
          "walk_post kend root va alloc ps1 (attach t ?i p s1) r' ps' s'" "length ps1 \<le> length ps' + l"
          using Suc.IH l by (metis less_imp_le)
        then have "walk_post kend root va alloc ps s r' ps' s'"
          using True fr by (auto simp: walk_post_def intro: walk_frame_trans)
        with step False True alloc r ok Cons show ?thesis
          by (auto simp: Let_def attach_def intro!: exI [of _ ps'])
      qed
    next
      case False
      with \<open>\<not> load64 (ram s) (pte_addr t ?i) AND PTE_V \<noteq> 0\<close> nopath ok Suc.prems(1) show ?thesis
        by (auto simp: walk_post_def Let_def walk_frame_refl)
    qed
  qed
qed

lemma walk_spec:
  assumes "pt_wf kend s root ps" "va < MAXVA"
  shows "\<exists>r s' ps'. walk root va alloc s = Ret (r, s') \<and> walk_post kend root va alloc ps s r ps' s' \<and>
    length ps \<le> length ps' + 2"
  using walk_loop_spec [of kend s root ps 2 va root alloc] assms by (simp add: walk_def not_le)

section \<open>Entering a translation\<close>

text \<open>Writing a leaf entry changes the translation of the addresses of one page and nothing else.\<close>

lemma PX_PGROUNDDOWN: "PX l (PGROUNDDOWN va) = PX l va"
  by (rule bit_word_eqI)
    (auto simp: bit_PX PGROUNDDOWN_drop_bit bit_simps PXSHIFT_def add.assoc dest: bit_imp_le_length)

lemma lookup_PGROUNDDOWN: "lookup m root (PGROUNDDOWN va) = lookup m root va"
  unfolding lookup_def PX_PGROUNDDOWN ..

lemma same_entry:
  assumes "va < MAXVA" "va' < MAXVA"
  shows "path va' = path va \<and> PX 0 va' = PX 0 va \<longleftrightarrow> PGROUNDDOWN va' = PGROUNDDOWN va"
proof
  assume eq: "PGROUNDDOWN va' = PGROUNDDOWN va"
  show "path va' = path va \<and> PX 0 va' = PX 0 va"
    using PX_PGROUNDDOWN [of _ va] PX_PGROUNDDOWN [of _ va'] unfolding eq by (simp add: path_def)
qed (use assms PX_unique [of va' va] in \<open>auto simp: path_def\<close>)

lemma ram_set_pte_other:
  assumes "page_aligned t" "page_aligned q" "i < 512" "q \<noteq> t" "a < 4096"
  shows "ram (set_pte (pte_addr t i) v s) (q + of_nat a) = ram s (q + of_nat a)"
proof -
  have "disjoint_blocks (q + of_nat a) 1 (pte_addr t i) 8"
    using disjoint_pages [of q t a 1 "8 * unat i" 8] assms pte_addr_offset [of i t] by simp
  then have "\<not> unat (q + of_nat a - pte_addr t i) < 8"
    by (auto simp: disjoint_blocks_def dest: spec [of _ "q + of_nat a"])
  then show ?thesis
    unfolding set_pte_def store64_def by (simp add: wrbytes_def)
qed

lemma free_list_set_pte [simp]: "free_list (set_pte a v s) = free_list s"
  by (simp add: set_pte_def)

lemma set_leaf:
  assumes wf: "pt_wf kend s root ps" and t: "tab (ram s) root (path va) = Some t"
  shows "pt_wf kend (set_pte (pte_addr t (PX 0 va)) v s) root ps"
    and "tables (ram (set_pte (pte_addr t (PX 0 va)) v s)) root = tables (ram s) root"
    and "lookup (ram (set_pte (pte_addr t (PX 0 va)) v s)) root va' =
      (if path va' = path va \<and> PX 0 va' = PX 0 va then v else lookup (ram s) root va')"
proof -
  let ?s = "set_pte (pte_addr t (PX 0 va)) v s"
  have ok: "page_aligned t" "t \<notin> set ps" using pt_wfD(3) [OF wf path_in(1) t] by auto
  have tab: "tab (ram ?s) root is = tab (ram s) root is" if "is \<in> paths" for "is"
    using that
  proof (induction "is" rule: rev_induct)
    case (snoc k ks)
    then have ks: "ks \<in> paths" "k < 512" "length ks < 2" by (auto simp: paths_def)
    show ?case
    proof (cases "tab (ram s) root ks")
      case (Some t')
      have "t' \<noteq> t" using pt_wfD(4) [OF wf ks(1) path_in(1) Some] t ks(3) by (auto simp: path_def)
      moreover have "page_aligned t'" using pt_wfD(3) [OF wf ks(1) Some] by simp
      ultimately show ?thesis using snoc.IH ks Some ok by (simp add: tab_snoc next_table_def mem_simps)
    qed (use snoc.IH ks in \<open>simp add: tab_snoc\<close>)
  qed simp
  then show tables: "tables (ram ?s) root = tables (ram s) root" by (auto simp: tables_def)
  have "free_pages kend ?s ps"
    using pt_wfD(1) [OF wf] kernel_pages.pool_page [OF pt_wfD(1) [OF wf]] ok
    by (elim free_pages_cong) (auto simp: page_ok_def intro!: ram_set_pte_other)
  moreover have "inj_on (tab (ram ?s) root) (paths \<inter> {is. tab (ram ?s) root is \<noteq> None})"
    using wf tab by (auto simp: pt_wf_def inj_on_def)
  ultimately show "pt_wf kend ?s root ps" using wf tables by (simp add: pt_wf_def)
  show "lookup (ram ?s) root va' =
      (if path va' = path va \<and> PX 0 va' = PX 0 va then v else lookup (ram s) root va')"
  proof (cases "tab (ram s) root (path va')")
    case None
    then have "path va' \<noteq> path va" using t by auto
    then show ?thesis using None tab [OF path_in(1) [of va']] by (simp add: lookup_path)
  next
    case (Some t')
    have "t' = t \<longleftrightarrow> path va' = path va"
      using pt_wfD(4) [OF wf path_in(1) path_in(1) [of va] Some] t Some by (metis option.inject)
    moreover have "page_aligned t'" using pt_wfD(3) [OF wf path_in(1) Some] by simp
    ultimately show ?thesis using Some tab [OF path_in(1) [of va']] ok
      by (cases "path va' = path va"; cases "PX 0 va' = PX 0 va") (simp_all add: lookup_path mem_simps)
  qed
qed

lemma set_leaf_frame:
  assumes wf: "pt_wf kend s root ps" and t: "tab (ram s) root (path va) = Some t"
  shows "vm_frame kend root ps s ps (set_pte (pte_addr t (PX 0 va)) v s)"
proof -
  have "t \<in> tables (ram s) root" using t by (auto simp: tables_def)
  moreover have "page_aligned t" using pt_wfD(3) [OF wf path_in(1) t] by simp
  moreover have "set_pte (pte_addr t (PX 0 va)) v s =
      s\<lparr>free_list := free_list s, ram := ram (set_pte (pte_addr t (PX 0 va)) v s)\<rparr>"
    by (simp add: set_pte_def)
  then have "\<exists>m l. set_pte (pte_addr t (PX 0 va)) v s = s\<lparr>free_list := l, ram := m\<rparr>" by blast
  ultimately show ?thesis
    using set_leaf(1,2) [OF wf t] unfolding vm_frame_def by (auto intro!: ram_set_pte_other)
qed

section \<open>\<open>mappages\<close>\<close>

text \<open>
  The entries a call of \<open>mappages\<close> has written when it has come as far as the address \<open>b\<close>.
\<close>

definition mapped_upto :: "u64 \<Rightarrow> u64 \<Rightarrow> u64 \<Rightarrow> u64 \<Rightarrow> (u64 \<Rightarrow> u64) \<Rightarrow> u64 \<Rightarrow> u64" where
  "mapped_upto a b pa perm old va =
     (if a \<le> PGROUNDDOWN va \<and> PGROUNDDOWN va < b
      then PA2PTE (pa + (PGROUNDDOWN va - a)) OR perm OR PTE_V else old va)"

lemma PGROUNDDOWN_less: "va < MAXVA \<Longrightarrow> PGROUNDDOWN va < MAXVA"
  by (simp add: word_less_nat_alt unat_PGROUNDDOWN)

lemma page_step:
  assumes "page_aligned a" "a < MAXVA"
  shows "unat (a + PGSIZE) = unat a + 4096" "page_aligned (a + PGSIZE)" "a < a + PGSIZE"
proof -
  show *: "unat (a + PGSIZE) = unat a + 4096" using assms by (simp add: unat_word_ariths word_less_nat_alt)
  then show "page_aligned (a + PGSIZE)" "a < a + PGSIZE"
    using assms by (simp_all add: page_aligned_unat word_less_nat_alt)
qed

lemma page_less_step:
  assumes "page_aligned a" "page_aligned b" "a < MAXVA"
  shows "a + PGSIZE \<le> b \<longleftrightarrow> a < b" and "b < a + PGSIZE \<longleftrightarrow> b \<le> a"
proof -
  have "unat a + 4096 \<le> unat b \<longleftrightarrow> unat a < unat b" "unat b < unat a + 4096 \<longleftrightarrow> unat b \<le> unat a"
    using assms by (auto simp: page_aligned_unat elim!: dvdE)
  then show "a + PGSIZE \<le> b \<longleftrightarrow> a < b" and "b < a + PGSIZE \<longleftrightarrow> b \<le> a"
    using page_step(1) [OF assms(1,3)] by (simp_all add: word_le_nat_alt word_less_nat_alt)
qed

lemma PGROUNDDOWN_aligned: "page_aligned a \<Longrightarrow> PGROUNDDOWN a = a"
  by (rule word_unatI) (auto simp: unat_PGROUNDDOWN page_aligned_unat)

lemma mapped_upto_empty: "mapped_upto a a pa perm old va = old va"
  by (auto simp: mapped_upto_def)

lemma mapped_upto_one:
  assumes "page_aligned a" "a < MAXVA"
  shows "mapped_upto a (a + PGSIZE) pa perm old va =
    (if PGROUNDDOWN va = a then PA2PTE pa OR perm OR PTE_V else old va)"
  using assms page_less_step(2) [of a "PGROUNDDOWN va"] by (auto simp: mapped_upto_def)

lemma mapped_upto_step:
  assumes "page_aligned a" "a < MAXVA" "a + PGSIZE \<le> b"
  shows "mapped_upto (a + PGSIZE) b (pa + PGSIZE) perm (mapped_upto a (a + PGSIZE) pa perm old) va =
    mapped_upto a b pa perm old va"
proof -
  have "a + PGSIZE \<le> PGROUNDDOWN va \<longleftrightarrow> a < PGROUNDDOWN va"
    using assms page_less_step(1) [of a "PGROUNDDOWN va"] by simp
  moreover have "a < b" using assms page_step(3) [OF assms(1,2)] by simp
  ultimately show ?thesis
    using mapped_upto_one [OF assms(1,2)] by (auto simp: mapped_upto_def)
qed

lemma mappages_loop_spec:
  assumes "pt_wf kend s root ps" "page_aligned a" "page_aligned lst" "a \<le> lst" "lst < MAXVA"
    and "\<forall>va < MAXVA. a \<le> PGROUNDDOWN va \<and> PGROUNDDOWN va \<le> lst \<longrightarrow> lookup (ram s) root va AND PTE_V = 0"
  shows "\<exists>r s' ps' b. mappages_loop root a lst pa perm s = Ret (r, s') \<and> vm_frame kend root ps s ps' s' \<and>
    (\<forall>va < MAXVA. lookup (ram s') root va = mapped_upto a b pa perm (lookup (ram s) root) va) \<and>
    a \<le> b \<and> page_aligned b \<and> (r = 0 \<and> b = lst + PGSIZE \<or> r = - 1 \<and> b \<le> lst \<and> ps' = []) \<and>
    length ps \<le> length ps' + 2 * Suc ((unat lst - unat a) div 4096)"
  using assms
proof (induction root a lst pa perm s arbitrary: ps rule: mappages_loop.induct)
  case (1 root a lst pa perm s)
  have a: "a < MAXVA" using 1 by simp
  obtain r s1 ps1 where w: "walk root a True s = Ret (r, s1)"
    and post: "walk_post kend root a True ps s r ps1 s1" and len1: "length ps \<le> length ps1 + 2"
    using walk_spec [OF 1(2) a] by blast
  have fr1: "vm_frame kend root ps s ps1 s1" and lk1: "lookup (ram s1) root va = lookup (ram s) root va" for va
    using post by (simp_all add: walk_post_def walk_frame_def)
  show ?case
  proof (cases r)
    case None
    then have "mappages_loop root a lst pa perm s = Ret (- 1, s1)" and "ps1 = []"
      using w post by (simp_all add: mappages_loop.simps [of root a] walk_post_def)
    then show ?thesis using fr1 lk1 len1 1 by (auto simp: mapped_upto_empty intro!: exI [of _ a])
  next
    case (Some pte)
    then obtain t where t: "tab (ram s1) root (path a) = Some t" "pte = pte_addr t (PX 0 a)"
      using post by (auto simp: walk_post_def)
    have "PGROUNDDOWN a = a" using 1 by (simp add: PGROUNDDOWN_aligned)
    then have inv: "load64 (ram s1) pte AND PTE_V = 0"
      using 1 a t lk1 [of a] by (simp add: lookup_path)
    define s2 where "s2 = set_pte pte (PA2PTE pa OR perm OR PTE_V) s1"
    have wf1: "pt_wf kend s1 root ps1" using fr1 by (simp add: vm_frame_def)
    have fr2: "vm_frame kend root ps s ps1 s2"
      using vm_frame_trans [OF fr1 set_leaf_frame [OF wf1 t(1)]] t(2) by (simp add: s2_def)
    have lk2: "lookup (ram s2) root va = mapped_upto a (a + PGSIZE) pa perm (lookup (ram s) root) va"
      if "va < MAXVA" for va
      using set_leaf(3) [OF wf1 t(1)] same_entry [OF a that] t(2) 1 a lk1 \<open>PGROUNDDOWN a = a\<close>
      unfolding s2_def by (simp add: mapped_upto_one)
    show ?thesis
    proof (cases "a = lst")
      case True
      then have "mappages_loop root a lst pa perm s = Ret (0, s2)"
        using w Some inv by (subst mappages_loop.simps) (simp add: s2_def)
      moreover have "a \<le> a + PGSIZE" "page_aligned (a + PGSIZE)"
        using page_step [of a] 1 a by simp_all
      ultimately show ?thesis using fr2 lk2 True len1 by (intro exI [of _ 0] exI) auto
    next
      case False
      then have le: "a + PGSIZE \<le> lst" using 1 a page_less_step(1) [of a lst] by simp
      have step: "mappages_loop root a lst pa perm s = mappages_loop root (a + PGSIZE) lst (pa + PGSIZE) perm s2"
        using w Some inv False by (simp add: mappages_loop.simps [of root a] s2_def)
      have free: "\<forall>va < MAXVA. a + PGSIZE \<le> PGROUNDDOWN va \<and> PGROUNDDOWN va \<le> lst \<longrightarrow>
          lookup (ram s2) root va AND PTE_V = 0"
      proof (intro allI impI)
        fix va assume va: "va < MAXVA" "a + PGSIZE \<le> PGROUNDDOWN va \<and> PGROUNDDOWN va \<le> lst"
        have "a < PGROUNDDOWN va" using va 1 a page_less_step(1) [of a "PGROUNDDOWN va"] by simp
        then show "lookup (ram s2) root va AND PTE_V = 0" using va 1 a lk2 by (auto simp: mapped_upto_one)
      qed
      have ni: "\<not> load64 (ram s1) pte AND PTE_V \<noteq> 0" using inv by simp
      have wf2: "pt_wf kend s2 root ps1" using fr2 by (simp add: vm_frame_def)
      obtain r' s' ps' b where IH: "mappages_loop root (a + PGSIZE) lst (pa + PGSIZE) perm s2 = Ret (r', s')"
        "vm_frame kend root ps1 s2 ps' s'"
        "\<forall>va < MAXVA. lookup (ram s') root va =
           mapped_upto (a + PGSIZE) b (pa + PGSIZE) perm (lookup (ram s2) root) va"
        "a + PGSIZE \<le> b" "page_aligned b" "r' = 0 \<and> b = lst + PGSIZE \<or> r' = - 1 \<and> b \<le> lst \<and> ps' = []"
        "length ps1 \<le> length ps' + 2 * Suc ((unat lst - unat (a + PGSIZE)) div 4096)"
        using "1.IH" [OF w refl Some ni s2_def False wf2 page_step(2) [OF "1.prems"(2) a] "1.prems"(3)
            le "1.prems"(5) free] by blast
      have "lookup (ram s') root va = mapped_upto a b pa perm (lookup (ram s) root) va" if "va < MAXVA" for va
      proof -
        have "lookup (ram s') root va =
          mapped_upto (a + PGSIZE) b (pa + PGSIZE) perm (mapped_upto a (a + PGSIZE) pa perm (lookup (ram s) root)) va"
          using IH(3) that lk2 by (simp add: mapped_upto_def)
        then show ?thesis using mapped_upto_step [of a b] 1 a IH(4) by simp
      qed
      moreover have "a \<le> b" using IH(4) page_step [of a] 1 a by auto
      moreover have "length ps \<le> length ps' + 2 * Suc ((unat lst - unat a) div 4096)"
      proof -
        have "unat lst - unat a = unat lst - unat (a + PGSIZE) + 4096"
          using le page_step(1) [of a] 1 a by (simp add: word_le_nat_alt)
        then have "(unat lst - unat a) div 4096 = Suc ((unat lst - unat (a + PGSIZE)) div 4096)" by simp
        then show ?thesis using IH(7) len1 by simp
      qed
      ultimately show ?thesis
        using step IH vm_frame_trans [OF fr2 IH(2)] by (intro exI [of _ r'] exI) auto
    qed
  qed
qed

section \<open>An empty page table\<close>

lemma free_list_zero_page [simp]: "free_list (zero_page p s) = free_list s"
  by (simp add: zero_page_def)

lemma ram_zero_page_other:
  assumes "page_aligned p" "page_aligned q" "q \<noteq> p" "a < 4096"
  shows "ram (zero_page p s) (q + of_nat a) = ram s (q + of_nat a)"
proof -
  have "disjoint_blocks (q + of_nat a) 1 p 4096"
    using disjoint_pages [of q p a 1 0 4096] assms by simp
  then have "\<not> unat (q + of_nat a - p) < 4096"
    by (auto simp: disjoint_blocks_def dest: spec [of _ "q + of_nat a"])
  then show ?thesis by (simp add: zero_page_ram wrbytes_def)
qed

lemma free_pages_zero_page:
  assumes "free_pages kend s ps" "page_aligned p" "p \<notin> set ps"
  shows "free_pages kend (zero_page p s) ps"
  using assms kernel_pages.pool_page [OF assms(1)]
  by (elim free_pages_cong) (auto simp: page_ok_def intro!: ram_zero_page_other)

lemma tab_zero_page:
  assumes "page_aligned p" "is \<in> paths"
  shows "tab (ram (zero_page p s)) p is = (if is = [] then Some p else None)"
  using assms by (cases "is") (auto simp: next_table_def load64_zero_page paths_def)

lemma vm_create_wf:
  assumes "free_pages kend s (p # ps)" "vm_create s = (r, s')"
  shows "r = Some p \<and> pt_wf kend s' p ps \<and> tables (ram s') p = {p} \<and> (\<forall>va. lookup (ram s') p va = 0)"
proof -
  obtain s1 where s1: "page_alloc s = (Some p, s1)" "free_pages kend s1 ps"
    using assms(1) kernel_pages.alloc_Cons by (metis surj_pair)
  have p: "page_ok kend p" "page_aligned p" "p \<notin> set ps"
    using kernel_pages.pool_page [OF assms(1)] by (auto simp: page_ok_def)
  have s': "r = Some p" "s' = zero_page p s1" using assms(2) s1 by (auto simp: vm_create_def)
  have "tables (ram s') p = {p}"
    using tab_zero_page [OF p(2), of _ s1] by (auto simp: s' tables_def split: if_splits intro: bexI [of _ "[]"])
  moreover have "inj_on (tab (ram s') p) (paths \<inter> {is. tab (ram s') p is \<noteq> None})"
    using tab_zero_page [OF p(2), of _ s1] by (auto simp: s' inj_on_def split: if_splits)
  moreover have "lookup (ram s') p va = 0" for va
    using tab_zero_page [OF p(2) path_in(1) [of va], of s1] by (simp add: s' lookup_path path_def)
  ultimately show ?thesis
    using s1 p s' free_pages_zero_page by (simp add: pt_wf_def)
qed

section \<open>Properties of the page-table operations\<close>

text \<open>
  C16. \<open>walk\<close> finds or builds the way to the leaf entry of an address. On a well-formed page table it returns. A
  pointer it returns is the address of the entry of the address in the leaf table that hangs, in the memory left
  behind, under the two upper entries of the address; the null pointer means that there is no such table, and with
  allocation also that the allocator is out of pages. The tables of the page table are the old ones and the pages, two at most, taken
  from the front of the free list, so without allocation nothing changes; no translation changes, and only table pages of this page table and pages
  that were free are written.
\<close>

theorem walk_correct:
  assumes "pt_wf kend s root ps" "va < MAXVA"
  shows "\<exists>r s' ps' qs. walk root va alloc s = Ret (r, s') \<and> pt_wf kend s' root ps' \<and>
    (case r of
       None \<Rightarrow> tab (ram s') root [PX 2 va, PX 1 va] = None \<and> (alloc \<longrightarrow> ps' = [])
     | Some pte \<Rightarrow> \<exists>t. tab (ram s') root [PX 2 va, PX 1 va] = Some t \<and> pte = pte_addr t (PX 0 va)) \<and>
    ps = qs @ ps' \<and> length qs \<le> 2 \<and> tables (ram s') root = tables (ram s) root \<union> set qs \<and>
    (\<not> alloc \<longrightarrow> s' = s) \<and>
    (\<forall>x. lookup (ram s') root x = lookup (ram s) root x) \<and>
    (\<forall>q a. page_aligned q \<longrightarrow> q \<notin> tables (ram s) root \<longrightarrow> q \<notin> set ps \<longrightarrow> a < 4096 \<longrightarrow>
       ram s' (q + of_nat a) = ram s (q + of_nat a))"
proof -
  obtain r s' ps' where w: "walk root va alloc s = Ret (r, s')" "walk_post kend root va alloc ps s r ps' s'" "length ps \<le> length ps' + 2"
    using walk_spec [OF assms] by blast
  then obtain qs where "ps = qs @ ps'" "tables (ram s') root = tables (ram s) root \<union> set qs"
    by (auto simp: walk_post_def walk_frame_def vm_frame_def)
  moreover have "length qs \<le> 2" using w(3) calculation(1) by simp
  ultimately show ?thesis using w(1,2) unfolding walk_post_def walk_frame_def vm_frame_def path_def by blast
qed

text \<open>
  C17. \<open>mappages\<close> maps a range: on a range of unmapped pages it returns 0 and afterwards every page of
  the range translates to the corresponding physical page with the given permissions, or it returns
  -1, and then at most two free pages per mapped page were left for tables; no other translation and no memory outside the table
  pages changes.
\<close>

theorem mappages_correct:
  assumes "pt_wf kend s root ps" "va mod PGSIZE = 0" "sz mod PGSIZE = 0" "sz \<noteq> 0"
    and "unat va + unat sz \<le> unat MAXVA"
    and "\<forall>x < MAXVA. va \<le> PGROUNDDOWN x \<and> PGROUNDDOWN x < va + sz \<longrightarrow> lookup (ram s) root x AND PTE_V = 0"
  shows "\<exists>r s' ps'. mappages root va sz pa perm s = Ret (r, s') \<and> pt_wf kend s' root ps' \<and>
    (r = 0 \<or> r = - 1 \<and> length ps \<le> 2 * (unat sz div 4096)) \<and>
    (r = 0 \<longrightarrow> (\<forall>x < MAXVA. lookup (ram s') root x =
       (if va \<le> PGROUNDDOWN x \<and> PGROUNDDOWN x < va + sz
        then PA2PTE (pa + (PGROUNDDOWN x - va)) OR perm OR PTE_V else lookup (ram s) root x))) \<and>
    (\<forall>q a. page_aligned q \<longrightarrow> q \<notin> tables (ram s) root \<longrightarrow> q \<notin> set ps \<longrightarrow> a < 4096 \<longrightarrow>
       ram s' (q + of_nat a) = ram s (q + of_nat a))"
proof -
  let ?lst = "va + sz - PGSIZE"
  have al: "page_aligned va" "page_aligned sz" using assms by (simp_all add: page_aligned_def)
  have sum: "unat (va + sz) = unat va + unat sz" using assms(5) by (simp add: unat_word_ariths)
  have "0 < unat sz" using assms(4) by (simp add: unat_gt_0)
  then have "4096 \<le> unat sz" using al(2) by (auto simp: page_aligned_unat dest: dvd_imp_le)
  then have lst: "unat ?lst = unat va + unat sz - 4096"
    using sum by (subst unat_sub) (simp_all add: word_le_nat_alt)
  have l: "page_aligned ?lst" "va \<le> ?lst" "?lst < MAXVA"
    using al lst \<open>4096 \<le> unat sz\<close> assms(5)
    by (auto simp: page_aligned_unat word_le_nat_alt word_less_nat_alt intro!: dvd_diff_nat)
  have eq: "?lst + PGSIZE = va + sz" by simp
  have free: "\<forall>x < MAXVA. va \<le> PGROUNDDOWN x \<and> PGROUNDDOWN x \<le> ?lst \<longrightarrow> lookup (ram s) root x AND PTE_V = 0"
    using assms(6) page_less_step(2) [OF l(1) _ l(3)] eq by simp
  obtain r s' ps' b where m: "mappages_loop root va ?lst pa perm s = Ret (r, s')" "vm_frame kend root ps s ps' s'"
    "\<forall>x < MAXVA. lookup (ram s') root x = mapped_upto va b pa perm (lookup (ram s) root) x"
    "r = 0 \<and> b = ?lst + PGSIZE \<or> r = - 1 \<and> b \<le> ?lst \<and> ps' = []"
    "length ps \<le> length ps' + 2 * Suc ((unat ?lst - unat va) div 4096)"
    using mappages_loop_spec [OF assms(1) al(1) l free, of pa perm] by blast
  have "mappages root va sz pa perm s = Ret (r, s')" using m(1) assms by (simp add: mappages_def)
  moreover have "r = 0 \<longrightarrow> (\<forall>x < MAXVA. lookup (ram s') root x =
       (if va \<le> PGROUNDDOWN x \<and> PGROUNDDOWN x < va + sz
        then PA2PTE (pa + (PGROUNDDOWN x - va)) OR perm OR PTE_V else lookup (ram s) root x))"
    using m(3,4) eq unfolding mapped_upto_def by auto
  moreover have "Suc ((unat ?lst - unat va) div 4096) = unat sz div 4096"
    using lst \<open>4096 \<le> unat sz\<close> by (simp add: le_div_geq)
  then have "r = 0 \<or> r = - 1 \<and> length ps \<le> 2 * (unat sz div 4096)" using m(4,5) by auto
  ultimately show ?thesis using m(2) unfolding vm_frame_def by blast
qed

section \<open>A small machine\<close>

text \<open>
  A machine with seven free pages and a page table that maps the user page at 0x1000, built by the
  operations themselves; the witnesses run on it.
\<close>

definition demo_end :: u64 where "demo_end = 0x80020000"

fun the_ret :: "'a res \<Rightarrow> 'a" where
  "the_ret (Ret x) = x"
| "the_ret _ = undefined"

definition demo_kmem :: kmem where
  "demo_kmem = foldr (\<lambda>p s. the_ret (page_free demo_end p s))
     [0x80021000, 0x80022000, 0x80023000, 0x80024000, 0x80025000, 0x80026000, 0x80027000]
     \<lparr>ram = (\<lambda>x. ucast x), free_list = slist_new\<rparr>"

lemma free_pages_page_free:
  assumes "free_pages kend s ps" "page_ok kend p" "p \<notin> set ps"
  shows "free_pages kend (the_ret (page_free kend p s)) (p # ps)"
  using kernel_pages.free_pool [OF assms] by auto

lemma demo_kmem_free: "free_pages demo_end demo_kmem
    [0x80021000, 0x80022000, 0x80023000, 0x80024000, 0x80025000, 0x80026000, 0x80027000]"
  unfolding demo_kmem_def foldr_Cons foldr_Nil o_apply id_apply
  by (intro free_pages_page_free)
    (simp_all add: page_ok_def page_aligned_def demo_end_def free_pages_def slist_abs_new)

lemma pt_wf_page_alloc:
  assumes wf: "pt_wf kend s root (p # ps)" and a: "page_alloc s = (r, s')"
  shows "r = Some p \<and> pt_wf kend s' root ps \<and> ram s' = ram s"
proof -
  have "r = Some p" "free_pages kend s' ps" "ram s' = ram s"
    using kernel_pages.alloc_Cons [OF pt_wfD(1) [OF wf] a] page_alloc_ram [OF a] by auto
  then show ?thesis using wf by (auto simp: pt_wf_def)
qed

abbreviation (input) demo_root :: u64 where "demo_root \<equiv> 0x80021000"
abbreviation (input) demo_page :: u64 where "demo_page \<equiv> 0x80022000"

definition demo_empty :: kmem where
  "demo_empty = snd (page_alloc (snd (vm_create demo_kmem)))"

lemma demo_empty_wf:
  "pt_wf demo_end demo_empty demo_root [0x80023000, 0x80024000, 0x80025000, 0x80026000, 0x80027000]"
  "lookup (ram demo_empty) demo_root va = 0" "tables (ram demo_empty) demo_root = {demo_root}"
proof -
  have 1: "pt_wf demo_end (snd (vm_create demo_kmem)) demo_root
      [0x80022000, 0x80023000, 0x80024000, 0x80025000, 0x80026000, 0x80027000]"
    "lookup (ram (snd (vm_create demo_kmem))) demo_root va = 0" "tables (ram (snd (vm_create demo_kmem))) demo_root = {demo_root}" for va
    using vm_create_wf [OF demo_kmem_free, of "fst (vm_create demo_kmem)" "snd (vm_create demo_kmem)"] by simp_all
  with pt_wf_page_alloc [OF 1(1), of "fst (page_alloc (snd (vm_create demo_kmem)))" demo_empty]
  show "pt_wf demo_end demo_empty demo_root [0x80023000, 0x80024000, 0x80025000, 0x80026000, 0x80027000]"
    "lookup (ram demo_empty) demo_root va = 0" "tables (ram demo_empty) demo_root = {demo_root}"
    by (simp_all add: demo_empty_def)
qed

theorem walk_correct_witness:
  "\<exists>t s'. walk demo_root 0x1234 True demo_empty = Ret (Some (pte_addr t (PX 0 0x1234)), s') \<and>
     tab (ram s') demo_root [PX 2 0x1234, PX 1 0x1234] = Some t \<and>
     (\<forall>x. lookup (ram s') demo_root x = 0)"
proof -
  obtain r s' ps' qs where w: "walk demo_root 0x1234 True demo_empty = Ret (r, s')"
    "case r of None \<Rightarrow> tab (ram s') demo_root [PX 2 0x1234, PX 1 0x1234] = None \<and> (True \<longrightarrow> ps' = [])
     | Some pte \<Rightarrow> \<exists>t. tab (ram s') demo_root [PX 2 0x1234, PX 1 0x1234] = Some t \<and> pte = pte_addr t (PX 0 0x1234)"
    "[0x80023000, 0x80024000, 0x80025000, 0x80026000, 0x80027000 :: u64] = qs @ ps'" "length qs \<le> 2"
    "\<forall>x. lookup (ram s') demo_root x = lookup (ram demo_empty) demo_root x"
    using walk_correct [OF demo_empty_wf(1), of "0x1234" True] by (auto simp del: append_eq_Cons_conv Cons_eq_append_conv)
  have "length qs + length ps' = 5" using arg_cong [OF w(3), of length] by simp
  then have "ps' \<noteq> []" using w(4) by auto
  then show ?thesis using w(1,2,5) demo_empty_wf(2) by (auto split: option.splits)
qed

theorem mappages_correct_witness:
  "\<exists>s'. mappages demo_root 0x1000 PGSIZE demo_page (PTE_R OR PTE_W OR PTE_U) demo_empty = Ret (0, s') \<and>
     lookup (ram s') demo_root 0x1abc = PA2PTE demo_page OR (PTE_R OR PTE_W OR PTE_U) OR PTE_V \<and>
     lookup (ram s') demo_root 0x2abc = 0"
proof -
  have "\<forall>x < MAXVA. 0x1000 \<le> PGROUNDDOWN x \<and> PGROUNDDOWN x < 0x1000 + PGSIZE \<longrightarrow>
      lookup (ram demo_empty) demo_root x AND PTE_V = 0"
    by (simp add: demo_empty_wf(2))
  from mappages_correct [OF demo_empty_wf(1), of "0x1000" PGSIZE demo_page "PTE_R OR PTE_W OR PTE_U"] this
  show ?thesis by (auto simp: demo_empty_wf(2) PGROUNDDOWN_def)
qed

end
