(* ===== verification/User_Memory.thy ===== *)
theory User_Memory
  imports Page_Tables
begin

text \<open>
  The copies between the kernel and user memory (\<^verbatim>\<open>copyout\<close>, \<^verbatim>\<open>copyin\<close>, \<^verbatim>\<open>copyinstr\<close> of
  \<^verbatim>\<open>kernel/virtual_memory.cpp\<close>), against the translation of the page table.
\<close>

section \<open>Lookups without allocation\<close>

lemma walk_noalloc:
  assumes "pt_wf kend s root ps" "va < MAXVA"
  shows "walk root va False s = Ret (map_option (\<lambda>t. pte_addr t (PX 0 va)) (tab (ram s) root (path va)), s)"
proof -
  obtain r s' ps' where w: "walk root va False s = Ret (r, s')" "walk_post kend root va False ps s r ps' s'"
    using walk_spec [OF assms] by blast
  then show ?thesis by (auto simp: walk_post_def split: option.splits)
qed

definition user_ok :: "u64 \<Rightarrow> bool" where
  "user_ok e \<longleftrightarrow> e AND PTE_V \<noteq> 0 \<and> e AND PTE_U \<noteq> 0"

lemma walkaddr_lookup:
  assumes "pt_wf kend s root ps"
  shows "walkaddr root va s = Ret (if va < MAXVA \<and> user_ok (lookup (ram s) root va)
    then PTE2PA (lookup (ram s) root va) else 0)"
proof (cases "va < MAXVA")
  case True
  then show ?thesis using walk_noalloc [OF assms True]
    by (cases "tab (ram s) root (path va)") (auto simp: walkaddr_def lookup_path user_ok_def Let_def)
qed (auto simp: walkaddr_def not_less)

section \<open>The physical bytes of a user buffer\<close>

definition upa :: "mem \<Rightarrow> u64 \<Rightarrow> u64 \<Rightarrow> u64" where
  "upa m root va = PTE2PA (lookup m root va) + (va - PGROUNDDOWN va)"

lemma chunk_facts:
  assumes "len \<noteq> 0" "unat va + unat len \<le> unat MAXVA"
  defines "n \<equiv> unat (page_chunk va len)"
  shows "0 < n" "n \<le> unat len" "unat va mod 4096 + n \<le> 4096"
    and "i < n \<Longrightarrow> PGROUNDDOWN (va + of_nat i) = PGROUNDDOWN va"
    and "n < unat len \<Longrightarrow> PGROUNDDOWN va + PGSIZE = va + of_nat n"
    and "i \<le> unat len \<Longrightarrow> unat (va + of_nat i) = unat va + i"
    and "unat (len - page_chunk va len) = unat len - n"
proof -
  have n: "n = min (4096 - unat va mod 4096) (unat len)" by (simp add: n_def unat_page_chunk)
  have "0 < unat len" using assms(1) by (simp add: unat_gt_0)
  then show "0 < n" "n \<le> unat len" "unat va mod 4096 + n \<le> 4096" using n by auto
  show sum: "unat (va + of_nat i) = unat va + i" if "i \<le> unat len" for i
    using that assms(2) by (intro unat_add_of_nat) simp
  show "PGROUNDDOWN (va + of_nat i) = PGROUNDDOWN va" if "i < n"
  proof (rule word_unatI)
    have "unat va mod 4096 + i < 4096" using that n by linarith
    moreover from this have "i < 4096" by linarith
    ultimately have "(unat va + i) div 4096 = unat va div 4096"
      using div_add1_eq [of "unat va" i 4096] by simp
    then show "unat (PGROUNDDOWN (va + of_nat i)) = unat (PGROUNDDOWN va)"
      using sum [of i] that \<open>n \<le> unat len\<close> by (simp add: unat_PGROUNDDOWN)
  qed
  show "PGROUNDDOWN va + PGSIZE = va + of_nat n" if "n < unat len"
  proof (rule word_unatI)
    have "n = 4096 - unat va mod 4096" using that n by simp
    then have "unat va + n = unat va div 4096 * 4096 + 4096"
      using div_mult_mod_eq [of "unat va" 4096] mod_less_divisor [of 4096 "unat va"] by linarith
    moreover have "unat (PGROUNDDOWN va + PGSIZE) = unat va div 4096 * 4096 + 4096"
      using assms(2) div_times_less_eq_dividend [of "unat va" 4096]
      by (simp add: unat_word_ariths unat_PGROUNDDOWN)
    ultimately show "unat (PGROUNDDOWN va + PGSIZE) = unat (va + of_nat n)"
      using sum [of n] that by simp
  qed
  have "page_chunk va len \<le> len" using \<open>n \<le> unat len\<close> by (simp add: word_le_nat_alt n_def)
  then show "unat (len - page_chunk va len) = unat len - n" by (simp add: unat_sub n_def)
qed

lemma upa_chunk:
  assumes "len \<noteq> 0" "unat va + unat len \<le> unat MAXVA" "i < unat (page_chunk va len)"
  shows "upa m root (va + of_nat i) = upa m root va + of_nat i"
    and "lookup m root (va + of_nat i) = lookup m root va"
proof -
  have eq: "PGROUNDDOWN (va + of_nat i) = PGROUNDDOWN va" using chunk_facts(4) [OF assms(1,2,3)] .
  then show l: "lookup m root (va + of_nat i) = lookup m root va" by (metis lookup_PGROUNDDOWN)
  then show "upa m root (va + of_nat i) = upa m root va + of_nat i" by (simp add: upa_def eq)
qed

section \<open>Memory that keeps the page table\<close>

lemma pt_wf_cong:
  assumes wf: "pt_wf kend s root ps" and "free_list s' = free_list s"
    and eq: "\<And>q a. q \<in> tables (ram s) root \<union> set ps \<Longrightarrow> a < 4096 \<Longrightarrow> ram s' (q + of_nat a) = ram s (q + of_nat a)"
  shows "pt_wf kend s' root ps" "lookup (ram s') root va = lookup (ram s) root va"
    and "tables (ram s') root = tables (ram s) root"
proof -
  have load: "load64 (ram s') (pte_addr t i) = load64 (ram s) (pte_addr t i)"
    if "t \<in> tables (ram s) root" "i < 512" for t i
  proof (rule load64_cong)
    fix k :: nat assume "k < 8"
    then have "pte_addr t i + of_nat k = t + of_nat (8 * unat i + k)" "8 * unat i + k < 4096"
      using pte_addr_offset [OF that(2), of t] by (auto simp: add.assoc)
    then show "ram s' (pte_addr t i + of_nat k) = ram s (pte_addr t i + of_nat k)"
      using eq [of t "8 * unat i + k"] that by (simp only: UnI1)
  qed
  then have tab: "tab (ram s') root is = tab (ram s) root is" if "is \<in> paths" for "is"
    using that by (intro tab_cong) auto
  then show t: "tables (ram s') root = tables (ram s) root" by (auto simp: tables_def)
  have "free_pages kend s' ps" using pt_wfD(1) [OF wf] assms(2) eq by (elim free_pages_cong) auto
  then show "pt_wf kend s' root ps" using wf tab t by (auto simp: pt_wf_def inj_on_def)
  show "lookup (ram s') root va = lookup (ram s) root va"
  proof (cases "tab (ram s) root (path va)")
    case (Some t)
    then have "t \<in> tables (ram s) root" by (auto simp: tables_def)
    with Some tab [OF path_in(1) [of va]] load show ?thesis by (simp add: lookup_path)
  qed (use tab [OF path_in(1) [of va]] in \<open>simp add: lookup_path\<close>)
qed

section \<open>\<open>copyout\<close>\<close>

text \<open>
  A user buffer that the kernel may write: mapped, writable, backed by pages that are neither
  page-table pages nor free, no two bytes of it at one physical address, and disjoint from a
  source block.
\<close>

definition user_buffer :: "u64 \<Rightarrow> 'a kmem_scheme \<Rightarrow> u64 \<Rightarrow> u64 list \<Rightarrow> u64 \<Rightarrow> nat \<Rightarrow> bool" where
  "user_buffer kend s root ps va n \<longleftrightarrow> unat va + n \<le> unat MAXVA \<and>
     (\<forall>i < n. let e = lookup (ram s) root (va + of_nat i) in
        user_ok e \<and> page_ok kend (PTE2PA e) \<and> PTE2PA e \<notin> tables (ram s) root \<union> set ps) \<and>
     inj_on (\<lambda>i. upa (ram s) root (va + of_nat i)) {..<n}"

definition writable :: "mem \<Rightarrow> u64 \<Rightarrow> u64 \<Rightarrow> nat \<Rightarrow> bool" where
  "writable m root va n \<longleftrightarrow> (\<forall>i < n. lookup m root (va + of_nat i) AND PTE_W \<noteq> 0)"

definition apart :: "mem \<Rightarrow> u64 \<Rightarrow> u64 \<Rightarrow> u64 \<Rightarrow> nat \<Rightarrow> bool" where
  "apart m root va k n \<longleftrightarrow> (\<forall>i < n. \<forall>j < n. upa m root (va + of_nat i) \<noteq> k + of_nat j)"

lemma user_buffer_page:
  assumes "user_buffer kend s root ps va n" "i < n"
  shows "upa (ram s) root (va + of_nat i) = PTE2PA (lookup (ram s) root (va + of_nat i)) +
      of_nat (unat (va + of_nat i) mod 4096)"
    and "page_ok kend (PTE2PA (lookup (ram s) root (va + of_nat i)))"
  using assms unat_page_offset [of "va + of_nat i"]
  by (auto simp: user_buffer_def upa_def Let_def simp flip: unat_page_offset)

lemma copy_chunk:
  assumes buf: "user_buffer kend s root ps va (unat len)" and "len \<noteq> 0"
  defines "n \<equiv> unat (page_chunk va len)"
  shows "unat (upa (ram s) root va) + n < 2 ^ 64"
    and "x = upa (ram s) root va + of_nat i \<Longrightarrow> i < n \<Longrightarrow> page_aligned q \<Longrightarrow> a < 4096 \<Longrightarrow>
      q \<in> tables (ram s) root \<union> set ps \<Longrightarrow> x \<noteq> q + of_nat a"
proof -
  have mx: "unat va + unat len \<le> unat MAXVA" using buf by (simp add: user_buffer_def)
  have n: "0 < n" "n \<le> unat len" "unat va mod 4096 + n \<le> 4096"
    using chunk_facts(1-3) [OF \<open>len \<noteq> 0\<close> mx] by (simp_all add: n_def)
  let ?p = "PTE2PA (lookup (ram s) root va)"
  have p: "page_ok kend ?p" "?p \<notin> tables (ram s) root \<union> set ps"
    using buf n by (auto simp: user_buffer_def Let_def dest: spec [of _ 0])
  have u: "upa (ram s) root va = ?p + of_nat (unat va mod 4096)"
    using user_buffer_page(1) [OF buf, of 0] n by simp
  have "unat (upa (ram s) root va) = unat ?p + unat va mod 4096"
    unfolding u using p by (intro page_offset_unat) (auto simp: page_ok_def)
  then show "unat (upa (ram s) root va) + n < 2 ^ 64"
    using n(3) p(1) by (auto simp: page_ok_def word_less_nat_alt)
  show "x \<noteq> q + of_nat a" if "x = upa (ram s) root va + of_nat i" "i < n" "page_aligned q" "a < 4096"
    "q \<in> tables (ram s) root \<union> set ps"
  proof
    assume "x = q + of_nat a"
    with that(1) u have "?p + of_nat (unat va mod 4096 + i) = q + of_nat a" by (simp add: add.assoc)
    moreover have "page_aligned ?p" using p by (simp add: page_ok_def)
    ultimately have "?p = q" using page_offset_unique [of ?p q "unat va mod 4096 + i" a] that n by linarith
    with p that show False by blast
  qed
qed

text \<open>One round of a copy loop, and the rest of the buffer after it.\<close>

lemma unat_chunk_u32 [simp]: "unat (ucast (page_chunk va len) :: u32) = unat (page_chunk va len)"
proof -
  have "unat (page_chunk va len) \<le> 4096" by (simp add: unat_page_chunk)
  then show ?thesis by (simp add: unsigned_ucast_eq take_bit_eq_mod)
qed

definition copied :: "mem \<Rightarrow> mem \<Rightarrow> (nat \<Rightarrow> u64) \<Rightarrow> (nat \<Rightarrow> u64) \<Rightarrow> nat \<Rightarrow> bool" where
  "copied m m' dst src n \<longleftrightarrow>
     (\<forall>i < n. m' (dst i) = m (src i)) \<and> (\<forall>y. (\<forall>i < n. y \<noteq> dst i) \<longrightarrow> m' y = m y)"

lemma copied_wrbytes:
  assumes "n < 2 ^ 64"
  shows "copied m (wrbytes m d (rdbytes m a n)) (\<lambda>i. d + of_nat i) (\<lambda>i. a + of_nat i) n"
  unfolding copied_def
proof (intro conjI allI impI)
  fix i assume "i < n"
  then show "wrbytes m d (rdbytes m a n) (d + of_nat i) = m (a + of_nat i)" using assms by (simp add: mem_simps)
next
  fix y assume "\<forall>i < n. y \<noteq> d + of_nat i"
  moreover have "y = d + of_nat (unat (y - d))" by simp
  ultimately have "\<not> unat (y - d) < n" by blast
  then show "wrbytes m d (rdbytes m a n) y = m y" by (simp add: mem_simps)
qed

text \<open>Two copies in a row are one, when the second neither reads nor writes what the first wrote.\<close>

lemma copied_append:
  assumes "copied m m1 d a n" "copied m1 m2 (\<lambda>i. d (n + i)) (\<lambda>i. a (n + i)) k"
    and "\<And>i j. i < n + k \<Longrightarrow> j < n + k \<Longrightarrow> d i \<noteq> a j" "inj_on d {..<n + k}"
  shows "copied m m2 d a (n + k)"
  unfolding copied_def
proof (intro conjI allI impI)
  fix i assume i: "i < n + k"
  show "m2 (d i) = m (a i)"
  proof (cases "i < n")
    case True
    have "d i \<noteq> d (n + j)" if "j < k" for j
      using that True inj_onD [OF assms(4), of i "n + j"] by auto
    then have "m2 (d i) = m1 (d i)" using assms(2) by (auto simp: copied_def)
    then show ?thesis using assms(1) True by (simp add: copied_def)
  next
    case False
    then obtain j where j: "i = n + j" "j < k" using i by (metis add_less_cancel_left le_add_diff_inverse not_less)
    then have "m2 (d i) = m1 (a i)" using assms(2) by (simp add: copied_def)
    moreover have "\<forall>j < n. a i \<noteq> d j" using assms(3) i by (metis trans_less_add1)
    then have "m1 (a i) = m (a i)" using assms(1) by (simp add: copied_def)
    ultimately show ?thesis by simp
  qed
next
  fix y assume y: "\<forall>i < n + k. y \<noteq> d i"
  then have "m2 y = m1 y" using assms(2) by (auto simp: copied_def)
  moreover have "m1 y = m y" using assms(1) y by (auto simp: copied_def)
  ultimately show "m2 y = m y" by simp
qed

definition avoids :: "'a kmem_scheme \<Rightarrow> u64 \<Rightarrow> u64 list \<Rightarrow> (nat \<Rightarrow> u64) \<Rightarrow> nat \<Rightarrow> bool" where
  "avoids s root ps d n \<longleftrightarrow>
     (\<forall>i < n. \<forall>q \<in> tables (ram s) root \<union> set ps. \<forall>a < 4096. d i \<noteq> q + of_nat a)"

lemma copied_keeps:
  assumes "pt_wf kend s root ps" "copied (ram s) m d a n" "avoids s root ps d n"
  shows "pt_wf kend (s\<lparr>ram := m\<rparr>) root ps" "lookup m root va = lookup (ram s) root va"
    and "tables m root = tables (ram s) root" "upa m root va = upa (ram s) root va"
proof -
  have "m (q + of_nat k) = ram s (q + of_nat k)" if "q \<in> tables (ram s) root \<union> set ps" "k < 4096" for q k
    using assms(2,3) that unfolding copied_def avoids_def by metis
  then show "pt_wf kend (s\<lparr>ram := m\<rparr>) root ps" and l: "lookup m root va = lookup (ram s) root va"
    and "tables m root = tables (ram s) root"
    using pt_wf_cong [OF assms(1), of "s\<lparr>ram := m\<rparr>"] by simp_all
  then show "upa m root va = upa (ram s) root va" by (simp add: upa_def)
qed

lemma user_buffer_avoids:
  assumes "pt_wf kend s root ps" "user_buffer kend s root ps va n"
  shows "avoids s root ps (\<lambda>i. upa (ram s) root (va + of_nat i)) n"
  unfolding avoids_def
proof (intro allI impI ballI notI)
  fix i q a assume *: "i < n" "q \<in> tables (ram s) root \<union> set ps" "a < 4096"
    "upa (ram s) root (va + of_nat i) = q + of_nat a"
  let ?p = "PTE2PA (lookup (ram s) root (va + of_nat i))"
  have "page_aligned q" using assms(1) *(2) by (auto simp: pt_wf_def free_pages_def page_ok_def)
  moreover have "page_aligned ?p" "?p \<notin> tables (ram s) root \<union> set ps"
    using assms(2) *(1) by (auto simp: user_buffer_def Let_def)
  ultimately show False
    using * user_buffer_page(1) [OF assms(2) *(1)]
      page_offset_unique [of ?p q "unat (va + of_nat i) mod 4096" a] by auto
qed

lemma user_buffer_drop:
  assumes "user_buffer kend s root ps va n" "k \<le> n"
    and "\<And>x. lookup (ram s') root x = lookup (ram s) root x" "tables (ram s') root = tables (ram s) root"
  shows "user_buffer kend s' root ps (va + of_nat k) (n - k)"
proof -
  have u: "upa (ram s') root x = upa (ram s) root x" for x using assms(3) by (simp add: upa_def)
  have idx: "va + of_nat k + of_nat i = va + of_nat (k + i)" for i by (simp add: add.assoc)
  have "unat (va + of_nat k) = unat va + k"
    using assms(1,2) by (intro unat_add_of_nat) (simp add: user_buffer_def)
  moreover have "inj_on (\<lambda>i. upa (ram s) root (va + of_nat (k + i))) {..<n - k}"
  proof (rule inj_onI)
    fix i j assume "i \<in> {..<n - k}" "j \<in> {..<n - k}"
      "upa (ram s) root (va + of_nat (k + i)) = upa (ram s) root (va + of_nat (k + j))"
    moreover have "inj_on (\<lambda>i. upa (ram s) root (va + of_nat i)) {..<n}"
      using assms(1) by (simp add: user_buffer_def)
    ultimately have "k + i = k + j" by (elim inj_onD) auto
    then show "i = j" by simp
  qed
  ultimately show ?thesis
    using assms unfolding user_buffer_def idx u by (auto simp: Let_def simp del: of_nat_add)
qed

lemma path_PGROUNDDOWN [simp]: "path (PGROUNDDOWN va) = path va"
  by (simp add: path_def PX_PGROUNDDOWN)

lemma copyout_step:
  assumes "pt_wf kend s root ps"
  shows "copyout root va src len s =
    (let n = page_chunk va len; e = lookup (ram s) root va in
     if len = 0 then Ret (0, s)
     else if \<not> PGROUNDDOWN va < MAXVA \<or> \<not> user_ok e \<or> e AND PTE_W = 0 then Ret (- 1, s)
     else copyout root (PGROUNDDOWN va + PGSIZE) (src + n) (len - n)
            (s\<lparr>ram := memmove (ram s) (upa (ram s) root va) src (ucast n)\<rparr>))"
proof (cases "PGROUNDDOWN va < MAXVA")
  case True
  then show ?thesis
    using walk_noalloc [OF assms True]
    by (subst copyout.simps, cases "tab (ram s) root (path va)")
      (auto simp: Let_def lookup_path user_ok_def upa_def PX_PGROUNDDOWN)
qed (subst copyout.simps, simp add: not_less)

lemma copyout_spec:
  assumes "pt_wf kend s root ps" "user_buffer kend s root ps va (unat len)"
    and "writable (ram s) root va (unat len)" "apart (ram s) root va src (unat len)"
    and "unat src + unat len < 2 ^ 64"
  shows "\<exists>m. copyout root va src len s = Ret (0, s\<lparr>ram := m\<rparr>) \<and>
    copied (ram s) m (\<lambda>i. upa (ram s) root (va + of_nat i)) (\<lambda>i. src + of_nat i) (unat len)"
  using assms
proof (induction "unat len" arbitrary: va src len s rule: less_induct)
  case less
  show ?case
  proof (cases "len = 0")
    case True
    then show ?thesis by (intro exI [of _ "ram s"]) (simp add: copyout.simps copied_def)
  next
    case False
    have mx: "unat va + unat len \<le> unat MAXVA" using less.prems(2) by (simp add: user_buffer_def)
    define n where "n = unat (page_chunk va len)"
    have n: "0 < n" "n \<le> unat len" "unat (len - page_chunk va len) = unat len - n"
      using chunk_facts(1,2,7) [OF False mx] by (simp_all add: n_def)
    let ?e = "lookup (ram s) root va" and ?d = "\<lambda>i. upa (ram s) root (va + of_nat i)"
    have e: "user_ok ?e" "?e AND PTE_W \<noteq> 0"
      using less.prems(2,3) n by (auto simp: user_buffer_def writable_def Let_def dest: spec [of _ 0])
    have va: "va < MAXVA" using mx n by (simp add: word_less_nat_alt)
    define m1 where "m1 = wrbytes (ram s) (upa (ram s) root va) (rdbytes (ram s) src n)"
    have mm: "memmove (ram s) (upa (ram s) root va) src (ucast (page_chunk va len)) = m1"
      using copy_chunk(1) [OF less.prems(2) False] less.prems(5) n
      by (subst memmove_wrbytes) (simp_all add: m1_def n_def)
    have step: "copyout root va src len s =
        copyout root (PGROUNDDOWN va + PGSIZE) (src + page_chunk va len) (len - page_chunk va len) (s\<lparr>ram := m1\<rparr>)"
      using False e PGROUNDDOWN_less [OF va] mm by (simp add: copyout_step [OF less.prems(1)] Let_def)
    have c1: "copied (ram s) m1 ?d (\<lambda>i. src + of_nat i) n"
    proof -
      have "n < 2 ^ 64" using n(2) unat_less_64 [of len] by linarith
      then have "copied (ram s) m1 (\<lambda>i. upa (ram s) root va + of_nat i) (\<lambda>i. src + of_nat i) n"
        unfolding m1_def by (rule copied_wrbytes)
      moreover have "?d i = upa (ram s) root va + of_nat i" if "i < n" for i
        using upa_chunk(1) [OF False mx, of i] that unfolding n_def by blast
      ultimately show ?thesis by (simp add: copied_def)
    qed
    have av: "avoids s root ps ?d n"
      using user_buffer_avoids [OF less.prems(1,2)] n by (auto simp: avoids_def)
    note keep = copied_keeps [OF less.prems(1) c1 av]
    show ?thesis
    proof (cases "n = unat len")
      case True
      then have "len - page_chunk va len = 0" using n by (simp add: word_unat_eq_iff)
      then show ?thesis using step c1 True by (intro exI [of _ m1]) (simp add: copyout.simps)
    next
      case lt: False
      then have next_va: "PGROUNDDOWN va + PGSIZE = va + of_nat n"
        using chunk_facts(5) [OF False mx] n by (simp add: n_def)
      have idx: "va + of_nat n + of_nat i = va + of_nat (n + i)"
        "src + page_chunk va len + of_nat i = src + of_nat (n + i)" for i
        by (simp_all add: add.assoc n_def)
      have src: "unat (src + page_chunk va len) = unat src + n"
        using unat_add_of_nat [of src n] less.prems(5) n by (simp add: n_def)
      obtain m where m: "copyout root (va + of_nat n) (src + page_chunk va len) (len - page_chunk va len) (s\<lparr>ram := m1\<rparr>)
            = Ret (0, s\<lparr>ram := m1\<rparr>\<lparr>ram := m\<rparr>)"
        "copied m1 m (\<lambda>i. ?d (n + i)) (\<lambda>i. src + of_nat (n + i)) (unat len - n)"
        using less.hyps [of "len - page_chunk va len" "s\<lparr>ram := m1\<rparr>" "va + of_nat n" "src + page_chunk va len"]
          n keep user_buffer_drop [OF less.prems(2) n(2), of "s\<lparr>ram := m1\<rparr>"] less.prems(3,4,5) src
        unfolding idx by (auto simp: writable_def apart_def idx simp del: of_nat_add)
      have "copied (ram s) m ?d (\<lambda>i. src + of_nat i) (n + (unat len - n))"
        using c1 m(2)
      proof (rule copied_append)
        show "?d i \<noteq> src + of_nat j" if "i < n + (unat len - n)" "j < n + (unat len - n)" for i j
          using that less.prems(4) n by (simp add: apart_def)
        show "inj_on ?d {..<n + (unat len - n)}" using less.prems(2) n by (simp add: user_buffer_def)
      qed
      with step m(1) next_va n show ?thesis by (intro exI [of _ m]) simp
    qed
  qed
qed

section \<open>\<open>copyin\<close>\<close>

lemma inj_block: "unat (d :: u64) + n < 2 ^ 64 \<Longrightarrow> inj_on (\<lambda>i. d + of_nat i) {..<n}"
proof (rule inj_onI)
  fix i j assume "unat d + n < 2 ^ 64" "i \<in> {..<n}" "j \<in> {..<n}" "d + of_nat i = d + of_nat j"
  then have "unat (d + of_nat i) = unat (d + of_nat j)" "unat d + i < 2 ^ 64" "unat d + j < 2 ^ 64" by auto
  then show "i = j" by (simp add: unat_add_of_nat)
qed

lemma copyin_spec:
  assumes "pt_wf kend s root ps" "user_buffer kend s root ps va (unat len)"
    and "apart (ram s) root va dst (unat len)" "avoids s root ps (\<lambda>i. dst + of_nat i) (unat len)"
    and "unat dst + unat len < 2 ^ 64"
  shows "\<exists>m. copyin root dst va len s = Ret (0, s\<lparr>ram := m\<rparr>) \<and>
    copied (ram s) m (\<lambda>i. dst + of_nat i) (\<lambda>i. upa (ram s) root (va + of_nat i)) (unat len)"
  using assms
proof (induction "unat len" arbitrary: va dst len s rule: less_induct)
  case less
  show ?case
  proof (cases "len = 0")
    case True
    then show ?thesis by (intro exI [of _ "ram s"]) (simp add: copyin.simps copied_def)
  next
    case False
    have mx: "unat va + unat len \<le> unat MAXVA" using less.prems(2) by (simp add: user_buffer_def)
    define n where "n = unat (page_chunk va len)"
    have n: "0 < n" "n \<le> unat len" "unat (len - page_chunk va len) = unat len - n"
      using chunk_facts(1,2,7) [OF False mx] by (simp_all add: n_def)
    have n64: "n < 2 ^ 64" using n(2) unat_less_64 [of len] by linarith
    let ?e = "lookup (ram s) root va" and ?a = "\<lambda>i. upa (ram s) root (va + of_nat i)"
    have e: "user_ok ?e" "page_ok kend (PTE2PA ?e)" "PTE2PA ?e \<noteq> 0"
      using less.prems(2) n pt_wfD(2) [OF less.prems(1)]
      by (auto simp: user_buffer_def Let_def page_ok_def dest: spec [of _ 0])
    have va: "va < MAXVA" using mx n by (simp add: word_less_nat_alt)
    define m1 where "m1 = wrbytes (ram s) dst (rdbytes (ram s) (upa (ram s) root va) n)"
    have mm: "memmove (ram s) dst (upa (ram s) root va) (ucast (page_chunk va len)) = m1"
      using copy_chunk(1) [OF less.prems(2) False] less.prems(5) n
      by (subst memmove_wrbytes) (simp_all add: m1_def n_def)
    have step: "copyin root dst va len s =
        copyin root (dst + page_chunk va len) (PGROUNDDOWN va + PGSIZE) (len - page_chunk va len) (s\<lparr>ram := m1\<rparr>)"
      using False e walkaddr_lookup [OF less.prems(1), of "PGROUNDDOWN va"] PGROUNDDOWN_less [OF va] mm
      by (subst copyin.simps) (simp add: Let_def lookup_PGROUNDDOWN upa_def)
    have c1: "copied (ram s) m1 (\<lambda>i. dst + of_nat i) ?a n"
    proof -
      have "copied (ram s) m1 (\<lambda>i. dst + of_nat i) (\<lambda>i. upa (ram s) root va + of_nat i) n"
        unfolding m1_def using n64 by (rule copied_wrbytes)
      moreover have "?a i = upa (ram s) root va + of_nat i" if "i < n" for i
        using upa_chunk(1) [OF False mx, of i] that unfolding n_def by blast
      ultimately show ?thesis by (simp add: copied_def)
    qed
    have av: "avoids s root ps (\<lambda>i. dst + of_nat i) n" using less.prems(4) n by (auto simp: avoids_def)
    note keep = copied_keeps [OF less.prems(1) c1 av]
    show ?thesis
    proof (cases "n = unat len")
      case True
      then have "len - page_chunk va len = 0" using n by (simp add: word_unat_eq_iff)
      then show ?thesis using step c1 True by (intro exI [of _ m1]) (simp add: copyin.simps)
    next
      case lt: False
      then have next_va: "PGROUNDDOWN va + PGSIZE = va + of_nat n"
        using chunk_facts(5) [OF False mx] n by (simp add: n_def)
      have idx: "va + of_nat n + of_nat i = va + of_nat (n + i)"
        "dst + page_chunk va len + of_nat i = dst + of_nat (n + i)" for i
        by (simp_all add: add.assoc n_def)
      have dst: "unat (dst + page_chunk va len) = unat dst + n"
        using unat_add_of_nat [of dst n] less.prems(5) n by (simp add: n_def)
      obtain m where m: "copyin root (dst + page_chunk va len) (va + of_nat n) (len - page_chunk va len) (s\<lparr>ram := m1\<rparr>)
            = Ret (0, s\<lparr>ram := m1\<rparr>\<lparr>ram := m\<rparr>)"
        "copied m1 m (\<lambda>i. dst + of_nat (n + i)) (\<lambda>i. ?a (n + i)) (unat len - n)"
        using less.hyps [of "len - page_chunk va len" "s\<lparr>ram := m1\<rparr>" "va + of_nat n" "dst + page_chunk va len"]
          n keep user_buffer_drop [OF less.prems(2) n(2), of "s\<lparr>ram := m1\<rparr>"] less.prems(3,4,5) dst
        unfolding idx by (auto simp: avoids_def apart_def idx simp del: of_nat_add)
      have "copied (ram s) m (\<lambda>i. dst + of_nat i) ?a (n + (unat len - n))"
        using c1 m(2)
      proof (rule copied_append)
        show "dst + of_nat i \<noteq> ?a j" if "i < n + (unat len - n)" "j < n + (unat len - n)" for i j
          using that less.prems(3) n by (metis apart_def le_add_diff_inverse)
        show "inj_on (\<lambda>i. dst + of_nat i) {..<n + (unat len - n)}"
          using inj_block [OF less.prems(5)] n by simp
      qed
      with step m(1) next_va n show ?thesis by (intro exI [of _ m]) simp
    qed
  qed
qed

section \<open>Isolation\<close>

text \<open>
  The pages that a page table makes accessible to user code are allocated pages, and they are not
  page-table pages.
\<close>

definition user_separate :: "u64 \<Rightarrow> 'a kmem_scheme \<Rightarrow> u64 \<Rightarrow> u64 list \<Rightarrow> bool" where
  "user_separate kend s root ps \<longleftrightarrow>
     (\<forall>va < MAXVA. let e = lookup (ram s) root va in
        user_ok e \<longrightarrow> page_ok kend (PTE2PA e) \<and> PTE2PA e \<notin> tables (ram s) root \<union> set ps)"

definition user_writable_byte :: "mem \<Rightarrow> u64 \<Rightarrow> u64 \<Rightarrow> bool" where
  "user_writable_byte m root x \<longleftrightarrow> (\<exists>va < MAXVA. \<exists>a < 4096. let e = lookup m root va in
     user_ok e \<and> e AND PTE_W \<noteq> 0 \<and> x = PTE2PA e + of_nat a)"

lemma chunk_in_page:
  assumes "i < unat (page_chunk va len)"
  shows "\<exists>a < 4096. p + (va - PGROUNDDOWN va) + of_nat i = p + of_nat a"
proof -
  have "unat va mod 4096 + i < 4096" using assms unat_page_chunk [of va len] by linarith
  moreover have "va - PGROUNDDOWN va = of_nat (unat va mod 4096)" by (simp flip: unat_page_offset)
  ultimately show ?thesis by (intro exI [of _ "unat va mod 4096 + i"]) (simp add: add.assoc)
qed

lemma copyout_isolated:
  assumes "pt_wf kend s root ps" "user_separate kend s root ps"
  shows "\<exists>r m. copyout root va src len s = Ret (r, s\<lparr>ram := m\<rparr>) \<and> r \<in> {0, - 1} \<and>
    pt_wf kend (s\<lparr>ram := m\<rparr>) root ps \<and> (\<forall>x. m x \<noteq> ram s x \<longrightarrow> user_writable_byte (ram s) root x)"
  using assms
proof (induction "unat len" arbitrary: va src len s rule: less_induct)
  case less
  have wf: "pt_wf kend (s\<lparr>ram := ram s\<rparr>) root ps" using less.prems(1) by simp
  let ?va = "PGROUNDDOWN va" and ?e = "lookup (ram s) root va"
  show ?case
  proof (cases "len = 0 \<or> MAXVA \<le> ?va \<or> \<not> user_ok ?e \<or> ?e AND PTE_W = 0")
    case True
    then have "copyout root va src len s = Ret (if len = 0 then 0 else - 1, s)"
      by (auto simp: copyout_step [OF less.prems(1)] Let_def)
    then show ?thesis using wf by (intro exI [of _ "if len = 0 then 0 else - 1"] exI [of _ "ram s"]) simp
  next
    case False
    let ?n = "page_chunk va len" and ?d = "PTE2PA ?e + (va - ?va)"
    define m1 where "m1 = memmove (ram s) ?d src (ucast ?n)"
    have step: "copyout root va src len s = copyout root (?va + PGSIZE) (src + ?n) (len - ?n) (s\<lparr>ram := m1\<rparr>)"
      using False by (simp add: copyout_step [OF less.prems(1), of va] Let_def m1_def upa_def not_le)
    have changed: "\<exists>a < 4096. x = PTE2PA ?e + of_nat a" if x: "m1 x \<noteq> ram s x" for x
    proof -
      obtain i where "i < unat ?n" "x = ?d + of_nat i"
        using x memmove_frame [of "ucast ?n" x ?d] unfolding m1_def by auto
      then show ?thesis using chunk_in_page by metis
    qed
    have page: "page_ok kend (PTE2PA ?e)" "PTE2PA ?e \<notin> tables (ram s) root \<union> set ps"
      using less.prems(2) False lookup_PGROUNDDOWN [of "ram s" root va]
      by (auto simp: user_separate_def Let_def not_le dest: spec [of _ ?va])
    have same: "m1 (q + of_nat a) = ram s (q + of_nat a)"
      if "q \<in> tables (ram s) root \<union> set ps" "a < 4096" for q a
    proof (rule ccontr)
      assume "m1 (q + of_nat a) \<noteq> ram s (q + of_nat a)"
      from changed [OF this] obtain b where "b < 4096" "q + of_nat a = PTE2PA ?e + of_nat b" by blast
      moreover have "page_aligned q" using that(1) less.prems(1)
        by (auto simp: pt_wf_def free_pages_def page_ok_def)
      ultimately show False using page page_offset_unique [of q "PTE2PA ?e" a b] that by auto
    qed
    note keep = pt_wf_cong [OF less.prems(1), of "s\<lparr>ram := m1\<rparr>", simplified, OF same]
    have sep: "user_separate kend (s\<lparr>ram := m1\<rparr>) root ps"
      using less.prems(2) keep(2,3) by (simp add: user_separate_def)
    have "unat (len - ?n) < unat len" using False by (intro page_chunk_measure) simp
    then obtain r m where IH: "copyout root (?va + PGSIZE) (src + ?n) (len - ?n) (s\<lparr>ram := m1\<rparr>) = Ret (r, s\<lparr>ram := m\<rparr>)"
      "r \<in> {0, - 1}" "pt_wf kend (s\<lparr>ram := m\<rparr>) root ps"
      "\<And>x. m x \<noteq> m1 x \<Longrightarrow> user_writable_byte m1 root x"
      using less.hyps [of "len - ?n" "s\<lparr>ram := m1\<rparr>" "?va + PGSIZE" "src + ?n"] keep(1) sep by auto
    have "user_writable_byte (ram s) root x" if "m x \<noteq> ram s x" for x
    proof (cases "m x = m1 x")
      case True
      with that changed have "\<exists>a < 4096. x = PTE2PA (lookup (ram s) root ?va) + of_nat a"
        by (simp add: lookup_PGROUNDDOWN)
      then show ?thesis using False lookup_PGROUNDDOWN [of "ram s" root va]
        unfolding user_writable_byte_def Let_def by (metis not_le)
    next
      case m1: False
      then show ?thesis using IH(4) keep(2) by (simp add: user_writable_byte_def)
    qed
    with step IH(1,2,3) show ?thesis by (intro exI [of _ r] exI [of _ m]) simp
  qed
qed

section \<open>Properties\<close>

text \<open>
  C30. Data copied out to user memory and copied back in is unchanged: for a user buffer that is
  mapped writable and whose pages are neither page-table pages nor free, \<open>copyout\<close> and then
  \<open>copyin\<close> both succeed, and the kernel's destination holds the bytes of the source, for buffers
  that cross any number of pages.
\<close>

theorem copyout_copyin_roundtrip:
  assumes "pt_wf kend s root ps" "user_buffer kend s root ps va (unat len)"
    and "writable (ram s) root va (unat len)"
    and "apart (ram s) root va src (unat len)" "unat src + unat len < 2 ^ 64"
    and "apart (ram s) root va dst (unat len)" "unat dst + unat len < 2 ^ 64"
    and "avoids s root ps (\<lambda>i. dst + of_nat i) (unat len)"
  shows "\<exists>s1 s2. copyout root va src len s = Ret (0, s1) \<and> copyin root dst va len s1 = Ret (0, s2) \<and>
    rdbytes (ram s2) dst (unat len) = rdbytes (ram s) src (unat len)"
proof -
  obtain m where out: "copyout root va src len s = Ret (0, s\<lparr>ram := m\<rparr>)"
    "copied (ram s) m (\<lambda>i. upa (ram s) root (va + of_nat i)) (\<lambda>i. src + of_nat i) (unat len)"
    using copyout_spec [OF assms(1-5)] by blast
  note keep = copied_keeps [OF assms(1) out(2) user_buffer_avoids [OF assms(1,2)]]
  have buf: "user_buffer kend (s\<lparr>ram := m\<rparr>) root ps va (unat len)"
    using user_buffer_drop [OF assms(2), of 0 "s\<lparr>ram := m\<rparr>"] keep by simp
  obtain m2 where inn: "copyin root dst va len (s\<lparr>ram := m\<rparr>) = Ret (0, s\<lparr>ram := m2\<rparr>)"
    "copied m m2 (\<lambda>i. dst + of_nat i) (\<lambda>i. upa m root (va + of_nat i)) (unat len)"
    using copyin_spec [OF keep(1) buf, of dst] assms(6-8) keep
    by (auto simp: apart_def avoids_def)
  have "rdbytes m2 dst (unat len) = rdbytes (ram s) src (unat len)"
    using out(2) inn(2) keep(4) by (auto simp: rdbytes_def copied_def)
  with out(1) inn(1) show ?thesis by (intro exI [of _ "s\<lparr>ram := m\<rparr>"] exI [of _ "s\<lparr>ram := m2\<rparr>"]) simp
qed

text \<open>
  C15. \<open>copyout\<close> cannot be used to write kernel memory: whatever user address and length a process
  passes, the call returns, the page table stays well formed, and every byte it changed lies in a
  page that the process has mapped as user-accessible and writable.
\<close>

theorem copyout_isolation:
  assumes "pt_wf kend s root ps" "user_separate kend s root ps"
  shows "\<exists>r s'. copyout root va src len s = Ret (r, s') \<and> r \<in> {0, - 1} \<and> pt_wf kend s' root ps \<and>
    (\<forall>x. ram s' x \<noteq> ram s x \<longrightarrow> user_writable_byte (ram s) root x)"
proof -
  obtain r m where "copyout root va src len s = Ret (r, s\<lparr>ram := m\<rparr>)" "r \<in> {0, - 1}"
    "pt_wf kend (s\<lparr>ram := m\<rparr>) root ps" "\<forall>x. m x \<noteq> ram s x \<longrightarrow> user_writable_byte (ram s) root x"
    using copyout_isolated [OF assms] by blast
  then show ?thesis by (intro exI [of _ r] exI [of _ "s\<lparr>ram := m\<rparr>"]) simp
qed

definition demo_vm :: kmem where
  "demo_vm = snd (the_ret (mappages_loop demo_root 0x1000 0x1000 demo_page 0x16 demo_empty))"

abbreviation (input) demo_pool :: "u64 list" where
  "demo_pool \<equiv> [0x80023000, 0x80024000, 0x80025000, 0x80026000, 0x80027000]"

lemma demo_vm_facts:
  obtains ps where "pt_wf demo_end demo_vm demo_root ps" "set ps \<subseteq> set demo_pool"
    "tables (ram demo_vm) demo_root \<subseteq> insert demo_root (set demo_pool)"
    "\<And>va. va < MAXVA \<Longrightarrow> lookup (ram demo_vm) demo_root va =
      (if PGROUNDDOWN va = 0x1000 then PA2PTE demo_page OR 0x17 else 0)"
proof -
  have al: "page_aligned 0x1000" "(0x1000 :: u64) < MAXVA" by (simp_all add: page_aligned_def)
  obtain r s' ps' b where *: "mappages_loop demo_root 0x1000 0x1000 demo_page 0x16 demo_empty = Ret (r, s')"
    "vm_frame demo_end demo_root demo_pool demo_empty ps' s'"
    "\<forall>va < MAXVA. lookup (ram s') demo_root va = mapped_upto 0x1000 b demo_page 0x16 (lookup (ram demo_empty) demo_root) va"
    "r = 0 \<and> b = 0x1000 + PGSIZE \<or> r = - 1 \<and> b \<le> 0x1000 \<and> ps' = []"
    "length demo_pool \<le> length ps' + 2 * Suc ((unat (0x1000 :: u64) - unat (0x1000 :: u64)) div 4096)"
    using mappages_loop_spec [OF demo_empty_wf(1) al(1) al(1) order_refl al(2), of demo_page "0x16"]
    by (simp only: demo_empty_wf(2)) auto
  have b: "b = 0x1000 + PGSIZE" using *(4,5) by auto
  have s': "s' = demo_vm" using *(1) by (simp add: demo_vm_def)
  obtain qs where qs: "demo_pool = qs @ ps'" "tables (ram s') demo_root = insert demo_root (set qs)"
    using *(2) demo_empty_wf(3) by (auto simp: vm_frame_def)
  have sub: "set ps' \<subseteq> set demo_pool" "set qs \<subseteq> set demo_pool" unfolding qs(1) by simp_all
  show thesis
  proof (rule that)
    show "pt_wf demo_end demo_vm demo_root ps'" using *(2) s' by (simp add: vm_frame_def)
    show "lookup (ram demo_vm) demo_root va = (if PGROUNDDOWN va = 0x1000 then PA2PTE demo_page OR 0x17 else 0)"
      if "va < MAXVA" for va
      using *(3) that mapped_upto_one [OF al] b s' demo_empty_wf(2) by simp
  qed (use sub qs(2) s' in auto)
qed

lemma demo_entry:
  "PTE2PA (PA2PTE demo_page OR 0x17) = demo_page" "user_ok (PA2PTE demo_page OR 0x17)"
  "(PA2PTE demo_page OR 0x17) AND PTE_W \<noteq> 0" "\<not> user_ok 0" "page_ok demo_end demo_page"
  by (simp_all add: PA2PTE_def PTE2PA_def user_ok_def page_ok_def demo_end_def page_aligned_def)

theorem copyout_isolation_witness:
  "\<exists>ps r s'. copyout demo_root 0x1ff8 0x80010000 4096 demo_vm = Ret (r, s') \<and> r \<in> {0, - 1} \<and>
     pt_wf demo_end s' demo_root ps \<and>
     (\<forall>x. ram s' x \<noteq> ram demo_vm x \<longrightarrow> user_writable_byte (ram demo_vm) demo_root x)"
proof -
  obtain ps where ps: "pt_wf demo_end demo_vm demo_root ps" "set ps \<subseteq> set demo_pool"
    "tables (ram demo_vm) demo_root \<subseteq> insert demo_root (set demo_pool)"
    "\<And>va. va < MAXVA \<Longrightarrow> lookup (ram demo_vm) demo_root va =
      (if PGROUNDDOWN va = 0x1000 then PA2PTE demo_page OR 0x17 else 0)" by (rule demo_vm_facts) blast
  have "demo_page \<notin> tables (ram demo_vm) demo_root \<union> set ps" using ps(2,3) by auto
  then have "user_separate demo_end demo_vm demo_root ps"
    using ps(4) demo_entry by (auto simp: user_separate_def Let_def)
  from copyout_isolation [OF ps(1) this] show ?thesis by blast
qed

theorem copyout_copyin_roundtrip_witness:
  "\<exists>s1 s2. copyout demo_root 0x1010 0x80010000 4 demo_vm = Ret (0, s1) \<and>
     copyin demo_root 0x80011000 0x1010 4 s1 = Ret (0, s2) \<and>
     rdbytes (ram s2) 0x80011000 4 = rdbytes (ram demo_vm) 0x80010000 4"
proof -
  obtain ps where ps: "pt_wf demo_end demo_vm demo_root ps" "set ps \<subseteq> set demo_pool"
    "tables (ram demo_vm) demo_root \<subseteq> insert demo_root (set demo_pool)"
    "\<And>va. va < MAXVA \<Longrightarrow> lookup (ram demo_vm) demo_root va =
      (if PGROUNDDOWN va = 0x1000 then PA2PTE demo_page OR 0x17 else 0)" by (rule demo_vm_facts) blast
  let ?n = "unat (4 :: u64)"
  have n: "i < ?n \<longleftrightarrow> i \<in> {0, 1, 2, 3}" for i by auto
  have lk: "lookup (ram demo_vm) demo_root (0x1010 + of_nat i) = PA2PTE demo_page OR 0x17" if "i < ?n" for i
    using that unfolding n by (auto simp: ps(4) PGROUNDDOWN_def)
  have up: "upa (ram demo_vm) demo_root (0x1010 + of_nat i) = 0x80022010 + of_nat i" if "i < ?n" for i
    using that lk [OF that] unfolding upa_def n by (auto simp: demo_entry PGROUNDDOWN_def)
  have "demo_page \<notin> tables (ram demo_vm) demo_root \<union> set ps" using ps(2,3) by auto
  moreover have "inj_on (\<lambda>i. upa (ram demo_vm) demo_root (0x1010 + of_nat i)) {..<?n}"
    using inj_block [of "0x80022010" ?n] up by (simp add: inj_on_def)
  ultimately have buf: "user_buffer demo_end demo_vm demo_root ps 0x1010 ?n"
    using lk by (simp add: user_buffer_def Let_def demo_entry)
  have wr: "writable (ram demo_vm) demo_root 0x1010 ?n"
    using lk demo_entry by (simp add: writable_def)
  have ap: "apart (ram demo_vm) demo_root 0x1010 0x80010000 ?n" "apart (ram demo_vm) demo_root 0x1010 0x80011000 ?n"
  proof -
    have "(0x80022010 :: u64) + of_nat i \<noteq> k + of_nat j"
      if "i < ?n" "j < ?n" "k \<in> {0x80010000, 0x80011000}" for i j and k :: u64
    proof
      assume "(0x80022010 :: u64) + of_nat i = k + of_nat j"
      then have "unat ((0x80022010 :: u64) + of_nat i) = unat (k + of_nat j)" by simp
      then show False
        using that unat_add_of_nat [of "0x80022010" i] unat_add_of_nat [of k j] by auto
    qed
    then show "apart (ram demo_vm) demo_root 0x1010 0x80010000 ?n" "apart (ram demo_vm) demo_root 0x1010 0x80011000 ?n"
      using up by (simp_all add: apart_def)
  qed
  have av: "avoids demo_vm demo_root ps (\<lambda>i. 0x80011000 + of_nat i) ?n"
    unfolding avoids_def
  proof (intro allI impI ballI notI)
    fix i q a assume *: "i < ?n" "q \<in> tables (ram demo_vm) demo_root \<union> set ps" "a < 4096"
      "0x80011000 + of_nat i = q + of_nat a"
    then have "page_aligned q" "q \<noteq> 0x80011000" using ps(2,3) by (auto simp: page_aligned_def)
    then show False using page_offset_unique [of "0x80011000" q i a] * by (auto simp: page_aligned_def)
  qed
  show ?thesis
    using copyout_copyin_roundtrip [OF ps(1) buf wr ap(1) _ ap(2) _ av] by simp
qed

end
