(* ===== verification/Processes.thy ===== *)
theory Processes
  imports Page_Tables
begin

text \<open>
  The process table: \<^verbatim>\<open>kernel/process.h\<close>, \<^verbatim>\<open>kernel/process_manager.cpp\<close> and the parts of
  \<^verbatim>\<open>kernel/process.cpp\<close> and \<^verbatim>\<open>kernel/process_scheduler.cpp\<close> that act on it. A pointer to a
  process is its index in the table, a null pointer is \<open>None\<close>, and the objects processes sleep on
  are named by a datatype. The argument \<open>cur\<close> is \<^verbatim>\<open>kernel.cpus.curproc()\<close>. A process's trapframe is
  a page of physical memory.
\<close>

section \<open>State\<close>

datatype process_state = UNUSED | USED | SLEEPING | RUNNABLE | RUNNING | ZOMBIE

text \<open>What a process may sleep on: the addresses the code passes to \<open>sleep\<close> and \<open>wakeup\<close>.\<close>

datatype chan =
    OnProcess nat | OnBuffer nat | OnInode nat | OnLog | OnTicks
  | OnPipeRead nat | OnPipeWrite nat | OnConsole | OnUart | OnDiskFree | OnDiskBuf nat

record process =
  pstate :: process_state
  pchan :: "chan option"
  killed :: bool
  xstate :: u32
  pid :: u32
  parent :: "nat option"
  kstack :: u64
  sz :: u64
  pagetable :: u64
  trapframe :: u64
  context_ra :: u64
  context_sp :: u64
  ofile :: "nat \<Rightarrow> nat option"
  cwd :: "nat option"
  pname :: "u8 list"

record kprocs = kvm +
  processes :: "nat \<Rightarrow> process"
  next_pid :: u32
  initprocess :: "nat option"
  ticks :: u32

definition upd_proc :: "nat \<Rightarrow> (process \<Rightarrow> process) \<Rightarrow> 'a kprocs_scheme \<Rightarrow> 'a kprocs_scheme" where
  "upd_proc i f s = s\<lparr>processes := (processes s)(i := f (processes s i))\<rparr>"

section \<open>Sleep, wakeup and kill\<close>

definition wakeup :: "nat option \<Rightarrow> chan option \<Rightarrow> 'a kprocs_scheme \<Rightarrow> 'a kprocs_scheme" where
  "wakeup cur c s = s\<lparr>processes := (\<lambda>i. let p = processes s i in
     if i < NPROC \<and> Some i \<noteq> cur \<and> pstate p = SLEEPING \<and> pchan p = c
     then p\<lparr>pstate := RUNNABLE\<rparr> else p)\<rparr>"

text \<open>
  \<open>sleep\<close> up to the switch to the scheduler, and what it does when the process runs again.
\<close>

definition sleep_on :: "nat \<Rightarrow> chan \<Rightarrow> 'a kprocs_scheme \<Rightarrow> 'a kprocs_scheme" where
  "sleep_on cur c s = upd_proc cur (\<lambda>p. p\<lparr>pchan := Some c, pstate := SLEEPING\<rparr>) s"

definition sleep_return :: "nat \<Rightarrow> 'a kprocs_scheme \<Rightarrow> 'a kprocs_scheme" where
  "sleep_return cur s = upd_proc cur (\<lambda>p. p\<lparr>pchan := None\<rparr>) s"

definition kill :: "u32 \<Rightarrow> 'a kprocs_scheme \<Rightarrow> int \<times> 'a kprocs_scheme" where
  "kill k s =
     (case find (\<lambda>i. pid (processes s i) = k) [0..<NPROC] of
        None \<Rightarrow> (- 1, s)
      | Some i \<Rightarrow> (0, upd_proc i (\<lambda>p. let p = p\<lparr>killed := True\<rparr> in
           if pstate p = SLEEPING then p\<lparr>pstate := RUNNABLE\<rparr> else p) s))"

definition get_killed :: "nat \<Rightarrow> 'a kprocs_scheme \<Rightarrow> bool" where
  "get_killed i s = killed (processes s i)"

definition set_killed :: "nat \<Rightarrow> bool \<Rightarrow> 'a kprocs_scheme \<Rightarrow> 'a kprocs_scheme" where
  "set_killed i k s = upd_proc i (\<lambda>p. p\<lparr>killed := k\<rparr>) s"

section \<open>Scheduling\<close>

text \<open>
  One visit of the scheduler's loop to the process \<open>i\<close>: a runnable process is given the CPU. The
  switch itself (\<^verbatim>\<open>swtch\<close>, assembly) transfers control to the process.
\<close>

definition sched_visit :: "nat \<Rightarrow> 'a kprocs_scheme \<Rightarrow> 'a kprocs_scheme option" where
  "sched_visit i s =
     (if pstate (processes s i) = RUNNABLE then Some (upd_proc i (\<lambda>p. p\<lparr>pstate := RUNNING\<rparr>) s) else None)"

definition yield_cpu :: "nat \<Rightarrow> 'a kprocs_scheme \<Rightarrow> 'a kprocs_scheme" where
  "yield_cpu cur s = upd_proc cur (\<lambda>p. p\<lparr>pstate := RUNNABLE\<rparr>) s"

section \<open>Page tables of processes\<close>

definition create_pagetable :: "u64 \<Rightarrow> u64 \<Rightarrow> u64 \<Rightarrow> 'a kmem_scheme \<Rightarrow> (u64 option \<times> 'a kmem_scheme) res" where
  "create_pagetable kend trampoline tf s =
     (case vm_create s of
        (None, s) \<Rightarrow> Ret (None, s)
      | (Some pt, s) \<Rightarrow>
          kbind (mappages pt TRAMPOLINE PGSIZE trampoline (PTE_R OR PTE_X) s) (\<lambda>(r, s).
            if r < 0 then kbind (vm_free kend pt 0 s) (\<lambda>s. Ret (None, s))
            else kbind (mappages pt TRAPFRAME PGSIZE tf (PTE_R OR PTE_W) s) (\<lambda>(r, s).
              if r < 0
              then kbind (unmap kend pt TRAMPOLINE 1 False s) (\<lambda>s.
                     kbind (vm_free kend pt 0 s) (\<lambda>s. Ret (None, s)))
              else Ret (Some pt, s))))"

definition free_pagetable :: "u64 \<Rightarrow> u64 \<Rightarrow> u64 \<Rightarrow> 'a kmem_scheme \<Rightarrow> 'a kmem_scheme res" where
  "free_pagetable kend pt n s =
     kbind (unmap kend pt TRAMPOLINE 1 False s) (\<lambda>s.
       kbind (unmap kend pt TRAPFRAME 1 False s) (\<lambda>s. vm_free kend pt n s))"

section \<open>Allocating and freeing processes\<close>

text \<open>The fields that \<open>free\<close> resets after it has given the memory back.\<close>

definition reset_process :: "process \<Rightarrow> process" where
  "reset_process p = p\<lparr>trapframe := 0, pagetable := 0, sz := 0, pid := 0, parent := None,
     pname := 0 # tl (pname p), pchan := None, killed := False, xstate := 0, pstate := UNUSED\<rparr>"

definition proc_free :: "u64 \<Rightarrow> nat \<Rightarrow> 'a kprocs_scheme \<Rightarrow> 'a kprocs_scheme res" where
  "proc_free kend i s =
     kbind (if trapframe (processes s i) \<noteq> 0 then page_free kend (trapframe (processes s i)) s else Ret s) (\<lambda>s.
     kbind (if pagetable (processes s i) \<noteq> 0
            then free_pagetable kend (pagetable (processes s i)) (sz (processes s i)) s else Ret s) (\<lambda>s.
       Ret (upd_proc i reset_process s)))"

text \<open>\<^verbatim>\<open>process::free\<close> differs from \<^verbatim>\<open>process_manager::free\<close> in how it frees the page table.\<close>

definition process_free :: "u64 \<Rightarrow> nat \<Rightarrow> 'a kprocs_scheme \<Rightarrow> 'a kprocs_scheme res" where
  "process_free kend i s =
     kbind (if trapframe (processes s i) \<noteq> 0 then page_free kend (trapframe (processes s i)) s else Ret s) (\<lambda>s.
     kbind (if pagetable (processes s i) \<noteq> 0
            then vm_free kend (pagetable (processes s i)) (sz (processes s i)) s else Ret s) (\<lambda>s.
       Ret (upd_proc i reset_process s)))"

definition get_next_pid :: "'a kprocs_scheme \<Rightarrow> u32 \<times> 'a kprocs_scheme" where
  "get_next_pid s = (next_pid s, s\<lparr>next_pid := next_pid s + 1\<rparr>)"

definition proc_alloc :: "u64 \<Rightarrow> u64 \<Rightarrow> u64 \<Rightarrow> 'a kprocs_scheme \<Rightarrow> (nat option \<times> 'a kprocs_scheme) res" where
  "proc_alloc kend trampoline forkret s =
     (case find (\<lambda>i. pstate (processes s i) = UNUSED) [0..<NPROC] of
        None \<Rightarrow> Ret (None, s)
      | Some i \<Rightarrow>
          let (n, s) = get_next_pid s;
              s = upd_proc i (\<lambda>p. p\<lparr>pid := n, pstate := USED\<rparr>) s
          in case page_alloc s of
              (None, s) \<Rightarrow> kbind (proc_free kend i (upd_proc i (\<lambda>p. p\<lparr>trapframe := 0\<rparr>) s)) (\<lambda>s. Ret (None, s))
            | (Some tf, s) \<Rightarrow>
                kbind (create_pagetable kend trampoline tf (upd_proc i (\<lambda>p. p\<lparr>trapframe := tf\<rparr>) s)) (\<lambda>(pt, s).
                  case pt of
                    None \<Rightarrow> kbind (proc_free kend i (upd_proc i (\<lambda>p. p\<lparr>pagetable := 0\<rparr>) s)) (\<lambda>s. Ret (None, s))
                  | Some pt \<Rightarrow> Ret (Some i, upd_proc i (\<lambda>p. p\<lparr>pagetable := pt, context_ra := forkret,
                        context_sp := kstack p + PGSIZE\<rparr>) s)))"

definition proc_grow :: "u64 \<Rightarrow> nat \<Rightarrow> int \<Rightarrow> 'a kprocs_scheme \<Rightarrow> (int \<times> 'a kprocs_scheme) res" where
  "proc_grow kend cur n s =
     (let p = processes s cur in
      if n > 0
      then kbind (vm_alloc kend (pagetable p) (sz p) (sz p + word_of_int n) PTE_W s) (\<lambda>(newsz, s).
             if newsz = 0 then Ret (- 1, s) else Ret (0, upd_proc cur (\<lambda>p. p\<lparr>sz := newsz\<rparr>) s))
      else if n < 0
      then kbind (vm_dealloc kend (pagetable p) (sz p) (sz p + word_of_int n) s) (\<lambda>(newsz, s).
             Ret (0, upd_proc cur (\<lambda>p. p\<lparr>sz := newsz\<rparr>) s))
      else Ret (0, s))"

fun mapstacks_loop :: "nat \<Rightarrow> nat \<Rightarrow> 'a kprocs_scheme \<Rightarrow> 'a kprocs_scheme res" where
  "mapstacks_loop 0 i s = Ret s"
| "mapstacks_loop (Suc n) i s =
     (case page_alloc s of
        (None, s) \<Rightarrow> Panic ''alloc''
      | (Some pa, s) \<Rightarrow>
          kbind (kvm_map (kernel_pagetable s) (KSTACK i) pa PGSIZE (PTE_R OR PTE_W) s) (\<lambda>s.
            mapstacks_loop n (Suc i) s))"

definition mapstacks :: "'a kprocs_scheme \<Rightarrow> 'a kprocs_scheme res" where
  "mapstacks s = mapstacks_loop NPROC 0 s"

definition process_manager_init :: "'a kprocs_scheme \<Rightarrow> 'a kprocs_scheme res" where
  "process_manager_init s =
     mapstacks (s\<lparr>processes := (\<lambda>i. if i < NPROC
       then (processes s i)\<lparr>pstate := UNUSED, kstack := KSTACK i\<rparr> else processes s i)\<rparr>)"

section \<open>Parents and children\<close>

text \<open>\<open>reparent\<close> wakes the init process once for every child it passes on.\<close>

fun reparent_loop :: "nat \<Rightarrow> nat \<Rightarrow> nat option \<Rightarrow> nat \<Rightarrow> 'a kprocs_scheme \<Rightarrow> 'a kprocs_scheme" where
  "reparent_loop 0 i cur p s = s"
| "reparent_loop (Suc n) i cur p s =
     reparent_loop n (Suc i) cur p
       (if parent (processes s i) = Some p
        then wakeup cur (map_option OnProcess (initprocess s)) (upd_proc i (\<lambda>q. q\<lparr>parent := initprocess s\<rparr>) s)
        else s)"

definition reparent :: "nat option \<Rightarrow> nat \<Rightarrow> 'a kprocs_scheme \<Rightarrow> 'a kprocs_scheme" where
  "reparent cur p s = reparent_loop NPROC 0 cur p s"

text \<open>
  One pass of \<open>wait\<close> over the table: a result, or the process goes to sleep on itself and scans
  again when it is woken.
\<close>

datatype 'a wait_result = Waited int 'a | Sleeps 'a

definition wait_scan :: "u64 \<Rightarrow> nat \<Rightarrow> u64 \<Rightarrow> 'a kprocs_scheme \<Rightarrow> 'a kprocs_scheme wait_result res" where
  "wait_scan kend cur addr s =
     (case find (\<lambda>i. parent (processes s i) = Some cur \<and> pstate (processes s i) = ZOMBIE) [0..<NPROC] of
        Some i \<Rightarrow>
          let n = pid (processes s i) in
          kbind (if addr \<noteq> 0 then copyout_bytes (pagetable (processes s cur)) addr (le_bytes 4 (xstate (processes s i))) s
                 else Ret (0, s)) (\<lambda>(r, s).
            if r < 0 then Ret (Waited (- 1) s)
            else kbind (proc_free kend i s) (\<lambda>s. Ret (Waited (sint n) s)))
      | None \<Rightarrow>
          if \<not> (\<exists>i \<in> {..<NPROC}. parent (processes s i) = Some cur) \<or> killed (processes s cur)
          then Ret (Waited (- 1) s)
          else Ret (Sleeps (sleep_on cur (OnProcess cur) s)))"

text \<open>The last part of \<open>exit\<close>, under \<^verbatim>\<open>wait_lock\<close>, once files and directory are released.\<close>

definition exit_finish :: "nat \<Rightarrow> u32 \<Rightarrow> 'a kprocs_scheme \<Rightarrow> 'a kprocs_scheme" where
  "exit_finish cur status s =
     (let s = reparent (Some cur) cur s;
          s = wakeup (Some cur) (map_option OnProcess (parent (processes s cur))) s
      in upd_proc cur (\<lambda>p. p\<lparr>xstate := status, pstate := ZOMBIE\<rparr>) s)"

text \<open>The clock interrupt on hart 0, and the test a process in \<open>sleep(n)\<close> makes each time it runs.\<close>

definition clock_tick :: "nat option \<Rightarrow> 'a kprocs_scheme \<Rightarrow> 'a kprocs_scheme" where
  "clock_tick cur s = wakeup cur (Some OnTicks) (s\<lparr>ticks := ticks s + 1\<rparr>)"

definition sleep_ticks_test :: "nat \<Rightarrow> u32 \<Rightarrow> u32 \<Rightarrow> 'a kprocs_scheme \<Rightarrow> 'a kprocs_scheme wait_result" where
  "sleep_ticks_test cur ticks0 n s =
     (if ticks s - ticks0 < n
      then if killed (processes s cur) then Waited (- 1) s else Sleeps (sleep_on cur OnTicks s)
      else Waited 0 s)"

end
