(* ===== verification/Buffer_Cache.thy ===== *)
theory Buffer_Cache
  imports Processes
begin

text \<open>
  \<^verbatim>\<open>kernel/buffer_cache.cpp\<close>: the cache of disk blocks. Buffers are linked in a doubly linked list
  ordered by use. The disk behind \<^verbatim>\<open>kernel.disk\<close> is a function from block numbers to blocks of
  \<open>BSIZE\<close> bytes, together with the sequence of blocks written to it, which is what a crash can cut
  short. The section under the cache's spin lock is one step; a buffer's sleep lock records the
  process that holds it, and waiting for it is the outcome \<open>Blocked\<close>.
\<close>

section \<open>State and operations\<close>

abbreviation (input) BSIZE :: nat where "BSIZE \<equiv> 1024"

type_synonym block = "u8 list"

record buf =
  valid :: bool
  buf_dev :: u32
  blockno :: u32
  buf_lock :: "u32 option"
  refcnt :: u32
  buf_prev :: "nat option"
  buf_next :: "nat option"
  buf_data :: block

record bcache = kprocs +
  disk :: "u32 \<Rightarrow> block"
  disk_trace :: "(u32 \<times> block) list"
  bufs :: "nat \<Rightarrow> buf"
  cache :: "nat dlist"

definition buf_links :: "(nat, nat \<Rightarrow> buf) dlinks" where
  "buf_links = \<lparr>get_prev = (\<lambda>bs b. buf_prev (bs b)), get_next = (\<lambda>bs b. buf_next (bs b)),
     set_prev = (\<lambda>b p bs. bs(b := (bs b)\<lparr>buf_prev := p\<rparr>)),
     set_next = (\<lambda>b p bs. bs(b := (bs b)\<lparr>buf_next := p\<rparr>))\<rparr>"

definition upd_buf :: "nat \<Rightarrow> (buf \<Rightarrow> buf) \<Rightarrow> 'a bcache_scheme \<Rightarrow> 'a bcache_scheme" where
  "upd_buf b f s = s\<lparr>bufs := (bufs s)(b := f (bufs s b))\<rparr>"

fun cache_init_loop :: "nat \<Rightarrow> nat dlist \<times> (nat \<Rightarrow> buf) \<Rightarrow> nat dlist \<times> (nat \<Rightarrow> buf)" where
  "cache_init_loop 0 (l, bs) = (l, bs)"
| "cache_init_loop (Suc n) (l, bs) = cache_init_loop n (dlist_push_back buf_links (NBUF - Suc n) l bs)"

definition buffer_cache_init :: "'a bcache_scheme \<Rightarrow> 'a bcache_scheme" where
  "buffer_cache_init s = (let (l, bs) = cache_init_loop NBUF (dlist_new, bufs s) in s\<lparr>cache := l, bufs := bs\<rparr>)"

text \<open>
  The search loops of \<open>read\<close>. The list has at most \<open>NBUF\<close> nodes, so the fuel never runs out on a
  well-formed list; on a circular one the search would not end.
\<close>

fun scan :: "nat \<Rightarrow> (nat \<Rightarrow> bool) \<Rightarrow> (nat \<Rightarrow> nat option) \<Rightarrow> nat option \<Rightarrow> nat option res" where
  "scan 0 found follow b = Blocked"
| "scan (Suc n) found follow None = Ret None"
| "scan (Suc n) found follow (Some b) = (if found b then Ret (Some b) else scan n found follow (follow b))"

definition cache_find :: "u32 \<Rightarrow> u32 \<Rightarrow> 'a bcache_scheme \<Rightarrow> nat option res" where
  "cache_find device blk s =
     scan (Suc NBUF) (\<lambda>b. buf_dev (bufs s b) = device \<and> blockno (bufs s b) = blk)
       (\<lambda>b. buf_next (bufs s b)) (dlist_head (cache s))"

definition cache_find_free :: "'a bcache_scheme \<Rightarrow> nat option res" where
  "cache_find_free s =
     scan (Suc NBUF) (\<lambda>b. \<not> refcnt (bufs s b) > 0) (\<lambda>b. buf_prev (bufs s b)) (dlist_tail (cache s))"

definition cache_get :: "u32 \<Rightarrow> u32 \<Rightarrow> 'a bcache_scheme \<Rightarrow> (nat \<times> 'a bcache_scheme) res" where
  "cache_get device blk s =
     kbind (cache_find device blk s) (\<lambda>r.
     kbind (case r of
         Some b \<Rightarrow> Ret (b, s)
       | None \<Rightarrow> kbind (cache_find_free s) (\<lambda>r. case r of
             None \<Rightarrow> Panic ''buffer_cache::read: no buffers''
           | Some b \<Rightarrow> Ret (b, upd_buf b (\<lambda>x. x\<lparr>buf_dev := device, blockno := blk, valid := False\<rparr>) s)))
     (\<lambda>(b, s).
       let s = upd_buf b (\<lambda>x. x\<lparr>refcnt := refcnt x + 1\<rparr>) s;
           (l, bs) = dlist_remove buf_links b (cache s) (bufs s);
           (l, bs) = dlist_push_front buf_links b l bs
       in Ret (b, s\<lparr>cache := l, bufs := bs\<rparr>)))"

definition disk_read :: "nat \<Rightarrow> 'a bcache_scheme \<Rightarrow> 'a bcache_scheme" where
  "disk_read b s = upd_buf b (\<lambda>x. x\<lparr>buf_data := disk s (blockno x)\<rparr>) s"

definition disk_write :: "nat \<Rightarrow> 'a bcache_scheme \<Rightarrow> 'a bcache_scheme" where
  "disk_write b s =
     (let x = bufs s b in
      s\<lparr>disk := (disk s)(blockno x := buf_data x), disk_trace := disk_trace s @ [(blockno x, buf_data x)]\<rparr>)"

definition buf_acquire :: "nat \<Rightarrow> nat \<Rightarrow> 'a bcache_scheme \<Rightarrow> 'a bcache_scheme res" where
  "buf_acquire cur b s =
     (if buf_lock (bufs s b) \<noteq> None then Blocked
      else Ret (upd_buf b (\<lambda>x. x\<lparr>buf_lock := Some (pid (processes s cur))\<rparr>) s))"

definition buf_holding :: "nat \<Rightarrow> nat \<Rightarrow> 'a bcache_scheme \<Rightarrow> bool" where
  "buf_holding cur b s \<longleftrightarrow> buf_lock (bufs s b) = Some (pid (processes s cur))"

definition buf_release :: "nat \<Rightarrow> nat \<Rightarrow> 'a bcache_scheme \<Rightarrow> 'a bcache_scheme" where
  "buf_release cur b s = wakeup (Some cur) (Some (OnBuffer b)) (upd_buf b (\<lambda>x. x\<lparr>buf_lock := None\<rparr>) s)"

definition cache_read :: "nat \<Rightarrow> u32 \<Rightarrow> u32 \<Rightarrow> 'a bcache_scheme \<Rightarrow> (nat \<times> 'a bcache_scheme) res" where
  "cache_read cur device blk s =
     kbind (cache_get device blk s) (\<lambda>(b, s).
     kbind (buf_acquire cur b s) (\<lambda>s.
       Ret (b, if \<not> valid (bufs s b) then upd_buf b (\<lambda>x. x\<lparr>valid := True\<rparr>) (disk_read b s) else s)))"

definition cache_relse :: "nat \<Rightarrow> nat \<Rightarrow> 'a bcache_scheme \<Rightarrow> 'a bcache_scheme res" where
  "cache_relse cur b s =
     (if \<not> buf_holding cur b s then Panic ''buffer_cache::relse: not holding lock''
      else let s = upd_buf b (\<lambda>x. x\<lparr>refcnt := refcnt x - 1\<rparr>) (buf_release cur b s) in
        if refcnt (bufs s b) = 0
        then let (l, bs) = dlist_remove buf_links b (cache s) (bufs s);
                 (l, bs) = dlist_push_back buf_links b l bs
             in Ret (s\<lparr>cache := l, bufs := bs\<rparr>)
        else Ret s)"

definition cache_write :: "nat \<Rightarrow> nat \<Rightarrow> 'a bcache_scheme \<Rightarrow> 'a bcache_scheme res" where
  "cache_write cur b s =
     (if \<not> buf_holding cur b s then Panic ''buffer_cache::write'' else Ret (disk_write b s))"

definition cache_pin :: "nat \<Rightarrow> 'a bcache_scheme \<Rightarrow> 'a bcache_scheme" where
  "cache_pin b s = upd_buf b (\<lambda>x. x\<lparr>refcnt := refcnt x + 1\<rparr>) s"

definition cache_unpin :: "nat \<Rightarrow> 'a bcache_scheme \<Rightarrow> 'a bcache_scheme res" where
  "cache_unpin b s =
     (if refcnt (bufs s b) = 0 then Panic ''buffer_cache::unpin: refcnt underflow''
      else Ret (upd_buf b (\<lambda>x. x\<lparr>refcnt := refcnt x - 1\<rparr>) s))"

text \<open>A holder of a buffer's lock writes \<open>b->data\<close> directly.\<close>

definition buf_set_data :: "nat \<Rightarrow> block \<Rightarrow> 'a bcache_scheme \<Rightarrow> 'a bcache_scheme" where
  "buf_set_data b d s = upd_buf b (\<lambda>x. x\<lparr>buf_data := d\<rparr>) s"

section \<open>The list of buffers\<close>

interpretation buf_list: dlist_nodes buf_links
  by unfold_locales (simp_all add: buf_links_def)

lemma scan_forward:
  assumes "dseg buf_links bs a xs None" "length xs < n"
  shows "scan n p (\<lambda>b. buf_next (bs b)) (first_or xs None) = Ret (find p xs)"
  using assms
proof (induction xs arbitrary: a n)
  case Nil
  then show ?case by (cases n) auto
next
  case (Cons x xs)
  then show ?case by (cases n) (auto simp: buf_links_def)
qed

lemma scan_backward:
  assumes "dseg buf_links bs None xs b" "length xs < n"
  shows "scan n p (\<lambda>b. buf_prev (bs b)) (last_or xs None) = Ret (find p (rev xs))"
  using assms
proof (induction xs arbitrary: b n rule: rev_induct)
  case Nil
  then show ?case by (cases n) auto
next
  case (snoc x xs)
  then have "buf_prev (bs x) = last_or xs None" by (simp add: dseg_append buf_links_def)
  with snoc show ?case by (cases n) (auto simp: dseg_append)
qed

text \<open>Relinking nodes changes nothing but the links.\<close>

definition same_but_links :: "buf \<Rightarrow> buf \<Rightarrow> bool" where
  "same_but_links x y \<longleftrightarrow> valid x = valid y \<and> buf_dev x = buf_dev y \<and> blockno x = blockno y \<and>
     buf_lock x = buf_lock y \<and> refcnt x = refcnt y \<and> buf_data x = buf_data y"

lemma dlist_ops_links:
  "dlist_remove buf_links b l bs = (l', bs') \<Longrightarrow> same_but_links (bs' i) (bs i)"
  "dlist_push_front buf_links b l bs = (l', bs') \<Longrightarrow> same_but_links (bs' i) (bs i)"
  "dlist_push_back buf_links b l bs = (l', bs') \<Longrightarrow> same_but_links (bs' i) (bs i)"
  by (auto simp: dlist_remove_def dlist_push_front_def dlist_push_back_def buf_links_def
      same_but_links_def Let_def split: option.splits if_splits)

section \<open>The cache as a view of the disk\<close>

text \<open>
  For one device: the buffer that caches a block, the contents a block has for readers, the
  references to it, and the buffers no one references.
\<close>

definition cached :: "u32 \<Rightarrow> (nat \<Rightarrow> buf) \<Rightarrow> u32 \<Rightarrow> nat \<Rightarrow> bool" where
  "cached dev bs blk i \<longleftrightarrow> i < NBUF \<and> buf_dev (bs i) = dev \<and> blockno (bs i) = blk"

definition slot :: "u32 \<Rightarrow> (nat \<Rightarrow> buf) \<Rightarrow> u32 \<Rightarrow> nat option" where
  "slot dev bs blk = find (cached dev bs blk) [0..<NBUF]"

definition bview :: "u32 \<Rightarrow> (nat \<Rightarrow> buf) \<Rightarrow> (u32 \<Rightarrow> block) \<Rightarrow> u32 \<Rightarrow> block" where
  "bview dev bs dk blk =
     (case slot dev bs blk of Some i \<Rightarrow> if valid (bs i) then buf_data (bs i) else dk blk | None \<Rightarrow> dk blk)"

definition brefs :: "u32 \<Rightarrow> (nat \<Rightarrow> buf) \<Rightarrow> u32 \<Rightarrow> nat" where
  "brefs dev bs blk = (case slot dev bs blk of Some i \<Rightarrow> unat (refcnt (bs i)) | None \<Rightarrow> 0)"

definition bheld :: "u32 \<Rightarrow> (nat \<Rightarrow> buf) \<Rightarrow> u32 set" where
  "bheld dev bs = {blk. \<exists>i. cached dev bs blk i \<and> buf_lock (bs i) \<noteq> None}"

definition nfree :: "(nat \<Rightarrow> buf) \<Rightarrow> nat" where
  "nfree bs = card {i. i < NBUF \<and> refcnt (bs i) = 0}"

definition bhandle :: "u32 \<Rightarrow> u32 \<Rightarrow> (nat \<Rightarrow> buf) \<Rightarrow> nat \<Rightarrow> u32 option" where
  "bhandle dev me bs b =
     (if b < NBUF \<and> buf_dev (bs b) = dev \<and> buf_lock (bs b) = Some me \<and> valid (bs b)
      then Some (blockno (bs b)) else None)"

definition bufs_ok :: "u32 \<Rightarrow> (nat \<Rightarrow> buf) \<Rightarrow> (u32 \<Rightarrow> block) \<Rightarrow> bool" where
  "bufs_ok dev bs dk \<longleftrightarrow>
     (\<forall>blk i j. cached dev bs blk i \<longrightarrow> cached dev bs blk j \<longrightarrow> i = j) \<and>
     (\<forall>i < NBUF. refcnt (bs i) = 0 \<longrightarrow> buf_lock (bs i) = None \<and>
        (buf_dev (bs i) = dev \<longrightarrow> valid (bs i) \<longrightarrow> buf_data (bs i) = dk (blockno (bs i))))"

definition cache_ok :: "u32 \<Rightarrow> 'a bcache_scheme \<Rightarrow> bool" where
  "cache_ok dev s \<longleftrightarrow> bufs_ok dev (bufs s) (disk s) \<and>
     (\<exists>xs. dlist_abs buf_links (bufs s) (cache s) xs \<and> set xs = {..<NBUF})"

lemma slot_iff:
  assumes "bufs_ok dev bs dk"
  shows "slot dev bs blk = Some i \<longleftrightarrow> cached dev bs blk i"
proof
  assume "slot dev bs blk = Some i"
  then show "cached dev bs blk i" by (auto simp: slot_def find_Some_iff)
next
  assume i: "cached dev bs blk i"
  then have "i \<in> set [0..<NBUF]" by (simp add: cached_def)
  with i have "slot dev bs blk \<noteq> None" by (auto simp: slot_def find_None_iff)
  then obtain j where "slot dev bs blk = Some j" "cached dev bs blk j" by (auto simp: slot_def find_Some_iff)
  with i assms show "slot dev bs blk = Some i" by (auto simp: bufs_ok_def)
qed

lemma slot_None_iff: "slot dev bs blk = None \<longleftrightarrow> (\<forall>i. \<not> cached dev bs blk i)"
  by (auto simp: slot_def find_None_iff cached_def)

text \<open>Everything above looks at the links of no buffer.\<close>

definition agree :: "(nat \<Rightarrow> buf) \<Rightarrow> (nat \<Rightarrow> buf) \<Rightarrow> bool" where
  "agree bs bs' \<longleftrightarrow> (\<forall>i. same_but_links (bs i) (bs' i))"

lemma agree_abs:
  assumes "agree bs bs'"
  shows "slot dev bs = slot dev bs'" "bview dev bs dk = bview dev bs' dk" "brefs dev bs = brefs dev bs'"
    and "bheld dev bs = bheld dev bs'" "nfree bs = nfree bs'" "bhandle dev me bs = bhandle dev me bs'"
    and "bufs_ok dev bs dk = bufs_ok dev bs' dk"
proof -
  have c: "cached dev bs = cached dev bs'"
    using assms by (auto simp: agree_def same_but_links_def cached_def fun_eq_iff)
  show s: "slot dev bs = slot dev bs'" by (rule ext) (simp only: slot_def c)
  show "bview dev bs dk = bview dev bs' dk" "brefs dev bs = brefs dev bs'"
    using assms by (auto simp: bview_def brefs_def s agree_def same_but_links_def fun_eq_iff split: option.splits)
  show "bheld dev bs = bheld dev bs'" "nfree bs = nfree bs'" "bhandle dev me bs = bhandle dev me bs'"
    "bufs_ok dev bs dk = bufs_ok dev bs' dk"
    using assms c by (simp_all add: bheld_def nfree_def bhandle_def bufs_ok_def agree_def same_but_links_def fun_eq_iff)
qed

subsection \<open>Updating one buffer\<close>

lemma upd_same_key:
  assumes ok: "bufs_ok dev bs dk" and b: "cached dev bs blk b"
    and x: "buf_dev x = dev" "blockno x = blk"
  shows "slot dev (bs(b := x)) = slot dev bs"
    and "bview dev (bs(b := x)) dk = (bview dev bs dk)(blk := if valid x then buf_data x else dk blk)"
    and "brefs dev (bs(b := x)) = (brefs dev bs)(blk := unat (refcnt x))"
    and "bheld dev (bs(b := x)) = (if buf_lock x = None then bheld dev bs - {blk} else insert blk (bheld dev bs))"
    and "blk' \<noteq> blk \<Longrightarrow> bhandle dev me bs b' = Some blk' \<Longrightarrow> bhandle dev me (bs(b := x)) b' = Some blk'"
    and "(refcnt x = 0 \<longrightarrow> buf_lock x = None \<and> (valid x \<longrightarrow> buf_data x = dk blk)) \<Longrightarrow> bufs_ok dev (bs(b := x)) dk"
proof -
  have c: "cached dev (bs(b := x)) = cached dev bs" using b x by (auto simp: cached_def fun_eq_iff)
  have u: "cached dev bs k b \<Longrightarrow> k = blk" for k using b by (simp add: cached_def)
  have u': "cached dev bs blk i \<Longrightarrow> i = b" for i using ok b by (auto simp: bufs_ok_def)
  have sb: "slot dev bs blk = Some b" using ok b by (simp add: slot_iff)
  show s: "slot dev (bs(b := x)) = slot dev bs" by (rule ext) (simp only: slot_def c)
  have other: "slot dev bs k \<noteq> Some b" if "k \<noteq> blk" for k using that u slot_iff [OF ok] by blast
  show "bview dev (bs(b := x)) dk = (bview dev bs dk)(blk := if valid x then buf_data x else dk blk)"
  proof (rule ext)
    fix k show "bview dev (bs(b := x)) dk k = ((bview dev bs dk)(blk := if valid x then buf_data x else dk blk)) k"
      unfolding bview_def s fun_upd_apply using other [of k] sb by (cases "k = blk"; cases "slot dev bs k") simp_all
  qed
  show "brefs dev (bs(b := x)) = (brefs dev bs)(blk := unat (refcnt x))"
  proof (rule ext)
    fix k show "brefs dev (bs(b := x)) k = ((brefs dev bs)(blk := unat (refcnt x))) k"
      unfolding brefs_def s fun_upd_apply using other [of k] sb
      by (cases "k = blk"; cases "slot dev bs k") simp_all
  qed
  show "bheld dev (bs(b := x)) = (if buf_lock x = None then bheld dev bs - {blk} else insert blk (bheld dev bs))"
  proof (rule set_eqI)
    fix k
    have "k \<in> bheld dev (bs(b := x)) \<longleftrightarrow> (\<exists>i. cached dev bs k i \<and> buf_lock ((bs(b := x)) i) \<noteq> None)"
      by (simp add: bheld_def c)
    also have "\<dots> \<longleftrightarrow> k \<in> (if buf_lock x = None then bheld dev bs - {blk} else insert blk (bheld dev bs))"
    proof (cases "k = blk")
      case True
      then have "cached dev bs k i \<longleftrightarrow> i = b" for i using b u' [of i] by blast
      with True show ?thesis by simp
    next
      case False
      then have "\<not> cached dev bs k b" using u by auto
      then have "(\<exists>i. cached dev bs k i \<and> buf_lock ((bs(b := x)) i) \<noteq> None) \<longleftrightarrow>
          (\<exists>i. cached dev bs k i \<and> buf_lock (bs i) \<noteq> None)" by (metis fun_upd_other)
      with False show ?thesis by (simp add: bheld_def)
    qed
    finally show "k \<in> bheld dev (bs(b := x)) \<longleftrightarrow>
        k \<in> (if buf_lock x = None then bheld dev bs - {blk} else insert blk (bheld dev bs))" .
  qed
  show "blk' \<noteq> blk \<Longrightarrow> bhandle dev me bs b' = Some blk' \<Longrightarrow> bhandle dev me (bs(b := x)) b' = Some blk'"
    using b by (auto simp: bhandle_def cached_def split: if_splits)
  show "(refcnt x = 0 \<longrightarrow> buf_lock x = None \<and> (valid x \<longrightarrow> buf_data x = dk blk)) \<Longrightarrow> bufs_ok dev (bs(b := x)) dk"
    using ok x unfolding bufs_ok_def c by auto
qed

lemma nfree_upd:
  assumes "b < NBUF"
  shows "nfree (bs(b := x)) + (if refcnt (bs b) = 0 then 1 else 0) = nfree bs + (if refcnt x = 0 then 1 else 0)"
proof -
  let ?F = "\<lambda>bs. {i. i < NBUF \<and> refcnt (bs i) = 0}"
  have fin: "finite (?F bs - {b})" by simp
  have 1: "?F bs = (if refcnt (bs b) = 0 then insert b (?F bs - {b}) else ?F bs - {b})" using assms by auto
  have 2: "?F (bs(b := x)) = (if refcnt x = 0 then insert b (?F bs - {b}) else ?F bs - {b})"
    using assms by (auto split: if_splits)
  have "card (insert b (?F bs - {b})) = Suc (card (?F bs - {b}))" using fin by (intro card_insert_disjoint) auto
  then show ?thesis unfolding nfree_def by (subst 2, subst (2) 1) (auto split: if_splits)
qed

subsection \<open>Taking an unreferenced buffer\<close>

lemma evict:
  assumes ok: "bufs_ok dev bs dk" and none: "slot dev bs blk = None"
    and b: "b < NBUF" "refcnt (bs b) = 0"
  defines "bs' \<equiv> bs(b := (bs b)\<lparr>buf_dev := dev, blockno := blk, valid := False\<rparr>)"
  shows "bufs_ok dev bs' dk" "cached dev bs' blk b" "bview dev bs' dk = bview dev bs dk"
    and "brefs dev bs' = brefs dev bs" "bheld dev bs' = bheld dev bs"
    and "bhandle dev me bs b' = Some blk' \<Longrightarrow> bhandle dev me bs' b' = Some blk'" "nfree bs' = nfree bs"
proof -
  have lock: "buf_lock (bs b) = None" and clean: "buf_dev (bs b) = dev \<Longrightarrow> valid (bs b) \<Longrightarrow> buf_data (bs b) = dk (blockno (bs b))"
    using ok b by (auto simp: bufs_ok_def)
  have none': "\<not> cached dev bs blk i" for i using none by (simp add: slot_None_iff)
  show "cached dev bs' blk b" using b by (simp add: bs'_def cached_def)
  have c: "cached dev bs' k i \<longleftrightarrow> (if i = b then k = blk else cached dev bs k i)" for k i
    using b by (auto simp: bs'_def cached_def)
  show ok': "bufs_ok dev bs' dk"
    unfolding bufs_ok_def c
  proof (intro conjI allI impI)
    fix k i j assume "if i = b then k = blk else cached dev bs k i" "if j = b then k = blk else cached dev bs k j"
    then show "i = j" using ok none' by (auto simp: bufs_ok_def split: if_splits)
  qed (use ok lock in \<open>auto simp: bs'_def bufs_ok_def\<close>)
  have slot: "slot dev bs' k = (if k = blk then Some b else if slot dev bs k = Some b then None else slot dev bs k)" for k
  proof (cases "slot dev bs' k")
    case None
    then have no: "\<not> (if i = b then k = blk else cached dev bs k i)" for i by (simp add: slot_None_iff c)
    then have "k \<noteq> blk" using no [of b] by simp
    show ?thesis
    proof (cases "cached dev bs k b")
      case True
      then have "slot dev bs k = Some b" by (simp add: slot_iff [OF ok])
      then show ?thesis using None \<open>k \<noteq> blk\<close> by simp
    next
      case False
      then have "\<not> cached dev bs k i" for i using no [of i] by (cases "i = b") simp_all
      then have "slot dev bs k = None" by (simp add: slot_None_iff)
      then show ?thesis using None \<open>k \<noteq> blk\<close> by simp
    qed
  next
    case (Some i)
    then have "if i = b then k = blk else cached dev bs k i" using slot_iff [OF ok', of k i] c by simp
    then show ?thesis using Some none' [of i] slot_iff [OF ok, of k i]
      by (cases "i = b"; cases "k = blk") simp_all
  qed
  show "bview dev bs' dk = bview dev bs dk"
  proof
    fix k
    show "bview dev bs' dk k = bview dev bs dk k"
    proof (cases "slot dev bs k")
      case None
      then show ?thesis unfolding bview_def slot by (simp add: bs'_def)
    next
      case (Some i)
      then have i: "cached dev bs k i" "k \<noteq> blk" using slot_iff [OF ok, of k i] none by auto
      show ?thesis
      proof (cases "i = b")
        case True
        with i clean show ?thesis using Some unfolding bview_def slot by (auto simp: cached_def)
      next
        case False
        with i Some show ?thesis unfolding bview_def slot by (simp add: bs'_def)
      qed
    qed
  qed
  show "brefs dev bs' = brefs dev bs"
  proof
    fix k
    show "brefs dev bs' k = brefs dev bs k"
      using none b unfolding brefs_def slot by (cases "slot dev bs k") (auto simp: bs'_def)
  qed
  show "bheld dev bs' = bheld dev bs"
    using lock none' unfolding bheld_def c
    by (auto simp: bs'_def split: if_splits) (metis option.distinct(1))
  show "bhandle dev me bs b' = Some blk' \<Longrightarrow> bhandle dev me bs' b' = Some blk'"
    using lock by (auto simp: bhandle_def bs'_def split: if_splits)
  show "nfree bs' = nfree bs"
    using nfree_upd [OF b(1), of bs "(bs b)\<lparr>buf_dev := dev, blockno := blk, valid := False\<rparr>"] b by (simp add: bs'_def)
qed

section \<open>What the operations do to the view\<close>

text \<open>The part of the state that is not the cache and the disk.\<close>

definition cache_rest :: "'a bcache_scheme \<Rightarrow> 'a bcache_scheme" where
  "cache_rest s = s\<lparr>disk := (\<lambda>_. []), disk_trace := [], bufs := (\<lambda>_. undefined), cache := dlist_new,
     processes := (\<lambda>i. (processes s i)\<lparr>pstate := UNUSED\<rparr>)\<rparr>"

lemma dlist_abs_links:
  assumes "\<And>i. buf_prev (bs i) = buf_prev (bs' i) \<and> buf_next (bs i) = buf_next (bs' i)"
  shows "dlist_abs buf_links bs l xs = dlist_abs buf_links bs' l xs"
proof -
  have "dseg buf_links bs None xs None = dseg buf_links bs' None xs None"
    using assms by (intro dseg_cong) (simp add: buf_links_def)
  then show ?thesis by (simp add: dlist_abs_def)
qed

lemma relink:
  assumes "dlist_abs buf_links bs l xs" "b \<in> set xs" "dlist_remove buf_links b l bs = (l1, bs1)"
  shows "dlist_push_front buf_links b l1 bs1 = (l2, bs2) \<Longrightarrow>
      agree bs2 bs \<and> (\<exists>ys. dlist_abs buf_links bs2 l2 (b # ys) \<and> set (b # ys) = set xs)"
    and "dlist_push_back buf_links b l1 bs1 = (l2, bs2) \<Longrightarrow>
      agree bs2 bs \<and> (\<exists>ys. dlist_abs buf_links bs2 l2 (ys @ [b]) \<and> set (ys @ [b]) = set xs)"
proof -
  obtain as cs where xs: "xs = as @ b # cs" using split_list [OF assms(2)] by blast
  have d: "distinct xs" using assms(1) by (simp add: dlist_abs_def)
  have 1: "dlist_abs buf_links bs1 l1 (as @ cs)"
    using assms(1,3) xs buf_list.remove_abs by blast
  have nin: "b \<notin> set (as @ cs)" using d xs by simp
  have ag: "agree bs2 bs1 \<Longrightarrow> agree bs2 bs"
    using dlist_ops_links(1) [OF assms(3)] by (auto simp: agree_def same_but_links_def)
  show "agree bs2 bs \<and> (\<exists>ys. dlist_abs buf_links bs2 l2 (b # ys) \<and> set (b # ys) = set xs)"
    if "dlist_push_front buf_links b l1 bs1 = (l2, bs2)"
    using buf_list.push_front_abs [OF 1 nin that] dlist_ops_links(2) [OF that] ag xs
    by (auto simp: agree_def intro!: exI [of _ "as @ cs"])
  show "agree bs2 bs \<and> (\<exists>ys. dlist_abs buf_links bs2 l2 (ys @ [b]) \<and> set (ys @ [b]) = set xs)"
    if "dlist_push_back buf_links b l1 bs1 = (l2, bs2)"
    using buf_list.push_back_abs [OF 1 nin that] dlist_ops_links(3) [OF that] ag xs
    by (auto simp: agree_def intro!: exI [of _ "as @ cs"])
qed

lemma cache_find_spec:
  assumes "cache_ok dev s"
  shows "cache_find dev blk s = Ret (slot dev (bufs s) blk)"
proof -
  obtain xs where xs: "dlist_abs buf_links (bufs s) (cache s) xs" "set xs = {..<NBUF}" "bufs_ok dev (bufs s) (disk s)"
    using assms by (auto simp: cache_ok_def)
  have "card (set xs) = length xs" using xs(1) by (simp add: dlist_abs_def distinct_card)
  then have "length xs = NBUF" using xs(2) by simp
  then have *: "cache_find dev blk s = Ret (find (\<lambda>b. buf_dev (bufs s b) = dev \<and> blockno (bufs s b) = blk) xs)"
    using scan_forward [of "bufs s" None xs "Suc NBUF"] xs(1) by (simp add: cache_find_def dlist_abs_def)
  show ?thesis
  proof (cases "slot dev (bufs s) blk")
    case None
    then have "find (\<lambda>b. buf_dev (bufs s b) = dev \<and> blockno (bufs s b) = blk) xs = None"
      using xs(2) by (auto simp: slot_None_iff cached_def find_None_iff)
    with * None show ?thesis by simp
  next
    case (Some i)
    then have i: "cached dev (bufs s) blk i" using slot_iff [OF xs(3)] by simp
    then have "i \<in> set xs" using xs(2) by (simp add: cached_def)
    then obtain j where j: "find (\<lambda>b. buf_dev (bufs s b) = dev \<and> blockno (bufs s b) = blk) xs = Some j"
      using i by (cases "find (\<lambda>b. buf_dev (bufs s b) = dev \<and> blockno (bufs s b) = blk) xs")
        (auto simp: find_None_iff cached_def)
    then have "j \<in> set xs" "buf_dev (bufs s j) = dev" "blockno (bufs s j) = blk" by (auto simp: find_Some_iff)
    then have "cached dev (bufs s) blk j" using xs(2) by (simp add: cached_def)
    then have "j = i" using i xs(3) by (auto simp: bufs_ok_def)
    with * Some j show ?thesis by simp
  qed
qed

lemma cache_find_free_spec:
  assumes "cache_ok dev s"
  obtains xs where "dlist_abs buf_links (bufs s) (cache s) xs" "set xs = {..<NBUF}"
    "cache_find_free s = Ret (find (\<lambda>b. refcnt (bufs s b) = 0) (rev xs))"
proof -
  obtain xs where xs: "dlist_abs buf_links (bufs s) (cache s) xs" "set xs = {..<NBUF}"
    using assms by (auto simp: cache_ok_def)
  have "card (set xs) = length xs" using xs(1) by (simp add: dlist_abs_def distinct_card)
  then have "length xs = NBUF" using xs(2) by simp
  then have "cache_find_free s = Ret (find (\<lambda>b. \<not> refcnt (bufs s b) > 0) (rev xs))"
    using scan_backward [of "bufs s" xs None "Suc NBUF"] xs(1) by (simp add: cache_find_free_def dlist_abs_def)
  then show thesis using that xs by (simp add: word_gt_0)
qed

text \<open>
  One record of what an operation changes: the references and the locks of one block, the disk, the
  view. Handles of other blocks keep working.
\<close>

definition cache_step :: "u32 \<Rightarrow> u32 \<Rightarrow> u32 \<Rightarrow> 'a bcache_scheme \<Rightarrow> 'a bcache_scheme \<Rightarrow> nat \<Rightarrow> bool \<Rightarrow> block \<Rightarrow> bool" where
  "cache_step dev me blk s s' refs locked content \<longleftrightarrow>
     cache_ok dev s' \<and> cache_rest s' = cache_rest s \<and>
     bview dev (bufs s') (disk s') = (bview dev (bufs s) (disk s))(blk := content) \<and>
     brefs dev (bufs s') = (brefs dev (bufs s))(blk := refs) \<and>
     bheld dev (bufs s') = (if locked then insert blk (bheld dev (bufs s)) else bheld dev (bufs s) - {blk}) \<and>
     nfree (bufs s') + (if brefs dev (bufs s) blk = 0 then 1 else 0) = nfree (bufs s) + (if refs = 0 then 1 else 0) \<and>
     (\<forall>b blk'. blk' \<noteq> blk \<longrightarrow> bhandle dev me (bufs s) b = Some blk' \<longrightarrow> bhandle dev me (bufs s') b = Some blk')"

lemma cache_step_upd:
  assumes ok: "cache_ok dev s" and b: "cached dev (bufs s) blk b"
    and x: "buf_dev (f (bufs s b)) = dev" "blockno (f (bufs s b)) = blk" "buf_prev (f (bufs s b)) = buf_prev (bufs s b)"
      "buf_next (f (bufs s b)) = buf_next (bufs s b)"
    and fin: "refcnt (f (bufs s b)) = 0 \<longrightarrow> buf_lock (f (bufs s b)) = None \<and>
      (valid (f (bufs s b)) \<longrightarrow> buf_data (f (bufs s b)) = disk s blk)"
  shows "cache_step dev me blk s (upd_buf b f s) (unat (refcnt (f (bufs s b)))) (buf_lock (f (bufs s b)) \<noteq> None)
    (if valid (f (bufs s b)) then buf_data (f (bufs s b)) else disk s blk)"
proof -
  have bok: "bufs_ok dev (bufs s) (disk s)" using ok by (simp add: cache_ok_def)
  note u = upd_same_key [OF bok b x(1,2)]
  have bN: "b < NBUF" using b by (simp add: cached_def)
  have refs: "brefs dev (bufs s) blk = unat (refcnt (bufs s b))"
    using b slot_iff [OF bok, of blk b] by (simp add: brefs_def)
  obtain xs where xs: "dlist_abs buf_links (bufs s) (cache s) xs" "set xs = {..<NBUF}"
    using ok by (auto simp: cache_ok_def)
  have "dlist_abs buf_links ((bufs s)(b := f (bufs s b))) (cache s) xs"
    using xs(1) x by (subst dlist_abs_links [of _ "bufs s"]) auto
  then have "cache_ok dev (upd_buf b f s)"
    using u(6) [OF fin] xs(2) by (auto simp: cache_ok_def upd_buf_def)
  then show ?thesis
    using u(2-5) nfree_upd [OF bN, of "bufs s" "f (bufs s b)"] refs
    by (simp add: cache_step_def upd_buf_def cache_rest_def unat_eq_zero)
qed

lemma cache_step_relink:
  assumes "cache_step dev me blk s s2 r lk c" "agree bs2 (bufs s2)"
    and "dlist_abs buf_links bs2 l2 ys" "set ys = {..<NBUF}"
  shows "cache_step dev me blk s (s2\<lparr>cache := l2, bufs := bs2\<rparr>) r lk c"
  using assms unfolding cache_step_def cache_ok_def
  by (simp add: agree_abs [OF assms(2)] cache_rest_def) blast

text \<open>The buffer that \<open>read\<close> picks: the one that caches the block, or an unreferenced one.\<close>

definition cache_pick :: "u32 \<Rightarrow> u32 \<Rightarrow> 'a bcache_scheme \<Rightarrow> (nat \<times> 'a bcache_scheme) res" where
  "cache_pick device blk s =
     kbind (cache_find device blk s) (\<lambda>r. case r of
         Some b \<Rightarrow> Ret (b, s)
       | None \<Rightarrow> kbind (cache_find_free s) (\<lambda>r. case r of
             None \<Rightarrow> Panic ''buffer_cache::read: no buffers''
           | Some b \<Rightarrow> Ret (b, upd_buf b (\<lambda>x. x\<lparr>buf_dev := device, blockno := blk, valid := False\<rparr>) s)))"

lemma cache_rest_pid: "cache_rest s' = cache_rest s \<Longrightarrow> pid (processes s' i) = pid (processes s i)"
proof -
  assume "cache_rest s' = cache_rest s"
  then have "pid (processes (cache_rest s') i) = pid (processes (cache_rest s) i)" by simp
  then show ?thesis by (simp add: cache_rest_def)
qed

lemma wakeup_fields [simp]:
  "bufs (wakeup cur c s) = bufs s" "disk (wakeup cur c s) = disk s" "disk_trace (wakeup cur c s) = disk_trace s"
  "cache (wakeup cur c s) = cache s" "cache_rest (wakeup cur c s) = cache_rest s"
  "cache_ok dev (wakeup cur c s) = cache_ok dev s"
  by (auto simp: wakeup_def cache_rest_def cache_ok_def Let_def fun_eq_iff intro!: arg_cong [where f = "\<lambda>p. s\<lparr>processes := p\<rparr>"])

lemma cache_get_pick:
  "cache_get device blk s =
     kbind (cache_pick device blk s) (\<lambda>(b, s).
       let s = upd_buf b (\<lambda>x. x\<lparr>refcnt := refcnt x + 1\<rparr>) s;
           (l, bs) = dlist_remove buf_links b (cache s) (bufs s);
           (l, bs) = dlist_push_front buf_links b l bs
       in Ret (b, s\<lparr>cache := l, bufs := bs\<rparr>))"
  by (simp add: cache_get_def cache_pick_def kbind_assoc)

lemma cache_pick_spec:
  assumes ok: "cache_ok dev s" and room: "brefs dev (bufs s) blk \<noteq> 0 \<or> nfree (bufs s) \<noteq> 0"
  obtains b s' where "cache_pick dev blk s = Ret (b, s')" "cached dev (bufs s') blk b" "cache_ok dev s'"
    "cache_rest s' = cache_rest s" "disk s' = disk s" "disk_trace s' = disk_trace s"
    "bview dev (bufs s') (disk s) = bview dev (bufs s) (disk s)" "brefs dev (bufs s') = brefs dev (bufs s)"
    "bheld dev (bufs s') = bheld dev (bufs s)" "nfree (bufs s') = nfree (bufs s)"
    "\<And>b blk. bhandle dev me (bufs s) b = Some blk \<Longrightarrow> bhandle dev me (bufs s') b = Some blk"
proof (cases "slot dev (bufs s) blk")
  case (Some b)
  have bok: "bufs_ok dev (bufs s) (disk s)" using ok by (simp add: cache_ok_def)
  have "cache_pick dev blk s = Ret (b, s)" using cache_find_spec [OF ok, of blk] Some by (simp add: cache_pick_def)
  moreover have "cached dev (bufs s) blk b" using Some slot_iff [OF bok] by simp
  ultimately show thesis using that [of b s] ok by simp
next
  case None
  have bok: "bufs_ok dev (bufs s) (disk s)" using ok by (simp add: cache_ok_def)
  obtain xs where xs: "dlist_abs buf_links (bufs s) (cache s) xs" "set xs = {..<NBUF}"
    and free: "cache_find_free s = Ret (find (\<lambda>b. refcnt (bufs s b) = 0) (rev xs))"
    by (rule cache_find_free_spec [OF ok])
  have "nfree (bufs s) \<noteq> 0" using room None by (simp add: brefs_def)
  then obtain i where "i < NBUF" "refcnt (bufs s i) = 0" by (auto simp: nfree_def)
  then have "find (\<lambda>b. refcnt (bufs s b) = 0) (rev xs) \<noteq> None" using xs(2) by (auto simp: find_None_iff)
  then obtain b where fb: "find (\<lambda>b. refcnt (bufs s b) = 0) (rev xs) = Some b" by blast
  then have "b \<in> set (rev xs)" "refcnt (bufs s b) = 0" unfolding find_Some_iff by (metis nth_mem)+
  then have b: "b < NBUF" "refcnt (bufs s b) = 0" using xs(2) by auto
  let ?f = "\<lambda>x. x\<lparr>buf_dev := dev, blockno := blk, valid := False\<rparr>"
  note e = evict [OF bok None b]
  have pick: "cache_pick dev blk s = Ret (b, upd_buf b ?f s)"
    using cache_find_spec [OF ok, of blk] None free fb by (simp add: cache_pick_def)
  have "dlist_abs buf_links ((bufs s)(b := ?f (bufs s b))) (cache s) xs"
    using xs(1) by (subst dlist_abs_links [of _ "bufs s"]) auto
  then have "cache_ok dev (upd_buf b ?f s)" using e(1) xs(2) by (auto simp: cache_ok_def upd_buf_def)
  with pick e show thesis using that [of b "upd_buf b ?f s"] by (simp add: upd_buf_def cache_rest_def)
qed

lemma bhandle_cached: "bhandle dev me bs b = Some blk \<longleftrightarrow>
    cached dev bs blk b \<and> buf_lock (bs b) = Some me \<and> valid (bs b)"
  by (auto simp: bhandle_def cached_def)

lemma cache_ok_cached:
  assumes "cache_ok dev s" "cached dev (bufs s) blk b"
  shows "brefs dev (bufs s) blk = unat (refcnt (bufs s b))"
    and "bview dev (bufs s) (disk s) blk = (if valid (bufs s b) then buf_data (bufs s b) else disk s blk)"
    and "blk \<in> bheld dev (bufs s) \<longleftrightarrow> buf_lock (bufs s b) \<noteq> None"
    and "buf_lock (bufs s b) \<noteq> None \<Longrightarrow> refcnt (bufs s b) \<noteq> 0"
proof -
  have bok: "bufs_ok dev (bufs s) (disk s)" using assms(1) by (simp add: cache_ok_def)
  then show "brefs dev (bufs s) blk = unat (refcnt (bufs s b))"
    "bview dev (bufs s) (disk s) blk = (if valid (bufs s b) then buf_data (bufs s b) else disk s blk)"
    using slot_iff [OF bok, of blk b] assms(2) by (simp_all add: brefs_def bview_def)
  show "blk \<in> bheld dev (bufs s) \<longleftrightarrow> buf_lock (bufs s b) \<noteq> None"
    using assms(2) bok unfolding bheld_def bufs_ok_def by blast
  show "buf_lock (bufs s b) \<noteq> None \<Longrightarrow> refcnt (bufs s b) \<noteq> 0"
    using assms(2) bok by (auto simp: bufs_ok_def cached_def)
qed

lemma cache_get_spec:
  assumes ok: "cache_ok dev s" and room: "brefs dev (bufs s) blk \<noteq> 0 \<or> nfree (bufs s) \<noteq> 0"
    and lt: "brefs dev (bufs s) blk + 1 < 2 ^ 32"
  obtains b s' where "cache_get dev blk s = Ret (b, s')" "cached dev (bufs s') blk b"
    "cache_step dev me blk s s' (brefs dev (bufs s) blk + 1) (blk \<in> bheld dev (bufs s)) (bview dev (bufs s) (disk s) blk)"
    "disk s' = disk s" "disk_trace s' = disk_trace s"
    "buf_lock (bufs s' b) \<noteq> None \<longleftrightarrow> blk \<in> bheld dev (bufs s)"
proof -
  obtain b s1 where p: "cache_pick dev blk s = Ret (b, s1)" "cached dev (bufs s1) blk b" "cache_ok dev s1"
    "cache_rest s1 = cache_rest s" "disk s1 = disk s" "disk_trace s1 = disk_trace s"
    "bview dev (bufs s1) (disk s) = bview dev (bufs s) (disk s)" "brefs dev (bufs s1) = brefs dev (bufs s)"
    "bheld dev (bufs s1) = bheld dev (bufs s)" "nfree (bufs s1) = nfree (bufs s)"
    "\<And>b blk. bhandle dev me (bufs s) b = Some blk \<Longrightarrow> bhandle dev me (bufs s1) b = Some blk"
    by (rule cache_pick_spec [OF ok room, where me = me]) blast
  have bok: "bufs_ok dev (bufs s1) (disk s1)" using p(3) by (simp add: cache_ok_def)
  have sl: "slot dev (bufs s1) blk = Some b" using p(2) slot_iff [OF bok] by simp
  let ?x = "bufs s1 b"
  have refs: "brefs dev (bufs s) blk = unat (refcnt ?x)" using sl p(8) by (simp add: brefs_def flip: p(8))
  then have inc: "unat (refcnt ?x + 1) = unat (refcnt ?x) + 1" using lt by (simp add: unat_word_ariths)
  have lock: "buf_lock ?x \<noteq> None \<longleftrightarrow> blk \<in> bheld dev (bufs s)"
    using cache_ok_cached(3) [OF p(3,2)] p(9) by simp
  have vw: "(if valid ?x then buf_data ?x else disk s1 blk) = bview dev (bufs s) (disk s) blk"
    using sl p(5) by (simp add: bview_def flip: p(7))
  define s2 where "s2 = upd_buf b (\<lambda>x. x\<lparr>refcnt := refcnt x + 1\<rparr>) s1"
  have "refcnt ?x + 1 \<noteq> 0" using inc by auto
  then have "cache_step dev me blk s1 s2 (unat (refcnt ?x + 1)) (buf_lock ?x \<noteq> None)
      (if valid ?x then buf_data ?x else disk s1 blk)"
    using cache_step_upd [OF p(3,2), of "\<lambda>x. x\<lparr>refcnt := refcnt x + 1\<rparr>" me] p(2)
    by (cases "valid ?x") (simp_all add: cached_def s2_def)
  then have st: "cache_step dev me blk s s2 (brefs dev (bufs s) blk + 1) (blk \<in> bheld dev (bufs s)) (bview dev (bufs s) (disk s) blk)"
    unfolding inc refs [symmetric] lock vw using p(4,5,7-11) by (simp add: cache_step_def)
  obtain xs where xs: "dlist_abs buf_links (bufs s2) (cache s2) xs" "set xs = {..<NBUF}"
    using st by (auto simp: cache_step_def cache_ok_def)
  obtain l1 bs1 where rm: "dlist_remove buf_links b (cache s2) (bufs s2) = (l1, bs1)" by fastforce
  obtain l2 bs2 where pf: "dlist_push_front buf_links b l1 bs1 = (l2, bs2)" by fastforce
  have "b \<in> set xs" using p(2) xs(2) by (simp add: cached_def)
  then obtain ys where ys: "agree bs2 (bufs s2)" "dlist_abs buf_links bs2 l2 (b # ys)" "set (b # ys) = {..<NBUF}"
    using relink(1) [OF xs(1) _ rm pf] xs(2) by auto
  have get: "cache_get dev blk s = Ret (b, s2\<lparr>cache := l2, bufs := bs2\<rparr>)"
    using p(1) rm pf by (simp add: cache_get_pick s2_def)
  have same: "same_but_links (bs2 b) (bufs s2 b)" using ys(1) by (simp add: agree_def)
  show thesis
  proof (rule that [OF get])
    show "cache_step dev me blk s (s2\<lparr>cache := l2, bufs := bs2\<rparr>) (brefs dev (bufs s) blk + 1)
        (blk \<in> bheld dev (bufs s)) (bview dev (bufs s) (disk s) blk)"
      by (rule cache_step_relink [OF st ys])
  qed (use p same lock in \<open>auto simp: s2_def upd_buf_def cached_def same_but_links_def\<close>)
qed

lemma cache_step_trans:
  assumes "cache_step dev me blk s s1 r1 lk1 c1" "cache_step dev me blk s1 s2 r2 lk2 c2"
  shows "cache_step dev me blk s s2 r2 lk2 c2"
  using assms by (simp add: cache_step_def fun_upd_idem_iff split: if_splits)

lemma cache_read_spec:
  assumes ok: "cache_ok dev s" and room: "brefs dev (bufs s) blk \<noteq> 0 \<or> nfree (bufs s) \<noteq> 0"
    and lt: "brefs dev (bufs s) blk + 1 < 2 ^ 32" and held: "blk \<notin> bheld dev (bufs s)"
    and me: "pid (processes s cur) = me"
  shows "\<exists>b s'. cache_read cur dev blk s = Ret (b, s') \<and> bhandle dev me (bufs s') b = Some blk \<and>
    cache_step dev me blk s s' (brefs dev (bufs s) blk + 1) True (bview dev (bufs s) (disk s) blk) \<and>
    disk s' = disk s \<and> disk_trace s' = disk_trace s"
proof -
  obtain b s1 where g: "cache_get dev blk s = Ret (b, s1)" "cached dev (bufs s1) blk b"
    and st: "cache_step dev me blk s s1 (brefs dev (bufs s) blk + 1) (blk \<in> bheld dev (bufs s)) (bview dev (bufs s) (disk s) blk)"
    and d: "disk s1 = disk s" "disk_trace s1 = disk_trace s"
    and lock: "buf_lock (bufs s1 b) \<noteq> None \<longleftrightarrow> blk \<in> bheld dev (bufs s)"
    by (rule cache_get_spec [OF ok room lt])
  have ok1: "cache_ok dev s1" using st by (simp add: cache_step_def)
  let ?x = "bufs s1 b" and ?f = "\<lambda>x. if valid x then x\<lparr>buf_lock := Some me\<rparr>
     else x\<lparr>buf_lock := Some me, buf_data := disk s1 (blockno x), valid := True\<rparr>"
  have key: "buf_dev ?x = dev" "blockno ?x = blk" using g(2) by (simp_all add: cached_def)
  have refs: "unat (refcnt ?x) = brefs dev (bufs s) blk + 1"
    using cache_ok_cached(1) [OF ok1 g(2)] st by (simp add: cache_step_def)
  then have nz: "refcnt ?x \<noteq> 0" by auto
  have vw: "buf_data (?f ?x) = bview dev (bufs s) (disk s) blk"
    using cache_ok_cached(2) [OF ok1 g(2)] st key by (simp add: cache_step_def)
  have "cache_step dev me blk s1 (upd_buf b ?f s1) (brefs dev (bufs s) blk + 1) True (bview dev (bufs s) (disk s) blk)"
    using cache_step_upd [OF ok1 g(2), of ?f me] key nz refs vw by (cases "valid ?x") simp_all
  from cache_step_trans [OF st this]
  have "cache_step dev me blk s (upd_buf b ?f s1) (brefs dev (bufs s) blk + 1) True (bview dev (bufs s) (disk s) blk)" .
  moreover have "cache_read cur dev blk s = Ret (b, upd_buf b ?f s1)"
    using g lock held me cache_rest_pid [of s1 s cur] st by (cases "valid ?x") (simp_all add: cache_read_def buf_acquire_def disk_read_def upd_buf_def cache_step_def)
  moreover have "bhandle dev me (bufs (upd_buf b ?f s1)) b = Some blk"
    using g(2) by (auto simp: bhandle_cached upd_buf_def cached_def)
  ultimately show ?thesis using d by (auto simp: upd_buf_def)
qed

lemma cache_step_wakeup [simp]:
  "cache_step dev me blk s (wakeup cur c s') r lk k = cache_step dev me blk s s' r lk k"
  by (simp add: cache_step_def)

lemma upd_buf_release:
  "upd_buf b f (buf_release cur b s) = wakeup (Some cur) (Some (OnBuffer b)) (upd_buf b (\<lambda>x. f (x\<lparr>buf_lock := None\<rparr>)) s)"
  by (simp add: upd_buf_def buf_release_def wakeup_def Let_def)

lemma cache_write_spec:
  assumes ok: "cache_ok dev s" and h: "bhandle dev me (bufs s) b = Some blk" and me: "pid (processes s cur) = me"
  defines "c \<equiv> bview dev (bufs s) (disk s) blk"
  shows "\<exists>s'. cache_write cur b s = Ret s' \<and> bhandle dev me (bufs s') b = Some blk \<and>
    cache_step dev me blk s s' (brefs dev (bufs s) blk) True c \<and>
    disk s' = (disk s)(blk := c) \<and> disk_trace s' = disk_trace s @ [(blk, c)]"
proof -
  have cb: "cached dev (bufs s) blk b" "buf_lock (bufs s b) = Some me" "valid (bufs s b)"
    using h by (auto simp: bhandle_cached)
  have bok: "bufs_ok dev (bufs s) (disk s)" using ok by (simp add: cache_ok_def)
  have c: "c = buf_data (bufs s b)" using cache_ok_cached(2) [OF ok cb(1)] cb(3) by (simp add: c_def)
  have w: "cache_write cur b s = Ret (disk_write b s)" using cb me by (simp add: cache_write_def buf_holding_def)
  have key: "blockno (bufs s b) = blk" using cb(1) by (simp add: cached_def)
  have "bufs_ok dev (bufs s) ((disk s)(blk := c))"
    unfolding bufs_ok_def
  proof (intro conjI allI impI)
    fix i assume i: "i < NBUF" "refcnt (bufs s i) = 0" "buf_dev (bufs s i) = dev" "valid (bufs s i)"
    have "blockno (bufs s i) = blk \<Longrightarrow> i = b" using bok cb(1) i by (auto simp: bufs_ok_def cached_def)
    then show "buf_data (bufs s i) = ((disk s)(blk := c)) (blockno (bufs s i))"
      using bok i c by (auto simp: bufs_ok_def)
  qed (use bok in \<open>auto simp: bufs_ok_def\<close>)
  then have "cache_ok dev (disk_write b s)"
    using ok key c by (simp add: cache_ok_def disk_write_def Let_def)
  moreover have "bview dev (bufs s) ((disk s)(blk := c)) = (bview dev (bufs s) (disk s))(blk := c)"
  proof
    fix k show "bview dev (bufs s) ((disk s)(blk := c)) k = ((bview dev (bufs s) (disk s))(blk := c)) k"
      using slot_iff [OF bok, of blk b] cb c by (cases "k = blk") (simp_all add: bview_def split: option.splits)
  qed
  moreover have "blk \<in> bheld dev (bufs s)" using cache_ok_cached(3) [OF ok cb(1)] cb(2) by simp
  ultimately show ?thesis
    using w h key c by (simp add: cache_step_def disk_write_def Let_def cache_rest_def insert_absorb)
qed

lemma buf_set_data_spec:
  assumes ok: "cache_ok dev s" and h: "bhandle dev me (bufs s) b = Some blk"
  shows "cache_step dev me blk s (buf_set_data b d s) (brefs dev (bufs s) blk) True d"
    and "bhandle dev me (bufs (buf_set_data b d s)) b = Some blk"
    and "disk (buf_set_data b d s) = disk s" "disk_trace (buf_set_data b d s) = disk_trace s"
proof -
  have cb: "cached dev (bufs s) blk b" "buf_lock (bufs s b) = Some me" "valid (bufs s b)"
    using h by (auto simp: bhandle_cached)
  show "cache_step dev me blk s (buf_set_data b d s) (brefs dev (bufs s) blk) True d"
    using cache_step_upd [OF ok cb(1), of "\<lambda>x. x\<lparr>buf_data := d\<rparr>" me] cb
      cache_ok_cached(1,4) [OF ok cb(1)] by (simp add: buf_set_data_def cached_def)
qed (use h in \<open>simp_all add: buf_set_data_def upd_buf_def bhandle_def split: if_splits\<close>)

lemma cache_pin_spec:
  assumes ok: "cache_ok dev s" and h: "bhandle dev me (bufs s) b = Some blk"
    and lt: "brefs dev (bufs s) blk + 1 < 2 ^ 32"
  shows "cache_step dev me blk s (cache_pin b s) (brefs dev (bufs s) blk + 1) True (bview dev (bufs s) (disk s) blk)"
    and "bhandle dev me (bufs (cache_pin b s)) b = Some blk"
    and "disk (cache_pin b s) = disk s" "disk_trace (cache_pin b s) = disk_trace s"
proof -
  have cb: "cached dev (bufs s) blk b" "buf_lock (bufs s b) = Some me" "valid (bufs s b)"
    using h by (auto simp: bhandle_cached)
  have refs: "brefs dev (bufs s) blk = unat (refcnt (bufs s b))" using cache_ok_cached(1) [OF ok cb(1)] .
  then have inc: "unat (refcnt (bufs s b) + 1) = brefs dev (bufs s) blk + 1" using lt by (simp add: unat_word_ariths)
  then have "refcnt (bufs s b) + 1 \<noteq> 0" by auto
  then show "cache_step dev me blk s (cache_pin b s) (brefs dev (bufs s) blk + 1) True (bview dev (bufs s) (disk s) blk)"
    using cache_step_upd [OF ok cb(1), of "\<lambda>x. x\<lparr>refcnt := refcnt x + 1\<rparr>" me] cb inc
      cache_ok_cached(2) [OF ok cb(1)] by (simp add: cache_pin_def cached_def)
qed (use h in \<open>simp_all add: cache_pin_def upd_buf_def bhandle_def split: if_splits\<close>)

lemma cache_unpin_spec:
  assumes ok: "cache_ok dev s" and h: "bhandle dev me (bufs s) b = Some blk"
    and gt: "1 < brefs dev (bufs s) blk"
  shows "\<exists>s'. cache_unpin b s = Ret s' \<and> bhandle dev me (bufs s') b = Some blk \<and>
    cache_step dev me blk s s' (brefs dev (bufs s) blk - 1) True (bview dev (bufs s) (disk s) blk) \<and>
    disk s' = disk s \<and> disk_trace s' = disk_trace s"
proof -
  have cb: "cached dev (bufs s) blk b" "buf_lock (bufs s b) = Some me" "valid (bufs s b)"
    using h by (auto simp: bhandle_cached)
  have refs: "brefs dev (bufs s) blk = unat (refcnt (bufs s b))" using cache_ok_cached(1) [OF ok cb(1)] .
  then have nz: "refcnt (bufs s b) \<noteq> 0" using gt by auto
  then have dec: "unat (refcnt (bufs s b) - 1) = brefs dev (bufs s) blk - 1" using refs by (simp add: unat_minus_one)
  then have "refcnt (bufs s b) - 1 \<noteq> 0" using gt by auto
  then show ?thesis
    using cache_step_upd [OF ok cb(1), of "\<lambda>x. x\<lparr>refcnt := refcnt x - 1\<rparr>" me] cb dec nz h
      cache_ok_cached(2) [OF ok cb(1)]
    by (simp add: cache_unpin_def cached_def) (simp add: upd_buf_def bhandle_def split: if_splits)
qed

lemma cache_relse_spec:
  assumes ok: "cache_ok dev s" and h: "bhandle dev me (bufs s) b = Some blk" and me: "pid (processes s cur) = me"
    and clean: "brefs dev (bufs s) blk = 1 \<Longrightarrow> bview dev (bufs s) (disk s) blk = disk s blk"
  shows "\<exists>s'. cache_relse cur b s = Ret s' \<and>
    cache_step dev me blk s s' (brefs dev (bufs s) blk - 1) False (bview dev (bufs s) (disk s) blk) \<and>
    disk s' = disk s \<and> disk_trace s' = disk_trace s"
proof -
  have cb: "cached dev (bufs s) blk b" "buf_lock (bufs s b) = Some me" "valid (bufs s b)"
    using h by (auto simp: bhandle_cached)
  note cc = cache_ok_cached [OF ok cb(1)]
  have nz: "refcnt (bufs s b) \<noteq> 0" using cc(4) cb(2) by simp
  then have dec: "unat (refcnt (bufs s b) - 1) = brefs dev (bufs s) blk - 1" using cc(1) by (simp add: unat_minus_one)
  let ?f = "\<lambda>x. x\<lparr>buf_lock := None, refcnt := refcnt x - 1\<rparr>"
  have "refcnt (bufs s b) - 1 = 0 \<Longrightarrow> brefs dev (bufs s) blk = 1" using cc(1) by simp
  then have st: "cache_step dev me blk s (upd_buf b ?f s) (brefs dev (bufs s) blk - 1) False (bview dev (bufs s) (disk s) blk)"
    using cache_step_upd [OF ok cb(1), of ?f me] cb dec cc(2) clean by (simp add: cached_def)
  define s1 where "s1 = upd_buf b (\<lambda>x. x\<lparr>refcnt := refcnt x - 1\<rparr>) (buf_release cur b s)"
  have s1: "s1 = wakeup (Some cur) (Some (OnBuffer b)) (upd_buf b ?f s)" by (simp add: s1_def upd_buf_release)
  have d: "disk s1 = disk s" "disk_trace s1 = disk_trace s" by (simp_all add: s1 upd_buf_def)
  have st1: "cache_step dev me blk s s1 (brefs dev (bufs s) blk - 1) False (bview dev (bufs s) (disk s) blk)"
    using st by (simp add: s1)
  have hold: "buf_holding cur b s" using cb me by (simp add: buf_holding_def)
  show ?thesis
  proof (cases "refcnt (bufs s1 b) = 0")
    case True
    obtain xs where xs: "dlist_abs buf_links (bufs s1) (cache s1) xs" "set xs = {..<NBUF}"
      using st1 by (auto simp: cache_step_def cache_ok_def)
    obtain l1 bs1 where rm: "dlist_remove buf_links b (cache s1) (bufs s1) = (l1, bs1)" by fastforce
    obtain l2 bs2 where pb: "dlist_push_back buf_links b l1 bs1 = (l2, bs2)" by fastforce
    have "b \<in> set xs" using cb(1) xs(2) by (simp add: cached_def)
    then obtain ys where ys: "agree bs2 (bufs s1)" "dlist_abs buf_links bs2 l2 (ys @ [b])" "set (ys @ [b]) = {..<NBUF}"
      using relink(2) [OF xs(1) _ rm pb] xs(2) by auto
    have "cache_relse cur b s = Ret (s1\<lparr>cache := l2, bufs := bs2\<rparr>)"
      using hold rm pb True by (simp add: cache_relse_def s1_def [symmetric])
    then show ?thesis using cache_step_relink [OF st1 ys] d by simp
  next
    case False
    then have "cache_relse cur b s = Ret s1" using hold by (simp add: cache_relse_def s1_def [symmetric])
    then show ?thesis using st1 d by simp
  qed
qed

section \<open>The interface\<close>

text \<open>
  What the log and the file system rely on. A block has a view (its contents for readers) and a
  number of references; reading it gives a handle and takes its lock; \<open>stp\<close> is the common effect of
  an operation on one block.
\<close>

locale block_cache =
  fixes bread :: "u32 \<Rightarrow> 's \<Rightarrow> ('h \<times> 's) res"
    and bwrite :: "'h \<Rightarrow> 's \<Rightarrow> 's res"
    and brelse :: "'h \<Rightarrow> 's \<Rightarrow> 's res"
    and bunpin :: "'h \<Rightarrow> 's \<Rightarrow> 's res"
    and bset :: "'h \<Rightarrow> block \<Rightarrow> 's \<Rightarrow> 's"
    and bdata :: "'h \<Rightarrow> 's \<Rightarrow> block"
    and inv :: "'s \<Rightarrow> bool"
    and view :: "'s \<Rightarrow> u32 \<Rightarrow> block"
    and refs :: "'s \<Rightarrow> u32 \<Rightarrow> nat"
    and held :: "'s \<Rightarrow> u32 set"
    and free :: "'s \<Rightarrow> nat"
    and handle :: "'s \<Rightarrow> 'h \<Rightarrow> u32 option"
    and dsk :: "'s \<Rightarrow> u32 \<Rightarrow> block"
    and trace :: "'s \<Rightarrow> (u32 \<times> block) list"
    and rest :: "'s \<Rightarrow> 'r"
    and stp :: "u32 \<Rightarrow> 's \<Rightarrow> 's \<Rightarrow> nat \<Rightarrow> bool \<Rightarrow> block \<Rightarrow> bool"
  assumes stp: "stp blk s s' r lk c \<Longrightarrow> inv s' \<and> rest s' = rest s \<and> view s' = (view s)(blk := c) \<and>
      refs s' = (refs s)(blk := r) \<and> held s' = (if lk then insert blk (held s) else held s - {blk}) \<and>
      free s' + (if refs s blk = 0 then 1 else 0) = free s + (if r = 0 then 1 else 0)"
    and stp_handle: "stp blk s s' r lk c \<Longrightarrow> blk' \<noteq> blk \<Longrightarrow> handle s b = Some blk' \<Longrightarrow> handle s' b = Some blk'"
    and handle_view: "inv s \<Longrightarrow> handle s b = Some blk \<Longrightarrow> bdata b s = view s blk \<and> 0 < refs s blk"
    and clean: "inv s \<Longrightarrow> refs s blk = 0 \<Longrightarrow> view s blk = dsk s blk"
    and bread: "inv s \<Longrightarrow> blk \<notin> held s \<Longrightarrow> refs s blk \<noteq> 0 \<or> free s \<noteq> 0 \<Longrightarrow> refs s blk + 1 < 2 ^ 32 \<Longrightarrow>
      \<exists>b s'. bread blk s = Ret (b, s') \<and> handle s' b = Some blk \<and> stp blk s s' (refs s blk + 1) True (view s blk) \<and>
        dsk s' = dsk s \<and> trace s' = trace s"
    and bset: "inv s \<Longrightarrow> handle s b = Some blk \<Longrightarrow> stp blk s (bset b d s) (refs s blk) True d \<and>
        handle (bset b d s) b = Some blk \<and> dsk (bset b d s) = dsk s \<and> trace (bset b d s) = trace s"
    and bwrite: "inv s \<Longrightarrow> handle s b = Some blk \<Longrightarrow> \<exists>s'. bwrite b s = Ret s' \<and> handle s' b = Some blk \<and>
        stp blk s s' (refs s blk) True (view s blk) \<and> dsk s' = (dsk s)(blk := view s blk) \<and>
        trace s' = trace s @ [(blk, view s blk)]"
    and bunpin: "inv s \<Longrightarrow> handle s b = Some blk \<Longrightarrow> 1 < refs s blk \<Longrightarrow>
      \<exists>s'. bunpin b s = Ret s' \<and> handle s' b = Some blk \<and> stp blk s s' (refs s blk - 1) True (view s blk) \<and>
        dsk s' = dsk s \<and> trace s' = trace s"
    and brelse: "inv s \<Longrightarrow> handle s b = Some blk \<Longrightarrow> (refs s blk = 1 \<Longrightarrow> view s blk = dsk s blk) \<Longrightarrow>
      \<exists>s'. brelse b s = Ret s' \<and> stp blk s s' (refs s blk - 1) False (view s blk) \<and>
        dsk s' = dsk s \<and> trace s' = trace s"

definition cache_inv :: "nat \<Rightarrow> u32 \<Rightarrow> u32 \<Rightarrow> 'a bcache_scheme \<Rightarrow> bool" where
  "cache_inv cur me dev s \<longleftrightarrow> cache_ok dev s \<and> pid (processes s cur) = me"

interpretation kernel_cache: block_cache "cache_read cur dev" "cache_write cur" "cache_relse cur" cache_unpin
    buf_set_data "\<lambda>b s. buf_data (bufs s b)" "cache_inv cur me dev" "\<lambda>s. bview dev (bufs s) (disk s)"
    "\<lambda>s. brefs dev (bufs s)" "\<lambda>s. bheld dev (bufs s)" "\<lambda>s. nfree (bufs s)"
    "\<lambda>s. bhandle dev me (bufs s)" disk disk_trace cache_rest
    "\<lambda>blk s s' r lk c. cache_step dev me blk s s' r lk c \<and> pid (processes s cur) = me"
  for cur :: nat and me dev :: u32
proof
  fix s s' :: "'a bcache_scheme" and blk blk' r lk c b d
  show "cache_step dev me blk s s' r lk c \<and> pid (processes s cur) = me \<Longrightarrow> cache_inv cur me dev s' \<and> cache_rest s' = cache_rest s \<and>
      bview dev (bufs s') (disk s') = (bview dev (bufs s) (disk s))(blk := c) \<and>
      brefs dev (bufs s') = (brefs dev (bufs s))(blk := r) \<and>
      bheld dev (bufs s') = (if lk then insert blk (bheld dev (bufs s)) else bheld dev (bufs s) - {blk}) \<and>
      nfree (bufs s') + (if brefs dev (bufs s) blk = 0 then 1 else 0) = nfree (bufs s) + (if r = 0 then 1 else 0)"
    using cache_rest_pid [of s' s cur] by (simp add: cache_step_def cache_inv_def)
  show "cache_step dev me blk s s' r lk c \<and> pid (processes s cur) = me \<Longrightarrow> blk' \<noteq> blk \<Longrightarrow> bhandle dev me (bufs s) b = Some blk' \<Longrightarrow>
      bhandle dev me (bufs s') b = Some blk'" by (simp add: cache_step_def)
  show "cache_inv cur me dev s \<Longrightarrow> bhandle dev me (bufs s) b = Some blk \<Longrightarrow>
      buf_data (bufs s b) = bview dev (bufs s) (disk s) blk \<and> 0 < brefs dev (bufs s) blk"
    using cache_ok_cached [of dev s blk b] by (auto simp: cache_inv_def bhandle_cached unat_gt_0)
  show "cache_inv cur me dev s \<Longrightarrow> brefs dev (bufs s) blk = 0 \<Longrightarrow> bview dev (bufs s) (disk s) blk = disk s blk"
    using slot_iff [of dev "bufs s" "disk s" blk]
    by (auto simp: cache_inv_def cache_ok_def bview_def brefs_def bufs_ok_def cached_def unat_eq_zero split: option.splits)
  show "cache_inv cur me dev s \<Longrightarrow> bhandle dev me (bufs s) b = Some blk \<Longrightarrow>
      (cache_step dev me blk s (buf_set_data b d s) (brefs dev (bufs s) blk) True d \<and> pid (processes s cur) = me) \<and>
      bhandle dev me (bufs (buf_set_data b d s)) b = Some blk \<and> disk (buf_set_data b d s) = disk s \<and>
      disk_trace (buf_set_data b d s) = disk_trace s"
    using buf_set_data_spec [of dev s me b blk d] by (simp add: cache_inv_def)
qed (unfold cache_inv_def, (elim conjE, simp only: simp_thms,
    rule cache_read_spec cache_write_spec cache_unpin_spec cache_relse_spec, assumption+)+)

section \<open>Common uses of buffers\<close>

text \<open>
  The patterns in which the log and the file system use blocks, with the buffer guards' releases in
  the order of their destructors: change a block and write it through, and copy one block over
  another, reading the target or the source first.
\<close>

definition blk_update ::
  "(u32 \<Rightarrow> 's \<Rightarrow> ('h \<times> 's) res) \<Rightarrow> ('h \<Rightarrow> 's \<Rightarrow> 's res) \<Rightarrow> ('h \<Rightarrow> 's \<Rightarrow> 's res) \<Rightarrow>
   ('h \<Rightarrow> block \<Rightarrow> 's \<Rightarrow> 's) \<Rightarrow> ('h \<Rightarrow> 's \<Rightarrow> block) \<Rightarrow> u32 \<Rightarrow> (block \<Rightarrow> block) \<Rightarrow> 's \<Rightarrow> 's res" where
  "blk_update rd wr rl st dt blk f s =
     kbind (rd blk s) (\<lambda>(b, s). kbind (wr b (st b (f (dt b s)) s)) (\<lambda>s. rl b s))"

definition blk_copy_to ::
  "(u32 \<Rightarrow> 's \<Rightarrow> ('h \<times> 's) res) \<Rightarrow> ('h \<Rightarrow> 's \<Rightarrow> 's res) \<Rightarrow> ('h \<Rightarrow> 's \<Rightarrow> 's res) \<Rightarrow>
   ('h \<Rightarrow> block \<Rightarrow> 's \<Rightarrow> 's) \<Rightarrow> ('h \<Rightarrow> 's \<Rightarrow> block) \<Rightarrow> u32 \<Rightarrow> u32 \<Rightarrow> 's \<Rightarrow> 's res" where
  "blk_copy_to rd wr rl st dt dst src s =
     kbind (rd dst s) (\<lambda>(t, s). kbind (rd src s) (\<lambda>(f, s).
       kbind (wr t (st t (dt f s) s)) (\<lambda>s. kbind (rl f s) (\<lambda>s. rl t s))))"

definition blk_copy_from ::
  "(u32 \<Rightarrow> 's \<Rightarrow> ('h \<times> 's) res) \<Rightarrow> ('h \<Rightarrow> 's \<Rightarrow> 's res) \<Rightarrow> ('h \<Rightarrow> 's \<Rightarrow> 's res) \<Rightarrow> ('h \<Rightarrow> 's \<Rightarrow> 's res) \<Rightarrow>
   ('h \<Rightarrow> block \<Rightarrow> 's \<Rightarrow> 's) \<Rightarrow> ('h \<Rightarrow> 's \<Rightarrow> block) \<Rightarrow> bool \<Rightarrow> u32 \<Rightarrow> u32 \<Rightarrow> 's \<Rightarrow> 's res" where
  "blk_copy_from rd wr rl up st dt keep src dst s =
     kbind (rd src s) (\<lambda>(l, s). kbind (rd dst s) (\<lambda>(d, s).
       kbind (wr d (st d (dt l s) s)) (\<lambda>s. kbind (if \<not> keep then up d s else Ret s) (\<lambda>s.
         kbind (rl d s) (\<lambda>s. rl l s)))))"

context block_cache
begin

text \<open>A block written through: contents, disk and history; everything else is as it was.\<close>

definition wrote :: "'s \<Rightarrow> 's \<Rightarrow> u32 \<Rightarrow> block \<Rightarrow> nat \<Rightarrow> bool" where
  "wrote s s' blk c k \<longleftrightarrow> inv s' \<and> rest s' = rest s \<and> view s' = (view s)(blk := c) \<and>
     refs s' = (refs s)(blk := refs s blk - k) \<and> held s' = held s \<and>
     free s' = free s + (if 0 < k \<and> refs s blk = k then 1 else 0) \<and>
     dsk s' = (dsk s)(blk := c) \<and> trace s' = trace s @ [(blk, c)]"

lemma blk_update_wrote:
  assumes "inv s" "blk \<notin> held s" "refs s blk \<noteq> 0 \<or> free s \<noteq> 0" "refs s blk + 1 < 2 ^ 32"
  shows "\<exists>s'. blk_update bread bwrite brelse bset bdata blk f s = Ret s' \<and> wrote s s' blk (f (view s blk)) 0"
proof -
  obtain b s1 where 1: "bread blk s = Ret (b, s1)" "handle s1 b = Some blk"
    "stp blk s s1 (refs s blk + 1) True (view s blk)" "dsk s1 = dsk s" "trace s1 = trace s"
    using bread [OF assms] by blast
  note e1 = stp [OF 1(3)]
  let ?c = "f (view s blk)"
  define s2 where "s2 = bset b ?c s1"
  have dt: "bdata b s1 = view s blk" using handle_view [of s1 b blk] 1(2) e1 by simp
  have 2: "stp blk s1 s2 (refs s1 blk) True ?c" "handle s2 b = Some blk" "dsk s2 = dsk s1" "trace s2 = trace s1"
    using bset [of s1 b blk ?c] 1(2) e1 by (simp_all add: s2_def)
  note e2 = stp [OF 2(1)]
  obtain s3 where 3: "bwrite b s2 = Ret s3" "handle s3 b = Some blk" "stp blk s2 s3 (refs s2 blk) True (view s2 blk)"
    "dsk s3 = (dsk s2)(blk := view s2 blk)" "trace s3 = trace s2 @ [(blk, view s2 blk)]"
    using bwrite [of s2 b blk] e2 2(2) by blast
  note e3 = stp [OF 3(3)]
  have "view s3 blk = dsk s3 blk" using e3 3(4) by simp
  then obtain s4 where 4: "brelse b s3 = Ret s4" "stp blk s3 s4 (refs s3 blk - 1) False (view s3 blk)"
    "dsk s4 = dsk s3" "trace s4 = trace s3"
    using brelse [of s3 b blk] e3 3(2) by blast
  note e4 = stp [OF 4(2)]
  have "blk_update bread bwrite brelse bset bdata blk f s = Ret s4"
    using 1(1) 3(1) 4(1) dt by (simp add: blk_update_def s2_def)
  moreover have "wrote s s4 blk ?c 0"
    using e1 e2 e3 e4 1 2 3 4 assms(2) by (simp add: wrote_def fun_upd_idem_iff)
  ultimately show ?thesis by blast
qed

text \<open>Two buffers open at once: room for both, and the two blocks.\<close>

definition room2 :: "'s \<Rightarrow> u32 \<Rightarrow> u32 \<Rightarrow> bool" where
  "room2 s x y \<longleftrightarrow> x \<noteq> y \<and> x \<notin> held s \<and> y \<notin> held s \<and> refs s x + 1 < 2 ^ 32 \<and> refs s y + 1 < 2 ^ 32 \<and>
     (if refs s x = 0 then 1 else 0) + (if refs s y = 0 then 1 else 0) \<le> free s"

lemma open_two:
  assumes "inv s" "room2 s x y"
  obtains a b s1 s2 where "bread x s = Ret (a, s1)" "bread y s1 = Ret (b, s2)" "inv s2"
    "handle s2 a = Some x" "handle s2 b = Some y" "bdata a s2 = view s x" "bdata b s2 = view s y"
    "rest s2 = rest s" "view s2 = view s" "dsk s2 = dsk s" "trace s2 = trace s"
    "refs s2 = (refs s)(x := refs s x + 1, y := refs s y + 1)" "held s2 = insert x (insert y (held s))"
    "free s2 + (if refs s x = 0 then 1 else 0) + (if refs s y = 0 then 1 else 0) = free s"
proof -
  have r: "x \<noteq> y" "x \<notin> held s" "y \<notin> held s" "refs s x + 1 < 2 ^ 32" "refs s y + 1 < 2 ^ 32"
    "(if refs s x = 0 then 1 else 0) + (if refs s y = 0 then 1 else 0) \<le> free s"
    using assms(2) by (auto simp: room2_def)
  have "refs s x \<noteq> 0 \<or> free s \<noteq> 0" using r(6) by (auto split: if_splits)
  then obtain a s1 where 1: "bread x s = Ret (a, s1)" "handle s1 a = Some x"
    "stp x s s1 (refs s x + 1) True (view s x)" "dsk s1 = dsk s" "trace s1 = trace s"
    using bread [OF assms(1) r(2) _ r(4)] by blast
  note e1 = stp [OF 1(3)]
  have "refs s1 y \<noteq> 0 \<or> free s1 \<noteq> 0" using e1 r by (auto split: if_splits)
  then obtain b s2 where 2: "bread y s1 = Ret (b, s2)" "handle s2 b = Some y"
    "stp y s1 s2 (refs s1 y + 1) True (view s1 y)" "dsk s2 = dsk s1" "trace s2 = trace s1"
    using bread [of s1 y] e1 r by auto
  note e2 = stp [OF 2(3)]
  have h: "handle s2 a = Some x" using stp_handle [OF 2(3) r(1) 1(2)] .
  have fr: "free s2 + (if refs s x = 0 then 1 else 0) + (if refs s y = 0 then 1 else 0) = free s"
    using e1 e2 r(1) by (auto split: if_splits)
  show thesis
  proof (rule that [OF 1(1) 2(1) _ h 2(2)])
    show "bdata a s2 = view s x" "bdata b s2 = view s y"
      using handle_view [OF _ h] handle_view [OF _ 2(2)] e1 e2 by simp_all
  qed (use e1 e2 1 2 r fr in auto)
qed

lemma blk_copy_to_wrote:
  assumes "inv s" "room2 s dst src"
  shows "\<exists>s'. blk_copy_to bread bwrite brelse bset bdata dst src s = Ret s' \<and> wrote s s' dst (view s src) 0"
proof -
  have ne: "dst \<noteq> src" and nh: "dst \<notin> held s" "src \<notin> held s" using assms(2) by (auto simp: room2_def)
  obtain t f s1 s2 where o: "bread dst s = Ret (t, s1)" "bread src s1 = Ret (f, s2)" "inv s2"
    "handle s2 t = Some dst" "handle s2 f = Some src" "bdata t s2 = view s dst" "bdata f s2 = view s src"
    "rest s2 = rest s" "view s2 = view s" "dsk s2 = dsk s" "trace s2 = trace s"
    "refs s2 = (refs s)(dst := refs s dst + 1, src := refs s src + 1)" "held s2 = insert dst (insert src (held s))"
    "free s2 + (if refs s dst = 0 then 1 else 0) + (if refs s src = 0 then 1 else 0) = free s"
    by (rule open_two [OF assms])
  let ?c = "view s src"
  define s3 where "s3 = bset t ?c s2"
  have 3: "stp dst s2 s3 (refs s2 dst) True ?c" "handle s3 t = Some dst" "dsk s3 = dsk s2" "trace s3 = trace s2"
    using bset [OF o(3,4), of ?c] by (simp_all add: s3_def)
  note e3 = stp [OF 3(1)]
  obtain s4 where 4: "bwrite t s3 = Ret s4" "handle s4 t = Some dst" "stp dst s3 s4 (refs s3 dst) True (view s3 dst)"
    "dsk s4 = (dsk s3)(dst := view s3 dst)" "trace s4 = trace s3 @ [(dst, view s3 dst)]"
    using bwrite [of s3 t dst] e3 3(2) by blast
  note e4 = stp [OF 4(3)]
  have f4: "handle s4 f = Some src"
    using stp_handle [OF 4(3) ne [symmetric] stp_handle [OF 3(1) ne [symmetric] o(5)]] .
  have "refs s4 src = 1 \<Longrightarrow> view s4 src = dsk s4 src"
    using clean [OF assms(1), of src] e3 e4 3 4 o ne by simp
  then obtain s5 where 5: "brelse f s4 = Ret s5" "stp src s4 s5 (refs s4 src - 1) False (view s4 src)"
    "dsk s5 = dsk s4" "trace s5 = trace s4" using brelse [of s4 f src] e4 f4 by blast
  note e5 = stp [OF 5(2)]
  have t5: "handle s5 t = Some dst" using stp_handle [OF 5(2) ne 4(2)] .
  have "view s5 dst = dsk s5 dst" using e3 e4 e5 4 5 ne by simp
  then obtain s6 where 6: "brelse t s5 = Ret s6" "stp dst s5 s6 (refs s5 dst - 1) False (view s5 dst)"
    "dsk s6 = dsk s5" "trace s6 = trace s5" using brelse [of s5 t dst] e5 t5 by blast
  note e6 = stp [OF 6(2)]
  have "blk_copy_to bread bwrite brelse bset bdata dst src s = Ret s6"
    using o(1,2,7) 4(1) 5(1) 6(1) by (simp add: blk_copy_to_def s3_def)
  moreover have "wrote s s6 dst ?c 0"
    unfolding wrote_def
  proof (intro conjI)
    show "view s6 = (view s)(dst := ?c)" "refs s6 = (refs s)(dst := refs s dst - 0)" "held s6 = held s"
      using e3 e4 e5 e6 o ne nh by (auto simp: fun_eq_iff)
    show "free s6 = free s + (if (0::nat) < 0 \<and> refs s dst = 0 then 1 else 0)"
      using e3 e4 e5 e6 o(12,14) ne by (simp split: if_splits)
  qed (use e3 e4 e5 e6 3 4 5 6 o in simp_all)
  ultimately show ?thesis by blast
qed

lemma blk_copy_from_wrote:
  assumes "inv s" "room2 s src dst" "\<not> keep \<Longrightarrow> 0 < refs s dst"
  shows "\<exists>s'. blk_copy_from bread bwrite brelse bunpin bset bdata keep src dst s = Ret s' \<and>
    wrote s s' dst (view s src) (if keep then 0 else 1)"
proof -
  have ne: "dst \<noteq> src" and nh: "dst \<notin> held s" "src \<notin> held s" using assms(2) by (auto simp: room2_def)
  obtain l d s1 s2 where o: "bread src s = Ret (l, s1)" "bread dst s1 = Ret (d, s2)" "inv s2"
    "handle s2 l = Some src" "handle s2 d = Some dst" "bdata l s2 = view s src" "bdata d s2 = view s dst"
    "rest s2 = rest s" "view s2 = view s" "dsk s2 = dsk s" "trace s2 = trace s"
    "refs s2 = (refs s)(src := refs s src + 1, dst := refs s dst + 1)" "held s2 = insert src (insert dst (held s))"
    "free s2 + (if refs s src = 0 then 1 else 0) + (if refs s dst = 0 then 1 else 0) = free s"
    by (rule open_two [OF assms(1,2)])
  let ?c = "view s src" and ?k = "if keep then 0 else 1 :: nat"
  define s3 where "s3 = bset d ?c s2"
  have 3: "stp dst s2 s3 (refs s2 dst) True ?c" "handle s3 d = Some dst" "dsk s3 = dsk s2" "trace s3 = trace s2"
    using bset [OF o(3,5), of ?c] by (simp_all add: s3_def)
  note e3 = stp [OF 3(1)]
  obtain s4 where 4: "bwrite d s3 = Ret s4" "handle s4 d = Some dst" "stp dst s3 s4 (refs s3 dst) True (view s3 dst)"
    "dsk s4 = (dsk s3)(dst := view s3 dst)" "trace s4 = trace s3 @ [(dst, view s3 dst)]"
    using bwrite [of s3 d dst] e3 3(2) by blast
  note e4 = stp [OF 4(3)]
  have l4: "handle s4 l = Some src"
    using stp_handle [OF 4(3) ne [symmetric] stp_handle [OF 3(1) ne [symmetric] o(4)]] .
  have r4: "refs s4 dst = refs s dst + 1" using e3 e4 o by simp
  obtain s5 where 5: "(if \<not> keep then bunpin d s4 else Ret s4) = Ret s5" "handle s5 d = Some dst" "handle s5 l = Some src"
    "inv s5" "rest s5 = rest s4" "view s5 = view s4" "refs s5 = (refs s4)(dst := refs s4 dst - ?k)" "held s5 = held s4"
    "free s5 = free s4" "dsk s5 = dsk s4" "trace s5 = trace s4"
  proof (cases keep)
    case True
    then show ?thesis using that [of s4] e4 4 l4 by simp
  next
    case False
    then have "1 < refs s4 dst" using assms(3) r4 by simp
    then obtain s5 where 5: "bunpin d s4 = Ret s5" "handle s5 d = Some dst" "stp dst s4 s5 (refs s4 dst - 1) True (view s4 dst)"
      "dsk s5 = dsk s4" "trace s5 = trace s4" using bunpin [of s4 d dst] e4 4(2) by blast
    show ?thesis
      using that [of s5] stp [OF 5(3)] stp_handle [OF 5(3) ne [symmetric] l4] 5 False e3 e4 o(12,13) r4 \<open>1 < refs s4 dst\<close>
      by (auto simp: insert_absorb)
  qed
  have vd: "view s5 dst = dsk s5 dst" using e3 e4 4 5 by simp
  obtain s6 where 6: "brelse d s5 = Ret s6" "stp dst s5 s6 (refs s5 dst - 1) False (view s5 dst)"
    "dsk s6 = dsk s5" "trace s6 = trace s5" using brelse [OF 5(4) 5(2)] vd by blast
  note e6 = stp [OF 6(2)]
  have l6: "handle s6 l = Some src" using stp_handle [OF 6(2) ne [symmetric] 5(3)] .
  have "refs s6 src = 1 \<Longrightarrow> view s6 src = dsk s6 src"
    using clean [OF assms(1), of src] e3 e4 e6 3 4 5 6 o ne by simp
  then obtain s7 where 7: "brelse l s6 = Ret s7" "stp src s6 s7 (refs s6 src - 1) False (view s6 src)"
    "dsk s7 = dsk s6" "trace s7 = trace s6" using brelse [of s6 l src] e6 l6 by blast
  note e7 = stp [OF 7(2)]
  have "blk_copy_from bread bwrite brelse bunpin bset bdata keep src dst s = Ret s7"
    using o(1,2,6) 4(1) 5(1) 6(1) 7(1) by (simp add: blk_copy_from_def s3_def)
  moreover have "wrote s s7 dst ?c ?k"
    unfolding wrote_def
  proof (intro conjI)
    show "view s7 = (view s)(dst := ?c)" "refs s7 = (refs s)(dst := refs s dst - ?k)" "held s7 = held s"
      using e3 e4 e6 e7 5 o ne nh by (auto simp: fun_eq_iff)
    show "free s7 = free s + (if 0 < ?k \<and> refs s dst = ?k then 1 else 0)"
      using e3 e4 e6 e7 5(7,9) o(12,14) ne assms(3) by (cases keep) (simp_all split: if_splits)
  qed (use e3 e4 e6 e7 3 4 5 6 7 o in simp_all)
  ultimately show ?thesis by blast
qed

end

end
