(* ===== verification/File_System_Log.thy ===== *)
theory File_System_Log
  imports Buffer_Cache
begin

text \<open>
  \<^verbatim>\<open>kernel/file_system_log.cpp\<close>: the write-ahead log that makes a group of block writes atomic
  across a crash. The header is an in-memory list of block numbers with an on-disk copy in the
  first log block; the log blocks follow it. Waiting in \<open>begin_op\<close> is the outcome \<open>Blocked\<close>.
\<close>

section \<open>State and operations\<close>

record fslog = bcache +
  log_start :: int
  log_size :: int
  log_outstanding :: int
  log_committing :: bool
  log_dev :: u32
  log_n :: int
  log_block :: "nat \<Rightarrow> u32"

text \<open>The log block number \<open>start + tail + 1\<close>.\<close>

definition log_blk :: "int \<Rightarrow> nat \<Rightarrow> u32" where
  "log_blk start tail = word_of_int (start + int tail + 1)"

definition head_blk :: "int \<Rightarrow> u32" where
  "head_blk start = word_of_int start"

text \<open>The header in a block: \<^verbatim>\<open>n\<close> at offset 0, \<^verbatim>\<open>block[i]\<close> at offset \<open>4 + 4 * i\<close>.\<close>

fun put_entries :: "nat \<Rightarrow> nat \<Rightarrow> (nat \<Rightarrow> u32) \<Rightarrow> block \<Rightarrow> block" where
  "put_entries 0 i bl d = d"
| "put_entries (Suc k) i bl d = put_entries k (Suc i) bl (put32 (4 + 4 * i) (bl i) d)"

definition put_header :: "int \<Rightarrow> (nat \<Rightarrow> u32) \<Rightarrow> block \<Rightarrow> block" where
  "put_header n bl d = put_entries (nat n) 0 bl (put32 0 (word_of_int n) d)"

definition write_head :: "nat \<Rightarrow> 'a fslog_scheme \<Rightarrow> 'a fslog_scheme res" where
  "write_head cur s =
     kbind (cache_read cur (log_dev s) (head_blk (log_start s)) s) (\<lambda>(b, s1).
     kbind (cache_write cur b (buf_set_data b (put_header (log_n s) (log_block s) (buf_data (bufs s1 b))) s1)) (\<lambda>s2.
       cache_relse cur b s2))"

definition read_head :: "nat \<Rightarrow> 'a fslog_scheme \<Rightarrow> 'a fslog_scheme res" where
  "read_head cur s =
     kbind (cache_read cur (log_dev s) (head_blk (log_start s)) s) (\<lambda>(b, s1).
       let d = buf_data (bufs s1 b); n = sint (get32 0 d) in
       cache_relse cur b (s1\<lparr>log_n := n,
         log_block := (\<lambda>i. if i < nat n then get32 (4 + 4 * i) d else log_block s1 i)\<rparr>))"

fun write_log_loop :: "nat \<Rightarrow> nat \<Rightarrow> nat \<Rightarrow> 'a fslog_scheme \<Rightarrow> 'a fslog_scheme res" where
  "write_log_loop cur 0 tail s = Ret s"
| "write_log_loop cur (Suc k) tail s =
     kbind (cache_read cur (log_dev s) (log_blk (log_start s) tail) s) (\<lambda>(t, s1).
     kbind (cache_read cur (log_dev s) (log_block s tail) s1) (\<lambda>(f, s2).
     kbind (cache_write cur t (buf_set_data t (buf_data (bufs s2 f)) s2)) (\<lambda>s3.
     kbind (cache_relse cur f s3) (\<lambda>s4.
     kbind (cache_relse cur t s4) (\<lambda>s5. write_log_loop cur k (Suc tail) s5)))))"

definition write_log :: "nat \<Rightarrow> 'a fslog_scheme \<Rightarrow> 'a fslog_scheme res" where
  "write_log cur s = write_log_loop cur (nat (log_n s)) 0 s"

fun install_loop :: "nat \<Rightarrow> bool \<Rightarrow> nat \<Rightarrow> nat \<Rightarrow> 'a fslog_scheme \<Rightarrow> 'a fslog_scheme res" where
  "install_loop cur recovering 0 tail s = Ret s"
| "install_loop cur recovering (Suc k) tail s =
     kbind (cache_read cur (log_dev s) (log_blk (log_start s) tail) s) (\<lambda>(l, s1).
     kbind (cache_read cur (log_dev s) (log_block s tail) s1) (\<lambda>(d, s2).
     kbind (cache_write cur d (buf_set_data d (buf_data (bufs s2 l)) s2)) (\<lambda>s3.
     kbind (if \<not> recovering then cache_unpin d s3 else Ret s3) (\<lambda>s4.
     kbind (cache_relse cur d s4) (\<lambda>s5.
     kbind (cache_relse cur l s5) (\<lambda>s6. install_loop cur recovering k (Suc tail) s6))))))"

definition install_trans :: "nat \<Rightarrow> bool \<Rightarrow> 'a fslog_scheme \<Rightarrow> 'a fslog_scheme res" where
  "install_trans cur recovering s = install_loop cur recovering (nat (log_n s)) 0 s"

definition commit :: "nat \<Rightarrow> 'a fslog_scheme \<Rightarrow> 'a fslog_scheme res" where
  "commit cur s =
     (if log_n s > 0
      then kbind (write_log cur s) (\<lambda>s.
           kbind (write_head cur s) (\<lambda>s.
           kbind (install_trans cur False s) (\<lambda>s.
             write_head cur (s\<lparr>log_n := 0\<rparr>))))
      else Ret s)"

definition recover_from_log :: "nat \<Rightarrow> 'a fslog_scheme \<Rightarrow> 'a fslog_scheme res" where
  "recover_from_log cur s =
     kbind (read_head cur s) (\<lambda>s.
     kbind (install_trans cur True s) (\<lambda>s.
       write_head cur (s\<lparr>log_n := 0\<rparr>)))"

definition log_init :: "nat \<Rightarrow> u32 \<Rightarrow> int \<Rightarrow> int \<Rightarrow> 'a fslog_scheme \<Rightarrow> 'a fslog_scheme res" where
  "log_init cur dev logstart nlog s =
     recover_from_log cur (s\<lparr>log_start := logstart, log_size := nlog, log_dev := dev\<rparr>)"

text \<open>The search of \<open>log_write\<close> for a slot that already holds the block number.\<close>

fun absorb :: "nat \<Rightarrow> nat \<Rightarrow> (nat \<Rightarrow> u32) \<Rightarrow> u32 \<Rightarrow> nat" where
  "absorb 0 i bl blk = i"
| "absorb (Suc k) i bl blk = (if bl i = blk then i else absorb k (Suc i) bl blk)"

definition log_write :: "nat \<Rightarrow> 'a fslog_scheme \<Rightarrow> 'a fslog_scheme res" where
  "log_write b s =
     (if log_n s \<ge> int LOGSIZE \<or> log_n s \<ge> log_size s - 1 then Panic ''too big a transaction''
      else if log_outstanding s < 1 then Panic ''log_write outside of trans''
      else let i = absorb (nat (log_n s)) 0 (log_block s) (blockno (bufs s b));
               s = s\<lparr>log_block := (log_block s)(i := blockno (bufs s b))\<rparr>
           in if int i = log_n s then Ret ((cache_pin b s)\<lparr>log_n := log_n s + 1\<rparr>) else Ret s)"

definition begin_op :: "'a fslog_scheme \<Rightarrow> 'a fslog_scheme res" where
  "begin_op s =
     (if log_committing s then Blocked
      else if log_n s + (log_outstanding s + 1) * int MAXOPBLOCKS > int LOGSIZE then Blocked
      else Ret (s\<lparr>log_outstanding := log_outstanding s + 1\<rparr>))"

definition end_op :: "nat \<Rightarrow> 'a fslog_scheme \<Rightarrow> 'a fslog_scheme res" where
  "end_op cur s =
     (let s = s\<lparr>log_outstanding := log_outstanding s - 1\<rparr> in
      if log_committing s then Panic ''committing''
      else if log_outstanding s = 0
      then kbind (commit cur (s\<lparr>log_committing := True\<rparr>)) (\<lambda>s.
             Ret (wakeup (Some cur) (Some OnLog) (s\<lparr>log_committing := False\<rparr>)))
      else Ret (wakeup (Some cur) (Some OnLog) s))"

section \<open>The header\<close>

lemma length_put_entries: "4 + 4 * (i + k) \<le> length d \<Longrightarrow> length (put_entries k i bl d) = length d"
  by (induction k arbitrary: i d) auto

lemma get_put_entries:
  "4 + 4 * (i + k) \<le> length d \<Longrightarrow>
   get32 (4 + 4 * j) (put_entries k i bl d) = (if i \<le> j \<and> j < i + k then bl j else get32 (4 + 4 * j) d)"
proof (induction k arbitrary: i d)
  case (Suc k)
  have "get32 (4 + 4 * j) (put32 (4 + 4 * i) (bl i) d) = (if j = i then bl i else get32 (4 + 4 * j) d)"
  proof (cases "j = i")
    case False
    then have "4 + 4 * j + 4 \<le> 4 + 4 * i \<or> 4 + 4 * i + 4 \<le> 4 + 4 * j" by linarith
    with False Suc.prems show ?thesis by (simp only: if_False) (simp add: get32_put32_other)
  qed (use Suc.prems in \<open>simp add: get32_put32\<close>)
  with Suc.IH [of "Suc i" "put32 (4 + 4 * i) (bl i) d"] Suc.prems show ?case by auto
qed auto

lemma get0_put_entries: "4 + 4 * (i + k) \<le> length d \<Longrightarrow> get32 0 (put_entries k i bl d) = get32 0 d"
  by (induction k arbitrary: i d) (auto simp: field_simps_le)

text \<open>What a header block says: the number of entries, and the entries.\<close>

definition head_count :: "block \<Rightarrow> int" where
  "head_count d = sint (get32 0 d)"

definition head_entries :: "block \<Rightarrow> u32 list" where
  "head_entries d = map (\<lambda>i. get32 (4 + 4 * i) d) [0..<nat (head_count d)]"

lemma put_header_read:
  assumes "length d = BSIZE" "0 \<le> n" "n \<le> int LOGSIZE"
  shows "head_count (put_header n bl d) = n" "length (put_header n bl d) = BSIZE"
    and "head_entries (put_header n bl d) = map bl [0..<nat n]"
proof -
  let ?d = "put32 0 (word_of_int n) d"
  have len: "4 + 4 * (0 + nat n) \<le> length ?d" using assms by simp
  show cnt: "head_count (put_header n bl d) = n"
    using assms get0_put_entries [OF len] by (simp add: head_count_def put_header_def field_simps_le int_word_sint)
  show "length (put_header n bl d) = BSIZE" using assms length_put_entries [OF len] by (simp add: put_header_def)
  show "head_entries (put_header n bl d) = map bl [0..<nat n]"
    unfolding head_entries_def cnt using get_put_entries [OF len] by (simp add: put_header_def)
qed

section \<open>Writes and their order\<close>

definition apply_writes :: "(u32 \<Rightarrow> block) \<Rightarrow> (u32 \<times> block) list \<Rightarrow> u32 \<Rightarrow> block" where
  "apply_writes d ws = foldl (\<lambda>d (b, c). d(b := c)) d ws"

lemma apply_writes_simps [simp]:
  "apply_writes d [] = d" "apply_writes d ((b, c) # ws) = apply_writes (d(b := c)) ws"
  "apply_writes d (xs @ ys) = apply_writes (apply_writes d xs) ys"
  by (simp_all add: apply_writes_def)

lemma apply_writes_other: "b \<notin> fst ` set ws \<Longrightarrow> apply_writes d ws b = d b"
  by (induction ws arbitrary: d) auto

lemma apply_writes_map:
  assumes "inj_on f (set xs)" "x \<in> set xs"
  shows "apply_writes d (map (\<lambda>x. (f x, g x)) xs) (f x) = g x"
  using assms
proof (induction xs arbitrary: d)
  case (Cons y ys)
  show ?case
  proof (cases "x \<in> set ys")
    case True
    then show ?thesis using Cons by (simp add: inj_on_def)
  next
    case False
    then have "x = y" "f x \<notin> f ` set ys" using Cons.prems by (auto simp: inj_on_def)
    then show ?thesis using apply_writes_other [of "f y" "map (\<lambda>x. (f x, g x)) ys" "d(f y := g y)"]
      by (simp add: image_image)
  qed
qed simp

text \<open>A sequence of blocks written through the cache, with the references that are left.\<close>

definition wrote_all :: "nat \<Rightarrow> u32 \<Rightarrow> u32 \<Rightarrow> 'a bcache_scheme \<Rightarrow> 'a bcache_scheme \<Rightarrow> (u32 \<times> block) list \<Rightarrow> (u32 \<Rightarrow> nat) \<Rightarrow> bool" where
  "wrote_all cur me dev s s' ws refs \<longleftrightarrow> cache_inv cur me dev s' \<and> cache_rest s' = cache_rest s \<and>
     bview dev (bufs s') (disk s') = apply_writes (bview dev (bufs s) (disk s)) ws \<and>
     disk s' = apply_writes (disk s) ws \<and> disk_trace s' = disk_trace s @ ws \<and>
     brefs dev (bufs s') = refs \<and> bheld dev (bufs s') = bheld dev (bufs s) \<and> nfree (bufs s) \<le> nfree (bufs s')"

lemma wrote_all_refl:
  "cache_inv cur me dev s \<Longrightarrow> wrote_all cur me dev s s [] (brefs dev (bufs s))"
  by (simp add: wrote_all_def)

lemma wrote_all_trans:
  "wrote_all cur me dev s s1 xs r1 \<Longrightarrow> wrote_all cur me dev s1 s2 ys r2 \<Longrightarrow> wrote_all cur me dev s s2 (xs @ ys) r2"
  by (auto simp: wrote_all_def)

lemma wrote_all_one:
  "kernel_cache.wrote cur me dev s s' blk c k \<Longrightarrow>
   wrote_all cur me dev s s' [(blk, c)] ((brefs dev (bufs s))(blk := brefs dev (bufs s) blk - k))"
  unfolding wrote_all_def kernel_cache.wrote_def by (elim conjE) simp

lemma cache_rest_log:
  assumes "cache_rest s' = cache_rest (s :: 'a fslog_scheme)"
  shows "log_start s' = log_start s" "log_dev s' = log_dev s" "log_n s' = log_n s" "log_block s' = log_block s"
    and "log_size s' = log_size s" "log_outstanding s' = log_outstanding s" "log_committing s' = log_committing s"
proof -
  have "f (cache_rest s') = f (cache_rest s)" for f :: "'a fslog_scheme \<Rightarrow> 'b" using assms by simp
  from this [of log_start] this [of log_dev] this [of log_n] this [of log_block] this [of log_size]
    this [of log_outstanding] this [of log_committing]
  show "log_start s' = log_start s" "log_dev s' = log_dev s" "log_n s' = log_n s" "log_block s' = log_block s"
    "log_size s' = log_size s" "log_outstanding s' = log_outstanding s" "log_committing s' = log_committing s"
    by (simp_all add: cache_rest_def)
qed

section \<open>The loops of a commit\<close>

lemma write_log_loop_step:
  "write_log_loop cur (Suc k) tail s =
     kbind (blk_copy_to (cache_read cur (log_dev s)) (cache_write cur) (cache_relse cur) buf_set_data
         (\<lambda>b s. buf_data (bufs s b)) (log_blk (log_start s) tail) (log_block s tail) s)
       (\<lambda>s. write_log_loop cur k (Suc tail) s)"
  by (simp add: blk_copy_to_def kbind_assoc case_prod_unfold)

lemma install_loop_step:
  "install_loop cur recovering (Suc k) tail s =
     kbind (blk_copy_from (cache_read cur (log_dev s)) (cache_write cur) (cache_relse cur) cache_unpin buf_set_data
         (\<lambda>b s. buf_data (bufs s b)) recovering (log_blk (log_start s) tail) (log_block s tail) s)
       (\<lambda>s. install_loop cur recovering k (Suc tail) s)"
  by (simp add: blk_copy_from_def kbind_assoc case_prod_unfold)

text \<open>
  The state of the cache and the log in which the loops run: nothing is locked, the log's own blocks
  are unreferenced, and every block of the transaction has \<open>r\<close> references and is not a log block.
\<close>

definition log_quiet :: "nat \<Rightarrow> u32 \<Rightarrow> 'a fslog_scheme \<Rightarrow> nat \<Rightarrow> nat \<Rightarrow> nat \<Rightarrow> bool" where
  "log_quiet cur me s tail k r \<longleftrightarrow>
     cache_inv cur me (log_dev s) s \<and> bheld (log_dev s) (bufs s) = {} \<and>
     (\<forall>i \<in> {tail..<tail + k}. brefs (log_dev s) (bufs s) (log_blk (log_start s) i) = 0 \<and>
        brefs (log_dev s) (bufs s) (log_block s i) = r \<and>
        (\<forall>j \<in> {tail..<tail + k}. log_block s i \<noteq> log_blk (log_start s) j)) \<and>
     inj_on (log_block s) {tail..<tail + k} \<and> r \<le> 1 \<and> 2 \<le> nfree (bufs s) + r"

lemma log_quiet_room:
  assumes "log_quiet cur me s tail (Suc k) r"
  shows "kernel_cache.room2 (log_dev s) s (log_blk (log_start s) tail) (log_block s tail)"
  using assms by (auto simp: log_quiet_def kernel_cache.room2_def) (metis atLeastLessThan_iff le_refl less_add_Suc1)+

lemma write_log_loop_spec:
  assumes "log_quiet cur me s tail k r"
  shows "\<exists>s'. write_log_loop cur k tail s = Ret s' \<and>
    wrote_all cur me (log_dev s) s s'
      (map (\<lambda>i. (log_blk (log_start s) i, bview (log_dev s) (bufs s) (disk s) (log_block s i))) [tail..<tail + k])
      (brefs (log_dev s) (bufs s))"
  using assms
proof (induction k arbitrary: tail s)
  case 0
  then show ?case by (simp add: log_quiet_def wrote_all_refl)
next
  case (Suc k)
  let ?dev = "log_dev s" and ?lb = "log_blk (log_start s)" and ?v = "bview (log_dev s) (bufs s) (disk s)"
  have inv: "cache_inv cur me ?dev s" using Suc.prems by (simp add: log_quiet_def)
  obtain s1 where s1: "blk_copy_to (cache_read cur ?dev) (cache_write cur) (cache_relse cur) buf_set_data
         (\<lambda>b s. buf_data (bufs s b)) (?lb tail) (log_block s tail) s = Ret s1"
    "kernel_cache.wrote cur me ?dev s s1 (?lb tail) (?v (log_block s tail)) 0"
    using kernel_cache.blk_copy_to_wrote [OF inv log_quiet_room [OF Suc.prems]] by blast
  have w1: "wrote_all cur me ?dev s s1 [(?lb tail, ?v (log_block s tail))] (brefs ?dev (bufs s))"
    using wrote_all_one [OF s1(2)] by simp
  have same: "log_start s1 = log_start s" "log_dev s1 = ?dev" "log_block s1 = log_block s"
    using w1 cache_rest_log [of s1 s] by (simp_all add: wrote_all_def)
  have q: "log_quiet cur me s1 (Suc tail) k r"
    using Suc.prems w1 by (auto simp: log_quiet_def same wrote_all_def inj_on_def)
  have v1: "bview ?dev (bufs s1) (disk s1) (log_block s i) = ?v (log_block s i)" if "i \<in> {tail..<tail + Suc k}" for i
    using that w1 Suc.prems by (auto simp: wrote_all_def log_quiet_def)
  obtain s' where ih: "write_log_loop cur k (Suc tail) s1 = Ret s'"
    "wrote_all cur me ?dev s1 s' (map (\<lambda>i. (?lb i, bview ?dev (bufs s1) (disk s1) (log_block s i))) [Suc tail..<Suc tail + k])
      (brefs ?dev (bufs s1))"
    using Suc.IH [OF q] by (auto simp: same)
  have meq: "map (\<lambda>i. (?lb i, bview ?dev (bufs s1) (disk s1) (log_block s i))) [Suc tail..<Suc tail + k] =
      map (\<lambda>i. (?lb i, ?v (log_block s i))) [Suc tail..<tail + Suc k]"
    using v1 by (intro map_cong) auto
  have req: "brefs ?dev (bufs s1) = brefs ?dev (bufs s)" using w1 by (simp add: wrote_all_def)
  have "wrote_all cur me ?dev s s' (map (\<lambda>i. (?lb i, ?v (log_block s i))) [tail..<tail + Suc k]) (brefs ?dev (bufs s))"
    using wrote_all_trans [OF w1 ih(2)] unfolding meq req by (simp add: upt_conv_Cons del: upt_Suc)
  then show ?case using s1(1) ih(1) by (simp add: write_log_loop_step del: write_log_loop.simps)
qed

text \<open>\<open>install_loop\<close> copies log blocks home; after a commit it also drops the pin of each block.\<close>

lemma install_loop_spec:
  assumes "log_quiet cur me s tail k (if recovering then 0 else 1)"
  shows "\<exists>s'. install_loop cur recovering k tail s = Ret s' \<and>
    wrote_all cur me (log_dev s) s s'
      (map (\<lambda>i. (log_block s i, bview (log_dev s) (bufs s) (disk s) (log_blk (log_start s) i))) [tail..<tail + k])
      (\<lambda>b. if b \<in> log_block s ` {tail..<tail + k} then 0 else brefs (log_dev s) (bufs s) b)"
  using assms
proof (induction k arbitrary: tail s)
  case 0
  then show ?case using wrote_all_refl [of cur me "log_dev s" s] by (simp add: log_quiet_def)
next
  case (Suc k)
  let ?dev = "log_dev s" and ?lb = "log_blk (log_start s)" and ?v = "bview (log_dev s) (bufs s) (disk s)"
  let ?r = "if recovering then 0 else 1 :: nat"
  let ?R = "\<lambda>b. if b \<in> log_block s ` {tail..<tail + Suc k} then 0 else brefs ?dev (bufs s) b"
  have inv: "cache_inv cur me ?dev s" and refs: "brefs ?dev (bufs s) (log_block s tail) = ?r"
    using Suc.prems by (auto simp: log_quiet_def)
  obtain s1 where s1: "blk_copy_from (cache_read cur ?dev) (cache_write cur) (cache_relse cur) cache_unpin buf_set_data
         (\<lambda>b s. buf_data (bufs s b)) recovering (?lb tail) (log_block s tail) s = Ret s1"
    "kernel_cache.wrote cur me ?dev s s1 (log_block s tail) (?v (?lb tail)) ?r"
    using kernel_cache.blk_copy_from_wrote [OF inv log_quiet_room [OF Suc.prems], of recovering] refs by auto
  have w1: "wrote_all cur me ?dev s s1 [(log_block s tail, ?v (?lb tail))] ((brefs ?dev (bufs s))(log_block s tail := 0))"
    using wrote_all_one [OF s1(2)] refs by simp
  have same: "log_start s1 = log_start s" "log_dev s1 = ?dev" "log_block s1 = log_block s"
    using w1 cache_rest_log [of s1 s] by (simp_all add: wrote_all_def)
  have r1: "brefs ?dev (bufs s1) = (brefs ?dev (bufs s))(log_block s tail := 0)" using w1 by (simp add: wrote_all_def)
  have inj: "log_block s i \<noteq> log_block s tail" if "i \<in> {Suc tail..<Suc tail + k}" for i
    using that Suc.prems inj_onD [of "log_block s" "{tail..<tail + Suc k}" i tail] by (auto simp: log_quiet_def)
  have q: "log_quiet cur me s1 (Suc tail) k ?r"
    using Suc.prems w1 inj unfolding log_quiet_def same r1 by (auto simp: wrote_all_def inj_on_def)
  have sep: "log_block s tail \<noteq> ?lb i" if "i \<in> {tail..<tail + Suc k}" for i
    using that Suc.prems unfolding log_quiet_def by auto
  have v1: "bview ?dev (bufs s1) (disk s1) (?lb i) = ?v (?lb i)" if "i \<in> {tail..<tail + Suc k}" for i
    using w1 sep [OF that, symmetric] unfolding wrote_all_def by (elim conjE) (simp only: apply_writes_simps fun_upd_apply if_False)
  obtain s' where ih: "install_loop cur recovering k (Suc tail) s1 = Ret s'"
    "wrote_all cur me ?dev s1 s' (map (\<lambda>i. (log_block s i, bview ?dev (bufs s1) (disk s1) (?lb i))) [Suc tail..<Suc tail + k])
      (\<lambda>b. if b \<in> log_block s ` {Suc tail..<Suc tail + k} then 0 else brefs ?dev (bufs s1) b)"
    using Suc.IH [OF q] unfolding same by blast
  have meq: "map (\<lambda>i. (log_block s i, bview ?dev (bufs s1) (disk s1) (?lb i))) [Suc tail..<Suc tail + k] =
      map (\<lambda>i. (log_block s i, ?v (?lb i))) [Suc tail..<tail + Suc k]"
    using v1 by (intro map_cong) auto
  have "{tail..<tail + Suc k} = insert tail {Suc tail..<Suc tail + k}" by auto
  then have req: "(\<lambda>b. if b \<in> log_block s ` {Suc tail..<Suc tail + k} then 0 else brefs ?dev (bufs s1) b) = ?R"
    unfolding r1 by (simp add: fun_eq_iff)
  have "wrote_all cur me ?dev s s' (map (\<lambda>i. (log_block s i, ?v (?lb i))) [tail..<tail + Suc k]) ?R"
    using wrote_all_trans [OF w1 ih(2)] unfolding meq req by (simp add: upt_conv_Cons del: upt_Suc)
  then show ?case using s1(1) ih(1) by (simp add: install_loop_step del: install_loop.simps)
qed

section \<open>The header block\<close>

lemma write_head_update:
  "write_head cur s = blk_update (cache_read cur (log_dev s)) (cache_write cur) (cache_relse cur) buf_set_data
     (\<lambda>b s. buf_data (bufs s b)) (head_blk (log_start s)) (put_header (log_n s) (log_block s)) s"
  by (simp add: write_head_def blk_update_def)

lemma write_head_spec:
  assumes "cache_inv cur me (log_dev s) s" "bheld (log_dev s) (bufs s) = {}"
    and "brefs (log_dev s) (bufs s) (head_blk (log_start s)) = 0" "0 < nfree (bufs s)"
  shows "\<exists>s'. write_head cur s = Ret s' \<and> wrote_all cur me (log_dev s) s s'
    [(head_blk (log_start s), put_header (log_n s) (log_block s) (bview (log_dev s) (bufs s) (disk s) (head_blk (log_start s))))]
    (brefs (log_dev s) (bufs s))"
  using kernel_cache.blk_update_wrote [OF assms(1), of "head_blk (log_start s)" "put_header (log_n s) (log_block s)"]
    assms wrote_all_one [where k = 0] unfolding write_head_update by fastforce

section \<open>What a commit writes\<close>

text \<open>
  The blocks that a commit of the \<open>n\<close> blocks \<open>bl 0, \<dots>, bl (n - 1)\<close> with contents \<open>v\<close> writes, in
  order: the copies in the log, the header that makes them valid, the home locations, the empty header.
\<close>

definition log_copies :: "int \<Rightarrow> (nat \<Rightarrow> u32) \<Rightarrow> (u32 \<Rightarrow> block) \<Rightarrow> nat \<Rightarrow> (u32 \<times> block) list" where
  "log_copies start bl v n = map (\<lambda>i. (log_blk start i, v (bl i))) [0..<n]"

definition home_copies :: "(nat \<Rightarrow> u32) \<Rightarrow> (u32 \<Rightarrow> block) \<Rightarrow> nat \<Rightarrow> (u32 \<times> block) list" where
  "home_copies bl v n = map (\<lambda>i. (bl i, v (bl i))) [0..<n]"

definition commit_writes :: "int \<Rightarrow> (nat \<Rightarrow> u32) \<Rightarrow> (u32 \<Rightarrow> block) \<Rightarrow> nat \<Rightarrow> (u32 \<times> block) list" where
  "commit_writes start bl v n =
     (let h = put_header (int n) bl (v (head_blk start)) in
      log_copies start bl v n @ [(head_blk start, h)] @ home_copies bl v n @ [(head_blk start, put_header 0 bl h)])"

text \<open>The transaction in memory: \<open>n\<close> distinct blocks outside the log.\<close>

definition log_area :: "int \<Rightarrow> nat \<Rightarrow> u32 set" where
  "log_area start n = insert (head_blk start) (log_blk start ` {..<n})"

definition trans_ok :: "int \<Rightarrow> (nat \<Rightarrow> u32) \<Rightarrow> nat \<Rightarrow> bool" where
  "trans_ok start bl n \<longleftrightarrow> n \<le> LOGSIZE \<and> inj_on bl {..<n} \<and> bl ` {..<n} \<inter> log_area start n = {}"

lemma log_blk_inj: "i < 2 ^ 31 \<Longrightarrow> j < 2 ^ 31 \<Longrightarrow> log_blk start i = log_blk start j \<longleftrightarrow> i = j"
proof -
  have id: "unat (word_of_nat k :: u32) = k" if "k < 2 ^ 31" for k using that by (simp add: unat_of_nat take_bit_nat_eq_self)
  assume "i < 2 ^ 31" "j < 2 ^ 31"
  then have "(word_of_nat i :: u32) = word_of_nat j \<longleftrightarrow> i = j" using id [of i] id [of j] by metis
  then show ?thesis by (simp add: log_blk_def)
qed

lemma log_blk_head: "i < 2 ^ 31 \<Longrightarrow> log_blk start i \<noteq> head_blk start"
proof
  assume *: "i < 2 ^ 31" "log_blk start i = head_blk start"
  then have "(word_of_nat (Suc i) :: u32) = 0" by (simp add: log_blk_def head_blk_def add.assoc add.commute)
  moreover have "unat (word_of_nat (Suc i) :: u32) = Suc i" using * by (simp add: unat_of_nat take_bit_nat_eq_self del: of_nat_Suc)
  ultimately show False by simp
qed

text \<open>Setting \<open>header.n\<close> touches nothing of the cache.\<close>

lemma log_n_update [simp]:
  "cache_inv cur me dev (s\<lparr>log_n := x\<rparr>) = cache_inv cur me dev (s :: 'a fslog_scheme)"
  "cache_rest (s\<lparr>log_n := x\<rparr>) = (cache_rest s)\<lparr>log_n := x\<rparr>"
  by (simp_all add: cache_inv_def cache_ok_def cache_rest_def)

lemma wrote_all_log_n:
  "wrote_all cur me dev s s' ws r \<Longrightarrow> wrote_all cur me dev (s\<lparr>log_n := x\<rparr>) (s'\<lparr>log_n := x\<rparr>) ws r"
  unfolding wrote_all_def by (elim conjE) simp

lemma trans_okD:
  assumes "trans_ok start bl n" "i < n"
  shows "bl i \<noteq> head_blk start" "j < n \<Longrightarrow> bl i \<noteq> log_blk start j" "log_blk start i \<noteq> head_blk start"
    and "j < n \<Longrightarrow> i \<noteq> j \<Longrightarrow> bl i \<noteq> bl j" "i < LOGSIZE"
  using assms log_blk_head [of i start] by (auto simp: trans_ok_def log_area_def inj_on_def disjoint_iff)

lemma trans_ok_notin:
  assumes "trans_ok start bl n"
  shows "head_blk start \<notin> bl ` {..<n}" "head_blk start \<notin> log_blk start ` {..<n}" "i < n \<Longrightarrow> log_blk start i \<notin> bl ` {..<n}"
  using trans_okD(1-3) [OF assms] by (metis imageE lessThan_iff)+

lemma trans_ok_inj:
  assumes "trans_ok start bl n"
  shows "inj_on bl (set [0..<n])" "inj_on (log_blk start) (set [0..<n])"
  using assms log_blk_inj by (auto simp: trans_ok_def inj_on_def)

lemma copies_view:
  assumes "trans_ok start bl n"
  shows "i < n \<Longrightarrow> apply_writes d (log_copies start bl v n) (log_blk start i) = v (bl i)"
    and "i < n \<Longrightarrow> apply_writes d (home_copies bl v n) (bl i) = v (bl i)"
    and "apply_writes d (log_copies start bl v n) (head_blk start) = d (head_blk start)"
    and "apply_writes d (home_copies bl v n) (head_blk start) = d (head_blk start)"
proof -
  show "apply_writes d (log_copies start bl v n) (head_blk start) = d (head_blk start)"
    "apply_writes d (home_copies bl v n) (head_blk start) = d (head_blk start)"
    using trans_ok_notin [OF assms]
    by (auto simp: log_copies_def home_copies_def image_image atLeast0LessThan intro!: apply_writes_other)
qed (use apply_writes_map [of _ "[0..<n]"] trans_ok_inj [OF assms] in \<open>simp_all add: log_copies_def home_copies_def\<close>)

text \<open>The state in which the last \<open>end_op\<close> commits: each block of the transaction is pinned once.\<close>

definition commit_ready :: "nat \<Rightarrow> u32 \<Rightarrow> nat \<Rightarrow> 'a fslog_scheme \<Rightarrow> bool" where
  "commit_ready cur me n s \<longleftrightarrow> log_n s = int n \<and> trans_ok (log_start s) (log_block s) n \<and>
     cache_inv cur me (log_dev s) s \<and> bheld (log_dev s) (bufs s) = {} \<and> 0 < nfree (bufs s) \<and>
     brefs (log_dev s) (bufs s) = (\<lambda>b. if b \<in> log_block s ` {..<n} then 1 else 0)"

lemma commit_ready_quiet:
  assumes "trans_ok (log_start s) (log_block s) n" "cache_inv cur me (log_dev s) s"
    and "bheld (log_dev s) (bufs s) = {}" "0 < nfree (bufs s)"
    and "brefs (log_dev s) (bufs s) = (\<lambda>b. if b \<in> log_block s ` {..<n} then 1 else 0)"
  shows "log_quiet cur me s 0 n 1"
proof -
  show ?thesis using assms trans_ok_notin(3) [OF assms(1)] trans_okD(2) [OF assms(1)] trans_ok_inj(1) [OF assms(1)] 
    by (auto simp: log_quiet_def atLeast0LessThan)
qed

lemma commit_spec:
  assumes "commit_ready cur me n s" "0 < n"
  shows "\<exists>s'. commit cur s = Ret s' \<and> wrote_all cur me (log_dev s) (s\<lparr>log_n := 0\<rparr>) s'
    (commit_writes (log_start s) (log_block s) (bview (log_dev s) (bufs s) (disk s)) n) (\<lambda>_. 0)"
proof -
  let ?dev = "log_dev s" and ?st = "log_start s" and ?bl = "log_block s" and ?v = "bview (log_dev s) (bufs s) (disk s)"
  let ?R = "\<lambda>b. if b \<in> ?bl ` {..<n} then 1 else 0 :: nat" and ?h = "put_header (int n) ?bl (?v (head_blk ?st))"
  note r = assms(1) [unfolded commit_ready_def]
  from r have ok: "trans_ok ?st ?bl n" and inv: "cache_inv cur me ?dev s" and held: "bheld ?dev (bufs s) = {}"
    and free: "0 < nfree (bufs s)" and refs: "brefs ?dev (bufs s) = ?R" and num: "log_n s = int n" by auto
  have head: "head_blk ?st \<notin> ?bl ` {..<n}" by (rule trans_ok_notin(1) [OF ok])
  obtain s1 where s1: "write_log cur s = Ret s1" "wrote_all cur me ?dev s s1 (log_copies ?st ?bl ?v n) ?R"
    using write_log_loop_spec [OF commit_ready_quiet [OF ok inv held free refs]]
    unfolding write_log_def num log_copies_def refs by auto
  have c1: "cache_rest s1 = cache_rest s" and i1: "cache_inv cur me ?dev s1" "bheld ?dev (bufs s1) = {}"
      "0 < nfree (bufs s1)" "brefs ?dev (bufs s1) = ?R"
    and v1: "bview ?dev (bufs s1) (disk s1) = apply_writes ?v (log_copies ?st ?bl ?v n)"
    using s1(2) held free unfolding wrote_all_def by (elim conjE, simp)+
  note l1 = cache_rest_log [OF c1]
  obtain s2 where s2: "write_head cur s1 = Ret s2" "wrote_all cur me ?dev s1 s2 [(head_blk ?st, ?h)] ?R"
    using write_head_spec [of cur me s1] i1 head unfolding l1 num v1 copies_view(3) [OF ok] by auto
  have w2: "wrote_all cur me ?dev s s2 (log_copies ?st ?bl ?v n @ [(head_blk ?st, ?h)]) ?R"
    by (rule wrote_all_trans [OF s1(2) s2(2)])
  have c2: "cache_rest s2 = cache_rest s" and i2: "cache_inv cur me ?dev s2" "bheld ?dev (bufs s2) = {}"
      "0 < nfree (bufs s2)" "brefs ?dev (bufs s2) = ?R"
    and v2: "bview ?dev (bufs s2) (disk s2) = (apply_writes ?v (log_copies ?st ?bl ?v n))(head_blk ?st := ?h)"
    using w2 held free unfolding wrote_all_def by (elim conjE, simp)+
  note l2 = cache_rest_log [OF c2]
  have vl: "bview ?dev (bufs s2) (disk s2) (log_blk ?st i) = ?v (?bl i)" if "i < n" for i
    using that trans_okD(3) [OF ok that] copies_view(1) [OF ok that] unfolding v2 by simp
  have "log_quiet cur me s2 0 n 1" by (rule commit_ready_quiet) (use i2 ok in \<open>simp_all add: l2\<close>)
  then obtain s3 where s3: "install_trans cur False s2 = Ret s3" "wrote_all cur me ?dev s2 s3
      (map (\<lambda>i. (?bl i, bview ?dev (bufs s2) (disk s2) (log_blk ?st i))) [0..<0 + n])
      (\<lambda>b. if b \<in> ?bl ` {0..<0 + n} then 0 else ?R b)"
    using install_loop_spec [of cur me s2 0 n False] unfolding install_trans_def l2 num i2(4) by auto
  have m: "map (\<lambda>i. (?bl i, bview ?dev (bufs s2) (disk s2) (log_blk ?st i))) [0..<0 + n] = home_copies ?bl ?v n"
    unfolding home_copies_def using vl by (intro map_cong) auto
  have z: "(\<lambda>b. if b \<in> ?bl ` {0..<0 + n} then 0 else ?R b) = (\<lambda>_. 0)" by (simp add: fun_eq_iff atLeast0LessThan)
  note w3 = wrote_all_trans [OF w2 s3(2) [unfolded m z]]
  have c3: "cache_rest s3 = cache_rest s" and i3: "cache_inv cur me ?dev s3" "bheld ?dev (bufs s3) = {}"
      "0 < nfree (bufs s3)" "brefs ?dev (bufs s3) = (\<lambda>_. 0)"
    and v3: "bview ?dev (bufs s3) (disk s3) = apply_writes ((apply_writes ?v (log_copies ?st ?bl ?v n))(head_blk ?st := ?h)) (home_copies ?bl ?v n)"
    using w3 held free unfolding wrote_all_def by (elim conjE, simp)+
  note l3 = cache_rest_log [OF c3]
  have h3: "bview ?dev (bufs s3) (disk s3) (head_blk ?st) = ?h" unfolding v3 copies_view(4) [OF ok] by simp
  obtain s4 where s4: "write_head cur (s3\<lparr>log_n := 0\<rparr>) = Ret s4"
    "wrote_all cur me ?dev (s3\<lparr>log_n := 0\<rparr>) s4 [(head_blk ?st, put_header 0 ?bl ?h)] (\<lambda>_. 0)"
    using write_head_spec [of cur me "s3\<lparr>log_n := 0\<rparr>"] i3 by (auto simp: l3 h3)
  have "wrote_all cur me ?dev (s\<lparr>log_n := 0\<rparr>) s4 (commit_writes ?st ?bl ?v n) (\<lambda>_. 0)"
    using wrote_all_trans [OF wrote_all_log_n [OF w3] s4(2)] unfolding commit_writes_def Let_def by simp
  moreover have "commit cur s = Ret s4" using assms(2) s1(1) s2(1) s3(1) s4(1) num by (simp add: commit_def)
  ultimately show ?thesis by blast
qed

section \<open>Recovery\<close>

text \<open>What recovery does to a disk: replay the blocks that the header names, then empty the header.\<close>

definition replay :: "int \<Rightarrow> (u32 \<Rightarrow> block) \<Rightarrow> (u32 \<times> block) list" where
  "replay start d = map (\<lambda>i. (get32 (4 + 4 * i) (d (head_blk start)), d (log_blk start i))) [0..<nat (head_count (d (head_blk start)))]"

text \<open>A booted kernel with nothing in use of its buffer cache.\<close>

definition boot_ready :: "nat \<Rightarrow> u32 \<Rightarrow> u32 \<Rightarrow> 'a fslog_scheme \<Rightarrow> bool" where
  "boot_ready cur me dev s \<longleftrightarrow> cache_inv cur me dev s \<and> brefs dev (bufs s) = (\<lambda>_. 0) \<and>
     bheld dev (bufs s) = {} \<and> 2 \<le> nfree (bufs s)"

lemma log_fields_update [simp]:
  "cache_inv cur me dev (s\<lparr>log_block := x\<rparr>) = cache_inv cur me dev (s :: 'a fslog_scheme)"
  "cache_inv cur me dev (s\<lparr>log_start := a, log_size := b, log_dev := e\<rparr>) = cache_inv cur me dev (s :: 'a fslog_scheme)"
  by (simp_all add: cache_inv_def cache_ok_def)

lemma boot_view:
  assumes "boot_ready cur me dev s"
  shows "bview dev (bufs s) (disk s) = disk s"
  using assms kernel_cache.clean [of cur me dev s] by (auto simp: boot_ready_def)

lemma read_head_spec:
  assumes "boot_ready cur me (log_dev s) s"
  defines "n \<equiv> head_count (disk s (head_blk (log_start s)))"
    and "e \<equiv> \<lambda>i. get32 (4 + 4 * i) (disk s (head_blk (log_start s)))"
  shows "\<exists>s'. read_head cur s = Ret s' \<and> boot_ready cur me (log_dev s) s' \<and> disk s' = disk s \<and> log_n s' = n \<and>
    (\<forall>i < nat n. log_block s' i = e i) \<and> log_start s' = log_start s \<and> log_dev s' = log_dev s"
proof -
  let ?h = "head_blk (log_start s)" and ?dev = "log_dev s"
  from assms(1) have inv: "cache_inv cur me ?dev s" "?h \<notin> bheld ?dev (bufs s)" "brefs ?dev (bufs s) ?h = 0" "nfree (bufs s) \<noteq> 0"
    by (auto simp: boot_ready_def)
  obtain b s1 where r: "cache_read cur ?dev ?h s = Ret (b, s1)" "bhandle ?dev me (bufs s1) b = Some ?h"
      "cache_step ?dev me ?h s s1 1 True (bview ?dev (bufs s) (disk s) ?h)" "disk s1 = disk s"
    using kernel_cache.bread [OF inv(1,2)] inv(3,4) by auto
  have "cache_inv cur me ?dev s1 \<and> cache_rest s1 = cache_rest s \<and> bview ?dev (bufs s1) (disk s1) = bview ?dev (bufs s) (disk s) \<and>
      brefs ?dev (bufs s1) = (\<lambda>_. 0)(?h := 1) \<and> bheld ?dev (bufs s1) = {?h} \<and> nfree (bufs s1) + 1 = nfree (bufs s)"
    using kernel_cache.stp [of ?dev me ?h s s1 1 True _ cur] r(3) assms(1) by (auto simp: boot_ready_def cache_inv_def)
  note i1 = this
  have d: "buf_data (bufs s1 b) = disk s ?h"
    using kernel_cache.handle_view [of cur me ?dev s1 b ?h] i1 r(2) boot_view [OF assms(1)] by simp
  let ?s2 = "s1\<lparr>log_n := n, log_block := (\<lambda>i. if i < nat n then e i else log_block s1 i)\<rparr>"
  have i2: "cache_inv cur me ?dev ?s2" using i1 by simp
  obtain s3 where s3: "cache_relse cur b ?s2 = Ret s3" "cache_step ?dev me ?h ?s2 s3 0 False (disk s ?h)" "disk s3 = disk s"
    using kernel_cache.brelse [OF i2, of b ?h] r(2,4) i1 boot_view [OF assms(1)] by auto
  have "cache_inv cur me ?dev s3 \<and> cache_rest s3 = cache_rest ?s2 \<and> 
      brefs ?dev (bufs s3) = (\<lambda>_. 0) \<and> bheld ?dev (bufs s3) = {} \<and> nfree (bufs s3) = nfree (bufs s)"
    using kernel_cache.stp [of ?dev me ?h ?s2 s3 0 False _ cur] s3(2) i1 i2 by (auto simp: cache_inv_def)
  moreover have "read_head cur s = Ret s3"
    using r(1) s3(1) unfolding read_head_def n_def e_def head_count_def by (simp add: Let_def d cong: if_cong)
  ultimately show ?thesis using s3(3) assms(1) cache_rest_log [of s3 ?s2] cache_rest_log [of s1 s] i1
    by (auto simp: boot_ready_def)
qed

lemma recover_spec:
  assumes "boot_ready cur me (log_dev s) s"
    and "trans_ok (log_start s) (\<lambda>i. get32 (4 + 4 * i) (disk s (head_blk (log_start s)))) (nat (head_count (disk s (head_blk (log_start s)))))"
  shows "\<exists>s' bl. recover_from_log cur s = Ret s' \<and> log_n s' = 0 \<and> boot_ready cur me (log_dev s) s' \<and>
    disk s' = (apply_writes (disk s) (replay (log_start s) (disk s)))
      (head_blk (log_start s) := put_header 0 bl (disk s (head_blk (log_start s))))"
proof -
  let ?h = "head_blk (log_start s)" and ?dev = "log_dev s" and ?st = "log_start s"
  let ?n = "nat (head_count (disk s ?h))" and ?e = "\<lambda>i. get32 (4 + 4 * i) (disk s ?h)"
  obtain s1 where s1: "read_head cur s = Ret s1" "boot_ready cur me ?dev s1" "disk s1 = disk s"
     "log_n s1 = head_count (disk s ?h)" "\<And>i. i < ?n \<Longrightarrow> log_block s1 i = ?e i" "log_start s1 = ?st" "log_dev s1 = ?dev"
    using read_head_spec [OF assms(1)] by blast
  have tr: "trans_ok ?st (log_block s1) ?n" using assms(2) s1(5) by (auto simp: trans_ok_def inj_on_def image_iff)
  have "log_quiet cur me s1 0 ?n 0"
    using s1(2) trans_okD(2) [OF tr] trans_ok_inj(1) [OF tr] by (auto simp: log_quiet_def boot_ready_def s1 atLeast0LessThan)
  then obtain s2 where s2: "install_trans cur True s1 = Ret s2" "wrote_all cur me ?dev s1 s2
      (map (\<lambda>i. (log_block s1 i, disk s (log_blk ?st i))) [0..<?n]) (\<lambda>_. 0)"
    using install_loop_spec [of cur me s1 0 ?n True] boot_view [OF s1(2)] s1(2)
    unfolding install_trans_def boot_ready_def s1 by (auto simp: boot_ready_def cong: if_cong)
  have m: "map (\<lambda>i. (log_block s1 i, disk s (log_blk ?st i))) [0..<?n] = replay ?st (disk s)"
    unfolding replay_def using s1(5) by (intro map_cong) auto
  have hd: "?h \<notin> fst ` set (replay ?st (disk s))"
    using trans_ok_notin(1) [OF tr] unfolding m [symmetric] by (simp add: image_image atLeast0LessThan)
  have i2: "cache_inv cur me ?dev s2" "cache_rest s2 = cache_rest s1" "disk s2 = apply_writes (disk s) (replay ?st (disk s))"
    "bheld ?dev (bufs s2) = {}" "brefs ?dev (bufs s2) = (\<lambda>_. 0)" "2 \<le> nfree (bufs s2)"
    using s2(2) s1(2,3) unfolding wrote_all_def m boot_ready_def by (elim conjE, simp)+
  note l2 = cache_rest_log [OF i2(2)]
  have b2: "boot_ready cur me ?dev s2" using i2 by (simp add: boot_ready_def)
  have v2: "bview ?dev (bufs s2) (disk s2) ?h = disk s ?h"
    using boot_view [OF b2] apply_writes_other [OF hd] i2(3) by metis
  obtain s3 where s3: "write_head cur (s2\<lparr>log_n := 0\<rparr>) = Ret s3" "wrote_all cur me ?dev (s2\<lparr>log_n := 0\<rparr>) s3
      [(?h, put_header 0 (log_block s1) (disk s ?h))] (\<lambda>_. 0)"
    using write_head_spec [of cur me "s2\<lparr>log_n := 0\<rparr>"] i2(1,4-6) v2 by (auto simp: l2 s1)
  have "log_n s3 = 0" using cache_rest_log(3) [of s3 "s2\<lparr>log_n := 0\<rparr>"] s3(2) by (simp add: wrote_all_def)
  moreover have "boot_ready cur me ?dev s3" "disk s3 = (apply_writes (disk s) (replay ?st (disk s)))(?h := put_header 0 (log_block s1) (disk s ?h))"
    using s3(2) i2 unfolding wrote_all_def boot_ready_def by (elim conjE, simp)+
  moreover have "recover_from_log cur s = Ret s3" by (simp add: recover_from_log_def s1(1) s2(1) s3(1))
  ultimately show ?thesis by blast
qed

section \<open>Atomicity of a commit\<close>

lemma head_count_zero: "length d = BSIZE \<Longrightarrow> head_count (put_header 0 bl d) = 0"
  using put_header_read(1) [of d 0 bl] by simp

lemma replay_empty: "head_count (d (head_blk start)) \<le> 0 \<Longrightarrow> replay start d = []"
  by (simp add: replay_def)

lemma apply_take_other: "b \<notin> fst ` set ws \<Longrightarrow> apply_writes d (take k ws) b = d b"
  by (rule apply_writes_other) (meson image_mono set_take_subset subsetD)

lemma copies_dom:
  "fst ` set (log_copies start bl v n) = log_blk start ` {..<n}" "fst ` set (home_copies bl v n) = bl ` {..<n}"
  by (auto simp: log_copies_def home_copies_def image_image atLeast0LessThan)

text \<open>A disk on which the header has been written, and the first \<open>m\<close> home blocks: recovery finishes the job.\<close>

definition committed :: "int \<Rightarrow> (nat \<Rightarrow> u32) \<Rightarrow> (u32 \<Rightarrow> block) \<Rightarrow> nat \<Rightarrow> nat \<Rightarrow> (u32 \<Rightarrow> block) \<Rightarrow> u32 \<Rightarrow> block" where
  "committed start bl v n m d = apply_writes ((apply_writes d (log_copies start bl v n))
      (head_blk start := put_header (int n) bl (v (head_blk start)))) (take m (home_copies bl v n))"

lemma committed_facts:
  fixes d v :: "u32 \<Rightarrow> block" and m :: nat
  assumes "trans_ok start bl n" "length (v (head_blk start)) = BSIZE"
  defines "d' \<equiv> committed start bl v n m d"
  shows "head_count (d' (head_blk start)) = int n" "i < n \<Longrightarrow> get32 (4 + 4 * i) (d' (head_blk start)) = bl i"
    and "i < n \<Longrightarrow> d' (log_blk start i) = v (bl i)" "length (d' (head_blk start)) = BSIZE"
proof -
  let ?h = "put_header (int n) bl (v (head_blk start))"
  have n: "int n \<le> int LOGSIZE" using assms(1) by (simp add: trans_ok_def)
  have hd: "d' (head_blk start) = ?h"
    unfolding d'_def committed_def using trans_ok_notin(1) [OF assms(1)] by (subst apply_take_other) (simp_all add: copies_dom)
  note ph = put_header_read [OF assms(2) _ n, of bl]
  show "head_count (d' (head_blk start)) = int n" "length (d' (head_blk start)) = BSIZE" unfolding hd using ph by auto
  show "get32 (4 + 4 * i) (d' (head_blk start)) = bl i" if "i < n"
    using that arg_cong [OF ph(3), of "\<lambda>l. l ! i"] ph(1) unfolding hd by (simp add: head_entries_def)
  show "d' (log_blk start i) = v (bl i)" if "i < n"
  proof -
    have "log_blk start i \<notin> fst ` set (home_copies bl v n)"
      using trans_ok_notin(3) [OF assms(1) that] by (simp add: copies_dom)
    then show ?thesis unfolding d'_def committed_def
      using copies_view(1) [OF assms(1) that] trans_okD(3) [OF assms(1) that] by (simp add: apply_take_other)
  qed
qed

lemma committed_replay:
  assumes "trans_ok start bl n" "length (v (head_blk start)) = BSIZE"
  shows "replay start (committed start bl v n m d) = home_copies bl v n"
  using committed_facts [where v = v and m = m and d = d, OF assms] unfolding replay_def home_copies_def by (auto intro!: map_cong)

lemma committed_done:
  assumes "trans_ok start bl n" "length (v (head_blk start)) = BSIZE" "b \<notin> log_area start n"
    and "\<And>b. b \<notin> bl ` {..<n} \<Longrightarrow> v b = d b"
  shows "apply_writes (committed start bl v n m d) (home_copies bl v n) b = v b"
proof (cases "b \<in> bl ` {..<n}")
  case True
  then show ?thesis using copies_view(2) [OF assms(1)] by auto
next
  case False
  have nb: "b \<notin> log_blk start ` {..<n}" "b \<noteq> head_blk start" using assms(3) by (auto simp: log_area_def)
  have "apply_writes (committed start bl v n m d) (home_copies bl v n) b = committed start bl v n m d b"
    using False by (intro apply_writes_other) (simp add: copies_dom)
  also have "\<dots> = d b" unfolding committed_def using False nb
    by (simp add: apply_take_other copies_dom apply_writes_other)
  finally show ?thesis using assms(4) [OF False] by simp
qed

text \<open>The disk after the first \<open>k\<close> writes of a commit.\<close>

lemma length_copies [simp]: "length (log_copies start bl v n) = n" "length (home_copies bl v n) = n"
  by (simp_all add: log_copies_def home_copies_def)

lemma commit_prefix_old:
  assumes "k \<le> n" "b \<notin> log_blk start ` {..<n}"
  shows "apply_writes d (take k (commit_writes start bl v n)) b = d b"
proof -
  have "take k (commit_writes start bl v n) = take k (log_copies start bl v n)"
    using assms(1) by (simp add: commit_writes_def Let_def)
  then show ?thesis using assms(2) by (simp add: apply_take_other copies_dom)
qed

lemma commit_prefix_new:
  assumes "n < k" "k \<le> 2 * n + 1"
  shows "apply_writes d (take k (commit_writes start bl v n)) = committed start bl v n (k - Suc n) d"
  using assms by (simp add: commit_writes_def Let_def committed_def take_Cons')

lemma commit_prefix_all:
  assumes "2 * n + 1 < k"
  shows "apply_writes d (take k (commit_writes start bl v n)) =
    (committed start bl v n n d)(head_blk start := put_header 0 bl (put_header (int n) bl (v (head_blk start))))"
  using assms by (simp add: commit_writes_def Let_def committed_def take_Cons')

lemma commit_ready_clean:
  assumes "commit_ready cur me n s" "b \<notin> log_block s ` {..<n}"
  shows "bview (log_dev s) (bufs s) (disk s) b = disk s b"
  using kernel_cache.clean [of cur me "log_dev s" s b] assms by (auto simp: commit_ready_def)

text \<open>What recovery makes of the disk that any prefix of a commit leaves.\<close>

lemma recover_prefix:
  assumes ready: "commit_ready cur me n s" and old: "head_count (disk s (head_blk (log_start s))) = 0"
    and len: "length (disk s (head_blk (log_start s))) = BSIZE"
    and boot: "boot_ready cur' me' (log_dev r) r" and st: "log_start r = log_start s"
    and dsk: "disk r = apply_writes (disk s) (take k (commit_writes (log_start s) (log_block s) (bview (log_dev s) (bufs s) (disk s)) n))"
  shows "\<exists>r'. recover_from_log cur' r = Ret r' \<and> log_n r' = 0 \<and> head_count (disk r' (head_blk (log_start s))) = 0 \<and>
     (\<forall>b. b \<notin> log_area (log_start s) n \<longrightarrow>
        disk r' b = (if k \<le> n then disk s b else bview (log_dev s) (bufs s) (disk s) b))"
proof -
  let ?st = "log_start s" and ?bl = "log_block s" and ?v = "bview (log_dev s) (bufs s) (disk s)" and ?h = "head_blk (log_start s)"
  have ok: "trans_ok ?st ?bl n" using ready by (simp add: commit_ready_def)
  have vh: "?v ?h = disk s ?h" using commit_ready_clean [OF ready trans_ok_notin(1) [OF ok]] .
  have clean: "?v b = disk s b" if "b \<notin> ?bl ` {..<n}" for b using commit_ready_clean [OF ready that] .
  have lenv: "length (?v ?h) = BSIZE" using vh len by simp
  have nl: "int n \<le> int LOGSIZE" using ok by (simp add: trans_ok_def)
  note lenh = put_header_read(2) [OF lenv of_nat_0_le_iff nl, of ?bl]
  define P where "P \<longleftrightarrow> trans_ok ?st (\<lambda>i. get32 (4 + 4 * i) (disk r ?h)) (nat (head_count (disk r ?h))) \<and> length (disk r ?h) = BSIZE \<and>
    (\<forall>b. b \<notin> log_area ?st n \<longrightarrow> apply_writes (disk r) (replay ?st (disk r)) b = (if k \<le> n then disk s b else ?v b))"
  have none: "P" if "head_count (disk r ?h) = 0" "length (disk r ?h) = BSIZE"
      "\<And>b. b \<notin> log_area ?st n \<Longrightarrow> disk r b = (if k \<le> n then disk s b else ?v b)"
    using that by (simp add: P_def replay_empty trans_ok_def)
  have P
  proof -
    consider "k \<le> n" | "n < k" "k \<le> 2 * n + 1" | "2 * n + 1 < k" by linarith
    then show P
    proof cases
      case 1
      have "disk r b = disk s b" if "b \<notin> log_blk ?st ` {..<n}" for b
        unfolding dsk by (rule commit_prefix_old [OF 1 that])
      then show P using none old len trans_ok_notin(2) [OF ok] 1 by (simp add: log_area_def)
    next
      case 2
      have d: "disk r = committed ?st ?bl ?v n (k - Suc n) (disk s)" unfolding dsk by (rule commit_prefix_new [OF 2])
      note c = committed_facts [where v = ?v and m = "k - Suc n" and d = "disk s", OF ok lenv]
      have "trans_ok ?st (\<lambda>i. get32 (4 + 4 * i) (disk r ?h)) n"
        using ok c(2) unfolding d by (auto simp: trans_ok_def inj_on_def image_iff)
      then show P unfolding P_def using c(1,4) committed_replay [where v = ?v, OF ok lenv]
          committed_done [where v = ?v and d = "disk s", OF ok lenv _ clean] 2
        by (simp add: d)
    next
      case 3
      have d: "disk r = (committed ?st ?bl ?v n n (disk s))(?h := put_header 0 ?bl (put_header (int n) ?bl (?v ?h)))"
        unfolding dsk by (rule commit_prefix_all [OF 3])
      have "committed ?st ?bl ?v n n (disk s) = apply_writes (committed ?st ?bl ?v n 0 (disk s)) (home_copies ?bl ?v n)"
        by (simp add: committed_def)
      then have "disk r b = ?v b" if "b \<notin> log_area ?st n" for b
        using committed_done [where v = ?v and d = "disk s", OF ok lenv that clean] that by (simp add: d log_area_def)
      then show P using none head_count_zero [OF lenh] put_header_read(2) [OF lenh, of 0] 3 by (simp add: d)
    qed
  qed
  then obtain r' bl where r': "recover_from_log cur' r = Ret r'" "log_n r' = 0"
     "disk r' = (apply_writes (disk r) (replay ?st (disk r)))(?h := put_header 0 bl (disk r ?h))"
    using recover_spec [OF boot] unfolding P_def st by blast
  then show ?thesis using \<open>P\<close> head_count_zero [of "disk r ?h" bl] by (auto simp: P_def log_area_def)
qed

end
