(* ===== verification/Cache_Coherence.thy ===== *)
theory Cache_Coherence
  imports Buffer_Cache
begin

text \<open>
  Properties of \<^verbatim>\<open>kernel/buffer_cache.cpp\<close>: the constructor establishes the cache invariant, a
  block that is read has the contents last written to it, the one panic of \<open>read\<close>, and the order in
  which buffers are reused.
\<close>

section \<open>The constructor\<close>

definition zero_buf :: buf where
  "zero_buf = \<lparr>valid = False, buf_dev = 0, blockno = 0, buf_lock = None, refcnt = 0,
     buf_prev = None, buf_next = None, buf_data = []\<rparr>"

lemma cache_init_loop_abs:
  assumes "dlist_abs buf_links bs l [0..<NBUF - n]" "n \<le> NBUF" "cache_init_loop n (l, bs) = (l', bs')"
  shows "dlist_abs buf_links bs' l' [0..<NBUF] \<and> agree bs' bs"
  using assms
proof (induction n arbitrary: l bs)
  case 0
  then show ?case by (simp add: agree_def same_but_links_def)
next
  case (Suc n)
  obtain l1 bs1 where p: "dlist_push_back buf_links (NBUF - Suc n) l bs = (l1, bs1)" by fastforce
  have "dlist_abs buf_links bs1 l1 ([0..<NBUF - Suc n] @ [NBUF - Suc n])"
    by (rule buf_list.push_back_abs [OF Suc.prems(1) _ p]) simp
  moreover have "[0..<NBUF - Suc n] @ [NBUF - Suc n] = [0..<NBUF - n]"
    using Suc.prems(2) by (metis Suc_diff_Suc Suc_le_lessD le0 upt_Suc_append)
  ultimately have "dlist_abs buf_links bs' l' [0..<NBUF] \<and> agree bs' bs1"
    using Suc.IH [of bs1 l1] Suc.prems p by simp
  moreover have "agree bs1 bs" using dlist_ops_links(3) [OF p] by (simp add: agree_def)
  ultimately show ?case by (auto simp: agree_def same_but_links_def)
qed

lemma buffer_cache_init_fields [simp]:
  "disk (buffer_cache_init s) = disk s" "processes (buffer_cache_init s) = processes s"
  by (simp_all add: buffer_cache_init_def case_prod_unfold Let_def)

lemma buffer_cache_init_facts:
  assumes "bufs s = (\<lambda>_. zero_buf)" "dev \<noteq> 0"
  shows "cache_ok dev (buffer_cache_init s)" "nfree (bufs (buffer_cache_init s)) = NBUF"
    and "brefs dev (bufs (buffer_cache_init s)) = (\<lambda>_. 0)" "bheld dev (bufs (buffer_cache_init s)) = {}"
    and "bview dev (bufs (buffer_cache_init s)) (disk (buffer_cache_init s)) = disk s"
proof -
  obtain l bs where i: "cache_init_loop NBUF (dlist_new, bufs s) = (l, bs)" by fastforce
  have a: "dlist_abs buf_links bs l [0..<NBUF] \<and> agree bs (bufs s)"
    by (rule cache_init_loop_abs [OF _ _ i]) (simp_all add: dlist_abs_new)
  then have ag: "agree bs (\<lambda>_. zero_buf)" using assms(1) by simp
  have none: "\<not> cached dev (\<lambda>_. zero_buf) blk j" for blk j using assms(2) by (simp add: cached_def zero_buf_def)
  have s: "slot dev (\<lambda>_. zero_buf) blk = None" for blk using none slot_None_iff by blast
  have f: "bufs (buffer_cache_init s) = bs" "cache (buffer_cache_init s) = l"
    using i by (simp_all add: buffer_cache_init_def)
  have "bufs_ok dev bs (disk s)"
    using agree_abs(7) [OF ag] none by (auto simp: bufs_ok_def zero_buf_def)
  moreover have "\<exists>xs. dlist_abs buf_links bs l xs \<and> set xs = {..<NBUF}"
    using a by (intro exI [of _ "[0..<NBUF]"]) (simp add: atLeast0LessThan)
  ultimately show "cache_ok dev (buffer_cache_init s)" by (simp add: cache_ok_def f)
  show "nfree (bufs (buffer_cache_init s)) = NBUF" using agree_abs(5) [OF ag] by (simp add: f nfree_def zero_buf_def)
  show "brefs dev (bufs (buffer_cache_init s)) = (\<lambda>_. 0)" "bheld dev (bufs (buffer_cache_init s)) = {}"
    "bview dev (bufs (buffer_cache_init s)) (disk (buffer_cache_init s)) = disk s"
    using agree_abs(2-4) [OF ag] s none by (auto simp: f brefs_def bheld_def bview_def fun_eq_iff)
qed

text \<open>
  The constructor of \<open>buffer_cache\<close>, run on its zero-initialised buffers, gives a cache that
  satisfies the invariant: all \<open>NBUF\<close> buffers are on the list once and free, nothing is locked or
  referenced, and every block of the device reads as it is on the disk.
\<close>

theorem buffer_cache_init_ok:
  assumes "bufs s = (\<lambda>_. zero_buf)" "dev \<noteq> 0"
  shows "cache_ok dev (buffer_cache_init s) \<and> nfree (bufs (buffer_cache_init s)) = NBUF \<and>
    brefs dev (bufs (buffer_cache_init s)) = (\<lambda>_. 0) \<and> bheld dev (bufs (buffer_cache_init s)) = {} \<and>
    bview dev (bufs (buffer_cache_init s)) (disk (buffer_cache_init s)) = disk s"
  using buffer_cache_init_facts [OF assms] by simp

definition demo_disk :: "u32 \<Rightarrow> block" where
  "demo_disk = (\<lambda>_. replicate BSIZE 0)"

definition demo_proc :: process where
  "demo_proc = \<lparr>pstate = UNUSED, pchan = None, killed = False, xstate = 0, pid = 0, parent = None,
     kstack = 0, sz = 0, pagetable = 0, trapframe = 0, context_ra = 0, context_sp = 0,
     ofile = (\<lambda>_. None), cwd = None, pname = []\<rparr>"

definition demo_bcache :: bcache where
  "demo_bcache = \<lparr>ram = (\<lambda>_. 0), free_list = slist_new, kernel_pagetable = 0, satp = 0,
     processes = (\<lambda>_. demo_proc\<lparr>pid := 1, pstate := RUNNING\<rparr>), next_pid = 2, initprocess = Some 0, ticks = 0,
     disk = demo_disk, disk_trace = [], bufs = (\<lambda>_. zero_buf), cache = dlist_new\<rparr>"

theorem buffer_cache_init_ok_witness:
  "bufs demo_bcache = (\<lambda>_. zero_buf) \<and> (1 :: u32) \<noteq> 0 \<and> cache_ok 1 (buffer_cache_init demo_bcache)"
  using buffer_cache_init_ok [of demo_bcache 1] by (simp add: demo_bcache_def)

section \<open>Contents\<close>

text \<open>A caller that reads a block, changes it, writes it and releases it: \<open>bread\<close>, \<open>bwrite\<close>, \<open>brelse\<close>.\<close>

definition write_block :: "nat \<Rightarrow> u32 \<Rightarrow> u32 \<Rightarrow> block \<Rightarrow> 'a bcache_scheme \<Rightarrow> 'a bcache_scheme res" where
  "write_block cur dev blk d s =
     kbind (cache_read cur dev blk s) (\<lambda>(b, s). kbind (cache_write cur b (buf_set_data b d s)) (\<lambda>s. cache_relse cur b s))"

fun write_blocks :: "nat \<Rightarrow> u32 \<Rightarrow> (u32 \<times> block) list \<Rightarrow> 'a bcache_scheme \<Rightarrow> 'a bcache_scheme res" where
  "write_blocks cur dev [] s = Ret s"
| "write_blocks cur dev ((blk, d) # ws) s = kbind (write_block cur dev blk d s) (write_blocks cur dev ws)"

lemma write_block_spec:
  assumes "cache_inv cur me dev s" "bheld dev (bufs s) = {}" "0 < nfree (bufs s)" "brefs dev (bufs s) = (\<lambda>_. 0)"
  shows "\<exists>s'. write_block cur dev blk d s = Ret s' \<and> kernel_cache.wrote cur me dev s s' blk d 0"
proof -
  have "write_block cur dev blk d s =
      blk_update (cache_read cur dev) (cache_write cur) (cache_relse cur) buf_set_data (\<lambda>b s. buf_data (bufs s b)) blk (\<lambda>_. d) s"
    by (simp add: write_block_def blk_update_def)
  then show ?thesis using kernel_cache.blk_update_wrote [OF assms(1), of blk "\<lambda>_. d"] assms by simp
qed

lemma wroteD:
  assumes "kernel_cache.wrote cur me dev s s' blk d 0"
  shows "cache_inv cur me dev s'" "bheld dev (bufs s') = bheld dev (bufs s)" "nfree (bufs s') = nfree (bufs s)"
    and "brefs dev (bufs s') = brefs dev (bufs s)" "disk s' = (disk s)(blk := d)"
proof -
  note w = assms [unfolded kernel_cache.wrote_def]
  show "cache_inv cur me dev s'" "bheld dev (bufs s') = bheld dev (bufs s)" "disk s' = (disk s)(blk := d)" using w by blast+
  have "nfree (bufs s') = nfree (bufs s) + (if 0 < (0::nat) \<and> brefs dev (bufs s) blk = 0 then 1 else 0)" using w by blast
  then show "nfree (bufs s') = nfree (bufs s)" by simp
  have "brefs dev (bufs s') = (brefs dev (bufs s))(blk := brefs dev (bufs s) blk - 0)" using w by blast
  then show "brefs dev (bufs s') = brefs dev (bufs s)" by simp
qed

lemma write_blocks_spec:
  assumes "cache_inv cur me dev s" "bheld dev (bufs s) = {}" "0 < nfree (bufs s)" "brefs dev (bufs s) = (\<lambda>_. 0)"
  shows "\<exists>s'. write_blocks cur dev ws s = Ret s' \<and> cache_inv cur me dev s' \<and> bheld dev (bufs s') = {} \<and>
    0 < nfree (bufs s') \<and> brefs dev (bufs s') = (\<lambda>_. 0) \<and> disk s' = foldl (\<lambda>m (b, d). m(b := d)) (disk s) ws"
  using assms
proof (induction ws arbitrary: s)
  case (Cons w ws)
  obtain blk d where w: "w = (blk, d)" by fastforce
  obtain s1 where s1: "write_block cur dev blk d s = Ret s1" "kernel_cache.wrote cur me dev s s1 blk d 0"
    using write_block_spec [OF Cons.prems] by blast
  note f = wroteD [OF s1(2)]
  have "bheld dev (bufs s1) = {}" "0 < nfree (bufs s1)" "brefs dev (bufs s1) = (\<lambda>_. 0)" and d: "disk s1 = (disk s)(blk := d)"
    using f(2-5) Cons.prems(2-4) by simp_all
  from Cons.IH [OF f(1) this(1-3)] s1(1) show ?case by (simp add: w d)
qed simp

text \<open>
  C2. The cache is coherent: after any sequence of blocks written through it, however the \<open>NBUF\<close>
  buffers were reused in between, \<open>read\<close> returns a locked buffer of the requested block whose data
  is what was last written to that block, or the disk's contents if nothing was.
\<close>

theorem cache_read_last_written:
  assumes "cache_inv cur me dev s" "bheld dev (bufs s) = {}" "0 < nfree (bufs s)" "brefs dev (bufs s) = (\<lambda>_. 0)"
  shows "\<exists>b s'. kbind (write_blocks cur dev ws s) (cache_read cur dev blk) = Ret (b, s') \<and>
    buf_dev (bufs s' b) = dev \<and> blockno (bufs s' b) = blk \<and> buf_lock (bufs s' b) = Some me \<and>
    buf_data (bufs s' b) = (case map_of (rev ws) blk of None \<Rightarrow> disk s blk | Some d \<Rightarrow> d)"
proof -
  obtain s1 where s1: "write_blocks cur dev ws s = Ret s1" "cache_inv cur me dev s1" "bheld dev (bufs s1) = {}"
    "0 < nfree (bufs s1)" "brefs dev (bufs s1) = (\<lambda>_. 0)" "disk s1 = foldl (\<lambda>m (b, d). m(b := d)) (disk s) ws"
    using write_blocks_spec [OF assms] by blast
  obtain b s' where r: "cache_read cur dev blk s1 = Ret (b, s')" "bhandle dev me (bufs s') b = Some blk"
    "cache_step dev me blk s1 s' 1 True (bview dev (bufs s1) (disk s1) blk)"
    using kernel_cache.bread [OF s1(2), of blk] s1(3-5) by auto
  have ok: "cache_inv cur me dev s'" "bview dev (bufs s') (disk s') = bview dev (bufs s1) (disk s1)"
    using kernel_cache.stp [of dev me blk s1 s' 1 True _ cur] r(3) s1(2) by (auto simp: cache_inv_def)
  have "bview dev (bufs s1) (disk s1) blk = disk s1 blk"
    using kernel_cache.clean [OF s1(2)] s1(5) by simp
  moreover have "foldl (\<lambda>m (b, d). m(b := d)) m ws blk = (case map_of (rev ws) blk of None \<Rightarrow> m blk | Some d \<Rightarrow> d)" for m
    by (induction ws arbitrary: m rule: rev_induct) auto
  ultimately have "buf_data (bufs s' b) = (case map_of (rev ws) blk of None \<Rightarrow> disk s blk | Some d \<Rightarrow> d)"
    using kernel_cache.handle_view [OF ok(1) r(2)] ok(2) s1(6) by simp
  then show ?thesis using r(1,2) s1(1) by (auto simp: bhandle_cached cached_def)
qed

lemma demo_cache_inv:
  "cache_inv 0 1 1 (buffer_cache_init demo_bcache)" "bheld 1 (bufs (buffer_cache_init demo_bcache)) = {}"
  "nfree (bufs (buffer_cache_init demo_bcache)) = NBUF" "brefs 1 (bufs (buffer_cache_init demo_bcache)) = (\<lambda>_. 0)"
  using buffer_cache_init_facts [of demo_bcache 1] by (simp_all add: cache_inv_def demo_bcache_def)

theorem cache_read_last_written_witness:
  "cache_inv 0 1 1 (buffer_cache_init demo_bcache) \<and> (\<exists>b s'. kbind (write_blocks 0 1 [(5, [1]), (6, [2]), (5, [3])]
     (buffer_cache_init demo_bcache)) (cache_read 0 1 5) = Ret (b, s') \<and> buf_data (bufs s' b) = [3])"
  using cache_read_last_written [of 0 1 1 "buffer_cache_init demo_bcache" "[(5, [1]), (6, [2]), (5, [3])]" 5]
    demo_cache_inv by auto

section \<open>Running out of buffers\<close>

lemma kbind_not_Panic: "kbind r f = Panic m \<longleftrightarrow> r = Panic m \<or> (\<exists>x. r = Ret x \<and> f x = Panic m)"
  by (cases r) auto

text \<open>
  \<open>read\<close> panics in exactly one case: the block is not in the cache and every one of the \<open>NBUF\<close>
  buffers is referenced. In every other state it returns a buffer or waits for the buffer's lock.
\<close>

theorem cache_read_panics:
  assumes "cache_ok dev s"
  shows "(\<exists>m. cache_read cur dev blk s = Panic m) \<longleftrightarrow>
    (\<forall>i < NBUF. refcnt (bufs s i) \<noteq> 0) \<and> (\<forall>i < NBUF. \<not> (buf_dev (bufs s i) = dev \<and> blockno (bufs s i) = blk))"
proof -
  have free: "nfree (bufs s) = 0 \<longleftrightarrow> (\<forall>i < NBUF. refcnt (bufs s i) \<noteq> 0)" by (auto simp: nfree_def)
  have none: "slot dev (bufs s) blk = None \<longleftrightarrow> (\<forall>i < NBUF. \<not> (buf_dev (bufs s i) = dev \<and> blockno (bufs s i) = blk))"
    by (auto simp: slot_None_iff cached_def)
  have np: "\<exists>b s'. cache_pick dev blk s = Ret (b, s')" if "\<not> (nfree (bufs s) = 0 \<and> slot dev (bufs s) blk = None)"
  proof (cases "slot dev (bufs s) blk")
    case None
    then have "nfree (bufs s) \<noteq> 0" using that by simp
    then show ?thesis using cache_pick_spec [OF assms, of blk] by (metis (no_types, lifting))
  next
    case (Some i)
    then show ?thesis by (simp add: cache_pick_def cache_find_spec [OF assms])
  qed
  have pan: "cache_pick dev blk s = Panic ''buffer_cache::read: no buffers''" if "nfree (bufs s) = 0" "slot dev (bufs s) blk = None"
  proof -
    obtain xs where xs: "set xs = {..<NBUF}" "cache_find_free s = Ret (find (\<lambda>b. refcnt (bufs s b) = 0) (rev xs))"
      using cache_find_free_spec [OF assms] by metis
    then have "find (\<lambda>b. refcnt (bufs s b) = 0) (rev xs) = None" using that(1) free by (auto simp: find_None_iff)
    then show ?thesis using xs(2) that(2) by (simp add: cache_pick_def cache_find_spec [OF assms])
  qed
  have "(\<exists>m. cache_read cur dev blk s = Panic m) \<longleftrightarrow> (\<exists>m. cache_pick dev blk s = Panic m)"
    by (cases "cache_pick dev blk s")
      (auto simp: cache_read_def cache_get_pick buf_acquire_def Let_def kbind_not_Panic split: prod.splits)
  then show ?thesis using np pan free none by (metis res.distinct(1))
qed

theorem cache_read_panics_witness:
  "cache_ok 1 (buffer_cache_init demo_bcache) \<and> \<not> (\<exists>m. cache_read 0 1 7 (buffer_cache_init demo_bcache) = Panic m)"
proof -
  have "\<exists>i < NBUF. refcnt (bufs (buffer_cache_init demo_bcache) i) = 0"
  proof (rule ccontr)
    assume "\<not> (\<exists>i < NBUF. refcnt (bufs (buffer_cache_init demo_bcache) i) = 0)"
    then have "{i. i < NBUF \<and> refcnt (bufs (buffer_cache_init demo_bcache) i) = 0} = {}" by blast
    then show False using demo_cache_inv(3) unfolding nfree_def by (simp only: card.empty)
  qed
  then show ?thesis using cache_read_panics [of 1 "buffer_cache_init demo_bcache" 0 7] demo_cache_inv(1)
    by (auto simp: cache_inv_def)
qed

section \<open>Which buffer is reused\<close>

lemma push_back_tail: "dlist_tail (fst (dlist_push_back k n l s)) = Some n"
  by (simp add: dlist_push_back_def Let_def split: option.splits)

text \<open>
  C33. A released buffer is the first to be reused: when the last reference to a buffer is dropped, the
  next read of a block that is not cached evicts that very buffer, whichever other buffers are free.
  The comment on \<open>relse\<close> asks for the front of an LRU list; the code pushes to the back, where \<open>read\<close>
  looks for its victim.
\<close>

theorem relse_then_evicted:
  assumes "cache_ok dev s" "bhandle dev me (bufs s) b = Some blk" "pid (processes s cur) = me"
    and "brefs dev (bufs s) blk = 1" "bview dev (bufs s) (disk s) blk = disk s blk" "slot dev (bufs s) blk' = None"
  shows "\<exists>s1 s2. cache_relse cur b s = Ret s1 \<and> cache_get dev blk' s1 = Ret (b, s2) \<and> blockno (bufs s2 b) = blk'"
proof -
  have cb: "cached dev (bufs s) blk b" "buf_lock (bufs s b) = Some me" using assms(2) by (simp_all add: bhandle_cached)
  have one: "refcnt (bufs s b) = 1" using cache_ok_cached(1) [OF assms(1) cb(1)] assms(4) by (metis unat_1 unsigned_word_eqI)
  define x where "x = (bufs s b)\<lparr>buf_lock := None, refcnt := 0\<rparr>"
  obtain l1 bs1 where r: "dlist_remove buf_links b (cache s) ((bufs s)(b := x)) = (l1, bs1)" by fastforce
  obtain l2 bs2 where p: "dlist_push_back buf_links b l1 bs1 = (l2, bs2)" by fastforce
  have ag: "agree bs2 ((bufs s)(b := x))"
    using dlist_ops_links(1) [OF r] dlist_ops_links(3) [OF p] by (auto simp: agree_def same_but_links_def)
  obtain s1 where s1: "cache_relse cur b s = Ret s1" "cache_step dev me blk s s1 0 False (bview dev (bufs s) (disk s) blk)"
    using cache_relse_spec [OF assms(1-3)] assms(4,5) by auto
  have "bufs s1 = bs2 \<and> cache s1 = l2"
    using s1(1) cb(2) assms(3) one r p
    by (simp add: cache_relse_def buf_holding_def buf_release_def upd_buf_def x_def Let_def) auto
  then have f: "bufs s1 = bs2" "cache s1 = l2" by simp_all
  have ok: "cache_ok dev s1" using s1(2) by (simp add: cache_step_def)
  have "bufs_ok dev (bufs s) (disk s)" using assms(1) by (simp add: cache_ok_def)
  then have "slot dev (bufs s1) blk' = None"
    using upd_same_key(1) [of dev "bufs s" "disk s" blk b x] cb(1) assms(6) agree_abs(1) [OF ag]
    by (simp add: f cached_def x_def)
  moreover have z: "refcnt (bs2 b) = 0" using ag by (simp add: agree_def same_but_links_def x_def)
  have tail: "dlist_tail l2 = Some b" using push_back_tail [of buf_links b l1 bs1] p by simp
  have "cache_find_free s1 = Ret (Some b)" unfolding cache_find_free_def f tail scan.simps using z by simp
  ultimately have "cache_pick dev blk' s1 = Ret (b, upd_buf b (\<lambda>x. x\<lparr>buf_dev := dev, blockno := blk', valid := False\<rparr>) s1)"
    using cache_find_spec [OF ok, of blk'] by (simp add: cache_pick_def)
  note pick = this
  define y where "y = (bufs s1 b)\<lparr>buf_dev := dev, blockno := blk', valid := False, refcnt := refcnt (bufs s1 b) + 1\<rparr>"
  obtain l3 bs3 where r3: "dlist_remove buf_links b (cache s1) ((bufs s1)(b := y)) = (l3, bs3)" by fastforce
  obtain l4 bs4 where p4: "dlist_push_front buf_links b l3 bs3 = (l4, bs4)" by fastforce
  have "blockno (bs4 b) = blk'"
    using dlist_ops_links(1) [OF r3, of b] dlist_ops_links(2) [OF p4, of b] by (simp add: same_but_links_def y_def)
  moreover have "cache_get dev blk' s1 = Ret (b, s1\<lparr>cache := l4, bufs := bs4\<rparr>)"
    using pick r3 p4 unfolding cache_get_pick y_def by (simp add: upd_buf_def Let_def)
  ultimately obtain s2 where "cache_get dev blk' s1 = Ret (b, s2)" "blockno (bufs s2 b) = blk'" by fastforce
  then show ?thesis using s1(1) by blast
qed

lemma some_uncached: "\<exists>blk. slot dev bs blk = None"
proof -
  let ?C = "(\<lambda>i. blockno (bs i)) ` {..<NBUF}"
  have "card ?C \<le> NBUF" using card_image_le [of "{..<NBUF}" "\<lambda>i. blockno (bs i)"] by simp
  moreover have "card (UNIV :: u32 set) = 2 ^ 32" by (simp add: card_word)
  ultimately have "?C \<noteq> UNIV" by auto
  then obtain blk where "blk \<notin> ?C" by blast
  then have "slot dev bs blk = None" by (auto simp: slot_None_iff cached_def)
  then show ?thesis ..
qed

theorem relse_then_evicted_witness:
  "\<exists>s :: bcache. \<exists>b blk s1 s2. cache_ok 1 s \<and> bhandle 1 1 (bufs s) b = Some 5 \<and> brefs 1 (bufs s) 5 = 1 \<and> slot 1 (bufs s) blk = None \<and>
     cache_relse 0 b s = Ret s1 \<and> cache_get 1 blk s1 = Ret (b, s2) \<and> blockno (bufs s2 b) = blk"
proof -
  let ?s = "buffer_cache_init demo_bcache"
  obtain b s where r: "cache_read 0 1 5 ?s = Ret (b, s)" "bhandle 1 1 (bufs s) b = Some 5"
    "cache_step 1 1 5 ?s s 1 True (bview 1 (bufs ?s) (disk ?s) 5)" "disk s = disk ?s"
    using kernel_cache.bread [OF demo_cache_inv(1), of 5] demo_cache_inv(2-4) by auto
  have s: "cache_inv 0 1 1 s" "bview 1 (bufs s) (disk s) = bview 1 (bufs ?s) (disk ?s)" "brefs 1 (bufs s) 5 = 1"
    using kernel_cache.stp [of 1 1 5 ?s s 1 True _ 0] r(3) demo_cache_inv(1) by (auto simp: cache_inv_def)
  have v: "bview 1 (bufs s) (disk s) 5 = disk s 5"
    using s(2) r(4) kernel_cache.clean [OF demo_cache_inv(1), of 5] demo_cache_inv(4) by simp
  obtain blk where n: "slot 1 (bufs s) blk = None" using some_uncached by blast
  then show ?thesis using relse_then_evicted [of 1 s 1 b 5 0 blk] s r(2) v unfolding cache_inv_def by blast
qed

end
