(* ===== verification/Log_Recovery.thy ===== *)
theory Log_Recovery
  imports File_System_Log Cache_Coherence
begin

text \<open>
  Properties of \<^verbatim>\<open>kernel/file_system_log.cpp\<close>: log absorption and the limits of \<open>log_write\<close>, the
  reservation made by \<open>begin_op\<close>, a whole transaction, and the atomicity of a commit with respect to
  a crash between any two of its disk writes.
\<close>

section \<open>Adding a block to the transaction\<close>

lemma absorb_found: "\<exists>j. i \<le> j \<and> j < i + k \<and> bl j = blk \<Longrightarrow> i \<le> absorb k i bl blk \<and> absorb k i bl blk < i + k \<and> bl (absorb k i bl blk) = blk"
proof (induction k arbitrary: i)
  case (Suc k)
  show ?case
  proof (cases "bl i = blk")
    case False
    with Suc.prems have "\<exists>j. Suc i \<le> j \<and> j < Suc i + k \<and> bl j = blk"
      by (metis Suc_leI add_Suc_right add_Suc le_neq_implies_less)
    from Suc.IH [OF this] False show ?thesis by auto
  qed simp
qed auto

lemma absorb_new: "\<forall>j. i \<le> j \<and> j < i + k \<longrightarrow> bl j \<noteq> blk \<Longrightarrow> absorb k i bl blk = i + k"
  by (induction k arbitrary: i) auto

lemma bhandle_blockno: "bhandle dev me bs b = Some blk \<Longrightarrow> blockno (bs b) = blk"
  by (simp add: bhandle_cached cached_def)

text \<open>The two branches of \<open>log_write\<close>: a block of the transaction is absorbed, any other is appended and pinned.\<close>

lemma log_write_absorbed:
  assumes "log_n s = int n" "n < LOGSIZE" "int n < log_size s - 1" "1 \<le> log_outstanding s"
    and "blockno (bufs s b) \<in> log_block s ` {..<n}"
  shows "log_write b s = Ret s"
proof -
  let ?i = "absorb n 0 (log_block s) (blockno (bufs s b))"
  have "\<exists>j. 0 \<le> j \<and> j < 0 + n \<and> log_block s j = blockno (bufs s b)" using assms(5) by (metis add_0 imageE le0 lessThan_iff)
  from absorb_found [OF this] have "?i < n \<and> log_block s ?i = blockno (bufs s b)" by simp
  then have "(log_block s)(?i := blockno (bufs s b)) = log_block s" "int ?i \<noteq> log_n s" using assms(1) by auto
  then show ?thesis using assms(1-4) by (simp add: log_write_def Let_def)
qed

lemma log_write_appended:
  assumes "log_n s = int n" "n < LOGSIZE" "int n < log_size s - 1" "1 \<le> log_outstanding s"
    and "blockno (bufs s b) \<notin> log_block s ` {..<n}"
  shows "log_write b s = Ret ((cache_pin b (s\<lparr>log_block := (log_block s)(n := blockno (bufs s b))\<rparr>))\<lparr>log_n := int n + 1\<rparr>)"
proof -
  have "absorb n 0 (log_block s) (blockno (bufs s b)) = n"
    using absorb_new [of 0 n "log_block s" "blockno (bufs s b)"] assms(5) by (metis add_0 imageI lessThan_iff)
  then show ?thesis using assms(1-4) by (simp add: log_write_def Let_def)
qed

lemma cache_pin_log [simp]:
  "log_block (cache_pin b (s :: 'a fslog_scheme)) = log_block s" "log_n (cache_pin b s) = log_n s"
  "log_start (cache_pin b s) = log_start s" "log_dev (cache_pin b s) = log_dev s"
  by (simp_all add: cache_pin_def upd_buf_def)

definition demo_log :: fslog where
  "demo_log = buffer_cache_init \<lparr>ram = (\<lambda>_. 0), free_list = slist_new, kernel_pagetable = 0, satp = 0,
     processes = (\<lambda>_. demo_proc\<lparr>pid := 1, pstate := RUNNING\<rparr>), next_pid = 2, initprocess = Some 0, ticks = 0,
     disk = demo_disk, disk_trace = [], bufs = (\<lambda>_. zero_buf), cache = dlist_new,
     log_start = 2, log_size = 31, log_outstanding = 0, log_committing = False, log_dev = 1, log_n = 0, log_block = (\<lambda>_. 0)\<rparr>"

lemma demo_log_fields:
  "log_start demo_log = 2" "log_size demo_log = 31" "log_outstanding demo_log = 0" "\<not> log_committing demo_log"
  "log_dev demo_log = 1" "log_n demo_log = 0" "disk demo_log = demo_disk" "pid (processes demo_log i) = 1"
  by (simp_all add: demo_log_def buffer_cache_init_def case_prod_unfold Let_def)

lemma demo_log_boot: "boot_ready 0 1 1 demo_log"
  unfolding demo_log_def boot_ready_def cache_inv_def
  by (intro conjI) (simp_all add: buffer_cache_init_facts(1,3,4) buffer_cache_init_facts(2) [where dev = 1])

text \<open>
  \<open>log_write\<close> adds the buffer's block to the transaction exactly once: the set of logged blocks
  becomes the old set with the block, the entries stay distinct, a block is pinned with one more
  reference when it is new and not at all when it is absorbed, and no block's contents change.
\<close>

theorem log_write_adds:
  assumes "cache_inv cur me (log_dev s) s" "bhandle (log_dev s) me (bufs s) b = Some blk"
    and "brefs (log_dev s) (bufs s) blk + 1 < 2 ^ 32" "log_n s = int n" "inj_on (log_block s) {..<n}"
    and "n < LOGSIZE" "int n < log_size s - 1" "1 \<le> log_outstanding s"
  shows "\<exists>s' m. log_write b s = Ret s' \<and> log_n s' = int m \<and> inj_on (log_block s') {..<m} \<and>
    log_block s' ` {..<m} = insert blk (log_block s ` {..<n}) \<and>
    brefs (log_dev s) (bufs s') = (brefs (log_dev s) (bufs s))(blk := brefs (log_dev s) (bufs s) blk +
        (if blk \<in> log_block s ` {..<n} then 0 else 1)) \<and>
    bview (log_dev s) (bufs s') (disk s') = bview (log_dev s) (bufs s) (disk s)"
proof (cases "blk \<in> log_block s ` {..<n}")
  case True
  then show ?thesis using log_write_absorbed [OF assms(4,6-8)] bhandle_blockno [OF assms(2)] assms(4,5)
    by (intro exI [of _ s] exI [of _ n]) (auto simp: insert_absorb)
next
  case False
  let ?s = "s\<lparr>log_block := (log_block s)(n := blk)\<rparr>"
  let ?t = "(cache_pin b ?s)\<lparr>log_n := int n + 1\<rparr>"
  have "log_write b s = Ret ?t"
    using log_write_appended [OF assms(4,6-8)] bhandle_blockno [OF assms(2)] False by simp
  moreover have "cache_step (log_dev s) me blk ?s (cache_pin b ?s) (brefs (log_dev s) (bufs s) blk + 1) True (bview (log_dev s) (bufs s) (disk s) blk)"
    using cache_pin_spec(1) [of "log_dev s" ?s me b blk] assms(1-3) by (simp add: cache_inv_def cache_ok_def)
  moreover have "inj_on ((log_block s)(n := blk)) {..<Suc n}" "(log_block s)(n := blk) ` {..<Suc n} = insert blk (log_block s ` {..<n})"
    using assms(5) False by (auto simp: inj_on_def lessThan_Suc image_iff)
  ultimately show ?thesis using False
    by (intro exI [of _ ?t] exI [of _ "Suc n"]) (auto simp: cache_step_def cache_pin_def upd_buf_def)
qed

theorem log_write_adds_witness:
  "\<exists>(s :: fslog) b s' m. cache_inv 0 1 (log_dev s) s \<and> bhandle (log_dev s) 1 (bufs s) b = Some 40 \<and> 1 \<le> log_outstanding s \<and>
     log_write b s = Ret s' \<and> log_n s' = int m \<and> log_block s' ` {..<m} = {40}"
proof -
  let ?s = "demo_log\<lparr>log_outstanding := 1\<rparr>"
  have inv: "cache_inv 0 1 1 ?s" "40 \<notin> bheld 1 (bufs ?s)" "brefs 1 (bufs ?s) = (\<lambda>_. 0)" "nfree (bufs ?s) \<noteq> 0"
    using demo_log_boot by (simp_all add: boot_ready_def cache_inv_def cache_ok_def)
  obtain b s1 where r: "cache_read 0 1 40 ?s = Ret (b, s1)" "bhandle 1 1 (bufs s1) b = Some 40"
    "cache_step 1 1 40 ?s s1 1 True (bview 1 (bufs ?s) (disk ?s) 40)"
    using kernel_cache.bread [OF inv(1,2)] inv(3,4) by auto
  have s1: "cache_inv 0 1 1 s1" "brefs 1 (bufs s1) 40 = 1" "cache_rest s1 = cache_rest ?s"
    using kernel_cache.stp [of 1 1 40 ?s s1 1 True _ 0] r(3) inv(1) by (auto simp: cache_inv_def)
  note f = cache_rest_log [OF s1(3)]
  have o: "log_dev s1 = 1" "1 \<le> log_outstanding s1" "log_n s1 = 0" "log_size s1 = 31" by (simp_all add: f demo_log_fields)
  obtain s' m where "log_write b s1 = Ret s'" "log_n s' = int m" "log_block s' ` {..<m} = {40}"
    using log_write_adds [of 0 1 s1 b 40 0] s1(1,2) r(2) o by auto
  then show ?thesis using s1(1) r(2) o(2) unfolding o(1) [symmetric] by blast
qed

text \<open>
  The guards of \<open>log_write\<close>: it panics on a full log and outside a transaction, and then before
  any change; with room left inside a transaction it never panics.
\<close>

theorem log_write_errors:
  "(log_n s \<ge> int LOGSIZE \<or> log_n s \<ge> log_size s - 1 \<longrightarrow> log_write b s = Panic ''too big a transaction'') \<and>
   (log_n s < int LOGSIZE \<and> log_n s < log_size s - 1 \<and> log_outstanding s < 1 \<longrightarrow> log_write b s = Panic ''log_write outside of trans'') \<and>
   (log_n s < int LOGSIZE \<and> log_n s < log_size s - 1 \<and> 1 \<le> log_outstanding s \<longrightarrow> (\<exists>s'. log_write b s = Ret s'))"
  by (auto simp: log_write_def Let_def)

theorem log_write_errors_witness:
  "log_write 0 demo_log = Panic ''log_write outside of trans'' \<and>
   log_write 0 (demo_log\<lparr>log_n := 30\<rparr>) = Panic ''too big a transaction''"
  using log_write_errors [of demo_log 0] log_write_errors [of "demo_log\<lparr>log_n := 30\<rparr>" 0] by (simp add: demo_log_fields)

section \<open>Frames\<close>

text \<open>The cache operations leave the log's own fields alone.\<close>

definition log_same :: "'a fslog_scheme \<Rightarrow> 'a fslog_scheme \<Rightarrow> bool" where
  "log_same s s' \<longleftrightarrow> log_n s' = log_n s \<and> log_outstanding s' = log_outstanding s \<and> log_size s' = log_size s \<and>
     log_committing s' = log_committing s \<and> log_block s' = log_block s \<and> log_start s' = log_start s \<and> log_dev s' = log_dev s"

lemma log_same_simps [simp]: "log_same s s"
  "log_same s (upd_buf b f s') = log_same s s'" "log_same s (wakeup c0 c s') = log_same s s'"
  "log_same s (s'\<lparr>cache := l, bufs := bs\<rparr>) = log_same s s'"
  "log_same s (disk_read b s') = log_same s s'" "log_same s (disk_write b s') = log_same s s'"
  "log_same s (buf_release cur b s') = log_same s s'" "log_same s (buf_set_data b d s') = log_same s s'"
  by (simp_all add: log_same_def upd_buf_def wakeup_def disk_read_def disk_write_def buf_release_def buf_set_data_def Let_def)

lemma log_same_trans: "log_same s s1 \<Longrightarrow> log_same s1 s2 \<Longrightarrow> log_same s s2"
  by (simp add: log_same_def)

lemma cache_get_same: "cache_get dev blk s = Ret (b, s') \<Longrightarrow> log_same s s'"
  by (auto simp: cache_get_def Let_def split: prod.splits option.splits elim!: kbind_RetE)

lemma cache_read_same: "cache_read cur dev blk s = Ret (b, s') \<Longrightarrow> log_same s s'"
  by (auto simp: cache_read_def buf_acquire_def split: if_splits elim!: kbind_RetE dest!: cache_get_same)

lemma cache_relse_same: "cache_relse cur b s = Ret s' \<Longrightarrow> log_same s s'"
  by (auto simp: cache_relse_def Let_def split: prod.splits if_splits)

lemma cache_write_same: "cache_write cur b s = Ret s' \<Longrightarrow> log_same s s'"
  by (auto simp: cache_write_def split: if_splits)

lemma cache_unpin_same: "cache_unpin b s = Ret s' \<Longrightarrow> log_same s s'"
  by (auto simp: cache_unpin_def split: if_splits)

lemmas cache_same = cache_read_same cache_relse_same cache_write_same cache_unpin_same

lemma write_head_same: "write_head cur s = Ret s' \<Longrightarrow> log_same s s'"
  by (auto simp: write_head_def elim!: kbind_RetE dest!: cache_same) (meson log_same_simps(8) log_same_trans)

lemma write_log_loop_same: "write_log_loop cur k tail s = Ret s' \<Longrightarrow> log_same s s'"
proof (induction k arbitrary: tail s)
  case (Suc k)
  then show ?case
    by (auto elim!: kbind_RetE dest!: cache_same) (metis log_same_simps(8) log_same_trans)
qed simp

lemma install_loop_same: "install_loop cur rec k tail s = Ret s' \<Longrightarrow> log_same s s'"
proof (induction k arbitrary: tail s)
  case (Suc k)
  then show ?case
    by (auto elim!: kbind_RetE dest!: cache_same split: if_splits) (metis log_same_simps(8) log_same_trans)+
qed simp

lemma commit_same:
  assumes "commit cur s = Ret s'"
  shows "log_outstanding s' = log_outstanding s \<and> log_size s' = log_size s \<and> log_start s' = log_start s \<and>
    log_dev s' = log_dev s \<and> log_n s' = (if 0 < log_n s then 0 else log_n s)"
  using assms
  by (auto simp: commit_def write_log_def install_trans_def log_same_def split: if_splits elim!: kbind_RetE
    dest!: write_log_loop_same install_loop_same write_head_same)

section \<open>Reservations\<close>

text \<open>
  Runs of file system calls over the log, interleaved in any order: each call holds a budget of
  \<open>MAXOPBLOCKS\<close> \<open>log_write\<close>s between its \<open>begin_op\<close> and its \<open>end_op\<close>. Steps that do not change the
  log's fields (cache operations, other processes) may come anywhere.
\<close>

inductive log_run :: "nat list \<Rightarrow> 'a fslog_scheme \<Rightarrow> bool" where
  start: "log_n s = 0 \<Longrightarrow> log_outstanding s = 0 \<Longrightarrow> log_run [] s"
| beg: "log_run bs s \<Longrightarrow> begin_op s = Ret s' \<Longrightarrow> log_run (MAXOPBLOCKS # bs) s'"
| wr: "log_run bs s \<Longrightarrow> i < length bs \<Longrightarrow> 0 < bs ! i \<Longrightarrow> log_write b s = Ret s' \<Longrightarrow> log_run (bs[i := bs ! i - 1]) s'"
| fin: "log_run bs s \<Longrightarrow> i < length bs \<Longrightarrow> end_op cur s = Ret s' \<Longrightarrow> log_run (take i bs @ drop (Suc i) bs) s'"
| other: "log_run bs s \<Longrightarrow> log_same s s' \<Longrightarrow> log_run bs s'"

lemma log_write_n:
  assumes "log_write b s = Ret s'"
  shows "log_outstanding s' = log_outstanding s" "log_n s' \<le> log_n s + 1" "log_n s \<le> log_n s'"
  using assms by (auto simp: log_write_def Let_def cache_pin_def upd_buf_def split: if_splits)

lemma wakeup_log [simp]:
  "log_n (wakeup c0 c s) = log_n s" "log_outstanding (wakeup c0 c s) = log_outstanding s"
  by (simp_all add: wakeup_def)

lemma end_op_n:
  assumes "end_op cur s = Ret s'"
  shows "log_outstanding s' = log_outstanding s - 1" "log_n s' \<le> max 0 (log_n s)" "0 \<le> log_n s \<Longrightarrow> 0 \<le> log_n s'"
  using assms by (auto simp: end_op_def Let_def log_same_def split: if_splits elim!: kbind_RetE dest!: commit_same)

lemma sum_list_remove: "i < length bs \<Longrightarrow> sum_list (take i bs @ drop (Suc i) bs) + bs ! i = sum_list (bs :: nat list)"
  by (subst (3) id_take_nth_drop [of i bs]) auto

lemma log_run_invariant:
  assumes "log_run bs s"
  shows "log_outstanding s = int (length bs) \<and> (\<forall>x \<in> set bs. x \<le> MAXOPBLOCKS) \<and> 0 \<le> log_n s \<and>
    log_n s + int (sum_list bs) \<le> int LOGSIZE"
  using assms
proof (induction rule: log_run.induct)
  case (beg bs s s')
  have "sum_list bs \<le> MAXOPBLOCKS * length bs"
    using beg.IH sum_list_mono [of bs "\<lambda>x. x" "\<lambda>_. MAXOPBLOCKS"] by (simp add: sum_list_triv)
  then show ?case using beg by (auto simp: begin_op_def split: if_splits)
next
  case (wr bs s i b s')
  have "sum_list (bs[i := bs ! i - 1]) + 1 = sum_list bs"
    using wr.hyps(2,3) elem_le_sum_list [of i bs] by (simp add: sum_list_update)
  then show ?case using wr log_write_n [OF wr.hyps(4)] set_update_subset_insert [of bs i "bs ! i - 1"]
    by (auto dest!: subsetD nth_mem)
next
  case (fin bs s i cur s')
  have "set (take i bs @ drop (Suc i) bs) \<subseteq> set bs" by (auto dest: in_set_takeD in_set_dropD)
  then show ?case using fin.IH fin.hyps(2) end_op_n [OF fin.hyps(3)] sum_list_remove [OF fin.hyps(2)] by auto
qed (auto simp: log_same_def)

text \<open>
  C13. The reservation of \<open>begin_op\<close> is enough: in every interleaving of calls, a call that has made
  fewer than \<open>MAXOPBLOCKS\<close> log writes since its \<open>begin_op\<close> finds fewer than \<open>LOGSIZE\<close> blocks in the log, and its
  next \<open>log_write\<close> returns exactly when the log on disk has room for one more block besides the header. So it never
  panics on a disk whose log has \<open>LOGSIZE\<close> blocks and the header.
\<close>

theorem begin_op_reserves:
  assumes "log_run bs s" "i < length bs" "0 < bs ! i"
  shows "log_n s < int LOGSIZE \<and> ((\<exists>s'. log_write b s = Ret s') \<longleftrightarrow> log_n s < log_size s - 1)"
proof -
  have "bs ! i \<le> sum_list bs" using elem_le_sum_list [OF assms(2)] .
  then have "log_n s < int LOGSIZE" "1 \<le> log_outstanding s" using log_run_invariant [OF assms(1)] assms(2,3) by auto
  then show ?thesis by (auto simp: log_write_def Let_def)
qed

theorem begin_op_reserves_witness:
  "\<exists>s. begin_op demo_log = Ret s \<and> (\<exists>s'. log_write 0 s = Ret s')"
proof -
  have b: "begin_op demo_log = Ret (demo_log\<lparr>log_outstanding := 1\<rparr>)" by (simp add: begin_op_def demo_log_fields)
  have "log_run [MAXOPBLOCKS] (demo_log\<lparr>log_outstanding := 1\<rparr>)"
    by (rule log_run.beg [OF log_run.start b]) (simp_all add: demo_log_fields)
  from begin_op_reserves [OF this, of 0 0] b show ?thesis by (simp add: demo_log_fields)
qed

section \<open>A whole transaction\<close>

text \<open>The part of a one-block transaction before its \<open>end_op\<close>: \<open>begin_op\<close>, read, change, \<open>log_write\<close>, release.\<close>

definition open_transaction :: "nat \<Rightarrow> u32 \<Rightarrow> block \<Rightarrow> 'a fslog_scheme \<Rightarrow> 'a fslog_scheme res" where
  "open_transaction cur blk d s =
     kbind (begin_op s) (\<lambda>s. kbind (cache_read cur (log_dev s) blk s) (\<lambda>(b, s).
       kbind (log_write b (buf_set_data b d s)) (\<lambda>s. cache_relse cur b s)))"

definition log_idle :: "nat \<Rightarrow> u32 \<Rightarrow> 'a fslog_scheme \<Rightarrow> bool" where
  "log_idle cur me s \<longleftrightarrow> boot_ready cur me (log_dev s) s \<and> log_n s = 0 \<and> log_outstanding s = 0 \<and> \<not> log_committing s \<and>
     1 < log_size s"

lemma log_flags_update [simp]:
  "cache_inv cur me dev (s\<lparr>log_outstanding := x\<rparr>) = cache_inv cur me dev (s :: 'a fslog_scheme)"
  "cache_inv cur me dev (s\<lparr>log_committing := c\<rparr>) = cache_inv cur me dev (s :: 'a fslog_scheme)"
  by (simp_all add: cache_inv_def cache_ok_def)

lemma open_transaction_ready:
  assumes "log_idle cur me s" "blk \<notin> log_area (log_start s) 1"
  shows "\<exists>t. open_transaction cur blk d s = Ret t \<and> commit_ready cur me 1 t \<and> log_start t = log_start s \<and>
    log_dev t = log_dev s \<and> log_outstanding t = 1 \<and> \<not> log_committing t \<and> disk t = disk s \<and>
    bview (log_dev s) (bufs t) (disk t) = (disk s)(blk := d)"
proof -
  let ?dev = "log_dev s"
  note idle = assms(1) [unfolded log_idle_def boot_ready_def]
  have bt: "boot_ready cur me ?dev s" using assms(1) by (simp add: log_idle_def)
  let ?s0 = "s\<lparr>log_outstanding := 1\<rparr>"
  have b0: "begin_op s = Ret ?s0" using idle by (simp add: begin_op_def)
  have i0: "cache_inv cur me ?dev ?s0" using idle by simp
  obtain b s1 where r: "cache_read cur ?dev blk ?s0 = Ret (b, s1)" "bhandle ?dev me (bufs s1) b = Some blk"
    "cache_step ?dev me blk ?s0 s1 1 True (bview ?dev (bufs s) (disk s) blk)" "disk s1 = disk s"
    using kernel_cache.bread [OF i0, of blk] idle by auto
  have e1: "cache_inv cur me ?dev s1" "bview ?dev (bufs s1) (disk s1) = disk s" "brefs ?dev (bufs s1) = (\<lambda>_. 0)(blk := 1)"
    "bheld ?dev (bufs s1) = {blk}" "nfree (bufs s1) + 1 = nfree (bufs s)"
    using kernel_cache.stp [of ?dev me blk ?s0 s1 1 True _ cur] r(3) i0 idle boot_view [OF bt] by (auto simp: cache_inv_def)
  note l1 = cache_read_same [OF r(1), unfolded log_same_def]
  let ?s2 = "buf_set_data b d s1"
  have e2: "cache_step ?dev me blk s1 ?s2 1 True d" "bhandle ?dev me (bufs ?s2) b = Some blk" "disk ?s2 = disk s1"
    using buf_set_data_spec [of ?dev s1 me b blk d] e1(1,3) r(2) by (simp_all add: cache_inv_def)
  have l2: "log_same s1 ?s2" by simp
  have i2: "cache_inv cur me ?dev ?s2" "brefs ?dev (bufs ?s2) = (\<lambda>_. 0)(blk := 1)" "bheld ?dev (bufs ?s2) = {blk}"
     "nfree (bufs ?s2) + 1 = nfree (bufs s)" "bview ?dev (bufs ?s2) (disk ?s2) = (disk s)(blk := d)"
    using kernel_cache.stp [of ?dev me blk s1 ?s2 1 True d cur] e2(1) e1 by (auto simp: cache_inv_def)
  let ?s3 = "(cache_pin b (?s2\<lparr>log_block := (log_block ?s2)(0 := blk)\<rparr>))\<lparr>log_n := 1\<rparr>"
  have w: "log_write b ?s2 = Ret ?s3"
    using log_write_appended [of ?s2 0 b] idle l1 l2 bhandle_blockno [OF e2(2)] by (simp add: log_same_def)
  have p: "cache_step ?dev me blk (?s2\<lparr>log_block := (log_block ?s2)(0 := blk)\<rparr>) (cache_pin b (?s2\<lparr>log_block := (log_block ?s2)(0 := blk)\<rparr>)) (Suc 1) True d"
    "bhandle ?dev me (bufs ?s3) b = Some blk" "disk ?s3 = disk s"
    using cache_pin_spec [of ?dev "?s2\<lparr>log_block := (log_block ?s2)(0 := blk)\<rparr>" me b blk] i2 e2(2,3) r(4)
    by (simp_all add: cache_inv_def cache_ok_def)
  have pm: "pid (processes (?s2\<lparr>log_block := (log_block ?s2)(0 := blk)\<rparr>) cur) = me" using i2(1) by (simp add: cache_inv_def)
  have i3: "cache_inv cur me ?dev ?s3" "brefs ?dev (bufs ?s3) = (\<lambda>_. 0)(blk := Suc 1)" "bheld ?dev (bufs ?s3) = {blk}"
     "nfree (bufs ?s3) + 1 = nfree (bufs s)" "bview ?dev (bufs ?s3) (disk ?s3) = (disk s)(blk := d)"
    using kernel_cache.stp [OF conjI [OF p(1) pm]] i2 by auto
  obtain t where t: "cache_relse cur b ?s3 = Ret t" "cache_step ?dev me blk ?s3 t 1 False d" "disk t = disk s"
    using kernel_cache.brelse [OF i3(1) p(2)] i3(2,5) p(3) by auto
  have e4: "cache_inv cur me ?dev t" "brefs ?dev (bufs t) = (\<lambda>_. 0)(blk := 1)" "bheld ?dev (bufs t) = {}"
     "nfree (bufs t) + 1 = nfree (bufs s)" "bview ?dev (bufs t) (disk t) = (disk s)(blk := d)"
    using kernel_cache.stp [of ?dev me blk ?s3 t 1 False d cur] t(2) i3 by (auto simp: cache_inv_def)
  note l4 = cache_relse_same [OF t(1), unfolded log_same_def]
  have "open_transaction cur blk d s = Ret t" using b0 r(1) w t(1) by (simp add: open_transaction_def)
  moreover have f: "log_start t = log_start s" "log_dev t = ?dev" "log_outstanding t = 1" "\<not> log_committing t"
      "log_n t = 1" "log_block t 0 = blk"
    using l1 l2 l4 idle by (simp_all add: log_same_def cache_pin_def upd_buf_def)
  moreover have "commit_ready cur me 1 t"
    using e4 idle assms(2) f by (auto simp: commit_ready_def trans_ok_def lessThan_Suc)
  ultimately show ?thesis using t(3) e4(5) by auto
qed

lemma commit_writes_disk:
  assumes "commit_ready cur me n s" "length (disk s (head_blk (log_start s))) = BSIZE" "b \<notin> log_area (log_start s) n"
  shows "apply_writes (disk s) (commit_writes (log_start s) (log_block s) (bview (log_dev s) (bufs s) (disk s)) n) b =
    bview (log_dev s) (bufs s) (disk s) b"
proof -
  let ?v = "bview (log_dev s) (bufs s) (disk s)" and ?st = "log_start s" and ?bl = "log_block s"
  let ?W = "commit_writes ?st ?bl ?v n"
  have ok: "trans_ok ?st ?bl n" using assms(1) by (simp add: commit_ready_def)
  have lenv: "length (?v (head_blk ?st)) = BSIZE"
    using commit_ready_clean [OF assms(1) trans_ok_notin(1) [OF ok]] assms(2) by simp
  have "take (length ?W + 2 * n + 2) ?W = ?W" by simp
  moreover have "apply_writes (disk s) (take (length ?W + 2 * n + 2) ?W) b =
      apply_writes (committed ?st ?bl ?v n 0 (disk s)) (home_copies ?bl ?v n) b"
    using commit_prefix_all [of n "length ?W + 2 * n + 2" "disk s" ?st ?bl ?v] assms(3)
    by (simp add: committed_def log_area_def)
  ultimately show ?thesis
    using committed_done [where v = ?v and d = "disk s", OF ok lenv assms(3) commit_ready_clean [OF assms(1)]] by simp
qed

text \<open>
  C23. A file system call that changes one block is durable: \<open>begin_op\<close>, a read of the block, a change
  of its data, \<open>log_write\<close>, release and \<open>end_op\<close> all return, the disk then holds the new data in the
  block and the old data in every other block outside the log, and the log is idle again.
\<close>

theorem transaction_durable:
  assumes "log_idle cur me s" "blk \<notin> log_area (log_start s) 1" "length (disk s (head_blk (log_start s))) = BSIZE"
  shows "\<exists>s'. kbind (open_transaction cur blk d s) (end_op cur) = Ret s' \<and>
    (\<forall>b. b \<notin> log_area (log_start s) 1 \<longrightarrow> disk s' b = ((disk s)(blk := d)) b) \<and>
    log_n s' = 0 \<and> log_outstanding s' = 0 \<and> \<not> log_committing s'"
proof -
  obtain t where t: "open_transaction cur blk d s = Ret t" "commit_ready cur me 1 t" "log_start t = log_start s"
    "log_dev t = log_dev s" "log_outstanding t = 1" "\<not> log_committing t" "disk t = disk s"
    "bview (log_dev s) (bufs t) (disk t) = (disk s)(blk := d)"
    using open_transaction_ready [OF assms(1,2)] by blast
  let ?u = "t\<lparr>log_outstanding := 0, log_committing := True\<rparr>"
  have u: "commit_ready cur me 1 ?u" using t(2) by (simp add: commit_ready_def cache_inv_def cache_ok_def)
  obtain v where v: "commit cur ?u = Ret v" "wrote_all cur me (log_dev s) (?u\<lparr>log_n := 0\<rparr>) v
      (commit_writes (log_start s) (log_block t) ((disk s)(blk := d)) 1) (\<lambda>_. 0)"
    using commit_spec [OF u] t by auto
  have "disk v = apply_writes (disk s) (commit_writes (log_start s) (log_block t) ((disk s)(blk := d)) 1)"
    using v(2) t(7) by (simp add: wrote_all_def)
  moreover have "apply_writes (disk s) (commit_writes (log_start s) (log_block t) ((disk s)(blk := d)) 1) b = ((disk s)(blk := d)) b"
    if "b \<notin> log_area (log_start s) 1" for b
    using commit_writes_disk [OF t(2), of b] that assms(3) unfolding t(3,4) t(7) t(8) [unfolded t(7)] by blast
  moreover have "log_n v = 0 \<and> log_outstanding v = 0"
    using commit_same [OF v(1)] t(2) by (simp add: commit_ready_def)
  moreover have "end_op cur t = Ret (wakeup (Some cur) (Some OnLog) (v\<lparr>log_committing := False\<rparr>))"
    using t(5,6) v(1) by (simp add: end_op_def)
  ultimately show ?thesis using t(1) by (simp add: wakeup_def)
qed

lemma demo_log_area: "(40 :: u32) \<notin> log_area 2 1"
  by (simp add: log_area_def head_blk_def log_blk_def lessThan_Suc)

lemma demo_log_idle: "log_idle 0 1 demo_log"
  using demo_log_boot by (simp add: log_idle_def demo_log_fields)

theorem transaction_durable_witness:
  "log_idle 0 1 demo_log \<and> (\<exists>s'. kbind (open_transaction 0 40 (replicate BSIZE 7) demo_log) (end_op 0) = Ret s' \<and>
     disk s' 40 = replicate BSIZE 7 \<and> disk s' 41 = demo_disk 41)"
  using transaction_durable [of 0 1 demo_log 40 "replicate BSIZE 7"] demo_log_idle demo_log_area
  by (auto simp: demo_log_fields demo_disk_def log_area_def head_blk_def log_blk_def lessThan_Suc)

section \<open>Crashes\<close>

text \<open>
  C1. A commit is atomic with respect to crashes. Take a transaction of \<open>n\<close> blocks that is ready to
  commit over an empty on-disk log, and stop the machine after any number \<open>k\<close> of the commit's disk
  writes. When the kernel boots from the resulting disk with a fresh buffer cache, \<open>init\<close> of the log
  recovers: it returns, leaves the on-disk log empty, and outside the log area every block has its
  contents from before the transaction if the header was not yet written (\<open>k \<le> n\<close>), and the contents
  the transaction gave it otherwise.
\<close>

theorem commit_atomic:
  assumes "commit_ready cur me n s" "0 < n" "head_count (disk s (head_blk (log_start s))) = 0"
    and "length (disk s (head_blk (log_start s))) = BSIZE"
  shows "\<exists>s' ws. commit cur s = Ret s' \<and> disk_trace s' = disk_trace s @ ws \<and> disk s' = apply_writes (disk s) ws \<and>
    (\<forall>k r. boot_ready cur' me' (log_dev s) r \<and> disk r = apply_writes (disk s) (take k ws) \<longrightarrow>
      (\<exists>r'. log_init cur' (log_dev s) (log_start s) nlog r = Ret r' \<and> log_n r' = 0 \<and>
         head_count (disk r' (head_blk (log_start s))) = 0 \<and>
         (\<forall>b. b \<notin> log_area (log_start s) n \<longrightarrow>
            disk r' b = (if k \<le> n then disk s b else bview (log_dev s) (bufs s) (disk s) b))))"
proof -
  let ?W = "commit_writes (log_start s) (log_block s) (bview (log_dev s) (bufs s) (disk s)) n"
  obtain s' where s': "commit cur s = Ret s'" "wrote_all cur me (log_dev s) (s\<lparr>log_n := 0\<rparr>) s' ?W (\<lambda>_. 0)"
    using commit_spec [OF assms(1,2)] by blast
  have rec: "\<exists>r'. log_init cur' (log_dev s) (log_start s) nlog r = Ret r' \<and> log_n r' = 0 \<and>
         head_count (disk r' (head_blk (log_start s))) = 0 \<and>
         (\<forall>b. b \<notin> log_area (log_start s) n \<longrightarrow>
            disk r' b = (if k \<le> n then disk s b else bview (log_dev s) (bufs s) (disk s) b))"
    if "boot_ready cur' me' (log_dev s) r" "disk r = apply_writes (disk s) (take k ?W)" for k r
  proof -
    let ?r = "r\<lparr>log_start := log_start s, log_size := nlog, log_dev := log_dev s\<rparr>"
    have "boot_ready cur' me' (log_dev ?r) ?r" "disk ?r = apply_writes (disk s) (take k ?W)"
      using that by (simp_all add: boot_ready_def)
    from recover_prefix [OF assms(1,3,4) this(1) _ this(2)] show ?thesis by (simp add: log_init_def)
  qed
  have "disk_trace s' = disk_trace s @ ?W \<and> disk s' = apply_writes (disk s) ?W" using s'(2) by (simp add: wrote_all_def)
  then show ?thesis using s'(1) rec by blast
qed

theorem commit_atomic_witness:
  "\<exists>(s :: fslog) s' ws. commit_ready 0 1 1 s \<and> bview 1 (bufs s) (disk s) 40 = [7] \<and> commit 0 s = Ret s' \<and>
     disk_trace s' = disk_trace s @ ws \<and>
     (\<forall>k (r :: fslog). boot_ready 0 1 1 r \<and> disk r = apply_writes (disk s) (take k ws) \<longrightarrow>
        (\<exists>r'. log_init 0 1 2 31 r = Ret r' \<and> disk r' 40 = (if k \<le> 1 then demo_disk 40 else [7])))"
proof -
  obtain t :: fslog where t: "commit_ready 0 1 1 t" "log_start t = 2" "log_dev t = 1" "disk t = demo_disk"
    "bview 1 (bufs t) (disk t) = demo_disk(40 := [7])"
    using open_transaction_ready [OF demo_log_idle, of 40 "[7]"] demo_log_area unfolding demo_log_fields by blast
  have h: "head_count (demo_disk b) = 0" "length (demo_disk b) = BSIZE" for b
    by (simp_all add: demo_disk_def head_count_def get32_def le_word_def get_bytes_def numeral_eq_Suc)
  note c = commit_atomic [OF t(1), where cur' = 0 and me' = 1 and nlog = 31, unfolded t(2,3), unfolded t(5), unfolded t(4)]
  have "\<exists>s' ws. commit 0 t = Ret s' \<and> disk_trace s' = disk_trace t @ ws \<and>
     (\<forall>k (r :: fslog). boot_ready 0 1 1 r \<and> disk r = apply_writes (disk t) (take k ws) \<longrightarrow>
        (\<exists>r'. log_init 0 1 2 31 r = Ret r' \<and> disk r' 40 = (if k \<le> 1 then demo_disk 40 else [7])))"
    using c h demo_log_area unfolding t(4) by fastforce
  moreover have "bview 1 (bufs t) (disk t) 40 = [7]" unfolding t(5) by simp
  ultimately show ?thesis using t(1) by blast
qed

end
