(* ===== verification/User_IO.thy ===== *)
theory User_IO
  imports Prelude
begin

text \<open>
  The system call interface that the user programs see (\<^verbatim>\<open>user/user.h\<close>). A program is a function
  on a world \<open>'w\<close>; the system calls are a parameter of the program, a record of functions on that
  world. A program ends by returning from a function, by \<open>exit\<close>, or by an \<open>exec\<close> that succeeds.
  A C string is the list of its characters without the terminating NUL.
\<close>

section \<open>System calls\<close>

record stat_t =
  st_type :: int
  st_ino :: nat
  st_size :: nat

text \<open>
  \<open>sys_read fd n w\<close> gives the return value and the bytes stored in the buffer; \<open>sys_exec\<close> gives
  \<open>None\<close> when the program has been replaced, and the error code otherwise.
\<close>

record 'w sys =
  sys_fork :: "'w \<Rightarrow> int \<times> 'w"
  sys_wait :: "'w \<Rightarrow> int \<times> 'w"
  sys_pipe :: "'w \<Rightarrow> (int \<times> int \<times> int) \<times> 'w"
  sys_write :: "int \<Rightarrow> string \<Rightarrow> 'w \<Rightarrow> int \<times> 'w"
  sys_read :: "int \<Rightarrow> nat \<Rightarrow> 'w \<Rightarrow> (int \<times> string) \<times> 'w"
  sys_close :: "int \<Rightarrow> 'w \<Rightarrow> int \<times> 'w"
  sys_kill :: "int \<Rightarrow> 'w \<Rightarrow> int \<times> 'w"
  sys_exec :: "string \<Rightarrow> string list \<Rightarrow> 'w \<Rightarrow> int option \<times> 'w"
  sys_open :: "string \<Rightarrow> int \<Rightarrow> 'w \<Rightarrow> int \<times> 'w"
  sys_mknod :: "string \<Rightarrow> int \<Rightarrow> int \<Rightarrow> 'w \<Rightarrow> int \<times> 'w"
  sys_unlink :: "string \<Rightarrow> 'w \<Rightarrow> int \<times> 'w"
  sys_fstat :: "int \<Rightarrow> 'w \<Rightarrow> (int \<times> stat_t) \<times> 'w"
  sys_link :: "string \<Rightarrow> string \<Rightarrow> 'w \<Rightarrow> int \<times> 'w"
  sys_mkdir :: "string \<Rightarrow> 'w \<Rightarrow> int \<times> 'w"
  sys_chdir :: "string \<Rightarrow> 'w \<Rightarrow> int \<times> 'w"
  sys_dup :: "int \<Rightarrow> 'w \<Rightarrow> int \<times> 'w"
  sys_sleep :: "int \<Rightarrow> 'w \<Rightarrow> int \<times> 'w"
  sys_sbrk :: "int \<Rightarrow> 'w \<Rightarrow> int \<times> 'w"

abbreviation (input) O_RDONLY :: int where "O_RDONLY \<equiv> 0"
abbreviation (input) O_WRONLY :: int where "O_WRONLY \<equiv> 1"
abbreviation (input) O_RDWR :: int where "O_RDWR \<equiv> 2"
abbreviation (input) O_CREATE :: int where "O_CREATE \<equiv> 0x200"
abbreviation (input) O_TRUNC :: int where "O_TRUNC \<equiv> 0x400"

section \<open>How a piece of a program ends\<close>

datatype ('a, 'w) uout = Done 'a 'w | Exited int 'w | Execd 'w

fun ubind :: "('a, 'w) uout \<Rightarrow> ('a \<Rightarrow> 'w \<Rightarrow> ('b, 'w) uout) \<Rightarrow> ('b, 'w) uout" where
  "ubind (Done x w) f = f x w"
| "ubind (Exited c w) f = Exited c w"
| "ubind (Execd w) f = Execd w"

lemma ubind_assoc: "ubind (ubind m f) g = ubind m (\<lambda>x w. ubind (f x w) g)"
  by (cases m) auto

lemma ubind_cong [fundef_cong]:
  "m = m' \<Longrightarrow> (\<And>x w. m' = Done x w \<Longrightarrow> f x w = f' x w) \<Longrightarrow> ubind m f = ubind m' f'"
  by (cases m') auto

text \<open>The same for a piece that may loop for ever: \<open>None\<close> is a call that does not end.\<close>

fun obind :: "('a, 'w) uout option \<Rightarrow> ('a \<Rightarrow> 'w \<Rightarrow> ('b, 'w) uout option) \<Rightarrow> ('b, 'w) uout option" where
  "obind None f = None"
| "obind (Some (Done x w)) f = f x w"
| "obind (Some (Exited c w)) f = Some (Exited c w)"
| "obind (Some (Execd w)) f = Some (Execd w)"

section \<open>Streams\<close>

text \<open>
  What the text tools rely on: reading descriptor \<open>fd\<close> delivers the bytes \<open>rest w\<close> that are left, in
  non-empty pieces of at most the requested size, and 0 at the end; writing descriptor 1 appends to
  \<open>out w\<close>, is complete, and does not disturb the input.
\<close>

definition stream_io :: "'w sys \<Rightarrow> int \<Rightarrow> ('w \<Rightarrow> string) \<Rightarrow> ('w \<Rightarrow> string) \<Rightarrow> bool" where
  "stream_io S fd rest out \<longleftrightarrow>
     (\<forall>n w. \<exists>c w'. sys_read S fd n w = ((int (length c), c), w') \<and> rest w = c @ rest w' \<and> length c \<le> n \<and>
        (c = [] \<longrightarrow> n = 0 \<or> rest w = []) \<and> out w' = out w) \<and>
     (\<forall>s w. fst (sys_write S 1 s w) = int (length s) \<and> out (snd (sys_write S 1 s w)) = out w @ s \<and>
        rest (snd (sys_write S 1 s w)) = rest w)"

lemma stream_readE:
  assumes "stream_io S fd rest out"
  obtains c w' where "sys_read S fd n w = ((int (length c), c), w')" "rest w = c @ rest w'" "length c \<le> n"
    "c = [] \<Longrightarrow> n = 0 \<or> rest w = []" "out w' = out w"
  using assms unfolding stream_io_def by metis

lemma stream_write:
  assumes "stream_io S fd rest out" "sys_write S 1 s w = (r, w')"
  shows "r = int (length s)" "out w' = out w @ s" "rest w' = rest w"
  using assms unfolding stream_io_def by (metis fst_conv snd_conv)+

text \<open>A concrete world for the examples: the input, the piece size of the device, and the output.\<close>

definition demo_sys :: "nat \<Rightarrow> (string \<times> string) sys" where
  "demo_sys k = \<lparr>sys_fork = (\<lambda>w. (-1, w)), sys_wait = (\<lambda>w. (-1, w)), sys_pipe = (\<lambda>w. ((-1, 0, 0), w)),
     sys_write = (\<lambda>fd s (i, out). (int (length s), (i, if fd = 1 then out @ s else out))),
     sys_read = (\<lambda>fd n (i, out). let c = take (min n (Suc k)) i in ((int (length c), c), (drop (min n (Suc k)) i, out))),
     sys_close = (\<lambda>_ w. (0, w)), sys_kill = (\<lambda>_ w. (-1, w)), sys_exec = (\<lambda>_ _ w. (Some (-1), w)),
     sys_open = (\<lambda>_ _ w. (-1, w)), sys_mknod = (\<lambda>_ _ _ w. (-1, w)), sys_unlink = (\<lambda>_ w. (-1, w)),
     sys_fstat = (\<lambda>_ w. ((-1, \<lparr>st_type = 0, st_ino = 0, st_size = 0\<rparr>), w)), sys_link = (\<lambda>_ _ w. (-1, w)),
     sys_mkdir = (\<lambda>_ w. (-1, w)), sys_chdir = (\<lambda>_ w. (-1, w)), sys_dup = (\<lambda>_ w. (-1, w)),
     sys_sleep = (\<lambda>_ w. (0, w)), sys_sbrk = (\<lambda>_ w. (-1, w))\<rparr>"

lemma demo_sys_stream: "stream_io (demo_sys k) fd fst snd"
  by (auto simp: stream_io_def demo_sys_def Let_def)

end
