(* ===== verification/Formatting.thy ===== *)
theory Formatting
  imports User_IO
begin

text \<open>
  Formatted output: \<^verbatim>\<open>user/printf.c\<close> and \<^verbatim>\<open>kernel/printf.cpp\<close>. The output of a call is the string of
  characters it passes to \<open>putc\<close>, in order. The arguments of the variadic call are a list; \<open>None\<close> is a
  call that C leaves undefined (a missing argument, one of the wrong kind, or reading the format
  beyond its terminating NUL). The kernel's printing lock does not influence the output.
\<close>

section \<open>Arguments and digits\<close>

datatype va_arg = VInt u64 | VStr "string option"

text \<open>The do-while loop of \<open>printint\<close>: least significant digit first. The bases in use are 10 and 16.\<close>

function digit_loop :: "string \<Rightarrow> nat \<Rightarrow> nat \<Rightarrow> string" where
  "digit_loop digits base x =
     digits ! (x mod base) # (if x div base \<noteq> 0 \<and> 2 \<le> base then digit_loop digits base (x div base) else [])"
  by pat_completeness auto
termination
  by (relation "measure (\<lambda>(digits, base, x). x)") (auto intro!: div_less_dividend gr0I)

declare digit_loop.simps [simp del]

definition udigits :: string where
  "udigits = ''0123456789ABCDEF''"

definition kdigits :: string where
  "kdigits = ''0123456789abcdef''"

text \<open>In \<^verbatim>\<open>user/printf.c\<close> the magnitude is a \<^verbatim>\<open>uint\<close>; in the kernel it is 64 bits wide.\<close>

definition uprintint :: "u64 \<Rightarrow> nat \<Rightarrow> bool \<Rightarrow> string" where
  "uprintint xx base sg =
     (let neg = (sg \<and> sint xx < 0);
          x = (if neg then ucast (- xx) else ucast xx) :: u32
      in rev (digit_loop udigits base (unat x) @ (if neg then ''-'' else [])))"

definition kprintint :: "u64 \<Rightarrow> nat \<Rightarrow> bool \<Rightarrow> string" where
  "kprintint xx base sign =
     (let neg = (sign \<and> sint xx < 0); x = (if neg then - xx else xx)
      in rev (digit_loop kdigits base (unat x) @ (if neg then ''-'' else [])))"

fun ptr_loop :: "string \<Rightarrow> nat \<Rightarrow> u64 \<Rightarrow> string" where
  "ptr_loop digits 0 x = []"
| "ptr_loop digits (Suc n) x = digits ! unat (drop_bit 60 x) # ptr_loop digits n (push_bit 4 x)"

definition printptr :: "string \<Rightarrow> u64 \<Rightarrow> string" where
  "printptr digits x = ''0x'' @ ptr_loop digits 16 x"

section \<open>User-level printf\<close>

definition va_int :: "u64 \<Rightarrow> u64" where
  "va_int v = scast (ucast v :: u32)"

definition va_uint :: "u64 \<Rightarrow> u64" where
  "va_uint v = ucast (ucast v :: u32)"

definition nextc :: "string \<Rightarrow> char" where
  "nextc s = (case s of [] \<Rightarrow> CHR 0x00 | c # _ \<Rightarrow> c)"

fun with_int :: "(u64 \<Rightarrow> string) \<Rightarrow> nat \<Rightarrow> string \<Rightarrow> va_arg list \<Rightarrow> (string \<times> string \<times> va_arg list) option" where
  "with_int f k rest (VInt v # ap) = Some (f v, drop k rest, ap)"
| "with_int f k rest ap = None"

fun with_str :: "string \<Rightarrow> va_arg list \<Rightarrow> (string \<times> string \<times> va_arg list) option" where
  "with_str rest (VStr s # ap) = Some (case s of None \<Rightarrow> ''(null)'' | Some s \<Rightarrow> s, rest, ap)"
| "with_str rest ap = None"

text \<open>The conversions after \<open>%\<close>: \<open>c0\<close> is the character after it and \<open>rest\<close> what follows \<open>c0\<close>.\<close>

definition uconv :: "char \<Rightarrow> string \<Rightarrow> va_arg list \<Rightarrow> (string \<times> string \<times> va_arg list) option" where
  "uconv c0 rest ap =
     (let c1 = nextc rest; c2 = (if c1 = CHR 0x00 then CHR 0x00 else nextc (tl rest)) in
      if c0 = CHR ''d'' then with_int (\<lambda>v. uprintint (va_int v) 10 True) 0 rest ap
      else if c0 = CHR ''l'' \<and> c1 = CHR ''d'' then with_int (\<lambda>v. uprintint v 10 True) 1 rest ap
      else if c0 = CHR ''l'' \<and> c1 = CHR ''l'' \<and> c2 = CHR ''d'' then with_int (\<lambda>v. uprintint v 10 True) 2 rest ap
      else if c0 = CHR ''u'' then with_int (\<lambda>v. uprintint (va_uint v) 10 False) 0 rest ap
      else if c0 = CHR ''l'' \<and> c1 = CHR ''u'' then with_int (\<lambda>v. uprintint v 10 False) 1 rest ap
      else if c0 = CHR ''l'' \<and> c1 = CHR ''l'' \<and> c2 = CHR ''u'' then with_int (\<lambda>v. uprintint v 10 False) 2 rest ap
      else if c0 = CHR ''x'' then with_int (\<lambda>v. uprintint (va_uint v) 16 False) 0 rest ap
      else if c0 = CHR ''l'' \<and> c1 = CHR ''x'' then with_int (\<lambda>v. uprintint v 16 False) 1 rest ap
      else if c0 = CHR ''l'' \<and> c1 = CHR ''l'' \<and> c2 = CHR ''x'' then with_int (\<lambda>v. uprintint v 16 False) 2 rest ap
      else if c0 = CHR ''p'' then with_int (printptr udigits) 0 rest ap
      else if c0 = CHR ''c'' then with_int (\<lambda>v. [char_of (unat v)]) 0 rest ap
      else if c0 = CHR ''s'' then with_str rest ap
      else if c0 = CHR ''%'' then Some (''%'', rest, ap)
      else Some ([CHR ''%'', c0], rest, ap))"

lemma conv_rest: "with_int f k rest ap = Some (out, rest', ap') \<Longrightarrow> length rest' \<le> length rest"
  "with_str rest ap = Some (out, rest', ap') \<Longrightarrow> length rest' \<le> length rest"
  by (cases "(f, k, rest, ap)" rule: with_int.cases; auto) (cases "(rest, ap)" rule: with_str.cases; auto)

lemma uconv_rest: "uconv c0 rest ap = Some (out, rest', ap') \<Longrightarrow> length rest' \<le> length rest"
  by (auto simp: uconv_def Let_def split: if_splits dest: conv_rest)

text \<open>The loop over the format; the variable \<^verbatim>\<open>state\<close> is whether the previous character was \<open>%\<close>.\<close>

function uvprintf :: "string \<Rightarrow> va_arg list \<Rightarrow> string option" where
  "uvprintf [] ap = Some []"
| "uvprintf (c # fmt) ap =
     (if c \<noteq> CHR ''%'' then map_option (Cons c) (uvprintf fmt ap)
      else case fmt of
          [] \<Rightarrow> Some []
        | c0 # rest \<Rightarrow> (case uconv c0 rest ap of
             None \<Rightarrow> None
           | Some (out, rest, ap) \<Rightarrow> map_option (append out) (uvprintf rest ap)))"
  by pat_completeness auto
termination
  by (relation "measure (\<lambda>(fmt, ap). length fmt)") (auto dest!: uconv_rest)

text \<open>\<open>putc\<close> writes one character at a time.\<close>

definition uputs :: "'w sys \<Rightarrow> int \<Rightarrow> string \<Rightarrow> 'w \<Rightarrow> 'w" where
  "uputs S fd s w = foldl (\<lambda>w c. snd (sys_write S fd [c] w)) w s"

definition fprintf :: "'w sys \<Rightarrow> int \<Rightarrow> string \<Rightarrow> va_arg list \<Rightarrow> 'w \<Rightarrow> 'w option" where
  "fprintf S fd fmt ap w = map_option (\<lambda>s. uputs S fd s w) (uvprintf fmt ap)"

section \<open>Kernel printf\<close>

definition kconv :: "char \<Rightarrow> string \<Rightarrow> va_arg list \<Rightarrow> (string \<times> string \<times> va_arg list) option" where
  "kconv c0 rest ap =
     (let c1 = nextc rest; c2 = (if c1 = CHR 0x00 then CHR 0x00 else nextc (tl rest)) in
      if c0 = CHR ''d'' then with_int (\<lambda>v. kprintint (va_int v) 10 True) 0 rest ap
      else if c0 = CHR ''l'' \<and> c1 = CHR ''d'' then with_int (\<lambda>v. kprintint v 10 True) 1 rest ap
      else if c0 = CHR ''l'' \<and> c1 = CHR ''l'' \<and> c2 = CHR ''d'' then with_int (\<lambda>v. kprintint v 10 True) 2 rest ap
      else if c0 = CHR ''u'' then with_int (\<lambda>v. kprintint (va_int v) 10 False) 0 rest ap
      else if c0 = CHR ''l'' \<and> c1 = CHR ''u'' then with_int (\<lambda>v. kprintint v 10 False) 1 rest ap
      else if c0 = CHR ''l'' \<and> c1 = CHR ''l'' \<and> c2 = CHR ''u'' then with_int (\<lambda>v. kprintint v 10 False) 2 rest ap
      else if c0 = CHR ''x'' then with_int (\<lambda>v. kprintint (va_int v) 16 False) 0 rest ap
      else if c0 = CHR ''l'' \<and> c1 = CHR ''x'' then with_int (\<lambda>v. kprintint v 16 False) 1 rest ap
      else if c0 = CHR ''l'' \<and> c1 = CHR ''l'' \<and> c2 = CHR ''x'' then with_int (\<lambda>v. kprintint v 16 False) 2 rest ap
      else if c0 = CHR ''p'' then with_int (printptr kdigits) 0 rest ap
      else if c0 = CHR ''s'' then with_str rest ap
      else if c0 = CHR ''%'' then Some (''%'', rest, ap)
      else Some ([CHR ''%'', c0], rest, ap))"

lemma kconv_rest: "kconv c0 rest ap = Some (out, rest', ap') \<Longrightarrow> length rest' \<le> length rest"
  by (auto simp: kconv_def Let_def split: if_splits dest: conv_rest)

text \<open>
  \<open>printf\<close> stops at a \<open>%\<close> that ends the format. \<open>vprintf\<close> has no such case: it prints \<open>%\<close> and a NUL and
  goes on reading after the end of the format.
\<close>

function kformat :: "bool \<Rightarrow> string \<Rightarrow> va_arg list \<Rightarrow> string option" where
  "kformat stops [] ap = Some []"
| "kformat stops (c # fmt) ap =
     (if c \<noteq> CHR ''%'' then map_option (Cons c) (kformat stops fmt ap)
      else case fmt of
          [] \<Rightarrow> if stops then Some [] else None
        | c0 # rest \<Rightarrow> (case kconv c0 rest ap of
             None \<Rightarrow> None
           | Some (out, rest, ap) \<Rightarrow> map_option (append out) (kformat stops rest ap)))"
  by pat_completeness auto
termination
  by (relation "measure (\<lambda>(stops, fmt, ap). length fmt)") (auto dest!: kconv_rest)

definition kprintf :: "string \<Rightarrow> va_arg list \<Rightarrow> string option" where
  "kprintf fmt ap = kformat True fmt ap"

definition kvprintf :: "string \<Rightarrow> va_arg list \<Rightarrow> string option" where
  "kvprintf fmt ap = kformat False fmt ap"

text \<open>What \<open>panic\<close> prints before it stops the machine.\<close>

definition panic_output :: "string \<Rightarrow> string option" where
  "panic_output s = (case kprintf ''panic: '' [] of
     None \<Rightarrow> None
   | Some a \<Rightarrow> map_option (append a) (kprintf ''%s\<newline>'' [VStr (Some s)]))"

section \<open>The numbers printed\<close>

text \<open>The number that a digit string denotes.\<close>

definition digit_val :: "string \<Rightarrow> char \<Rightarrow> nat" where
  "digit_val digits c = length (takeWhile (\<lambda>d. d \<noteq> c) digits)"

definition numval :: "string \<Rightarrow> nat \<Rightarrow> string \<Rightarrow> nat" where
  "numval digits base s = foldl (\<lambda>n c. n * base + digit_val digits c) 0 s"

lemma digit_val_nth: "distinct ds \<Longrightarrow> i < length ds \<Longrightarrow> digit_val ds (ds ! i) = i"
proof -
  assume d: "distinct ds" "i < length ds"
  then have "takeWhile (\<lambda>d. d \<noteq> ds ! i) ds = take i ds"
    by (intro takeWhile_eq_take_P_nth) (auto simp: nth_eq_iff_index_eq)
  then show ?thesis using d by (simp add: digit_val_def)
qed

lemma numval_digit_loop:
  assumes "distinct ds" "base \<le> length ds" "2 \<le> base"
  shows "numval ds base (rev (digit_loop ds base x)) = x"
proof (induction x rule: less_induct)
  case (less x)
  have d: "digit_val ds (ds ! (x mod base)) = x mod base"
    using assms mod_less_divisor [of base x] by (intro digit_val_nth) linarith+
  show ?case
  proof (cases "x div base = 0")
    case True
    then show ?thesis using d assms(3) by (subst digit_loop.simps) (simp add: numval_def div_eq_0_iff)
  next
    case False
    then have "x div base < x" using assms(3) by (intro div_less_dividend) (auto intro: gr0I)
    from less [OF this] d False assms(3) show ?thesis by (subst digit_loop.simps) (simp add: numval_def)
  qed
qed

lemma digit_loop_last:
  assumes "distinct ds" "base \<le> length ds" "2 \<le> base" "x \<noteq> 0"
  shows "last (digit_loop ds base x) \<noteq> ds ! 0"
  using assms(4)
proof (induction x rule: less_induct)
  case (less x)
  show ?case
  proof (cases "x div base = 0")
    case True
    then have "x < base" using assms(3) by (simp add: div_eq_0_iff)
    moreover from this have "ds \<noteq> []" using assms(2) by auto
    ultimately show ?thesis using True less.prems assms(1,2) nth_eq_iff_index_eq [of ds x 0]
      by (subst digit_loop.simps) simp
  next
    case False
    then have "x div base < x" using assms(3) by (intro div_less_dividend) (auto intro: gr0I)
    with less.IH [OF this] False assms(3) show ?thesis
      by (subst digit_loop.simps) (simp add: digit_loop.simps [of ds base "x div base"])
  qed
qed

lemma digits_ok: "distinct udigits" "length udigits = 16" "distinct kdigits" "length kdigits = 16"
  by (simp_all add: udigits_def kdigits_def)

lemma digits_zero: "udigits ! 0 = CHR ''0''" "kdigits ! 0 = CHR ''0''"
  by (simp_all add: udigits_def kdigits_def)

text \<open>
  The number printers are exact up to their width. Each prints an optional minus sign, then digits
  without a leading zero (except for 0 itself) that denote the magnitude of the argument: all 64 bits
  in the kernel, the low 32 bits in user programs, where the magnitude is held in a \<open>uint\<close>.
\<close>

theorem printint_exact:
  fixes xx :: u64 and sg :: bool
  assumes "2 \<le> base" "base \<le> 16"
  defines "neg \<equiv> sg \<and> sint xx < 0" and "mag \<equiv> if sg \<and> sint xx < 0 then - xx else xx"
  shows "\<exists>u k. uprintint xx base sg = (if neg then ''-'' else []) @ u \<and> kprintint xx base sg = (if neg then ''-'' else []) @ k \<and>
    numval udigits base u = unat mag mod 2 ^ 32 \<and> numval kdigits base k = unat mag \<and>
    (unat mag mod 2 ^ 32 \<noteq> 0 \<longrightarrow> hd u \<noteq> CHR ''0'') \<and> (mag \<noteq> 0 \<longrightarrow> hd k \<noteq> CHR ''0'')"
proof -
  let ?x = "unat (ucast mag :: u32)"
  have x: "?x = unat mag mod 2 ^ 32" by (simp add: unsigned_ucast_eq take_bit_eq_mod)
  let ?u = "rev (digit_loop udigits base ?x)" and ?k = "rev (digit_loop kdigits base (unat mag))"
  have "uprintint xx base sg = (if neg then ''-'' else []) @ ?u" "kprintint xx base sg = (if neg then ''-'' else []) @ ?k"
    by (simp_all add: uprintint_def kprintint_def Let_def neg_def mag_def)
  moreover have "numval udigits base ?u = ?x" "numval kdigits base ?k = unat mag"
    using assms digits_ok by (simp_all add: numval_digit_loop)
  moreover have "?x \<noteq> 0 \<longrightarrow> hd ?u \<noteq> CHR ''0''" "mag \<noteq> 0 \<longrightarrow> hd ?k \<noteq> CHR ''0''"
    using digit_loop_last [of udigits base ?x] digit_loop_last [of kdigits base "unat mag"] assms(1,2) digits_ok
    unfolding hd_rev digits_zero by (auto simp only: unat_eq_zero)
  ultimately show ?thesis unfolding x [symmetric] by (intro exI [of _ ?u] exI [of _ ?k] conjI)
qed

theorem printint_exact_witness:
  "\<exists>u k. uprintint 4294967301 10 True = u \<and> kprintint 4294967301 10 True = k \<and>
     numval udigits 10 u = 5 \<and> numval kdigits 10 k = 4294967301"
  using printint_exact [of 10 4294967301 True] by simp

text \<open>
  The long conversions of the user-level \<open>printf\<close> lose the upper half of their argument: \<open>%lu\<close>
  (and \<open>%ld\<close>, \<open>%lx\<close>) print the low 32 bits, so 2^32 prints as 0, where the kernel's \<open>printf\<close>
  prints it in full.
\<close>

theorem user_printf_truncates:
  "uvprintf ''%lu'' [VInt 4294967296] = Some ''0'' \<and> kprintf ''%lu'' [VInt 4294967296] = Some ''4294967296'' \<and>
   (\<forall>v. uvprintf ''%lu'' [VInt v] = uvprintf ''%lu'' [VInt (ucast (ucast v :: u32))])"
proof -
  have low: "(ucast (ucast (ucast v :: u32) :: u64) :: u32) = ucast v" for v :: u64
    by (rule bit_word_eqI) (auto simp: bit_ucast_iff)
  have lu: "uvprintf ''%lu'' [VInt v] = Some (uprintint v 10 False)" for v
    by (simp add: uconv_def nextc_def)
  have klu: "kprintf ''%lu'' [VInt v] = Some (kprintint v 10 False)" for v
    by (simp add: kprintf_def kconv_def nextc_def)
  show ?thesis unfolding lu klu
    by (simp add: uprintint_def kprintint_def low digit_loop.simps udigits_def kdigits_def)
qed

text \<open>
  A format that ends in \<open>%\<close> makes the kernel's \<open>vprintf\<close> run past the end of the format (the
  outcome is undefined), while \<open>printf\<close> stops there and prints the text before it.
\<close>

theorem vprintf_overruns:
  assumes "CHR ''%'' \<notin> set s"
  shows "kvprintf (s @ ''%'') ap = None \<and> kprintf (s @ ''%'') ap = Some s"
  using assms by (induction s) (auto simp: kvprintf_def kprintf_def)

theorem vprintf_overruns_witness:
  "kvprintf ''100%'' [] = None \<and> kprintf ''100%'' [] = Some ''100''"
  using vprintf_overruns [of "''100''" "[]"] by simp

end
