(* ===== verification/Grep.thy ===== *)
theory Grep
  imports Formatting
begin

text \<open>
  \<^verbatim>\<open>user/grep.c\<close>: the regular expression matcher and the buffering loop around it. A pointer into a
  NUL-terminated string is the rest of the string from there, so \<^verbatim>\<open>*p == 0\<close> is the empty list.
\<close>

section \<open>The matcher\<close>

function matchhere :: "string \<Rightarrow> string \<Rightarrow> bool"
  and matchstar :: "char \<Rightarrow> string \<Rightarrow> string \<Rightarrow> bool" where
  "matchhere re str =
     (case re of
        [] \<Rightarrow> True
      | c # re1 \<Rightarrow>
          if re1 \<noteq> [] \<and> hd re1 = CHR ''*'' then matchstar c (tl re1) str
          else if c = CHR ''$'' \<and> re1 = [] then str = []
          else if str \<noteq> [] \<and> (c = CHR ''.'' \<or> c = hd str) then matchhere re1 (tl str)
          else False)"
| "matchstar c re str =
     (if matchhere re str then True
      else if str \<noteq> [] \<and> (hd str = c \<or> c = CHR ''.'') then matchstar c re (tl str)
      else False)"
  by pat_completeness auto
termination
proof (relation "measure (case_sum (\<lambda>(re, str). 2 * (length re + length str))
    (\<lambda>(c, re, str). 2 * (length re + length str) + 1))", goal_cases)
  case (2 re str c re1)
  then show ?case by (cases re1) auto
next
  case (3 re str c re1)
  then show ?case by (cases str) auto
next
  case (5 c re str)
  then show ?case by (cases str) auto
qed auto

declare matchhere.simps [simp del] matchstar.simps [simp del]

text \<open>The do-while loop of \<open>match\<close> tries every suffix of the text, the empty one included.\<close>

fun match_loop :: "string \<Rightarrow> string \<Rightarrow> bool" where
  "match_loop re str =
     (if matchhere re str then True else case str of [] \<Rightarrow> False | _ # str1 \<Rightarrow> match_loop re str1)"

declare match_loop.simps [simp del]

definition match :: "string \<Rightarrow> string \<Rightarrow> bool" where
  "match re str =
     (if re \<noteq> [] \<and> hd re = CHR ''^'' then matchhere (tl re) str else match_loop re str)"

section \<open>Searching a file\<close>

text \<open>\<open>strchr\<close> stops at the terminating NUL, hence also at a NUL byte inside the data.\<close>

fun strchr_pos :: "string \<Rightarrow> char \<Rightarrow> nat option" where
  "strchr_pos [] c = None"
| "strchr_pos (x # xs) c =
     (if x = CHR 0x00 then None else if x = c then Some 0 else map_option Suc (strchr_pos xs c))"

lemma strchr_pos_less: "strchr_pos s c = Some i \<Longrightarrow> i < length s"
  by (induction s arbitrary: i) (auto split: if_splits)

text \<open>The inner loop over the complete lines in the buffer; it gives the pointer \<^verbatim>\<open>p\<close> it ends with.\<close>

function grep_lines :: "'w sys \<Rightarrow> string \<Rightarrow> string \<Rightarrow> 'w \<Rightarrow> string \<times> 'w" where
  "grep_lines S pattern p w =
     (case strchr_pos p CHR ''\<newline>'' of
        None \<Rightarrow> (p, w)
      | Some q \<Rightarrow> grep_lines S pattern (drop (Suc q) p)
          (if match pattern (take q p) then snd (sys_write S 1 (take (Suc q) p) w) else w))"
  by pat_completeness auto
termination
  by (relation "measure (\<lambda>(S, pattern, p, w). length p)") (auto dest: strchr_pos_less)

declare grep_lines.simps [simp del]

text \<open>
  The outer loop; the argument \<open>b\<close> is the content of \<^verbatim>\<open>buf[0..m)\<close>. With a full buffer the size passed
  to \<open>read\<close> is 0. A stream that never ends keeps the loop running, so the loop may not return.
\<close>

partial_function (option) grep_loop :: "'w sys \<Rightarrow> string \<Rightarrow> int \<Rightarrow> string \<Rightarrow> 'w \<Rightarrow> (unit, 'w) uout option" where
  "grep_loop S pattern fd b w =
     (let r = sys_read S fd (1024 - length b - 1) w in
      if fst (fst r) \<le> 0 then Some (Done () (snd r))
      else let p = grep_lines S pattern (b @ snd (fst r)) (snd r) in
        grep_loop S pattern fd (fst p) (snd p))"

definition grep :: "'w sys \<Rightarrow> string \<Rightarrow> int \<Rightarrow> 'w \<Rightarrow> (unit, 'w) uout option" where
  "grep S pattern fd w = grep_loop S pattern fd [] w"

text \<open>\<open>main\<close>: the arguments after the program name; without files, standard input is searched.\<close>

fun grep_files :: "'w sys \<Rightarrow> string \<Rightarrow> string list \<Rightarrow> 'w \<Rightarrow> (unit, 'w) uout option" where
  "grep_files S pattern [] w = Some (Exited 0 w)"
| "grep_files S pattern (a # as) w =
     (case sys_open S a O_RDONLY w of (fd, w) \<Rightarrow>
        if fd < 0 then map_option (Exited 1) (fprintf S 1 ''grep: cannot open %s\<newline>'' [VStr (Some a)] w)
        else obind (grep S pattern fd w) (\<lambda>_ w. grep_files S pattern as (snd (sys_close S fd w))))"

definition grep_main :: "'w sys \<Rightarrow> string list \<Rightarrow> 'w \<Rightarrow> (unit, 'w) uout option" where
  "grep_main S args w =
     (case args of
        [] \<Rightarrow> map_option (Exited 1) (fprintf S 2 ''usage: grep pattern [file ...]\<newline>'' [] w)
      | [pattern] \<Rightarrow> obind (grep S pattern 0 w) (\<lambda>_ w. Some (Exited 0 w))
      | pattern # files \<Rightarrow> grep_files S pattern files w)"

section \<open>What a pattern means\<close>

text \<open>
  A pattern is a sequence of single characters and starred characters, possibly anchored at the end
  of the text. The dot stands for every character.
\<close>

datatype item = One char | Star char

function items :: "string \<Rightarrow> item list \<times> bool" where
  "items [] = ([], False)"
| "items (c # re) =
     (if re \<noteq> [] \<and> hd re = CHR ''*'' then (Star c # fst (items (tl re)), snd (items (tl re)))
      else if c = CHR ''$'' \<and> re = [] then ([], True)
      else (One c # fst (items re), snd (items re)))"
  by pat_completeness auto
termination
  by (relation "measure length") auto

definition fits :: "char \<Rightarrow> char \<Rightarrow> bool" where
  "fits c x \<longleftrightarrow> c = CHR ''.'' \<or> x = c"

fun lang :: "item list \<Rightarrow> string set" where
  "lang [] = {[]}"
| "lang (One c # is) = {x # u | x u. fits c x \<and> u \<in> lang is}"
| "lang (Star c # is) = {s @ u | s u. list_all (fits c) s \<and> u \<in> lang is}"

text \<open>A pattern matches at the beginning of a text when some prefix is in its language.\<close>

definition hits :: "string \<Rightarrow> string \<Rightarrow> bool" where
  "hits re str \<longleftrightarrow> (\<exists>u v. str = u @ v \<and> u \<in> lang (fst (items re)) \<and> (snd (items re) \<longrightarrow> v = []))"

lemma hits_Nil [simp]: "hits [] str"
  by (simp add: hits_def)

lemma hits_Star:
  assumes "re1 \<noteq> []" "hd re1 = CHR ''*''"
  shows "hits (c # re1) str \<longleftrightarrow> (\<exists>s t. str = s @ t \<and> list_all (fits c) s \<and> hits (tl re1) t)"
  using assms by (simp add: hits_def) (metis append.assoc)

lemma hits_End: "hits ''$'' str \<longleftrightarrow> str = []"
  by (simp add: hits_def)

lemma hits_One:
  assumes "\<not> (re1 \<noteq> [] \<and> hd re1 = CHR ''*'')" "\<not> (c = CHR ''$'' \<and> re1 = [])"
  shows "hits (c # re1) str \<longleftrightarrow> str \<noteq> [] \<and> fits c (hd str) \<and> hits re1 (tl str)"
  using assms by (cases str) (auto simp: hits_def append_eq_Cons_conv Cons_eq_append_conv)

lemma star_unroll:
  "(\<exists>s t. str = s @ t \<and> list_all (fits c) s \<and> P t) \<longleftrightarrow>
     P str \<or> (str \<noteq> [] \<and> fits c (hd str) \<and> (\<exists>s t. tl str = s @ t \<and> list_all (fits c) s \<and> P t))"
proof (intro iffI)
  assume "\<exists>s t. str = s @ t \<and> list_all (fits c) s \<and> P t"
  then obtain s t where "str = s @ t" "list_all (fits c) s" "P t" by blast
  then show "P str \<or> (str \<noteq> [] \<and> fits c (hd str) \<and> (\<exists>s t. tl str = s @ t \<and> list_all (fits c) s \<and> P t))"
    by (cases s) auto
next
  assume "P str \<or> (str \<noteq> [] \<and> fits c (hd str) \<and> (\<exists>s t. tl str = s @ t \<and> list_all (fits c) s \<and> P t))"
  then show "\<exists>s t. str = s @ t \<and> list_all (fits c) s \<and> P t"
  proof
    assume "P str"
    then show ?thesis by (intro exI [of _ "[]"] exI [of _ str]) simp
  next
    assume *: "str \<noteq> [] \<and> fits c (hd str) \<and> (\<exists>s t. tl str = s @ t \<and> list_all (fits c) s \<and> P t)"
    then obtain s t where "tl str = s @ t" "list_all (fits c) s" "P t" by blast
    with * show ?thesis by (intro exI [of _ "hd str # s"] exI [of _ t]) (cases str, auto)
  qed
qed

lemma matchers_correct:
  "matchhere re str \<longleftrightarrow> hits re str"
  "matchstar c re str \<longleftrightarrow> (\<exists>s t. str = s @ t \<and> list_all (fits c) s \<and> hits re t)"
proof (induction re str and c re str rule: matchhere_matchstar.induct)
  case (1 re str)
  show ?case
  proof (cases re)
    case Nil
    then show ?thesis by (simp add: matchhere.simps)
  next
    case (Cons c re1)
    show ?thesis
    proof (cases "re1 \<noteq> [] \<and> hd re1 = CHR ''*''")
      case True
      then show ?thesis using 1(1) [OF Cons True] hits_Star [of re1 c str]
        unfolding Cons matchhere.simps [of "c # re1"] by simp
    next
      case star: False
      show ?thesis
      proof (cases "c = CHR ''$'' \<and> re1 = []")
        case True
        then show ?thesis unfolding Cons matchhere.simps [of "c # re1"] by (simp add: hits_End)
      next
        case False
        have "matchhere re str \<longleftrightarrow> str \<noteq> [] \<and> fits c (hd str) \<and> matchhere re1 (tl str)"
          unfolding matchhere.simps [of re] using star False by (auto simp: Cons fits_def)
        then show ?thesis using 1(2) [OF Cons star False] hits_One [OF star False] by (auto simp: Cons fits_def)
      qed
    qed
  qed
next
  case (2 c re str)
  have fc: "(hd str = c \<or> c = CHR ''.'') = fits c (hd str)" by (auto simp: fits_def)
  show ?case
    using 2 unfolding matchstar.simps [of c re str] star_unroll [of str c "hits re"] fc by (simp split: if_splits)
qed

lemma ex_le_Suc: "(\<exists>k \<le> Suc n. P k) \<longleftrightarrow> P 0 \<or> (\<exists>k \<le> n. P (Suc k))"
  by (metis Suc_le_mono not0_implies_Suc le0)

lemma match_loop_iff: "match_loop re str \<longleftrightarrow> (\<exists>k \<le> length str. hits re (drop k str))"
proof (induction str)
  case Nil
  then show ?case by (simp add: match_loop.simps matchers_correct)
next
  case (Cons x str)
  have "(\<exists>k \<le> length (x # str). hits re (drop k (x # str))) \<longleftrightarrow> hits re (x # str) \<or> (\<exists>k \<le> length str. hits re (drop k str))"
    using ex_le_Suc [of "length str" "\<lambda>k. hits re (drop k (x # str))"] by simp
  then show ?case using Cons by (simp add: match_loop.simps [of re "x # str"] matchers_correct)
qed

text \<open>
  C24. The matcher decides its language: \<open>match\<close> accepts a line exactly when the pattern, read as a
  sequence of characters, dots, starred characters and an optional final \<open>$\<close>, matches the beginning
  of the line (after \<open>^\<close>) or the beginning of some suffix of it. In particular it always returns.
\<close>

theorem match_correct:
  "match re str \<longleftrightarrow>
     (if re \<noteq> [] \<and> hd re = CHR ''^'' then hits (tl re) str else (\<exists>k \<le> length str. hits re (drop k str)))"
  by (simp add: match_def matchers_correct match_loop_iff)

section \<open>Lines\<close>

abbreviation (input) NL :: char where "NL \<equiv> CHR ''\<newline>''"

text \<open>The complete lines of a text, and the part after the last newline.\<close>

function lines_of :: "string \<Rightarrow> string list" where
  "lines_of s = (if NL \<in> set s then takeWhile (\<lambda>c. c \<noteq> NL) s # lines_of (tl (dropWhile (\<lambda>c. c \<noteq> NL) s)) else [])"
  by pat_completeness auto
termination
proof (relation "measure length", goal_cases)
  case (2 s)
  then have "dropWhile (\<lambda>c. c \<noteq> NL) s \<noteq> []" by (auto simp: dropWhile_eq_Nil_conv)
  then show ?case using length_dropWhile_le [of "\<lambda>c. c \<noteq> NL" s] by (cases "dropWhile (\<lambda>c. c \<noteq> NL) s") auto
qed simp

declare lines_of.simps [simp del]

definition last_part :: "string \<Rightarrow> string" where
  "last_part s = rev (takeWhile (\<lambda>c. c \<noteq> NL) (rev s))"

lemma lines_of_none: "NL \<notin> set s \<Longrightarrow> lines_of s = []"
  by (simp add: lines_of.simps)

lemma lines_of_line: "NL \<notin> set l \<Longrightarrow> lines_of (l @ NL # s) = l # lines_of s"
proof -
  assume "NL \<notin> set l"
  then have "takeWhile (\<lambda>c. c \<noteq> NL) (l @ NL # s) = l" "dropWhile (\<lambda>c. c \<noteq> NL) (l @ NL # s) = NL # s"
    by (induction l) auto
  then show ?thesis by (subst lines_of.simps) simp
qed

lemma split_line: "NL \<in> set s \<Longrightarrow> \<exists>l r. s = l @ NL # r \<and> NL \<notin> set l"
  using split_list_first by fastforce

lemma last_part_simps:
  "NL \<notin> set s \<Longrightarrow> last_part s = s" "last_part (l @ NL # s) = last_part s"
proof -
  show "NL \<notin> set s \<Longrightarrow> last_part s = s"
  proof -
    assume "NL \<notin> set s"
    then have "takeWhile (\<lambda>c. c \<noteq> NL) (rev s) = rev s" by (intro takeWhile_eq_all_conv [THEN iffD2]) auto
    then show "last_part s = s" unfolding last_part_def by (simp only: rev_rev_ident)
  qed
  show "last_part (l @ NL # s) = last_part s"
    by (simp add: last_part_def takeWhile_tail)
qed

lemma lines_of_append: "lines_of (s @ t) = lines_of s @ lines_of (last_part s @ t)"
proof (induction "length s" arbitrary: s rule: less_induct)
  case less
  show ?case
  proof (cases "NL \<in> set s")
    case True
    then obtain l r where s: "s = l @ NL # r" "NL \<notin> set l" using split_line by blast
    then show ?thesis using less [of r] by (simp add: lines_of_line last_part_simps)
  next
    case False
    then show ?thesis by (simp add: lines_of_none last_part_simps)
  qed
qed

lemma strchr_pos_line: "NL \<notin> set l \<Longrightarrow> CHR 0x00 \<notin> set l \<Longrightarrow> strchr_pos (l @ NL # r) NL = Some (length l)"
  by (induction l) auto

lemma strchr_pos_none: "NL \<notin> set s \<Longrightarrow> strchr_pos s NL = None"
  by (induction s) auto

section \<open>The output\<close>

definition selected :: "string \<Rightarrow> string \<Rightarrow> string" where
  "selected pattern s = concat (map (\<lambda>l. l @ [NL]) (filter (match pattern) (lines_of s)))"

lemma grep_lines_spec:
  assumes "stream_io S fd rest out" "CHR 0x00 \<notin> set p"
  shows "\<exists>w'. grep_lines S pattern p w = (last_part p, w') \<and> out w' = out w @ selected pattern p \<and> rest w' = rest w"
  using assms(2)
proof (induction "length p" arbitrary: p w rule: less_induct)
  case less
  show ?case
  proof (cases "NL \<in> set p")
    case True
    then obtain l r where p: "p = l @ NL # r" "NL \<notin> set l" using split_line by blast
    then have q: "strchr_pos p NL = Some (length l)" using strchr_pos_line [of l r] less.prems by simp
    obtain v w1 where w1: "sys_write S 1 (l @ [NL]) w = (v, w1)" by fastforce
    note o = stream_write [OF assms(1) w1]
    let ?w = "if match pattern l then w1 else w"
    obtain w' where w': "grep_lines S pattern r ?w = (last_part r, w')" "out w' = out ?w @ selected pattern r" "rest w' = rest ?w"
      using less.hyps [of r ?w] less.prems p by auto
    have "grep_lines S pattern p w = (last_part p, w')"
      using q w'(1) w1 p(1) by (subst grep_lines.simps) (simp add: last_part_simps split: if_splits)
    then show ?thesis using w' o p by (auto simp: selected_def lines_of_line)
  next
    case False
    then show ?thesis
      by (subst grep_lines.simps) (simp add: strchr_pos_none last_part_simps selected_def lines_of_none)
  qed
qed

text \<open>No 1023 consecutive characters of the text are free of a newline.\<close>

definition short_lines :: "string \<Rightarrow> bool" where
  "short_lines s \<longleftrightarrow> (\<forall>u x v. s = u @ x @ v \<longrightarrow> length x = 1023 \<longrightarrow> NL \<in> set x)"

lemma short_lines_prefix: "short_lines (b @ r) \<Longrightarrow> NL \<notin> set b \<Longrightarrow> length b < 1023"
proof (rule ccontr)
  assume *: "short_lines (b @ r)" "NL \<notin> set b" "\<not> length b < 1023"
  have "b @ r = [] @ take 1023 b @ (drop 1023 b @ r)" by simp
  moreover have "length (take 1023 b) = 1023" using *(3) by simp
  ultimately have "NL \<in> set (take 1023 b)" using *(1) unfolding short_lines_def by blast
  then show False using *(2) by (meson in_set_takeD)
qed

lemma short_lines_suffix: "short_lines (s @ t) \<Longrightarrow> short_lines t"
  unfolding short_lines_def by (metis append.assoc)

lemma last_part_suffix: "\<exists>u. s = u @ last_part s"
  unfolding last_part_def by (metis rev_append rev_rev_ident takeWhile_dropWhile_id)

lemma last_part_no_NL: "NL \<notin> set (last_part s)"
  by (auto simp: last_part_def dest: set_takeWhileD)

lemma grep_loop_spec:
  assumes io: "stream_io S fd rest out"
  shows "CHR 0x00 \<notin> set (b @ rest w) \<Longrightarrow> short_lines (b @ rest w) \<Longrightarrow> NL \<notin> set b \<Longrightarrow>
    \<exists>w'. grep_loop S pattern fd b w = Some (Done () w') \<and> out w' = out w @ selected pattern (b @ rest w)"
proof (induction "length (rest w)" arbitrary: b w rule: less_induct)
  case less
  have len: "length b < 1023" using short_lines_prefix [OF less.prems(2,3)] .
  obtain c w1 where r: "sys_read S fd (1024 - length b - 1) w = ((int (length c), c), w1)" "rest w = c @ rest w1"
    "c = [] \<Longrightarrow> 1024 - length b - 1 = 0 \<or> rest w = []" "out w1 = out w"
    using stream_readE [OF io] by metis
  show ?case
  proof (cases "c = []")
    case True
    then have "rest w = []" using r(3) len by auto
    then have "grep_loop S pattern fd b w = Some (Done () w1)" "selected pattern (b @ rest w) = []"
      using r True less.prems(3) by (simp_all add: grep_loop.simps Let_def selected_def lines_of_none)
    then show ?thesis using r(4) by simp
  next
    case False
    obtain w2 where w2: "grep_lines S pattern (b @ c) w1 = (last_part (b @ c), w2)"
      "out w2 = out w1 @ selected pattern (b @ c)" "rest w2 = rest w1"
      using grep_lines_spec [OF io, of "b @ c" pattern w1] less.prems(1) r(2) by auto
    obtain u where u: "b @ c = u @ last_part (b @ c)" using last_part_suffix by blast
    have all: "b @ rest w = u @ last_part (b @ c) @ rest w1" using r(2) u by (metis append.assoc)
    obtain w' where w': "grep_loop S pattern fd (last_part (b @ c)) w2 = Some (Done () w')"
      "out w' = out w2 @ selected pattern (last_part (b @ c) @ rest w2)"
      using less.hyps [of w2 "last_part (b @ c)"] less.prems(1,2) False r(2) w2(3) last_part_no_NL
        short_lines_suffix [of u "last_part (b @ c) @ rest w1"] unfolding all by auto
    have "grep_loop S pattern fd b w = Some (Done () w')"
      using r(1) False w2(1) w'(1) by (subst grep_loop.simps) (simp add: Let_def)
    moreover have "selected pattern (b @ rest w) = selected pattern (b @ c) @ selected pattern (last_part (b @ c) @ rest w1)"
      using lines_of_append [of "b @ c" "rest w1"] r(2) by (simp add: selected_def)
    ultimately show ?thesis using w'(2) w2(2,3) r(4) by simp
  qed
qed

text \<open>
  C37. \<open>grep\<close> prints exactly the lines that match, in order, however the data is cut into pieces by
  \<open>read\<close>: for a text without NUL bytes in which every line is shorter than the 1023 bytes of the
  buffer, it returns and its output is the matching complete lines. (A part after the last newline
  is never printed.)
\<close>

theorem grep_prints_matches:
  assumes "stream_io S fd rest out" "CHR 0x00 \<notin> set (rest w)" "short_lines (rest w)"
  shows "\<exists>w'. grep S pattern fd w = Some (Done () w') \<and>
    out w' = out w @ concat (map (\<lambda>l. l @ [NL]) (filter (match pattern) (lines_of (rest w))))"
  using grep_loop_spec [OF assms(1), of "[]" w pattern] assms(2,3) by (simp add: grep_def selected_def)

theorem grep_prints_matches_witness:
  "stream_io (demo_sys 3) 0 fst snd \<and>
   (\<exists>w'. grep (demo_sys 3) ''a.*c'' 0 (''xabbc\<newline>abd\<newline>ac\<newline>'', []) = Some (Done () w') \<and>
      snd w' = concat (map (\<lambda>l. l @ [NL]) (filter (match ''a.*c'') [''xabbc'', ''abd'', ''ac''])))"
proof -
  let ?w = "(''xabbc\<newline>abd\<newline>ac\<newline>'', [])"
  have "short_lines (fst ?w)" unfolding short_lines_def by (auto dest!: arg_cong [of _ _ length])
  moreover have "lines_of (fst ?w) = [''xabbc'', ''abd'', ''ac'']" by (simp add: lines_of.simps)
  ultimately show ?thesis
    using grep_prints_matches [OF demo_sys_stream, of ?w 3 "''a.*c''" 0] demo_sys_stream [of 3 0] by simp
qed

end
