(* ===== verification/Ulib.thy ===== *)
theory Ulib
  imports Formatting Kernel_String
begin

text \<open>
  \<^verbatim>\<open>user/ulib.c\<close>: the C library of the user programs, over the byte-addressed memory of a process.
  Routines that run until they see a NUL or another stop character may not return: \<open>None\<close>.
  \<^verbatim>\<open>char\<close> is unsigned on RISC-V.
\<close>

section \<open>The routines\<close>

partial_function (option) strcpy_loop :: "mem \<Rightarrow> u64 \<Rightarrow> u64 \<Rightarrow> mem option" where
  "strcpy_loop m s t =
     (let m' = m(s := m t) in if m t \<noteq> 0 then strcpy_loop m' (s + 1) (t + 1) else Some m')"

definition u_strcpy :: "mem \<Rightarrow> u64 \<Rightarrow> u64 \<Rightarrow> mem option" where
  "u_strcpy m s t = strcpy_loop m s t"

partial_function (option) u_strcmp :: "mem \<Rightarrow> u64 \<Rightarrow> u64 \<Rightarrow> int option" where
  "u_strcmp m p q =
     (if m p \<noteq> 0 \<and> m p = m q then u_strcmp m (p + 1) (q + 1) else Some (uint (m p) - uint (m q)))"

partial_function (option) u_strlen_loop :: "mem \<Rightarrow> u64 \<Rightarrow> nat \<Rightarrow> nat option" where
  "u_strlen_loop m s n = (if m (s + of_nat n) \<noteq> 0 then u_strlen_loop m s (Suc n) else Some n)"

definition u_strlen :: "mem \<Rightarrow> u64 \<Rightarrow> nat option" where
  "u_strlen m s = u_strlen_loop m s 0"

fun u_memset_loop :: "mem \<Rightarrow> u64 \<Rightarrow> u8 \<Rightarrow> nat \<Rightarrow> mem" where
  "u_memset_loop m cdst c 0 = m"
| "u_memset_loop m cdst c (Suc n) = u_memset_loop (m(cdst := c)) (cdst + 1) c n"

definition u_memset :: "mem \<Rightarrow> u64 \<Rightarrow> u32 \<Rightarrow> u32 \<Rightarrow> mem" where
  "u_memset m dst c n = u_memset_loop m dst (ucast c) (unat n)"

partial_function (option) u_strchr :: "mem \<Rightarrow> u64 \<Rightarrow> u8 \<Rightarrow> u64 option option" where
  "u_strchr m s c = (if m s = 0 then Some None else if m s = c then Some (Some s) else u_strchr m (s + 1) c)"

text \<open>\<open>gets\<close> reads one character at a time from standard input; \<open>k\<close> is the room that is left.\<close>

fun gets_loop :: "'w sys \<Rightarrow> nat \<Rightarrow> mem \<Rightarrow> u64 \<Rightarrow> 'w \<Rightarrow> (mem \<times> u64) \<times> 'w" where
  "gets_loop S 0 m p w = ((m, p), w)"
| "gets_loop S (Suc k) m p w =
     (case sys_read S 0 1 w of ((cc, s), w) \<Rightarrow>
        if cc < 1 then ((m, p), w)
        else let c = of_char (hd s) :: u8; m = m(p := c) in
          if c = 10 \<or> c = 13 then ((m, p + 1), w) else gets_loop S k m (p + 1) w)"

definition u_gets :: "'w sys \<Rightarrow> mem \<Rightarrow> u64 \<Rightarrow> int \<Rightarrow> 'w \<Rightarrow> mem \<times> 'w" where
  "u_gets S m buf mx w = (case gets_loop S (nat (mx - 1)) m buf w of ((m, p), w) \<Rightarrow> (m(p := 0), w))"

definition u_stat :: "'w sys \<Rightarrow> string \<Rightarrow> 'w \<Rightarrow> (int \<times> stat_t option) \<times> 'w" where
  "u_stat S n w =
     (case sys_open S n O_RDONLY w of (fd, w) \<Rightarrow>
        if fd < 0 then ((- 1, None), w)
        else case sys_fstat S fd w of ((r, st), w) \<Rightarrow> ((r, Some st), snd (sys_close S fd w)))"

partial_function (option) atoi_loop :: "mem \<Rightarrow> u64 \<Rightarrow> u32 \<Rightarrow> u32 option" where
  "atoi_loop m s n = (if 48 \<le> m s \<and> m s \<le> 57 then atoi_loop m (s + 1) (n * 10 + ucast (m s) - 48) else Some n)"

definition u_atoi :: "mem \<Rightarrow> u64 \<Rightarrow> int option" where
  "u_atoi m s = map_option sint (atoi_loop m s 0)"

definition u_memmove :: "mem \<Rightarrow> u64 \<Rightarrow> u64 \<Rightarrow> int \<Rightarrow> mem" where
  "u_memmove m vdst vsrc n =
     (if vsrc > vdst then copy_forward m vdst vsrc (nat n)
      else copy_backward m (vdst + word_of_int n) (vsrc + word_of_int n) (nat n))"

fun u_memcmp_loop :: "mem \<Rightarrow> u64 \<Rightarrow> u64 \<Rightarrow> nat \<Rightarrow> int" where
  "u_memcmp_loop m p1 p2 0 = 0"
| "u_memcmp_loop m p1 p2 (Suc n) =
     (if m p1 \<noteq> m p2 then uint (m p1) - uint (m p2) else u_memcmp_loop m (p1 + 1) (p2 + 1) n)"

definition u_memcmp :: "mem \<Rightarrow> u64 \<Rightarrow> u64 \<Rightarrow> u32 \<Rightarrow> int" where
  "u_memcmp m s1 s2 n = u_memcmp_loop m s1 s2 (unat n)"

definition u_memcpy :: "mem \<Rightarrow> u64 \<Rightarrow> u64 \<Rightarrow> u32 \<Rightarrow> mem" where
  "u_memcpy m dst src n = u_memmove m dst src (sint n)"

section \<open>Moving memory\<close>

lemma sint_of_small: "unat (n :: u32) < 2 ^ 31 \<Longrightarrow> sint n = int (unat n)"
proof -
  have u: "uint n = int (unat n)" by simp
  assume "unat n < 2 ^ 31"
  then have "uint n < 2 ^ 31" by (metis of_nat_less_iff of_nat_numeral of_nat_power u)
  then have "signed_take_bit 31 (uint n) = uint n" 
    using uint_ge_0 [of n] by (intro signed_take_bit_int_eq_self) linarith+
  then show ?thesis by (simp add: sint_uint)
qed

lemma u_memmove_wrbytes:
  assumes "0 \<le> n" "unat src + nat n < 2 ^ 64" "unat dst + nat n < 2 ^ 64"
  shows "u_memmove m dst src n = wrbytes m dst (rdbytes m src (nat n))"
proof -
  have at: "unat (src + of_nat i) = unat src + i" "unat (dst + of_nat i) = unat dst + i" if "i < nat n" for i
    using that assms by (simp_all add: unat_add_of_nat)
  have w: "(word_of_int n :: u64) = of_nat (nat n)" using assms(1) by (metis int_nat_eq of_int_of_nat_eq)
  show ?thesis
  proof (cases "dst < src")
    case True
    then have "copy_forward m dst src (nat n) = wrbytes m dst (rdbytes m src (nat n))"
      using assms at by (intro copy_forward_wrbytes) (auto simp: word_less_nat_alt dest!: arg_cong [where f = unat])
    then show ?thesis using True by (simp add: u_memmove_def)
  next
    case False
    then have "copy_backward m (dst + of_nat (nat n)) (src + of_nat (nat n)) (nat n) = wrbytes m dst (rdbytes m src (nat n))"
      using assms at by (intro copy_backward_wrbytes) (auto simp: word_less_nat_alt dest!: arg_cong [where f = unat])
    then show ?thesis using False by (simp add: u_memmove_def w)
  qed
qed

text \<open>
  The two implementations of \<open>memmove\<close> agree: on blocks that do not wrap around the address space,
  overlapping or not, the user library's version (which copies backwards whenever the source is not
  above the destination) and the kernel's version (which does so only on a forward overlap) leave the
  same memory.
\<close>

theorem memmove_agree:
  assumes "unat n < 2 ^ 31" "unat src + unat n < 2 ^ 64" "unat dst + unat n < 2 ^ 64"
  shows "u_memmove m dst src (sint n) = memmove m dst src n \<and> u_memcpy m dst src n = memcpy m dst src n"
proof -
  have "sint n = int (unat n)" using sint_of_small [OF assms(1)] .
  then have "u_memmove m dst src (sint n) = memmove m dst src n"
    using u_memmove_wrbytes [of "sint n" src dst m] memmove_wrbytes [of src n dst m] assms by simp
  then show ?thesis by (simp add: u_memcpy_def memcpy_def)
qed

theorem memmove_agree_witness:
  "u_memmove (\<lambda>a. ucast a) 101 100 (sint (3 :: u32)) = memmove (\<lambda>a. ucast a) 101 100 3"
  using memmove_agree [of 3 100 101 "\<lambda>a. ucast a"] by simp

section \<open>Numbers\<close>

lemma digit_byte:
  assumes "d < 10"
  shows "unat (of_nat (48 + d) :: u8) = 48 + d" "(ucast (of_nat (48 + d) :: u8) :: u32) = of_nat (48 + d)"
    and "48 \<le> (of_nat (48 + d) :: u8) \<and> of_nat (48 + d) \<le> (57 :: u8)"
proof -
  show u: "unat (of_nat (48 + d) :: u8) = 48 + d"
    using assms by (simp add: unat_of_nat take_bit_nat_eq_self del: of_nat_add)
  show "(ucast (of_nat (48 + d) :: u8) :: u32) = of_nat (48 + d)"
    by (rule word_unatI) (use u assms in \<open>simp add: unsigned_ucast_eq unat_of_nat take_bit_nat_eq_self del: of_nat_add\<close>)
  show "48 \<le> (of_nat (48 + d) :: u8) \<and> of_nat (48 + d) \<le> (57 :: u8)"
    using u assms unfolding word_le_nat_alt by simp
qed

lemma atoi_loop_digits:
  assumes "\<forall>d \<in> set ds. d < 10" "\<not> (48 \<le> m (s + of_nat (length ds)) \<and> m (s + of_nat (length ds)) \<le> 57)"
    and "\<And>i. i < length ds \<Longrightarrow> m (s + of_nat i) = of_nat (48 + ds ! i)"
  shows "atoi_loop m s n = Some (foldl (\<lambda>n d. n * 10 + of_nat d) n ds)"
  using assms
proof (induction ds arbitrary: s n)
  case Nil
  then show ?case by (subst atoi_loop.simps) auto
next
  case (Cons d ds)
  have ms: "m s = of_nat (48 + d)" using Cons.prems(3) [of 0] by simp
  have d: "d < 10" using Cons.prems(1) by simp
  have "48 \<le> m s \<and> m s \<le> 57" "(ucast (m s) :: u32) = of_nat (48 + d)" unfolding ms using digit_byte(2,3) [OF d] by blast+
  moreover have "m (s + 1 + of_nat i) = of_nat (48 + ds ! i)" if "i < length ds" for i
    using Cons.prems(3) [of "Suc i"] that by (simp add: add.assoc)
  then have "atoi_loop m (s + 1) (n * 10 + of_nat d) = Some (foldl (\<lambda>n d. n * 10 + of_nat d) (n * 10 + of_nat d) ds)"
    using Cons.prems(1,2) by (intro Cons.IH) (simp_all add: add.assoc)
  ultimately show ?case by (subst atoi_loop.simps) simp
qed

text \<open>The digits that \<open>printint\<close> prints in base 10, as numbers.\<close>

lemma digit_loop_map:
  "\<exists>ds. digit_loop udigits 10 x = map ((!) udigits) ds \<and> (\<forall>d \<in> set ds. d < 10) \<and> foldl (\<lambda>n d. n * 10 + d) 0 (rev ds) = x"
proof (induction x rule: less_induct)
  case (less x)
  show ?case
  proof (cases "x div 10 = 0")
    case True
    then show ?thesis by (intro exI [of _ "[x mod 10]"]) (subst digit_loop.simps, auto)
  next
    case False
    then have "x div 10 < x" by auto
    from less [OF this] obtain ds where ds: "digit_loop udigits 10 (x div 10) = map ((!) udigits) ds" "\<forall>d \<in> set ds. d < 10"
      "foldl (\<lambda>n d. n * 10 + d) 0 (rev ds) = x div 10" by blast
    then show ?thesis using False by (intro exI [of _ "x mod 10 # ds"]) (subst digit_loop.simps, auto)
  qed
qed

lemma udigits_byte: "d < 10 \<Longrightarrow> (of_char (udigits ! d) :: u8) = of_nat (48 + d)"
proof -
  assume "d < 10"
  then have "d \<in> {0, 1, 2, 3, 4, 5, 6, 7, 8, 9}" by auto
  then show ?thesis unfolding udigits_def by (elim insertE emptyE) (simp_all add: of_char_def)
qed

lemma foldl_of_nat: "foldl (\<lambda>n d. n * 10 + of_nat d) (of_nat a) ds = (of_nat (foldl (\<lambda>n d. n * 10 + d) a ds) :: u32)"
proof (induction ds arbitrary: a)
  case (Cons d ds)
  have "of_nat a * 10 + of_nat d = (of_nat (a * 10 + d) :: u32)" by simp
  with Cons [of "a * 10 + d"] show ?case by (simp only: foldl_Cons)
qed simp

lemma atoi_nonneg:
  assumes "n < 2 ^ 31" "cstr m s (map of_char (uprintint (of_nat n) 10 True))"
  shows "u_atoi m s = Some (int n)"
proof -
  obtain ds where ds: "digit_loop udigits 10 n = map ((!) udigits) ds" "\<forall>d \<in> set ds. d < 10"
      "foldl (\<lambda>n d. n * 10 + d) 0 (rev ds) = n" using digit_loop_map by blast
  have u: "unat (of_nat n :: u64) = n" using assms(1) by (simp add: unat_of_nat take_bit_nat_eq_self)
  have "\<not> sint (of_nat n :: u64) < 0" using assms(1) int_word_sint [of "int n", where 'a = 64] by simp
  then have "uprintint (of_nat n) 10 True = map ((!) udigits) (rev ds)"
    using ds(1) assms(1) by (simp add: uprintint_def Let_def u unsigned_ucast_eq take_bit_nat_eq_self rev_map)
  then have "map of_char (uprintint (of_nat n) 10 True) = map (\<lambda>d. of_nat (48 + d) :: u8) (rev ds)"
    using ds(2) udigits_byte by simp
  then have c: "cstr m s (map (\<lambda>d. of_nat (48 + d)) (rev ds))" using assms(2) by simp
  let ?bs = "map (\<lambda>d. of_nat (48 + d) :: u8) (rev ds)"
  have end0: "m (s + of_nat (length (rev ds))) = 0" using c by (simp add: cstr_def)
  have at: "m (s + of_nat i) = of_nat (48 + rev ds ! i)" if "i < length (rev ds)" for i
  proof -
    have "rdbytes m s (length ?bs) ! i = ?bs ! i" using c unfolding cstr_def by metis
    then show ?thesis using that by (simp add: rdbytes_def)
  qed
  have "atoi_loop m s 0 = Some (foldl (\<lambda>n d. n * 10 + of_nat d) 0 (rev ds))"
    using ds(2) end0 at by (intro atoi_loop_digits) auto
  also have "\<dots> = Some (of_nat n)" using foldl_of_nat [of 0 "rev ds"] ds(3) by simp
  finally show ?thesis using sint_of_small [of "of_nat n"] assms(1)
    by (simp add: u_atoi_def unat_of_nat take_bit_nat_eq_self)
qed

lemma atoi_minus:
  assumes "m s = 45"
  shows "u_atoi m s = Some 0"
  using assms by (subst u_atoi_def, subst atoi_loop.simps) simp

text \<open>
  \<open>atoi\<close> on the decimal text of a number: when memory holds the NUL-terminated text that the user-level
  \<open>printint\<close> produces in base 10 for a value of type \<open>int\<close>, \<open>atoi\<close> returns; for a number that is not negative it
  gives that number back, and for a negative one it stops at the minus sign and gives 0.
\<close>

theorem atoi_printint:
  assumes "- (2 ^ 31) \<le> n" "n < 2 ^ 31" "cstr m s (map of_char (uprintint (word_of_int n) 10 True))"
  shows "u_atoi m s = Some (if n < 0 then 0 else n)"
proof (cases "n < 0")
  case True
  have "sint (word_of_int n :: u64) = n" using assms(1,2) by (subst int_word_sint) simp
  then obtain rest where "map of_char (uprintint (word_of_int n) 10 True) = (45 :: u8) # rest"
    using True by (auto simp: uprintint_def Let_def of_char_def)
  then have "rdbytes m s (Suc (length rest)) = 45 # rest" using assms(3) by (auto simp: cstr_def)
  then have "rdbytes m s (Suc (length rest)) ! 0 = 45" by simp
  then have "m s = 45" by (simp add: rdbytes_def del: upt_Suc)
  then show ?thesis using True atoi_minus by simp
next
  case False
  then obtain k where k: "n = int k" by (metis not_less zero_le_imp_eq_int)
  then show ?thesis using assms(2,3) atoi_nonneg [of k m s] by simp
qed

theorem atoi_printint_witness:
  "u_atoi (\<lambda>a. if a = 0 then 52 else if a = 1 then 50 else 0) 0 = Some 42 \<and>
   u_atoi (\<lambda>a. if a = 0 then 45 else if a = 1 then 55 else 0) 0 = Some 0"
proof
  have "uprintint 42 10 True = ''42''" "uprintint (- 7) 10 True = ''-7''"
    by (simp_all add: uprintint_def Let_def digit_loop.simps udigits_def)
  then show "u_atoi (\<lambda>a. if a = 0 then 52 else if a = 1 then 50 else 0) 0 = Some 42"
    "u_atoi (\<lambda>a. if a = 0 then 45 else if a = 1 then 55 else 0) 0 = Some 0"
    using atoi_printint [of 42 "\<lambda>a. if a = 0 then 52 else if a = 1 then 50 else 0" 0]
      atoi_printint [of "- 7" "\<lambda>a. if a = 0 then 45 else if a = 1 then 55 else 0" 0]
    by (simp_all add: cstr_def rdbytes_def of_char_def)
qed

end
