(* ===== verification/Text_Tools.thy ===== *)
theory Text_Tools
  imports Grep Ulib
begin

text \<open>
  Small user programs: \<^verbatim>\<open>user/wc.c\<close>, \<^verbatim>\<open>user/cat.c\<close>, \<^verbatim>\<open>user/echo.c\<close>, \<^verbatim>\<open>user/ls.c\<close>, \<^verbatim>\<open>user/rm.c\<close>,
  \<^verbatim>\<open>user/mkdir.c\<close>, \<^verbatim>\<open>user/ln.c\<close>, \<^verbatim>\<open>user/kill.c\<close>, \<^verbatim>\<open>user/zombie.c\<close> and \<^verbatim>\<open>user/init.c\<close>. The argument list of a
  \<open>main\<close> is \<^verbatim>\<open>argv[1], argv[2], ...\<close>.
\<close>

section \<open>wc\<close>

record wc_state =
  wc_l :: int
  wc_w :: int
  wc_c :: int
  inword :: bool

definition wc_sep :: "char \<Rightarrow> bool" where
  "wc_sep c \<longleftrightarrow> c \<in> {CHR '' '', CHR 0x0D, CHR 0x09, CHR 0x0A, CHR 0x0B}"

definition wc_char :: "char \<Rightarrow> wc_state \<Rightarrow> wc_state" where
  "wc_char x s =
     (let s = s\<lparr>wc_c := wc_c s + 1\<rparr>; s = (if x = NL then s\<lparr>wc_l := wc_l s + 1\<rparr> else s) in
      if wc_sep x then s\<lparr>inword := False\<rparr>
      else if \<not> inword s then s\<lparr>wc_w := wc_w s + 1, inword := True\<rparr> else s)"

partial_function (option) wc_loop :: "'w sys \<Rightarrow> int \<Rightarrow> wc_state \<Rightarrow> 'w \<Rightarrow> ((int \<times> wc_state) \<times> 'w) option" where
  "wc_loop S fd s w =
     (let r = sys_read S fd 512 w in
      if fst (fst r) \<le> 0 then Some ((fst (fst r), s), snd r)
      else wc_loop S fd (fold wc_char (snd (fst r)) s) (snd r))"

definition wc :: "'w sys \<Rightarrow> int \<Rightarrow> string \<Rightarrow> 'w \<Rightarrow> (unit, 'w) uout option" where
  "wc S fd name w =
     (case wc_loop S fd \<lparr>wc_l = 0, wc_w = 0, wc_c = 0, inword = False\<rparr> w of
        None \<Rightarrow> None
      | Some ((n, s), w) \<Rightarrow>
          if n < 0 then map_option (Exited 1) (fprintf S 1 ''wc: read error\<newline>'' [] w)
          else map_option (Done ()) (fprintf S 1 ''%d %d %d %s\<newline>''
            [VInt (word_of_int (wc_l s)), VInt (word_of_int (wc_w s)), VInt (word_of_int (wc_c s)), VStr (Some name)] w))"

text \<open>The loop of \<open>main\<close> over the file arguments that several programs share; \<open>complain\<close> prints the error.\<close>

fun each_file :: "'w sys \<Rightarrow> (string \<Rightarrow> 'w \<Rightarrow> 'w option) \<Rightarrow> (int \<Rightarrow> string \<Rightarrow> 'w \<Rightarrow> (unit, 'w) uout option) \<Rightarrow>
    string list \<Rightarrow> 'w \<Rightarrow> (unit, 'w) uout option" where
  "each_file S complain f [] w = Some (Exited 0 w)"
| "each_file S complain f (a # as) w =
     (case sys_open S a O_RDONLY w of (fd, w) \<Rightarrow>
        if fd < 0 then map_option (Exited 1) (complain a w)
        else obind (f fd a w) (\<lambda>_ w. each_file S complain f as (snd (sys_close S fd w))))"

definition wc_main :: "'w sys \<Rightarrow> string list \<Rightarrow> 'w \<Rightarrow> (unit, 'w) uout option" where
  "wc_main S args w =
     (if args = [] then obind (wc S 0 [] w) (\<lambda>_ w. Some (Exited 0 w))
      else each_file S (\<lambda>a. fprintf S 1 ''wc: cannot open %s\<newline>'' [VStr (Some a)]) (\<lambda>fd a. wc S fd a) args w)"

section \<open>cat\<close>

partial_function (option) cat :: "'w sys \<Rightarrow> int \<Rightarrow> 'w \<Rightarrow> (unit, 'w) uout option" where
  "cat S fd w =
     (let r = sys_read S fd 512 w in
      if fst (fst r) > 0
      then let v = sys_write S 1 (snd (fst r)) (snd r) in
        if fst v \<noteq> fst (fst r) then map_option (Exited 1) (fprintf S 2 ''cat: write error\<newline>'' [] (snd v))
        else cat S fd (snd v)
      else if fst (fst r) < 0 then map_option (Exited 1) (fprintf S 2 ''cat: read error\<newline>'' [] (snd r))
      else Some (Done () (snd r)))"

definition cat_main :: "'w sys \<Rightarrow> string list \<Rightarrow> 'w \<Rightarrow> (unit, 'w) uout option" where
  "cat_main S args w =
     (if args = [] then obind (cat S 0 w) (\<lambda>_ w. Some (Exited 0 w))
      else each_file S (\<lambda>a. fprintf S 2 ''cat: cannot open %s\<newline>'' [VStr (Some a)]) (\<lambda>fd a. cat S fd) args w)"

section \<open>echo\<close>

fun echo_loop :: "'w sys \<Rightarrow> string list \<Rightarrow> 'w \<Rightarrow> 'w" where
  "echo_loop S [] w = w"
| "echo_loop S (a # as) w =
     echo_loop S as (snd (sys_write S 1 (if as \<noteq> [] then '' '' else ''\<newline>'') (snd (sys_write S 1 a w))))"

definition echo_main :: "'w sys \<Rightarrow> string list \<Rightarrow> 'w \<Rightarrow> (unit, 'w) uout" where
  "echo_main S args w = Exited 0 (echo_loop S args w)"

section \<open>ls\<close>

abbreviation (input) DIRSIZ :: nat where "DIRSIZ \<equiv> 14"

text \<open>\<open>fmtname\<close>: the loop walks down from the end of the path; the result is where the last name starts.\<close>

fun fmt_start :: "string \<Rightarrow> nat \<Rightarrow> nat" where
  "fmt_start path 0 = 0"
| "fmt_start path (Suc i) = (if path ! i = CHR ''/'' then Suc i else fmt_start path i)"

definition fmtname :: "string \<Rightarrow> string" where
  "fmtname path =
     (let p = drop (fmt_start path (length path)) path in
      if length p \<ge> DIRSIZ then p else p @ replicate (DIRSIZ - length p) CHR '' '')"

abbreviation (input) T_DIR :: int where "T_DIR \<equiv> 1"
abbreviation (input) T_FILE :: int where "T_FILE \<equiv> 2"
abbreviation (input) T_DEVICE :: int where "T_DEVICE \<equiv> 3"

definition ls_line :: "'w sys \<Rightarrow> string \<Rightarrow> stat_t \<Rightarrow> 'w \<Rightarrow> 'w option" where
  "ls_line S path st w = fprintf S 1 ''%s %d %d %d\<newline>''
     [VStr (Some (fmtname path)), VInt (word_of_int (st_type st)), VInt (of_nat (st_ino st)), VInt (of_nat (st_size st))] w"

text \<open>A directory entry read as 16 bytes: the inode number and the name, which ends at a NUL if it has one.\<close>

definition de_inum :: "string \<Rightarrow> nat" where
  "de_inum de = of_char (de ! 0) + 256 * of_char (de ! 1)"

definition de_name :: "string \<Rightarrow> string" where
  "de_name de = takeWhile (\<lambda>c. c \<noteq> CHR 0x00) (take DIRSIZ (drop 2 de))"

partial_function (option) ls_dir :: "'w sys \<Rightarrow> int \<Rightarrow> string \<Rightarrow> 'w \<Rightarrow> 'w option" where
  "ls_dir S fd path w =
     (let r = sys_read S fd 16 w in
      if fst (fst r) \<noteq> 16 then Some (snd r)
      else if de_inum (snd (fst r)) = 0 then ls_dir S fd path (snd r)
      else let name = path @ ''/'' @ de_name (snd (fst r)); st = u_stat S name (snd r) in
        Option.bind (case fst st of
            (k, Some s) \<Rightarrow> if k < 0 then fprintf S 1 ''ls: cannot stat %s\<newline>'' [VStr (Some name)] (snd st)
                          else ls_line S name s (snd st)
          | (k, None) \<Rightarrow> fprintf S 1 ''ls: cannot stat %s\<newline>'' [VStr (Some name)] (snd st))
          (ls_dir S fd path))"

definition ls :: "'w sys \<Rightarrow> string \<Rightarrow> 'w \<Rightarrow> 'w option" where
  "ls S path w =
     (case sys_open S path O_RDONLY w of (fd, w) \<Rightarrow>
        if fd < 0 then fprintf S 2 ''ls: cannot open %s\<newline>'' [VStr (Some path)] w
        else case sys_fstat S fd w of ((r, st), w) \<Rightarrow>
          if r < 0 then map_option (\<lambda>w. snd (sys_close S fd w)) (fprintf S 2 ''ls: cannot stat %s\<newline>'' [VStr (Some path)] w)
          else map_option (\<lambda>w. snd (sys_close S fd w))
            (if st_type st = T_DEVICE \<or> st_type st = T_FILE then ls_line S path st w
             else if st_type st = T_DIR then
               if length path + 1 + DIRSIZ + 1 > 512 then fprintf S 1 ''ls: path too long\<newline>'' [] w
               else ls_dir S fd path w
             else Some w))"

fun ls_all :: "'w sys \<Rightarrow> string list \<Rightarrow> 'w \<Rightarrow> 'w option" where
  "ls_all S [] w = Some w"
| "ls_all S (a # as) w = Option.bind (ls S a w) (ls_all S as)"

definition ls_main :: "'w sys \<Rightarrow> string list \<Rightarrow> 'w \<Rightarrow> (unit, 'w) uout option" where
  "ls_main S args w = map_option (Exited 0) (if args = [] then ls S ''.'' w else ls_all S args w)"

section \<open>rm, mkdir, ln, kill, zombie\<close>

fun rm_loop :: "'w sys \<Rightarrow> string list \<Rightarrow> 'w \<Rightarrow> 'w option" where
  "rm_loop S [] w = Some w"
| "rm_loop S (a # as) w =
     (case sys_unlink S a w of (r, w) \<Rightarrow>
        if r < 0 then fprintf S 2 ''rm: %s failed to delete\<newline>'' [VStr (Some a)] w else rm_loop S as w)"

definition rm_main :: "'w sys \<Rightarrow> string list \<Rightarrow> 'w \<Rightarrow> (unit, 'w) uout option" where
  "rm_main S args w =
     (if args = [] then map_option (Exited 1) (fprintf S 2 ''Usage: rm files...\<newline>'' [] w)
      else map_option (Exited 0) (rm_loop S args w))"

fun mkdir_loop :: "'w sys \<Rightarrow> string list \<Rightarrow> 'w \<Rightarrow> 'w option" where
  "mkdir_loop S [] w = Some w"
| "mkdir_loop S (a # as) w =
     (case sys_mkdir S a w of (r, w) \<Rightarrow>
        if r < 0 then fprintf S 2 ''mkdir: %s failed to create\<newline>'' [VStr (Some a)] w else mkdir_loop S as w)"

definition mkdir_main :: "'w sys \<Rightarrow> string list \<Rightarrow> 'w \<Rightarrow> (unit, 'w) uout option" where
  "mkdir_main S args w =
     (if args = [] then map_option (Exited 1) (fprintf S 2 ''Usage: mkdir files...\<newline>'' [] w)
      else map_option (Exited 0) (mkdir_loop S args w))"

definition ln_main :: "'w sys \<Rightarrow> string list \<Rightarrow> 'w \<Rightarrow> (unit, 'w) uout option" where
  "ln_main S args w =
     (case args of
        [old, new] \<Rightarrow> (case sys_link S old new w of (r, w) \<Rightarrow>
          if r < 0 then map_option (Exited 0) (fprintf S 2 ''link %s %s: failed\<newline>'' [VStr (Some old), VStr (Some new)] w)
          else Some (Exited 0 w))
      | _ \<Rightarrow> map_option (Exited 1) (fprintf S 2 ''Usage: ln old new\<newline>'' [] w))"

text \<open>\<open>atoi\<close> on a string argument.\<close>

fun atoi_str :: "u32 \<Rightarrow> string \<Rightarrow> u32" where
  "atoi_str n [] = n"
| "atoi_str n (c # s) =
     (if 48 \<le> (of_char c :: nat) \<and> (of_char c :: nat) \<le> 57 then atoi_str (n * 10 + of_char c - 48) s else n)"

definition kill_main :: "'w sys \<Rightarrow> string list \<Rightarrow> 'w \<Rightarrow> (unit, 'w) uout option" where
  "kill_main S args w =
     (if args = [] then map_option (Exited 1) (fprintf S 2 ''usage: kill pid...\<newline>'' [] w)
      else Some (Exited 0 (foldl (\<lambda>w a. snd (sys_kill S (sint (atoi_str 0 a)) w)) w args)))"

definition zombie_main :: "'w sys \<Rightarrow> 'w \<Rightarrow> (unit, 'w) uout" where
  "zombie_main S w = (case sys_fork S w of (r, w) \<Rightarrow> Exited 0 (if r > 0 then snd (sys_sleep S 5 w) else w))"

section \<open>init\<close>

text \<open>
  \<open>init_wait\<close> collects exited processes until the shell is among them. The outer loop of \<open>init\<close> ends
  only by an error, so a run that keeps restarting the shell does not return.
\<close>

partial_function (option) init_wait :: "'w sys \<Rightarrow> int \<Rightarrow> 'w \<Rightarrow> (unit, 'w) uout option" where
  "init_wait S pid w =
     (let r = sys_wait S w in
      if fst r = pid then Some (Done () (snd r))
      else if fst r < 0 then map_option (Exited 1) (fprintf S 1 ''init: wait returned an error\<newline>'' [] (snd r))
      else init_wait S pid (snd r))"

definition init_child :: "'w sys \<Rightarrow> 'w \<Rightarrow> (unit, 'w) uout option" where
  "init_child S w =
     (case sys_exec S ''sh'' [''sh''] w of
        (None, w) \<Rightarrow> Some (Execd w)
      | (Some r, w) \<Rightarrow> map_option (Exited 1) (fprintf S 1 ''init: exec sh failed\<newline>'' [] w))"

definition init_round :: "'w sys \<Rightarrow> 'w \<Rightarrow> (unit, 'w) uout option" where
  "init_round S w =
     (case fprintf S 1 ''init: starting sh\<newline>'' [] w of
        None \<Rightarrow> None
      | Some w \<Rightarrow> (case sys_fork S w of (pid, w) \<Rightarrow>
          if pid < 0 then map_option (Exited 1) (fprintf S 1 ''init: fork failed\<newline>'' [] w)
          else if pid = 0 then init_child S w
          else init_wait S pid w))"

partial_function (option) init_loop :: "'w sys \<Rightarrow> 'w \<Rightarrow> (unit, 'w) uout option" where
  "init_loop S w = Option.bind (init_round S w) (\<lambda>r.
     case r of Done x w \<Rightarrow> init_loop S w | Exited c w \<Rightarrow> Some (Exited c w) | Execd w \<Rightarrow> Some (Execd w))"

definition init_main :: "'w sys \<Rightarrow> 'w \<Rightarrow> (unit, 'w) uout option" where
  "init_main S w =
     (let r = sys_open S ''console'' O_RDWR w;
          w = (if fst r < 0 then snd (sys_open S ''console'' O_RDWR (snd (sys_mknod S ''console'' 1 0 (snd r)))) else snd r);
          w = snd (sys_dup S 0 w); w = snd (sys_dup S 0 w)
      in init_loop S w)"

section \<open>Counting\<close>

text \<open>The words of a text: the positions where a non-separator follows a separator or the beginning.\<close>

definition word_starts :: "string \<Rightarrow> nat set" where
  "word_starts s = {i. i < length s \<and> \<not> wc_sep (s ! i) \<and> (i = 0 \<or> wc_sep (s ! (i - 1)))}"

lemma word_starts_snoc:
  "word_starts (s @ [x]) = word_starts s \<union> (if \<not> wc_sep x \<and> (s = [] \<or> wc_sep (last s)) then {length s} else {})"
proof (intro set_eqI iffI)
  fix i
  assume i: "i \<in> word_starts (s @ [x])"
  show "i \<in> word_starts s \<union> (if \<not> wc_sep x \<and> (s = [] \<or> wc_sep (last s)) then {length s} else {})"
  proof (cases "i = length s")
    case True
    then show ?thesis using i by (cases "s = []") (auto simp: word_starts_def nth_append last_conv_nth)
  next
    case False
    then have "i < length s" "i - 1 < length s" using i by (auto simp: word_starts_def)
    then show ?thesis using i by (auto simp: word_starts_def nth_append)
  qed
next
  fix i
  assume "i \<in> word_starts s \<union> (if \<not> wc_sep x \<and> (s = [] \<or> wc_sep (last s)) then {length s} else {})"
  then show "i \<in> word_starts (s @ [x])"
    by (cases "s = []") (auto simp: word_starts_def nth_append last_conv_nth split: if_splits)
qed

lemma finite_word_starts [simp]: "finite (word_starts s)"
  by (rule finite_subset [of _ "{..<length s}"]) (auto simp: word_starts_def)

lemma length_notin_word_starts [simp]: "length s \<notin> word_starts s"
  by (simp add: word_starts_def)

lemma wc_fold:
  "fold wc_char s \<lparr>wc_l = 0, wc_w = 0, wc_c = 0, inword = False\<rparr> =
     \<lparr>wc_l = int (count_list s NL), wc_w = int (card (word_starts s)), wc_c = int (length s),
      inword = (s \<noteq> [] \<and> \<not> wc_sep (last s))\<rparr>"
proof (induction s rule: rev_induct)
  case Nil
  then show ?case by (simp add: word_starts_def)
next
  case (snoc x s)
  have "wc_sep NL" by (simp add: wc_sep_def)
  then show ?case using snoc
    by (auto simp: wc_char_def Let_def word_starts_snoc count_list_append)
qed

lemma wc_loop_spec:
  assumes io: "stream_io S fd rest out"
  shows "\<exists>w'. wc_loop S fd s w = Some ((0, fold wc_char (rest w) s), w') \<and> out w' = out w"
proof (induction "length (rest w)" arbitrary: s w rule: less_induct)
  case less
  obtain c w1 where r: "sys_read S fd 512 w = ((int (length c), c), w1)" "rest w = c @ rest w1"
    "c = [] \<Longrightarrow> (512 :: nat) = 0 \<or> rest w = []" "out w1 = out w"
    using stream_readE [OF io, of 512 w] by metis
  show ?case
  proof (cases "c = []")
    case True
    then show ?thesis using r by (subst wc_loop.simps) (auto simp: Let_def)
  next
    case False
    then obtain w' where "wc_loop S fd (fold wc_char c s) w1 = Some ((0, fold wc_char (rest w1) (fold wc_char c s)), w')" "out w' = out w1"
      using less [of w1 "fold wc_char c s"] r(2) by auto
    then show ?thesis using r False by (subst wc_loop.simps) (auto simp: Let_def)
  qed
qed

lemma uputs_out: "stream_io S fd rest out \<Longrightarrow> out (uputs S 1 s w) = out w @ s"
proof (induction s arbitrary: w)
  case (Cons c s)
  obtain r w' where w': "sys_write S 1 [c] w = (r, w')" by fastforce
  show ?case using Cons.IH [OF Cons.prems, of w'] stream_write(2) [OF Cons.prems w'] w' by (simp add: uputs_def)
qed (simp add: uputs_def)

text \<open>
  \<open>wc\<close> counts: for every way the input is cut into pieces, it returns after printing the number of
  newlines, the number of words (maximal runs of non-separators) and the number of bytes of the whole
  input, followed by the name.
\<close>

theorem wc_counts:
  assumes "stream_io S fd rest out"
  shows "\<exists>w'. wc S fd name w = Some (Done () w') \<and>
    out w' = out w @ uprintint (va_int (of_nat (count_list (rest w) NL))) 10 True @ '' '' @
      uprintint (va_int (of_nat (card (word_starts (rest w))))) 10 True @ '' '' @
      uprintint (va_int (of_nat (length (rest w)))) 10 True @ '' '' @ name @ ''\<newline>''"
proof -
  obtain w1 where w1: "wc_loop S fd \<lparr>wc_l = 0, wc_w = 0, wc_c = 0, inword = False\<rparr> w =
      Some ((0, fold wc_char (rest w) \<lparr>wc_l = 0, wc_w = 0, wc_c = 0, inword = False\<rparr>), w1)" "out w1 = out w"
    using wc_loop_spec [OF assms] by blast
  show ?thesis
    using w1 uputs_out [OF assms] by (simp add: wc_def wc_fold fprintf_def uconv_def nextc_def Let_def)
qed

theorem wc_counts_witness:
  "stream_io (demo_sys 3) 0 fst snd \<and> (\<exists>w'. wc (demo_sys 3) 0 ''f'' (''ab  c\<newline>'', []) = Some (Done () w'))"
  using wc_counts [OF demo_sys_stream, of 3 0 "''f''" "(''ab  c\<newline>'', [])"] demo_sys_stream [of 3 0] by auto

section \<open>Copying\<close>

text \<open>
  \<open>cat\<close> copies its input to standard output unchanged and returns, for every way the input is cut
  into pieces; and \<open>echo\<close> prints its arguments separated by single spaces, with one newline at the end.
\<close>

theorem cat_echo_output:
  assumes "stream_io S fd rest out"
  shows "(\<exists>w'. cat S fd w = Some (Done () w') \<and> out w' = out w @ rest w) \<and>
    (\<exists>w'. echo_main S (a # as) w = Exited 0 w' \<and> out w' = out w @ a @ concat (map (\<lambda>s. '' '' @ s) as) @ ''\<newline>'')"
proof
  show "\<exists>w'. cat S fd w = Some (Done () w') \<and> out w' = out w @ rest w"
  proof (induction "length (rest w)" arbitrary: w rule: less_induct)
    case less
    obtain c w1 where r: "sys_read S fd 512 w = ((int (length c), c), w1)" "rest w = c @ rest w1"
      "c = [] \<Longrightarrow> (512 :: nat) = 0 \<or> rest w = []" "out w1 = out w"
      using stream_readE [OF assms, of 512 w] by metis
    obtain k w2 where w2: "sys_write S 1 c w1 = (k, w2)" by fastforce
    note o = stream_write [OF assms w2]
    show ?case
    proof (cases "c = []")
      case True
      then show ?thesis using r by (subst cat.simps) (auto simp: Let_def)
    next
      case False
      then show ?thesis using r w2 o less [of w2] by (subst cat.simps) (auto simp: Let_def)
    qed
  qed
  have "out (echo_loop S (a # as) w) = out w @ a @ concat (map (\<lambda>s. '' '' @ s) as) @ ''\<newline>''"
  proof (induction as arbitrary: a w)
    case Nil
    obtain k w1 where w1: "sys_write S 1 a w = (k, w1)" by fastforce
    obtain k' w2 where w2: "sys_write S 1 ''\<newline>'' w1 = (k', w2)" by fastforce
    show ?case using w1 w2 stream_write(2) [OF assms w1] stream_write(2) [OF assms w2] by simp
  next
    case (Cons b as)
    obtain k w1 where w1: "sys_write S 1 a w = (k, w1)" by fastforce
    obtain k' w2 where w2: "sys_write S 1 '' '' w1 = (k', w2)" by fastforce
    show ?case using w1 w2 stream_write(2) [OF assms w1] stream_write(2) [OF assms w2] Cons [of b w2] by simp
  qed
  then show "\<exists>w'. echo_main S (a # as) w = Exited 0 w' \<and> out w' = out w @ a @ concat (map (\<lambda>s. '' '' @ s) as) @ ''\<newline>''"
    by (simp add: echo_main_def)
qed

theorem cat_echo_output_witness:
  "(\<exists>w'. cat (demo_sys 1) 0 (''hello'', []) = Some (Done () w') \<and> snd w' = ''hello'') \<and>
   (\<exists>w'. echo_main (demo_sys 1) [''a'', ''b''] ([], []) = Exited 0 w' \<and> snd w' = ''a b\<newline>'')"
  using cat_echo_output [OF demo_sys_stream, of 1 0 "(''hello'', [])" "''a''" "[''b'']"]
    cat_echo_output [OF demo_sys_stream, of 1 0 "([], [])" "''a''" "[''b'']"] by simp

end
