(* ===== verification/Shell.thy ===== *)
theory Shell
  imports Formatting "HOL-Library.Multiset"
begin

text \<open>
  \<^verbatim>\<open>user/sh.c\<close>: the shell's parser, the execution of parsed commands and the command loop. The line is
  a buffer, a pointer into it is a position, and the character at the end of the string is NUL. The
  words of a command are kept as pairs of positions, as in the code, until \<open>nulterminate\<close> cuts the
  buffer. Allocation of command nodes is taken to succeed. \<open>panic\<close> ends the process, so a parser
  function gives either the message or its result. The recursive functions have a fuel argument;
  \<open>None\<close> is running out of it.
\<close>

section \<open>Commands\<close>

type_synonym span = "nat \<times> nat"

datatype cmd =
    Exec "span list"
  | Redir cmd span int int
  | Pipe cmd cmd
  | Lst cmd cmd
  | Back cmd

abbreviation (input) MAXARGS :: nat where "MAXARGS \<equiv> 10"

section \<open>Tokens\<close>

definition char_at :: "string \<Rightarrow> nat \<Rightarrow> char" where
  "char_at b i = (if i < length b then b ! i else CHR 0x00)"

definition whitespace :: string where
  "whitespace = [CHR '' '', CHR 0x09, CHR 0x0D, CHR 0x0A, CHR 0x0B]"

definition symbols :: string where
  "symbols = ''<|>&;()''"

function skip_while :: "(char \<Rightarrow> bool) \<Rightarrow> string \<Rightarrow> nat \<Rightarrow> nat" where
  "skip_while p b s = (if s < length b \<and> p (b ! s) then skip_while p b (Suc s) else s)"
  by pat_completeness auto
termination
  by (relation "measure (\<lambda>(p, b, s). length b - s)") auto

declare skip_while.simps [simp del]

definition skip_space :: "string \<Rightarrow> nat \<Rightarrow> nat" where
  "skip_space b s = skip_while (\<lambda>c. c \<in> set whitespace) b s"

text \<open>\<open>gettoken\<close> gives the kind of the token, its positions \<^verbatim>\<open>q\<close> and \<^verbatim>\<open>eq\<close>, and the new \<^verbatim>\<open>*ps\<close>.\<close>

definition gettoken :: "string \<Rightarrow> nat \<Rightarrow> char \<times> span \<times> nat" where
  "gettoken b ps =
     (let q = skip_space b ps; c = char_at b q;
          (ret, eq) =
            (if c = CHR 0x00 then (c, q)
             else if c \<in> set ''|();&<'' then (c, Suc q)
             else if c = CHR ''>'' then
               (if char_at b (Suc q) = CHR ''>'' then (CHR ''+'', Suc (Suc q)) else (c, Suc q))
             else (CHR ''a'', skip_while (\<lambda>c. c \<notin> set whitespace \<and> c \<notin> set symbols) b q))
      in (ret, (q, eq), skip_space b eq))"

definition peek :: "string \<Rightarrow> nat \<Rightarrow> string \<Rightarrow> bool \<times> nat" where
  "peek b ps toks =
     (let s = skip_space b ps in (char_at b s \<noteq> CHR 0x00 \<and> char_at b s \<in> set toks, s))"

section \<open>Progress of the tokenizer\<close>

lemma skip_while_ge: "s \<le> skip_while p b s"
  by (induction p b s rule: skip_while.induct) (subst skip_while.simps, auto)

lemma skip_while_le: "s \<le> length b \<Longrightarrow> skip_while p b s \<le> length b"
  by (induction p b s rule: skip_while.induct) (subst skip_while.simps, auto)

lemma skip_while_stop: "skip_while p b s < length b \<Longrightarrow> \<not> p (b ! skip_while p b s)"
  by (induction p b s rule: skip_while.induct) (metis skip_while.simps)

lemma skip_while_all: "s \<le> i \<Longrightarrow> i < skip_while p b s \<Longrightarrow> p (b ! i)"
proof (induction p b s rule: skip_while.induct)
  case (1 p b s)
  show ?case
  proof (cases "s < length b \<and> p (b ! s)")
    case True
    then have e: "skip_while p b s = skip_while p b (Suc s)" by (subst skip_while.simps) simp
    show ?thesis using 1 True unfolding e by (cases "i = s") auto
  next
    case False
    then have "skip_while p b s = s" by (subst skip_while.simps) auto
    then show ?thesis using 1 by simp
  qed
qed

lemma skip_while_once: "s < length b \<Longrightarrow> p (b ! s) \<Longrightarrow> s < skip_while p b s"
  by (subst skip_while.simps) (use skip_while_ge [of "Suc s" p b] in auto)

lemma skip_space_ge: "s \<le> skip_space b s"
  by (simp add: skip_space_def skip_while_ge)

lemma skip_space_le: "s \<le> length b \<Longrightarrow> skip_space b s \<le> length b"
  by (simp add: skip_space_def skip_while_le)

lemma char_at_NUL: "CHR 0x00 \<notin> set b \<Longrightarrow> char_at b i = CHR 0x00 \<longleftrightarrow> length b \<le> i"
  by (auto simp: char_at_def in_set_conv_nth)

text \<open>A token that is not the end of the line is not empty, and \<^verbatim>\<open>*ps\<close> moves past it inside the line.\<close>

lemma gettoken_progress:
  assumes "gettoken b ps = (ret, (q, eq), ps')" "CHR 0x00 \<notin> set b" "ps \<le> length b"
  shows "ps' \<le> length b" "ps \<le> q" "q \<le> eq" "eq \<le> ps'" "ret \<noteq> CHR 0x00 \<Longrightarrow> q < eq" "ret \<noteq> CHR 0x00 \<Longrightarrow> ps < ps'"
proof -
  have q: "q = skip_space b ps" "ps \<le> q" "q \<le> length b"
    using assms skip_space_ge [of ps b] skip_space_le [of ps b]
    by (auto simp: gettoken_def Let_def split: if_splits prod.splits)
  have ps': "ps' = skip_space b eq" using assms(1) by (auto simp: gettoken_def Let_def split: if_splits prod.splits)
  have eq: "eq \<le> length b \<and> q \<le> eq \<and> (ret \<noteq> CHR 0x00 \<longrightarrow> q < eq)"
  proof (cases "char_at b q = CHR 0x00")
    case True
    then show ?thesis using assms(1) q by (auto simp: gettoken_def Let_def)
  next
    case False
    then have lt: "q < length b" using char_at_NUL [OF assms(2)] by auto
    have c: "char_at b q = b ! q" using lt by (simp add: char_at_def)
    consider "char_at b q \<in> set ''|();&<''" | "char_at b q = CHR ''>''"
      | "char_at b q \<notin> set ''|();&<''" "char_at b q \<noteq> CHR ''>''" by blast
    then show ?thesis
    proof cases
      case 1
      then show ?thesis using assms(1) q lt by (auto simp: gettoken_def Let_def)
    next
      case 2
      then show ?thesis using assms(1) q lt False
        by (auto simp: gettoken_def Let_def char_at_def split: if_splits)
    next
      case 3
      let ?p = "\<lambda>c. c \<notin> set whitespace \<and> c \<notin> set symbols"
      have "b ! q \<notin> set whitespace"
        using skip_while_stop [of "\<lambda>c. c \<in> set whitespace" b ps] lt q(1) by (simp add: skip_space_def)
      moreover have "b ! q \<notin> set symbols" using 3 c by (simp add: symbols_def)
      ultimately have "q < skip_while ?p b q" using skip_while_once [of q b ?p] lt by blast
      moreover have "eq = skip_while ?p b q" using assms(1) q 3 False by (auto simp: gettoken_def Let_def)
      ultimately show ?thesis using skip_while_le [of q b ?p] lt by auto
    qed
  qed
  show "ps' \<le> length b" "ps \<le> q" "q \<le> eq" "eq \<le> ps'" using q eq ps' skip_space_ge [of eq b] skip_space_le [of eq b] by auto
  show "ret \<noteq> CHR 0x00 \<Longrightarrow> q < eq" using eq by blast
  then show "ret \<noteq> CHR 0x00 \<Longrightarrow> ps < ps'" using q(2) \<open>eq \<le> ps'\<close> by simp
qed

lemma peek_facts:
  assumes "peek b ps toks = (r, s)" "ps \<le> length b"
  shows "ps \<le> s" "s \<le> length b" "r \<Longrightarrow> s < length b"
  using assms skip_space_ge [of ps b] skip_space_le [of ps b] by (auto simp: peek_def Let_def char_at_def split: if_splits)

text \<open>Without any assumption on the line: tokens never go back, and a symbol that was seen is consumed.\<close>

lemma gettoken_mono:
  assumes "gettoken b ps = (ret, (q, eq), ps')"
  shows "ps \<le> ps'"
proof -
  have q: "q = skip_space b ps" "ps' = skip_space b eq"
    using assms by (auto simp: gettoken_def Let_def split: if_splits prod.splits)
  have "q \<le> eq" using assms q skip_while_ge [of q _ b]
    by (auto simp: gettoken_def Let_def split: if_splits prod.splits)
  then show ?thesis using q skip_space_ge [of ps b] skip_space_ge [of eq b] by simp
qed

lemma skip_space_idem: "skip_space b (skip_space b ps) = skip_space b ps"
proof -
  have "skip_while p b (skip_while p b ps) = skip_while p b ps" for p
    by (subst skip_while.simps) (use skip_while_stop [of p b ps] in auto)
  then show ?thesis by (simp add: skip_space_def)
qed

lemma gettoken_after_peek:
  assumes "peek b ps toks = (True, s)" "set toks \<subseteq> set symbols" "gettoken b s = (ret, (q, eq), ps')"
  shows "s < length b" "s < ps'"
proof -
  have s: "s = skip_space b ps" "char_at b s \<noteq> CHR 0x00" "char_at b s \<in> set toks"
    using assms(1) by (auto simp: peek_def Let_def)
  then show "s < length b" by (auto simp: char_at_def split: if_splits)
  have "char_at b s \<in> set symbols" using s(3) assms(2) by blast
  then have "char_at b s \<in> set ''|();&<'' \<or> char_at b s = CHR ''>''" by (auto simp: symbols_def)
  then have "Suc s \<le> eq" "ps' = skip_space b eq"
    using assms(3) s(2) skip_space_idem [of b ps] s(1) by (auto simp: gettoken_def Let_def split: if_splits prod.splits)
  then show "s < ps'" using skip_space_ge [of eq b] by simp
qed

section \<open>The parser\<close>

type_synonym 'a parse = "string + ('a \<times> nat)"

definition redir_mode :: "char \<Rightarrow> int \<times> int" where
  "redir_mode tok =
     (if tok = CHR ''<'' then (O_RDONLY, 0)
      else if tok = CHR ''>'' then (O_WRONLY + O_CREATE + O_TRUNC, 1)
      else (O_WRONLY + O_CREATE, 1))"

function parseredirs :: "cmd \<Rightarrow> string \<Rightarrow> nat \<Rightarrow> cmd parse" where
  "parseredirs c b ps =
     (case peek b ps ''<>'' of (r, ps) \<Rightarrow>
        if \<not> r then Inr (c, ps)
        else case gettoken b ps of (tok, _, ps) \<Rightarrow>
          case gettoken b ps of (kind, span, ps) \<Rightarrow>
            if kind \<noteq> CHR ''a'' then Inl ''missing file for redirection''
            else parseredirs (Redir c span (fst (redir_mode tok)) (snd (redir_mode tok))) b ps)"
  by pat_completeness auto
termination
proof (relation "measure (\<lambda>(c, b, ps). length b - ps)", goal_cases)
  case (2 c b ps r s tok t1 tk s1 kind t2 sp s2)
  then have p: "peek b ps ''<>'' = (True, s)" "gettoken b s = (tok, tk, s1)" "gettoken b s1 = (kind, sp, s2)" by auto
  have "set ''<>'' \<subseteq> set symbols" by (simp add: symbols_def)
  then have "s < length b" "s < s1" using gettoken_after_peek [OF p(1)] p(2) by (metis surj_pair)+
  moreover have "s1 \<le> s2" using gettoken_mono p(3) by (metis surj_pair)
  moreover have "ps \<le> s" using p(1) skip_space_ge [of ps b] by (auto simp: peek_def Let_def)
  ultimately show ?case by auto
qed simp

declare parseredirs.simps [simp del]

text \<open>
  The argument loop of \<open>parseexec\<close>. The \<open>Exec\<close> node sits inside the redirections read so far and is
  filled in place; \<open>add_arg\<close> is that assignment. \<open>argc\<close> counts the arguments.
\<close>

fun add_arg :: "span \<Rightarrow> cmd \<Rightarrow> cmd" where
  "add_arg a (Exec as) = Exec (as @ [a])"
| "add_arg a (Redir c f m d) = Redir (add_arg a c) f m d"
| "add_arg a c = c"

function parseargs :: "nat \<Rightarrow> cmd \<Rightarrow> string \<Rightarrow> nat \<Rightarrow> cmd parse" where
  "parseargs argc ret b ps =
     (case peek b ps ''|)&;'' of (r, ps) \<Rightarrow>
        if r then Inr (ret, ps)
        else case gettoken b ps of (tok, span, ps) \<Rightarrow>
          if tok = CHR 0x00 then Inr (ret, ps)
          else if tok \<noteq> CHR ''a'' then Inl ''syntax''
          else if Suc argc \<ge> MAXARGS then Inl ''too many args''
          else case parseredirs (add_arg span ret) b ps of
              Inl m \<Rightarrow> Inl m
            | Inr (ret, ps) \<Rightarrow> parseargs (Suc argc) ret b ps)"
  by pat_completeness auto
termination
  by (relation "measure (\<lambda>(argc, ret, b, ps). MAXARGS - argc)") auto

declare parseargs.simps [simp del]

text \<open>The loop of \<open>parseline\<close> over the ampersands.\<close>

function parseamps :: "cmd \<Rightarrow> string \<Rightarrow> nat \<Rightarrow> cmd \<times> nat" where
  "parseamps c b ps =
     (case peek b ps ''&'' of (r, ps) \<Rightarrow>
        if r then parseamps (Back c) b (snd (snd (gettoken b ps))) else (c, ps))"
  by pat_completeness auto
termination
proof (relation "measure (\<lambda>(c, b, ps). length b - ps)", goal_cases)
  case (2 c b ps r s)
  then have p: "peek b ps ''&'' = (True, s)" by simp
  obtain tok q e s1 where g: "gettoken b s = (tok, (q, e), s1)" by (metis surj_pair)
  have "set ''&'' \<subseteq> set symbols" by (simp add: symbols_def)
  then have "s < length b" "s < s1" using gettoken_after_peek [OF p _ g] by auto
  moreover have "ps \<le> s" using p skip_space_ge [of ps b] by (auto simp: peek_def Let_def)
  ultimately show ?case using g by auto
qed simp

declare parseamps.simps [simp del]

fun pbind :: "'a parse option \<Rightarrow> ('a \<Rightarrow> nat \<Rightarrow> 'b parse option) \<Rightarrow> 'b parse option" where
  "pbind None f = None"
| "pbind (Some (Inl m)) f = Some (Inl m)"
| "pbind (Some (Inr (x, s))) f = f x s"

fun parseline :: "nat \<Rightarrow> string \<Rightarrow> nat \<Rightarrow> cmd parse option"
  and parsepipe :: "nat \<Rightarrow> string \<Rightarrow> nat \<Rightarrow> cmd parse option"
  and parseblock :: "nat \<Rightarrow> string \<Rightarrow> nat \<Rightarrow> cmd parse option"
  and parseexec :: "nat \<Rightarrow> string \<Rightarrow> nat \<Rightarrow> cmd parse option" where
  "parseline 0 b ps = None"
| "parseline (Suc n) b ps =
     pbind (parsepipe n b ps) (\<lambda>c ps.
       case parseamps c b ps of (c, ps) \<Rightarrow>
       case peek b ps '';'' of (r, ps) \<Rightarrow>
         if r then pbind (parseline n b (snd (snd (gettoken b ps)))) (\<lambda>c2 ps. Some (Inr (Lst c c2, ps)))
         else Some (Inr (c, ps)))"
| "parsepipe 0 b ps = None"
| "parsepipe (Suc n) b ps =
     pbind (parseexec n b ps) (\<lambda>c ps.
       case peek b ps ''|'' of (r, ps) \<Rightarrow>
         if r then pbind (parsepipe n b (snd (snd (gettoken b ps)))) (\<lambda>c2 ps. Some (Inr (Pipe c c2, ps)))
         else Some (Inr (c, ps)))"
| "parseblock 0 b ps = None"
| "parseblock (Suc n) b ps =
     (case peek b ps ''('' of (r, ps) \<Rightarrow>
        if \<not> r then Some (Inl ''parseblock'')
        else pbind (parseline n b (snd (snd (gettoken b ps)))) (\<lambda>c ps.
          case peek b ps '')'' of (r, ps) \<Rightarrow>
            if \<not> r then Some (Inl ''syntax - missing )'')
            else Some (parseredirs c b (snd (snd (gettoken b ps))))))"
| "parseexec 0 b ps = None"
| "parseexec (Suc n) b ps =
     (case peek b ps ''('' of (r, ps) \<Rightarrow>
        if r then parseblock n b ps
        else case parseredirs (Exec []) b ps of
            Inl m \<Rightarrow> Some (Inl m)
          | Inr (ret, ps) \<Rightarrow> Some (parseargs 0 ret b ps))"

text \<open>\<open>nulterminate\<close> overwrites the character after each word; the buffer holds the terminator too.\<close>

fun nulterminate :: "cmd \<Rightarrow> string \<Rightarrow> string" where
  "nulterminate (Exec as) b = foldl (\<lambda>b a. b[snd a := CHR 0x00]) b as"
| "nulterminate (Redir c f m d) b = (nulterminate c b)[snd f := CHR 0x00]"
| "nulterminate (Pipe l r) b = nulterminate r (nulterminate l b)"
| "nulterminate (Lst l r) b = nulterminate r (nulterminate l b)"
| "nulterminate (Back c) b = nulterminate c b"

definition cstr_at :: "string \<Rightarrow> nat \<Rightarrow> string" where
  "cstr_at b q = takeWhile (\<lambda>c. c \<noteq> CHR 0x00) (drop q b)"

text \<open>
  \<open>parsecmd\<close> gives the tree with the word_cut buffer, or the messages printed before the process exits. The
  fuel is enough for every line (see below).
\<close>

definition line_fuel :: "string \<Rightarrow> nat" where
  "line_fuel b = 4 * length b + 4"

definition parsecmd :: "string \<Rightarrow> (string list + cmd \<times> string) option" where
  "parsecmd b =
     (case parseline (line_fuel b) b 0 of
        None \<Rightarrow> None
      | Some (Inl m) \<Rightarrow> Some (Inl [m])
      | Some (Inr (c, s)) \<Rightarrow> (case peek b s [] of (_, s) \<Rightarrow>
          if s \<noteq> length b then Some (Inl [''leftovers: '' @ drop s b, ''syntax''])
          else Some (Inr (c, nulterminate c (b @ [CHR 0x00])))))"

section \<open>Running commands\<close>

definition sh_panic :: "'w sys \<Rightarrow> string \<Rightarrow> 'w \<Rightarrow> (unit, 'w) uout option" where
  "sh_panic S s w = map_option (Exited 1) (fprintf S 2 ''%s\<newline>'' [VStr (Some s)] w)"

definition fork1 :: "'w sys \<Rightarrow> 'w \<Rightarrow> (int, 'w) uout option" where
  "fork1 S w = (case sys_fork S w of (pid, w) \<Rightarrow>
     if pid = - 1 then obind (sh_panic S ''fork'' w) (\<lambda>_ w. None) else Some (Done pid w))"

text \<open>\<open>runcmd\<close> does not return: it ends in \<open>exit\<close> or in a successful \<open>exec\<close>.\<close>

fun runcmd :: "'w sys \<Rightarrow> string \<Rightarrow> cmd \<Rightarrow> 'w \<Rightarrow> (unit, 'w) uout option" where
  "runcmd S b (Exec as) w =
     (case map (\<lambda>a. cstr_at b (fst a)) as of
        [] \<Rightarrow> Some (Exited 1 w)
      | prog # args \<Rightarrow> (case sys_exec S prog (prog # args) w of
            (None, w) \<Rightarrow> Some (Execd w)
          | (Some r, w) \<Rightarrow> map_option (Exited 0) (fprintf S 2 ''exec %s failed\<newline>'' [VStr (Some prog)] w)))"
| "runcmd S b (Redir c f m d) w =
     (case sys_open S (cstr_at b (fst f)) m (snd (sys_close S d w)) of (r, w) \<Rightarrow>
        if r < 0 then map_option (Exited 1) (fprintf S 2 ''open %s failed\<newline>'' [VStr (Some (cstr_at b (fst f)))] w)
        else runcmd S b c w)"
| "runcmd S b (Lst l r) w =
     obind (fork1 S w) (\<lambda>pid w.
       if pid = 0 then runcmd S b l w else runcmd S b r (snd (sys_wait S w)))"
| "runcmd S b (Pipe l r) w =
     (case sys_pipe S w of ((k, p0, p1), w) \<Rightarrow>
        if k < 0 then sh_panic S ''pipe'' w
        else obind (fork1 S w) (\<lambda>pid w.
          if pid = 0 then
            runcmd S b l (snd (sys_close S p1 (snd (sys_close S p0 (snd (sys_dup S p1 (snd (sys_close S 1 w))))))))
          else obind (fork1 S w) (\<lambda>pid w.
            if pid = 0 then
              runcmd S b r (snd (sys_close S p1 (snd (sys_close S p0 (snd (sys_dup S p0 (snd (sys_close S 0 w))))))))
            else Some (Exited 0 (snd (sys_wait S (snd (sys_wait S
                   (snd (sys_close S p1 (snd (sys_close S p0 w))))))))))))"
| "runcmd S b (Back c) w =
     obind (fork1 S w) (\<lambda>pid w. if pid = 0 then runcmd S b c w else Some (Exited 0 w))"

section \<open>The command loop\<close>

text \<open>\<open>gets\<close> into the zeroed buffer of 100 bytes: at most 99 characters, up to the end of the line.\<close>

fun sh_gets :: "'w sys \<Rightarrow> nat \<Rightarrow> 'w \<Rightarrow> string \<times> 'w" where
  "sh_gets S 0 w = ([], w)"
| "sh_gets S (Suc n) w =
     (case sys_read S 0 1 w of ((cc, s), w) \<Rightarrow>
        if cc < 1 then ([], w)
        else if hd s = CHR 0x0A \<or> hd s = CHR 0x0D then ([hd s], w)
        else case sh_gets S n w of (l, w) \<Rightarrow> (hd s # l, w))"

definition getcmd :: "'w sys \<Rightarrow> 'w \<Rightarrow> string option \<times> 'w" where
  "getcmd S w =
     (case sh_gets S 99 (snd (sys_write S 2 ''$ '' w)) of (l, w) \<Rightarrow>
        let buf = cstr_at l 0 in (if buf = [] then None else Some buf, w))"

definition run_line :: "'w sys \<Rightarrow> string \<Rightarrow> 'w \<Rightarrow> (unit, 'w) uout option" where
  "run_line S cmd w =
     (case parsecmd cmd of
        None \<Rightarrow> None
      | Some (Inl ms) \<Rightarrow> map_option (Exited 1) (foldl (\<lambda>w m. Option.bind w (fprintf S 2 ''%s\<newline>'' [VStr (Some m)])) (Some w) ms)
      | Some (Inr (c, buf)) \<Rightarrow> runcmd S buf c w)"

definition sh_command :: "'w sys \<Rightarrow> string \<Rightarrow> 'w \<Rightarrow> (unit, 'w) uout option" where
  "sh_command S buf w =
     (let cmd = dropWhile (\<lambda>c. c = CHR '' '' \<or> c = CHR 0x09) buf in
      if cmd \<noteq> [] \<and> hd cmd = CHR 0x0A then Some (Done () w)
      else if take 3 cmd = ''cd '' then
        (let dir = drop 3 (butlast cmd) in
         case sys_chdir S dir w of (r, w) \<Rightarrow>
           if r < 0 then map_option (Done ()) (fprintf S 2 ''cannot cd %s\<newline>'' [VStr (Some dir)] w) else Some (Done () w))
      else obind (fork1 S w) (\<lambda>pid w.
        if pid = 0 then run_line S cmd w else Some (Done () (snd (sys_wait S w)))))"

partial_function (option) sh_consoles :: "'w sys \<Rightarrow> 'w \<Rightarrow> 'w option" where
  "sh_consoles S w =
     (let r = sys_open S ''console'' O_RDWR w in
      if fst r < 0 then Some (snd r)
      else if fst r \<ge> 3 then Some (snd (sys_close S (fst r) (snd r)))
      else sh_consoles S (snd r))"

partial_function (option) sh_loop :: "'w sys \<Rightarrow> 'w \<Rightarrow> (unit, 'w) uout option" where
  "sh_loop S w =
     (case getcmd S w of
        (None, w) \<Rightarrow> Some (Exited 0 w)
      | (Some buf, w) \<Rightarrow> Option.bind (sh_command S buf w) (\<lambda>r.
          case r of Done x w \<Rightarrow> sh_loop S w | Exited c w \<Rightarrow> Some (Exited c w) | Execd w \<Rightarrow> Some (Execd w)))"

definition sh_main :: "'w sys \<Rightarrow> 'w \<Rightarrow> (unit, 'w) uout option" where
  "sh_main S w = Option.bind (sh_consoles S w) (sh_loop S)"


section \<open>The parser returns\<close>

lemma peek_mono: "peek b ps toks = (r, s) \<Longrightarrow> ps \<le> s"
  using skip_space_ge [of ps b] by (auto simp: peek_def Let_def)

lemma parseredirs_mono: "parseredirs c b ps = Inr (c', s) \<Longrightarrow> ps \<le> s"
proof (induction c b ps rule: parseredirs.induct)
  case (1 c b ps)
  obtain r s1 where p: "peek b ps ''<>'' = (r, s1)" by fastforce
  obtain tok tk s2 where g1: "gettoken b s1 = (tok, tk, s2)" by (metis surj_pair)
  obtain kind sp s3 where g2: "gettoken b s2 = (kind, sp, s3)" by (metis surj_pair)
  have le: "ps \<le> s1" "s1 \<le> s2" "s2 \<le> s3"
    using peek_mono [OF p] gettoken_mono g1 g2 by (metis surj_pair)+
  show ?case
  proof (cases r)
    case False
    then show ?thesis using 1(2) p le by (subst (asm) parseredirs.simps) simp
  next
    case True
    have k: "kind = CHR ''a''" using 1(2) p g1 g2 True by (subst (asm) parseredirs.simps) (auto split: if_splits)
    have "parseredirs (Redir c sp (fst (redir_mode tok)) (snd (redir_mode tok))) b s3 = Inr (c', s)"
      using 1(2) p g1 g2 True k by (subst (asm) parseredirs.simps) simp
    then have "s3 \<le> s" using 1(1) [OF p [symmetric] _ g1 [symmetric] refl g2 [symmetric] refl] True k by simp
    then show ?thesis using le by simp
  qed
qed

lemma parseargs_mono: "parseargs argc c b ps = Inr (c', s) \<Longrightarrow> ps \<le> s"
proof (induction argc c b ps rule: parseargs.induct)
  case (1 argc c b ps)
  obtain r s1 where p: "peek b ps ''|)&;'' = (r, s1)" by fastforce
  obtain tok sp s2 where g: "gettoken b s1 = (tok, sp, s2)" by (metis surj_pair)
  have le: "ps \<le> s1" "s1 \<le> s2" using peek_mono [OF p] gettoken_mono g by (metis surj_pair)+
  show ?case
  proof (cases "r \<or> tok = CHR 0x00")
    case True
    then show ?thesis using 1(2) p g le by (subst (asm) parseargs.simps) (auto split: if_splits)
  next
    case False
    have k: "tok = CHR ''a''" "\<not> Suc argc \<ge> MAXARGS"
      using 1(2) p g False by (subst (asm) parseargs.simps, auto split: if_splits)+
    obtain ret s3 where q: "parseredirs (add_arg sp c) b s2 = Inr (ret, s3)" "parseargs (Suc argc) ret b s3 = Inr (c', s)"
      using 1(2) p g False k by (subst (asm) parseargs.simps) (auto split: if_splits sum.splits)
    have "s3 \<le> s" using 1(1) [OF p [symmetric] _ g [symmetric] refl] False k q by auto
    then show ?thesis using le parseredirs_mono [OF q(1)] by simp
  qed
qed

lemma parseamps_mono: "parseamps c b ps = (c', s) \<Longrightarrow> ps \<le> s"
proof (induction c b ps rule: parseamps.induct)
  case (1 c b ps)
  obtain r s1 where p: "peek b ps ''&'' = (r, s1)" by fastforce
  obtain tok q e s2 where g: "gettoken b s1 = (tok, (q, e), s2)" by (metis surj_pair)
  show ?case
  proof (cases r)
    case True
    then have "parseamps (Back c) b s2 = (c', s)" using 1(2) p g by (subst (asm) parseamps.simps) simp
    then have "s2 \<le> s" using 1(1) [OF p [symmetric]] True g by simp
    then show ?thesis using peek_mono [OF p] gettoken_mono [OF g] by simp
  next
    case False
    then show ?thesis using 1(2) p peek_mono [OF p] by (subst (asm) parseamps.simps) simp
  qed
qed

lemma pbind_InrE:
  assumes "pbind m f = Some (Inr y)"
  obtains x s where "m = Some (Inr (x, s))" "f x s = Some (Inr y)"
  using assms by (cases "(m, f)" rule: pbind.cases) auto

lemma pbind_not_None:
  assumes "\<exists>r. m = Some r" "\<And>x s. m = Some (Inr (x, s)) \<Longrightarrow> \<exists>r. f x s = Some r"
  shows "\<exists>r. pbind m f = Some r"
  using assms by (cases "(m, f)" rule: pbind.cases) auto

lemma after_token:
  assumes "peek b ps toks = (True, s)" "set toks \<subseteq> set symbols" "ps' = snd (snd (gettoken b s))"
  shows "ps < ps'" "length b - ps' < length b - ps"
proof -
  obtain tok q e s1 where g: "gettoken b s = (tok, (q, e), s1)" by (metis surj_pair)
  show "ps < ps'" "length b - ps' < length b - ps"
    using gettoken_after_peek [OF assms(1,2) g] peek_mono [OF assms(1)] g assms(3) by auto
qed

section \<open>The words of a command\<close>

text \<open>The words of a tree: the arguments and the files of the redirections.\<close>

fun spans :: "cmd \<Rightarrow> span list" where
  "spans (Exec as) = as"
| "spans (Redir c f m d) = spans c @ [f]"
| "spans (Pipe l r) = spans l @ spans r"
| "spans (Lst l r) = spans l @ spans r"
| "spans (Back c) = spans c"

definition word_char :: "char \<Rightarrow> bool" where
  "word_char c \<longleftrightarrow> c \<notin> set whitespace \<and> c \<notin> set symbols"

text \<open>
  A word of a line: a run of word characters that cannot be made longer on either side. A position is a cut when no word goes across it; a list of words
  covers a part of the line when it has each of its words once.
\<close>

definition word_span :: "string \<Rightarrow> span \<Rightarrow> bool" where
  "word_span b a \<longleftrightarrow> fst a < snd a \<and> snd a \<le> length b \<and> (\<forall>i. fst a \<le> i \<and> i < snd a \<longrightarrow> word_char (b ! i)) \<and>
     (snd a < length b \<longrightarrow> \<not> word_char (b ! snd a)) \<and> (0 < fst a \<longrightarrow> \<not> word_char (b ! (fst a - 1)))"

definition words_in :: "string \<Rightarrow> nat \<Rightarrow> nat \<Rightarrow> span set" where
  "words_in b lo hi = {a. word_span b a \<and> lo \<le> fst a \<and> snd a \<le> hi}"

definition word_cut :: "string \<Rightarrow> nat \<Rightarrow> bool" where
  "word_cut b p \<longleftrightarrow> (0 < p \<and> p < length b \<longrightarrow> \<not> (word_char (b ! (p - 1)) \<and> word_char (b ! p)))"

definition covers :: "string \<Rightarrow> nat \<Rightarrow> span list \<Rightarrow> nat \<Rightarrow> bool" where
  "covers b lo as hi \<longleftrightarrow> lo \<le> hi \<and> word_cut b hi \<and> distinct as \<and> set as = words_in b lo hi"

text \<open>The part of the line between two positions has no character of a word.\<close>

definition gap :: "string \<Rightarrow> nat \<Rightarrow> nat \<Rightarrow> bool" where
  "gap b lo hi \<longleftrightarrow> lo \<le> hi \<and> (\<forall>i. lo \<le> i \<and> i < hi \<longrightarrow> \<not> word_char (b ! i))"

lemma gap_trans: "gap b lo mid \<Longrightarrow> gap b mid hi \<Longrightarrow> gap b lo hi"
  unfolding gap_def by (metis le_trans linorder_not_le)

lemma gap_words: "gap b lo hi \<Longrightarrow> words_in b lo hi = {}"
  by (fastforce simp: gap_def words_in_def word_span_def)

lemma gap_cut: "gap b lo hi \<Longrightarrow> word_cut b lo \<Longrightarrow> word_cut b hi"
  by (cases "lo = hi") (auto simp: gap_def word_cut_def)

lemma words_in_split:
  assumes "word_cut b mid" "lo \<le> mid" "mid \<le> hi"
  shows "words_in b lo hi = words_in b lo mid \<union> words_in b mid hi" "words_in b lo mid \<inter> words_in b mid hi = {}"
proof -
  have "snd a \<le> mid \<or> mid \<le> fst a" if "word_span b a" for a
  proof (rule ccontr)
    assume n: "\<not> (snd a \<le> mid \<or> mid \<le> fst a)"
    have w: "\<And>i. fst a \<le> i \<Longrightarrow> i < snd a \<Longrightarrow> word_char (b ! i)" "snd a \<le> length b" using that by (auto simp: word_span_def)
    have "word_char (b ! (mid - 1))" "word_char (b ! mid)" "0 < mid" "mid < length b" using n w(1) [of "mid - 1"] w(1) [of mid] w(2) by auto
    then show False using assms(1) by (simp add: word_cut_def)
  qed
  then show "words_in b lo hi = words_in b lo mid \<union> words_in b mid hi" using assms(2,3) by (auto simp: words_in_def)
  show "words_in b lo mid \<inter> words_in b mid hi = {}" by (auto simp: words_in_def word_span_def)
qed

lemma covers_append: "covers b lo as mid \<Longrightarrow> covers b mid bs hi \<Longrightarrow> covers b lo (as @ bs) hi"
  using words_in_split [of b mid lo hi] by (auto simp: covers_def)

lemma covers_gap: "covers b lo as mid \<Longrightarrow> gap b mid hi \<Longrightarrow> covers b lo as hi"
  using covers_append [of b lo as mid "[]" hi] gap_words [of b mid hi] gap_cut [of b mid hi] by (simp add: covers_def gap_def)

lemma covers_start: "word_cut b ps \<Longrightarrow> covers b ps [] ps"
  by (auto simp: covers_def words_in_def word_span_def)

lemma covers_mset: "covers b lo as hi \<Longrightarrow> mset bs = mset as \<Longrightarrow> covers b lo bs hi"
  unfolding covers_def by (metis mset_eq_imp_distinct_iff mset_eq_setD)

lemma skip_space_gap: "gap b ps (skip_space b ps)"
  using skip_while_all [of ps _ "\<lambda>c. c \<in> set whitespace" b] skip_space_ge [of ps b] by (auto simp: gap_def skip_space_def word_char_def)

lemma peek_gap: "peek b ps toks = (r, s) \<Longrightarrow> gap b ps s"
  using skip_space_gap [of b ps] by (auto simp: peek_def Let_def)

lemma gettoken_gap:
  assumes "gettoken b ps = (tok, sp, ps')" "tok \<noteq> CHR ''a''"
  shows "gap b ps ps'"
proof -
  let ?q = "skip_space b ps" let ?c = "char_at b ?q"
  obtain e where e: "ps' = skip_space b e" "e = ?q \<or> e = Suc ?q \<and> ?c \<in> set symbols \<or>
      e = Suc (Suc ?q) \<and> ?c \<in> set symbols \<and> char_at b (Suc ?q) \<in> set symbols"
    using assms by (auto simp: gettoken_def Let_def symbols_def split: if_splits)
  have n: "\<not> word_char (b ! i)" if "char_at b i \<in> set symbols" for i using that by (auto simp: char_at_def word_char_def symbols_def split: if_splits)
  have "gap b ?q e" using e(2) n [of ?q] n [of "Suc ?q"] by (auto simp: gap_def less_Suc_eq le_less_Suc_eq)
  then show ?thesis unfolding e(1) using gap_trans skip_space_gap by blast
qed

lemma gettoken_word:
  assumes "gettoken b ps = (CHR ''a'', sp, ps')" "word_cut b ps"
  shows "covers b ps [sp] ps'"
proof -
  let ?q = "skip_space b ps" and ?c = "char_at b (skip_space b ps)" let ?e = "skip_while word_char b ?q"
  have n: "?c \<noteq> CHR 0x00" "?c \<notin> set ''|();&<''" "?c \<noteq> CHR ''>''"
    using assms(1) by (auto simp: gettoken_def Let_def split: if_splits)
  then have lt: "?q < length b" by (auto simp: char_at_def split: if_splits)
  have sp: "sp = (?q, ?e)" "ps' = skip_space b ?e"
    using assms(1) n by (auto simp: gettoken_def Let_def word_char_def [abs_def])
  have "b ! ?q \<notin> set whitespace"
    using skip_while_stop [of "\<lambda>c. c \<in> set whitespace" b ps] lt by (simp add: skip_space_def)
  moreover have "b ! ?q \<notin> set symbols" using n lt by (simp add: char_at_def symbols_def)
  ultimately have wq: "word_char (b ! ?q)" by (simp add: word_char_def)
  have cq: "word_cut b ?q" using gap_cut [OF skip_space_gap assms(2)] .
  have e: "?q < ?e" "?e \<le> length b" "?e < length b \<Longrightarrow> \<not> word_char (b ! ?e)" "\<And>i. ?q \<le> i \<Longrightarrow> i < ?e \<Longrightarrow> word_char (b ! i)"
    using lt wq skip_while_once [of ?q b word_char] skip_while_all [of ?q _ word_char b] skip_while_le [of ?q b word_char] skip_while_stop [of word_char b ?q] by auto
  have "word_span b (?q, ?e)" using e cq wq lt by (auto simp: word_span_def word_cut_def)
  moreover have "a = (?q, ?e)" if a: "word_span b a" "?q \<le> fst a" "snd a \<le> ?e" for a
  proof -
    have w: "fst a < snd a" "0 < fst a \<Longrightarrow> \<not> word_char (b ! (fst a - 1))" "snd a < length b \<Longrightarrow> \<not> word_char (b ! snd a)"
      using a(1) by (auto simp: word_span_def)
    have "\<not> ?q < fst a"
    proof
      assume "?q < fst a"
      then have "?q \<le> fst a - 1" "fst a - 1 < ?e" "0 < fst a" using w(1) a(3) by auto
      then show False using w(2) e(4) by blast
    qed
    moreover have "\<not> snd a < ?e" using w(1,3) a(2) e(2) e(4) [of "snd a"] by linarith
    ultimately show ?thesis using a by (cases a) auto
  qed
  ultimately have "words_in b ?q ?e = {(?q, ?e)}" unfolding words_in_def by (intro set_eqI) (metis (mono_tags, lifting) fst_conv mem_Collect_eq order_refl singleton_iff snd_conv)
  moreover have "word_cut b ?e" using e(3) by (auto simp: word_cut_def)
  ultimately have "covers b ?q [sp] ?e" using e(1) by (simp add: covers_def sp(1))
  then have "covers b ps ([] @ [sp]) ?e" using covers_append [OF covers_gap [OF covers_start [OF assms(2)] skip_space_gap]] by blast
  then show ?thesis unfolding sp(2) using covers_gap [OF _ skip_space_gap] by simp
qed

lemma covers_word: "covers b lo as ps \<Longrightarrow> gettoken b ps = (CHR ''a'', sp, ps') \<Longrightarrow> covers b lo (as @ [sp]) ps'"
  by (rule covers_append [OF _ gettoken_word]) (auto simp: covers_def)

lemma symbol_token:
  assumes "peek b ps toks = (True, s)" "set toks \<subseteq> set symbols" "gettoken b s = (tok, sp, s')"
  shows "tok \<noteq> CHR ''a''"
proof -
  have s: "s = skip_space b ps" "char_at b s \<noteq> CHR 0x00" "char_at b s \<in> set symbols" using assms(1,2) by (auto simp: peek_def Let_def)
  have "skip_space b s = s" using skip_space_idem s(1) by simp
  then show ?thesis using s(2,3) assms(3) by (auto simp: gettoken_def Let_def symbols_def split: if_splits)
qed

lemma after_symbol:
  assumes "peek b ps toks = (True, s)" "set toks \<subseteq> set symbols"
  shows "gap b s (snd (snd (gettoken b s)))"
  using symbol_token [OF assms] gettoken_gap [of b s] by (metis prod.collapse)

text \<open>The tree of a simple command: arguments inside redirections.\<close>

fun simple :: "cmd \<Rightarrow> bool" where
  "simple (Exec as) = True"
| "simple (Redir c f m d) = simple c"
| "simple c = False"

lemma simple_add_arg: "simple c \<Longrightarrow> simple (add_arg a c) \<and> mset (spans (add_arg a c)) = mset (spans c @ [a])"
  by (induction c) auto

lemma parseredirs_words:
  "parseredirs c b ps = Inr (c', s) \<Longrightarrow> covers b lo (spans c) ps \<Longrightarrow> covers b lo (spans c') s \<and> (simple c \<longrightarrow> simple c')"
proof (induction c b ps rule: parseredirs.induct)
  case (1 c b ps)
  obtain r s1 where p: "peek b ps ''<>'' = (r, s1)" by fastforce
  obtain tok tk s2 where g1: "gettoken b s1 = (tok, tk, s2)" by (metis surj_pair)
  obtain kind sp s3 where g2: "gettoken b s2 = (kind, sp, s3)" by (metis surj_pair)
  have c1: "covers b lo (spans c) s1" using covers_gap [OF 1(3) peek_gap [OF p]] .
  show ?case
  proof (cases r)
    case False
    then show ?thesis using 1(2) p c1 by (subst (asm) parseredirs.simps) simp
  next
    case True
    have k: "kind = CHR ''a''" using 1(2) p g1 g2 True by (subst (asm) parseredirs.simps) (auto split: if_splits)
    have "tok \<noteq> CHR ''a''" using symbol_token [of b ps "''<>''" s1 tok tk s2] p g1 True by (simp add: symbols_def)
    then have "covers b lo (spans c @ [sp]) s3" using covers_word [OF covers_gap [OF c1 gettoken_gap [OF g1]]] g2 k by simp
    moreover have "parseredirs (Redir c sp (fst (redir_mode tok)) (snd (redir_mode tok))) b s3 = Inr (c', s)"
      using 1(2) p g1 g2 True k by (subst (asm) parseredirs.simps) simp
    ultimately show ?thesis
      using 1(1) [OF p [symmetric] _ g1 [symmetric] refl g2 [symmetric] refl] True k by simp
  qed
qed

lemma parseargs_words: "parseargs argc c b ps = Inr (c', s) \<Longrightarrow> covers b lo (spans c) ps \<Longrightarrow> simple c \<Longrightarrow> covers b lo (spans c') s"
proof (induction argc c b ps rule: parseargs.induct)
  case (1 argc c b ps)
  obtain r s1 where p: "peek b ps ''|)&;'' = (r, s1)" by fastforce
  obtain tok sp s2 where g: "gettoken b s1 = (tok, sp, s2)" by (metis surj_pair)
  have c1: "covers b lo (spans c) s1" using covers_gap [OF 1(3) peek_gap [OF p]] .
  show ?case
  proof (cases "r \<or> tok = CHR 0x00")
    case True
    then have "c' = c \<and> (s = s1 \<or> tok = CHR 0x00 \<and> s = s2)" using 1(2) p g by (subst (asm) parseargs.simps) (auto split: if_splits)
    then show ?thesis using c1 covers_gap [OF c1 gettoken_gap [OF g]] by auto
  next
    case False
    have k: "tok = CHR ''a''" "\<not> Suc argc \<ge> MAXARGS"
      using 1(2) p g False by (subst (asm) parseargs.simps, auto split: if_splits)+
    obtain ret s3 where q: "parseredirs (add_arg sp c) b s2 = Inr (ret, s3)" "parseargs (Suc argc) ret b s3 = Inr (c', s)"
      using 1(2) p g False k by (subst (asm) parseargs.simps) (auto split: if_splits sum.splits)
    have a: "simple (add_arg sp c)" "mset (spans (add_arg sp c)) = mset (spans c @ [sp])" using simple_add_arg [OF 1(4)] by auto
    have "covers b lo (spans (add_arg sp c)) s2" using covers_mset [OF covers_word [OF c1] a(2)] g k by simp
    then have "covers b lo (spans ret) s3" "simple ret" using parseredirs_words [OF q(1)] a(1) by auto
    then show ?thesis using 1(1) [OF p [symmetric] _ g [symmetric] refl] False k q by auto
  qed
qed

lemma parseamps_words: "parseamps c b ps = (c', s) \<Longrightarrow> covers b lo (spans c) ps \<Longrightarrow> covers b lo (spans c') s"
proof (induction c b ps rule: parseamps.induct)
  case (1 c b ps)
  obtain r s1 where p: "peek b ps ''&'' = (r, s1)" by fastforce
  have c1: "covers b lo (spans c) s1" using covers_gap [OF 1(3) peek_gap [OF p]] .
  show ?case
  proof (cases r)
    case True
    then have "parseamps (Back c) b (snd (snd (gettoken b s1))) = (c', s)" using 1(2) p by (subst (asm) parseamps.simps) simp
    moreover have "gap b s1 (snd (snd (gettoken b s1)))" using after_symbol [of b ps "''&''" s1] p True by (simp add: symbols_def)
    ultimately show ?thesis using 1(1) [OF p [symmetric]] True covers_gap [OF c1] by simp
  next
    case False
    then show ?thesis using 1(2) c1 p by (subst (asm) parseamps.simps) simp
  qed
qed

text \<open>A successful parse moves forward, and its tree has the words of the part of the line that it takes.\<close>

definition good_parse :: "string \<Rightarrow> nat \<Rightarrow> cmd parse option \<Rightarrow> bool" where
  "good_parse b ps m \<longleftrightarrow> (\<forall>c s. m = Some (Inr (c, s)) \<longrightarrow> ps \<le> s \<and> (word_cut b ps \<longrightarrow> covers b ps (spans c) s))"

lemma good_parseD: "good_parse b ps m \<Longrightarrow> m = Some (Inr (c, s)) \<Longrightarrow> ps \<le> s \<and> (word_cut b ps \<longrightarrow> covers b ps (spans c) s)"
  by (simp add: good_parse_def)

lemma good_parse_append:
  assumes "ps \<le> s" "gap b s t" "good_parse b t m" "m = Some (Inr (c, u))"
  shows "ps \<le> u" "covers b ps as s \<Longrightarrow> covers b ps (as @ spans c) u"
proof -
  have g: "t \<le> u" "word_cut b t \<Longrightarrow> covers b t (spans c) u" using good_parseD [OF assms(3,4)] by auto
  show "ps \<le> u" using g(1) assms(1,2) by (simp add: gap_def)
  assume "covers b ps as s"
  then have c: "covers b ps as t" by (rule covers_gap [OF _ assms(2)])
  then have "word_cut b t" by (simp add: covers_def)
  then show "covers b ps (as @ spans c) u" using covers_append [OF c g(2)] by simp
qed

lemma good_parse_at_gap:
  assumes "gap b ps t" "good_parse b t m" "m = Some (Inr (c, u))"
  shows "ps \<le> u \<and> (word_cut b ps \<longrightarrow> covers b ps (spans c) u)"
  using good_parse_append(1) [OF order_refl assms] good_parse_append(2) [OF order_refl assms covers_start] by simp

lemma token_mono: "s \<le> snd (snd (gettoken b s))"
  using gettoken_mono [of b s] by (cases "gettoken b s") auto

lemma parse_good:
  "good_parse b ps (parseline n b ps)" "good_parse b ps (parsepipe n b ps)"
  "good_parse b ps (parseblock n b ps)" "good_parse b ps (parseexec n b ps)"
proof (induction n b ps and n b ps and n b ps and n b ps rule: parseline_parsepipe_parseblock_parseexec.induct)
  case (2 n b ps)
  show ?case unfolding good_parse_def
  proof (intro allI impI)
    fix c s assume "parseline (Suc n) b ps = Some (Inr (c, s))"
    then obtain c1 s1 where p1: "parsepipe n b ps = Some (Inr (c1, s1))"
      and k: "(case parseamps c1 b s1 of (c, ps) \<Rightarrow> case peek b ps '';'' of (r, ps) \<Rightarrow>
         if r then pbind (parseline n b (snd (snd (gettoken b ps)))) (\<lambda>c2 ps. Some (Inr (Lst c c2, ps)))
         else Some (Inr (c, ps))) = Some (Inr (c, s))" by (auto elim: pbind_InrE)
    obtain c2 s2 where a: "parseamps c1 b s1 = (c2, s2)" by fastforce
    obtain r s3 where q: "peek b s2 '';'' = (r, s3)" by fastforce
    have g: "ps \<le> s3" "word_cut b ps \<Longrightarrow> covers b ps (spans c2) s3"
      using good_parseD [OF 2(1) p1] parseamps_mono [OF a] parseamps_words [OF a] peek_mono [OF q] covers_gap [OF _ peek_gap [OF q]] by auto
    show "ps \<le> s \<and> (word_cut b ps \<longrightarrow> covers b ps (spans c) s)"
    proof (cases r)
      case True
      then obtain c3 where "parseline n b (snd (snd (gettoken b s3))) = Some (Inr (c3, s))" "c = Lst c2 c3"
        using k a q by (auto elim: pbind_InrE)
      moreover have "gap b s3 (snd (snd (gettoken b s3)))" using after_symbol [of b s2 "'';''" s3] q True by (simp add: symbols_def)
      ultimately show ?thesis using good_parse_append [OF g(1) _ 2(2) [OF a [symmetric] q [symmetric] True]] g(2) by auto
    next
      case False
      then show ?thesis using k a q g by simp
    qed
  qed
next
  case (4 n b ps)
  show ?case unfolding good_parse_def
  proof (intro allI impI)
    fix c s assume "parsepipe (Suc n) b ps = Some (Inr (c, s))"
    then obtain c1 s1 where p1: "parseexec n b ps = Some (Inr (c1, s1))"
      and k: "(case peek b s1 ''|'' of (r, ps) \<Rightarrow>
         if r then pbind (parsepipe n b (snd (snd (gettoken b ps)))) (\<lambda>c2 ps. Some (Inr (Pipe c1 c2, ps)))
         else Some (Inr (c1, ps))) = Some (Inr (c, s))" by (auto elim: pbind_InrE)
    obtain r s3 where q: "peek b s1 ''|'' = (r, s3)" by fastforce
    have g: "ps \<le> s3" "word_cut b ps \<Longrightarrow> covers b ps (spans c1) s3"
      using good_parseD [OF 4(1) p1] peek_mono [OF q] covers_gap [OF _ peek_gap [OF q]] by auto
    show "ps \<le> s \<and> (word_cut b ps \<longrightarrow> covers b ps (spans c) s)"
    proof (cases r)
      case True
      then obtain c3 where "parsepipe n b (snd (snd (gettoken b s3))) = Some (Inr (c3, s))" "c = Pipe c1 c3"
        using k q by (auto elim: pbind_InrE)
      moreover have "gap b s3 (snd (snd (gettoken b s3)))" using after_symbol [of b s1 "''|''" s3] q True by (simp add: symbols_def)
      ultimately show ?thesis using good_parse_append [OF g(1) _ 4(2) [OF q [symmetric] True]] g(2) by auto
    next
      case False
      then show ?thesis using k q g by simp
    qed
  qed
next
  case (6 n b ps)
  show ?case unfolding good_parse_def
  proof (intro allI impI)
    fix c s assume p: "parseblock (Suc n) b ps = Some (Inr (c, s))"
    obtain r s1 where q: "peek b ps ''('' = (r, s1)" by fastforce
    have r: r using p q by (auto split: if_splits)
    obtain c1 s2 where p1: "parseline n b (snd (snd (gettoken b s1))) = Some (Inr (c1, s2))"
      and k: "(case peek b s2 '')'' of (r, ps) \<Rightarrow> if \<not> r then Some (Inl ''syntax - missing )'')
            else Some (parseredirs c1 b (snd (snd (gettoken b ps))))) = Some (Inr (c, s))"
      using p q r by (auto elim: pbind_InrE)
    obtain r2 s3 where q2: "peek b s2 '')'' = (r2, s3)" by fastforce
    have pr: "parseredirs c1 b (snd (snd (gettoken b s3))) = Inr (c, s)" using k q2 by (auto split: if_splits)
    have gaps: "gap b s1 (snd (snd (gettoken b s1)))" "gap b s3 (snd (snd (gettoken b s3)))"
      using after_symbol [of b ps "''(''" s1] after_symbol [of b s2 "'')''" s3] q q2 r k by (auto simp: symbols_def split: if_splits)
    have "gap b ps (snd (snd (gettoken b s1)))" using gap_trans [OF peek_gap [OF q] gaps(1)] .
    then have "ps \<le> s2 \<and> (word_cut b ps \<longrightarrow> covers b ps (spans c1) s2)"
      using good_parse_at_gap [OF _ _ p1] 6(1) [OF q [symmetric]] r by simp
    moreover have "gap b s2 (snd (snd (gettoken b s3)))" using gap_trans [OF peek_gap [OF q2] gaps(2)] .
    ultimately show "ps \<le> s \<and> (word_cut b ps \<longrightarrow> covers b ps (spans c) s)"
      using parseredirs_mono [OF pr] parseredirs_words [OF pr] covers_gap by (auto simp: gap_def)
  qed
next
  case (8 n b ps)
  show ?case unfolding good_parse_def
  proof (intro allI impI)
    fix c s assume p: "parseexec (Suc n) b ps = Some (Inr (c, s))"
    obtain r s1 where q: "peek b ps ''('' = (r, s1)" by fastforce
    note pg = peek_gap [OF q]
    show "ps \<le> s \<and> (word_cut b ps \<longrightarrow> covers b ps (spans c) s)"
    proof (cases r)
      case True
      then have "parseblock n b s1 = Some (Inr (c, s))" using p q by simp
      then show ?thesis using good_parse_at_gap [OF pg] 8 [OF q [symmetric] True] by blast
    next
      case False
      then obtain ret s2 where a: "parseredirs (Exec []) b s1 = Inr (ret, s2)" "parseargs 0 ret b s2 = Inr (c, s)"
        using p q by (auto split: sum.splits)
      have "covers b ps (spans c) s" if "word_cut b ps"
        using parseargs_words [OF a(2)] parseredirs_words [OF a(1), of ps] covers_gap [OF covers_start [OF that] pg] by simp
      then show ?thesis using peek_mono [OF q] parseredirs_mono [OF a(1)] parseargs_mono [OF a(2)] by simp
    qed
  qed
qed (simp_all add: good_parse_def)

text \<open>With four units of fuel per character left, the parser functions return.\<close>

lemma parse_returns:
  "4 * (length b - ps) + 4 \<le> n \<Longrightarrow> \<exists>r. parseline n b ps = Some r"
  "4 * (length b - ps) + 3 \<le> n \<Longrightarrow> \<exists>r. parsepipe n b ps = Some r"
  "ps < length b \<Longrightarrow> 4 * (length b - ps) + 1 \<le> n \<Longrightarrow> \<exists>r. parseblock n b ps = Some r"
  "4 * (length b - ps) + 2 \<le> n \<Longrightarrow> \<exists>r. parseexec n b ps = Some r"
proof (induction n b ps and n b ps and n b ps and n b ps rule: parseline_parsepipe_parseblock_parseexec.induct)
  case (2 n b ps)
  have "\<exists>r. parsepipe n b ps = Some r" using 2(1,3) by simp
  then show ?case unfolding parseline.simps
  proof (rule pbind_not_None)
    fix c s assume p: "parsepipe n b ps = Some (Inr (c, s))"
    obtain c2 s2 where a: "parseamps c b s = (c2, s2)" by fastforce
    obtain r s3 where q: "peek b s2 '';'' = (r, s3)" by fastforce
    let ?s = "snd (snd (gettoken b s3))"
    have le: "ps \<le> s2" using good_parseD [OF parse_good(2) p] parseamps_mono [OF a] by simp
    have "\<exists>x. parseline n b ?s = Some x" if r
      using 2(2) [OF a [symmetric] q [symmetric] that] 2(3) after_token(2) [of b s2 "'';''" s3 ?s] q that le by (auto simp: symbols_def)
    then show "\<exists>x. (case parseamps c b s of (c, ps) \<Rightarrow> case peek b ps '';'' of (r, ps) \<Rightarrow>
         if r then pbind (parseline n b (snd (snd (gettoken b ps)))) (\<lambda>c2 ps. Some (Inr (Lst c c2, ps)))
         else Some (Inr (c, ps))) = Some x"
      using a q by (auto intro!: pbind_not_None)
  qed
next
  case (4 n b ps)
  have "\<exists>r. parseexec n b ps = Some r" using 4(1,3) by simp
  then show ?case unfolding parsepipe.simps
  proof (rule pbind_not_None)
    fix c s assume p: "parseexec n b ps = Some (Inr (c, s))"
    obtain r s3 where q: "peek b s ''|'' = (r, s3)" by fastforce
    let ?s = "snd (snd (gettoken b s3))"
    have le: "ps \<le> s" using good_parseD [OF parse_good(4) p] by simp
    have "\<exists>x. parsepipe n b ?s = Some x" if r
      using 4(2) [OF q [symmetric] that] 4(3) after_token(2) [of b s "''|''" s3 ?s] q that le by (auto simp: symbols_def)
    then show "\<exists>x. (case peek b s ''|'' of (r, ps) \<Rightarrow>
         if r then pbind (parsepipe n b (snd (snd (gettoken b ps)))) (\<lambda>c2 ps. Some (Inr (Pipe c c2, ps)))
         else Some (Inr (c, ps))) = Some x"
      using q by (auto intro!: pbind_not_None)
  qed
next
  case (6 n b ps)
  obtain r s1 where q: "peek b ps ''('' = (r, s1)" by fastforce
  let ?s = "snd (snd (gettoken b s1))"
  have "\<exists>x. parseline n b ?s = Some x" if r
    using 6(1) [OF q [symmetric]] 6(3) after_token(2) [of b ps "''(''" s1 ?s] q that by (auto simp: symbols_def)
  then show ?case using q by (auto intro!: pbind_not_None split: prod.splits)
next
  case (8 n b ps)
  obtain r s1 where q: "peek b ps ''('' = (r, s1)" by fastforce
  have "\<exists>x. parseblock n b s1 = Some x" if r
    using 8(1) [OF q [symmetric] that] 8(2) q that peek_mono [OF q] by (auto simp: peek_def Let_def char_at_def split: if_splits)
  then show ?case using q by (auto split: sum.splits)
qed simp_all

text \<open>
  C26. Parsing a line ends: whatever the line is, \<open>parsecmd\<close> gives a tree or an error message. The fuel of
  the recursive functions, four units per character and four more, is never used up: every recursive
  call is preceded by a token that was consumed.
\<close>

theorem parsecmd_returns: "\<exists>r. parsecmd b = Some r"
proof -
  obtain r where r: "parseline (line_fuel b) b 0 = Some r" using parse_returns(1) [of b 0 "line_fuel b"] by (auto simp: line_fuel_def)
  show ?thesis
  proof (cases r)
    case (Inl m)
    then show ?thesis using r by (simp add: parsecmd_def)
  next
    case (Inr cs)
    then show ?thesis using r by (cases cs) (simp add: parsecmd_def split: prod.splits)
  qed
qed

section \<open>Cutting the line\<close>

lemma nulterminate_eq: "nulterminate c b = foldl (\<lambda>b a. b[snd a := CHR 0x00]) b (spans c)"
  by (induction c arbitrary: b) auto

lemma foldl_cut:
  "length (foldl (\<lambda>b a. b[snd a := CHR 0x00]) b as) = length b"
  "i < length b \<Longrightarrow> foldl (\<lambda>b a. b[snd a := CHR 0x00]) b as ! i = (if i \<in> snd ` set as then CHR 0x00 else b ! i)"
  by (induction as arbitrary: b) (auto simp: nth_list_update)

lemma cstr_at_eqI:
  assumes "q \<le> e" "e < length b" "b ! e = CHR 0x00" "\<And>i. q \<le> i \<Longrightarrow> i < e \<Longrightarrow> b ! i \<noteq> CHR 0x00"
  shows "cstr_at b q = take (e - q) (drop q b)"
proof -
  have "takeWhile (\<lambda>c. c \<noteq> CHR 0x00) (drop q b) = take (e - q) (drop q b)"
    by (rule takeWhile_eq_take_P_nth) (use assms in auto)
  then show ?thesis by (simp add: cstr_at_def)
qed

lemma terminated_word:
  assumes all: "set (spans c) = {a. word_span b a}" and nul: "CHR 0x00 \<notin> set b" and m: "(q, e) \<in> set (spans c)" and buf: "buf = nulterminate c (b @ [CHR 0x00])"
  shows "cstr_at buf q = take (e - q) (drop q b)"
proof -
  have w: "word_span b (q, e)" using all m by blast
  have nth: "buf ! i = (if i \<in> snd ` set (spans c) then CHR 0x00 else (b @ [CHR 0x00]) ! i)" if "i \<le> length b" for i
    using that by (simp add: buf nulterminate_eq foldl_cut)
  have len: "length buf = Suc (length b)" by (simp add: buf nulterminate_eq foldl_cut)
  have inner: "buf ! i = b ! i" if "q \<le> i" "i < e" for i
  proof -
    have i: "i < length b" "word_char (b ! i)" using w that by (auto simp: word_span_def)
    then have "i \<notin> snd ` set (spans c)" using all by (auto simp: word_span_def)
    then show ?thesis using nth [of i] i by (simp add: nth_append)
  qed
  have e: "q \<le> e" "e \<le> length b" using w by (auto simp: word_span_def)
  have "e \<in> snd ` set (spans c)" using m by force
  then have "buf ! e = CHR 0x00" using nth e by simp
  moreover have "buf ! i \<noteq> CHR 0x00" if "q \<le> i" "i < e" for i
    using inner [OF that] nul that e nth_mem [of i b] by (metis order_less_le_trans)
  ultimately have "cstr_at buf q = take (e - q) (drop q buf)" using cstr_at_eqI [of q e buf] e len by simp
  also have "\<dots> = take (e - q) (drop q b)" using e len by (intro nth_equalityI) (auto simp: inner)
  finally show ?thesis .
qed

text \<open>
  C25. The words of a command. For a line without NUL characters that the shell accepts, the arguments and file names of the tree
  are the words of the line, each exactly once: the runs of characters that are neither white space nor one of the symbols and that
  cannot be made longer on either side. After \<open>nulterminate\<close> the C string that starts at the position of a word is exactly that word:
  none is cut short by the terminator written for another one.
\<close>

theorem parsecmd_words:
  assumes "parsecmd b = Some (Inr (c, buf))" "CHR 0x00 \<notin> set b"
  shows "distinct (spans c) \<and> set (spans c) = {a. word_span b a} \<and> (\<forall>(q, e) \<in> set (spans c). cstr_at buf q = take (e - q) (drop q b))"
proof -
  obtain s r where p: "parseline (line_fuel b) b 0 = Some (Inr (c, s))" and pk: "peek b s [] = (r, length b)" and buf: "buf = nulterminate c (b @ [CHR 0x00])"
    using assms(1) by (auto simp: parsecmd_def split: option.splits sum.splits prod.splits if_splits)
  have "covers b 0 (spans c) s" using good_parseD [OF parse_good(1) p] by (simp add: word_cut_def)
  then have "covers b 0 (spans c) (length b)" by (rule covers_gap [OF _ peek_gap [OF pk]])
  then have ok: "distinct (spans c)" "set (spans c) = {a. word_span b a}" by (auto simp: covers_def words_in_def word_span_def)
  have "cstr_at buf q = take (e - q) (drop q b)" if m: "(q, e) \<in> set (spans c)" for q e by (rule terminated_word [OF ok(2) assms(2) m buf])
  then show ?thesis using ok by auto
qed

theorem parsecmd_words_witness:
  "\<exists>c buf. parsecmd ''ls|wc>o'' = Some (Inr (c, buf)) \<and> set (spans c) = {a. word_span ''ls|wc>o'' a} \<and> set (spans c) = {(0, 2), (3, 5), (6, 7)} \<and> cstr_at buf 6 = ''o''"
proof -
  have e: "parsecmd ''ls|wc>o'' = Some (Inr (Pipe (Exec [(0, 2)]) (Redir (Exec [(3, 5)]) (6, 7) 0x601 1),
      ''ls'' @ [CHR 0x00] @ ''wc'' @ [CHR 0x00] @ ''o'' @ [CHR 0x00]))" by code_simp
  show ?thesis using parsecmd_words [OF e] by (simp add: e)
qed

end
