(* ===== verification/File_System.thy ===== *)
theory File_System
  imports Log_Recovery Kernel_String
begin

text \<open>
  \<^verbatim>\<open>kernel/file_system.cpp\<close>, \<^verbatim>\<open>kernel/fs.h\<close> and \<^verbatim>\<open>kernel/buffer_guard.h\<close>: blocks, inodes, directories
  and path names, on top of the buffer cache and the log. A pointer to an inode is its index in the
  table, the \<^verbatim>\<open>short\<close> fields are 16-bit words, and a local structure such as a directory entry is the
  list of its bytes. The sections under the inode table's spin lock are single steps; waiting for an
  inode's sleep lock is the outcome \<open>Blocked\<close>. Log messages are left out.
\<close>

section \<open>State\<close>

abbreviation (input) ROOTINO :: u32 where "ROOTINO \<equiv> 1"
abbreviation (input) FSMAGIC :: u32 where "FSMAGIC \<equiv> 0x10203040"
abbreviation (input) NDIRECT :: nat where "NDIRECT \<equiv> 12"
abbreviation (input) NINDIRECT :: nat where "NINDIRECT \<equiv> 256"
abbreviation (input) MAXFILE :: nat where "MAXFILE \<equiv> NDIRECT + NINDIRECT"
abbreviation (input) DINODE_SIZE :: nat where "DINODE_SIZE \<equiv> 64"
abbreviation (input) IPB :: nat where "IPB \<equiv> 16"
abbreviation (input) BPB :: nat where "BPB \<equiv> 8192"
abbreviation (input) DIRSIZ :: nat where "DIRSIZ \<equiv> 14"
abbreviation (input) DIRENT_SIZE :: nat where "DIRENT_SIZE \<equiv> 16"
abbreviation (input) T_DIR :: u16 where "T_DIR \<equiv> 1"
abbreviation (input) T_FILE :: u16 where "T_FILE \<equiv> 2"
abbreviation (input) T_DEVICE :: u16 where "T_DEVICE \<equiv> 3"

record superblock =
  sb_magic :: u32
  sb_size :: u32
  sb_nblocks :: u32
  sb_ninodes :: u32
  sb_nlog :: u32
  sb_logstart :: u32
  sb_inodestart :: u32
  sb_bmapstart :: u32

record dinode =
  d_type :: u16
  d_major :: u16
  d_minor :: u16
  d_nlink :: u16
  d_size :: u32
  d_addrs :: "nat \<Rightarrow> u32"

record inode =
  i_dev :: u32
  i_inum :: u32
  i_ref :: int
  i_lock :: "u32 option"
  i_valid :: bool
  i_dinode :: dinode

record kfs = fslog +
  sb :: superblock
  inodes :: "nat \<Rightarrow> inode"

definition upd_inode :: "nat \<Rightarrow> (inode \<Rightarrow> inode) \<Rightarrow> 'a kfs_scheme \<Rightarrow> 'a kfs_scheme" where
  "upd_inode ip f s = s\<lparr>inodes := (inodes s)(ip := f (inodes s ip))\<rparr>"

text \<open>The copy of the disk inode, which the code keeps in fields of the same names.\<close>

definition upd_din :: "nat \<Rightarrow> (dinode \<Rightarrow> dinode) \<Rightarrow> 'a kfs_scheme \<Rightarrow> 'a kfs_scheme" where
  "upd_din ip f s = upd_inode ip (\<lambda>x. x\<lparr>i_dinode := f (i_dinode x)\<rparr>) s"

abbreviation (input) din :: "'a kfs_scheme \<Rightarrow> nat \<Rightarrow> dinode" where
  "din s ip \<equiv> i_dinode (inodes s ip)"

section \<open>Structures on disk\<close>

definition sb_of :: "block \<Rightarrow> superblock" where
  "sb_of d = \<lparr>sb_magic = get32 0 d, sb_size = get32 4 d, sb_nblocks = get32 8 d, sb_ninodes = get32 12 d,
     sb_nlog = get32 16 d, sb_logstart = get32 20 d, sb_inodestart = get32 24 d, sb_bmapstart = get32 28 d\<rparr>"

definition get_dinode :: "nat \<Rightarrow> block \<Rightarrow> dinode" where
  "get_dinode ofs d = \<lparr>d_type = get16 ofs d, d_major = get16 (ofs + 2) d, d_minor = get16 (ofs + 4) d,
     d_nlink = get16 (ofs + 6) d, d_size = get32 (ofs + 8) d,
     d_addrs = (\<lambda>i. if i \<le> NDIRECT then get32 (ofs + 12 + 4 * i) d else 0)\<rparr>"

fun put_addrs :: "nat \<Rightarrow> nat \<Rightarrow> (nat \<Rightarrow> u32) \<Rightarrow> block \<Rightarrow> block" where
  "put_addrs 0 ofs a d = d"
| "put_addrs (Suc n) ofs a d = put32 (ofs + 4 * n) (a n) (put_addrs n ofs a d)"

definition put_dinode :: "nat \<Rightarrow> dinode \<Rightarrow> block \<Rightarrow> block" where
  "put_dinode ofs x d = put_addrs (NDIRECT + 1) (ofs + 12) (d_addrs x) (put32 (ofs + 8) (d_size x)
     (put16 (ofs + 6) (d_nlink x) (put16 (ofs + 4) (d_minor x) (put16 (ofs + 2) (d_major x) (put16 ofs (d_type x) d)))))"

definition IBLOCK :: "u32 \<Rightarrow> superblock \<Rightarrow> u32" where
  "IBLOCK i x = i div of_nat IPB + sb_inodestart x"

definition inode_off :: "u32 \<Rightarrow> nat" where
  "inode_off i = unat i mod IPB * DINODE_SIZE"

definition BBLOCK :: "u32 \<Rightarrow> superblock \<Rightarrow> u32" where
  "BBLOCK b x = b div of_nat BPB + sb_bmapstart x"

section \<open>Blocks\<close>

text \<open>The scope of a \<open>buffer_guard\<close>: read the block, use it, release it.\<close>

definition with_buf :: "nat \<Rightarrow> u32 \<Rightarrow> u32 \<Rightarrow> (nat \<Rightarrow> 'a kfs_scheme \<Rightarrow> ('b \<times> 'a kfs_scheme) res) \<Rightarrow> 'a kfs_scheme \<Rightarrow> ('b \<times> 'a kfs_scheme) res" where
  "with_buf cur dev blk f s =
     kbind (cache_read cur dev blk s) (\<lambda>(b, s).
     kbind (f b s) (\<lambda>(x, s).
     kbind (cache_relse cur b s) (\<lambda>s. Ret (x, s))))"

definition readsb :: "nat \<Rightarrow> u32 \<Rightarrow> 'a kfs_scheme \<Rightarrow> 'a kfs_scheme res" where
  "readsb cur dev s =
     kbind (with_buf cur dev 1 (\<lambda>b s. Ret ((), s\<lparr>sb := sb_of (buf_data (bufs s b))\<rparr>)) s) (\<lambda>(_, s). Ret s)"

definition fsinit :: "nat \<Rightarrow> u32 \<Rightarrow> 'a kfs_scheme \<Rightarrow> 'a kfs_scheme res" where
  "fsinit cur dev s =
     kbind (readsb cur dev s) (\<lambda>s.
       if sb_magic (sb s) \<noteq> FSMAGIC then Panic ''invalid file system''
       else log_init cur dev (sint (sb_logstart (sb s))) (sint (sb_nlog (sb s))) s)"

definition bzero :: "nat \<Rightarrow> u32 \<Rightarrow> u32 \<Rightarrow> 'a kfs_scheme \<Rightarrow> 'a kfs_scheme res" where
  "bzero cur dev bno s =
     kbind (with_buf cur dev bno (\<lambda>b s.
       kbind (log_write b (buf_set_data b (replicate BSIZE 0) s)) (\<lambda>s. Ret ((), s))) s) (\<lambda>(_, s). Ret s)"

definition bit_mask :: "nat \<Rightarrow> u8" where
  "bit_mask bi = push_bit (bi mod 8) 1"

definition bit_free :: "block \<Rightarrow> nat \<Rightarrow> bool" where
  "bit_free d bi \<longleftrightarrow> d ! (bi div 8) AND bit_mask bi = 0"

definition bit_use :: "nat \<Rightarrow> block \<Rightarrow> block" where
  "bit_use bi d = d[bi div 8 := d ! (bi div 8) OR bit_mask bi]"

definition bit_release :: "nat \<Rightarrow> block \<Rightarrow> block" where
  "bit_release bi d = d[bi div 8 := d ! (bi div 8) AND NOT (bit_mask bi)]"

text \<open>
  One round of \<open>balloc\<close>, for the bitmap block of the disk blocks from \<open>b\<close> on, and the loop over the
  bitmap blocks. The counter does not wrap: \<open>sb.size\<close> is at most \<open>2^32 - BPB\<close>.
\<close>

definition balloc_round :: "nat \<Rightarrow> u32 \<Rightarrow> nat \<Rightarrow> 'a kfs_scheme \<Rightarrow> (u32 option \<times> 'a kfs_scheme) res" where
  "balloc_round cur dev b s =
     with_buf cur dev (BBLOCK (of_nat b) (sb s)) (\<lambda>bp s.
       case find (bit_free (buf_data (bufs s bp))) [0..<min BPB (unat (sb_size (sb s)) - b)] of
         None \<Rightarrow> Ret (None, s)
       | Some bi \<Rightarrow>
           kbind (log_write bp (buf_set_data bp (bit_use bi (buf_data (bufs s bp))) s)) (\<lambda>s.
           kbind (bzero cur dev (of_nat (b + bi)) s) (\<lambda>s. Ret (Some (of_nat (b + bi)), s)))) s"

fun balloc_loop :: "nat \<Rightarrow> u32 \<Rightarrow> nat \<Rightarrow> nat \<Rightarrow> 'a kfs_scheme \<Rightarrow> (u32 \<times> 'a kfs_scheme) res" where
  "balloc_loop cur dev 0 b s = Ret (0, s)"
| "balloc_loop cur dev (Suc k) b s =
     kbind (balloc_round cur dev b s) (\<lambda>(r, s). case r of
         Some x \<Rightarrow> Ret (x, s)
       | None \<Rightarrow> balloc_loop cur dev k (b + BPB) s)"

definition balloc :: "nat \<Rightarrow> u32 \<Rightarrow> 'a kfs_scheme \<Rightarrow> (u32 \<times> 'a kfs_scheme) res" where
  "balloc cur dev s = balloc_loop cur dev ((unat (sb_size (sb s)) + BPB - 1) div BPB) 0 s"

definition bfree :: "nat \<Rightarrow> u32 \<Rightarrow> u32 \<Rightarrow> 'a kfs_scheme \<Rightarrow> 'a kfs_scheme res" where
  "bfree cur dev b s =
     kbind (with_buf cur dev (BBLOCK b (sb s)) (\<lambda>bp s.
       let bi = unat b mod BPB; d = buf_data (bufs s bp) in
       if bit_free d bi then Panic ''freeing free block''
       else kbind (log_write bp (buf_set_data bp (bit_release bi d) s)) (\<lambda>s. Ret ((), s))) s) (\<lambda>(_, s). Ret s)"

section \<open>Inodes\<close>

definition iget :: "u32 \<Rightarrow> u32 \<Rightarrow> 'a kfs_scheme \<Rightarrow> (nat \<times> 'a kfs_scheme) res" where
  "iget dev inum s =
     (case find (\<lambda>i. i_ref (inodes s i) > 0 \<and> i_dev (inodes s i) = dev \<and> i_inum (inodes s i) = inum) [0..<NINODE] of
        Some i \<Rightarrow> Ret (i, upd_inode i (\<lambda>x. x\<lparr>i_ref := i_ref x + 1\<rparr>) s)
      | None \<Rightarrow> (case find (\<lambda>i. i_ref (inodes s i) = 0) [0..<NINODE] of
            None \<Rightarrow> Panic ''iget: no inodes''
          | Some i \<Rightarrow> Ret (i, upd_inode i (\<lambda>x. x\<lparr>i_dev := dev, i_inum := inum, i_ref := 1, i_valid := False\<rparr>) s)))"

definition idup :: "nat \<Rightarrow> 'a kfs_scheme \<Rightarrow> 'a kfs_scheme" where
  "idup ip s = upd_inode ip (\<lambda>x. x\<lparr>i_ref := i_ref x + 1\<rparr>) s"

fun ialloc_loop :: "nat \<Rightarrow> u32 \<Rightarrow> u16 \<Rightarrow> nat \<Rightarrow> nat \<Rightarrow> 'a kfs_scheme \<Rightarrow> (nat option \<times> 'a kfs_scheme) res" where
  "ialloc_loop cur dev type 0 inum s = Ret (None, s)"
| "ialloc_loop cur dev type (Suc k) inum s =
     kbind (with_buf cur dev (IBLOCK (of_nat inum) (sb s)) (\<lambda>bp s.
       let ofs = inode_off (of_nat inum); d = buf_data (bufs s bp) in
       if get16 ofs d = 0
       then kbind (log_write bp (buf_set_data bp (put16 ofs type (put_bytes ofs (replicate DINODE_SIZE 0) d)) s)) (\<lambda>s.
            kbind (iget dev (of_nat inum) s) (\<lambda>(ip, s). Ret (Some ip, s)))
       else Ret (None, s)) s) (\<lambda>(r, s). case r of
         Some ip \<Rightarrow> Ret (Some ip, s)
       | None \<Rightarrow> ialloc_loop cur dev type k (Suc inum) s)"

definition ialloc :: "nat \<Rightarrow> u32 \<Rightarrow> u16 \<Rightarrow> 'a kfs_scheme \<Rightarrow> (nat option \<times> 'a kfs_scheme) res" where
  "ialloc cur dev type s = ialloc_loop cur dev type (unat (sb_ninodes (sb s)) - 1) 1 s"

definition inode_acquire :: "nat \<Rightarrow> nat \<Rightarrow> 'a kfs_scheme \<Rightarrow> 'a kfs_scheme res" where
  "inode_acquire cur ip s =
     (if i_lock (inodes s ip) \<noteq> None then Blocked
      else Ret (upd_inode ip (\<lambda>x. x\<lparr>i_lock := Some (pid (processes s cur))\<rparr>) s))"

definition inode_release :: "nat \<Rightarrow> nat \<Rightarrow> 'a kfs_scheme \<Rightarrow> 'a kfs_scheme" where
  "inode_release cur ip s = wakeup (Some cur) (Some (OnInode ip)) (upd_inode ip (\<lambda>x. x\<lparr>i_lock := None\<rparr>) s)"

definition inode_holding :: "nat \<Rightarrow> nat \<Rightarrow> 'a kfs_scheme \<Rightarrow> bool" where
  "inode_holding cur ip s \<longleftrightarrow> i_lock (inodes s ip) = Some (pid (processes s cur))"

definition ilock :: "nat \<Rightarrow> nat \<Rightarrow> 'a kfs_scheme \<Rightarrow> 'a kfs_scheme res" where
  "ilock cur ip s =
     (if i_ref (inodes s ip) < 1 then Panic ''ilock''
      else kbind (inode_acquire cur ip s) (\<lambda>s.
        if i_valid (inodes s ip) then Ret s
        else kbind (with_buf cur (i_dev (inodes s ip)) (IBLOCK (i_inum (inodes s ip)) (sb s)) (\<lambda>bp s.
          let s = upd_inode ip (\<lambda>x. x\<lparr>i_dinode := get_dinode (inode_off (i_inum x)) (buf_data (bufs s bp)), i_valid := True\<rparr>) s in
          if d_type (din s ip) = 0 then Panic ''ilock: no type'' else Ret ((), s)) s) (\<lambda>(_, s). Ret s)))"

definition iunlock :: "nat \<Rightarrow> nat \<Rightarrow> 'a kfs_scheme \<Rightarrow> 'a kfs_scheme res" where
  "iunlock cur ip s =
     (if \<not> inode_holding cur ip s \<or> i_ref (inodes s ip) < 1 then Panic ''iunlock''
      else Ret (inode_release cur ip s))"

definition iupdate :: "nat \<Rightarrow> nat \<Rightarrow> 'a kfs_scheme \<Rightarrow> 'a kfs_scheme res" where
  "iupdate cur ip s =
     kbind (with_buf cur (i_dev (inodes s ip)) (IBLOCK (i_inum (inodes s ip)) (sb s)) (\<lambda>bp s.
       kbind (log_write bp (buf_set_data bp (put_dinode (inode_off (i_inum (inodes s ip))) (din s ip) (buf_data (bufs s bp))) s))
         (\<lambda>s. Ret ((), s))) s) (\<lambda>(_, s). Ret s)"

section \<open>Contents of files\<close>

definition bmap_direct :: "nat \<Rightarrow> nat \<Rightarrow> nat \<Rightarrow> 'a kfs_scheme \<Rightarrow> (u32 \<times> 'a kfs_scheme) res" where
  "bmap_direct cur ip bn s =
     (if d_addrs (din s ip) bn \<noteq> 0 then Ret (d_addrs (din s ip) bn, s)
      else kbind (balloc cur (i_dev (inodes s ip)) s) (\<lambda>(addr, s).
        if addr = 0 then Ret (0, s)
        else Ret (addr, upd_din ip (\<lambda>x. x\<lparr>d_addrs := (d_addrs x)(bn := addr)\<rparr>) s)))"

definition bmap :: "nat \<Rightarrow> nat \<Rightarrow> u32 \<Rightarrow> 'a kfs_scheme \<Rightarrow> (u32 \<times> 'a kfs_scheme) res" where
  "bmap cur ip bn s =
     (if unat bn < NDIRECT then bmap_direct cur ip (unat bn) s
      else let bn = unat bn - NDIRECT in
        if bn < NINDIRECT then
          kbind (bmap_direct cur ip NDIRECT s) (\<lambda>(addr, s).
            if addr = 0 then Ret (0, s)
            else with_buf cur (i_dev (inodes s ip)) addr (\<lambda>bp s.
              let a = get32 (4 * bn) (buf_data (bufs s bp)) in
              if a \<noteq> 0 then Ret (a, s)
              else kbind (balloc cur (i_dev (inodes s ip)) s) (\<lambda>(a, s).
                if a = 0 then Ret (0, s)
                else kbind (log_write bp (buf_set_data bp (put32 (4 * bn) a (buf_data (bufs s bp))) s)) (\<lambda>s. Ret (a, s)))) s)
        else Panic ''bmap: out of range'')"

text \<open>
  Where \<open>readi\<close> puts the bytes and \<open>writei\<close> takes them from: an address of the current process, an
  address of physical memory, or a local object of the calling kernel function.
\<close>

datatype buffer = User u64 | Phys u64 | Local "u8 list"

definition readi_out :: "nat \<Rightarrow> buffer \<Rightarrow> nat \<Rightarrow> u8 list \<Rightarrow> 'a kfs_scheme \<Rightarrow> (int \<times> buffer \<times> 'a kfs_scheme) res" where
  "readi_out cur dst tot bs s =
     (case dst of
        User va \<Rightarrow> kbind (copyout_bytes (pagetable (processes s cur)) (va + of_nat tot) bs s) (\<lambda>(r, s). Ret (r, dst, s))
      | Phys pa \<Rightarrow> Ret (0, dst, s\<lparr>ram := wrbytes (ram s) (pa + of_nat tot) bs\<rparr>)
      | Local l \<Rightarrow> Ret (0, Local (l @ bs), s))"

text \<open>The loop of \<open>readi\<close>: \<open>n\<close> bytes are left at offset \<open>off\<close>; \<open>tot\<close> are done. \<open>None\<close> is the failed copy.\<close>

function readi_loop :: "nat \<Rightarrow> nat \<Rightarrow> buffer \<Rightarrow> nat \<Rightarrow> nat \<Rightarrow> nat \<Rightarrow> 'a kfs_scheme \<Rightarrow> (nat option \<times> buffer \<times> 'a kfs_scheme) res" where
  "readi_loop cur ip dst off n tot s =
     (if n = 0 then Ret (Some tot, dst, s)
      else kbind (bmap cur ip (of_nat (off div BSIZE)) s) (\<lambda>(addr, s).
        if addr = 0 then Ret (Some tot, dst, s)
        else let m = min n (BSIZE - off mod BSIZE) in
          kbind (with_buf cur (i_dev (inodes s ip)) addr (\<lambda>bp s.
            kbind (readi_out cur dst tot (get_bytes (off mod BSIZE) m (buf_data (bufs s bp))) s) (\<lambda>(r, dst, s).
              Ret ((r, dst), s))) s) (\<lambda>((r, dst), s).
            if r = - 1 then Ret (None, dst, s) else readi_loop cur ip dst (off + m) (n - m) (tot + m) s)))"
  by pat_completeness auto
termination
  by (relation "measure (\<lambda>(cur, ip, dst, off, n, tot, s). n)") (auto simp: mod_less_divisor)

declare readi_loop.simps [simp del]

definition readi :: "nat \<Rightarrow> nat \<Rightarrow> buffer \<Rightarrow> u32 \<Rightarrow> u32 \<Rightarrow> 'a kfs_scheme \<Rightarrow> (int \<times> buffer \<times> 'a kfs_scheme) res" where
  "readi cur ip dst off n s =
     (let sz0 = d_size (din s ip) in
      if off > sz0 \<or> off + n < off then Ret (0, dst, s)
      else let n = (if off + n > sz0 then sz0 - off else n) in
        kbind (readi_loop cur ip dst (unat off) (unat n) 0 s) (\<lambda>(r, dst, s).
          Ret (case r of None \<Rightarrow> - 1 | Some tot \<Rightarrow> sint (of_nat tot :: u32), dst, s)))"

text \<open>
  \<open>copyin\<close> into the data of a buffer: whether it succeeded, and the bytes it stored, which after a
  failure are those of the pages before the bad one.
\<close>

function copyin_part :: "u64 \<Rightarrow> u64 \<Rightarrow> nat \<Rightarrow> 'a kmem_scheme \<Rightarrow> (bool \<times> u8 list) res" where
  "copyin_part pt srcva len s =
     (if len = 0 then Ret (True, [])
      else let va0 = PGROUNDDOWN srcva; n = min (4096 - unat (srcva - va0)) len in
        kbind (walkaddr pt va0 s) (\<lambda>pa0.
          if pa0 = 0 then Ret (False, [])
          else kbind (copyin_part pt (va0 + PGSIZE) (len - n) s) (\<lambda>(ok, bs).
            Ret (ok, rdbytes (ram s) (pa0 + (srcva - va0)) n @ bs))))"
  by pat_completeness auto
termination
  by (relation "measure (\<lambda>(pt, srcva, len, s). len)") (auto simp: unat_page_offset)

declare copyin_part.simps [simp del]

definition writei_in :: "nat \<Rightarrow> buffer \<Rightarrow> nat \<Rightarrow> nat \<Rightarrow> 'a kfs_scheme \<Rightarrow> (bool \<times> u8 list) res" where
  "writei_in cur src tot m s =
     (case src of
        User va \<Rightarrow> copyin_part (pagetable (processes s cur)) (va + of_nat tot) m s
      | Phys pa \<Rightarrow> Ret (True, rdbytes (ram s) (pa + of_nat tot) m)
      | Local l \<Rightarrow> Ret (True, take m (drop tot l)))"

text \<open>The loop of \<open>writei\<close>: the offset reached and the number of bytes written.\<close>

function writei_loop :: "nat \<Rightarrow> nat \<Rightarrow> buffer \<Rightarrow> nat \<Rightarrow> nat \<Rightarrow> nat \<Rightarrow> 'a kfs_scheme \<Rightarrow> (nat \<times> nat \<times> 'a kfs_scheme) res" where
  "writei_loop cur ip src off n tot s =
     (if n = 0 then Ret (off, tot, s)
      else kbind (bmap cur ip (of_nat (off div BSIZE)) s) (\<lambda>(addr, s).
        if addr = 0 then Ret (off, tot, s)
        else let m = min n (BSIZE - off mod BSIZE) in
          kbind (with_buf cur (i_dev (inodes s ip)) addr (\<lambda>bp s.
            kbind (writei_in cur src tot m s) (\<lambda>(ok, bs).
              let s = buf_set_data bp (put_bytes (off mod BSIZE) bs (buf_data (bufs s bp))) s in
              if \<not> ok then Ret (False, s)
              else kbind (log_write bp s) (\<lambda>s. Ret (True, s)))) s) (\<lambda>(ok, s).
            if ok then writei_loop cur ip src (off + m) (n - m) (tot + m) s else Ret (off, tot, s))))"
  by pat_completeness auto
termination
  by (relation "measure (\<lambda>(cur, ip, src, off, n, tot, s). n)") (auto simp: mod_less_divisor)

declare writei_loop.simps [simp del]

definition writei :: "nat \<Rightarrow> nat \<Rightarrow> buffer \<Rightarrow> u32 \<Rightarrow> u32 \<Rightarrow> 'a kfs_scheme \<Rightarrow> (int \<times> 'a kfs_scheme) res" where
  "writei cur ip src off n s =
     (if off > d_size (din s ip) \<or> off + n < off then Ret (- 1, s)
      else if unat (off + n) > MAXFILE * BSIZE then Ret (- 1, s)
      else kbind (writei_loop cur ip src (unat off) (unat n) 0 s) (\<lambda>(off, tot, s).
        let s = (if off > unat (d_size (din s ip)) then upd_din ip (\<lambda>x. x\<lparr>d_size := of_nat off\<rparr>) s else s) in
        kbind (iupdate cur ip s) (\<lambda>s. Ret (sint (of_nat tot :: u32), s))))"

fun itrunc_direct :: "nat \<Rightarrow> nat \<Rightarrow> nat \<Rightarrow> nat \<Rightarrow> 'a kfs_scheme \<Rightarrow> 'a kfs_scheme res" where
  "itrunc_direct cur ip 0 i s = Ret s"
| "itrunc_direct cur ip (Suc k) i s =
     kbind (if d_addrs (din s ip) i \<noteq> 0
            then kbind (bfree cur (i_dev (inodes s ip)) (d_addrs (din s ip) i) s) (\<lambda>s.
                   Ret (upd_din ip (\<lambda>x. x\<lparr>d_addrs := (d_addrs x)(i := 0)\<rparr>) s))
            else Ret s) (\<lambda>s. itrunc_direct cur ip k (Suc i) s)"

fun itrunc_indirect :: "nat \<Rightarrow> u32 \<Rightarrow> block \<Rightarrow> nat \<Rightarrow> nat \<Rightarrow> 'a kfs_scheme \<Rightarrow> 'a kfs_scheme res" where
  "itrunc_indirect cur dev d 0 j s = Ret s"
| "itrunc_indirect cur dev d (Suc k) j s =
     kbind (if get32 (4 * j) d \<noteq> 0 then bfree cur dev (get32 (4 * j) d) s else Ret s) (\<lambda>s.
       itrunc_indirect cur dev d k (Suc j) s)"

definition itrunc :: "nat \<Rightarrow> nat \<Rightarrow> 'a kfs_scheme \<Rightarrow> 'a kfs_scheme res" where
  "itrunc cur ip s =
     kbind (itrunc_direct cur ip NDIRECT 0 s) (\<lambda>s.
     kbind (if d_addrs (din s ip) NDIRECT \<noteq> 0
            then kbind (with_buf cur (i_dev (inodes s ip)) (d_addrs (din s ip) NDIRECT) (\<lambda>bp s.
                   kbind (itrunc_indirect cur (i_dev (inodes s ip)) (buf_data (bufs s bp)) NINDIRECT 0 s) (\<lambda>s. Ret ((), s))) s) (\<lambda>(_, s).
                 kbind (bfree cur (i_dev (inodes s ip)) (d_addrs (din s ip) NDIRECT) s) (\<lambda>s.
                   Ret (upd_din ip (\<lambda>x. x\<lparr>d_addrs := (d_addrs x)(NDIRECT := 0)\<rparr>) s)))
            else Ret s) (\<lambda>s.
       iupdate cur ip (upd_din ip (\<lambda>x. x\<lparr>d_size := 0\<rparr>) s)))"

definition iput :: "nat \<Rightarrow> nat \<Rightarrow> 'a kfs_scheme \<Rightarrow> 'a kfs_scheme res" where
  "iput cur ip s =
     kbind (if i_ref (inodes s ip) = 1 \<and> i_valid (inodes s ip) \<and> d_nlink (din s ip) = 0
            then kbind (inode_acquire cur ip s) (\<lambda>s.
                 kbind (itrunc cur ip s) (\<lambda>s.
                 kbind (iupdate cur ip (upd_din ip (\<lambda>x. x\<lparr>d_type := 0\<rparr>) s)) (\<lambda>s.
                   Ret (inode_release cur ip (upd_inode ip (\<lambda>x. x\<lparr>i_valid := False\<rparr>) s)))))
            else Ret s) (\<lambda>s.
       Ret (upd_inode ip (\<lambda>x. x\<lparr>i_ref := i_ref x - 1\<rparr>) s))"

definition iunlockput :: "nat \<Rightarrow> nat \<Rightarrow> 'a kfs_scheme \<Rightarrow> 'a kfs_scheme res" where
  "iunlockput cur ip s = kbind (iunlock cur ip s) (iput cur ip)"

text \<open>The structure \<open>stat\<close> as the bytes that are copied to user space, its padding zero.\<close>

definition stati :: "nat \<Rightarrow> 'a kfs_scheme \<Rightarrow> u8 list" where
  "stati ip s = le_bytes 4 (i_dev (inodes s ip)) @ le_bytes 4 (i_inum (inodes s ip)) @
     le_bytes 2 (d_type (din s ip)) @ le_bytes 2 (d_nlink (din s ip)) @ replicate 4 0 @
     le_bytes 8 (ucast (d_size (din s ip)) :: u64)"

section \<open>Directories\<close>

text \<open>The two strings of \<open>namecmp\<close>, and those of \<open>strncpy\<close>, are placed in a memory of their own.\<close>

definition namecmp :: "u8 list \<Rightarrow> u8 list \<Rightarrow> int" where
  "namecmp a b = strncmp (wrbytes (wrbytes (\<lambda>_. 0) 0 a) 4096 b) 0 4096 (of_nat DIRSIZ)"

definition name_field :: "u8 list \<Rightarrow> u8 list" where
  "name_field a = rdbytes (strncpy (wrbytes (\<lambda>_. 0) 0 a) 4096 0 (int DIRSIZ)) 4096 DIRSIZ"

definition dirent_inum :: "u8 list \<Rightarrow> u16" where
  "dirent_inum de = get16 0 de"

definition dirent_name :: "u8 list \<Rightarrow> u8 list" where
  "dirent_name de = get_bytes 2 DIRSIZ de"

text \<open>A read of one directory entry into a local variable.\<close>

definition read_dirent :: "nat \<Rightarrow> nat \<Rightarrow> nat \<Rightarrow> string \<Rightarrow> 'a kfs_scheme \<Rightarrow> (u8 list \<times> 'a kfs_scheme) res" where
  "read_dirent cur dp off msg s =
     kbind (readi cur dp (Local []) (of_nat off) (of_nat DIRENT_SIZE) s) (\<lambda>(r, de, s).
       if r \<noteq> int DIRENT_SIZE then Panic msg
       else Ret (case de of Local bs \<Rightarrow> bs | _ \<Rightarrow> [], s))"

text \<open>
  The loop of \<open>dirlookup\<close>, \<open>sz0\<close> being the directory's size, which its reads do not change. The result
  is the inode and the offset for \<^verbatim>\<open>*poff\<close>.
\<close>

function dirlookup_loop :: "nat \<Rightarrow> nat \<Rightarrow> u8 list \<Rightarrow> nat \<Rightarrow> nat \<Rightarrow> 'a kfs_scheme \<Rightarrow> ((nat \<times> nat) option \<times> 'a kfs_scheme) res" where
  "dirlookup_loop cur dp name sz0 off s =
     (if off < sz0
      then kbind (read_dirent cur dp off ''dirlookup read'' s) (\<lambda>(de, s).
        if dirent_inum de \<noteq> 0 \<and> namecmp name (dirent_name de) = 0
        then kbind (iget (i_dev (inodes s dp)) (ucast (dirent_inum de)) s) (\<lambda>(ip, s). Ret (Some (ip, off), s))
        else dirlookup_loop cur dp name sz0 (off + DIRENT_SIZE) s)
      else Ret (None, s))"
  by pat_completeness auto
termination
  by (relation "measure (\<lambda>(cur, dp, name, sz0, off, s). sz0 - off)") auto

declare dirlookup_loop.simps [simp del]

definition dirlookup :: "nat \<Rightarrow> nat \<Rightarrow> u8 list \<Rightarrow> 'a kfs_scheme \<Rightarrow> ((nat \<times> nat) option \<times> 'a kfs_scheme) res" where
  "dirlookup cur dp name s =
     (if d_type (din s dp) \<noteq> T_DIR then Panic ''dirlookup not DIR''
      else dirlookup_loop cur dp name (unat (d_size (din s dp))) 0 s)"

function dirlink_slot :: "nat \<Rightarrow> nat \<Rightarrow> nat \<Rightarrow> nat \<Rightarrow> 'a kfs_scheme \<Rightarrow> (nat \<times> 'a kfs_scheme) res" where
  "dirlink_slot cur dp sz0 off s =
     (if off < sz0
      then kbind (read_dirent cur dp off ''dirlink read'' s) (\<lambda>(de, s).
        if dirent_inum de = 0 then Ret (off, s) else dirlink_slot cur dp sz0 (off + DIRENT_SIZE) s)
      else Ret (off, s))"
  by pat_completeness auto
termination
  by (relation "measure (\<lambda>(cur, dp, sz0, off, s). sz0 - off)") auto

declare dirlink_slot.simps [simp del]

definition dirlink :: "nat \<Rightarrow> nat \<Rightarrow> u8 list \<Rightarrow> u32 \<Rightarrow> 'a kfs_scheme \<Rightarrow> (int \<times> 'a kfs_scheme) res" where
  "dirlink cur dp name inum s =
     kbind (dirlookup cur dp name s) (\<lambda>(r, s). case r of
       Some (ip, _) \<Rightarrow> kbind (iput cur ip s) (\<lambda>s. Ret (- 1, s))
     | None \<Rightarrow>
         kbind (dirlink_slot cur dp (unat (d_size (din s dp))) 0 s) (\<lambda>(off, s).
         kbind (writei cur dp (Local (le_bytes 2 (ucast inum :: u16) @ name_field name)) (of_nat off) (of_nat DIRENT_SIZE) s) (\<lambda>(r, s).
           Ret (if r \<noteq> int DIRENT_SIZE then - 1 else 0, s))))"

section \<open>Path names\<close>

abbreviation (input) SLASH :: u8 where "SLASH \<equiv> 0x2F"

text \<open>A path is the list of its bytes without the NUL; \<open>name\<close> is the caller's array of \<open>DIRSIZ\<close> bytes.\<close>

definition skipelem :: "u8 list \<Rightarrow> u8 list \<Rightarrow> (u8 list \<times> u8 list) option" where
  "skipelem pth name =
     (let pth = dropWhile (\<lambda>c. c = SLASH) pth in
      if pth = [] then None
      else let e = takeWhile (\<lambda>c. c \<noteq> SLASH) pth in
        Some (dropWhile (\<lambda>c. c = SLASH) (drop (length e) pth),
          if length e \<ge> DIRSIZ then put_bytes 0 (take DIRSIZ e) name
          else put_bytes 0 (e @ [0]) name))"

lemma skipelem_shorter: "skipelem pth name = Some (pth', name') \<Longrightarrow> length pth' < length pth"
proof -
  assume a: "skipelem pth name = Some (pth', name')"
  let ?p = "dropWhile (\<lambda>c. c = SLASH) pth" and ?d = "\<lambda>xs. dropWhile (\<lambda>c. c = SLASH) xs"
  let ?e = "takeWhile (\<lambda>c. c \<noteq> SLASH) ?p"
  have p: "?p \<noteq> []" "pth' = ?d (drop (length ?e) ?p)" using a by (auto simp: skipelem_def Let_def split: if_splits)
  then have "hd ?p \<noteq> SLASH" using hd_dropWhile by blast
  then have "?e \<noteq> []" using p(1) by (cases ?p) auto
  then have "length (drop (length ?e) ?p) < length ?p" using p(1) by auto
  then show ?thesis
    using p(2) length_dropWhile_le [of "\<lambda>c. c = SLASH" "drop (length ?e) ?p"] length_dropWhile_le [of "\<lambda>c. c = SLASH" pth] by simp
qed

function namex_loop :: "nat \<Rightarrow> bool \<Rightarrow> u8 list \<Rightarrow> u8 list \<Rightarrow> nat \<Rightarrow> 'a kfs_scheme \<Rightarrow> (nat option \<times> u8 list \<times> 'a kfs_scheme) res" where
  "namex_loop cur nameiparent pth name ip s =
     (case skipelem pth name of
        None \<Rightarrow>
          if nameiparent then kbind (iput cur ip s) (\<lambda>s. Ret (None, name, s)) else Ret (Some ip, name, s)
      | Some (pth, name) \<Rightarrow>
          kbind (ilock cur ip s) (\<lambda>s.
            if d_type (din s ip) \<noteq> T_DIR then kbind (iunlockput cur ip s) (\<lambda>s. Ret (None, name, s))
            else if nameiparent \<and> pth = [] then kbind (iunlock cur ip s) (\<lambda>s. Ret (Some ip, name, s))
            else kbind (dirlookup cur ip name s) (\<lambda>(r, s). case r of
                None \<Rightarrow> kbind (iunlockput cur ip s) (\<lambda>s. Ret (None, name, s))
              | Some (next_ip, _) \<Rightarrow> kbind (iunlockput cur ip s) (\<lambda>s.
                  namex_loop cur nameiparent pth name next_ip s))))"
  by pat_completeness auto
termination
  by (relation "measure (\<lambda>(cur, np, pth, name, ip, s). length pth)") (auto dest: skipelem_shorter)

declare namex_loop.simps [simp del]

definition namex :: "nat \<Rightarrow> u8 list \<Rightarrow> bool \<Rightarrow> u8 list \<Rightarrow> 'a kfs_scheme \<Rightarrow> (nat option \<times> u8 list \<times> 'a kfs_scheme) res" where
  "namex cur pth nameiparent name s =
     (if pth \<noteq> [] \<and> hd pth = SLASH
      then kbind (iget ROOTDEV ROOTINO s) (\<lambda>(ip, s). namex_loop cur nameiparent pth name ip s)
      else case cwd (processes s cur) of
          Some ip \<Rightarrow> namex_loop cur nameiparent pth name ip (idup ip s)
        | None \<Rightarrow> Panic ''null current directory'')"

text \<open>The name arrays of the callers start out with unspecified bytes; the model takes zeros.\<close>

definition namei :: "nat \<Rightarrow> u8 list \<Rightarrow> 'a kfs_scheme \<Rightarrow> (nat option \<times> 'a kfs_scheme) res" where
  "namei cur pth s = kbind (namex cur pth False (replicate DIRSIZ 0) s) (\<lambda>(r, _, s). Ret (r, s))"

definition nameiparent :: "nat \<Rightarrow> u8 list \<Rightarrow> 'a kfs_scheme \<Rightarrow> (nat option \<times> u8 list \<times> 'a kfs_scheme) res" where
  "nameiparent cur pth s = namex cur pth True (replicate DIRSIZ 0) s"

end
