(* ===== verification/Fs_Transactions.thy ===== *)
theory Fs_Transactions
  imports File_System
begin

text \<open>
  What the file system relies on inside a transaction: a state in which \<open>k\<close> more blocks may be logged
  and the buffers of the blocks \<open>H\<close> are held. Reading, logging and releasing a buffer keep such a
  state, and change the contents of the blocks only by what was logged.
\<close>

section \<open>Transaction states\<close>

definition fview :: "'a kfs_scheme \<Rightarrow> u32 \<Rightarrow> block" where
  "fview s = bview (log_dev s) (bufs s) (disk s)"

definition logged :: "'a kfs_scheme \<Rightarrow> u32 set" where
  "logged s = log_block s ` {..<nat (log_n s)}"

definition fs_rest :: "'a kfs_scheme \<Rightarrow> 'a kfs_scheme" where
  "fs_rest s = cache_rest (s\<lparr>log_n := 0, log_block := (\<lambda>_. 0)\<rparr>)"

definition fhandle :: "u32 \<Rightarrow> 'a kfs_scheme \<Rightarrow> nat \<Rightarrow> u32 option" where
  "fhandle me s b = bhandle (log_dev s) me (bufs s) b"

definition fs_txn :: "nat \<Rightarrow> u32 \<Rightarrow> u32 set \<Rightarrow> nat \<Rightarrow> 'a kfs_scheme \<Rightarrow> bool" where
  "fs_txn cur me H k s \<longleftrightarrow>
     cache_inv cur me (log_dev s) s \<and> bheld (log_dev s) (bufs s) = H \<and> finite H \<and>
     0 \<le> log_n s \<and> inj_on (log_block s) {..<nat (log_n s)} \<and> 1 \<le> log_outstanding s \<and>
     nat (log_n s) + k + 3 \<le> NBUF \<and> log_n s + int k < log_size s \<and>
     (\<forall>blk. brefs (log_dev s) (bufs s) blk = (if blk \<in> logged s then 1 else 0) + (if blk \<in> H then 1 else 0)) \<and>
     (\<forall>blk. blk \<notin> logged s \<longrightarrow> fview s blk = disk s blk) \<and>
     nfree (bufs s) + card (logged s \<union> H) = NBUF"

lemma finite_logged [simp]: "finite (logged s)"
  by (simp add: logged_def)

lemma card_logged: "card (logged s) \<le> nat (log_n s)"
  unfolding logged_def using card_image_le [of "{..<nat (log_n s)}" "log_block s"] by simp

lemma fs_txn_mono: "fs_txn cur me H k s \<Longrightarrow> k' \<le> k \<Longrightarrow> fs_txn cur me H k' s"
  by (auto simp: fs_txn_def)

text \<open>Everything but the contents of the cache and the log is a frame.\<close>

lemma fs_restD:
  assumes "fs_rest s' = fs_rest s"
  shows "sb s' = sb s" "inodes s' = inodes s" "log_dev s' = log_dev s" "ram s' = ram s"
    "pagetable (processes s' i) = pagetable (processes s i)" "pid (processes s' i) = pid (processes s i)"
    "cwd (processes s' i) = cwd (processes s i)" "ofile (processes s' i) = ofile (processes s i)"
    "log_start s' = log_start s" "log_size s' = log_size s"
  using arg_cong [OF assms, of sb] arg_cong [OF assms, of inodes] arg_cong [OF assms, of log_dev] arg_cong [OF assms, of ram]
    arg_cong [OF assms, of "\<lambda>s. pagetable (processes s i)"] arg_cong [OF assms, of "\<lambda>s. pid (processes s i)"]
    arg_cong [OF assms, of "\<lambda>s. cwd (processes s i)"] arg_cong [OF assms, of "\<lambda>s. ofile (processes s i)"]
    arg_cong [OF assms, of log_start] arg_cong [OF assms, of log_size]
  by (simp_all add: fs_rest_def cache_rest_def)

lemma fs_rest_cache: "cache_rest s' = cache_rest (s :: 'a kfs_scheme) \<Longrightarrow> fs_rest s' = fs_rest s"
proof -
  assume a: "cache_rest s' = cache_rest s"
  have "fs_rest s = (cache_rest s)\<lparr>log_n := 0, log_block := (\<lambda>_. 0)\<rparr>" for s :: "'a kfs_scheme"
    by (simp add: fs_rest_def cache_rest_def)
  then show ?thesis using a by metis
qed

lemma fs_rest_log_upd [simp]: "fs_rest (s\<lparr>log_n := n\<rparr>) = fs_rest s" "fs_rest (s\<lparr>log_block := l\<rparr>) = fs_rest s"
  by (simp_all add: fs_rest_def)

lemma fs_txn_upd_inode [simp]:
  "fs_txn cur me H k (upd_inode ip f s) = fs_txn cur me H k s" "fview (upd_inode ip f s) = fview s"
  "fhandle me (upd_inode ip f s) b = fhandle me s b"
  "fs_txn cur me H k (upd_din ip g s) = fs_txn cur me H k s" "fview (upd_din ip g s) = fview s"
  by (simp_all add: fs_txn_def fview_def logged_def cache_inv_def cache_ok_def upd_inode_def upd_din_def fhandle_def)

lemma fs_txn_upd_sb [simp]: "fs_txn cur me H k (s\<lparr>sb := x\<rparr>) = fs_txn cur me H k s" "fview (s\<lparr>sb := x\<rparr>) = fview s"
  by (simp_all add: fs_txn_def fview_def logged_def cache_inv_def cache_ok_def)

section \<open>The steps of a transaction\<close>

lemma txn_read:
  assumes t: "fs_txn cur me H k s" and dev: "dev = log_dev s" and h: "blk \<notin> H" "card H < 3"
  obtains b s' where "cache_read cur dev blk s = Ret (b, s')" "fs_txn cur me (insert blk H) k s'"
    "fview s' = fview s" "fs_rest s' = fs_rest s" "fhandle me s' b = Some blk"
    "\<forall>c x. fhandle me s c = Some x \<longrightarrow> x \<noteq> blk \<longrightarrow> fhandle me s' c = Some x"
proof -
  note t' = t [unfolded fs_txn_def]
  let ?r = "brefs dev (bufs s) blk"
  have inv: "cache_inv cur me dev s" "blk \<notin> bheld dev (bufs s)" using t' h dev by auto
  have r: "?r = (if blk \<in> logged s then 1 else 0)" using t' h dev by simp
  have r1: "?r + 1 < 2 ^ 32" unfolding r by simp
  have "card (logged s \<union> H) \<le> nat (log_n s) + card H" using card_logged [of s] card_Un_le [of "logged s" H] by linarith
  then have "nfree (bufs s) \<noteq> 0" using t' h(2) by linarith
  then obtain b s' where c: "cache_read cur dev blk s = Ret (b, s')" "bhandle dev me (bufs s') b = Some blk"
    "cache_step dev me blk s s' (?r + 1) True (bview dev (bufs s) (disk s) blk)" "disk s' = disk s"
    using kernel_cache.bread [OF inv _ r1] by blast
  have pm: "pid (processes s cur) = me" using inv by (simp add: cache_inv_def)
  note st = kernel_cache.stp [OF conjI [OF c(3) pm]]
  have e: "cache_inv cur me dev s'" "fs_rest s' = fs_rest s" "bview dev (bufs s') (disk s') = bview dev (bufs s) (disk s)"
    "brefs dev (bufs s') = (brefs dev (bufs s))(blk := ?r + 1)" "bheld dev (bufs s') = insert blk H"
    "nfree (bufs s') + (if ?r = 0 then 1 else 0) = nfree (bufs s)"
    using st fs_rest_cache [of s' s] t' dev by auto
  note l = cache_read_same [OF c(1), unfolded log_same_def]
  have lg: "logged s' = logged s" using l by (simp add: logged_def)
  have fv: "fview s' = fview s" using e(3) l dev by (simp add: fview_def)
  have "card (logged s \<union> insert blk H) = card (logged s \<union> H) + (if ?r = 0 then 1 else 0)"
    using h(1) t' r by (auto simp: card_insert_if)
  then have "fs_txn cur me (insert blk H) k s'"
    unfolding fs_txn_def lg fv using t' l e r h(1) c(4) dev by auto
  moreover have "fhandle me s' c = Some x" if "fhandle me s c = Some x" "x \<noteq> blk" for c x
    using kernel_cache.stp_handle [OF conjI [OF c(3) pm]] that l dev by (simp add: fhandle_def)
  ultimately show ?thesis using that [OF c(1) _ fv e(2)] c(2) l dev by (simp add: fhandle_def)
qed

lemma txn_data: "fs_txn cur me H k s \<Longrightarrow> fhandle me s b = Some blk \<Longrightarrow> buf_data (bufs s b) = fview s blk"
  using kernel_cache.handle_view [of cur me "log_dev s" s b blk] by (simp add: fs_txn_def fhandle_def fview_def)

lemma txn_relse:
  assumes t: "fs_txn cur me H k s" and h: "fhandle me s b = Some blk" "blk \<in> H"
  obtains s' where "cache_relse cur b s = Ret s'" "fs_txn cur me (H - {blk}) k s'"
    "fview s' = fview s" "fs_rest s' = fs_rest s"
    "\<forall>c x. fhandle me s c = Some x \<longrightarrow> x \<noteq> blk \<longrightarrow> fhandle me s' c = Some x"
proof -
  note t' = t [unfolded fs_txn_def]
  let ?dev = "log_dev s" let ?r = "brefs ?dev (bufs s) blk"
  have r: "?r = (if blk \<in> logged s then 1 else 0) + 1" using t' h by simp
  have inv: "cache_inv cur me ?dev s" using t' by simp
  have "?r = 1 \<Longrightarrow> bview ?dev (bufs s) (disk s) blk = disk s blk" using t' r by (auto simp: fview_def split: if_splits)
  then obtain s' where c: "cache_relse cur b s = Ret s'" 
    "cache_step ?dev me blk s s' (?r - 1) False (bview ?dev (bufs s) (disk s) blk)" "disk s' = disk s"
    using kernel_cache.brelse [OF inv, of b blk] h(1) by (auto simp: fhandle_def)
  have pm: "pid (processes s cur) = me" using inv by (simp add: cache_inv_def)
  note st = kernel_cache.stp [OF conjI [OF c(2) pm]]
  have e: "cache_inv cur me ?dev s'" "fs_rest s' = fs_rest s" "bview ?dev (bufs s') (disk s') = bview ?dev (bufs s) (disk s)"
    "brefs ?dev (bufs s') = (brefs ?dev (bufs s))(blk := ?r - 1)" "bheld ?dev (bufs s') = H - {blk}"
    "nfree (bufs s') = nfree (bufs s) + (if ?r = 1 then 1 else 0)"
    using st fs_rest_cache [of s' s] t' r by auto
  note l = cache_relse_same [OF c(1), unfolded log_same_def]
  have lg: "logged s' = logged s" using l by (simp add: logged_def)
  have fv: "fview s' = fview s" using e(3) l by (simp add: fview_def)
  have "card (logged s \<union> (H - {blk})) + (if ?r = 1 then 1 else 0) = card (logged s \<union> H)"
  proof (cases "blk \<in> logged s")
    case True
    then have "logged s \<union> (H - {blk}) = logged s \<union> H" by auto
    then show ?thesis using True r by simp
  next
    case False
    then have "logged s \<union> (H - {blk}) = (logged s \<union> H) - {blk}" by auto
    moreover have "Suc (card (logged s \<union> H - {blk})) = card (logged s \<union> H)"
      by (rule card_Suc_Diff1) (use t' h(2) in auto)
    ultimately show ?thesis using False r by simp
  qed
  then have "fs_txn cur me (H - {blk}) k s'"
    unfolding fs_txn_def lg fv using t' l e r h(2) c(3) by auto
  moreover have "fhandle me s' c = Some x" if "fhandle me s c = Some x" "x \<noteq> blk" for c x
    using kernel_cache.stp_handle [OF conjI [OF c(2) pm]] that l by (simp add: fhandle_def)
  ultimately show ?thesis using that [OF c(1) _ fv e(2)] by blast
qed

text \<open>A change of a held buffer together with the \<open>log_write\<close> that records it.\<close>

lemma txn_set:
  assumes t: "fs_txn cur me H k s" and h: "fhandle me s b = Some blk" "blk \<in> H"
  shows "cache_inv cur me (log_dev s) (buf_set_data b d s)" "fs_rest (buf_set_data b d s) = fs_rest s"
    "fview (buf_set_data b d s) = (fview s)(blk := d)" "brefs (log_dev s) (bufs (buf_set_data b d s)) = brefs (log_dev s) (bufs s)"
    "bheld (log_dev s) (bufs (buf_set_data b d s)) = H" "nfree (bufs (buf_set_data b d s)) = nfree (bufs s)"
    "disk (buf_set_data b d s) = disk s" "log_same s (buf_set_data b d s)"
    "fhandle me s c = Some x \<Longrightarrow> fhandle me (buf_set_data b d s) c = Some x"
proof -
  note t' = t [unfolded fs_txn_def]
  have inv: "cache_inv cur me (log_dev s) s" and pm: "pid (processes s cur) = me" using t' by (auto simp: cache_inv_def)
  have hh: "bhandle (log_dev s) me (bufs s) b = Some blk" using h(1) by (simp add: fhandle_def)
  note e = kernel_cache.bset [OF inv hh, of d]
  show ls: "log_same s (buf_set_data b d s)" by simp
  have st: "cache_step (log_dev s) me blk s (buf_set_data b d s) (brefs (log_dev s) (bufs s) blk) True d" using e by blast
  note st' = kernel_cache.stp [OF conjI [OF st pm]]
  show "cache_inv cur me (log_dev s) (buf_set_data b d s)" "fs_rest (buf_set_data b d s) = fs_rest s"
    "brefs (log_dev s) (bufs (buf_set_data b d s)) = brefs (log_dev s) (bufs s)"
    "bheld (log_dev s) (bufs (buf_set_data b d s)) = H" "disk (buf_set_data b d s) = disk s"
    using st' e h(2) t' fs_rest_cache [of "buf_set_data b d s" s] by (auto simp: insert_absorb)
  have ld: "log_dev (buf_set_data b d s) = log_dev s" using ls by (simp add: log_same_def)
  have "bview (log_dev s) (bufs (buf_set_data b d s)) (disk (buf_set_data b d s)) = (bview (log_dev s) (bufs s) (disk s))(blk := d)"
    using st' by blast
  then show "fview (buf_set_data b d s) = (fview s)(blk := d)" by (simp add: fview_def ld)
  show "nfree (bufs (buf_set_data b d s)) = nfree (bufs s)" using st' by simp
  assume "fhandle me s c = Some x"
  then show "fhandle me (buf_set_data b d s) c = Some x"
    using e kernel_cache.stp_handle [OF conjI [OF st pm], of x c] hh ld
    by (cases "x = blk") (auto simp: fhandle_def buf_set_data_def upd_buf_def bhandle_def split: if_splits)
qed

lemma logged_Suc: "log_n s' = log_n s + 1 \<Longrightarrow> 0 \<le> log_n s \<Longrightarrow> log_block s' = (log_block s)(nat (log_n s) := blk) \<Longrightarrow>
    logged s' = insert blk (logged s)"
  by (auto simp: logged_def lessThan_Suc nat_add_distrib image_iff)

lemma txn_log:
  assumes t: "fs_txn cur me H (Suc k) s" and h: "fhandle me s b = Some blk" "blk \<in> H"
  obtains s' where "log_write b (buf_set_data b d s) = Ret s'" "fs_txn cur me H k s'"
    "fview s' = (fview s)(blk := d)" "fs_rest s' = fs_rest s"
    "\<forall>c x. fhandle me s c = Some x \<longrightarrow> fhandle me s' c = Some x"
proof -
  note t' = t [unfolded fs_txn_def]
  let ?dev = "log_dev s" and ?n = "nat (log_n s)" and ?s1 = "buf_set_data b d s"
  note e = txn_set [where d = d, OF t h]
  have n: "log_n s = int ?n" "?n < LOGSIZE" "int ?n < log_size s - 1" "1 \<le> log_outstanding s" using t' by auto
  note l = e(8) [unfolded log_same_def]
  have bn: "blockno (bufs ?s1 b) = blk" using e(9) [OF h(1)] bhandle_blockno by (auto simp: fhandle_def)
  show ?thesis
  proof (cases "blk \<in> logged s")
    case True
    have "log_write b ?s1 = Ret ?s1"
      by (rule log_write_absorbed [of _ ?n]) (use n l bn True in \<open>auto simp: logged_def\<close>)
    moreover have "logged ?s1 = logged s" using l by (simp add: logged_def)
    then have "fs_txn cur me H k ?s1"
      unfolding fs_txn_def e(3,7) using t' l e(1,4-6) True by auto
    ultimately show ?thesis using that [OF _ _ e(3,2)] e(9) by blast
  next
    case False
    let ?s2 = "?s1\<lparr>log_block := (log_block ?s1)(?n := blk)\<rparr>"
    let ?s3 = "(cache_pin b ?s2)\<lparr>log_n := int ?n + 1\<rparr>"
    have w: "log_write b ?s1 = Ret ?s3"
      using log_write_appended [of ?s1 ?n b] n l bn False by (auto simp: logged_def)
    have r: "brefs ?dev (bufs s) blk = 1" using t' False h(2) by simp
    have hh: "bhandle ?dev me (bufs ?s2) b = Some blk" using e(9) [OF h(1)] l by (simp add: fhandle_def)
    have inv2: "cache_inv cur me ?dev ?s2" using e(1) by (simp add: cache_inv_def cache_ok_def)
    have st: "cache_step ?dev me blk ?s2 (cache_pin b ?s2) (Suc 1) True d" "bhandle ?dev me (bufs (cache_pin b ?s2)) b = Some blk"
      "disk (cache_pin b ?s2) = disk ?s2"
      using cache_pin_spec [of ?dev ?s2 me b blk] inv2 hh r e(4) fun_cong [OF e(3), of blk] l by (simp_all add: cache_inv_def fview_def)
    have pm: "pid (processes ?s2 cur) = me" using inv2 by (simp add: cache_inv_def)
    note st' = kernel_cache.stp [OF conjI [OF st(1) pm]]
    have v2: "bview ?dev (bufs ?s2) (disk ?s2) = (fview s)(blk := d)" using e(3) l by (simp add: fview_def)
    have i3: "cache_inv cur me ?dev ?s3" "brefs ?dev (bufs ?s3) = (brefs ?dev (bufs s))(blk := Suc 1)" "bheld ?dev (bufs ?s3) = H"
        "nfree (bufs ?s3) = nfree (bufs s)" "fs_rest ?s3 = fs_rest s" "bview ?dev (bufs ?s3) (disk ?s3) = (fview s)(blk := d)"
      using st' e r h(2) v2 fs_rest_cache [of "cache_pin b ?s2" ?s2] by (auto simp: insert_absorb cache_inv_def cache_ok_def)
    have l3: "log_dev ?s3 = ?dev" "log_n ?s3 = log_n s + 1" "log_block ?s3 = (log_block s)(?n := blk)"
        "log_outstanding ?s3 = log_outstanding s" "log_size ?s3 = log_size s" "disk ?s3 = disk s"
      using l n e(7) st(3) by (simp_all add: cache_pin_def upd_buf_def)
    have lg: "logged ?s3 = insert blk (logged s)" using logged_Suc [OF l3(2) _ l3(3)] t' by simp
    have fv: "fview ?s3 = (fview s)(blk := d)" using i3(6) l3(1) by (simp add: fview_def)
    have inj: "inj_on (log_block ?s3) {..<nat (log_n ?s3)}"
      unfolding l3(2,3) using t' False by (auto simp: inj_on_def logged_def nat_add_distrib lessThan_Suc image_iff)
    have "insert blk (logged s) \<union> H = logged s \<union> H" using h(2) by auto
    then have "fs_txn cur me H k ?s3"
      unfolding fs_txn_def lg fv l3(1,4,5,6) using t' inj i3(1-4) h(2) False r unfolding l3(2) by auto
    moreover have "fhandle me ?s3 c = Some x" if c: "fhandle me s c = Some x" for c x
    proof (cases "x = blk")
      case False
      have "bhandle ?dev me (bufs ?s2) c = Some x" using e(9) [OF c] l by (simp add: fhandle_def)
      then show ?thesis using kernel_cache.stp_handle [OF conjI [OF st(1) pm]] False l3(1) by (simp add: fhandle_def)
    next
      case True
      have "bhandle ?dev me (bufs ?s2) c = Some x" using e(9) [OF c] l by (simp add: fhandle_def)
      then show ?thesis using l3(1) by (auto simp: fhandle_def bhandle_def cache_pin_def upd_buf_def split: if_splits)
    qed
    ultimately show ?thesis using that [OF w _ fv i3(5)] by blast
  qed
qed

section \<open>The scope of a buffer guard\<close>

text \<open>A piece of a transaction returns, in a state with \<open>H\<close> held and \<open>k\<close> log writes left, keeping the buffers of the callers.\<close>

definition txn_ok :: "nat \<Rightarrow> u32 \<Rightarrow> u32 set \<Rightarrow> nat \<Rightarrow> 'a kfs_scheme \<Rightarrow> ('b \<times> 'a kfs_scheme) res \<Rightarrow> ('b \<Rightarrow> 'a kfs_scheme \<Rightarrow> bool) \<Rightarrow> bool" where
  "txn_ok cur me H k s m Q \<longleftrightarrow> (\<exists>x s'. m = Ret (x, s') \<and> fs_txn cur me H k s' \<and>
     (\<forall>c y. fhandle me s c = Some y \<longrightarrow> fhandle me s' c = Some y) \<and> Q x s')"

lemma txn_okI:
  "m = Ret (x, s') \<Longrightarrow> fs_txn cur me H k s' \<Longrightarrow> (\<And>c y. fhandle me s c = Some y \<Longrightarrow> fhandle me s' c = Some y) \<Longrightarrow> Q x s' \<Longrightarrow>
    txn_ok cur me H k s m Q"
  by (auto simp: txn_ok_def)

lemma txn_okE:
  assumes "txn_ok cur me H k s m Q"
  obtains x s' where "m = Ret (x, s')" "fs_txn cur me H k s'" "Q x s'"
    "\<And>c y. fhandle me s c = Some y \<Longrightarrow> fhandle me s' c = Some y"
  using assms by (auto simp: txn_ok_def)

lemma txn_ok_mono: "txn_ok cur me H k s m Q \<Longrightarrow> (\<And>x s'. Q x s' \<Longrightarrow> R x s') \<Longrightarrow> txn_ok cur me H k s m R"
  by (auto simp: txn_ok_def)

lemma txn_ok_bind:
  assumes "txn_ok cur me H k s m Q" "\<And>x s'. fs_txn cur me H k s' \<Longrightarrow> Q x s' \<Longrightarrow> txn_ok cur me H' k' s' (f (x, s')) R"
  shows "txn_ok cur me H' k' s (kbind m f) R"
proof -
  obtain x s1 where 1: "m = Ret (x, s1)" "fs_txn cur me H k s1" "Q x s1" "\<forall>c y. fhandle me s c = Some y \<longrightarrow> fhandle me s1 c = Some y"
    using assms(1) unfolding txn_ok_def by blast
  from assms(2) [OF 1(2,3)] show ?thesis using 1(1,4) by (auto simp: txn_ok_def)
qed

lemma txn_ok_Ret: "fs_txn cur me H k s \<Longrightarrow> Q x s \<Longrightarrow> txn_ok cur me H k s (Ret (x, s)) Q"
  by (auto simp: txn_ok_def)

lemma fhandle_held: "fs_txn cur me H k s \<Longrightarrow> fhandle me s c = Some y \<Longrightarrow> y \<in> H"
  by (auto simp: fs_txn_def fhandle_def bhandle_def bheld_def cached_def split: if_splits)

lemma with_buf_ok:
  assumes t: "fs_txn cur me H k s" "dev = log_dev s" "blk \<notin> H" "card H < 3"
    and f: "\<And>b s1. fs_txn cur me (insert blk H) k s1 \<Longrightarrow> fhandle me s1 b = Some blk \<Longrightarrow> fview s1 = fview s \<Longrightarrow>
      fs_rest s1 = fs_rest s \<Longrightarrow> txn_ok cur me (insert blk H) k' s1 (f b s1) Q"
    and Q: "\<And>x s2 s3. Q x s2 \<Longrightarrow> fview s3 = fview s2 \<Longrightarrow> fs_rest s3 = fs_rest s2 \<Longrightarrow> R x s3"
  shows "txn_ok cur me H k' s (with_buf cur dev blk f s) R"
proof -
  obtain b s1 where 1: "cache_read cur dev blk s = Ret (b, s1)" "fs_txn cur me (insert blk H) k s1"
    "fview s1 = fview s" "fs_rest s1 = fs_rest s" "fhandle me s1 b = Some blk"
    "\<forall>c x. fhandle me s c = Some x \<longrightarrow> x \<noteq> blk \<longrightarrow> fhandle me s1 c = Some x"
    using txn_read [OF t] .
  obtain x s2 where 2: "f b s1 = Ret (x, s2)" "fs_txn cur me (insert blk H) k' s2" "Q x s2"
    "\<forall>c y. fhandle me s1 c = Some y \<longrightarrow> fhandle me s2 c = Some y"
    using f [OF 1(2,5,3,4)] unfolding txn_ok_def by blast
  have hb: "fhandle me s2 b = Some blk" using 2(4) 1(5) by blast
  obtain s3 where 3: "cache_relse cur b s2 = Ret s3" "fs_txn cur me (insert blk H - {blk}) k' s3"
    "fview s3 = fview s2" "fs_rest s3 = fs_rest s2" "\<forall>c x. fhandle me s2 c = Some x \<longrightarrow> x \<noteq> blk \<longrightarrow> fhandle me s3 c = Some x"
    using txn_relse [OF 2(2) hb insertI1] .
  show ?thesis
  proof (rule txn_okI)
    show "with_buf cur dev blk f s = Ret (x, s3)" using 1(1) 2(1) 3(1) by (simp add: with_buf_def)
    show "fs_txn cur me H k' s3" using 3(2) t(3) by simp
    show "R x s3" using Q [OF 2(3) 3(3,4)] .
    fix c y assume c: "fhandle me s c = Some y"
    then have "y \<noteq> blk" using fhandle_held [OF t(1)] t(3) by metis
    then show "fhandle me s3 c = Some y" using c 1(6) 2(4) 3(5) by blast
  qed
qed

lemma log_ok:
  assumes "fs_txn cur me H (Suc k) s" "fhandle me s b = Some blk"
    and "\<And>s'. fview s' = (fview s)(blk := d) \<Longrightarrow> fs_rest s' = fs_rest s \<Longrightarrow> fs_txn cur me H k s' \<Longrightarrow>
       (\<And>c x. fhandle me s c = Some x \<Longrightarrow> fhandle me s' c = Some x) \<Longrightarrow> txn_ok cur me H' k' s' (f s') R"
  shows "txn_ok cur me H' k' s (kbind (log_write b (buf_set_data b d s)) f) R"
proof -
  have "blk \<in> H" using fhandle_held [OF assms(1,2)] .
  then obtain s' where 1: "log_write b (buf_set_data b d s) = Ret s'" "fs_txn cur me H k s'"
    "fview s' = (fview s)(blk := d)" "fs_rest s' = fs_rest s" "\<forall>c x. fhandle me s c = Some x \<longrightarrow> fhandle me s' c = Some x"
    using txn_log [OF assms(1,2)] by blast
  from assms(3) [OF 1(3,4,2)] 1(5) have "txn_ok cur me H' k' s' (f s') R" by blast
  then show ?thesis using 1(1,5) by (auto simp: txn_ok_def)
qed

section \<open>Reading and logging one block\<close>

text \<open>The frame of an operation that changes only blocks: the contents become \<open>v\<close>.\<close>

definition blocks_to :: "'a kfs_scheme \<Rightarrow> (u32 \<Rightarrow> block) \<Rightarrow> 'a kfs_scheme \<Rightarrow> bool" where
  "blocks_to s v s' \<longleftrightarrow> fview s' = v \<and> fs_rest s' = fs_rest s"

lemma blocks_to_trans: "blocks_to s v s1 \<Longrightarrow> blocks_to s1 w s2 \<Longrightarrow> blocks_to s w s2"
  by (simp add: blocks_to_def)

lemma bzero_ok:
  assumes "fs_txn cur me H (Suc k) s" "dev = log_dev s" "blk \<notin> H" "card H < 3"
  shows "\<exists>s'. bzero cur dev blk s = Ret s' \<and> fs_txn cur me H k s' \<and> blocks_to s ((fview s)(blk := replicate BSIZE 0)) s' \<and>
    (\<forall>c y. fhandle me s c = Some y \<longrightarrow> fhandle me s' c = Some y)"
proof -
  let ?f = "\<lambda>b s. kbind (log_write b (buf_set_data b (replicate BSIZE 0) s)) (\<lambda>s. Ret ((), s))"
  have "txn_ok cur me H k s (with_buf cur dev blk ?f s) (\<lambda>_. blocks_to s ((fview s)(blk := replicate BSIZE 0)))"
  proof (rule with_buf_ok [OF assms])
    fix b s1 assume 1: "fs_txn cur me (insert blk H) (Suc k) s1" "fhandle me s1 b = Some blk" "fview s1 = fview s" "fs_rest s1 = fs_rest s"
    show "txn_ok cur me (insert blk H) k s1 (?f b s1) (\<lambda>_. blocks_to s ((fview s)(blk := replicate BSIZE 0)))"
      using 1(3,4) by (intro log_ok [OF 1(1,2)] txn_ok_Ret) (auto simp: blocks_to_def)
  qed (auto simp: blocks_to_def)
  then show ?thesis unfolding bzero_def by (auto simp: txn_ok_def)
qed

end
