(* ===== verification/Fs_Blocks.thy ===== *)
theory Fs_Blocks
  imports Fs_Transactions
begin

text \<open>
  Properties of the block allocator of \<^verbatim>\<open>kernel/file_system.cpp\<close>: \<open>balloc\<close> and \<open>bfree\<close> on the bitmap.
\<close>

section \<open>The bitmap\<close>

definition used :: "superblock \<Rightarrow> (u32 \<Rightarrow> block) \<Rightarrow> nat \<Rightarrow> bool" where
  "used x v b \<longleftrightarrow> \<not> bit_free (v (BBLOCK (of_nat b) x)) (b mod BPB)"

text \<open>
  The layout \<open>balloc\<close> needs: the bitmap blocks are not in use by the caller and have the block size, the
  boot block and the bitmap blocks themselves are marked as used, and so is what the caller holds.
\<close>

definition bitmap_ok :: "superblock \<Rightarrow> u32 set \<Rightarrow> (u32 \<Rightarrow> block) \<Rightarrow> bool" where
  "bitmap_ok x H v \<longleftrightarrow> unat (sb_size x) \<le> 2 ^ 32 - BPB \<and> (0 < unat (sb_size x) \<longrightarrow> used x v 0) \<and>
     (\<forall>b < unat (sb_size x). BBLOCK (of_nat b) x \<notin> H \<and> length (v (BBLOCK (of_nat b) x)) = BSIZE \<and>
        (of_nat b \<in> H \<longrightarrow> used x v b) \<and>
        (\<forall>b' < unat (sb_size x). of_nat b = BBLOCK (of_nat b') x \<longrightarrow> used x v b))"

lemma bit_free_iff: "bit_free d bi \<longleftrightarrow> \<not> bit (d ! (bi div 8)) (bi mod 8)"
  by (simp add: bit_free_def bit_mask_def and_exp_eq_0_iff_not_bit push_bit_of_1)

lemma bit_use_iff: "bi div 8 < length d \<Longrightarrow> bit_free (bit_use bi d) j \<longleftrightarrow> bit_free d j \<and> j \<noteq> bi"
proof -
  assume l: "bi div 8 < length d"
  have "j \<noteq> bi \<longleftrightarrow> j div 8 \<noteq> bi div 8 \<or> j mod 8 \<noteq> bi mod 8" by (metis div_mult_mod_eq)
  moreover have "bit (push_bit (bi mod 8) 1 :: u8) (j mod 8) \<longleftrightarrow> j mod 8 = bi mod 8" by (auto simp: bit_simps)
  ultimately show ?thesis using l by (auto simp: bit_free_iff bit_use_def bit_mask_def nth_list_update bit_or_iff)
qed

lemma bit_release_iff: "bi div 8 < length d \<Longrightarrow> bit_free (bit_release bi d) j \<longleftrightarrow> bit_free d j \<or> j = bi"
proof -
  assume l: "bi div 8 < length d"
  have "j \<noteq> bi \<longleftrightarrow> j div 8 \<noteq> bi div 8 \<or> j mod 8 \<noteq> bi mod 8" by (metis div_mult_mod_eq)
  moreover have "bit (NOT (push_bit (bi mod 8) 1) :: u8) (j mod 8) \<longleftrightarrow> j mod 8 \<noteq> bi mod 8" by (auto simp: bit_simps)
  ultimately show ?thesis using l by (auto simp: bit_free_iff bit_release_def bit_mask_def nth_list_update bit_and_iff)
qed

lemma length_bit_use [simp]: "length (bit_use bi d) = length d" "length (bit_release bi d) = length d"
  by (simp_all add: bit_use_def bit_release_def)

lemma unat_of_nat32: "n < 2 ^ 32 \<Longrightarrow> unat (of_nat n :: u32) = n"
  by (simp add: unsigned_of_nat take_bit_nat_eq_self)

lemma BBLOCK_div: "b < 2 ^ 32 \<Longrightarrow> BBLOCK (of_nat b) x = of_nat (b div BPB) + sb_bmapstart x"
proof -
  assume b: "b < 2 ^ 32"
  have "(of_nat b :: u32) div 8192 = of_nat (b div 8192)"
    by (rule word_unatI) (use b in \<open>simp add: unat_div_distrib unsigned_of_nat take_bit_nat_eq_self\<close>)
  then show ?thesis by (simp add: BBLOCK_def)
qed

lemma BBLOCK_eq_iff:
  assumes "b < 2 ^ 32" "c < 2 ^ 32"
  shows "BBLOCK (of_nat b) x = BBLOCK (of_nat c) x \<longleftrightarrow> b div BPB = c div BPB"
proof -
  have lt: "b div 8192 < 2 ^ 32" "c div 8192 < 2 ^ 32" using assms by (auto simp: less_mult_imp_div_less)
  have "(of_nat (b div 8192) :: u32) = of_nat (c div 8192) \<longleftrightarrow> b div 8192 = c div 8192"
    using lt by (metis unat_of_nat32)
  then show ?thesis using assms by (simp add: BBLOCK_div)
qed

section \<open>Allocation\<close>

text \<open>The contents of the disk once block \<open>a\<close> has been marked and cleared.\<close>

definition alloc_view :: "superblock \<Rightarrow> (u32 \<Rightarrow> block) \<Rightarrow> u32 \<Rightarrow> u32 \<Rightarrow> block" where
  "alloc_view x v a = v(BBLOCK a x := bit_use (unat a mod BPB) (v (BBLOCK a x)), a := replicate BSIZE 0)"

lemma bitmap_okD:
  assumes "bitmap_ok x H v" "b < unat (sb_size x)"
  shows "BBLOCK (of_nat b) x \<notin> H" "length (v (BBLOCK (of_nat b) x)) = BSIZE" "b < 2 ^ 32" "unat (of_nat b :: u32) = b"
    "\<not> used x v b \<Longrightarrow> of_nat b \<notin> H" "\<not> used x v b \<Longrightarrow> c < unat (sb_size x) \<Longrightarrow> of_nat b \<noteq> BBLOCK (of_nat c) x"
  using assms unat_of_nat32 [of b] by (auto simp: bitmap_ok_def)

lemma same_bitmap_block:
  assumes "b < 2 ^ 32 - BPB" "BPB dvd b" "bi < BPB"
  shows "BBLOCK (of_nat (b + bi)) x = BBLOCK (of_nat b) x" "(b + bi) mod BPB = bi"
proof -
  obtain q where q: "b = BPB * q" using assms(2) by blast
  have "(b + bi) div BPB = b div BPB" "(b + bi) mod BPB = bi" using assms(3) by (simp_all add: q)
  then show "BBLOCK (of_nat (b + bi)) x = BBLOCK (of_nat b) x" "(b + bi) mod BPB = bi"
    using BBLOCK_eq_iff [of "b + bi" b x] assms(1,3) by (simp_all del: of_nat_add)
qed

lemma find_bit_None:
  assumes "bitmap_ok x H v" "b < unat (sb_size x)" "BPB dvd b"
  shows "find (bit_free (v (BBLOCK (of_nat b) x))) [0..<min BPB (unat (sb_size x) - b)] = None \<longleftrightarrow>
    (\<forall>c. b \<le> c \<and> c < b + BPB \<and> c < unat (sb_size x) \<longrightarrow> used x v c)"
proof -
  have lt: "b < 2 ^ 32 - BPB" using assms(1,2) by (auto simp: bitmap_ok_def)
  have u: "used x v (b + i) \<longleftrightarrow> \<not> bit_free (v (BBLOCK (of_nat b) x)) i" if "i < BPB" for i
    using same_bitmap_block [OF lt assms(3) that] by (simp add: used_def del: of_nat_add)
  have "(\<forall>c. b \<le> c \<and> c < b + BPB \<and> c < unat (sb_size x) \<longrightarrow> used x v c) \<longleftrightarrow>
      (\<forall>i < min BPB (unat (sb_size x) - b). used x v (b + i))"
    by (auto dest: le_Suc_ex)
  also have "\<dots> \<longleftrightarrow> (\<forall>i < min BPB (unat (sb_size x) - b). \<not> bit_free (v (BBLOCK (of_nat b) x)) i)" using u by simp
  finally show ?thesis by (auto simp: find_None_iff)
qed

lemma find_bit_Some:
  assumes "bitmap_ok x H v" "b < unat (sb_size x)" "BPB dvd b"
    and "find (bit_free (v (BBLOCK (of_nat b) x))) [0..<min BPB (unat (sb_size x) - b)] = Some bi"
  shows "bi < BPB" "b + bi < unat (sb_size x)" "\<not> used x v (b + bi)" "b \<le> c \<Longrightarrow> c < b + bi \<Longrightarrow> used x v c"
    "BBLOCK (of_nat (b + bi)) x = BBLOCK (of_nat b) x" "(b + bi) mod BPB = bi"
proof -
  have lt: "b < 2 ^ 32 - BPB" using assms(1,2) by (auto simp: bitmap_ok_def)
  have f: "bi < min BPB (unat (sb_size x) - b)" "bit_free (v (BBLOCK (of_nat b) x)) bi"
    "\<And>j. j < bi \<Longrightarrow> \<not> bit_free (v (BBLOCK (of_nat b) x)) j"
    using assms(4) by (auto simp: find_Some_iff)
  then show bi: "bi < BPB" "b + bi < unat (sb_size x)" by auto
  show e: "BBLOCK (of_nat (b + bi)) x = BBLOCK (of_nat b) x" "(b + bi) mod BPB = bi"
    using same_bitmap_block [OF lt assms(3) bi(1)] by auto
  show "\<not> used x v (b + bi)" unfolding used_def e using f(2) by simp
  assume c: "b \<le> c" "c < b + bi"
  then obtain j where j: "c = b + j" "j < bi" by (metis le_Suc_ex nat_add_left_cancel_less)
  have "BBLOCK (of_nat (b + j)) x = BBLOCK (of_nat b) x" "(b + j) mod BPB = j"
    using same_bitmap_block [OF lt assms(3), of j] j bi by auto
  then show "used x v c" unfolding used_def j(1) using f(3) [OF j(2)] by simp
qed

lemma balloc_round_None:
  assumes t: "fs_txn cur me H k s" "dev = log_dev s" "card H < 3" and bm: "bitmap_ok (sb s) H (fview s)"
    and b: "b < unat (sb_size (sb s))" "BPB dvd b"
    and n: "\<forall>c. b \<le> c \<and> c < b + BPB \<and> c < unat (sb_size (sb s)) \<longrightarrow> used (sb s) (fview s) c"
  shows "txn_ok cur me H k s (balloc_round cur dev b s) (\<lambda>r s'. r = None \<and> blocks_to s (fview s) s')"
  unfolding balloc_round_def
proof (rule with_buf_ok [OF t(1,2) bitmap_okD(1) [OF bm b(1)] t(3)])
  fix bp s1
  assume 1: "fs_txn cur me (insert (BBLOCK (of_nat b) (sb s)) H) k s1" "fhandle me s1 bp = Some (BBLOCK (of_nat b) (sb s))"
    "fview s1 = fview s" "fs_rest s1 = fs_rest s"
  have "find (bit_free (buf_data (bufs s1 bp))) [0..<min BPB (unat (sb_size (sb s1)) - b)] = None"
    using find_bit_None [OF bm b] n txn_data [OF 1(1,2)] fs_restD(1) [OF 1(4)] 1(3) by simp
  then show "txn_ok cur me (insert (BBLOCK (of_nat b) (sb s)) H) k s1
      (case find (bit_free (buf_data (bufs s1 bp))) [0..<min BPB (unat (sb_size (sb s1)) - b)] of None \<Rightarrow> Ret (None, s1)
       | Some bi \<Rightarrow>
           kbind (log_write bp (buf_set_data bp (bit_use bi (buf_data (bufs s1 bp))) s1)) (\<lambda>s.
           kbind (bzero cur dev (of_nat (b + bi)) s) (\<lambda>s. Ret (Some (of_nat (b + bi)), s))))
      (\<lambda>r s'. r = None \<and> blocks_to s (fview s) s')"
    using 1 by (auto intro!: txn_ok_Ret simp: blocks_to_def)
qed (auto simp: blocks_to_def)

lemma balloc_round_Some:
  assumes t: "fs_txn cur me H (Suc (Suc k)) s" "dev = log_dev s" "card H < 2" and bm: "bitmap_ok (sb s) H (fview s)"
    and b: "b < unat (sb_size (sb s))" "BPB dvd b"
    and f: "find (bit_free (fview s (BBLOCK (of_nat b) (sb s)))) [0..<min BPB (unat (sb_size (sb s)) - b)] = Some bi"
  shows "txn_ok cur me H k s (balloc_round cur dev b s)
    (\<lambda>r s'. r = Some (of_nat (b + bi)) \<and> blocks_to s (alloc_view (sb s) (fview s) (of_nat (b + bi))) s')"
  unfolding balloc_round_def
proof (rule with_buf_ok [OF t(1,2) bitmap_okD(1) [OF bm b(1)]])
  let ?B = "BBLOCK (of_nat b) (sb s)" and ?a = "of_nat (b + bi) :: u32"
  note g = find_bit_Some [OF bm b f]
  have a: "?a \<notin> insert ?B H" "unat ?a = b + bi"
    using bitmap_okD(4-6) [OF bm g(2)] g(3) b(1) by auto
  fix bp s1
  assume 1: "fs_txn cur me (insert ?B H) (Suc (Suc k)) s1" "fhandle me s1 bp = Some ?B" "fview s1 = fview s" "fs_rest s1 = fs_rest s"
  have c2: "card (insert ?B H) < 3" using t(3) by (simp add: card_insert_if)
  let ?d = "fview s ?B"
  have d: "buf_data (bufs s1 bp) = ?d" using txn_data [OF 1(1,2)] 1(3) by simp
  have v: "alloc_view (sb s) (fview s) ?a = (fview s)(?B := bit_use bi ?d, ?a := replicate BSIZE 0)"
    using g(5,6) a(2) by (simp add: alloc_view_def del: of_nat_add)
  have "txn_ok cur me (insert ?B H) k s1 (kbind (log_write bp (buf_set_data bp (bit_use bi ?d) s1)) (\<lambda>s.
           kbind (bzero cur dev ?a s) (\<lambda>s. Ret (Some ?a, s))))
      (\<lambda>r s'. r = Some ?a \<and> blocks_to s (alloc_view (sb s) (fview s) ?a) s')"
  proof (rule log_ok [OF 1(1,2)])
    fix s2 assume 2: "fview s2 = (fview s1)(?B := bit_use bi ?d)" "fs_rest s2 = fs_rest s1" "fs_txn cur me (insert ?B H) (Suc k) s2"
    have dv: "dev = log_dev s2" using fs_restD(3) [OF 2(2)] fs_restD(3) [OF 1(4)] t(2) by simp
    obtain s3 where 3: "bzero cur dev ?a s2 = Ret s3" "fs_txn cur me (insert ?B H) k s3"
      "blocks_to s2 ((fview s2)(?a := replicate BSIZE 0)) s3" "\<forall>c y. fhandle me s2 c = Some y \<longrightarrow> fhandle me s3 c = Some y"
      using bzero_ok [OF 2(3) dv a(1) c2] by blast
    have "blocks_to s (alloc_view (sb s) (fview s) ?a) s3" using 3(3) 2(1,2) 1(3,4) unfolding v by (simp add: blocks_to_def)
    then show "txn_ok cur me (insert ?B H) k s2 (kbind (bzero cur dev ?a s2) (\<lambda>s. Ret (Some ?a, s)))
      (\<lambda>r s'. r = Some ?a \<and> blocks_to s (alloc_view (sb s) (fview s) ?a) s')"
      using 3 by (auto simp: txn_ok_def)
  qed
  then show "txn_ok cur me (insert ?B H) k s1
      (case find (bit_free (buf_data (bufs s1 bp))) [0..<min BPB (unat (sb_size (sb s1)) - b)] of None \<Rightarrow> Ret (None, s1)
       | Some bi \<Rightarrow>
           kbind (log_write bp (buf_set_data bp (bit_use bi (buf_data (bufs s1 bp))) s1)) (\<lambda>s.
           kbind (bzero cur dev (of_nat (b + bi)) s) (\<lambda>s. Ret (Some (of_nat (b + bi)), s))))
      (\<lambda>r s'. r = Some ?a \<and> blocks_to s (alloc_view (sb s) (fview s) ?a) s')"
    unfolding d fs_restD(1) [OF 1(4)] f by simp
qed (use t(3) in \<open>auto simp: blocks_to_def\<close>)

text \<open>What \<open>balloc\<close> promises: the first free block, marked and cleared, or 0 when there is none.\<close>

definition allocated :: "'a kfs_scheme \<Rightarrow> u32 \<Rightarrow> 'a kfs_scheme \<Rightarrow> bool" where
  "allocated s a s' \<longleftrightarrow>
     (if a = 0 then blocks_to s (fview s) s' \<and> (\<forall>c < unat (sb_size (sb s)). used (sb s) (fview s) c)
      else unat a < unat (sb_size (sb s)) \<and> \<not> used (sb s) (fview s) (unat a) \<and>
        (\<forall>c < unat a. used (sb s) (fview s) c) \<and> blocks_to s (alloc_view (sb s) (fview s) a) s')"

lemma blocks_to_sb: "blocks_to s v s' \<Longrightarrow> sb s' = sb s \<and> log_dev s' = log_dev s \<and> inodes s' = inodes s \<and> fview s' = v"
  using fs_restD [of s' s] by (simp add: blocks_to_def)

lemma balloc_loop_ok:
  assumes "fs_txn cur me H (Suc (Suc k)) s" "dev = log_dev s" "card H < 2" "bitmap_ok (sb s) H (fview s)"
    and "BPB dvd b" "\<forall>c < b. c < unat (sb_size (sb s)) \<longrightarrow> used (sb s) (fview s) c"
    and "unat (sb_size (sb s)) \<le> b + r * BPB" "r = 0 \<or> b + (r - 1) * BPB < unat (sb_size (sb s))"
  shows "txn_ok cur me H k s (balloc_loop cur dev r b s) (allocated s)"
  using assms
proof (induction r arbitrary: b s)
  case 0
  then have "allocated s 0 s" by (auto simp: allocated_def blocks_to_def)
  then show ?case using fs_txn_mono [OF 0(1), of k] by (auto intro: txn_ok_Ret)
next
  case (Suc r)
  note p = Suc.prems
  have b: "b < unat (sb_size (sb s))" using p(8) by auto
  show ?case
  proof (cases "find (bit_free (fview s (BBLOCK (of_nat b) (sb s)))) [0..<min BPB (unat (sb_size (sb s)) - b)]")
    case None
    then have n: "\<forall>c. b \<le> c \<and> c < b + BPB \<and> c < unat (sb_size (sb s)) \<longrightarrow> used (sb s) (fview s) c"
      using find_bit_None [OF p(4) b p(5)] by blast
    have c3: "card H < 3" using p(3) by simp
    show ?thesis unfolding balloc_loop.simps
    proof (rule txn_ok_bind [OF balloc_round_None [OF p(1,2) c3 p(4) b p(5) n]])
      fix x :: "u32 option" and s' assume s': "fs_txn cur me H (Suc (Suc k)) s'" "x = None \<and> blocks_to s (fview s) s'"
      note e = blocks_to_sb [OF conjunct2 [OF s'(2)]]
      have "txn_ok cur me H k s' (balloc_loop cur dev r (b + BPB) s') (allocated s')"
      proof (rule Suc.IH [OF s'(1)])
        show "\<forall>c < b + BPB. c < unat (sb_size (sb s')) \<longrightarrow> used (sb s') (fview s') c"
          using p(6) n e by (metis not_less)
        show "r = 0 \<or> b + BPB + (r - 1) * BPB < unat (sb_size (sb s'))" using p(8) e by (cases r) auto
        show "unat (sb_size (sb s')) \<le> b + BPB + r * BPB" using p(7) e by simp
        show "BPB dvd b + BPB" using p(5) by simp
      qed (use p e in auto)
      then have "txn_ok cur me H k s' (balloc_loop cur dev r (b + BPB) s') (allocated s)"
        by (rule txn_ok_mono) (use s'(2) e in \<open>auto simp: allocated_def blocks_to_def split: if_splits\<close>)
      then show "txn_ok cur me H k s' (case (x, s') of (None, s) \<Rightarrow> balloc_loop cur dev r (b + BPB) s | (Some y, s) \<Rightarrow> Ret (y, s)) (allocated s)"
        using s'(2) by simp
    qed
  next
    case (Some bi)
    note g = find_bit_Some [OF p(4) b p(5) Some]
    let ?n = "b + bi" let ?a = "of_nat ?n :: u32"
    have a: "unat ?a = ?n" using bitmap_okD(4) [OF p(4) g(2)] .
    have "?n \<noteq> 0"
    proof
      assume z: "?n = 0"
      have "used (sb s) (fview s) 0" using p(4) g(2) by (simp add: bitmap_ok_def)
      then show False using g(3) unfolding z by simp
    qed
    then have a0: "?a \<noteq> 0" using a by (metis unat_0)
    show ?thesis unfolding balloc_loop.simps
    proof (rule txn_ok_bind [OF balloc_round_Some [OF p(1-4) b p(5) Some]])
      fix x s' assume s': "fs_txn cur me H k s'" "x = Some ?a \<and> blocks_to s (alloc_view (sb s) (fview s) ?a) s'"
      have "used (sb s) (fview s) c" if "c < ?n" for c using p(6) g(2) g(4) [of c] that by (cases "c < b") auto
      then have "allocated s ?a s'" unfolding allocated_def a using a0 g(2,3) s'(2) by simp
      then show "txn_ok cur me H k s' (case (x, s') of (None, s) \<Rightarrow> balloc_loop cur dev r (b + BPB) s | (Some y, s) \<Rightarrow> Ret (y, s)) (allocated s)"
        using s' by (auto intro: txn_ok_Ret)
    qed
  qed
qed

lemma balloc_ok:
  assumes "fs_txn cur me H (Suc (Suc k)) s" "dev = log_dev s" "card H < 2" "bitmap_ok (sb s) H (fview s)"
  shows "txn_ok cur me H k s (balloc cur dev s) (allocated s)"
  unfolding balloc_def
proof (rule balloc_loop_ok [OF assms])
  let ?n = "unat (sb_size (sb s))"
  have "?n \<le> (?n + BPB - 1) div BPB * BPB" using div_mult_mod_eq [of "?n + BPB - 1" BPB] mod_less_divisor [of BPB "?n + BPB - 1"] by linarith
  then show "?n \<le> 0 + (?n + BPB - 1) div BPB * BPB" by simp
  show "(?n + BPB - 1) div BPB = 0 \<or> 0 + ((?n + BPB - 1) div BPB - 1) * BPB < ?n"
  proof (cases "?n = 0")
    case False
    have "(?n + BPB - 1) div BPB * BPB \<le> ?n + BPB - 1" by (rule div_times_less_eq_dividend)
    moreover have "((?n + BPB - 1) div BPB - 1) * BPB = (?n + BPB - 1) div BPB * BPB - BPB" by (simp add: diff_mult_distrib)
    ultimately show ?thesis using False by linarith
  qed simp
qed auto

text \<open>The bitmap afterwards: exactly the new block is marked in addition.\<close>

lemma used_alloc_view:
  assumes bm: "bitmap_ok x H v" and a: "unat a < unat (sb_size x)" "\<not> used x v (unat a)" and c: "c < unat (sb_size x)"
  shows "used x (alloc_view x v a) c \<longleftrightarrow> used x v c \<or> c = unat a"
proof -
  let ?B = "BBLOCK a x"
  have ne: "a \<noteq> BBLOCK (of_nat c) x" using bitmap_okD(6) [OF bm a c] by simp
  have lt: "c < 2 ^ 32" "unat a < 2 ^ 32" using bitmap_okD(3) [OF bm] a c by auto
  have len: "length (v ?B) = BSIZE" using bitmap_okD(2) [OF bm a(1)] by simp
  show ?thesis
  proof (cases "BBLOCK (of_nat c) x = ?B")
    case True
    then have "c div BPB = unat a div BPB" using BBLOCK_eq_iff [OF lt, of x] by simp
    then have e: "c = unat a \<longleftrightarrow> c mod BPB = unat a mod BPB" by (metis div_mult_mod_eq)
    have "unat a mod BPB div 8 < length (v ?B)" using len by (simp add: less_mult_imp_div_less)
    then show ?thesis using True ne e by (simp add: used_def alloc_view_def bit_use_iff)
  next
    case False
    then have "c \<noteq> unat a" by auto
    then show ?thesis using False ne by (simp add: used_def alloc_view_def)
  qed
qed

section \<open>Freeing\<close>

definition free_view :: "superblock \<Rightarrow> (u32 \<Rightarrow> block) \<Rightarrow> u32 \<Rightarrow> u32 \<Rightarrow> block" where
  "free_view x v b = v(BBLOCK b x := bit_release (unat b mod BPB) (v (BBLOCK b x)))"

lemma bfree_ok:
  assumes t: "fs_txn cur me H (Suc k) s" "dev = log_dev s" "card H < 3" "BBLOCK b (sb s) \<notin> H"
    and u: "used (sb s) (fview s) (unat b)"
  shows "\<exists>s'. bfree cur dev b s = Ret s' \<and> fs_txn cur me H k s' \<and> blocks_to s (free_view (sb s) (fview s) b) s' \<and>
    (\<forall>c y. fhandle me s c = Some y \<longrightarrow> fhandle me s' c = Some y)"
proof -
  let ?B = "BBLOCK b (sb s)" and ?bi = "unat b mod BPB"
  let ?f = "\<lambda>bp s. let bi = ?bi; d = buf_data (bufs s bp) in
       if bit_free d bi then Panic ''freeing free block''
       else kbind (log_write bp (buf_set_data bp (bit_release bi d) s)) (\<lambda>s. Ret ((), s))"
  have "txn_ok cur me H k s (with_buf cur dev ?B ?f s) (\<lambda>_. blocks_to s (free_view (sb s) (fview s) b))"
  proof (rule with_buf_ok [OF t(1,2,4,3)])
    fix bp s1 assume 1: "fs_txn cur me (insert ?B H) (Suc k) s1" "fhandle me s1 bp = Some ?B" "fview s1 = fview s" "fs_rest s1 = fs_rest s"
    have d: "buf_data (bufs s1 bp) = fview s ?B" using txn_data [OF 1(1,2)] 1(3) by simp
    have nf: "\<not> bit_free (fview s ?B) ?bi" using u by (simp add: used_def)
    have "txn_ok cur me (insert ?B H) k s1 (kbind (log_write bp (buf_set_data bp (bit_release ?bi (fview s ?B)) s1)) (\<lambda>s. Ret ((), s)))
        (\<lambda>_. blocks_to s (free_view (sb s) (fview s) b))"
      using 1(3,4) by (intro log_ok [OF 1(1,2)] txn_ok_Ret) (auto simp: blocks_to_def free_view_def)
    then show "txn_ok cur me (insert ?B H) k s1 (?f bp s1) (\<lambda>_. blocks_to s (free_view (sb s) (fview s) b))"
      unfolding d Let_def using nf by simp
  qed (auto simp: blocks_to_def)
  then show ?thesis unfolding bfree_def by (auto simp: txn_ok_def)
qed

lemma bfree_panics:
  assumes t: "fs_txn cur me H k s" "dev = log_dev s" "card H < 3" "BBLOCK b (sb s) \<notin> H"
    and u: "\<not> used (sb s) (fview s) (unat b)"
  shows "bfree cur dev b s = Panic ''freeing free block''"
proof -
  obtain bp s1 where 1: "cache_read cur dev (BBLOCK b (sb s)) s = Ret (bp, s1)" "fs_txn cur me (insert (BBLOCK b (sb s)) H) k s1"
    "fview s1 = fview s" "fs_rest s1 = fs_rest s" "fhandle me s1 bp = Some (BBLOCK b (sb s))"
    "\<forall>c x. fhandle me s c = Some x \<longrightarrow> x \<noteq> BBLOCK b (sb s) \<longrightarrow> fhandle me s1 c = Some x"
    using txn_read [OF t(1,2,4,3)] .
  have "bit_free (buf_data (bufs s1 bp)) (unat b mod BPB)" using txn_data [OF 1(2,5)] 1(3) u by (simp add: used_def)
  then show ?thesis by (simp add: bfree_def with_buf_def 1(1) Let_def)
qed

lemma used_free_view:
  assumes bm: "bitmap_ok x H v" and b: "unat b < unat (sb_size x)" and c: "c < unat (sb_size x)"
  shows "used x (free_view x v b) c \<longleftrightarrow> used x v c \<and> c \<noteq> unat b"
proof -
  let ?B = "BBLOCK b x"
  have lt: "c < 2 ^ 32" "unat b < 2 ^ 32" using bitmap_okD(3) [OF bm] b c by auto
  have len: "length (v ?B) = BSIZE" using bitmap_okD(2) [OF bm b] by simp
  show ?thesis
  proof (cases "BBLOCK (of_nat c) x = ?B")
    case True
    then have "c div BPB = unat b div BPB" using BBLOCK_eq_iff [OF lt, of x] by simp
    then have e: "c = unat b \<longleftrightarrow> c mod BPB = unat b mod BPB" by (metis div_mult_mod_eq)
    have "unat b mod BPB div 8 < length (v ?B)" using len by (simp add: less_mult_imp_div_less)
    then show ?thesis using True e by (simp add: used_def free_view_def bit_release_iff)
  next
    case False
    then have "c \<noteq> unat b" by auto
    then show ?thesis using False by (simp add: used_def free_view_def)
  qed
qed

section \<open>The allocator's contract\<close>

text \<open>
  C20. \<open>balloc\<close> inside a transaction with room for two more blocks returns. When every block of the disk
  is in use it gives 0 and changes no block. Otherwise it gives the first free block: that block is
  then marked and all zero, the marks of all other blocks are as before, and no block but it and its
  bitmap block has changed.
\<close>

theorem balloc_first_free:
  assumes "fs_txn cur me H (Suc (Suc k)) s" "card H < 2" "bitmap_ok (sb s) H (fview s)"
  shows "\<exists>a s'. balloc cur (log_dev s) s = Ret (a, s') \<and> fs_txn cur me H k s' \<and>
    (if a = 0 then (\<forall>c < unat (sb_size (sb s)). used (sb s) (fview s) c) \<and> fview s' = fview s
     else unat a < unat (sb_size (sb s)) \<and> \<not> used (sb s) (fview s) (unat a) \<and> (\<forall>c < unat a. used (sb s) (fview s) c) \<and>
       (\<forall>c < unat (sb_size (sb s)). used (sb s) (fview s') c \<longleftrightarrow> used (sb s) (fview s) c \<or> c = unat a) \<and>
       fview s' a = replicate BSIZE 0 \<and> (\<forall>b. b \<noteq> a \<and> b \<noteq> BBLOCK a (sb s) \<longrightarrow> fview s' b = fview s b))"
proof -
  obtain a s' where b: "balloc cur (log_dev s) s = Ret (a, s')" "fs_txn cur me H k s'" "allocated s a s'"
    using balloc_ok [OF assms(1) refl assms(2,3)] unfolding txn_ok_def by blast
  show ?thesis
  proof (cases "a = 0")
    case True
    then show ?thesis using b by (auto simp: allocated_def blocks_to_def)
  next
    case False
    then have v: "unat a < unat (sb_size (sb s))" "\<not> used (sb s) (fview s) (unat a)" "\<forall>c < unat a. used (sb s) (fview s) c"
      "fview s' = alloc_view (sb s) (fview s) a"
      using b(3) by (auto simp: allocated_def blocks_to_def)
    have "fview s' a = replicate BSIZE 0" "\<forall>b. b \<noteq> a \<and> b \<noteq> BBLOCK a (sb s) \<longrightarrow> fview s' b = fview s b"
      unfolding v(4) by (simp_all add: alloc_view_def)
    then show ?thesis using b(1,2) False v used_alloc_view [OF assms(3) v(1,2)]
      by (intro exI [of _ a] exI [of _ s']) simp
  qed
qed

text \<open>
  \<open>bfree\<close> clears exactly the mark of its block and changes no block but the bitmap block; freeing
  a block that is already free is a panic.
\<close>

theorem bfree_unmarks:
  assumes "fs_txn cur me H (Suc k) s" "card H < 3" "bitmap_ok (sb s) H (fview s)" "unat b < unat (sb_size (sb s))"
  shows "if used (sb s) (fview s) (unat b)
    then \<exists>s'. bfree cur (log_dev s) b s = Ret s' \<and> fs_txn cur me H k s' \<and>
      (\<forall>c < unat (sb_size (sb s)). used (sb s) (fview s') c \<longleftrightarrow> used (sb s) (fview s) c \<and> c \<noteq> unat b) \<and>
      (\<forall>x. x \<noteq> BBLOCK b (sb s) \<longrightarrow> fview s' x = fview s x)
    else bfree cur (log_dev s) b s = Panic ''freeing free block''"
proof -
  have B: "BBLOCK b (sb s) \<notin> H" using bitmap_okD(1) [OF assms(3,4)] by simp
  show ?thesis
  proof (cases "used (sb s) (fview s) (unat b)")
    case True
    obtain s' where s': "bfree cur (log_dev s) b s = Ret s'" "fs_txn cur me H k s'" "fview s' = free_view (sb s) (fview s) b"
      using bfree_ok [OF assms(1) refl assms(2) B True] by (auto simp: blocks_to_def)
    then show ?thesis using True used_free_view [OF assms(3,4)] by (auto simp: free_view_def)
  next
    case False
    then show ?thesis using bfree_panics [OF assms(1) refl assms(2) B False] by simp
  qed
qed

text \<open>A small file system for the examples: 64 blocks, the bitmap in block 45, blocks 0 to 45 in use.\<close>

definition demo_super :: superblock where
  "demo_super = \<lparr>sb_magic = FSMAGIC, sb_size = 64, sb_nblocks = 18, sb_ninodes = 200, sb_nlog = 31,
     sb_logstart = 2, sb_inodestart = 33, sb_bmapstart = 45\<rparr>"

definition demo_blocks :: "u32 \<Rightarrow> block" where
  "demo_blocks b = (if b = 45 then replicate 5 0xFF @ [0x3F] @ replicate 1018 0 else replicate BSIZE 0)"

definition zero_inode :: inode where
  "zero_inode = \<lparr>i_dev = 0, i_inum = 0, i_ref = 0, i_lock = None, i_valid = False,
     i_dinode = \<lparr>d_type = 0, d_major = 0, d_minor = 0, d_nlink = 0, d_size = 0, d_addrs = (\<lambda>_. 0)\<rparr>\<rparr>"

definition demo_boot :: kfs where
  "demo_boot = \<lparr>ram = (\<lambda>_. 0), free_list = slist_new, kernel_pagetable = 0, satp = 0,
     processes = (\<lambda>_. demo_proc\<lparr>pid := 1, pstate := RUNNING\<rparr>), next_pid = 2, initprocess = Some 0, ticks = 0,
     disk = demo_blocks, disk_trace = [], bufs = (\<lambda>_. zero_buf), cache = dlist_new,
     log_start = 2, log_size = 31, log_outstanding = 1, log_committing = False, log_dev = 1, log_n = 0, log_block = (\<lambda>_. 0),
     sb = demo_super, inodes = (\<lambda>_. zero_inode)\<rparr>"

definition demo_fs :: kfs where
  "demo_fs = buffer_cache_init demo_boot"

lemma demo_fs_fields [simp]:
  "log_dev demo_fs = 1" "sb demo_fs = demo_super" "inodes demo_fs = (\<lambda>_. zero_inode)" "log_n demo_fs = 0"
  "log_outstanding demo_fs = 1" "log_size demo_fs = 31" "disk demo_fs = demo_blocks" "pid (processes demo_fs i) = 1"
  by (simp_all add: demo_fs_def demo_boot_def buffer_cache_init_def case_prod_unfold Let_def)

lemma demo_fs_txn: "fs_txn 0 1 {} 12 demo_fs" "fview demo_fs = demo_blocks"
proof -
  have z: "bufs demo_boot = (\<lambda>_. zero_buf)" "(1 :: u32) \<noteq> 0" by (simp_all add: demo_boot_def)
  note f = buffer_cache_init_facts [OF z, folded demo_fs_def]
  show v: "fview demo_fs = demo_blocks" using f(5) by (simp add: fview_def demo_boot_def)
  show "fs_txn 0 1 {} 12 demo_fs"
    unfolding fs_txn_def v using f by (simp add: cache_inv_def logged_def)
qed

lemma demo_used: "b < 64 \<Longrightarrow> used demo_super demo_blocks b \<longleftrightarrow> b < 46"
proof -
  assume b: "b < 64"
  have B: "BBLOCK (of_nat b) demo_super = 45" using BBLOCK_div [of b demo_super] b by (simp add: demo_super_def)
  have "\<forall>b \<in> set [0..<64]. \<not> bit_free (demo_blocks 45) b \<longleftrightarrow> b < 46"
    unfolding bit_free_iff demo_blocks_def by code_simp
  then show ?thesis using b by (simp add: used_def B)
qed

lemma demo_bitmap_ok: "bitmap_ok demo_super {} demo_blocks"
proof -
  have n: "unat (sb_size demo_super) = 64" by (simp add: demo_super_def)
  have B: "BBLOCK (of_nat b) demo_super = 45" if "b < 64" for b using BBLOCK_div [of b demo_super] that by (simp add: demo_super_def)
  have "used demo_super demo_blocks b" if "b < 64" "(of_nat b :: u32) = 45" for b
    using that demo_used [OF that(1)] unat_of_nat32 [of b] by simp
  then show ?thesis unfolding bitmap_ok_def n using B demo_used [of 0] by (auto simp: demo_blocks_def)
qed

theorem balloc_first_free_witness:
  "\<exists>s'. balloc 0 1 demo_fs = Ret (46, s') \<and> used demo_super (fview s') 46 \<and> \<not> used demo_super (fview s') 47"
proof -
  have t: "fs_txn 0 1 {} (Suc (Suc 10)) demo_fs" using demo_fs_txn(1) by simp
  have bm: "bitmap_ok (sb demo_fs) {} (fview demo_fs)" using demo_bitmap_ok demo_fs_txn(2) by simp
  have n: "unat (sb_size demo_super) = 64" "card ({} :: u32 set) < 2" by (simp_all add: demo_super_def)
  obtain a s' where b: "balloc 0 1 demo_fs = Ret (a, s')"
    "if a = 0 then (\<forall>c < 64. used demo_super demo_blocks c) \<and> fview s' = demo_blocks
     else unat a < 64 \<and> \<not> used demo_super demo_blocks (unat a) \<and> (\<forall>c < unat a. used demo_super demo_blocks c) \<and>
       (\<forall>c < 64. used demo_super (fview s') c \<longleftrightarrow> used demo_super demo_blocks c \<or> c = unat a)"
    using balloc_first_free [OF t n(2) bm] unfolding demo_fs_txn(2) demo_fs_fields n(1) by (metis (full_types))
  have "a \<noteq> 0" using b(2) demo_used [of 50] by auto
  then have a: "unat a < 64" "\<not> used demo_super demo_blocks (unat a)" "\<forall>c < unat a. used demo_super demo_blocks c"
    "\<forall>c < 64. used demo_super (fview s') c \<longleftrightarrow> used demo_super demo_blocks c \<or> c = unat a" using b(2) by simp_all
  have "46 \<le> unat a" using a(1,2) demo_used [of "unat a"] by simp
  moreover have "\<not> 46 < unat a" using a(3) demo_used [of 46] by auto
  ultimately have u: "unat a = 46" by simp
  then have "unat a = unat (46 :: u32)" by simp
  then have "a = 46" by (rule word_unatI)
  then show ?thesis using b(1) a(4) u demo_used [of 46] demo_used [of 47] by auto
qed

theorem bfree_unmarks_witness:
  "bfree 0 1 50 demo_fs = Panic ''freeing free block'' \<and> (\<exists>s'. bfree 0 1 40 demo_fs = Ret s' \<and> \<not> used demo_super (fview s') 40)"
proof -
  have t: "fs_txn 0 1 {} (Suc 11) demo_fs" using demo_fs_txn(1) by simp
  have bm: "bitmap_ok (sb demo_fs) {} (fview demo_fs)" using demo_bitmap_ok demo_fs_txn(2) by simp
  show ?thesis using bfree_unmarks [OF t _ bm, of 50] bfree_unmarks [OF t _ bm, of 40] demo_used [of 50] demo_used [of 40] demo_fs_txn(2)
    by (auto simp: demo_super_def)
qed

end
