(* ===== verification/Fs_Inodes.thy ===== *)
theory Fs_Inodes
  imports Fs_Blocks
begin

text \<open>
  Properties of the inode layer of \<^verbatim>\<open>kernel/file_system.cpp\<close>: the inodes on disk, the table of inodes in
  memory, and the splitting of path names.
\<close>

section \<open>Inodes on disk\<close>

lemma get_bytes_put32:
  "off + 4 \<le> length d \<Longrightarrow> off' + n \<le> off \<or> off + 4 \<le> off' \<Longrightarrow> get_bytes off' n (put32 off v d) = get_bytes off' n d"
  using get_put_bytes_other [of off "le_bytes 4 v" d off' n] by (simp add: put32_def)

lemma get_bytes_put16:
  "off + 2 \<le> length d \<Longrightarrow> off' + n \<le> off \<or> off + 2 \<le> off' \<Longrightarrow> get_bytes off' n (put16 off v d) = get_bytes off' n d"
  using get_put_bytes_other [of off "le_bytes 2 v" d off' n] by (simp add: put16_def)

lemma get_other_width [field_simps_le]:
  "off + 4 \<le> length d \<Longrightarrow> off' + 2 \<le> off \<or> off + 4 \<le> off' \<Longrightarrow> get16 off' (put32 off v d) = get16 off' d"
  "off + 2 \<le> length d \<Longrightarrow> off' + 4 \<le> off \<or> off + 2 \<le> off' \<Longrightarrow> get32 off' (put16 off w d) = get32 off' d"
  by (simp_all add: get16_def get32_def get_bytes_put32 get_bytes_put16)

lemma length_put_addrs [simp]: "ofs + 4 * n \<le> length d \<Longrightarrow> length (put_addrs n ofs a d) = length d"
  by (induction n) auto

lemma get_bytes_put_addrs:
  "ofs + 4 * n \<le> length d \<Longrightarrow> off' + m \<le> ofs \<or> ofs + 4 * n \<le> off' \<Longrightarrow> get_bytes off' m (put_addrs n ofs a d) = get_bytes off' m d"
  by (induction n) (auto simp: get_bytes_put32)

lemma get32_put_addrs: "ofs + 4 * n \<le> length d \<Longrightarrow> i < n \<Longrightarrow> get32 (ofs + 4 * i) (put_addrs n ofs a d) = a i"
proof (induction n)
  case (Suc n)
  show ?case
  proof (cases "i = n")
    case True
    then show ?thesis using Suc.prems by (simp add: get32_put32)
  next
    case False
    then have "get32 (ofs + 4 * i) (put32 (ofs + 4 * n) (a n) (put_addrs n ofs a d)) = get32 (ofs + 4 * i) (put_addrs n ofs a d)"
      using Suc.prems by (intro get32_put32_other) auto
    then show ?thesis using Suc False by simp
  qed
qed simp

lemma length_put_dinode [simp]: "ofs + DINODE_SIZE \<le> length d \<Longrightarrow> length (put_dinode ofs x d) = length d"
  by (simp add: put_dinode_def del: put_addrs.simps)

text \<open>Only the addresses of a disk inode that exist count.\<close>

definition dinode_ok :: "dinode \<Rightarrow> bool" where
  "dinode_ok x \<longleftrightarrow> (\<forall>i > NDIRECT. d_addrs x i = 0)"

lemma get_put_dinode:
  assumes "ofs + DINODE_SIZE \<le> length d" "dinode_ok x"
  shows "get_dinode ofs (put_dinode ofs x d) = x"
proof -
  let ?e = "put32 (ofs + 8) (d_size x) (put16 (ofs + 6) (d_nlink x) (put16 (ofs + 4) (d_minor x) (put16 (ofs + 2) (d_major x) (put16 ofs (d_type x) d))))"
  have len: "length ?e = length d" using assms(1) by simp
  have p: "put_dinode ofs x d = put_addrs 13 (ofs + 12) (d_addrs x) ?e" by (simp add: put_dinode_def del: put_addrs.simps)
  have o: "get_bytes k m (put_addrs 13 (ofs + 12) (d_addrs x) ?e) = get_bytes k m ?e" if "k + m \<le> ofs + 12" for k m
    using get_bytes_put_addrs [of "ofs + 12" 13 ?e k m] assms(1) len that by simp
  have g: "get16 ofs (put_dinode ofs x d) = get16 ofs ?e" "get16 (ofs + 2) (put_dinode ofs x d) = get16 (ofs + 2) ?e"
    "get16 (ofs + 4) (put_dinode ofs x d) = get16 (ofs + 4) ?e" "get16 (ofs + 6) (put_dinode ofs x d) = get16 (ofs + 6) ?e"
    "get32 (ofs + 8) (put_dinode ofs x d) = get32 (ofs + 8) ?e"
    unfolding p get16_def get32_def by (subst o; simp)+
  have "get16 ofs (put_dinode ofs x d) = d_type x" "get16 (ofs + 2) (put_dinode ofs x d) = d_major x"
    "get16 (ofs + 4) (put_dinode ofs x d) = d_minor x" "get16 (ofs + 6) (put_dinode ofs x d) = d_nlink x"
    "get32 (ofs + 8) (put_dinode ofs x d) = d_size x"
    using assms(1) by (simp_all only: g) (simp_all add: field_simps_le)
  moreover have "(if i \<le> NDIRECT then get32 (ofs + 12 + 4 * i) (put_dinode ofs x d) else 0) = d_addrs x i" for i
    using get32_put_addrs [of "ofs + 12" 13 ?e i "d_addrs x"] assms len unfolding p by (simp add: dinode_ok_def)
  then have "(\<lambda>i. if i \<le> NDIRECT then get32 (ofs + 12 + 4 * i) (put_dinode ofs x d) else 0) = d_addrs x" by (rule ext)
  ultimately show ?thesis by (simp only: get_dinode_def dinode.surjective [symmetric] unit_eq) simp
qed

lemma get_put_dinode_other:
  assumes "ofs + DINODE_SIZE \<le> length d" "ofs' + DINODE_SIZE \<le> ofs \<or> ofs + DINODE_SIZE \<le> ofs'"
  shows "get_dinode ofs' (put_dinode ofs x d) = get_dinode ofs' d"
proof -
  have "get_bytes k m (put_dinode ofs x d) = get_bytes k m d" if "k + m \<le> ofs \<or> ofs + 64 \<le> k" for k m
  proof -
    let ?e = "put32 (ofs + 8) (d_size x) (put16 (ofs + 6) (d_nlink x) (put16 (ofs + 4) (d_minor x) (put16 (ofs + 2) (d_major x) (put16 ofs (d_type x) d))))"
    have "get_bytes k m (put_dinode ofs x d) = get_bytes k m ?e"
      unfolding put_dinode_def by (rule get_bytes_put_addrs) (use that assms(1) in auto)
    also have "\<dots> = get_bytes k m d" using that assms(1) by (elim disjE) (simp_all add: get_bytes_put16 get_bytes_put32)
    finally show ?thesis .
  qed
  then have "get_bytes (ofs' + j) m (put_dinode ofs x d) = get_bytes (ofs' + j) m d" if "j + m \<le> 64" for j m
    using assms(2) that by (metis add.assoc add_le_cancel_left le_add1 order_trans)
  then have "get16 (ofs' + j) (put_dinode ofs x d) = get16 (ofs' + j) d" "get32 (ofs' + j) (put_dinode ofs x d) = get32 (ofs' + j) d"
    if "j + 4 \<le> 64" for j
    using that by (simp_all add: get16_def get32_def)
  from this(1) [of 0] this(1) [of 2] this(1) [of 4] this(1) [of 6] this(2) [of 8] this(2) show ?thesis
    by (simp add: get_dinode_def fun_eq_iff add.assoc)
qed

lemma unat_16: "unat (16 :: u32) = 16"
  by simp

lemma inode_off_bound: "inode_off i + DINODE_SIZE \<le> BSIZE"
proof -
  have "unat i mod 16 \<le> 15" by (simp add: less_Suc_eq_le [symmetric])
  then show ?thesis by (simp add: inode_off_def)
qed

text \<open>Different inodes are in different blocks or at offsets that do not overlap.\<close>

lemma inode_place:
  assumes "i \<noteq> j" "IBLOCK i x = IBLOCK j x"
  shows "inode_off i + DINODE_SIZE \<le> inode_off j \<or> inode_off j + DINODE_SIZE \<le> inode_off i"
proof -
  have "i div 16 = j div 16" using assms(2) by (simp add: IBLOCK_def)
  then have "unat i div 16 = unat j div 16" by (metis (no_types) unat_div_distrib unat_16)
  moreover have "unat i \<noteq> unat j" using assms(1) word_unatI by blast
  ultimately have "unat i mod 16 \<noteq> unat j mod 16" by (metis div_mult_mod_eq)
  then have "unat i mod 16 < unat j mod 16 \<or> unat j mod 16 < unat i mod 16" by linarith
  then show ?thesis by (auto simp: inode_off_def)
qed

section \<open>Writing and reading an inode\<close>

lemma upd_inode_fields [simp]:
  "inodes (upd_inode ip f s) = (inodes s)(ip := f (inodes s ip))" "sb (upd_inode ip f s) = sb s"
  "log_dev (upd_inode ip f s) = log_dev s" "processes (upd_inode ip f s) = processes s"
  "inodes (upd_din ip g s) = (inodes s)(ip := (inodes s ip)\<lparr>i_dinode := g (din s ip)\<rparr>)" "sb (upd_din ip g s) = sb s"
  "log_dev (upd_din ip g s) = log_dev s" "processes (upd_din ip g s) = processes s"
  by (simp_all add: upd_inode_def upd_din_def)

definition iupdate_view :: "superblock \<Rightarrow> (u32 \<Rightarrow> block) \<Rightarrow> u32 \<Rightarrow> dinode \<Rightarrow> u32 \<Rightarrow> block" where
  "iupdate_view x v i di = v(IBLOCK i x := put_dinode (inode_off i) di (v (IBLOCK i x)))"

lemma iupdate_ok:
  assumes t: "fs_txn cur me H (Suc k) s" "i_dev (inodes s ip) = log_dev s" "IBLOCK (i_inum (inodes s ip)) (sb s) \<notin> H" "card H < 3"
  shows "\<exists>s'. iupdate cur ip s = Ret s' \<and> fs_txn cur me H k s' \<and>
    blocks_to s (iupdate_view (sb s) (fview s) (i_inum (inodes s ip)) (din s ip)) s' \<and>
    (\<forall>c y. fhandle me s c = Some y \<longrightarrow> fhandle me s' c = Some y)"
proof -
  let ?i = "i_inum (inodes s ip)" let ?B = "IBLOCK ?i (sb s)" let ?v = "iupdate_view (sb s) (fview s) ?i (din s ip)"
  let ?f = "\<lambda>bp s. kbind (log_write bp (buf_set_data bp (put_dinode (inode_off (i_inum (inodes s ip))) (din s ip) (buf_data (bufs s bp))) s))
         (\<lambda>s. Ret ((), s))"
  have "txn_ok cur me H k s (with_buf cur (i_dev (inodes s ip)) ?B ?f s) (\<lambda>_. blocks_to s ?v)"
  proof (rule with_buf_ok [OF t])
    fix bp s1 assume 1: "fs_txn cur me (insert ?B H) (Suc k) s1" "fhandle me s1 bp = Some ?B" "fview s1 = fview s" "fs_rest s1 = fs_rest s"
    have d: "buf_data (bufs s1 bp) = fview s ?B" using txn_data [OF 1(1,2)] 1(3) by simp
    show "txn_ok cur me (insert ?B H) k s1 (?f bp s1) (\<lambda>_. blocks_to s ?v)"
      unfolding d fs_restD(2) [OF 1(4)] using 1(3,4)
      by (intro log_ok [OF 1(1,2)] txn_ok_Ret) (auto simp: blocks_to_def iupdate_view_def)
  qed (auto simp: blocks_to_def)
  then show ?thesis unfolding iupdate_def by (auto simp: txn_ok_def)
qed

text \<open>\<open>ilock\<close> of an inode that is not in memory reads it from the disk; of one that is, only takes the lock.\<close>

definition locked_by :: "u32 \<Rightarrow> nat \<Rightarrow> inode \<Rightarrow> dinode \<Rightarrow> 'a kfs_scheme \<Rightarrow> bool" where
  "locked_by me ip x di s \<longleftrightarrow> inodes s ip = x\<lparr>i_lock := Some me, i_valid := True, i_dinode := di\<rparr>"

lemma ilock_ok:
  assumes t: "fs_txn cur me H k s" "i_dev (inodes s ip) = log_dev s" "IBLOCK (i_inum (inodes s ip)) (sb s) \<notin> H" "card H < 3"
    and i: "1 \<le> i_ref (inodes s ip)" "i_lock (inodes s ip) = None"
    and di: "di = (if i_valid (inodes s ip) then din s ip
      else get_dinode (inode_off (i_inum (inodes s ip))) (fview s (IBLOCK (i_inum (inodes s ip)) (sb s))))"
    and ty: "\<not> i_valid (inodes s ip) \<Longrightarrow> d_type di \<noteq> 0"
  shows "\<exists>s'. ilock cur ip s = Ret s' \<and> fs_txn cur me H k s' \<and> fview s' = fview s \<and>
     inodes s' = (inodes s)(ip := (inodes s ip)\<lparr>i_lock := Some me, i_valid := True, i_dinode := di\<rparr>) \<and> sb s' = sb s \<and> log_dev s' = log_dev s"
proof -
  let ?i = "i_inum (inodes s ip)" let ?B = "IBLOCK ?i (sb s)" let ?x = "(inodes s ip)\<lparr>i_lock := Some me\<rparr>"
  let ?s0 = "upd_inode ip (\<lambda>x. x\<lparr>i_lock := Some me\<rparr>) s"
  have pm: "pid (processes s cur) = me" using t(1) by (simp add: fs_txn_def cache_inv_def)
  have a: "inode_acquire cur ip s = Ret ?s0" using i(2) pm by (simp add: inode_acquire_def)
  have s0: "fs_txn cur me H k ?s0" "inodes ?s0 = (inodes s)(ip := ?x)" "sb ?s0 = sb s" "log_dev ?s0 = log_dev s" "fview ?s0 = fview s"
    using t(1) by simp_all
  show ?thesis
  proof (cases "i_valid (inodes s ip)")
    case True
    then have "?x = (inodes s ip)\<lparr>i_lock := Some me, i_valid := True, i_dinode := di\<rparr>" using di by simp
    then have "ilock cur ip s = Ret ?s0" "inodes ?s0 = (inodes s)(ip := (inodes s ip)\<lparr>i_lock := Some me, i_valid := True, i_dinode := di\<rparr>)"
      using True i(1) s0(2) by (simp_all add: ilock_def a del: upd_inode_fields(1))
    then show ?thesis using s0(1,3-5) by blast
  next
    case False
    let ?new = "(inodes s ip)\<lparr>i_lock := Some me, i_valid := True, i_dinode := di\<rparr>"
    let ?f = "\<lambda>bp s. let s = upd_inode ip (\<lambda>x. x\<lparr>i_dinode := get_dinode (inode_off (i_inum x)) (buf_data (bufs s bp)), i_valid := True\<rparr>) s in
          if d_type (din s ip) = 0 then Panic ''ilock: no type'' else Ret ((), s)"
    have "txn_ok cur me H k ?s0 (with_buf cur (i_dev (inodes ?s0 ip)) (IBLOCK (i_inum (inodes ?s0 ip)) (sb ?s0)) ?f ?s0)
        (\<lambda>_ s'. fview s' = fview s \<and> inodes s' = (inodes s)(ip := ?new) \<and> sb s' = sb s \<and> log_dev s' = log_dev s)"
    proof (rule with_buf_ok [OF s0(1)])
      fix bp s1 assume 1: "fs_txn cur me (insert (IBLOCK (i_inum (inodes ?s0 ip)) (sb ?s0)) H) k s1"
        "fhandle me s1 bp = Some (IBLOCK (i_inum (inodes ?s0 ip)) (sb ?s0))" "fview s1 = fview ?s0" "fs_rest s1 = fs_rest ?s0"
      have d: "buf_data (bufs s1 bp) = fview s ?B" using txn_data [OF 1(1,2)] 1(3) s0 by simp
      let ?s2 = "upd_inode ip (\<lambda>x. x\<lparr>i_dinode := get_dinode (inode_off (i_inum x)) (buf_data (bufs s1 bp)), i_valid := True\<rparr>) s1"
      note r = fs_restD [OF 1(4)]
      have n: "inodes ?s2 = (inodes s)(ip := ?new)" using r(2) s0(2) d di False by (simp add: fun_eq_iff)
      have e: "?f bp s1 = Ret ((), ?s2)" using n ty [OF False] by (simp add: Let_def)
      have q: "fview ?s2 = fview s \<and> inodes ?s2 = (inodes s)(ip := ?new) \<and> sb ?s2 = sb s \<and> log_dev ?s2 = log_dev s"
        using n 1(3) r(1,3) s0 by simp
      have x: "fs_txn cur me (insert (IBLOCK (i_inum (inodes ?s0 ip)) (sb ?s0)) H) k ?s2" using 1(1) by simp
      show "txn_ok cur me (insert (IBLOCK (i_inum (inodes ?s0 ip)) (sb ?s0)) H) k s1 (?f bp s1)
        (\<lambda>_ s'. fview s' = fview s \<and> inodes s' = (inodes s)(ip := ?new) \<and> sb s' = sb s \<and> log_dev s' = log_dev s)"
        by (rule txn_okI [OF e x], simp, rule q)
    next
      show "i_dev (inodes ?s0 ip) = log_dev ?s0" "IBLOCK (i_inum (inodes ?s0 ip)) (sb ?s0) \<notin> H" "card H < 3" using t(2-4) by simp_all
      fix x s2 s3 assume "fview s2 = fview s \<and> inodes s2 = (inodes s)(ip := ?new) \<and> sb s2 = sb s \<and> log_dev s2 = log_dev s"
        and "fview s3 = fview s2" "fs_rest s3 = fs_rest s2"
      then show "fview s3 = fview s \<and> inodes s3 = (inodes s)(ip := ?new) \<and> sb s3 = sb s \<and> log_dev s3 = log_dev s"
        using fs_restD(1-3) [of s3 s2] by simp
    qed
    then obtain s' where "with_buf cur (i_dev (inodes ?s0 ip)) (IBLOCK (i_inum (inodes ?s0 ip)) (sb ?s0)) ?f ?s0 = Ret ((), s')"
      "fs_txn cur me H k s'" "fview s' = fview s \<and> inodes s' = (inodes s)(ip := ?new) \<and> sb s' = sb s \<and> log_dev s' = log_dev s"
      unfolding txn_ok_def by auto
    moreover have "\<not> i_valid (inodes ?s0 ip)" using False s0(2) by simp
    ultimately show ?thesis using a i(1) by (simp add: ilock_def)
  qed
qed

lemma disk_inode_other:
  assumes "length (v (IBLOCK i x)) = BSIZE" "j \<noteq> i"
  shows "get_dinode (inode_off j) (iupdate_view x v i di (IBLOCK j x)) = get_dinode (inode_off j) (v (IBLOCK j x))"
proof (cases "IBLOCK j x = IBLOCK i x")
  case True
  have b: "inode_off i + DINODE_SIZE \<le> length (v (IBLOCK i x))" using inode_off_bound [of i] assms(1) by simp
  show ?thesis using get_put_dinode_other [OF b, of "inode_off j"] inode_place [OF assms(2) True] True by (auto simp: iupdate_view_def)
qed (simp add: iupdate_view_def)

lemma disk_inode_same:
  assumes "length (v (IBLOCK i x)) = BSIZE" "dinode_ok di"
  shows "get_dinode (inode_off i) (iupdate_view x v i di (IBLOCK i x)) = di"
  using get_put_dinode [of "inode_off i" "v (IBLOCK i x)" di] inode_off_bound [of i] assms by (simp add: iupdate_view_def)

lemma fs_txn_wakeup [simp]:
  "fs_txn cur me H k (wakeup c ch s) = fs_txn cur me H k s" "fview (wakeup c ch s) = fview s"
  "inodes (wakeup c ch s) = inodes s" "sb (wakeup c ch s) = sb s" "log_dev (wakeup c ch s) = log_dev s"
  by (simp_all add: fs_txn_def fview_def logged_def cache_inv_def cache_ok_def wakeup_def Let_def)

lemma iunlockput_ok:
  assumes t: "fs_txn cur me H k s" and i: "i_lock (inodes s ip) = Some me" "1 \<le> i_ref (inodes s ip)" "d_nlink (din s ip) \<noteq> 0"
  shows "\<exists>s'. iunlockput cur ip s = Ret s' \<and> fs_txn cur me H k s' \<and> fview s' = fview s \<and> sb s' = sb s \<and> log_dev s' = log_dev s \<and>
    inodes s' = (inodes s)(ip := (inodes s ip)\<lparr>i_lock := None, i_ref := i_ref (inodes s ip) - 1\<rparr>)"
proof -
  have "inode_holding cur ip s" using t i(1) by (simp add: inode_holding_def fs_txn_def cache_inv_def)
  then show ?thesis using t i(2,3) by (simp add: iunlockput_def iunlock_def iput_def inode_release_def)
qed

section \<open>The inode table\<close>

text \<open>No two entries in use stand for the same inode.\<close>

definition itable_ok :: "(nat \<Rightarrow> inode) \<Rightarrow> bool" where
  "itable_ok t \<longleftrightarrow> (\<forall>i < NINODE. 0 \<le> i_ref (t i)) \<and>
     (\<forall>i < NINODE. \<forall>j < NINODE. 0 < i_ref (t i) \<and> 0 < i_ref (t j) \<and> i_dev (t i) = i_dev (t j) \<and> i_inum (t i) = i_inum (t j) \<longrightarrow> i = j)"

lemma itable_eq:
  "itable_ok t \<Longrightarrow> i < NINODE \<Longrightarrow> j < NINODE \<Longrightarrow> 0 < i_ref (t i) \<Longrightarrow> 0 < i_ref (t j) \<Longrightarrow>
    i_dev (t i) = i_dev (t j) \<Longrightarrow> i_inum (t i) = i_inum (t j) \<Longrightarrow> i = j"
  unfolding itable_ok_def by blast

lemma itable_upd:
  assumes "itable_ok t" "0 \<le> i_ref x"
    and "\<And>j. j < NINODE \<Longrightarrow> j \<noteq> i \<Longrightarrow> 0 < i_ref (t j) \<Longrightarrow> i_dev (t j) = i_dev x \<Longrightarrow> i_inum (t j) = i_inum x \<Longrightarrow> False"
  shows "itable_ok (t(i := x))"
proof -
  have "j = k" if "j < NINODE" "k < NINODE" "0 < i_ref ((t(i := x)) j)" "0 < i_ref ((t(i := x)) k)"
    "i_dev ((t(i := x)) j) = i_dev ((t(i := x)) k)" "i_inum ((t(i := x)) j) = i_inum ((t(i := x)) k)" for j k
    using that assms(3) [of j] assms(3) [of k] itable_eq [OF assms(1), of j k]
    by (cases "j = i"; cases "k = i") auto
  moreover have "0 \<le> i_ref ((t(i := x)) j)" if "j < NINODE" for j using that assms(1,2) by (simp add: itable_ok_def)
  ultimately show ?thesis unfolding itable_ok_def by blast
qed

text \<open>
  C22. The inode table never holds an inode twice. \<open>iget\<close> panics only when the inode is not in the table
  and no entry is free. Otherwise it gives the entry of that inode, with one more reference, or a free
  entry set up for it that is marked as not read; the other entries and the invariant are kept, and a
  second \<open>iget\<close> of the same inode gives the same entry.
\<close>

theorem iget_unique:
  assumes "itable_ok (inodes s)"
  shows "if (\<exists>i < NINODE. i_ref (inodes s i) = 0 \<or> i_dev (inodes s i) = dev \<and> i_inum (inodes s i) = inum)
    then \<exists>ip s'. iget dev inum s = Ret (ip, s') \<and> ip < NINODE \<and> itable_ok (inodes s') \<and>
      i_dev (inodes s' ip) = dev \<and> i_inum (inodes s' ip) = inum \<and>
      (if 0 < i_ref (inodes s ip) then inodes s' ip = (inodes s ip)\<lparr>i_ref := i_ref (inodes s ip) + 1\<rparr>
       else i_ref (inodes s' ip) = 1 \<and> \<not> i_valid (inodes s' ip)) \<and>
      (\<forall>j. j \<noteq> ip \<longrightarrow> inodes s' j = inodes s j) \<and> (\<exists>s''. iget dev inum s' = Ret (ip, s''))
    else iget dev inum s = Panic ''iget: no inodes''"
proof -
  let ?P = "\<lambda>t i. i_ref (t i) > 0 \<and> i_dev (t i) = dev \<and> i_inum (t i) = inum"
  have again: "\<exists>s''. iget dev inum s' = Ret (ip, s'')" if "itable_ok (inodes s')" "ip < NINODE" "?P (inodes s') ip" for ip and s' :: "'a kfs_scheme"
  proof -
    have "find (?P (inodes s')) [0..<NINODE] \<noteq> None" using that(2,3) by (auto simp: find_None_iff)
    then obtain j where j: "find (?P (inodes s')) [0..<NINODE] = Some j" by auto
    have "j = ip" by (rule itable_eq [OF that(1)]) (use find_upt_Some [OF j] that in auto)
    then show ?thesis using j by (simp add: iget_def)
  qed
  show ?thesis
  proof (cases "find (?P (inodes s)) [0..<NINODE]")
    case (Some i)
    note i = find_upt_Some [OF Some]
    let ?s = "upd_inode i (\<lambda>x. x\<lparr>i_ref := i_ref x + 1\<rparr>) s"
    have ok: "itable_ok (inodes ?s)" unfolding upd_inode_fields
      by (rule itable_upd [OF assms]) (use i itable_eq [OF assms, of _ i] in auto)
    moreover have "iget dev inum s = Ret (i, ?s)" using Some by (simp add: iget_def)
    moreover have "\<exists>s''. iget dev inum ?s = Ret (i, s'')" by (rule again [OF ok]) (use i in auto)
    ultimately show ?thesis using i by auto
  next
    case None
    then have no: "\<forall>i < NINODE. \<not> ?P (inodes s) i" by (auto simp: find_None_iff)
    show ?thesis
    proof (cases "find (\<lambda>i. i_ref (inodes s i) = 0) [0..<NINODE]")
      case (Some i)
      note i = find_upt_Some [OF Some]
      let ?s = "upd_inode i (\<lambda>x. x\<lparr>i_dev := dev, i_inum := inum, i_ref := 1, i_valid := False\<rparr>) s"
      have ok: "itable_ok (inodes ?s)" unfolding upd_inode_fields
        by (rule itable_upd [OF assms]) (use no in auto)
      moreover have "iget dev inum s = Ret (i, ?s)" using Some None by (simp add: iget_def)
      moreover have "\<exists>s''. iget dev inum ?s = Ret (i, s'')" by (rule again [OF ok]) (use i in auto)
      ultimately show ?thesis using i by auto
    next
      case N: None
      then have "\<forall>i < NINODE. i_ref (inodes s i) \<noteq> 0" by (auto simp: find_None_iff)
      moreover then have "\<forall>i < NINODE. 0 < i_ref (inodes s i)" using assms unfolding itable_ok_def by (metis le_less)
      ultimately have "\<not> (\<exists>i < NINODE. i_ref (inodes s i) = 0 \<or> i_dev (inodes s i) = dev \<and> i_inum (inodes s i) = inum)" using no by blast
      then show ?thesis using N None by (simp add: iget_def)
    qed
  qed
qed

theorem iget_unique_witness:
  "itable_ok (inodes demo_fs) \<and> (\<exists>ip s' s''. iget 1 3 demo_fs = Ret (ip, s') \<and> iget 1 3 s' = Ret (ip, s''))"
proof -
  have ok: "itable_ok (inodes demo_fs)" by (simp add: itable_ok_def zero_inode_def)
  have "\<exists>i < NINODE. i_ref (inodes demo_fs i) = 0 \<or> i_dev (inodes demo_fs i) = 1 \<and> i_inum (inodes demo_fs i) = 3"
    by (intro exI [of _ 0]) (simp add: zero_inode_def)
  then show ?thesis using iget_unique [OF ok, of 1 3] ok by (auto split: if_splits)
qed

section \<open>Closing an inode and opening it again\<close>

text \<open>
  Taking an inode again that was in use once and has just been given back, or that is still in use: the entry it had, or a free entry set up for it.
\<close>

lemma iget_again:
  assumes ok: "itable_ok (inodes s)" and ip: "ip < NINODE" "i_dev (inodes s ip) = dev" "i_inum (inodes s ip) = inum"
    and only: "\<And>j. j < NINODE \<Longrightarrow> j \<noteq> ip \<Longrightarrow> 0 < i_ref (inodes s j) \<Longrightarrow> \<not> (i_dev (inodes s j) = dev \<and> i_inum (inodes s j) = inum)"
  shows "if 0 < i_ref (inodes s ip) then iget dev inum s = Ret (ip, upd_inode ip (\<lambda>x. x\<lparr>i_ref := i_ref x + 1\<rparr>) s)
    else \<exists>jp < NINODE. i_ref (inodes s jp) = 0 \<and>
      iget dev inum s = Ret (jp, upd_inode jp (\<lambda>x. x\<lparr>i_dev := dev, i_inum := inum, i_ref := 1, i_valid := False\<rparr>) s)"
proof (cases "find (\<lambda>i. i_ref (inodes s i) > 0 \<and> i_dev (inodes s i) = dev \<and> i_inum (inodes s i) = inum) [0..<NINODE]")
  case (Some i)
  note i = find_upt_Some [OF Some]
  then have "i = ip" using only by blast
  then show ?thesis using Some i by (simp add: iget_def)
next
  case None
  then have "\<not> 0 < i_ref (inodes s ip)" using ip by (auto simp: find_None_iff)
  then have z: "i_ref (inodes s ip) = 0" using ok ip(1) unfolding itable_ok_def by (metis le_less)
  then obtain jp where jp: "find (\<lambda>i. i_ref (inodes s i) = 0) [0..<NINODE] = Some jp"
    using ip(1) by (cases "find (\<lambda>i. i_ref (inodes s i) = 0) [0..<NINODE]") (auto simp: find_None_iff)
  show ?thesis using find_upt_Some [OF jp] None jp z by (auto simp: iget_def)
qed

text \<open>
  C21. Inodes survive on disk. A process that holds the lock on an inode writes it back with \<open>iupdate\<close>, gives it up
  with \<open>iunlockput\<close> and takes it again with \<open>iget\<close> and \<open>ilock\<close>. All four calls return, and
  the entry that the process ends up with is what it had: the same inode, locked by it, valid, with the same count and the same
  fields. When the reference was the last one the entry was free in between, and \<open>ilock\<close> reads the fields from the
  disk, perhaps into another entry. The table still has each inode at most once; the other entries and the disk inodes of all
  other numbers are unchanged. The process is inside a transaction with room for one more block; the inode has a type and a link,
  and entries that are not in use are not locked.
\<close>

theorem inode_reopen:
  assumes t: "fs_txn cur me H (Suc k) s" "card H < 3" and tab: "itable_ok (inodes s)" "ip < NINODE"
    and free: "\<forall>j < NINODE. i_ref (inodes s j) = 0 \<longrightarrow> i_lock (inodes s j) = None"
    and own: "i_lock (inodes s ip) = Some me" "i_valid (inodes s ip)" "1 \<le> i_ref (inodes s ip)"
    and dev: "i_dev (inodes s ip) = log_dev s" "IBLOCK (i_inum (inodes s ip)) (sb s) \<notin> H" "length (fview s (IBLOCK (i_inum (inodes s ip)) (sb s))) = BSIZE"
    and di: "dinode_ok (din s ip)" "d_type (din s ip) \<noteq> 0" "d_nlink (din s ip) \<noteq> 0"
  shows "\<exists>jp t. kbind (iupdate cur ip s) (\<lambda>s1. kbind (iunlockput cur ip s1) (\<lambda>s1.
        kbind (iget (i_dev (inodes s ip)) (i_inum (inodes s ip)) s1) (\<lambda>(jp, s1). kbind (ilock cur jp s1) (\<lambda>s1. Ret (jp, s1))))) = Ret (jp, t) \<and>
     jp < NINODE \<and> inodes t jp = inodes s ip \<and> (1 < i_ref (inodes s ip) \<longrightarrow> jp = ip) \<and>
     (\<forall>j. j \<noteq> ip \<and> j \<noteq> jp \<longrightarrow> inodes t j = inodes s j) \<and> itable_ok (inodes t) \<and>
     (\<forall>j. get_dinode (inode_off j) (fview t (IBLOCK j (sb s))) =
        (if j = i_inum (inodes s ip) then din s ip else get_dinode (inode_off j) (fview s (IBLOCK j (sb s)))))"
proof -
  let ?x = "inodes s ip" let ?i = "i_inum ?x" and ?d = "i_dev ?x" let ?v = "iupdate_view (sb s) (fview s) ?i (din s ip)"
  obtain s1 where 1: "iupdate cur ip s = Ret s1" "fs_txn cur me H k s1" "blocks_to s ?v s1"
    using iupdate_ok [OF t(1) dev(1,2) t(2)] by blast
  note e1 = blocks_to_sb [OF 1(3)]
  obtain s2 where 2: "iunlockput cur ip s1 = Ret s2" "fs_txn cur me H k s2" "fview s2 = ?v" "sb s2 = sb s" "log_dev s2 = log_dev s"
    "inodes s2 = (inodes s)(ip := ?x\<lparr>i_lock := None, i_ref := i_ref ?x - 1\<rparr>)"
    using iunlockput_ok [OF 1(2), of ip] own di(3) e1 by auto
  have ok2: "itable_ok (inodes s2)" unfolding 2(6)
    by (rule itable_upd [OF tab(1)]) (use own(3) itable_eq [OF tab(1) _ tab(2)] in auto)
  have only: "\<not> (i_dev (inodes s2 j) = ?d \<and> i_inum (inodes s2 j) = ?i)" if "j < NINODE" "j \<noteq> ip" "0 < i_ref (inodes s2 j)" for j
    using that own(3) itable_eq [OF tab(1) that(1) tab(2)] by (auto simp: 2(6))
  obtain jp s3 where 3: "iget ?d ?i s2 = Ret (jp, s3)" "jp < NINODE" "1 < i_ref ?x \<Longrightarrow> jp = ip" "fs_txn cur me H k s3" "fview s3 = ?v" "sb s3 = sb s" "log_dev s3 = log_dev s"
    "i_lock (inodes s3 jp) = None" "i_dev (inodes s3 jp) = ?d" "i_inum (inodes s3 jp) = ?i" "i_ref (inodes s3 jp) = i_ref ?x"
    "i_valid (inodes s3 jp) \<Longrightarrow> din s3 jp = din s ip" "\<And>j. j \<noteq> jp \<Longrightarrow> inodes s3 j = inodes s2 j"
  proof (cases "1 < i_ref ?x")
    case True
    then have "iget ?d ?i s2 = Ret (ip, upd_inode ip (\<lambda>x. x\<lparr>i_ref := i_ref x + 1\<rparr>) s2)"
      using iget_again [OF ok2 tab(2), of ?d ?i] only 2(6) by simp
    then show thesis using that tab(2) 2 True by simp
  next
    case False
    then have r: "i_ref ?x = 1" using own(3) by simp
    then obtain jp where jp: "jp < NINODE" "i_ref (inodes s2 jp) = 0"
      "iget ?d ?i s2 = Ret (jp, upd_inode jp (\<lambda>x. x\<lparr>i_dev := ?d, i_inum := ?i, i_ref := 1, i_valid := False\<rparr>) s2)"
      using iget_again [OF ok2 tab(2), of ?d ?i] only 2(6) by auto
    have "i_lock (inodes s2 jp) = None" using jp(1,2) free 2(6) by (cases "jp = ip") auto
    then show thesis using that [OF jp(3,1)] 2 False r by simp
  qed
  have g: "get_dinode (inode_off ?i) (?v (IBLOCK ?i (sb s))) = din s ip" using disk_inode_same [of "fview s" ?i "sb s" "din s ip"] dev(3) di(1) by simp
  obtain s4 where 4: "ilock cur jp s3 = Ret s4" "fview s4 = ?v" "sb s4 = sb s"
    "inodes s4 = (inodes s3)(jp := (inodes s3 jp)\<lparr>i_lock := Some me, i_valid := True, i_dinode := din s ip\<rparr>)"
    using ilock_ok [OF 3(4), of jp "din s ip"] 3 g t(2) dev own(3) di(2) by auto
  have x: "inodes s4 jp = ?x" using 3 own 4(4) by (intro inode.equality) simp_all
  have o: "inodes s4 j = inodes s j" if "j \<noteq> ip" "j \<noteq> jp" for j using that 3 4(4) 2(6) by simp
  have "inodes s4 = (inodes s2)(jp := ?x)" using 3(13) 4(4) x by auto
  moreover have "itable_ok ((inodes s2)(jp := ?x))"
  proof (rule itable_upd [OF ok2])
    fix j assume j: "j < NINODE" "j \<noteq> jp" "0 < i_ref (inodes s2 j)" "i_dev (inodes s2 j) = ?d" "i_inum (inodes s2 j) = ?i"
    then have "j = ip" using only by blast
    then show False using j(2,3) 3(3) 2(6) by auto
  qed (use own(3) in simp)
  ultimately have "itable_ok (inodes s4)" by simp
  then show ?thesis using 1(1) 2(1) 3(1-3) 4(1,2) x o g disk_inode_other [of "fview s" ?i "sb s" _ "din s ip"] dev(3) by (intro exI [of _ jp] exI [of _ s4]) auto
qed

definition demo_inodes :: kfs where
  "demo_inodes = demo_fs\<lparr>inodes := (\<lambda>i. zero_inode)
     (0 := \<lparr>i_dev = 1, i_inum = 7, i_ref = 1, i_lock = Some 1, i_valid = True,
        i_dinode = \<lparr>d_type = T_FILE, d_major = 0, d_minor = 0, d_nlink = 1, d_size = 5, d_addrs = (\<lambda>_. 0)(0 := 50)\<rparr>\<rparr>)\<rparr>"

lemma fs_txn_upd_inodes [simp]:
  "fs_txn cur me H k (s\<lparr>inodes := x\<rparr>) = fs_txn cur me H k s" "fview (s\<lparr>inodes := x\<rparr>) = fview s"
  by (simp_all add: fs_txn_def fview_def logged_def cache_inv_def cache_ok_def)

lemma demo_blocks_length [simp]: "length (demo_blocks b) = BSIZE"
  by (simp add: demo_blocks_def)

theorem inode_reopen_witness:
  "\<exists>jp t. kbind (iupdate 0 0 demo_inodes) (\<lambda>s. kbind (iunlockput 0 0 s) (\<lambda>s. kbind (iget 1 7 s) (\<lambda>(jp, s). kbind (ilock 0 jp s) (\<lambda>s. Ret (jp, s))))) = Ret (jp, t) \<and>
     d_size (din t jp) = 5 \<and> d_addrs (din t jp) 0 = 50 \<and> i_lock (inodes t jp) = Some 1 \<and> d_size (get_dinode (inode_off 7) (fview t (IBLOCK 7 (sb demo_inodes)))) = 5"
proof -
  have t: "fs_txn 0 1 {} (Suc 11) demo_inodes" using demo_fs_txn(1) by (simp add: demo_inodes_def)
  have v: "fview demo_inodes = demo_blocks" using demo_fs_txn(2) by (simp add: demo_inodes_def)
  have ok: "itable_ok (inodes demo_inodes)" by (simp add: demo_inodes_def itable_ok_def zero_inode_def)
  have free: "\<forall>j < NINODE. i_ref (inodes demo_inodes j) = 0 \<longrightarrow> i_lock (inodes demo_inodes j) = None" by (simp add: demo_inodes_def zero_inode_def)
  have x: "i_dev (inodes demo_inodes 0) = 1" "i_inum (inodes demo_inodes 0) = 7" "i_lock (inodes demo_inodes 0) = Some 1"
    "i_valid (inodes demo_inodes 0)" "i_ref (inodes demo_inodes 0) = 1" "dinode_ok (din demo_inodes 0)" "d_type (din demo_inodes 0) = T_FILE"
    "d_nlink (din demo_inodes 0) = 1" "d_size (din demo_inodes 0) = 5" "d_addrs (din demo_inodes 0) 0 = 50" "log_dev demo_inodes = 1"
    by (simp_all add: demo_inodes_def dinode_ok_def)
  have p: "card ({} :: u32 set) < 3" "0 < NINODE" "1 \<le> i_ref (inodes demo_inodes 0)" "i_dev (inodes demo_inodes 0) = log_dev demo_inodes"
    "IBLOCK (i_inum (inodes demo_inodes 0)) (sb demo_inodes) \<notin> {}" "length (fview demo_inodes (IBLOCK (i_inum (inodes demo_inodes 0)) (sb demo_inodes))) = BSIZE"
    "d_type (din demo_inodes 0) \<noteq> 0" "d_nlink (din demo_inodes 0) \<noteq> 0" using x v by simp_all
  obtain jp t where r: "kbind (iupdate 0 0 demo_inodes) (\<lambda>s1. kbind (iunlockput 0 0 s1) (\<lambda>s1.
        kbind (iget 1 7 s1) (\<lambda>(jp, s1). kbind (ilock 0 jp s1) (\<lambda>s1. Ret (jp, s1))))) = Ret (jp, t)" "inodes t jp = inodes demo_inodes 0"
     "\<forall>j. get_dinode (inode_off j) (fview t (IBLOCK j (sb demo_inodes))) =
        (if j = 7 then din demo_inodes 0 else get_dinode (inode_off j) (fview demo_inodes (IBLOCK j (sb demo_inodes))))"
    using inode_reopen [OF t p(1) ok p(2) free x(3,4) p(3-6) x(6) p(7,8)] unfolding x(1,2) by blast
  have "get_dinode (inode_off 7) (fview t (IBLOCK 7 (sb demo_inodes))) = din demo_inodes 0" using r(3) [rule_format, of 7] by simp
  then show ?thesis using r(1,2) x(3,9,10) by (intro exI [of _ jp] exI [of _ t]) (simp only: refl simp_thms)
qed

section \<open>Path names\<close>

text \<open>The elements of a path: its non-empty parts between slashes.\<close>

fun splits :: "u8 list \<Rightarrow> u8 list list" where
  "splits [] = [[]]"
| "splits (c # cs) = (if c = SLASH then [] # splits cs else (c # hd (splits cs)) # tl (splits cs))"

definition elems :: "u8 list \<Rightarrow> u8 list list" where
  "elems p = filter (\<lambda>e. e \<noteq> []) (splits p)"

lemma splits_eq:
  "splits p = takeWhile (\<lambda>c. c \<noteq> SLASH) p #
     (case dropWhile (\<lambda>c. c \<noteq> SLASH) p of [] \<Rightarrow> [] | _ # q \<Rightarrow> splits q)"
  by (induction p) auto

lemma elems_slash: "elems (SLASH # p) = elems p"
  by (simp add: elems_def)

lemma elems_dropWhile: "elems (dropWhile (\<lambda>c. c = SLASH) p) = elems p"
  by (induction p) (auto simp: elems_slash)

lemma elems_Cons:
  assumes "p \<noteq> []" "hd p \<noteq> SLASH"
  shows "elems p = takeWhile (\<lambda>c. c \<noteq> SLASH) p # elems (dropWhile (\<lambda>c. c \<noteq> SLASH) p)"
proof -
  have ne: "takeWhile (\<lambda>c. c \<noteq> SLASH) p \<noteq> []" using assms by (cases p) auto
  show ?thesis
  proof (cases "dropWhile (\<lambda>c. c \<noteq> SLASH) p")
    case Nil
    show ?thesis unfolding elems_def splits_eq [of p] Nil using ne by simp
  next
    case (Cons c q)
    then have "c = SLASH" by (metis (mono_tags, lifting) dropWhile_eq_Cons_conv)
    then show ?thesis using Cons ne by (simp add: elems_slash) (simp add: elems_def splits_eq [of p])
  qed
qed

text \<open>
  \<open>skipelem\<close> splits a path: it fails exactly when the path has no element left, and otherwise takes
  the first element, cut to \<open>DIRSIZ\<close> bytes, as the C string in \<open>name\<close> and leaves a path with the other
  elements. Leading, trailing and repeated slashes make no difference.
\<close>

theorem skipelem_splits:
  assumes "length name = DIRSIZ" "0 \<notin> set p"
  shows "case skipelem p name of
      None \<Rightarrow> elems p = []
    | Some (rest, n) \<Rightarrow> elems p \<noteq> [] \<and> elems rest = tl (elems p) \<and> 0 \<notin> set rest \<and> length n = DIRSIZ \<and>
        takeWhile (\<lambda>c. c \<noteq> 0) n = take DIRSIZ (hd (elems p))"
proof -
  let ?p = "dropWhile (\<lambda>c. c = SLASH) p"
  let ?e = "takeWhile (\<lambda>c. c \<noteq> SLASH) ?p" and ?r = "dropWhile (\<lambda>c. c \<noteq> SLASH) ?p"
  show ?thesis
  proof (cases "?p = []")
    case True
    have "elems p = []" unfolding elems_dropWhile [of p, symmetric] True by (simp add: elems_def)
    then show ?thesis using True by (simp add: skipelem_def)
  next
    case False
    have el: "elems p = ?e # elems ?r"
      using elems_Cons [OF False] hd_dropWhile [OF False] elems_dropWhile [of p] by simp
    have r: "drop (length ?e) ?p = ?r" by (simp add: dropWhile_eq_drop)
    have z: "0 \<notin> set ?e" "0 \<notin> set ?r" using assms(2) by (blast dest: set_dropWhileD set_takeWhileD)+
    let ?n = "if length ?e \<ge> DIRSIZ then put_bytes 0 (take DIRSIZ ?e) name else put_bytes 0 (?e @ [0]) name"
    have s: "skipelem p name = Some (dropWhile (\<lambda>c. c = SLASH) ?r, ?n)" using False r by (simp add: skipelem_def Let_def)
    have za: "\<forall>c \<in> set ?e. c \<noteq> 0" using z(1) by metis
    have "takeWhile (\<lambda>c. c \<noteq> 0) (?e @ 0 # x) = ?e @ takeWhile (\<lambda>c. c \<noteq> 0) (0 # x)" for x
      by (rule takeWhile_append2) (use za in blast)
    then have "takeWhile (\<lambda>c. c \<noteq> 0) (?e @ 0 # x) = ?e" for x by simp
    moreover have "takeWhile (\<lambda>c. c \<noteq> 0) (take DIRSIZ ?e) = take DIRSIZ ?e"
      using za by (intro iffD2 [OF takeWhile_eq_all_conv]) (blast dest: in_set_takeD)
    ultimately have n: "takeWhile (\<lambda>c. c \<noteq> 0) ?n = take DIRSIZ ?e" using assms(1) by (auto simp: put_bytes_def)
    have l: "length ?n = DIRSIZ" using assms(1) by simp
    have "0 \<notin> set (dropWhile (\<lambda>c. c = SLASH) ?r)" using z(2) by (blast dest: set_dropWhileD)
    then show ?thesis unfolding s using el n l elems_dropWhile [of ?r] by simp
  qed
qed

text \<open>The path \<^verbatim>\<open>/a//bb/\<close>.\<close>

theorem skipelem_splits_witness:
  "\<exists>n. skipelem [SLASH, 0x61, SLASH, SLASH, 0x62, 0x62, SLASH] (replicate DIRSIZ 0) = Some ([0x62, 0x62, SLASH], n) \<and>
     takeWhile (\<lambda>c. c \<noteq> 0) n = [0x61]"
proof -
  let ?p = "[SLASH, 0x61, SLASH, SLASH, 0x62, 0x62, SLASH] :: u8 list"
  have e: "skipelem ?p (replicate DIRSIZ 0) = Some ([0x62, 0x62, SLASH], put_bytes 0 [0x61, 0] (replicate DIRSIZ 0))"
    by (simp add: skipelem_def)
  have "elems ?p = [[0x61], [0x62, 0x62]]" by (simp add: elems_def)
  then show ?thesis using skipelem_splits [of "replicate DIRSIZ 0" ?p] e by simp
qed

end
