(* ===== verification/Memory_Frame.thy ===== *)
theory Memory_Frame
  imports Processes
begin

text \<open>
  The operations on memory and page tables keep everything but memory and the list of free pages. The facts
  are collected as \<open>mkeys\<close>; the components above memory derive what they need from them.
\<close>

named_theorems mkeys \<open>operations that only change memory\<close>

lemma mkey_upds [simp]: "kmem.more (set_pte a v s) = kmem.more s" "kmem.more (zero_page p s) = kmem.more s"
  by (simp_all add: set_pte_def zero_page_def)

lemma page_alloc_mkey [mkeys]: "page_alloc s = (p, t) \<Longrightarrow> kmem.more t = kmem.more s"
  by (auto simp: page_alloc_def Let_def split: prod.splits)

lemma page_free_mkey [mkeys]: "page_free kend p s = Ret t \<Longrightarrow> kmem.more t = kmem.more s"
  by (auto simp: page_free_def Let_def split: prod.splits if_splits)

lemma walk_loop_mkey [mkeys]: "walk_loop l pt va al s = Ret (r, t) \<Longrightarrow> kmem.more t = kmem.more s"
proof (induction l arbitrary: pt s)
  case (Suc l)
  then show ?case by (auto simp: Let_def dest!: mkeys Suc.IH split: if_splits option.splits prod.splits)
qed simp

lemma walk_mkey [mkeys]: "walk pt va al s = Ret (r, t) \<Longrightarrow> kmem.more t = kmem.more s"
  by (auto simp: walk_def dest!: mkeys split: if_splits)

lemma mappages_loop_mkey [mkeys]: "mappages_loop pt a l pa perm s = Ret (r, t) \<Longrightarrow> kmem.more t = kmem.more s"
proof (induction "unat (MAXVA + PGSIZE - a)" arbitrary: a pa s rule: less_induct)
  case less
  have IH: "mappages_loop pt (a + PGSIZE) l pa' perm s' = Ret (r, t) \<Longrightarrow> walk pt a al s'' = Ret w \<Longrightarrow> kmem.more t = kmem.more s'"
    for pa' s' al s'' w
    by (rule less.hyps) (auto simp: page_step_measure dest: walk_Ret_less)
  obtain x s1 where w: "walk pt a True s = Ret (x, s1)" "kmem.more s1 = kmem.more s"
    using less.prems by (subst (asm) mappages_loop.simps) (auto elim!: kbind_RetE dest: mkeys)
  show ?case using less.prems w
    by (subst (asm) mappages_loop.simps) (auto simp: Let_def dest!: IH [OF _ w(1)] split: if_splits option.splits)
qed

lemma mappages_mkey [mkeys]: "mappages pt va n pa perm s = Ret (r, t) \<Longrightarrow> kmem.more t = kmem.more s"
  by (auto simp: mappages_def dest!: mkeys split: if_splits)

lemma unmap_loop_mkey [mkeys]: "unmap_loop kend pt a l df s = Ret t \<Longrightarrow> kmem.more t = kmem.more s"
proof (induction "unat (MAXVA + PGSIZE - a)" arbitrary: a s rule: less_induct)
  case less
  show ?case
  proof (cases "a < l")
    case True
    then obtain x s1 where w: "walk pt a False s = Ret (x, s1)" "kmem.more s1 = kmem.more s"
      using less.prems by (subst (asm) unmap_loop.simps) (auto elim!: kbind_RetE dest: mkeys)
    have IH: "unmap_loop kend pt (a + PGSIZE) l df' s' = Ret t \<Longrightarrow> df' = df \<Longrightarrow> kmem.more t = kmem.more s'" for df' s'
      using w(1) by (intro less.hyps) (auto simp: page_step_measure dest: walk_Ret_less)
    show ?thesis using less.prems w True
      by (subst (asm) unmap_loop.simps)
        (auto simp: Let_def elim!: kbind_RetE dest!: IH mkeys split: if_splits option.splits)
  qed (use less.prems in \<open>subst (asm) unmap_loop.simps, simp\<close>)
qed

lemma unmap_mkey [mkeys]: "unmap kend pt va n df s = Ret t \<Longrightarrow> kmem.more t = kmem.more s"
  by (auto simp: unmap_def dest!: mkeys split: if_splits)

lemma vm_dealloc_mkey [mkeys]: "vm_dealloc kend pt a b s = Ret (r, t) \<Longrightarrow> kmem.more t = kmem.more s"
  by (auto simp: vm_dealloc_def Let_def elim!: kbind_RetE dest!: mkeys split: if_splits)

lemma vm_alloc_loop_mkey [mkeys]: "vm_alloc_loop kend pt o' a n x s = Ret (r, t) \<Longrightarrow> kmem.more t = kmem.more s"
proof (induction "unat (MAXVA + PGSIZE - a)" arbitrary: a s rule: less_induct)
  case less
  have IH: "vm_alloc_loop kend pt o' (a + PGSIZE) n x s' = Ret (r, t) \<Longrightarrow> a < MAXVA \<Longrightarrow> kmem.more t = kmem.more s'" for s'
    by (rule less.hyps) (auto simp: page_step_measure)
  have step: "mappages pt a m pa perm s1 = Ret (w, s2) \<Longrightarrow> kmem.more s2 = kmem.more s1 \<and> a < MAXVA" for m pa perm s1 s2 w
    using mappages_mkey mappages_Ret_less by blast
  show ?case using less.prems
    by (subst (asm) vm_alloc_loop.simps)
      (auto elim!: kbind_RetE dest!: IH step page_alloc_mkey page_free_mkey vm_dealloc_mkey split: if_splits option.splits prod.splits)
qed

lemma vm_alloc_mkey [mkeys]: "vm_alloc kend pt o' n x s = Ret (r, t) \<Longrightarrow> kmem.more t = kmem.more s"
  by (auto simp: vm_alloc_def dest!: mkeys split: if_splits)

lemma vm_copy_loop_mkey [mkeys]: "vm_copy_loop kend o' n' i n s = Ret (r, t) \<Longrightarrow> kmem.more t = kmem.more s"
proof (induction "unat (MAXVA + PGSIZE - i)" arbitrary: i s rule: less_induct)
  case less
  have IH: "vm_copy_loop kend o' n' (i + PGSIZE) n s' = Ret (r, t) \<Longrightarrow> i < MAXVA \<Longrightarrow> kmem.more t = kmem.more s'" for s'
    by (rule less.hyps) (auto simp: page_step_measure)
  have step: "walk o' i al s1 = Ret (w, s2) \<Longrightarrow> kmem.more s2 = kmem.more s1 \<and> i < MAXVA" for al s1 s2 w
    using walk_mkey walk_Ret_less by blast
  show ?case using less.prems
    by (subst (asm) vm_copy_loop.simps)
      (auto simp: Let_def elim!: kbind_RetE dest!: IH step page_alloc_mkey page_free_mkey mappages_mkey unmap_mkey
        split: if_splits option.splits prod.splits)
qed

lemma vm_copy_mkey [mkeys]: "vm_copy kend o' n' n s = Ret (r, t) \<Longrightarrow> kmem.more t = kmem.more s"
  by (auto simp: vm_copy_def dest!: mkeys)

lemma freewalk_loop_mkey:
  assumes "freewalk_loop kend pt i s = Some x"
  shows "\<forall>t. x = Ret t \<longrightarrow> kmem.more t = kmem.more s"
proof (rule freewalk_loop.raw_induct [where P = "\<lambda>kend pt i s x. \<forall>t. x = Ret t \<longrightarrow> kmem.more t = kmem.more s", OF _ assms])
  fix fw kend pt i s x
  assume hyp: "\<And>kend pt i s x. fw kend pt i s = Some x \<Longrightarrow> \<forall>t. x = Ret t \<longrightarrow> kmem.more t = kmem.more (s :: 'a kmem_scheme)"
    and b: "(if i < 512 then
        let pte = load64 (ram s) (pte_addr pt (of_nat i)) in
        if pte AND PTE_V \<noteq> 0 \<and> pte AND (PTE_R OR PTE_W OR PTE_X) = 0
        then Option.bind (fw kend (PTE2PA pte) 0 s) (\<lambda>r.
               case r of
                 Ret s \<Rightarrow> fw kend pt (Suc i) (set_pte (pte_addr pt (of_nat i)) 0 s)
               | Panic m \<Rightarrow> Some (Panic m)
               | Blocked \<Rightarrow> Some Blocked)
        else if pte AND PTE_V \<noteq> 0 then Some (Panic ''freewalk: leaf'')
        else fw kend pt (Suc i) s
      else Some (page_free kend pt s)) = Some x"
  have IH: "fw kend pt i s = Some (Ret t) \<Longrightarrow> kmem.more t = kmem.more s" for kend pt i s t using hyp by blast
  have c: "(case r of Ret s \<Rightarrow> f s | Panic m \<Rightarrow> Some (Panic m) | Blocked \<Rightarrow> Some Blocked) = Some (Ret t) \<longleftrightarrow>
      (\<exists>s. r = Ret s \<and> f s = Some (Ret t))" for r :: "'a kmem_scheme res" and f and t :: "'a kmem_scheme"
    by (cases r) auto
  from b show "\<forall>t. x = Ret t \<longrightarrow> kmem.more t = kmem.more s"
    by (auto simp: Let_def bind_eq_Some_conv c dest!: mkeys IH split: if_splits)
qed

lemma vm_free_mkey [mkeys]: "vm_free kend pt n s = Ret t \<Longrightarrow> kmem.more t = kmem.more s"
  by (auto simp: vm_free_def freewalk_def elim!: kbind_RetE dest!: mkeys freewalk_loop_mkey split: if_splits option.splits)

lemma vm_clear_mkey [mkeys]: "vm_clear pt va s = Ret t \<Longrightarrow> kmem.more t = kmem.more s"
  by (auto simp: vm_clear_def elim!: kbind_RetE dest!: mkeys split: option.splits)

lemma vm_create_mkey [mkeys]: "vm_create s = (r, t) \<Longrightarrow> kmem.more t = kmem.more s"
  by (auto simp: vm_create_def dest!: mkeys split: option.splits prod.splits)

lemma create_pagetable_mkey [mkeys]: "create_pagetable kend tr tf s = Ret (r, t) \<Longrightarrow> kmem.more t = kmem.more s"
  by (auto simp: create_pagetable_def elim!: kbind_RetE dest!: mkeys split: option.splits prod.splits if_splits)

lemma free_pagetable_mkey [mkeys]: "free_pagetable kend pt n s = Ret t \<Longrightarrow> kmem.more t = kmem.more s"
  by (auto simp: free_pagetable_def elim!: kbind_RetE dest!: mkeys)

lemma copyinstr_mkey [mkeys]: "copyinstr pt dst va mx s = Ret (r, t) \<Longrightarrow> kmem.more t = kmem.more s"
proof (induction pt dst va mx s arbitrary: r t rule: copyinstr.induct)
  case (1 pt dst va mx s)
  show ?case
  proof (cases "mx = 0")
    case False
    obtain pa where w: "walkaddr pt (PGROUNDDOWN va) s = Ret pa"
      using 1(2) False by (subst (asm) copyinstr.simps) (auto simp: Let_def elim!: kbind_RetE)
    obtain f k m where c: "copyinstr_page (unat (page_chunk va mx)) (pa + (va - PGROUNDDOWN va)) dst (ram s) = (f, k, m)"
      using prod_cases3 by blast
    show ?thesis using 1(2) w c False 1(1) [OF False refl refl w _ c [symmetric] _ refl]
      by (subst (asm) copyinstr.simps) (cases f; auto simp: Let_def split: if_splits)
  qed (use 1 in \<open>subst (asm) copyinstr.simps, simp\<close>)
qed

lemma copyout_bytes_mkey [mkeys]: "copyout_bytes pt va bs s = Ret (r, t) \<Longrightarrow> kmem.more t = kmem.more s"
proof (induction "length bs" arbitrary: va bs s rule: less_induct)
  case less
  show ?case
  proof (cases "bs = []")
    case False
    let ?n = "4096 - unat (va - PGROUNDDOWN va)"
    have "unat va mod 4096 < 4096" "0 < length bs" using False by auto
    then have lt: "length (drop ?n bs) < length bs" unfolding unat_page_offset length_drop by linarith
    have IH: "copyout_bytes pt va' (drop ?n bs) s' = Ret (r, t) \<Longrightarrow> kmem.more t = kmem.more s'" for va' s'
      using less.hyps [OF lt] .
    show ?thesis using less.prems False
      by (subst (asm) copyout_bytes.simps) (auto simp: Let_def elim!: kbind_RetE dest!: IH walk_mkey split: if_splits option.splits)
  qed (use less.prems in \<open>subst (asm) copyout_bytes.simps, simp\<close>)
qed

end
