(* ===== verification/Address_Spaces.thy ===== *)
theory Address_Spaces
  imports Memory_Frame
begin

text \<open>
  The address space of a new process: what \<open>create_pagetable\<close> and \<open>alloc\<close> of \<^verbatim>\<open>kernel/process_manager.cpp\<close> build when the
  allocator has pages, in terms of the translations of the page table.
\<close>

lemma mappages_one:
  assumes wf: "pt_wf kend s root ps" and va: "page_aligned va" "va < MAXVA" and len: "2 < length ps"
    and free: "\<forall>x < MAXVA. PGROUNDDOWN x = va \<longrightarrow> lookup (ram s) root x AND PTE_V = 0"
  shows "\<exists>s' ps'. mappages root va PGSIZE pa perm s = Ret (0, s') \<and> vm_frame kend root ps s ps' s' \<and> length ps \<le> length ps' + 2 \<and>
    (\<forall>x < MAXVA. lookup (ram s') root x = (if PGROUNDDOWN x = va then PA2PTE pa OR perm OR PTE_V else lookup (ram s) root x))"
proof -
  have eq: "va \<le> y \<and> y \<le> va \<longleftrightarrow> y = va" for y by auto
  obtain r s' ps' b where m: "mappages_loop root va va pa perm s = Ret (r, s')" "vm_frame kend root ps s ps' s'"
    "\<forall>x < MAXVA. lookup (ram s') root x = mapped_upto va b pa perm (lookup (ram s) root) x"
    "r = 0 \<and> b = va + PGSIZE \<or> r = - 1 \<and> b \<le> va \<and> ps' = []" "length ps \<le> length ps' + 2"
    using mappages_loop_spec [OF wf va(1) va(1) order_refl va(2), of pa perm] free by (auto simp: eq)
  then have r: "r = 0" "b = va + PGSIZE" using len by auto
  have in_page: "va \<le> y \<and> y < va + PGSIZE \<longleftrightarrow> y = va" if "page_aligned y" "y < MAXVA" for y
    using page_less_step(2) [OF va(1) that(1) va(2)] eq by simp
  have "lookup (ram s') root x = (if PGROUNDDOWN x = va then PA2PTE pa OR perm OR PTE_V else lookup (ram s) root x)" if "x < MAXVA" for x
    using m(3) that in_page [of "PGROUNDDOWN x"] by (simp add: r(2) mapped_upto_def PGROUNDDOWN_less)
  then show ?thesis using m va(1) unfolding r by (auto simp: mappages_def page_aligned_def)
qed

text \<open>The translations of a new address space: the trampoline, the trapframe, and nothing else.\<close>

definition new_space :: "u64 \<Rightarrow> u64 \<Rightarrow> u64 \<Rightarrow> u64" where
  "new_space trampoline tf x =
     (if PGROUNDDOWN x = TRAMPOLINE then PA2PTE trampoline OR (PTE_R OR PTE_X) OR PTE_V
      else if PGROUNDDOWN x = TRAPFRAME then PA2PTE tf OR (PTE_R OR PTE_W) OR PTE_V
      else 0)"

lemma new_space_user: "new_space trampoline tf x AND PTE_U = 0"
proof -
  have "e AND PTE_U = PTE_FLAGS e AND PTE_U" for e by (simp add: PTE_FLAGS_def and.assoc)
  then have "(PA2PTE y OR z) AND PTE_U = 0" if "z AND PTE_U = 0" "z < 1024" for y z
    using that PTE_FLAGS_PA2PTE [of z y] by metis
  then show ?thesis by (simp add: new_space_def)
qed

lemma create_pagetable_maps:
  assumes f: "free_pages kend s (p # ps)" and len: "4 < length ps"
  shows "\<exists>s' ps'. create_pagetable kend trampoline tf s = Ret (Some p, s') \<and> pt_wf kend s' p ps' \<and>
    (\<forall>x < MAXVA. lookup (ram s') p x = new_space trampoline tf x)"
proof -
  obtain s1 where s1: "vm_create s = (Some p, s1)" "pt_wf kend s1 p ps" "\<And>x. lookup (ram s1) p x = 0"
    using vm_create_wf [OF f] by (cases "vm_create s") auto
  have al: "page_aligned TRAMPOLINE" "page_aligned TRAPFRAME" by (simp_all add: page_aligned_def)
  obtain s2 ps2 where s2: "mappages p TRAMPOLINE PGSIZE trampoline (PTE_R OR PTE_X) s1 = Ret (0, s2)" "pt_wf kend s2 p ps2"
    "length ps \<le> length ps2 + 2"
    "\<forall>x < MAXVA. lookup (ram s2) p x = (if PGROUNDDOWN x = TRAMPOLINE then PA2PTE trampoline OR (PTE_R OR PTE_X) OR PTE_V else 0)"
    using mappages_one [OF s1(2) al(1), of trampoline "PTE_R OR PTE_X"] len s1(3) by (auto simp: vm_frame_def)
  obtain s3 ps3 where s3: "mappages p TRAPFRAME PGSIZE tf (PTE_R OR PTE_W) s2 = Ret (0, s3)" "pt_wf kend s3 p ps3"
    "\<forall>x < MAXVA. lookup (ram s3) p x = (if PGROUNDDOWN x = TRAPFRAME then PA2PTE tf OR (PTE_R OR PTE_W) OR PTE_V else lookup (ram s2) p x)"
    using mappages_one [OF s2(2) al(2), of tf "PTE_R OR PTE_W"] len s2(3,4) by (auto simp: vm_frame_def)
  have "create_pagetable kend trampoline tf s = Ret (Some p, s3)"
    using s1(1) s2(1) s3(1) by (simp add: create_pagetable_def)
  then show ?thesis using s2(4) s3(2,3) by (auto simp: new_space_def)
qed

lemma mkey_pids: "kmem.more t = kmem.more s \<Longrightarrow> processes t = processes s \<and> next_pid t = next_pid s"
  by (cases s, cases t) simp

lemma proc_alloc_spec:
  assumes i: "i < NPROC" "pstate (processes s i) = UNUSED" "\<forall>j < i. pstate (processes s j) \<noteq> UNUSED"
    and f: "free_pages kend s (tf # p # ps)" and len: "4 < length ps"
  shows "\<exists>s' ps'. proc_alloc kend trampoline forkret s = Ret (Some i, s') \<and>
    (let q = processes s' i in pid q = next_pid s \<and> pstate q = USED \<and> trapframe q = tf \<and> pagetable q = p \<and>
       context_ra q = forkret \<and> context_sp q = kstack (processes s i) + PGSIZE) \<and>
    next_pid s' = next_pid s + 1 \<and> (\<forall>j. j \<noteq> i \<longrightarrow> processes s' j = processes s j) \<and>
    pt_wf kend s' p ps' \<and>
    (\<forall>x < MAXVA. lookup (ram s') p x = new_space trampoline tf x \<and> lookup (ram s') p x AND PTE_U = 0)"
proof -
  have find: "find (\<lambda>i. pstate (processes s i) = UNUSED) [0..<NPROC] = Some i"
    by (rule find_upt_first) (use i in auto)
  let ?s0 = "upd_proc i (\<lambda>p. p\<lparr>pid := next_pid s, pstate := USED\<rparr>) (s\<lparr>next_pid := next_pid s + 1\<rparr>)"
  have cong: "free_pages kend u qs" if "free_pages kend v qs" "ram u = ram v" "free_list u = free_list v" for u v :: "'a kprocs_scheme" and qs
    using that by (simp add: free_pages_def)
  have f0: "free_pages kend ?s0 (tf # p # ps)" by (rule cong [OF f]) (simp_all add: upd_proc_def)
  obtain s1 where s1: "page_alloc ?s0 = (Some tf, s1)" "free_pages kend s1 (p # ps)"
    using kernel_pages.alloc_Cons [OF f0] by (metis surj_pair)
  let ?s2 = "upd_proc i (\<lambda>p. p\<lparr>trapframe := tf\<rparr>) s1"
  have f2: "free_pages kend ?s2 (p # ps)" by (rule cong [OF s1(2)]) (simp_all add: upd_proc_def)
  obtain s3 ps' where s3: "create_pagetable kend trampoline tf ?s2 = Ret (Some p, s3)" "pt_wf kend s3 p ps'"
    "\<forall>x < MAXVA. lookup (ram s3) p x = new_space trampoline tf x"
    using create_pagetable_maps [OF f2 len] by blast
  have p1: "processes s1 = processes ?s0 \<and> next_pid s1 = next_pid s + 1"
    using mkey_pids [OF page_alloc_mkey [OF s1(1)]] by (simp add: upd_proc_def)
  have p3: "processes s3 = processes ?s2 \<and> next_pid s3 = next_pid s + 1"
    using mkey_pids [OF create_pagetable_mkey [OF s3(1)]] p1 by (simp add: upd_proc_def)
  let ?s4 = "upd_proc i (\<lambda>q. q\<lparr>pagetable := p, context_ra := forkret, context_sp := kstack q + PGSIZE\<rparr>) s3"
  have "proc_alloc kend trampoline forkret s = Ret (Some i, ?s4)"
    unfolding proc_alloc_def get_next_pid_def find Let_def by (simp add: s1(1) s3(1))
  moreover have "pt_wf kend ?s4 p ps'" using s3(2) cong unfolding pt_wf_def by (simp add: upd_proc_def free_pages_def)
  ultimately show ?thesis using s3(3) p1 p3 new_space_user
    by (intro exI [of _ ?s4] exI [of _ ps']) (auto simp: upd_proc_def)
qed

text \<open>
  C39. With a free slot and seven free pages \<open>alloc\<close> makes a process in the first free slot. It has the next pid and is not yet
  runnable; it starts at \<open>forkret\<close> on its own kernel stack; its page table translates the trampoline, without the permission to write
  it, and its own trapframe page, and nothing else, and no translation is open to the user. No other process changes.
\<close>

theorem proc_alloc_address_space:
  assumes i: "i < NPROC" "pstate (processes s i) = UNUSED" "\<forall>j < i. pstate (processes s j) \<noteq> UNUSED"
    and f: "free_pages kend s (tf # p # ps)" and len: "4 < length ps"
  shows "\<exists>s' ps'. proc_alloc kend trampoline forkret s = Ret (Some i, s') \<and>
    (let q = processes s' i in pid q = next_pid s \<and> pstate q = USED \<and> trapframe q = tf \<and> pagetable q = p \<and>
       context_ra q = forkret \<and> context_sp q = kstack (processes s i) + PGSIZE) \<and>
    next_pid s' = next_pid s + 1 \<and> (\<forall>j. j \<noteq> i \<longrightarrow> processes s' j = processes s j) \<and>
    pt_wf kend s' p ps' \<and>
    (\<forall>x < MAXVA. lookup (ram s') p x = new_space trampoline tf x \<and> lookup (ram s') p x AND PTE_U = 0)"
  by (rule proc_alloc_spec [OF assms])

text \<open>A process table with every slot free, on the small machine.\<close>

definition demo_table :: kprocs where
  "demo_table = \<lparr>ram = ram demo_kmem, free_list = free_list demo_kmem, kernel_pagetable = 0, satp = 0,
     processes = \<lambda>i. \<lparr>pstate = UNUSED, pchan = None, killed = False, xstate = 0, pid = 0, parent = None, kstack = KSTACK i, sz = 0,
       pagetable = 0, trapframe = 0, context_ra = 0, context_sp = 0, ofile = \<lambda>_. None, cwd = None, pname = []\<rparr>,
     next_pid = 1, initprocess = None, ticks = 0\<rparr>"

lemma demo_table_free: "free_pages demo_end demo_table
    [0x80021000, 0x80022000, 0x80023000, 0x80024000, 0x80025000, 0x80026000, 0x80027000]"
  using demo_kmem_free by (simp add: free_pages_def demo_table_def)

theorem proc_alloc_address_space_witness:
  "\<exists>s'. proc_alloc demo_end 0x80000000 0x80001000 demo_table = Ret (Some 0, s') \<and>
     pid (processes s' 0) = 1 \<and> lookup (ram s') 0x80022000 0x1000 = 0"
proof -
  have "\<exists>s' ps'. proc_alloc demo_end 0x80000000 0x80001000 demo_table = Ret (Some 0, s') \<and>
      (let q = processes s' 0 in pid q = next_pid demo_table \<and> pstate q = USED \<and> trapframe q = 0x80021000 \<and> pagetable q = 0x80022000 \<and>
         context_ra q = 0x80001000 \<and> context_sp q = kstack (processes demo_table 0) + PGSIZE) \<and>
      next_pid s' = next_pid demo_table + 1 \<and> (\<forall>j. j \<noteq> 0 \<longrightarrow> processes s' j = processes demo_table j) \<and>
      pt_wf demo_end s' 0x80022000 ps' \<and>
      (\<forall>x < MAXVA. lookup (ram s') 0x80022000 x = new_space 0x80000000 0x80021000 x \<and> lookup (ram s') 0x80022000 x AND PTE_U = 0)"
    by (rule proc_alloc_address_space [OF _ _ _ demo_table_free]) (simp_all add: demo_table_def)
  then show ?thesis by (auto simp: Let_def demo_table_def new_space_def PGROUNDDOWN_def)
qed

end
