(* ===== verification/Scheduling.thy ===== *)
theory Scheduling
  imports Address_Spaces
begin

text \<open>
  The scheduler's loop of \<^verbatim>\<open>kernel/process_scheduler.cpp\<close>, and the processes as a state machine: the steps that change
  the state of a process, with the handshake of \<open>wait\<close> and \<open>exit\<close>.
\<close>

section \<open>The scheduler\<close>

text \<open>
  The loop over the process table. Running a process, from the switch to it until it switches back, is the argument \<open>run_proc\<close>.
  The result is the list of the processes that were run; \<^verbatim>\<open>found\<close> is that it is not empty.
\<close>

fun sched_pass :: "(nat \<Rightarrow> 'a kprocs_scheme \<Rightarrow> 'a kprocs_scheme) \<Rightarrow> nat \<Rightarrow> nat \<Rightarrow> 'a kprocs_scheme \<Rightarrow> nat list \<times> 'a kprocs_scheme" where
  "sched_pass run_proc 0 p s = ([], s)"
| "sched_pass run_proc (Suc k) p s =
     (case sched_visit p s of
        None \<Rightarrow> sched_pass run_proc k (Suc p) s
      | Some s \<Rightarrow> let (ps, s) = sched_pass run_proc k (Suc p) (run_proc p s) in (p # ps, s))"

text \<open>One round of \<open>run\<close>: the pass over the table, and whether the CPU then waits for an interrupt.\<close>

definition scheduler_round :: "(nat \<Rightarrow> 'a kprocs_scheme \<Rightarrow> 'a kprocs_scheme) \<Rightarrow> 'a kprocs_scheme \<Rightarrow> nat list \<times> bool \<times> 'a kprocs_scheme" where
  "scheduler_round run_proc s = (let (ps, s) = sched_pass run_proc NPROC 0 s in (ps, ps = [], s))"

lemma sched_pass_range: "sched_pass r k p s = (ps, t) \<Longrightarrow> set ps \<subseteq> {p..<p + k} \<and> sorted ps \<and> distinct ps"
proof (induction k arbitrary: p s ps t)
  case (Suc k)
  show ?case
  proof (cases "sched_visit p s")
    case None
    then show ?thesis using Suc.IH [of "Suc p" s ps t] Suc.prems by auto
  next
    case (Some s1)
    obtain qs where qs: "sched_pass r k (Suc p) (r p s1) = (qs, t)" "ps = p # qs"
      using Suc.prems Some by (auto simp: Let_def split: prod.splits)
    then show ?thesis using Suc.IH [OF qs(1)] by fastforce
  qed
qed simp

text \<open>
  A process that stays runnable until its turn is run in the pass: the pass comes to it in a state \<open>u\<close> in which what held
  at the start, and what running the others keeps, still holds.
\<close>

lemma sched_pass_reaches:
  assumes I: "\<And>u. I u \<Longrightarrow> pstate (processes u i) = RUNNABLE"
    and run: "\<And>j u. j < i \<Longrightarrow> I u \<Longrightarrow> pstate (processes u j) = RUNNABLE \<Longrightarrow> I (r j (upd_proc j (\<lambda>p. p\<lparr>pstate := RUNNING\<rparr>) u))"
    and i: "p \<le> i" "i < p + k" "I s"
  shows "\<exists>qs u. I u \<and> sched_pass r k p s =
    (let (ps, v) = sched_pass r (p + k - Suc i) (Suc i) (r i (upd_proc i (\<lambda>p. p\<lparr>pstate := RUNNING\<rparr>) u)) in (qs @ i # ps, v))"
  using i
proof (induction k arbitrary: p s)
  case (Suc k)
  show ?case
  proof (cases "p = i")
    case True
    then show ?thesis using Suc.prems(3) I [OF Suc.prems(3)] by (intro exI [of _ "[]"] exI [of _ s]) (simp add: sched_visit_def)
  next
    case False
    then have le: "Suc p \<le> i" "i < Suc p + k" using Suc.prems by auto
    show ?thesis
    proof (cases "pstate (processes s p) = RUNNABLE")
      case True
      let ?s = "r p (upd_proc p (\<lambda>p. p\<lparr>pstate := RUNNING\<rparr>) s)"
      have "I ?s" using run [of p s] le Suc.prems(3) True by simp
      then obtain qs u where u: "I u" "sched_pass r k (Suc p) ?s =
          (let (ps, v) = sched_pass r (Suc p + k - Suc i) (Suc i) (r i (upd_proc i (\<lambda>p. p\<lparr>pstate := RUNNING\<rparr>) u)) in (qs @ i # ps, v))"
        using Suc.IH [OF le] by blast
      then show ?thesis using True
        by (intro exI [of _ "p # qs"] exI [of _ u]) (simp add: sched_visit_def Let_def case_prod_beta)
    qed (use Suc.IH [OF le Suc.prems(3)] in \<open>simp add: sched_visit_def\<close>)
  qed
qed simp

section \<open>Processes as a state machine\<close>

fun wait_state :: "'s wait_result \<Rightarrow> 's" where
  "wait_state (Waited r s) = s"
| "wait_state (Sleeps s) = s"

text \<open>
  The steps of processes. \<open>alloc\<close> and the publication of the new process are the two halves of \<open>fork\<close>; sleeping on
  anything but a process, and the wakeups of such sleepers, belong to the other components.
\<close>

inductive pstep :: "u64 \<Rightarrow> u64 \<Rightarrow> u64 \<Rightarrow> 'a kprocs_scheme \<Rightarrow> 'a kprocs_scheme \<Rightarrow> bool" for kend tr fr where
  Alloc: "proc_alloc kend tr fr s = Ret (r, t) \<Longrightarrow> pstep kend tr fr s t"
| Publish: "pstate (processes s np) = USED \<Longrightarrow>
    pstep kend tr fr s (upd_proc np (\<lambda>p. p\<lparr>parent := Some cur, pstate := RUNNABLE\<rparr>) s)"
| Abandon: "pstate (processes s np) = USED \<Longrightarrow> process_free kend np s = Ret t \<Longrightarrow> pstep kend tr fr s t"
| Wait: "pstate (processes s cur) = RUNNING \<Longrightarrow> wait_scan kend cur addr s = Ret w \<Longrightarrow> pstep kend tr fr s (wait_state w)"
| Exit: "cur < NPROC \<Longrightarrow> pstate (processes s cur) = RUNNING \<Longrightarrow> initprocess s \<noteq> Some cur \<Longrightarrow> pstep kend tr fr s (exit_finish cur st s)"
| Sleep: "pstate (processes s cur) = RUNNING \<Longrightarrow> (\<forall>p. c \<noteq> OnProcess p) \<Longrightarrow> pstep kend tr fr s (sleep_on cur c s)"
| Woken: "pstate (processes s cur) = RUNNING \<Longrightarrow> pstep kend tr fr s (sleep_return cur s)"
| Wakeup: "pstep kend tr fr s (wakeup cur c s)"
| Kill: "kill k s = (r, t) \<Longrightarrow> pstep kend tr fr s t"
| Sched: "sched_visit i s = Some t \<Longrightarrow> pstep kend tr fr s t"
| Yield: "pstate (processes s cur) = RUNNING \<Longrightarrow> pstep kend tr fr s (yield_cpu cur s)"

inductive_cases pstepE: "pstep kend tr fr s t"

text \<open>A process asleep in \<open>wait\<close>, and its exited children.\<close>

definition waiting :: "nat \<Rightarrow> 'a kprocs_scheme \<Rightarrow> bool" where
  "waiting p s \<longleftrightarrow> pstate (processes s p) = SLEEPING \<and> pchan (processes s p) = Some (OnProcess p)"

definition zombie_of :: "nat \<Rightarrow> nat \<Rightarrow> 'a kprocs_scheme \<Rightarrow> bool" where
  "zombie_of i p s \<longleftrightarrow> i < NPROC \<and> parent (processes s i) = Some p \<and> pstate (processes s i) = ZOMBIE"

definition no_lost_child :: "'a kprocs_scheme \<Rightarrow> bool" where
  "no_lost_child s \<longleftrightarrow> (\<forall>p < NPROC. waiting p s \<longrightarrow> (\<forall>i. \<not> zombie_of i p s))"

text \<open>A step that makes no new sleeper in \<open>wait\<close> and no new zombie child keeps the invariant.\<close>

lemma no_lost_child_mono:
  assumes "no_lost_child s" "\<And>p. p < NPROC \<Longrightarrow> waiting p t \<Longrightarrow> waiting p s" "\<And>i p. zombie_of i p t \<Longrightarrow> zombie_of i p s"
  shows "no_lost_child t"
  using assms unfolding no_lost_child_def by blast

lemma no_lost_child_upd:
  assumes "no_lost_child s"
    and "waiting j (upd_proc j f s) \<Longrightarrow> waiting j s" and "\<And>p. zombie_of j p (upd_proc j f s) \<Longrightarrow> zombie_of j p s"
  shows "no_lost_child (upd_proc j f s)"
proof (rule no_lost_child_mono [OF assms(1)])
  fix p assume "waiting p (upd_proc j f s)"
  then show "waiting p s" using assms(2) by (cases "p = j") (auto simp: waiting_def upd_proc_def)
next
  fix i p assume "zombie_of i p (upd_proc j f s)"
  then show "zombie_of i p s" using assms(3) by (cases "i = j") (auto simp: zombie_of_def upd_proc_def)
qed

lemma no_lost_child_cong: "processes t = processes s \<Longrightarrow> no_lost_child t = no_lost_child s"
  by (simp add: no_lost_child_def waiting_def zombie_of_def)

lemma mkey_procs: "kmem.more t = kmem.more s \<Longrightarrow> processes t = processes s \<and> initprocess t = initprocess s"
  by (cases s, cases t) simp

lemma wakeup_lost: "no_lost_child s \<Longrightarrow> no_lost_child (wakeup cur c s)"
  by (rule no_lost_child_mono) (auto simp: waiting_def zombie_of_def wakeup_def Let_def split: if_splits)

lemma proc_free_lost: "no_lost_child s \<Longrightarrow> proc_free kend i s = Ret t \<Longrightarrow> no_lost_child t"
proof -
  assume a: "no_lost_child s" "proc_free kend i s = Ret t"
  obtain s2 where s2: "processes s2 = processes s" "t = upd_proc i reset_process s2"
    using a(2) by (auto simp: proc_free_def elim!: kbind_RetE dest!: mkeys mkey_procs split: if_splits)
  have "no_lost_child s2" using a(1) no_lost_child_cong [OF s2(1)] by simp
  then show ?thesis unfolding s2(2)
    by (rule no_lost_child_upd) (auto simp: waiting_def zombie_of_def upd_proc_def reset_process_def)
qed

lemma process_free_lost: "no_lost_child s \<Longrightarrow> process_free kend i s = Ret t \<Longrightarrow> no_lost_child t"
proof -
  assume a: "no_lost_child s" "process_free kend i s = Ret t"
  obtain s2 where s2: "processes s2 = processes s" "t = upd_proc i reset_process s2"
    using a(2) by (auto simp: process_free_def elim!: kbind_RetE dest!: mkeys mkey_procs split: if_splits)
  have "no_lost_child s2" using a(1) no_lost_child_cong [OF s2(1)] by simp
  then show ?thesis unfolding s2(2)
    by (rule no_lost_child_upd) (auto simp: waiting_def zombie_of_def upd_proc_def reset_process_def)
qed

lemma proc_alloc_lost: "no_lost_child s \<Longrightarrow> proc_alloc kend tr fr s = Ret (r, t) \<Longrightarrow> no_lost_child t"
proof -
  assume a: "no_lost_child s" "proc_alloc kend tr fr s = Ret (r, t)"
  show ?thesis
  proof (cases "find (\<lambda>i. pstate (processes s i) = UNUSED) [0..<NPROC]")
    case None
    then show ?thesis using a by (simp add: proc_alloc_def)
  next
    case (Some i)
    let ?s0 = "upd_proc i (\<lambda>p. p\<lparr>pid := next_pid s, pstate := USED\<rparr>) (s\<lparr>next_pid := next_pid s + 1\<rparr>)"
    have 0: "no_lost_child ?s0"
      by (rule no_lost_child_upd) (use a(1) no_lost_child_cong [of "s\<lparr>next_pid := next_pid s + 1\<rparr>" s] in
        \<open>auto simp: waiting_def zombie_of_def upd_proc_def\<close>)
    have up: "no_lost_child (upd_proc i g s1) = no_lost_child s1"
      if "\<And>p. pstate (g p) = pstate p \<and> pchan (g p) = pchan p \<and> parent (g p) = parent p" for g and s1 :: "'a kprocs_scheme"
    proof -
      have "pstate (processes (upd_proc i g s1) p) = pstate (processes s1 p)" "pchan (processes (upd_proc i g s1) p) = pchan (processes s1 p)"
        "parent (processes (upd_proc i g s1) p) = parent (processes s1 p)" for p
        using that by (simp_all add: upd_proc_def)
      then show ?thesis by (simp add: no_lost_child_def waiting_def zombie_of_def)
    qed
    have m: "kmem.more s1 = kmem.more s2 \<Longrightarrow> no_lost_child s1 = no_lost_child s2" for s1 s2 :: "'a kprocs_scheme"
      using mkey_procs no_lost_child_cong by blast
    show ?thesis using a(2) Some 0 unfolding proc_alloc_def get_next_pid_def Let_def
      by (auto simp: up elim!: kbind_RetE dest!: mkeys m proc_free_lost [rotated] split: prod.splits option.splits)
  qed
qed

text \<open>A parent that goes to sleep in \<open>wait\<close> has just seen that no child has exited.\<close>

lemma wait_scan_lost: "no_lost_child s \<Longrightarrow> wait_scan kend cur addr s = Ret w \<Longrightarrow> no_lost_child (wait_state w)"
proof -
  assume a: "no_lost_child s" "wait_scan kend cur addr s = Ret w"
  show ?thesis
  proof (cases "find (\<lambda>i. parent (processes s i) = Some cur \<and> pstate (processes s i) = ZOMBIE) [0..<NPROC]")
    case None
    have z: "\<not> zombie_of i cur s" for i using find_upt_None [OF None, of i] by (auto simp: zombie_of_def)
    have "no_lost_child (sleep_on cur (OnProcess cur) s)"
      using a(1) z by (auto simp: no_lost_child_def sleep_on_def upd_proc_def waiting_def zombie_of_def split: if_splits)
    then show ?thesis using a None by (auto simp: wait_scan_def split: if_splits)
  next
    case (Some i)
    have m: "copyout_bytes pt va bs s = Ret (r, t) \<Longrightarrow> no_lost_child t" for pt va bs r t
      using a(1) no_lost_child_cong [of t s] by (auto dest!: mkeys mkey_procs)
    show ?thesis using a Some unfolding wait_scan_def Let_def
      by (auto elim!: kbind_RetE dest!: m split: if_splits) (erule (1) proc_free_lost)+
  qed
qed

section \<open>Exit wakes the parent\<close>

lemma wakeup_not_waiting: "p < NPROC \<Longrightarrow> cur \<noteq> Some p \<Longrightarrow> \<not> waiting p (wakeup cur (Some (OnProcess p)) s)"
  by (auto simp: waiting_def wakeup_def Let_def)

lemma wakeup_zombie_of [simp]: "zombie_of i p (wakeup cur c s) = zombie_of i p s"
  by (auto simp: zombie_of_def wakeup_def Let_def)

lemma wakeup_parent [simp]: "parent (processes (wakeup cur c s) i) = parent (processes s i)"
  by (simp add: wakeup_def Let_def)

lemma wakeup_init [simp]: "initprocess (wakeup cur c s) = initprocess s"
  by (simp add: wakeup_def)

lemma upd_proc_init [simp]: "initprocess (upd_proc i f s) = initprocess s"
  by (simp add: upd_proc_def)

lemma reparent_step_lost:
  assumes "no_lost_child s" "initprocess s \<noteq> Some c"
  shows "no_lost_child (wakeup (Some c) (map_option OnProcess (initprocess s)) (upd_proc i (\<lambda>q. q\<lparr>parent := initprocess s\<rparr>) s))"
    (is "no_lost_child (wakeup _ _ ?u)")
  unfolding no_lost_child_def
proof (intro allI impI)
  fix p j assume p: "p < NPROC" and w: "waiting p (wakeup (Some c) (map_option OnProcess (initprocess s)) ?u)"
  have ws: "waiting p s" using w by (auto simp: waiting_def wakeup_def upd_proc_def Let_def split: if_splits)
  then have nz: "\<not> zombie_of j p s" using assms(1) p by (auto simp: no_lost_child_def)
  show "\<not> zombie_of j p (wakeup (Some c) (map_option OnProcess (initprocess s)) ?u)"
  proof (cases "initprocess s = Some p")
    case True
    then show ?thesis using w wakeup_not_waiting [OF p, of "Some c" ?u] assms(2) by auto
  next
    case False
    then show ?thesis using nz by (simp only: wakeup_zombie_of) (auto simp: zombie_of_def upd_proc_def split: if_splits)
  qed
qed

lemma reparent_loop_lost:
  "no_lost_child s \<Longrightarrow> initprocess s \<noteq> Some c \<Longrightarrow> no_lost_child (reparent_loop n i (Some c) p s)"
proof (induction n arbitrary: i s)
  case (Suc n)
  then show ?case using reparent_step_lost [OF Suc.prems, of i] by simp
qed simp

lemma reparent_loop_init [simp]: "initprocess (reparent_loop n i cur p s) = initprocess s"
  by (induction n arbitrary: i s) auto

lemma reparent_loop_parent:
  "initprocess s \<noteq> Some p \<Longrightarrow> parent (processes (reparent_loop n i cur p s) j) =
     (if i \<le> j \<and> j < i + n \<and> parent (processes s j) = Some p then initprocess s else parent (processes s j))"
proof (induction n arbitrary: i s)
  case (Suc n)
  then show ?case by (auto simp: upd_proc_def less_Suc_eq_le not_less_eq_eq)
qed simp

lemma exit_finish_lost:
  assumes "no_lost_child s" "initprocess s \<noteq> Some cur" "cur < NPROC"
  shows "no_lost_child (exit_finish cur st s)"
proof -
  let ?r = "reparent (Some cur) cur s"
  let ?w = "wakeup (Some cur) (map_option OnProcess (parent (processes ?r cur))) ?r"
  have r: "no_lost_child ?r" unfolding reparent_def by (rule reparent_loop_lost) (use assms in auto)
  have pc: "parent (processes ?r cur) \<noteq> Some cur" using assms(2,3) by (simp add: reparent_def reparent_loop_parent)
  have w: "no_lost_child ?w" by (rule wakeup_lost [OF r])
  have "exit_finish cur st s = upd_proc cur (\<lambda>p. p\<lparr>xstate := st, pstate := ZOMBIE\<rparr>) ?w" (is "_ = ?t")
    by (simp add: exit_finish_def Let_def)
  moreover have "no_lost_child ?t" unfolding no_lost_child_def
  proof (intro allI impI)
    fix p j assume p: "p < NPROC" and wt: "waiting p ?t"
    have wp: "p \<noteq> cur" "waiting p ?w" using wt by (auto simp: waiting_def upd_proc_def split: if_splits)
    then have "parent (processes ?r cur) \<noteq> Some p" using wakeup_not_waiting [OF p, of "Some cur" ?r] by auto
    then show "\<not> zombie_of j p ?t" using w p wp
      by (cases "j = cur") (auto simp: zombie_of_def upd_proc_def no_lost_child_def)
  qed
  ultimately show ?thesis by simp
qed

section \<open>Every step keeps the invariant\<close>

lemma upd_calm_lost:
  assumes "no_lost_child s"
    and "let p = processes s j; q = f p in (pstate q = SLEEPING \<and> pchan q = Some (OnProcess j) \<longrightarrow> pstate p = SLEEPING \<and> pchan p = pchan q) \<and>
      (pstate q = ZOMBIE \<longrightarrow> pstate p = ZOMBIE \<and> parent q = parent p)"
  shows "no_lost_child (upd_proc j f s)"
  by (rule no_lost_child_upd [OF assms(1)]) (use assms(2) in \<open>auto simp: Let_def waiting_def zombie_of_def upd_proc_def\<close>)

lemma pstep_lost: "pstep kend tr fr s t \<Longrightarrow> no_lost_child s \<Longrightarrow> no_lost_child t"
proof (induction rule: pstep.induct)
  case (Kill k s r t)
  then show ?case by (auto simp: kill_def Let_def intro!: upd_calm_lost split: option.splits)
next
  case (Sched i s t)
  then show ?case by (auto simp: sched_visit_def Let_def intro!: upd_calm_lost split: if_splits)
qed (auto simp: sleep_on_def sleep_return_def yield_cpu_def Let_def
    intro: proc_alloc_lost process_free_lost wait_scan_lost exit_finish_lost wakeup_lost intro!: upd_calm_lost)

lemma reachable_lost: "(pstep kend tr fr)\<^sup>*\<^sup>* s t \<Longrightarrow> no_lost_child s \<Longrightarrow> no_lost_child t"
  by (induction rule: rtranclp_induct) (auto dest: pstep_lost)

section \<open>The handshake of wait and exit\<close>

lemma wait_scan_zombie:
  assumes "zombie_of c p s"
  shows "\<exists>i. zombie_of i p s \<and> wait_scan kend p 0 s = kbind (proc_free kend i s) (\<lambda>t. Ret (Waited (sint (pid (processes s i))) t))"
    and "wait_scan kend p addr s \<noteq> Ret (Sleeps t)"
proof -
  obtain i where i: "find (\<lambda>i. parent (processes s i) = Some p \<and> pstate (processes s i) = ZOMBIE) [0..<NPROC] = Some i"
    using assms find_upt_None [of "\<lambda>i. parent (processes s i) = Some p \<and> pstate (processes s i) = ZOMBIE" NPROC c]
    by (fastforce simp: zombie_of_def)
  then have z: "zombie_of i p s" by (auto simp: zombie_of_def find_Some_iff)
  show "\<exists>i. zombie_of i p s \<and> wait_scan kend p 0 s = kbind (proc_free kend i s) (\<lambda>t. Ret (Waited (sint (pid (processes s i))) t))"
    by (rule exI [of _ i]) (simp add: z wait_scan_def i)
  show "wait_scan kend p addr s \<noteq> Ret (Sleeps t)"
    by (auto simp: wait_scan_def i Let_def elim!: kbind_RetE split: if_splits)
qed

lemma exit_finish_wakes:
  assumes "c < NPROC" "p < NPROC" "p \<noteq> c" "initprocess s \<noteq> Some c" "parent (processes s c) = Some p" "waiting p s"
  shows "pstate (processes (exit_finish c st s) p) = RUNNABLE" "zombie_of c p (exit_finish c st s)"
proof -
  let ?r = "reparent (Some c) c s"
  have par: "parent (processes ?r c) = Some p" using assms by (simp add: reparent_def reparent_loop_parent)
  have keep: "pstate (processes (reparent_loop n i (Some c) c s') p) \<in> {SLEEPING, RUNNABLE} \<and>
      pchan (processes (reparent_loop n i (Some c) c s') p) = Some (OnProcess p)"
    if "pstate (processes s' p) \<in> {SLEEPING, RUNNABLE}" "pchan (processes s' p) = Some (OnProcess p)" for n i and s' :: "'a kprocs_scheme"
    using that
  proof (induction n arbitrary: i s')
    case (Suc n)
    show ?case unfolding reparent_loop.simps
      by (rule Suc.IH) (use Suc.prems in \<open>cases "initprocess s'"; auto simp: wakeup_def upd_proc_def Let_def split: if_splits\<close>)+
  qed simp
  have "pstate (processes ?r p) \<in> {SLEEPING, RUNNABLE}" "pchan (processes ?r p) = Some (OnProcess p)"
    using keep [of s NPROC 0] assms(6) by (auto simp: reparent_def waiting_def)
  then show "pstate (processes (exit_finish c st s) p) = RUNNABLE" "zombie_of c p (exit_finish c st s)"
    using par assms(1-3) by (auto simp: exit_finish_def Let_def wakeup_def upd_proc_def zombie_of_def)
qed

text \<open>
  C9. No wakeup is lost between \<open>wait\<close> and \<open>exit\<close>. In every state that steps of processes reach from a table with nobody
  asleep, no process sleeps in \<open>wait\<close> while it has an exited child. When a child of a process asleep in \<open>wait\<close> exits, the parent
  is runnable at once; the scheduler's next pass comes to it and runs it, if running the processes before it leaves it runnable
  and the child unreaped; and the scan that it makes then, back from \<open>sleep\<close>, does not sleep again: it frees an
  exited child and returns its pid.
\<close>

theorem exit_reaches_wait:
  assumes reach: "(pstep kend tr fr)\<^sup>*\<^sup>* s0 s" and init: "\<forall>q < NPROC. pstate (processes s0 q) \<noteq> SLEEPING"
    and c: "c < NPROC" "pstate (processes s c) = RUNNING" "initprocess s \<noteq> Some c" "parent (processes s c) = Some p"
    and p: "p < NPROC" "waiting p s"
    and run: "\<And>j u. j < p \<Longrightarrow> pstate (processes u p) = RUNNABLE \<Longrightarrow> zombie_of c p u \<Longrightarrow>
      pstate (processes (run_proc j u) p) = RUNNABLE \<and> zombie_of c p (run_proc j u)"
  shows "(\<forall>q < NPROC. waiting q s \<longrightarrow> (\<forall>i. \<not> zombie_of i q s)) \<and>
    pstate (processes (exit_finish c st s) p) = RUNNABLE \<and> zombie_of c p (exit_finish c st s) \<and>
    (\<exists>qs u ps v. sched_pass run_proc NPROC 0 (exit_finish c st s) = (qs @ p # ps, v) \<and>
      sched_pass run_proc (NPROC - Suc p) (Suc p) (run_proc p u) = (ps, v) \<and> pstate (processes u p) = RUNNING \<and>
      (\<forall>addr t. wait_scan kend p addr (sleep_return p u) \<noteq> Ret (Sleeps t)) \<and>
      (\<exists>i. zombie_of i p u \<and> wait_scan kend p 0 (sleep_return p u) =
         kbind (proc_free kend i (sleep_return p u)) (\<lambda>t. Ret (Waited (sint (pid (processes u i))) t))))"
proof -
  have "no_lost_child s0" using init by (auto simp: no_lost_child_def waiting_def)
  then have inv: "\<forall>q < NPROC. waiting q s \<longrightarrow> (\<forall>i. \<not> zombie_of i q s)" using reachable_lost [OF reach] by (simp add: no_lost_child_def)
  have pc: "p \<noteq> c" using p(2) c(2) by (auto simp: waiting_def)
  let ?t = "exit_finish c st s"
  have t: "pstate (processes ?t p) = RUNNABLE" "zombie_of c p ?t"
    using exit_finish_wakes [OF c(1) p(1) pc c(3) c(4) p(2)] by simp_all
  let ?I = "\<lambda>u. pstate (processes u p) = RUNNABLE \<and> zombie_of c p u"
  have "?I (run_proc j (upd_proc j (\<lambda>p. p\<lparr>pstate := RUNNING\<rparr>) u))" if "j < p" "?I u" "pstate (processes u j) = RUNNABLE" for j u
    by (rule run) (use that in \<open>auto simp: upd_proc_def zombie_of_def\<close>)
  then obtain qs u where u: "?I u" "sched_pass run_proc NPROC 0 ?t = (let (ps, v) = sched_pass run_proc (0 + NPROC - Suc p) (Suc p)
      (run_proc p (upd_proc p (\<lambda>p. p\<lparr>pstate := RUNNING\<rparr>) u)) in (qs @ p # ps, v))"
    using sched_pass_reaches [of ?I p run_proc 0 NPROC ?t] t p(1) by auto
  define w where "w = upd_proc p (\<lambda>p. p\<lparr>pstate := RUNNING\<rparr>) u"
  obtain ps v where pass: "sched_pass run_proc (NPROC - Suc p) (Suc p) (run_proc p w) = (ps, v)" by fastforce
  have pid: "zombie_of i q (sleep_return p w) = zombie_of i q w" "pid (processes (sleep_return p w) i) = pid (processes w i)" for i q
    by (auto simp: zombie_of_def sleep_return_def upd_proc_def)
  have z: "zombie_of c p (sleep_return p w)" unfolding pid(1) using u(1) pc by (auto simp: w_def zombie_of_def upd_proc_def)
  have "sched_pass run_proc NPROC 0 ?t = (qs @ p # ps, v)" "pstate (processes w p) = RUNNING"
    using u(2) pass by (auto simp: w_def [symmetric]) (simp add: w_def upd_proc_def)
  then show ?thesis using inv t pass wait_scan_zombie(1) [OF z, of kend] wait_scan_zombie(2) [OF z] unfolding pid by blast
qed

text \<open>A table in which process 1 is asleep in \<open>wait\<close> and its child, process 2, runs: reached by one scan of \<open>wait\<close>.\<close>

definition demo_family :: kprocs where
  "demo_family = \<lparr>ram = \<lambda>_. 0, free_list = slist_new, kernel_pagetable = 0, satp = 0,
     processes = \<lambda>i. \<lparr>pstate = if i = 1 \<or> i = 2 then RUNNING else UNUSED, pchan = None, killed = False, xstate = 0, pid = of_nat i,
       parent = if i = 2 then Some 1 else None, kstack = 0, sz = 0, pagetable = 0, trapframe = 0, context_ra = 0, context_sp = 0,
       ofile = \<lambda>_. None, cwd = None, pname = []\<rparr>,
     next_pid = 3, initprocess = Some 0, ticks = 0\<rparr>"

theorem exit_reaches_wait_witness:
  "\<exists>qs u ps v. sched_pass yield_cpu NPROC 0 (exit_finish 2 7 (sleep_on 1 (OnProcess 1) demo_family)) = (qs @ 1 # ps, v) \<and>
     sched_pass yield_cpu (NPROC - Suc 1) (Suc 1) (yield_cpu 1 u) = (ps, v) \<and>
     (\<exists>i. zombie_of i 1 u \<and> wait_scan 0 1 0 (sleep_return 1 u) =
       kbind (proc_free 0 i (sleep_return 1 u)) (\<lambda>t. Ret (Waited (sint (pid (processes u i))) t)))"
proof -
  let ?s = "sleep_on 1 (OnProcess 1) demo_family"
  have n: "find (\<lambda>i. parent (processes demo_family i) = Some 1 \<and> pstate (processes demo_family i) = ZOMBIE) [0..<NPROC] = None"
    by (auto simp: find_None_iff demo_family_def)
  have "wait_scan 0 1 0 demo_family = Ret (Sleeps ?s)"
    unfolding wait_scan_def n by (auto simp: demo_family_def intro: bexI [of _ 2])
  then have "pstep 0 0 0 demo_family (wait_state (Sleeps ?s))" by (intro Wait [of _ 1 _ 0]) (simp_all add: demo_family_def)
  then have r: "(pstep 0 0 0)\<^sup>*\<^sup>* demo_family ?s" by simp
  have y: "pstate (processes (yield_cpu j u) 1) = RUNNABLE \<and> zombie_of 2 1 (yield_cpu j u)"
    if "j < 1" "pstate (processes u 1) = RUNNABLE" "zombie_of 2 1 u" for j and u :: kprocs
    using that by (auto simp: yield_cpu_def zombie_of_def upd_proc_def)
  have s: "pstate (processes ?s 2) = RUNNING" "initprocess ?s \<noteq> Some 2" "parent (processes ?s 2) = Some 1" "waiting 1 ?s"
    "\<forall>q < NPROC. pstate (processes demo_family q) \<noteq> SLEEPING"
    by (simp_all add: demo_family_def sleep_on_def upd_proc_def waiting_def)
  show ?thesis using exit_reaches_wait [OF r s(5) _ s(1-3) _ s(4), of yield_cpu 7] y by simp blast
qed

section \<open>Killing pid 0\<close>

text \<open>
  C40. A slot of the table that is not in use has pid 0, and \<open>kill\<close> does not look at the state of a slot. So \<open>kill(0)\<close> reports success
  and marks the first free slot killed; \<open>alloc\<close> does not reset the mark: the next process made in that slot, by \<open>fork\<close>,
  is a killed process before it runs.
\<close>

theorem kill_zero_poisons:
  assumes i: "i < NPROC" "pstate (processes s i) = UNUSED" "pid (processes s i) = 0"
    and first: "\<forall>j < i. pid (processes s j) \<noteq> 0 \<and> pstate (processes s j) \<noteq> UNUSED"
    and alloc: "proc_alloc kend tr fr (snd (kill 0 s)) = Ret (Some np, t)"
  shows "fst (kill 0 s) = 0 \<and> np = i \<and> pstate (processes t np) = USED \<and> get_killed np t"
proof -
  have k: "kill 0 s = (0, upd_proc i (\<lambda>p. p\<lparr>killed := True\<rparr>) s)" (is "_ = (0, ?s)")
    using find_upt_first [OF i(1), of "\<lambda>i. pid (processes s i) = 0"] i first by (simp add: kill_def Let_def upd_proc_def)
  have g: "find (\<lambda>j. pstate (processes ?s j) = UNUSED) [0..<NPROC] = Some i"
    by (rule find_upt_first) (use i first in \<open>auto simp: upd_proc_def\<close>)
  show ?thesis using alloc unfolding k proc_alloc_def get_next_pid_def Let_def snd_conv fst_conv g
    by (auto simp: get_killed_def upd_proc_def elim!: kbind_RetE dest!: mkeys mkey_procs split: prod.splits option.splits)
qed

theorem kill_zero_poisons_witness:
  "\<exists>t. proc_alloc demo_end 0x80000000 0x80001000 (snd (kill 0 demo_table)) = Ret (Some 0, t) \<and> fst (kill 0 demo_table) = 0 \<and> get_killed 0 t"
proof -
  have k: "snd (kill 0 demo_table) = upd_proc 0 (\<lambda>p. p\<lparr>killed := True\<rparr>) demo_table" (is "_ = ?s")
    by (simp add: kill_def demo_table_def upt_conv_Cons upd_proc_def Let_def)
  have f: "free_pages demo_end ?s [0x80021000, 0x80022000, 0x80023000, 0x80024000, 0x80025000, 0x80026000, 0x80027000]"
    using demo_table_free by (simp add: free_pages_def upd_proc_def)
  have u: "pstate (processes ?s 0) = UNUSED" by (simp add: upd_proc_def demo_table_def)
  obtain t where t: "proc_alloc demo_end 0x80000000 0x80001000 ?s = Ret (Some 0, t)"
    using proc_alloc_spec [OF _ u _ f, of "0x80000000" "0x80001000"] by auto
  then show ?thesis using kill_zero_poisons [of 0 demo_table demo_end "0x80000000" "0x80001000" 0 t] by (simp add: k) (simp add: demo_table_def)
qed

end
