(* ===== verification/Ring_Buffers.thy ===== *)
theory Ring_Buffers
  imports Prelude
begin

text \<open>
  Ring buffers with free-running counters, as pipes, the console and the serial line have them: an array of \<open>n\<close> places, a counter of the
  bytes taken and one of the bytes put, both machine words that wrap, and the place of a byte its counter modulo \<open>n\<close>. Also the
  contract of a bounded queue, which the rings are shown to meet.
\<close>

section \<open>The contents of a ring\<close>

definition ring :: "nat \<Rightarrow> (nat \<Rightarrow> 'c) \<Rightarrow> 'w::len word \<Rightarrow> 'w word \<Rightarrow> 'c list" where
  "ring n d r w = map (\<lambda>k. d (unat (r + of_nat k) mod n)) [0..<unat (w - r)]"

lemma length_ring [simp]: "length (ring n d r w) = unat (w - r)"
  by (simp add: ring_def)

lemma ring_empty_iff [simp]: "ring n d r w = [] \<longleftrightarrow> w = r"
  by (simp add: ring_def unat_eq_0)

lemma ring_same [simp]: "ring n d r r = []"
  by simp

lemma ring_put:
  fixes r w :: "'w::len word"
  assumes "n dvd 2 ^ LENGTH('w)" "n < 2 ^ LENGTH('w)" "unat (w - r) < n"
  shows "ring n (d(unat w mod n := c)) r (w + 1) = ring n d r w @ [c]" "unat (w + 1 - r) = Suc (unat (w - r))"
proof -
  let ?m = "unat (w - r)"
  show len: "unat (w + 1 - r) = Suc ?m" using assms by (intro unat_diff_Suc) simp
  have w: "unat w mod n = (unat r + ?m) mod n" using unat_mod_add [OF assms(1), of r ?m] by simp
  have "unat (r + of_nat k) mod n \<noteq> unat w mod n" if "k < ?m" for k
    using mod_eq_less [of "unat r" k n ?m] that assms(3) by (auto simp: unat_mod_add [OF assms(1)] w)
  then show "ring n (d(unat w mod n := c)) r (w + 1) = ring n d r w @ [c]"
    unfolding ring_def len by simp
qed

lemma ring_get:
  fixes r w :: "'w::len word"
  assumes "w \<noteq> r"
  shows "ring n d r w = d (unat r mod n) # ring n d (r + 1) w" "unat (w - (r + 1)) = unat (w - r) - 1"
proof -
  show len: "unat (w - (r + 1)) = unat (w - r) - 1" by (rule unat_diff_pred [OF assms])
  have "unat (w - r) \<noteq> 0" using assms by (simp add: unat_eq_0)
  then obtain m where m: "unat (w - r) = Suc m" using not0_implies_Suc by blast
  then show "ring n d r w = d (unat r mod n) # ring n d (r + 1) w"
    unfolding ring_def len by (simp add: map_upt_Suc_shift add.assoc del: upt_Suc)
qed

lemma ring_last:
  fixes r w :: "'w::len word"
  assumes "w \<noteq> r"
  shows "ring n d r w = ring n d r (w - 1) @ [d (unat (w - 1) mod n)]" "unat (w - 1 - r) = unat (w - r) - 1"
proof -
  have eq: "w - 1 - r = w - r - 1" by simp
  show len: "unat (w - 1 - r) = unat (w - r) - 1" unfolding eq by (rule unat_minus_one) (use assms in simp)
  have "unat (w - r) \<noteq> 0" using assms by (simp add: unat_eq_0)
  then obtain m where m: "unat (w - r) = Suc m" using not0_implies_Suc by blast
  have "of_nat (unat (w - 1 - r)) = (of_nat m :: 'w word)" using len m by simp
  then have "w - 1 - r = of_nat m" by (simp only: word_of_nat_eq_iff of_nat_unat ucast_id)
  then have "r + of_nat m = w - 1" by (simp add: eq_diff_eq diff_eq_eq algebra_simps)
  then show "ring n d r w = ring n d r (w - 1) @ [d (unat (w - 1) mod n)]"
    unfolding ring_def len m by simp
qed

lemma ring_split:
  fixes r m w :: "'w::len word"
  assumes "unat (m - r) \<le> unat (w - r)"
  shows "ring n d r w = ring n d r m @ ring n d m w" "unat (w - m) = unat (w - r) - unat (m - r)"
proof -
  have eq: "w - m = (w - r) - (m - r)" by simp
  show len: "unat (w - m) = unat (w - r) - unat (m - r)"
    unfolding eq by (rule unat_sub) (use assms in \<open>simp add: word_le_nat_alt\<close>)
  have "unat (w - r) = unat (m - r) + unat (w - m)" using len assms by simp
  then have u: "[0..<unat (w - r)] = [0..<unat (m - r)] @ map (\<lambda>k. k + unat (m - r)) [0..<unat (w - m)]"
    using upt_add_eq_append [of 0 "unat (m - r)" "unat (w - m)"] by (simp add: map_add_upt add.commute)
  have "r + of_nat (k + unat (m - r)) = m + of_nat k" for k by simp
  then show "ring n d r w = ring n d r m @ ring n d m w"
    unfolding ring_def u by (simp add: comp_def add.commute)
qed

section \<open>Bounded queues\<close>

text \<open>A bounded first-in first-out queue of bytes, and what every sequence of operations on one does.\<close>

locale bounded_queue =
  fixes put :: "'c \<Rightarrow> 'q \<Rightarrow> 'q"
    and get :: "'q \<Rightarrow> 'q"
    and front :: "'q \<Rightarrow> 'c"
    and contents :: "'q \<Rightarrow> 'c list"
    and ok :: "'q \<Rightarrow> bool"
    and cap :: nat
  assumes cap: "ok q \<Longrightarrow> length (contents q) \<le> cap"
    and put: "ok q \<Longrightarrow> length (contents q) < cap \<Longrightarrow> ok (put c q) \<and> contents (put c q) = contents q @ [c]"
    and get: "ok q \<Longrightarrow> contents q \<noteq> [] \<Longrightarrow> ok (get q) \<and> front q = hd (contents q) \<and> contents (get q) = tl (contents q)"
begin

fun puts :: "'c list \<Rightarrow> 'q \<Rightarrow> 'q" where
  "puts [] q = q"
| "puts (c # cs) q = puts cs (put c q)"

fun gets :: "nat \<Rightarrow> 'q \<Rightarrow> 'c list \<times> 'q" where
  "gets 0 q = ([], q)"
| "gets (Suc n) q = (let (cs, q') = gets n (get q) in (front q # cs, q'))"

lemma puts_contents:
  "ok q \<Longrightarrow> length (contents q) + length cs \<le> cap \<Longrightarrow> ok (puts cs q) \<and> contents (puts cs q) = contents q @ cs"
  by (induction cs arbitrary: q) (use put in auto)

lemma gets_contents:
  "ok q \<Longrightarrow> n \<le> length (contents q) \<Longrightarrow>
    ok (snd (gets n q)) \<and> fst (gets n q) = take n (contents q) \<and> contents (snd (gets n q)) = drop n (contents q)"
proof (induction n arbitrary: q)
  case (Suc n)
  then have ne: "contents q \<noteq> []" by auto
  obtain cs q' where g: "gets n (get q) = (cs, q')" by fastforce
  have "ok q' \<and> cs = take n (tl (contents q)) \<and> contents q' = drop n (tl (contents q))"
    using Suc.IH [of "get q"] get [OF Suc.prems(1) ne] Suc.prems(2) g by auto
  then show ?case using g get [OF Suc.prems(1) ne] ne by (cases "contents q") auto
qed simp

end

end
