(* ===== verification/Pipes.thy ===== *)
theory Pipes
  imports Fs_Blocks Ring_Buffers
begin

text \<open>
  \<^verbatim>\<open>kernel/pipe.cpp\<close>: a ring buffer of \<open>PIPESIZE\<close> bytes whose 32-bit counters wrap. A pointer to a pipe
  is its index in the table of \<^verbatim>\<open>kernel/file_manager.h\<close>. A read or a write either finishes or goes to sleep;
  when it is woken it goes on where it was: a read starts again, a write continues with the bytes
  that are left.
\<close>

section \<open>State and operations\<close>

abbreviation (input) PIPESIZE :: nat where "PIPESIZE \<equiv> 512"

record pipe =
  pdata :: "nat \<Rightarrow> u8"
  nread :: u32
  nwrite :: u32
  readopen :: bool
  writeopen :: bool

record kpipes = kfs +
  pipes :: "nat \<Rightarrow> pipe"

definition upd_pipe :: "nat \<Rightarrow> (pipe \<Rightarrow> pipe) \<Rightarrow> 'a kpipes_scheme \<Rightarrow> 'a kpipes_scheme" where
  "upd_pipe p f s = s\<lparr>pipes := (pipes s)(p := f (pipes s p))\<rparr>"

text \<open>The outcome of a transfer: finished with a return value, or asleep after \<open>i\<close> bytes.\<close>

datatype 's xfer = Finished int 's | Waiting nat 's

definition pipe_close :: "nat \<Rightarrow> nat \<Rightarrow> bool \<Rightarrow> 'a kpipes_scheme \<Rightarrow> 'a kpipes_scheme" where
  "pipe_close cur p w s =
     (if w then wakeup (Some cur) (Some (OnPipeRead p)) (upd_pipe p (\<lambda>x. x\<lparr>writeopen := False\<rparr>) s)
      else wakeup (Some cur) (Some (OnPipeWrite p)) (upd_pipe p (\<lambda>x. x\<lparr>readopen := False\<rparr>) s))"

text \<open>\<^verbatim>\<open>data[nread++ % PIPESIZE]\<close> and \<^verbatim>\<open>data[nwrite++ % PIPESIZE] = ch\<close>.\<close>

definition pipe_peek :: "pipe \<Rightarrow> u8" where
  "pipe_peek x = pdata x (unat (nread x) mod PIPESIZE)"

definition pipe_get :: "pipe \<Rightarrow> pipe" where
  "pipe_get x = x\<lparr>nread := nread x + 1\<rparr>"

definition pipe_put :: "u8 \<Rightarrow> pipe \<Rightarrow> pipe" where
  "pipe_put c x = x\<lparr>pdata := (pdata x)(unat (nwrite x) mod PIPESIZE := c), nwrite := nwrite x + 1\<rparr>"

text \<open>The copy loop of \<open>read\<close>, with \<open>k\<close> rounds left after \<open>i\<close>.\<close>

fun pipe_read_loop :: "nat \<Rightarrow> nat \<Rightarrow> u64 \<Rightarrow> nat \<Rightarrow> nat \<Rightarrow> 'a kpipes_scheme \<Rightarrow> (nat \<times> 'a kpipes_scheme) res" where
  "pipe_read_loop cur p addr 0 i s = Ret (i, s)"
| "pipe_read_loop cur p addr (Suc k) i s =
     (if nread (pipes s p) = nwrite (pipes s p) then Ret (i, s)
      else let ch = pipe_peek (pipes s p); s = upd_pipe p pipe_get s in
        kbind (copyout_bytes (pagetable (processes s cur)) (addr + of_nat i) [ch] s) (\<lambda>(r, s).
          if r = - 1 then Ret (i, s) else pipe_read_loop cur p addr k (Suc i) s))"

definition pipe_read :: "nat \<Rightarrow> nat \<Rightarrow> u64 \<Rightarrow> int \<Rightarrow> 'a kpipes_scheme \<Rightarrow> 'a kpipes_scheme xfer res" where
  "pipe_read cur p addr n s =
     (if nread (pipes s p) = nwrite (pipes s p) \<and> writeopen (pipes s p)
      then if get_killed cur s then Ret (Finished (- 1) s) else Ret (Waiting 0 (sleep_on cur (OnPipeRead p) s))
      else kbind (pipe_read_loop cur p addr (nat n) 0 s) (\<lambda>(i, s).
        Ret (Finished (int i) (wakeup (Some cur) (Some (OnPipeWrite p)) s))))"

fun pipe_write_loop :: "nat \<Rightarrow> nat \<Rightarrow> u64 \<Rightarrow> nat \<Rightarrow> nat \<Rightarrow> 'a kpipes_scheme \<Rightarrow> 'a kpipes_scheme xfer res" where
  "pipe_write_loop cur p addr 0 i s = Ret (Finished (int i) (wakeup (Some cur) (Some (OnPipeRead p)) s))"
| "pipe_write_loop cur p addr (Suc k) i s =
     (if \<not> readopen (pipes s p) \<or> get_killed cur s then Ret (Finished (- 1) s)
      else if nwrite (pipes s p) = nread (pipes s p) + of_nat PIPESIZE
      then Ret (Waiting i (sleep_on cur (OnPipeWrite p) (wakeup (Some cur) (Some (OnPipeRead p)) s)))
      else kbind (copyin_bytes (pagetable (processes s cur)) (addr + of_nat i) 1 s) (\<lambda>r. case r of
          None \<Rightarrow> Ret (Finished (int i) (wakeup (Some cur) (Some (OnPipeRead p)) s))
        | Some bs \<Rightarrow> pipe_write_loop cur p addr k (Suc i) (upd_pipe p (pipe_put (hd bs)) s)))"

text \<open>A write of \<open>n\<close> bytes from the byte \<open>i\<close> on: 0 for a new call, the byte reached for one that was asleep.\<close>

definition pipe_write :: "nat \<Rightarrow> nat \<Rightarrow> u64 \<Rightarrow> int \<Rightarrow> nat \<Rightarrow> 'a kpipes_scheme \<Rightarrow> 'a kpipes_scheme xfer res" where
  "pipe_write cur p addr n i s = pipe_write_loop cur p addr (nat n - i) i s"

section \<open>The ring as a queue\<close>

definition pipe_contents :: "pipe \<Rightarrow> u8 list" where
  "pipe_contents x = ring PIPESIZE (pdata x) (nread x) (nwrite x)"

definition pipe_ok :: "pipe \<Rightarrow> bool" where
  "pipe_ok x \<longleftrightarrow> unat (nwrite x - nread x) \<le> PIPESIZE"

lemma length_pipe_contents [simp]: "length (pipe_contents x) = unat (nwrite x - nread x)"
  by (simp add: pipe_contents_def)

interpretation pq: bounded_queue pipe_put pipe_get pipe_peek pipe_contents pipe_ok PIPESIZE
proof
  fix q c
  assume ok: "pipe_ok q"
  then show "length (pipe_contents q) \<le> PIPESIZE" by (simp add: pipe_ok_def)
  show "pipe_ok (pipe_put c q) \<and> pipe_contents (pipe_put c q) = pipe_contents q @ [c]" if "length (pipe_contents q) < PIPESIZE"
    using that ring_put(1) [of PIPESIZE "nwrite q" "nread q" "pdata q" c] ring_put(2) [of PIPESIZE "nwrite q" "nread q"]
    by (simp add: pipe_contents_def pipe_ok_def pipe_put_def)
  show "pipe_ok (pipe_get q) \<and> pipe_peek q = hd (pipe_contents q) \<and> pipe_contents (pipe_get q) = tl (pipe_contents q)"
    if "pipe_contents q \<noteq> []"
    using ok that ring_get(1) [of "nwrite q" "nread q" PIPESIZE "pdata q"] ring_get(2) [of "nwrite q" "nread q"]
    by (simp add: pipe_contents_def pipe_ok_def pipe_get_def pipe_peek_def)
qed

section \<open>Copies to and from user memory\<close>

text \<open>The copies depend on memory and the page table only, and change nothing but memory.\<close>

abbreviation (input) bare :: "mem \<Rightarrow> kmem" where "bare m \<equiv> \<lparr>ram = m, free_list = slist_new\<rparr>"

lemma walk_loop_bare: "walk_loop l pt va False s = kbind (walk_loop l pt va False (bare (ram s))) (\<lambda>(r, _). Ret (r, s))"
  by (induction l arbitrary: pt) (auto simp: Let_def)

lemma walk_bare: "walk pt va False s = kbind (walk pt va False (bare (ram s))) (\<lambda>(r, _). Ret (r, s))"
  using walk_loop_bare [of 2 pt va s] by (simp add: walk_def)

lemma walk_ram: "walk pt va False s = Ret (r, s') \<Longrightarrow> s' = s"
  by (subst (asm) walk_bare) (auto simp: kbind_Ret_iff)

lemma walkaddr_bare: "walkaddr pt va s = walkaddr pt va (bare (ram s))"
proof (cases "va \<ge> MAXVA")
  case False
  have "kbind (walk pt va False s) (\<lambda>(pte, s). case pte of None \<Rightarrow> Ret 0 | Some pte \<Rightarrow> F (load64 (ram s) pte)) =
      kbind (walk pt va False (bare (ram s))) (\<lambda>(pte, s). case pte of None \<Rightarrow> Ret 0 | Some pte \<Rightarrow> F (load64 (ram s) pte))" for F :: "u64 \<Rightarrow> u64 res"
    by (subst walk_bare, subst (2) walk_bare) (simp add: kbind_assoc case_prod_unfold cong: option.case_cong)
  from this [of "\<lambda>e. if e AND PTE_V = 0 then Ret 0 else if e AND PTE_U = 0 then Ret 0 else Ret (PTE2PA e)"]
  show ?thesis unfolding walkaddr_def Let_def using False by simp
qed (simp add: walkaddr_def)

lemma copyin_bytes_bare: "copyin_bytes pt va n s = copyin_bytes pt va n (bare (ram s))"
proof (induction pt va n s rule: copyin_bytes.induct)
  case (1 pt va n s)
  show ?case
    by (subst copyin_bytes.simps, subst (2) copyin_bytes.simps)
      (auto simp: Let_def walkaddr_bare [of _ _ s] 1 cong: if_cong intro!: kbind_cong)
qed

lemma copyout_bytes_bare:
  "copyout_bytes pt va bs s = kbind (copyout_bytes pt va bs (bare (ram s))) (\<lambda>(r, t). Ret (r, s\<lparr>ram := ram t\<rparr>))"
proof (induction "length bs" arbitrary: va bs s rule: less_induct)
  case less
  show ?case
  proof (cases "bs = [] \<or> PGROUNDDOWN va \<ge> MAXVA")
    case True
    then show ?thesis by (subst copyout_bytes.simps, subst (2) copyout_bytes.simps) auto
  next
    case False
    let ?va = "PGROUNDDOWN va" let ?n = "4096 - unat (va - ?va)"
    have "unat va mod 4096 < 4096" "0 < length bs" using False by auto
    then have lt: "length (drop ?n bs) < length bs" unfolding unat_page_offset length_drop by linarith
    have unf: "copyout_bytes pt va bs u = kbind (walk pt ?va False u) (\<lambda>(pte, s). case pte of None \<Rightarrow> Ret (- 1, s)
        | Some pte \<Rightarrow> let e = load64 (ram s) pte in
            if e AND PTE_V = 0 \<or> e AND PTE_U = 0 \<or> e AND PTE_W = 0 then Ret (- 1, s)
            else copyout_bytes pt (?va + PGSIZE) (drop ?n bs) (s\<lparr>ram := wrbytes (ram s) (PTE2PA e + (va - ?va)) (take ?n bs)\<rparr>))" for u :: "'b kmem_scheme"
      unfolding copyout_bytes.simps [of pt va bs u] Let_def using False by simp
    show ?thesis
    proof (cases "walk pt ?va False (bare (ram s))")
      case (Ret y)
      then obtain r where r: "walk pt ?va False (bare (ram s)) = Ret (r, bare (ram s))" using walk_ram by (metis surj_pair)
      then have rs: "walk pt ?va False s = Ret (r, s)" by (subst walk_bare) simp
      have IH: "copyout_bytes pt (?va + PGSIZE) (drop ?n bs) (s\<lparr>ram := m\<rparr>) =
          kbind (copyout_bytes pt (?va + PGSIZE) (drop ?n bs) (bare m)) (\<lambda>(r, t). Ret (r, s\<lparr>ram := ram t\<rparr>))" for m
        using less [OF lt, of "?va + PGSIZE" "s\<lparr>ram := m\<rparr>"] by simp
      show ?thesis unfolding unf r rs using IH by (cases r) (simp_all add: Let_def)
    next
      case (Panic m)
      then have "walk pt ?va False s = Panic m" by (subst walk_bare) simp
      then show ?thesis unfolding unf Panic by simp
    next
      case Blocked
      then have "walk pt ?va False s = Blocked" by (subst walk_bare) simp
      then show ?thesis unfolding unf Blocked by simp
    qed
  qed
qed

section \<open>Transfers\<close>

lemma upd_pipe_fields [simp]:
  "pipes (upd_pipe p f s) = (pipes s)(p := f (pipes s p))" "ram (upd_pipe p f s) = ram s" "processes (upd_pipe p f s) = processes s"
  by (simp_all add: upd_pipe_def)

lemma pipe_full_iff: "pipe_ok x \<Longrightarrow> nwrite x = nread x + of_nat PIPESIZE \<longleftrightarrow> length (pipe_contents x) = PIPESIZE"
proof -
  assume "pipe_ok x"
  have "nwrite x = nread x + 512 \<longleftrightarrow> nwrite x - nread x = 512" by (auto simp: algebra_simps)
  also have "\<dots> \<longleftrightarrow> unat (nwrite x - nread x) = unat (512 :: u32)" by (metis word_unatI)
  finally show ?thesis by simp
qed

lemma pipe_empty_iff: "nread x = nwrite x \<longleftrightarrow> pipe_contents x = []"
  by (auto simp: pipe_contents_def)

text \<open>The bytes of user memory that a write takes, one \<open>copyin\<close> each.\<close>

definition user_bytes :: "u64 \<Rightarrow> u64 \<Rightarrow> u8 list \<Rightarrow> mem \<Rightarrow> bool" where
  "user_bytes pt va bs m \<longleftrightarrow> (\<forall>j < length bs. copyin_bytes pt (va + of_nat j) 1 (bare m) = Ret (Some [bs ! j]))"

lemma user_bytes_Cons: "user_bytes pt va (b # bs) m \<longleftrightarrow> copyin_bytes pt va 1 (bare m) = Ret (Some [b]) \<and> user_bytes pt (va + 1) bs m"
proof -
  have "(\<forall>j < Suc (length bs). P j) \<longleftrightarrow> P 0 \<and> (\<forall>j < length bs. P (Suc j))" for P :: "nat \<Rightarrow> bool" by (metis less_Suc_eq_0_disj)
  then show ?thesis by (simp add: user_bytes_def algebra_simps)
qed

lemma pipe_write_loop_queue:
  assumes "pipe_ok (pipes s p)" "readopen (pipes s p)" "\<not> get_killed cur s"
    and "user_bytes (pagetable (processes s cur)) (addr + of_nat i) bs (ram s)"
    and "free = PIPESIZE - length (pipe_contents (pipes s p))"
  shows "\<exists>s'. pipe_contents (pipes s' p) = pipe_contents (pipes s p) @ take free bs \<and> pipe_ok (pipes s' p) \<and>
     (if length bs \<le> free then pipe_write_loop cur p addr (length bs) i s = Ret (Finished (int (i + length bs)) s')
      else pipe_write_loop cur p addr (length bs) i s = Ret (Waiting (i + free) s') \<and>
        pstate (processes s' cur) = SLEEPING \<and> pchan (processes s' cur) = Some (OnPipeWrite p))"
  using assms
proof (induction bs arbitrary: i s free)
  case Nil
  then show ?case by (auto simp: wakeup_def)
next
  case (Cons b bs)
  let ?c = "pipe_contents (pipes s p)"
  show ?case
  proof (cases "length ?c = PIPESIZE")
    case True
    then have "nwrite (pipes s p) = nread (pipes s p) + 512" using pipe_full_iff [OF Cons.prems(1)] by simp
    then show ?thesis using True Cons.prems(1-3,5) by (auto simp: sleep_on_def upd_proc_def wakeup_def)
  next
    case False
    then have lt: "length ?c < PIPESIZE" using pq.cap [OF Cons.prems(1)] by simp
    have nf: "\<not> nwrite (pipes s p) = nread (pipes s p) + of_nat PIPESIZE" using pipe_full_iff [OF Cons.prems(1)] False by blast
    let ?s = "upd_pipe p (pipe_put b) s"
    note q = pq.put [OF Cons.prems(1) lt, of b]
    have r: "readopen (pipes ?s p)" "\<not> get_killed cur ?s" using Cons.prems(2,3) by (simp_all add: pipe_put_def get_killed_def)
    have u: "copyin_bytes (pagetable (processes s cur)) (addr + of_nat i) 1 s = Ret (Some [b])"
      "user_bytes (pagetable (processes ?s cur)) (addr + of_nat (Suc i)) bs (ram ?s)"
      using Cons.prems(4) copyin_bytes_bare [of _ _ _ s] by (simp_all add: user_bytes_Cons algebra_simps)
    have step: "pipe_write_loop cur p addr (length (b # bs)) i s = pipe_write_loop cur p addr (length bs) (Suc i) ?s"
      using Cons.prems(2,3) nf u(1) by simp
    have f: "free = Suc (PIPESIZE - length (pipe_contents (pipes ?s p)))" using q lt Cons.prems(5) by simp
    show ?thesis unfolding step f using Cons.IH [OF _ r u(2) refl] q by auto
  qed
qed

text \<open>
  C18. Writing to a pipe appends to a queue of \<open>PIPESIZE\<close> bytes. When the bytes fit, \<open>pipe::write\<close> returns
  their number and has appended exactly the user's bytes in order; otherwise it fills the queue with
  the first of them and sleeps, remembering how many it has written. The counters may wrap at any time.
\<close>

theorem pipe_write_queue:
  assumes "pipe_ok (pipes s p)" "readopen (pipes s p)" "\<not> get_killed cur s" "int i \<le> n"
    and "user_bytes (pagetable (processes s cur)) (addr + of_nat i) bs (ram s)" "length bs = nat n - i"
  defines "free \<equiv> PIPESIZE - length (pipe_contents (pipes s p))"
  shows "\<exists>s'. pipe_contents (pipes s' p) = pipe_contents (pipes s p) @ take free bs \<and> pipe_ok (pipes s' p) \<and>
     (if length bs \<le> free then pipe_write cur p addr n i s = Ret (Finished n s')
      else pipe_write cur p addr n i s = Ret (Waiting (i + free) s') \<and>
        pstate (processes s' cur) = SLEEPING \<and> pchan (processes s' cur) = Some (OnPipeWrite p))"
proof -
  have "int (i + length bs) = n" using assms(4,6) by simp
  then show ?thesis using pipe_write_loop_queue [OF assms(1-3,5) refl] unfolding pipe_write_def assms(6) [symmetric] free_def by metis
qed

text \<open>The effect on memory of copying bytes out one at a time, when each copy succeeds.\<close>

fun user_put :: "u64 \<Rightarrow> u64 \<Rightarrow> u8 list \<Rightarrow> mem \<Rightarrow> mem option" where
  "user_put pt va [] m = Some m"
| "user_put pt va (b # bs) m =
     (case copyout_bytes pt va [b] (bare m) of
        Ret (r, t) \<Rightarrow> if r = - 1 then None else user_put pt (va + 1) bs (ram t)
      | _ \<Rightarrow> None)"

lemma pipe_read_loop_queue:
  assumes "pipe_ok (pipes s p)"
    and "user_put (pagetable (processes s cur)) (addr + of_nat i) (take k (pipe_contents (pipes s p))) (ram s) = Some m"
  shows "\<exists>s'. pipe_read_loop cur p addr k i s = Ret (i + min k (length (pipe_contents (pipes s p))), s') \<and> ram s' = m \<and>
    pipe_ok (pipes s' p) \<and> pipe_contents (pipes s' p) = drop k (pipe_contents (pipes s p)) \<and> processes s' = processes s"
  using assms
proof (induction k arbitrary: i s)
  case (Suc k)
  show ?case
  proof (cases "pipe_contents (pipes s p)")
    case Nil
    then show ?thesis using Suc.prems pipe_empty_iff [of "pipes s p"] by auto
  next
    case (Cons b bs)
    let ?s = "upd_pipe p pipe_get s"
    have ne: "pipe_contents (pipes s p) \<noteq> []" "nread (pipes s p) \<noteq> nwrite (pipes s p)" using Cons pipe_empty_iff by auto
    have g: "pipe_ok (pipe_get (pipes s p))" "pipe_peek (pipes s p) = b" "pipe_contents (pipe_get (pipes s p)) = bs"
      using pq.get [OF Suc.prems(1) ne(1)] Cons by auto
    let ?pt = "pagetable (processes s cur)"
    obtain r t where c: "copyout_bytes ?pt (addr + of_nat i) [b] (bare (ram s)) = Ret (r, t)" "r \<noteq> - 1"
      "user_put ?pt (addr + of_nat i + 1) (take k bs) (ram t) = Some m"
      using Suc.prems(2) Cons by (auto split: res.splits if_splits)
    let ?t = "?s\<lparr>ram := ram t\<rparr>"
    have co: "copyout_bytes ?pt (addr + of_nat i) [b] ?s = Ret (r, ?t)" using c(1) by (subst copyout_bytes_bare) simp
    have "user_put (pagetable (processes ?t cur)) (addr + of_nat (Suc i)) (take k (pipe_contents (pipes ?t p))) (ram ?t) = Some m"
      using c(3) g by (simp add: algebra_simps)
    then obtain s' where s': "pipe_read_loop cur p addr k (Suc i) ?t = Ret (Suc i + min k (length bs), s')" "ram s' = m"
      "pipe_ok (pipes s' p)" "pipe_contents (pipes s' p) = drop k bs" "processes s' = processes s"
      using Suc.IH [of ?t "Suc i"] g by auto
    have "pipe_read_loop cur p addr (Suc k) i s = pipe_read_loop cur p addr k (Suc i) ?t"
      using ne(2) g(2) co c(2) by (simp add: Let_def)
    then show ?thesis using s' Cons by simp
  qed
qed auto

text \<open>
  C19. Reading from a pipe takes from the front of the queue. A read of an empty pipe that still has a
  writer sleeps, or fails if the process has been killed. Otherwise \<open>pipe::read\<close> returns as many bytes
  as there are, up to \<open>n\<close>: the first bytes of the queue have been copied out to the user's memory in
  order, and exactly they have left the queue. At the end of a pipe without writers it returns 0.
\<close>

theorem pipe_read_queue:
  assumes "pipe_ok (pipes s p)"
    and "user_put (pagetable (processes s cur)) addr (take (nat n) (pipe_contents (pipes s p))) (ram s) = Some m"
  shows "if pipe_contents (pipes s p) = [] \<and> writeopen (pipes s p)
    then (if get_killed cur s then pipe_read cur p addr n s = Ret (Finished (- 1) s)
      else pipe_read cur p addr n s = Ret (Waiting 0 (sleep_on cur (OnPipeRead p) s)))
    else \<exists>s'. pipe_read cur p addr n s = Ret (Finished (int (min (nat n) (length (pipe_contents (pipes s p))))) s') \<and>
      ram s' = m \<and> pipe_ok (pipes s' p) \<and> pipe_contents (pipes s' p) = drop (nat n) (pipe_contents (pipes s p))"
proof (cases "pipe_contents (pipes s p) = [] \<and> writeopen (pipes s p)")
  case True
  then show ?thesis using pipe_empty_iff [of "pipes s p"] by (simp add: pipe_read_def)
next
  case False
  obtain s' where s': "pipe_read_loop cur p addr (nat n) 0 s = Ret (min (nat n) (length (pipe_contents (pipes s p))), s')" "ram s' = m"
    "pipe_ok (pipes s' p)" "pipe_contents (pipes s' p) = drop (nat n) (pipe_contents (pipes s p))"
    using pipe_read_loop_queue [OF assms(1), of cur addr 0 "nat n" m] assms(2) by auto
  have "\<not> (nread (pipes s p) = nwrite (pipes s p) \<and> writeopen (pipes s p))" using False pipe_empty_iff by blast
  then have "pipe_read cur p addr n s = Ret (Finished (int (min (nat n) (length (pipe_contents (pipes s p))))) (wakeup (Some cur) (Some (OnPipeWrite p)) s'))"
    unfolding pipe_read_def s'(1) by auto
  then show ?thesis unfolding if_not_P [OF False] using s'(2-4) by (auto simp: wakeup_def)
qed

section \<open>Examples\<close>

text \<open>A page table that maps the user page at 0x1000 to 0x80024000, readable and writable.\<close>

lemma disjoint_blocksI:
  assumes "unat a + n \<le> unat b" "unat b + k \<le> 2 ^ 64"
  shows "disjoint_blocks a n b k"
  unfolding disjoint_blocks_def
proof (intro allI notI)
  fix x assume x: "unat (x - a) < n \<and> unat (x - b) < k"
  have d: "unat (b - a) = unat b - unat a" using assms(1) by (simp add: unat_sub word_le_nat_alt)
  have e: "(x - a) - (b - a) = x - b" by simp
  have "unat ((x - a) - (b - a)) = unat (x - a) + 2 ^ 64 - unat (b - a)"
    using x d assms(1) by (subst unat_sub_if') auto
  then show False using x assms unfolding e d by linarith
qed

definition demo_umem :: mem where
  "demo_umem = store64 (store64 (store64 (\<lambda>x. ucast x) 0x80023008 0x20009017) 0x80022000 0x20008c01) 0x80021000 0x20008801"

lemma disjoint_sym: "disjoint_blocks a n b k \<Longrightarrow> disjoint_blocks b k a n" by (auto simp: disjoint_blocks_def)

lemma demo_disj: "disjoint_blocks 0x80022000 8 0x80021000 8" "disjoint_blocks 0x80023008 8 0x80021000 8" "disjoint_blocks 0x80023008 8 0x80022000 8"
  by (rule disjoint_sym, rule disjoint_blocksI; simp)+

lemma demo_loads: "load64 demo_umem 0x80021000 = 0x20008801" "load64 demo_umem 0x80022000 = 0x20008c01" "load64 demo_umem 0x80023008 = 0x20009017"
  unfolding demo_umem_def by (simp_all add: load64_store64_other demo_disj)

lemma walk_loop_valid:
  "pte_addr pt (PX (Suc l) va) \<noteq> 0 \<Longrightarrow> load64 (ram s) (pte_addr pt (PX (Suc l) va)) AND PTE_V \<noteq> 0 \<Longrightarrow>
    walk_loop (Suc l) pt va False s = walk_loop l (PTE2PA (load64 (ram s) (pte_addr pt (PX (Suc l) va)))) va False s"
  by (simp add: Let_def)

lemma demo_walk_at:
  assumes "load64 (ram s) 0x80021000 = 0x20008801" "load64 (ram s) 0x80022000 = 0x20008c01"
  shows "walk 0x80021000 0x1000 False s = Ret (Some 0x80023008, s)"
proof -
  have p: "PX 2 0x1000 = 0" "PX 1 0x1000 = 0" "PX 0 0x1000 = 1" "PTE2PA 0x20008801 = 0x80022000" "PTE2PA 0x20008c01 = 0x80023000"
    by (simp_all add: PX_def PXSHIFT_def PTE2PA_def)
  have 0: "walk_loop 0 0x80023000 0x1000 False s = Ret (Some 0x80023008, s)" by (simp add: pte_addr_def p)
  have 1: "walk_loop (Suc 0) 0x80022000 0x1000 False s = walk_loop 0 0x80023000 0x1000 False s"
    using walk_loop_valid [of "0x80022000" 0 "0x1000" s] p by (simp add: pte_addr_def assms del: walk_loop.simps)
  have 2: "walk_loop (Suc 1) 0x80021000 0x1000 False s = walk_loop 1 0x80022000 0x1000 False s"
    using walk_loop_valid [of "0x80021000" 1 "0x1000" s] p by (simp add: pte_addr_def assms flip: numeral_2_eq_2 del: walk_loop.simps)
  have "walk_loop 2 0x80021000 0x1000 False s = Ret (Some 0x80023008, s)"
    using 0 1 2 by (metis One_nat_def numeral_2_eq_2)
  then show ?thesis by (simp add: walk_def)
qed

lemma demo_walk: "walk 0x80021000 0x1000 False (bare demo_umem) = Ret (Some 0x80023008, bare demo_umem)"
  by (rule demo_walk_at) (simp_all add: demo_loads)

lemma demo_user: "demo_umem 0x80024000 = 0" "demo_umem 0x80024001 = 1"
  unfolding demo_umem_def store64_def by (simp_all add: wrbytes_def bytes_of_u64_def)

lemma demo_copyin: "copyin_bytes 0x80021000 0x1000 1 (bare demo_umem) = Ret (Some [0])" "copyin_bytes 0x80021000 0x1001 1 (bare demo_umem) = Ret (Some [1])"
proof -
  have r: "PGROUNDDOWN 0x1000 = 0x1000" "PGROUNDDOWN 0x1001 = 0x1000" by (simp_all add: PGROUNDDOWN_def)
  have w: "walkaddr 0x80021000 0x1000 (bare demo_umem) = Ret 0x80024000"
    by (simp add: walkaddr_def demo_walk demo_loads PTE2PA_def)
  show "copyin_bytes 0x80021000 0x1000 1 (bare demo_umem) = Ret (Some [0])" "copyin_bytes 0x80021000 0x1001 1 (bare demo_umem) = Ret (Some [1])"
   by (subst copyin_bytes.simps, simp add: Let_def copyin_bytes.simps rdbytes_def r w demo_user)+
qed

lemma demo_copyout: "\<exists>t. copyout_bytes 0x80021000 0x1000 [b] (bare demo_umem) = Ret (0, t) \<and> ram t = demo_umem(0x80024000 := b)"
proof -
  have r: "PGROUNDDOWN 0x1000 = 0x1000" by (simp add: PGROUNDDOWN_def)
  have "wrbytes demo_umem 0x80024000 [b] = demo_umem(0x80024000 := b)" by (auto simp: wrbytes_def fun_eq_iff unat_eq_zero)
  then show ?thesis by (subst copyout_bytes.simps) (simp add: Let_def copyout_bytes.simps r demo_walk demo_loads PTE2PA_def)
qed

definition demo_pipe :: pipe where
  "demo_pipe = \<lparr>pdata = (\<lambda>_. 9), nread = 0xFFFFFFFF, nwrite = 0, readopen = True, writeopen = True\<rparr>"

definition demo_pipes :: "pipe \<Rightarrow> kpipes" where
  "demo_pipes x = kfs.extend (demo_fs\<lparr>ram := demo_umem,
     processes := (\<lambda>_. demo_proc\<lparr>pid := 1, pstate := RUNNING, pagetable := 0x80021000\<rparr>)\<rparr>) (kpipes.fields (\<lambda>_. x))"

lemma demo_pipes_fields:
  "ram (demo_pipes x) = demo_umem" "pipes (demo_pipes x) p = x" "pagetable (processes (demo_pipes x) i) = 0x80021000"
  "\<not> get_killed i (demo_pipes x)"
  by (simp_all add: demo_pipes_def kfs.defs kpipes.defs get_killed_def demo_proc_def)

lemma demo_pipe_contents: "pipe_contents demo_pipe = [9]" "pipe_ok demo_pipe"
  by (simp_all add: pipe_contents_def ring_def pipe_ok_def demo_pipe_def)

theorem pipe_write_queue_witness:
  "\<exists>s'. pipe_write 0 0 0x1000 2 0 (demo_pipes demo_pipe) = Ret (Finished 2 s') \<and> pipe_contents (pipes s' 0) = [9, 0, 1]"
proof -
  have u: "user_bytes (pagetable (processes (demo_pipes demo_pipe) 0)) (0x1000 + of_nat 0) [0, 1] (ram (demo_pipes demo_pipe))"
    unfolding demo_pipes_fields by (simp add: user_bytes_Cons demo_copyin [unfolded One_nat_def]) (simp add: user_bytes_def)
  show ?thesis
    using pipe_write_queue [where p = 0 and n = 2, OF _ _ _ _ u] demo_pipe_contents
    by (auto simp: demo_pipes_fields demo_pipe_def)
qed

theorem pipe_read_queue_witness:
  "\<exists>s'. pipe_read 0 0 0x1000 5 (demo_pipes demo_pipe) = Ret (Finished 1 s') \<and> ram s' = demo_umem(0x80024000 := 9) \<and>
     pipe_contents (pipes s' 0) = []"
proof -
  obtain t where t: "copyout_bytes 0x80021000 0x1000 [9] (bare demo_umem) = Ret (0, t)" "ram t = demo_umem(0x80024000 := 9)"
    using demo_copyout by blast
  have u: "user_put (pagetable (processes (demo_pipes demo_pipe) 0)) 0x1000 (take (nat 5) (pipe_contents (pipes (demo_pipes demo_pipe) 0)))
      (ram (demo_pipes demo_pipe)) = Some (demo_umem(0x80024000 := 9))"
    using t by (simp add: demo_pipes_fields demo_pipe_contents)
  show ?thesis using pipe_read_queue [OF _ u] by (auto simp: demo_pipes_fields demo_pipe_contents)
qed

end
