(* ===== verification/Files.thy ===== *)
theory Files
  imports Pipes
begin

text \<open>
  Open files: \<^verbatim>\<open>kernel/file.cpp\<close>, \<^verbatim>\<open>kernel/file_manager.cpp\<close> and the guards of
  \<^verbatim>\<open>kernel/file_ref_guard.h\<close>, \<^verbatim>\<open>kernel/inode_ref_guard.h\<close>, \<^verbatim>\<open>kernel/inode_lock_guard.h\<close> and
  \<^verbatim>\<open>kernel/log_op_guard.h\<close>. A pointer to a file is its index in the table. The device switch \<open>devsw\<close> is
  an argument: for each major number the functions that the driver has registered. A guard's
  destructor is a call at the end of its scope, in the reverse order of the declarations.
\<close>

section \<open>State\<close>

datatype file_type = FD_NONE | FD_PIPE | FD_INODE | FD_DEVICE

record ofile_t =
  f_type :: file_type
  f_ref :: u32
  f_readable :: bool
  f_writable :: bool
  f_pp :: "nat option"
  f_ip :: "nat option"
  f_off :: u32
  f_major :: u16

record kfiles = kpipes +
  files :: "nat \<Rightarrow> ofile_t"

record 's device =
  dev_read :: "(u64 \<Rightarrow> int \<Rightarrow> 's \<Rightarrow> 's xfer res) option"
  dev_write :: "(u64 \<Rightarrow> int \<Rightarrow> 's \<Rightarrow> 's xfer res) option"

definition upd_file :: "nat \<Rightarrow> (ofile_t \<Rightarrow> ofile_t) \<Rightarrow> 'a kfiles_scheme \<Rightarrow> 'a kfiles_scheme" where
  "upd_file f g s = s\<lparr>files := (files s)(f := g (files s f))\<rparr>"

definition file_new :: ofile_t where
  "file_new = \<lparr>f_type = FD_NONE, f_ref = 0, f_readable = False, f_writable = False, f_pp = None, f_ip = None,
     f_off = 0, f_major = - 1\<rparr>"

section \<open>Guards\<close>

text \<open>The scope of a \<open>log_op_guard\<close>.\<close>

definition with_op :: "nat \<Rightarrow> ('a kfs_scheme \<Rightarrow> ('b \<times> 'a kfs_scheme) res) \<Rightarrow> 'a kfs_scheme \<Rightarrow> ('b \<times> 'a kfs_scheme) res" where
  "with_op cur f s =
     kbind (begin_op s) (\<lambda>s. kbind (f s) (\<lambda>(r, s). kbind (end_op cur s) (\<lambda>s. Ret (r, s))))"

text \<open>The destructor of an \<open>inode_ref_guard\<close>, and the scope of an \<open>inode_lock_guard\<close>.\<close>

definition iput_opt :: "nat \<Rightarrow> nat option \<Rightarrow> 'a kfs_scheme \<Rightarrow> 'a kfs_scheme res" where
  "iput_opt cur ip s = (case ip of None \<Rightarrow> Ret s | Some ip \<Rightarrow> iput cur ip s)"

definition with_lock :: "nat \<Rightarrow> nat \<Rightarrow> ('a kfs_scheme \<Rightarrow> ('b \<times> 'a kfs_scheme) res) \<Rightarrow> 'a kfs_scheme \<Rightarrow> ('b \<times> 'a kfs_scheme) res" where
  "with_lock cur ip f s =
     kbind (ilock cur ip s) (\<lambda>s. kbind (f s) (\<lambda>(r, s). kbind (iunlock cur ip s) (\<lambda>s. Ret (r, s))))"

section \<open>Operations on files\<close>

definition file_close :: "nat \<Rightarrow> nat \<Rightarrow> 'a kfiles_scheme \<Rightarrow> 'a kfiles_scheme res" where
  "file_close cur f s =
     (let ff = files s f in
      if f_ref ff < 1 then Panic ''fileclose''
      else if f_ref ff - 1 > 0 then Ret (upd_file f (\<lambda>x. x\<lparr>f_ref := f_ref x - 1\<rparr>) s)
      else let s = upd_file f (\<lambda>x. x\<lparr>f_ref := 0, f_type := FD_NONE\<rparr>) s in
        case f_type ff of
          FD_PIPE \<Rightarrow> (case f_pp ff of None \<Rightarrow> Panic ''null pipe'' | Some p \<Rightarrow> Ret (pipe_close cur p (f_writable ff) s))
        | FD_NONE \<Rightarrow> Ret s
        | _ \<Rightarrow> kbind (with_op cur (\<lambda>s. kbind (iput_opt cur (f_ip ff) s) (\<lambda>s. Ret ((), s))) s) (\<lambda>(_, s). Ret s))"

definition file_dup :: "nat \<Rightarrow> 'a kfiles_scheme \<Rightarrow> 'a kfiles_scheme res" where
  "file_dup f s =
     (if f_ref (files s f) < 1 then Panic ''filedup'' else Ret (upd_file f (\<lambda>x. x\<lparr>f_ref := f_ref x + 1\<rparr>) s))"

text \<open>The destructor of a \<open>file_ref_guard\<close>.\<close>

definition close_opt :: "nat \<Rightarrow> nat option \<Rightarrow> 'a kfiles_scheme \<Rightarrow> 'a kfiles_scheme res" where
  "close_opt cur f s = (case f of None \<Rightarrow> Ret s | Some f \<Rightarrow> file_close cur f s)"

definition dev_of :: "(nat \<Rightarrow> 's device) \<Rightarrow> u16 \<Rightarrow> 's device option" where
  "dev_of devsw major = (if sint major < 0 \<or> sint major \<ge> int NDEV then None else Some (devsw (nat (sint major))))"

definition file_read :: "(nat \<Rightarrow> 'a kfiles_scheme device) \<Rightarrow> nat \<Rightarrow> nat \<Rightarrow> u64 \<Rightarrow> int \<Rightarrow> 'a kfiles_scheme \<Rightarrow> 'a kfiles_scheme xfer res" where
  "file_read devsw cur f addr n s =
     (let ff = files s f in
      if \<not> f_readable ff then Ret (Finished (- 1) s)
      else case f_type ff of
          FD_PIPE \<Rightarrow> (case f_pp ff of None \<Rightarrow> Panic ''null pipe'' | Some p \<Rightarrow> pipe_read cur p addr n s)
        | FD_DEVICE \<Rightarrow> (case Option.bind (dev_of devsw (f_major ff)) dev_read of
              None \<Rightarrow> Ret (Finished (- 1) s)
            | Some rd \<Rightarrow> rd addr n s)
        | FD_INODE \<Rightarrow>
            (case f_ip ff of None \<Rightarrow> Panic ''null inode'' | Some ip \<Rightarrow>
            kbind (with_lock cur ip (\<lambda>s.
              kbind (readi cur ip (User addr) (f_off (files s f)) (word_of_int n) s) (\<lambda>(r, _, s).
                Ret (r, if r > 0 then upd_file f (\<lambda>x. x\<lparr>f_off := f_off x + word_of_int r\<rparr>) s else s))) s) (\<lambda>(r, s).
              Ret (Finished r s)))
        | FD_NONE \<Rightarrow> Panic ''fileread'')"

definition file_stat :: "nat \<Rightarrow> nat \<Rightarrow> u64 \<Rightarrow> 'a kfiles_scheme \<Rightarrow> (int \<times> 'a kfiles_scheme) res" where
  "file_stat cur f addr s =
     (if f_type (files s f) = FD_INODE \<or> f_type (files s f) = FD_DEVICE
      then case f_ip (files s f) of None \<Rightarrow> Panic ''null inode'' | Some ip \<Rightarrow>
        with_lock cur ip (\<lambda>s.
          kbind (copyout_bytes (pagetable (processes s cur)) addr (stati ip s) s) (\<lambda>(r, s).
            Ret (if r < 0 then - 1 else 0, s))) s
      else Ret (- 1, s))"

abbreviation (input) write_max :: int where "write_max \<equiv> 3 * 1024"

text \<open>One round of the loop of \<open>write\<close>: a transaction of at most \<open>max\<close> bytes.\<close>

definition file_write_round :: "nat \<Rightarrow> nat \<Rightarrow> u64 \<Rightarrow> int \<Rightarrow> int \<Rightarrow> 'a kfiles_scheme \<Rightarrow> (int \<times> 'a kfiles_scheme) res" where
  "file_write_round cur f addr i n1 s =
     (case f_ip (files s f) of None \<Rightarrow> Panic ''null inode'' | Some ip \<Rightarrow>
     with_op cur (with_lock cur ip (\<lambda>s.
       kbind (writei cur ip (User (addr + word_of_int i)) (f_off (files s f)) (word_of_int n1) s) (\<lambda>(r, s).
         Ret (r, if r > 0 then upd_file f (\<lambda>x. x\<lparr>f_off := f_off x + word_of_int r\<rparr>) s else s)))) s)"

function file_write_loop :: "nat \<Rightarrow> nat \<Rightarrow> u64 \<Rightarrow> int \<Rightarrow> int \<Rightarrow> 'a kfiles_scheme \<Rightarrow> (int \<times> 'a kfiles_scheme) res" where
  "file_write_loop cur f addr n i s =
     (if i < n
      then let n1 = min (n - i) write_max in
        kbind (file_write_round cur f addr i n1 s) (\<lambda>(r, s).
          if r \<noteq> n1 then Ret (i, s) else file_write_loop cur f addr n (i + r) s)
      else Ret (i, s))"
  by pat_completeness auto
termination
  by (relation "measure (\<lambda>(cur, f, addr, n, i, s). nat (n - i))") auto

declare file_write_loop.simps [simp del]

definition file_write :: "(nat \<Rightarrow> 'a kfiles_scheme device) \<Rightarrow> nat \<Rightarrow> nat \<Rightarrow> u64 \<Rightarrow> int \<Rightarrow> 'a kfiles_scheme \<Rightarrow> 'a kfiles_scheme xfer res" where
  "file_write devsw cur f addr n s =
     (let ff = files s f in
      if \<not> f_writable ff then Ret (Finished (- 1) s)
      else case f_type ff of
          FD_PIPE \<Rightarrow> (case f_pp ff of None \<Rightarrow> Panic ''null pipe'' | Some p \<Rightarrow> pipe_write cur p addr n 0 s)
        | FD_DEVICE \<Rightarrow> (case Option.bind (dev_of devsw (f_major ff)) dev_write of
              None \<Rightarrow> Ret (Finished (- 1) s)
            | Some wr \<Rightarrow> wr addr n s)
        | FD_INODE \<Rightarrow> kbind (file_write_loop cur f addr n 0 s) (\<lambda>(i, s). Ret (Finished (if i = n then n else - 1) s))
        | FD_NONE \<Rightarrow> Panic ''filewrite'')"

section \<open>Allocation\<close>

definition alloc_file :: "'a kfiles_scheme \<Rightarrow> nat option \<times> 'a kfiles_scheme" where
  "alloc_file s =
     (case find (\<lambda>f. f_ref (files s f) = 0) [0..<NFILE] of
        None \<Rightarrow> (None, s)
      | Some f \<Rightarrow> (Some f, upd_file f (\<lambda>x. x\<lparr>f_ref := 1\<rparr>) s))"

definition alloc_pipe :: "nat \<Rightarrow> 'a kfiles_scheme \<Rightarrow> ((nat \<times> nat) option \<times> 'a kfiles_scheme) res" where
  "alloc_pipe cur s =
     (let (f0, s) = alloc_file s; (f1, s) = (if f0 = None then (None, s) else alloc_file s) in
      case (f0, f1) of
        (Some a, Some b) \<Rightarrow>
          (case find (\<lambda>p. \<not> readopen (pipes s p) \<and> \<not> writeopen (pipes s p)) [0..<NFILE div 2] of
             None \<Rightarrow> kbind (file_close cur b s) (\<lambda>s. kbind (file_close cur a s) (\<lambda>s. Ret (None, s)))
           | Some p \<Rightarrow> Ret (Some (a, b),
               upd_file b (\<lambda>x. x\<lparr>f_type := FD_PIPE, f_readable := False, f_writable := True, f_pp := Some p\<rparr>)
               (upd_file a (\<lambda>x. x\<lparr>f_type := FD_PIPE, f_readable := True, f_writable := False, f_pp := Some p\<rparr>)
               (upd_pipe p (\<lambda>x. x\<lparr>readopen := True, writeopen := True, nwrite := 0, nread := 0\<rparr>) s))))
      | _ \<Rightarrow> kbind (close_opt cur f1 s) (\<lambda>s. kbind (close_opt cur f0 s) (\<lambda>s. Ret (None, s))))"

end
