(* ===== verification/Sysfile.thy ===== *)
theory Sysfile
  imports Files
begin

text \<open>
  The arguments of system calls (\<^verbatim>\<open>kernel/syscall.cpp\<close>) and the system calls on files
  (\<^verbatim>\<open>kernel/sysfile.cpp\<close>). The user registers are in the process's trapframe page. A string argument in
  a local array is the list of its bytes before the NUL. Where the code leaves a scope early, the
  destructors of the guards run in the reverse order of their declarations; here they are written out.
\<close>

section \<open>Arguments\<close>

abbreviation (input) MAXPATH :: nat where "MAXPATH \<equiv> 128"
abbreviation (input) MAXARG :: nat where "MAXARG \<equiv> 32"

abbreviation (input) tf_epc :: u64 where "tf_epc \<equiv> 24"
abbreviation (input) tf_sp :: u64 where "tf_sp \<equiv> 48"

definition tf_a :: "nat \<Rightarrow> u64" where
  "tf_a n = 112 + 8 * of_nat n"

definition get_tf :: "nat \<Rightarrow> u64 \<Rightarrow> 'a kprocs_scheme \<Rightarrow> u64" where
  "get_tf cur r s = load64 (ram s) (trapframe (processes s cur) + r)"

definition set_tf :: "nat \<Rightarrow> u64 \<Rightarrow> u64 \<Rightarrow> 'a kprocs_scheme \<Rightarrow> 'a kprocs_scheme" where
  "set_tf cur r v s = s\<lparr>ram := store64 (ram s) (trapframe (processes s cur) + r) v\<rparr>"

definition argraw :: "nat \<Rightarrow> nat \<Rightarrow> 'a kprocs_scheme \<Rightarrow> u64 res" where
  "argraw cur n s = (if n < 6 then Ret (get_tf cur (tf_a n) s) else Panic ''argraw'')"

definition argint :: "nat \<Rightarrow> nat \<Rightarrow> 'a kprocs_scheme \<Rightarrow> int res" where
  "argint cur n s = kbind (argraw cur n s) (\<lambda>v. Ret (sint (ucast v :: u32)))"

definition argaddr :: "nat \<Rightarrow> nat \<Rightarrow> 'a kprocs_scheme \<Rightarrow> u64 res" where
  "argaddr cur n s = argraw cur n s"

definition fetchaddr :: "nat \<Rightarrow> u64 \<Rightarrow> 'a kprocs_scheme \<Rightarrow> u64 option res" where
  "fetchaddr cur addr s =
     (let p = processes s cur in
      if addr \<ge> sz p \<or> addr + 8 > sz p then Ret None
      else kbind (copyin_bytes (pagetable p) addr 8 s) (\<lambda>r. Ret (map_option le_word r)))"

text \<open>\<open>copyinstr\<close> into a local array of \<open>mx\<close> bytes: the string, or \<open>None\<close> for the return value -1.\<close>

function copyinstr_bytes :: "u64 \<Rightarrow> u64 \<Rightarrow> nat \<Rightarrow> 'a kmem_scheme \<Rightarrow> u8 list option res" where
  "copyinstr_bytes pt srcva mx s =
     (if mx = 0 then Ret None
      else let va0 = PGROUNDDOWN srcva; n = min (4096 - unat (srcva - va0)) mx in
        kbind (walkaddr pt va0 s) (\<lambda>pa0.
          if pa0 = 0 then Ret None
          else let bs = rdbytes (ram s) (pa0 + (srcva - va0)) n in
            if 0 \<in> set bs then Ret (Some (takeWhile (\<lambda>b. b \<noteq> 0) bs))
            else kbind (copyinstr_bytes pt (va0 + PGSIZE) (mx - n) s) (\<lambda>r. Ret (map_option ((@) bs) r))))"
  by pat_completeness auto
termination
  by (relation "measure (\<lambda>(pt, srcva, mx, s). mx)") (auto simp: unat_page_offset)

declare copyinstr_bytes.simps [simp del]

definition fetchstr :: "nat \<Rightarrow> u64 \<Rightarrow> nat \<Rightarrow> 'a kprocs_scheme \<Rightarrow> u8 list option res" where
  "fetchstr cur addr mx s = copyinstr_bytes (pagetable (processes s cur)) addr mx s"

definition argstr :: "nat \<Rightarrow> nat \<Rightarrow> nat \<Rightarrow> 'a kprocs_scheme \<Rightarrow> u8 list option res" where
  "argstr cur n mx s = kbind (argaddr cur n s) (\<lambda>addr. fetchstr cur addr mx s)"

definition get_ofile :: "nat \<Rightarrow> nat \<Rightarrow> 'a kprocs_scheme \<Rightarrow> nat option" where
  "get_ofile cur fd s = ofile (processes s cur) fd"

definition set_ofile :: "nat \<Rightarrow> nat \<Rightarrow> nat option \<Rightarrow> 'a kprocs_scheme \<Rightarrow> 'a kprocs_scheme" where
  "set_ofile cur fd f s = upd_proc cur (\<lambda>p. p\<lparr>ofile := (ofile p)(fd := f)\<rparr>) s"

definition argfd :: "nat \<Rightarrow> nat \<Rightarrow> 'a kprocs_scheme \<Rightarrow> (nat \<times> nat) option res" where
  "argfd cur n s =
     kbind (argint cur n s) (\<lambda>fd.
       if fd < 0 \<or> fd \<ge> int NOFILE then Ret None
       else Ret (map_option (Pair (nat fd)) (get_ofile cur (nat fd) s)))"

definition fdalloc :: "nat \<Rightarrow> nat \<Rightarrow> 'a kprocs_scheme \<Rightarrow> nat option \<times> 'a kprocs_scheme" where
  "fdalloc cur f s =
     (case find (\<lambda>fd. get_ofile cur fd s = None) [0..<NOFILE] of
        None \<Rightarrow> (None, s)
      | Some fd \<Rightarrow> (Some fd, set_ofile cur fd (Some f) s))"

section \<open>Calls on descriptors\<close>

definition sys_dup :: "nat \<Rightarrow> 'a kfiles_scheme \<Rightarrow> (int \<times> 'a kfiles_scheme) res" where
  "sys_dup cur s =
     kbind (argfd cur 0 s) (\<lambda>a. case a of
       None \<Rightarrow> Ret (- 1, s)
     | Some (_, f) \<Rightarrow> (case fdalloc cur f s of
           (None, s) \<Rightarrow> Ret (- 1, s)
         | (Some fd, s) \<Rightarrow> kbind (file_dup f s) (\<lambda>s. Ret (int fd, s))))"

definition sys_read :: "(nat \<Rightarrow> 'a kfiles_scheme device) \<Rightarrow> nat \<Rightarrow> 'a kfiles_scheme \<Rightarrow> 'a kfiles_scheme xfer res" where
  "sys_read devsw cur s =
     kbind (argaddr cur 1 s) (\<lambda>p. kbind (argint cur 2 s) (\<lambda>n. kbind (argfd cur 0 s) (\<lambda>a. case a of
       None \<Rightarrow> Ret (Finished (- 1) s)
     | Some (_, f) \<Rightarrow> file_read devsw cur f p n s)))"

definition sys_write :: "(nat \<Rightarrow> 'a kfiles_scheme device) \<Rightarrow> nat \<Rightarrow> 'a kfiles_scheme \<Rightarrow> 'a kfiles_scheme xfer res" where
  "sys_write devsw cur s =
     kbind (argaddr cur 1 s) (\<lambda>p. kbind (argint cur 2 s) (\<lambda>n. kbind (argfd cur 0 s) (\<lambda>a. case a of
       None \<Rightarrow> Ret (Finished (- 1) s)
     | Some (_, f) \<Rightarrow> file_write devsw cur f p n s)))"

definition sys_close :: "nat \<Rightarrow> 'a kfiles_scheme \<Rightarrow> (int \<times> 'a kfiles_scheme) res" where
  "sys_close cur s =
     kbind (argfd cur 0 s) (\<lambda>a. case a of
       None \<Rightarrow> Ret (- 1, s)
     | Some (fd, f) \<Rightarrow> kbind (file_close cur f (set_ofile cur fd None s)) (\<lambda>s. Ret (0, s)))"

definition sys_fstat :: "nat \<Rightarrow> 'a kfiles_scheme \<Rightarrow> (int \<times> 'a kfiles_scheme) res" where
  "sys_fstat cur s =
     kbind (argaddr cur 1 s) (\<lambda>st. kbind (argfd cur 0 s) (\<lambda>a. case a of
       None \<Rightarrow> Ret (- 1, s)
     | Some (_, f) \<Rightarrow> file_stat cur f st s))"

definition sys_pipe :: "nat \<Rightarrow> 'a kfiles_scheme \<Rightarrow> (int \<times> 'a kfiles_scheme) res" where
  "sys_pipe cur s =
     kbind (argaddr cur 0 s) (\<lambda>fdarray. kbind (alloc_pipe cur s) (\<lambda>(r, s). case r of
       None \<Rightarrow> Ret (- 1, s)
     | Some (r_f, w_f) \<Rightarrow>
         let fail = (\<lambda>s. kbind (file_close cur w_f s) (\<lambda>s. kbind (file_close cur r_f s) (\<lambda>s. Ret (- 1, s)))) in
         case fdalloc cur r_f s of
           (None, s) \<Rightarrow> fail s
         | (Some fd0, s) \<Rightarrow> (case fdalloc cur w_f s of
               (None, s) \<Rightarrow> fail (set_ofile cur fd0 None s)
             | (Some fd1, s) \<Rightarrow>
                 let undo = (\<lambda>s. fail (set_ofile cur fd1 None (set_ofile cur fd0 None s))) in
                 kbind (copyout_bytes (pagetable (processes s cur)) fdarray (le_bytes 4 (of_nat fd0 :: u32)) s) (\<lambda>(r, s).
                   if r < 0 then undo s
                   else kbind (copyout_bytes (pagetable (processes s cur)) (fdarray + 4) (le_bytes 4 (of_nat fd1 :: u32)) s) (\<lambda>(r, s).
                     if r < 0 then undo s else Ret (0, s))))))"

section \<open>Links\<close>

abbreviation (input) add_nlink :: "u16 \<Rightarrow> dinode \<Rightarrow> dinode" where
  "add_nlink k x \<equiv> x\<lparr>d_nlink := d_nlink x + k\<rparr>"

text \<open>
  The part of \<open>sys_link\<close> that holds a reference to the inode \<open>ip\<close> of the old path: count the link, enter
  it in the new directory, and undo the count if that fails.
\<close>

definition link_new :: "nat \<Rightarrow> nat \<Rightarrow> u8 list \<Rightarrow> nat option \<Rightarrow> 'a kfs_scheme \<Rightarrow> (bool \<times> 'a kfs_scheme) res" where
  "link_new cur ip name dp s =
     (case dp of
        None \<Rightarrow> Ret (False, s)
      | Some dp \<Rightarrow> with_lock cur dp (\<lambda>s.
          if i_dev (inodes s dp) = i_dev (inodes s ip)
          then kbind (dirlink cur dp name (i_inum (inodes s ip)) s) (\<lambda>(r, s). Ret (r \<ge> 0, s))
          else Ret (False, s)) s)"

definition link_inode :: "nat \<Rightarrow> nat \<Rightarrow> u8 list \<Rightarrow> 'a kfs_scheme \<Rightarrow> (int \<times> 'a kfs_scheme) res" where
  "link_inode cur ip newp s =
     kbind (ilock cur ip s) (\<lambda>s.
       if d_type (din s ip) = T_DIR then kbind (iunlock cur ip s) (\<lambda>s. Ret (- 1, s))
       else
         kbind (iupdate cur ip (upd_din ip (add_nlink 1) s)) (\<lambda>s.
         kbind (iunlock cur ip s) (\<lambda>s.
         kbind (nameiparent cur newp s) (\<lambda>(dp, name, s).
         kbind (link_new cur ip name dp s) (\<lambda>(ok, s).
           if ok then kbind (iput_opt cur dp s) (\<lambda>s. Ret (0, s))
           else
             kbind (ilock cur ip s) (\<lambda>s.
             kbind (iupdate cur ip (upd_din ip (add_nlink (- 1)) s)) (\<lambda>s.
             kbind (iput_opt cur dp s) (\<lambda>s.
             kbind (iunlock cur ip s) (\<lambda>s. Ret (- 1, s))))))))))"

definition sys_link :: "nat \<Rightarrow> 'a kfiles_scheme \<Rightarrow> (int \<times> 'a kfiles_scheme) res" where
  "sys_link cur s =
     kbind (argstr cur 0 MAXPATH s) (\<lambda>old. case old of None \<Rightarrow> Ret (- 1, s) | Some old \<Rightarrow>
     kbind (argstr cur 1 MAXPATH s) (\<lambda>newp. case newp of None \<Rightarrow> Ret (- 1, s) | Some newp \<Rightarrow>
       with_op cur (\<lambda>s.
         kbind (namei cur old s) (\<lambda>(ip, s). case ip of None \<Rightarrow> Ret (- 1, s) | Some ip \<Rightarrow>
           kbind (link_inode cur ip newp s) (\<lambda>(r, s). kbind (iput cur ip s) (\<lambda>s. Ret (r, s))))) s))"

function isdirempty_loop :: "nat \<Rightarrow> nat \<Rightarrow> nat \<Rightarrow> nat \<Rightarrow> 'a kfs_scheme \<Rightarrow> (bool \<times> 'a kfs_scheme) res" where
  "isdirempty_loop cur dp sz0 off s =
     (if off < sz0
      then kbind (read_dirent cur dp off ''isdirempty: readi'' s) (\<lambda>(de, s).
        if dirent_inum de \<noteq> 0 then Ret (False, s) else isdirempty_loop cur dp sz0 (off + DIRENT_SIZE) s)
      else Ret (True, s))"
  by pat_completeness auto
termination
  by (relation "measure (\<lambda>(cur, dp, sz0, off, s). sz0 - off)") auto

declare isdirempty_loop.simps [simp del]

definition isdirempty :: "nat \<Rightarrow> nat \<Rightarrow> 'a kfs_scheme \<Rightarrow> (bool \<times> 'a kfs_scheme) res" where
  "isdirempty cur dp s = isdirempty_loop cur dp (unat (d_size (din s dp))) (2 * DIRENT_SIZE) s"

text \<open>
  \<open>sys_unlink\<close> with the directory \<open>dp\<close> locked, once the entry at \<open>off\<close> has been found: the rest of the
  call, which ends with both inodes unlocked and both references given back.
\<close>

definition unlink_entry :: "nat \<Rightarrow> nat \<Rightarrow> nat \<Rightarrow> nat \<Rightarrow> 'a kfs_scheme \<Rightarrow> (int \<times> 'a kfs_scheme) res" where
  "unlink_entry cur dp ip off s =
     kbind (ilock cur ip s) (\<lambda>s.
       if sint (d_nlink (din s ip)) < 1 then Panic ''unlink: nlink < 1''
       else kbind (if d_type (din s ip) = T_DIR then isdirempty cur ip s else Ret (True, s)) (\<lambda>(empty, s).
         if \<not> empty
         then kbind (iunlockput cur ip s) (\<lambda>s. kbind (iunlockput cur dp s) (\<lambda>s. Ret (- 1, s)))
         else kbind (writei cur dp (Local (replicate DIRENT_SIZE 0)) (of_nat off) (of_nat DIRENT_SIZE) s) (\<lambda>(r, s).
           if r \<noteq> int DIRENT_SIZE then Panic ''unlink: writei''
           else kbind (if d_type (din s ip) = T_DIR then iupdate cur dp (upd_din dp (add_nlink (- 1)) s) else Ret s) (\<lambda>s.
             kbind (iunlockput cur dp s) (\<lambda>s.
             kbind (iupdate cur ip (upd_din ip (add_nlink (- 1)) s)) (\<lambda>s.
             kbind (iunlockput cur ip s) (\<lambda>s. Ret (0, s))))))))"

definition sys_unlink :: "nat \<Rightarrow> 'a kfiles_scheme \<Rightarrow> (int \<times> 'a kfiles_scheme) res" where
  "sys_unlink cur s =
     kbind (argstr cur 0 MAXPATH s) (\<lambda>pth. case pth of None \<Rightarrow> Ret (- 1, s) | Some pth \<Rightarrow>
       with_op cur (\<lambda>s.
         kbind (nameiparent cur pth s) (\<lambda>(dp, name, s). case dp of None \<Rightarrow> Ret (- 1, s) | Some dp \<Rightarrow>
           kbind (ilock cur dp s) (\<lambda>s.
             if namecmp name [0x2E] = 0 \<or> namecmp name [0x2E, 0x2E] = 0
             then kbind (iunlockput cur dp s) (\<lambda>s. Ret (- 1, s))
             else kbind (dirlookup cur dp name s) (\<lambda>(r, s). case r of
                 None \<Rightarrow> kbind (iunlockput cur dp s) (\<lambda>s. Ret (- 1, s))
               | Some (ip, off) \<Rightarrow> unlink_entry cur dp ip off s)))) s)"

section \<open>Creating and opening\<close>

text \<open>
  The part of \<open>create\<close> after \<open>ialloc\<close>, with \<open>dp\<close> locked: set up the new inode and enter it. On success \<open>dp\<close> is
  released and the new inode stays locked.
\<close>

definition create_links :: "nat \<Rightarrow> nat \<Rightarrow> nat \<Rightarrow> u8 list \<Rightarrow> u16 \<Rightarrow> 'a kfs_scheme \<Rightarrow> (bool \<times> 'a kfs_scheme) res" where
  "create_links cur dp ip name type s =
     kbind (if type = T_DIR
            then kbind (dirlink cur ip [0x2E] (i_inum (inodes s ip)) s) (\<lambda>(r, s).
              if r < 0 then Ret (False, s)
              else kbind (dirlink cur ip [0x2E, 0x2E] (i_inum (inodes s dp)) s) (\<lambda>(r, s). Ret (r \<ge> 0, s)))
            else Ret (True, s)) (\<lambda>(ok, s).
       if \<not> ok then Ret (False, s)
       else kbind (dirlink cur dp name (i_inum (inodes s ip)) s) (\<lambda>(r, s). Ret (r \<ge> 0, s)))"

definition create_new :: "nat \<Rightarrow> nat \<Rightarrow> u8 list \<Rightarrow> u16 \<Rightarrow> u16 \<Rightarrow> u16 \<Rightarrow> 'a kfs_scheme \<Rightarrow> (nat option \<times> 'a kfs_scheme) res" where
  "create_new cur dp name type major minor s =
     kbind (ialloc cur (i_dev (inodes s dp)) type s) (\<lambda>(ip, s). case ip of
       None \<Rightarrow> kbind (iunlockput cur dp s) (\<lambda>s. Ret (None, s))
     | Some ip \<Rightarrow>
         kbind (ilock cur ip s) (\<lambda>s.
         kbind (iupdate cur ip (upd_din ip (\<lambda>x. x\<lparr>d_major := major, d_minor := minor, d_nlink := 1\<rparr>) s)) (\<lambda>s.
         kbind (create_links cur dp ip name type s) (\<lambda>(ok, s).
           if ok
           then kbind (if type = T_DIR then iupdate cur dp (upd_din dp (add_nlink 1) s) else Ret s) (\<lambda>s.
                kbind (iunlockput cur dp s) (\<lambda>s. Ret (Some ip, s)))
           else kbind (iupdate cur ip (upd_din ip (\<lambda>x. x\<lparr>d_nlink := 0\<rparr>) s)) (\<lambda>s.
                kbind (iunlockput cur ip s) (\<lambda>s.
                kbind (iunlockput cur dp s) (\<lambda>s. Ret (None, s))))))))"

definition create :: "nat \<Rightarrow> u8 list \<Rightarrow> u16 \<Rightarrow> u16 \<Rightarrow> u16 \<Rightarrow> 'a kfs_scheme \<Rightarrow> (nat option \<times> 'a kfs_scheme) res" where
  "create cur pth type major minor s =
     kbind (nameiparent cur pth s) (\<lambda>(dp, name, s). case dp of None \<Rightarrow> Ret (None, s) | Some dp \<Rightarrow>
       kbind (ilock cur dp s) (\<lambda>s.
       kbind (dirlookup cur dp name s) (\<lambda>(r, s). case r of
         Some (ip, _) \<Rightarrow>
           kbind (iunlockput cur dp s) (\<lambda>s.
           kbind (ilock cur ip s) (\<lambda>s.
             if type = T_FILE \<and> (d_type (din s ip) = T_FILE \<or> d_type (din s ip) = T_DEVICE) then Ret (Some ip, s)
             else kbind (iunlockput cur ip s) (\<lambda>s. Ret (None, s))))
       | None \<Rightarrow> create_new cur dp name type major minor s)))"

abbreviation (input) O_WRONLY :: u32 where "O_WRONLY \<equiv> 1"
abbreviation (input) O_RDWR :: u32 where "O_RDWR \<equiv> 2"
abbreviation (input) O_CREATE :: u32 where "O_CREATE \<equiv> 0x200"
abbreviation (input) O_TRUNC :: u32 where "O_TRUNC \<equiv> 0x400"

definition open_file :: "nat \<Rightarrow> u32 \<Rightarrow> dinode \<Rightarrow> ofile_t \<Rightarrow> ofile_t" where
  "open_file ip omode x f =
     (if d_type x = T_DEVICE then f\<lparr>f_type := FD_DEVICE, f_major := d_major x\<rparr> else f\<lparr>f_type := FD_INODE, f_off := 0\<rparr>)
     \<lparr>f_ip := Some ip, f_readable := omode AND O_WRONLY = 0,
      f_writable := omode AND O_WRONLY \<noteq> 0 \<or> omode AND O_RDWR \<noteq> 0\<rparr>"

text \<open>\<open>sys_open\<close> with the inode found and locked: its end, in which all guards are released.\<close>

definition open_inode :: "nat \<Rightarrow> u32 \<Rightarrow> nat \<Rightarrow> 'a kfiles_scheme \<Rightarrow> (int \<times> 'a kfiles_scheme) res" where
  "open_inode cur omode ip s =
     (if d_type (din s ip) = T_DEVICE \<and> (sint (d_major (din s ip)) < 0 \<or> sint (d_major (din s ip)) \<ge> int NDEV)
      then kbind (iunlockput cur ip s) (\<lambda>s. Ret (- 1, s))
      else case alloc_file s of
          (None, s) \<Rightarrow> kbind (iunlockput cur ip s) (\<lambda>s. Ret (- 1, s))
        | (Some f, s) \<Rightarrow> (case fdalloc cur f s of
              (None, s) \<Rightarrow> kbind (file_close cur f s) (\<lambda>s. kbind (iunlockput cur ip s) (\<lambda>s. Ret (- 1, s)))
            | (Some fd, s) \<Rightarrow>
                let s = upd_file f (open_file ip omode (din s ip)) s in
                kbind (if omode AND O_TRUNC \<noteq> 0 \<and> d_type (din s ip) = T_FILE then itrunc cur ip s else Ret s) (\<lambda>s.
                kbind (iunlock cur ip s) (\<lambda>s. Ret (int fd, s)))))"

definition sys_open :: "nat \<Rightarrow> 'a kfiles_scheme \<Rightarrow> (int \<times> 'a kfiles_scheme) res" where
  "sys_open cur s =
     kbind (argint cur 1 s) (\<lambda>m. let omode = word_of_int m in
     kbind (argstr cur 0 MAXPATH s) (\<lambda>pth. case pth of None \<Rightarrow> Ret (- 1, s) | Some pth \<Rightarrow>
       with_op cur (\<lambda>s.
         if omode AND O_CREATE \<noteq> 0
         then kbind (create cur pth T_FILE 0 0 s) (\<lambda>(ip, s). case ip of
             None \<Rightarrow> Ret (- 1, s)
           | Some ip \<Rightarrow> open_inode cur omode ip s)
         else kbind (namei cur pth s) (\<lambda>(ip, s). case ip of
             None \<Rightarrow> Ret (- 1, s)
           | Some ip \<Rightarrow> kbind (ilock cur ip s) (\<lambda>s.
               if d_type (din s ip) = T_DIR \<and> omode \<noteq> 0 then kbind (iunlockput cur ip s) (\<lambda>s. Ret (- 1, s))
               else open_inode cur omode ip s))) s))"

text \<open>The common end of \<open>sys_mkdir\<close> and \<open>sys_mknod\<close>.\<close>

definition create_and_put :: "nat \<Rightarrow> u8 list \<Rightarrow> u16 \<Rightarrow> u16 \<Rightarrow> u16 \<Rightarrow> 'a kfs_scheme \<Rightarrow> (int \<times> 'a kfs_scheme) res" where
  "create_and_put cur pth type major minor s =
     kbind (create cur pth type major minor s) (\<lambda>(ip, s). case ip of
       None \<Rightarrow> Ret (- 1, s)
     | Some ip \<Rightarrow> kbind (iunlockput cur ip s) (\<lambda>s. Ret (0, s)))"

definition sys_mkdir :: "nat \<Rightarrow> 'a kfiles_scheme \<Rightarrow> (int \<times> 'a kfiles_scheme) res" where
  "sys_mkdir cur s =
     with_op cur (\<lambda>s. kbind (argstr cur 0 MAXPATH s) (\<lambda>pth. case pth of
       None \<Rightarrow> Ret (- 1, s)
     | Some pth \<Rightarrow> create_and_put cur pth T_DIR 0 0 s)) s"

definition sys_mknod :: "nat \<Rightarrow> 'a kfiles_scheme \<Rightarrow> (int \<times> 'a kfiles_scheme) res" where
  "sys_mknod cur s =
     with_op cur (\<lambda>s.
       kbind (argint cur 1 s) (\<lambda>major. kbind (argint cur 2 s) (\<lambda>minor.
       kbind (argstr cur 0 MAXPATH s) (\<lambda>pth. case pth of
         None \<Rightarrow> Ret (- 1, s)
       | Some pth \<Rightarrow> create_and_put cur pth T_DEVICE (word_of_int major) (word_of_int minor) s)))) s"

definition sys_chdir :: "nat \<Rightarrow> 'a kfiles_scheme \<Rightarrow> (int \<times> 'a kfiles_scheme) res" where
  "sys_chdir cur s =
     with_op cur (\<lambda>s. kbind (argstr cur 0 MAXPATH s) (\<lambda>pth. case pth of
       None \<Rightarrow> Ret (- 1, s)
     | Some pth \<Rightarrow> kbind (namei cur pth s) (\<lambda>(ip, s). case ip of
         None \<Rightarrow> Ret (- 1, s)
       | Some ip \<Rightarrow> kbind (ilock cur ip s) (\<lambda>s.
           if d_type (din s ip) \<noteq> T_DIR then kbind (iunlockput cur ip s) (\<lambda>s. Ret (- 1, s))
           else kbind (iunlock cur ip s) (\<lambda>s.
             let old = cwd (processes s cur) in
             kbind (iput_opt cur old (upd_proc cur (\<lambda>p. p\<lparr>cwd := Some ip\<rparr>) s)) (\<lambda>s. Ret (0, s))))))) s"

end
