(* ===== verification/System_Calls.thy ===== *)
theory System_Calls
  imports Sysfile
begin

text \<open>
  \<open>fork\<close>, \<open>exec\<close> and \<open>exit\<close> of \<^verbatim>\<open>kernel/process.cpp\<close>, the formats of \<^verbatim>\<open>kernel/elf.h\<close>, the system calls of
  \<^verbatim>\<open>kernel/sysproc.cpp\<close> and the dispatcher of \<^verbatim>\<open>kernel/syscall.cpp\<close>. The linker symbols \<open>end\<close>, \<open>trampoline\<close> and
  \<open>forkret\<close> are arguments. The argument strings of \<open>exec\<close> are passed as lists of bytes.
\<close>

section \<open>fork and exit\<close>

text \<open>\<open>safestrcpy\<close> into a name of 16 bytes, with the two strings in a memory of their own.\<close>

definition copy_name :: "u8 list \<Rightarrow> u8 list \<Rightarrow> u8 list" where
  "copy_name name t = rdbytes (safestrcpy (wrbytes (wrbytes (\<lambda>_. 0) 0 t) 4096 name) 4096 0 16) 4096 16"

fun fork_files :: "nat \<Rightarrow> nat \<Rightarrow> nat \<Rightarrow> nat \<Rightarrow> 'a kfiles_scheme \<Rightarrow> 'a kfiles_scheme res" where
  "fork_files cur np 0 i s = Ret s"
| "fork_files cur np (Suc k) i s =
     kbind (case get_ofile cur i s of
         None \<Rightarrow> Ret s
       | Some f \<Rightarrow> kbind (file_dup f s) (\<lambda>s. Ret (set_ofile np i (Some f) s))) (\<lambda>s. fork_files cur np k (Suc i) s)"

definition proc_fork :: "u64 \<Rightarrow> u64 \<Rightarrow> u64 \<Rightarrow> nat \<Rightarrow> 'a kfiles_scheme \<Rightarrow> (int \<times> 'a kfiles_scheme) res" where
  "proc_fork kend trampoline forkret cur s =
     kbind (proc_alloc kend trampoline forkret s) (\<lambda>(np, s). case np of
       None \<Rightarrow> Ret (- 1, s)
     | Some np \<Rightarrow>
         kbind (vm_copy kend (pagetable (processes s cur)) (pagetable (processes s np)) (sz (processes s cur)) s) (\<lambda>(r, s).
           if r < 0 then kbind (process_free kend np s) (\<lambda>s. Ret (- 1, s))
           else
             let s = upd_proc np (\<lambda>p. p\<lparr>sz := sz (processes s cur)\<rparr>) s;
                 s = s\<lparr>ram := wrbytes (ram s) (trapframe (processes s np)) (rdbytes (ram s) (trapframe (processes s cur)) 288)\<rparr>;
                 s = set_tf np (tf_a 0) 0 s
             in kbind (fork_files cur np NOFILE 0 s) (\<lambda>s.
               case cwd (processes s cur) of
                 None \<Rightarrow> Panic ''null current directory''
               | Some ip \<Rightarrow>
                   let s = upd_proc np (\<lambda>p. p\<lparr>cwd := Some ip\<rparr>) (idup ip s);
                       s = upd_proc np (\<lambda>p. p\<lparr>pname := copy_name (pname p) (pname (processes s cur)), parent := Some cur\<rparr>) s;
                       s = upd_proc np (\<lambda>p. p\<lparr>pstate := RUNNABLE\<rparr>) s
                   in Ret (sint (pid (processes s np)), s))))"

fun exit_files :: "nat \<Rightarrow> nat \<Rightarrow> nat \<Rightarrow> 'a kfiles_scheme \<Rightarrow> 'a kfiles_scheme res" where
  "exit_files cur 0 fd s = Ret s"
| "exit_files cur (Suc k) fd s =
     kbind (case get_ofile cur fd s of
         None \<Rightarrow> Ret s
       | Some f \<Rightarrow> file_close cur f (set_ofile cur fd None s)) (\<lambda>s. exit_files cur k (Suc fd) s)"

text \<open>\<open>exit\<close> up to the switch to the scheduler, from which it does not return.\<close>

definition proc_exit :: "nat \<Rightarrow> int \<Rightarrow> 'a kfiles_scheme \<Rightarrow> 'a kfiles_scheme res" where
  "proc_exit cur status s =
     (if initprocess s = Some cur then Panic ''init exiting''
      else kbind (exit_files cur NOFILE 0 s) (\<lambda>s.
        kbind (with_op cur (\<lambda>s. kbind (iput_opt cur (cwd (processes s cur)) s) (\<lambda>s. Ret ((), s))) s) (\<lambda>(_, s).
          Ret (exit_finish cur (word_of_int status) (upd_proc cur (\<lambda>p. p\<lparr>cwd := None\<rparr>) s)))))"

section \<open>exec\<close>

abbreviation (input) ELF_MAGIC :: u32 where "ELF_MAGIC \<equiv> 0x464C457F"
abbreviation (input) ELF_SIZE :: nat where "ELF_SIZE \<equiv> 64"
abbreviation (input) PH_SIZE :: nat where "PH_SIZE \<equiv> 56"

definition get64 :: "nat \<Rightarrow> u8 list \<Rightarrow> u64" where
  "get64 ofs d = le_word (get_bytes ofs 8 d)"

record elfhdr =
  e_magic :: u32
  e_entry :: u64
  e_phoff :: u64
  e_phnum :: u16

record proghdr =
  ph_type :: u32
  ph_flags :: u32
  ph_off :: u64
  ph_vaddr :: u64
  ph_filesz :: u64
  ph_memsz :: u64

definition elf_of :: "u8 list \<Rightarrow> elfhdr" where
  "elf_of d = \<lparr>e_magic = get32 0 d, e_entry = get64 24 d, e_phoff = get64 32 d, e_phnum = get16 56 d\<rparr>"

definition ph_of :: "u8 list \<Rightarrow> proghdr" where
  "ph_of d = \<lparr>ph_type = get32 0 d, ph_flags = get32 4 d, ph_off = get64 8 d, ph_vaddr = get64 16 d,
     ph_filesz = get64 32 d, ph_memsz = get64 40 d\<rparr>"

definition flags2perm :: "u32 \<Rightarrow> u64" where
  "flags2perm flags = (if flags AND 1 \<noteq> 0 then PTE_X else 0) OR (if flags AND 2 \<noteq> 0 then PTE_W else 0)"

definition read_local :: "nat \<Rightarrow> nat \<Rightarrow> u32 \<Rightarrow> nat \<Rightarrow> 'a kfs_scheme \<Rightarrow> (u8 list option \<times> 'a kfs_scheme) res" where
  "read_local cur ip off n s =
     kbind (readi cur ip (Local []) off (of_nat n) s) (\<lambda>(r, d, s).
       Ret (if r \<noteq> int n then None else case d of Local bs \<Rightarrow> Some bs | _ \<Rightarrow> None, s))"

text \<open>
  The counter does not wrap: the pages up to \<open>n\<close> have been mapped, so that \<open>n\<close> is less than the size of
  physical memory.
\<close>

function loadseg_loop :: "nat \<Rightarrow> u64 \<Rightarrow> u64 \<Rightarrow> nat \<Rightarrow> u32 \<Rightarrow> nat \<Rightarrow> nat \<Rightarrow> 'a kfs_scheme \<Rightarrow> (int \<times> 'a kfs_scheme) res" where
  "loadseg_loop cur pt va ip offset n i s =
     (if i < n
      then kbind (walkaddr pt (va + of_nat i) s) (\<lambda>pa.
        if pa = 0 then Panic ''loadseg: address should exist''
        else let m = min 4096 (n - i) in
          kbind (readi cur ip (Phys pa) (offset + of_nat i) (of_nat m) s) (\<lambda>(r, _, s).
            if r \<noteq> int m then Ret (- 1, s) else loadseg_loop cur pt va ip offset n (i + 4096) s))
      else Ret (0, s))"
  by pat_completeness auto
termination
  by (relation "measure (\<lambda>(cur, pt, va, ip, offset, n, i, s). n - i)") auto

declare loadseg_loop.simps [simp del]

definition loadseg :: "nat \<Rightarrow> u64 \<Rightarrow> u64 \<Rightarrow> nat \<Rightarrow> u32 \<Rightarrow> u32 \<Rightarrow> 'a kfs_scheme \<Rightarrow> (int \<times> 'a kfs_scheme) res" where
  "loadseg cur pt va ip offset n s = loadseg_loop cur pt va ip offset (unat n) 0 s"

text \<open>The loop over the program headers: whether it succeeded, and the size reached.\<close>

fun exec_load :: "u64 \<Rightarrow> nat \<Rightarrow> nat \<Rightarrow> u64 \<Rightarrow> nat \<Rightarrow> u32 \<Rightarrow> u64 \<Rightarrow> 'a kfs_scheme \<Rightarrow> (bool \<times> u64 \<times> 'a kfs_scheme) res" where
  "exec_load kend cur ip pt 0 off newsz s = Ret (True, newsz, s)"
| "exec_load kend cur ip pt (Suc k) off newsz s =
     kbind (read_local cur ip off PH_SIZE s) (\<lambda>(d, s). case d of
       None \<Rightarrow> Ret (False, newsz, s)
     | Some d \<Rightarrow>
         let ph = ph_of d in
         if ph_type ph \<noteq> 1 then exec_load kend cur ip pt k (off + of_nat PH_SIZE) newsz s
         else if ph_memsz ph < ph_filesz ph then Ret (False, newsz, s)
         else if ph_vaddr ph + ph_memsz ph < ph_vaddr ph then Ret (False, newsz, s)
         else if ph_vaddr ph mod PGSIZE \<noteq> 0 then Ret (False, newsz, s)
         else kbind (vm_alloc kend pt newsz (ph_vaddr ph + ph_memsz ph) (flags2perm (ph_flags ph)) s) (\<lambda>(sz1, s).
           if sz1 = 0 then Ret (False, newsz, s)
           else kbind (loadseg cur pt (ph_vaddr ph) ip (ucast (ph_off ph)) (ucast (ph_filesz ph)) s) (\<lambda>(r, s).
             if r < 0 then Ret (False, sz1, s)
             else exec_load kend cur ip pt k (off + of_nat PH_SIZE) sz1 s)))"

text \<open>The static function \<open>error\<close>.\<close>

definition exec_error :: "u64 \<Rightarrow> u64 \<Rightarrow> u64 \<Rightarrow> 'a kfs_scheme \<Rightarrow> ('b option \<times> 'a kfs_scheme) res" where
  "exec_error kend pt newsz s =
     kbind (if pt \<noteq> 0 then free_pagetable kend pt newsz s else Ret s) (\<lambda>s. Ret (None, s))"

text \<open>The part of \<open>exec\<close> with the program file locked: the new page table, its size and the entry point.\<close>

definition exec_image :: "u64 \<Rightarrow> u64 \<Rightarrow> nat \<Rightarrow> nat \<Rightarrow> 'a kfs_scheme \<Rightarrow> ((u64 \<times> u64 \<times> u64) option \<times> 'a kfs_scheme) res" where
  "exec_image kend trampoline cur ip s =
     kbind (read_local cur ip 0 ELF_SIZE s) (\<lambda>(d, s). case d of
       None \<Rightarrow> exec_error kend 0 0 s
     | Some d \<Rightarrow>
         let elf = elf_of d in
         if e_magic elf \<noteq> ELF_MAGIC then exec_error kend 0 0 s
         else kbind (create_pagetable kend trampoline (trapframe (processes s cur)) s) (\<lambda>(pt, s). case pt of
             None \<Rightarrow> exec_error kend 0 0 s
           | Some pt \<Rightarrow>
               kbind (exec_load kend cur ip pt (unat (e_phnum elf)) (ucast (e_phoff elf)) 0 s) (\<lambda>(ok, newsz, s).
                 if ok then Ret (Some (pt, newsz, e_entry elf), s) else exec_error kend pt newsz s)))"

definition exec_open :: "u64 \<Rightarrow> u64 \<Rightarrow> nat \<Rightarrow> u8 list \<Rightarrow> 'a kfs_scheme \<Rightarrow> ((u64 \<times> u64 \<times> u64) option \<times> 'a kfs_scheme) res" where
  "exec_open kend trampoline cur pth s =
     with_op cur (\<lambda>s.
       kbind (namei cur pth s) (\<lambda>(ip, s). case ip of
         None \<Rightarrow> exec_error kend 0 0 s
       | Some ip \<Rightarrow>
           kbind (with_lock cur ip (exec_image kend trampoline cur ip) s) (\<lambda>(r, s).
             kbind (iput cur ip s) (\<lambda>s. Ret (r, s))))) s"

text \<open>The loop that pushes the argument strings: the stack pointer and the array \<open>ustack\<close>.\<close>

fun exec_push :: "u64 \<Rightarrow> u64 \<Rightarrow> u8 list list \<Rightarrow> u64 \<Rightarrow> u64 list \<Rightarrow> 'a kfs_scheme \<Rightarrow> ((u64 \<times> u64 list) option \<times> 'a kfs_scheme) res" where
  "exec_push pt stackbase [] sp ustack s = Ret (Some (sp, ustack), s)"
| "exec_push pt stackbase (a # argv) sp ustack s =
     (if length ustack \<ge> MAXARG then Ret (None, s)
      else let sp = sp - of_nat (length a + 1); sp = sp - sp mod 16 in
        if sp < stackbase then Ret (None, s)
        else kbind (copyout_bytes pt sp (a @ [0]) s) (\<lambda>(r, s).
          if r < 0 then Ret (None, s) else exec_push pt stackbase argv sp (ustack @ [sp]) s))"

definition exec_argv :: "u64 \<Rightarrow> u64 \<Rightarrow> u8 list list \<Rightarrow> u64 \<Rightarrow> 'a kfs_scheme \<Rightarrow> (u64 option \<times> 'a kfs_scheme) res" where
  "exec_argv pt stackbase argv sp s =
     kbind (exec_push pt stackbase argv sp [] s) (\<lambda>(r, s). case r of
       None \<Rightarrow> Ret (None, s)
     | Some (sp, ustack) \<Rightarrow>
         let sp = sp - of_nat (8 * (length argv + 1)); sp = sp - sp mod 16 in
         if sp < stackbase then Ret (None, s)
         else kbind (copyout_bytes pt sp (concat (map bytes_of_u64 (ustack @ [0]))) s) (\<lambda>(r, s).
           Ret (if r < 0 then None else Some sp, s)))"

abbreviation (input) USERSTACK :: nat where "USERSTACK \<equiv> 1"

text \<open>The program's name: what follows the last slash of the path.\<close>

definition last_elem :: "u8 list \<Rightarrow> u8 list" where
  "last_elem pth = rev (takeWhile (\<lambda>c. c \<noteq> SLASH) (rev pth))"

definition exec_commit :: "u64 \<Rightarrow> nat \<Rightarrow> u8 list \<Rightarrow> u64 \<Rightarrow> u64 \<Rightarrow> u64 \<Rightarrow> u64 \<Rightarrow> 'a kfs_scheme \<Rightarrow> 'a kfs_scheme res" where
  "exec_commit kend cur pth pt newsz entry sp s =
     (let old = processes s cur;
          s = set_tf cur (tf_a 1) sp s;
          s = upd_proc cur (\<lambda>p. p\<lparr>pname := copy_name (pname p) (last_elem pth)\<rparr>) s;
          s = upd_proc cur (\<lambda>p. p\<lparr>pagetable := pt, sz := newsz\<rparr>) s;
          s = set_tf cur tf_sp sp (set_tf cur tf_epc entry s)
      in free_pagetable kend (pagetable old) (sz old) s)"

definition proc_exec :: "u64 \<Rightarrow> u64 \<Rightarrow> nat \<Rightarrow> u8 list \<Rightarrow> u8 list list \<Rightarrow> 'a kfs_scheme \<Rightarrow> (int \<times> 'a kfs_scheme) res" where
  "proc_exec kend trampoline cur pth argv s =
     kbind (exec_open kend trampoline cur pth s) (\<lambda>(r, s). case r of
       None \<Rightarrow> Ret (- 1, s)
     | Some (pt, newsz, entry) \<Rightarrow>
         let newsz = PGROUNDUP newsz; fail = (\<lambda>n s. kbind (free_pagetable kend pt n s) (\<lambda>s. Ret (- 1, s))) in
         kbind (vm_alloc kend pt newsz (newsz + of_nat (USERSTACK + 1) * PGSIZE) PTE_W s) (\<lambda>(sz1, s).
           if sz1 = 0 then fail newsz s
           else kbind (vm_clear pt (sz1 - of_nat (USERSTACK + 1) * PGSIZE) s) (\<lambda>s.
             kbind (exec_argv pt (sz1 - of_nat USERSTACK * PGSIZE) argv sz1 s) (\<lambda>(r, s). case r of
               None \<Rightarrow> fail sz1 s
             | Some sp \<Rightarrow> kbind (exec_commit kend cur pth pt sz1 entry sp s) (\<lambda>s. Ret (int (length argv), s))))))"

section \<open>The system calls on processes\<close>

text \<open>
  How a system call ends: with a value for the register \<open>a0\<close>, asleep, or by the end of the process. A call
  that sleeps goes on with the operation that put it to sleep when the process runs again.
\<close>

datatype 's outcome = Returns u64 's | Asleep 's | Exits 's

definition returned :: "(int \<times> 's) res \<Rightarrow> 's outcome res" where
  "returned r = kbind r (\<lambda>(v, s). Ret (Returns (word_of_int v) s))"

fun of_xfer :: "'s xfer \<Rightarrow> 's outcome" where
  "of_xfer (Finished v s) = Returns (word_of_int v) s"
| "of_xfer (Waiting i s) = Asleep s"

fun of_wait :: "'s wait_result \<Rightarrow> 's outcome" where
  "of_wait (Waited v s) = Returns (word_of_int v) s"
| "of_wait (Sleeps s) = Asleep s"

text \<open>
  The loop of \<open>sys_exec\<close> that fetches the arguments, with \<open>k\<close> entries of the array \<open>argv\<close> left: the pages it has
  allocated and the strings in them, or \<open>None\<close> for \<open>bad\<close>.
\<close>

fun exec_args :: "nat \<Rightarrow> u64 \<Rightarrow> nat \<Rightarrow> u64 list \<Rightarrow> u8 list list \<Rightarrow> 'a kprocs_scheme \<Rightarrow> (u64 list \<times> u8 list list option \<times> 'a kprocs_scheme) res" where
  "exec_args cur uargv 0 pages argv s = Ret (pages, None, s)"
| "exec_args cur uargv (Suc k) pages argv s =
     kbind (fetchaddr cur (uargv + 8 * of_nat (length pages)) s) (\<lambda>r. case r of
       None \<Rightarrow> Ret (pages, None, s)
     | Some uarg \<Rightarrow>
         if uarg = 0 then Ret (pages, Some argv, s)
         else case page_alloc s of
             (None, s) \<Rightarrow> Ret (pages, None, s)
           | (Some pg, s) \<Rightarrow>
               kbind (copyinstr (pagetable (processes s cur)) pg uarg PGSIZE s) (\<lambda>(r, s).
                 if r < 0 then Ret (pages @ [pg], None, s)
                 else exec_args cur uargv k (pages @ [pg])
                   (argv @ [takeWhile (\<lambda>b. b \<noteq> 0) (rdbytes (ram s) pg 4096)]) s))"

text \<open>The destructors of the array of \<open>page_ref_guard\<close>s, the last element first.\<close>

fun free_pages :: "u64 \<Rightarrow> u64 list \<Rightarrow> 'a kmem_scheme \<Rightarrow> 'a kmem_scheme res" where
  "free_pages kend [] s = Ret s"
| "free_pages kend (p # ps) s = kbind (free_pages kend ps s) (page_free kend p)"

definition sys_exec :: "u64 \<Rightarrow> u64 \<Rightarrow> nat \<Rightarrow> 'a kfiles_scheme \<Rightarrow> (int \<times> 'a kfiles_scheme) res" where
  "sys_exec kend trampoline cur s =
     kbind (argaddr cur 1 s) (\<lambda>uargv.
     kbind (argstr cur 0 MAXPATH s) (\<lambda>pth. case pth of None \<Rightarrow> Ret (- 1, s) | Some pth \<Rightarrow>
     kbind (exec_args cur uargv MAXARG [] [] s) (\<lambda>(pages, argv, s).
     kbind (case argv of None \<Rightarrow> Ret (- 1, s) | Some argv \<Rightarrow> proc_exec kend trampoline cur pth argv s) (\<lambda>(r, s).
     kbind (free_pages kend pages s) (\<lambda>s. Ret (r, s))))))"

definition sys_exit :: "nat \<Rightarrow> 'a kfiles_scheme \<Rightarrow> 'a kfiles_scheme outcome res" where
  "sys_exit cur s = kbind (argint cur 0 s) (\<lambda>n. kbind (proc_exit cur n s) (\<lambda>s. Ret (Exits s)))"

definition sys_getpid :: "nat \<Rightarrow> 'a kfiles_scheme \<Rightarrow> (int \<times> 'a kfiles_scheme) res" where
  "sys_getpid cur s = Ret (sint (pid (processes s cur)), s)"

definition sys_fork :: "u64 \<Rightarrow> u64 \<Rightarrow> u64 \<Rightarrow> nat \<Rightarrow> 'a kfiles_scheme \<Rightarrow> (int \<times> 'a kfiles_scheme) res" where
  "sys_fork kend trampoline forkret cur s = proc_fork kend trampoline forkret cur s"

definition sys_wait :: "u64 \<Rightarrow> nat \<Rightarrow> 'a kfiles_scheme \<Rightarrow> 'a kfiles_scheme wait_result res" where
  "sys_wait kend cur s = kbind (argaddr cur 0 s) (\<lambda>p. wait_scan kend cur p s)"

definition sys_sbrk :: "u64 \<Rightarrow> nat \<Rightarrow> 'a kfiles_scheme \<Rightarrow> 'a kfiles_scheme outcome res" where
  "sys_sbrk kend cur s =
     kbind (argint cur 0 s) (\<lambda>n.
       let addr = sz (processes s cur) in
       kbind (proc_grow kend cur n s) (\<lambda>(r, s). Ret (Returns (if r < 0 then - 1 else addr) s)))"

definition sys_sleep :: "nat \<Rightarrow> 'a kfiles_scheme \<Rightarrow> 'a kfiles_scheme wait_result res" where
  "sys_sleep cur s =
     kbind (argint cur 0 s) (\<lambda>n. Ret (sleep_ticks_test cur (ticks s) (word_of_int (max 0 n)) s))"

definition sys_kill :: "nat \<Rightarrow> 'a kfiles_scheme \<Rightarrow> (int \<times> 'a kfiles_scheme) res" where
  "sys_kill cur s = kbind (argint cur 0 s) (\<lambda>k. Ret (kill (word_of_int k) s))"

definition sys_uptime :: "'a kfiles_scheme \<Rightarrow> 'a kfiles_scheme outcome res" where
  "sys_uptime s = Ret (Returns (ucast (ticks s)) s)"

section \<open>Dispatch\<close>

type_synonym 's handler = "'s \<Rightarrow> 's outcome res"

definition syscalls ::
  "u64 \<Rightarrow> u64 \<Rightarrow> u64 \<Rightarrow> (nat \<Rightarrow> 'a kfiles_scheme device) \<Rightarrow> nat \<Rightarrow> 'a kfiles_scheme handler option list" where
  "syscalls kend trampoline forkret devsw cur =
     [None,
      Some (\<lambda>s. returned (sys_fork kend trampoline forkret cur s)),
      Some (sys_exit cur),
      Some (\<lambda>s. kbind (sys_wait kend cur s) (\<lambda>r. Ret (of_wait r))),
      Some (\<lambda>s. returned (sys_pipe cur s)),
      Some (\<lambda>s. kbind (sys_read devsw cur s) (\<lambda>r. Ret (of_xfer r))),
      Some (\<lambda>s. returned (sys_kill cur s)),
      Some (\<lambda>s. returned (sys_exec kend trampoline cur s)),
      Some (\<lambda>s. returned (sys_fstat cur s)),
      Some (\<lambda>s. returned (sys_chdir cur s)),
      Some (\<lambda>s. returned (sys_dup cur s)),
      Some (\<lambda>s. returned (sys_getpid cur s)),
      Some (sys_sbrk kend cur),
      Some (\<lambda>s. kbind (sys_sleep cur s) (\<lambda>r. Ret (of_wait r))),
      Some sys_uptime,
      Some (\<lambda>s. returned (sys_open cur s)),
      Some (\<lambda>s. kbind (sys_write devsw cur s) (\<lambda>r. Ret (of_xfer r))),
      Some (\<lambda>s. returned (sys_mknod cur s)),
      Some (\<lambda>s. returned (sys_unlink cur s)),
      Some (\<lambda>s. returned (sys_link cur s)),
      Some (\<lambda>s. returned (sys_mkdir cur s)),
      Some (\<lambda>s. returned (sys_close cur s))]"

text \<open>The message for an unknown call is left out.\<close>

definition syscall ::
  "u64 \<Rightarrow> u64 \<Rightarrow> u64 \<Rightarrow> (nat \<Rightarrow> 'a kfiles_scheme device) \<Rightarrow> nat \<Rightarrow> 'a kfiles_scheme \<Rightarrow> 'a kfiles_scheme outcome res" where
  "syscall kend trampoline forkret devsw cur s =
     (let num = get_tf cur (tf_a 7) s; tab = syscalls kend trampoline forkret devsw cur in
      case (if num > 0 \<and> num < of_nat (length tab) then tab ! unat num else None) of
        Some h \<Rightarrow> kbind (h s) (\<lambda>r. Ret (case r of
            Returns v s \<Rightarrow> Returns v (set_tf cur (tf_a 0) v s)
          | Asleep s \<Rightarrow> Asleep s
          | Exits s \<Rightarrow> Exits s))
      | None \<Rightarrow> Ret (Returns (- 1) (set_tf cur (tf_a 0) (- 1) s)))"

end
