(* ===== verification/Fs_Frame.thy ===== *)
theory Fs_Frame
  imports System_Calls Memory_Frame
begin

text \<open>
  What the file system does not touch. The key of a state is what lies above the file system (pipes
  and open files) together with the processes, up to their channels and up to which of the live ones run,
  wait or sleep. Every operation on
  blocks, inodes, directories, the log and memory that returns keeps the key.
\<close>

section \<open>The key of a state\<close>

definition pcore :: "process \<Rightarrow> process" where
  "pcore p = p\<lparr>pstate := (if pstate p \<in> {SLEEPING, RUNNABLE, RUNNING} then RUNNING else pstate p), pchan := None\<rparr>"

definition fkey :: "'a kfs_scheme \<Rightarrow> 'a \<times> (nat \<Rightarrow> process) \<times> nat option" where
  "fkey s = (kfs.more s, \<lambda>i. pcore (processes s i), initprocess s)"

named_theorems keys \<open>operations that keep the key\<close>

lemma fkey_updates [simp]:
  "fkey (s\<lparr>ram := m\<rparr>) = fkey s" "fkey (s\<lparr>bufs := b\<rparr>) = fkey s" "fkey (s\<lparr>cache := c\<rparr>) = fkey s"
  "fkey (s\<lparr>disk := d\<rparr>) = fkey s" "fkey (s\<lparr>disk_trace := d'\<rparr>) = fkey s" "fkey (s\<lparr>log_start := i\<rparr>) = fkey s"
  "fkey (s\<lparr>log_size := i\<rparr>) = fkey s" "fkey (s\<lparr>log_outstanding := i\<rparr>) = fkey s" "fkey (s\<lparr>log_committing := k\<rparr>) = fkey s"
  "fkey (s\<lparr>log_dev := v\<rparr>) = fkey s" "fkey (s\<lparr>log_n := i\<rparr>) = fkey s" "fkey (s\<lparr>log_block := l\<rparr>) = fkey s"
  "fkey (s\<lparr>sb := x\<rparr>) = fkey s" "fkey (s\<lparr>inodes := y\<rparr>) = fkey s"
  by (simp_all add: fkey_def)

lemma fkey_wakeup [simp]: "fkey (wakeup cur c s) = fkey s"
  by (auto simp: fkey_def wakeup_def pcore_def Let_def)

lemma fkey_upds [simp]:
  "fkey (upd_buf b f s) = fkey s" "fkey (buf_set_data b d s) = fkey s" "fkey (upd_inode ip g s) = fkey s"
  "fkey (upd_din ip h s) = fkey s" "fkey (idup ip s) = fkey s" "fkey (inode_release cur ip s) = fkey s"
  "fkey (disk_read b s) = fkey s" "fkey (disk_write b s) = fkey s" "fkey (buf_release cur b s) = fkey s"
  "fkey (cache_pin b s) = fkey s"
  by (simp_all add: upd_buf_def buf_set_data_def upd_inode_def upd_din_def idup_def inode_release_def disk_read_def
    disk_write_def buf_release_def cache_pin_def Let_def)

section \<open>Memory\<close>

lemma free_pages_mkey [mkeys]: "free_pages kend ps s = Ret t \<Longrightarrow> kmem.more t = kmem.more s"
  by (induction ps arbitrary: t) (auto elim!: kbind_RetE dest!: mkeys)

lemma mkey_fkey: "kmem.more t = kmem.more s \<Longrightarrow> fkey t = fkey s"
  by (cases s, cases t) (simp add: fkey_def kfs.defs)

lemmas keys_of_memory [keys] = mkeys [THEN mkey_fkey]

section \<open>The cache and the log\<close>

lemma cache_get_key [keys]: "cache_get dev blk s = Ret (b, t) \<Longrightarrow> fkey t = fkey s"
  by (auto simp: cache_get_def Let_def split: prod.splits option.splits elim!: kbind_RetE)

lemma buf_acquire_key [keys]: "buf_acquire cur b s = Ret t \<Longrightarrow> fkey t = fkey s"
  by (auto simp: buf_acquire_def kres)

lemma cache_read_key [keys]: "cache_read cur dev blk s = Ret (b, t) \<Longrightarrow> fkey t = fkey s"
  by (auto simp: cache_read_def kres dest!: keys)

lemma cache_relse_key [keys]: "cache_relse cur b s = Ret t \<Longrightarrow> fkey t = fkey s"
  by (auto simp: cache_relse_def Let_def split: prod.splits if_splits)

lemma cache_write_key [keys]: "cache_write cur b s = Ret t \<Longrightarrow> fkey t = fkey s"
  by (auto simp: cache_write_def kres)

lemma cache_unpin_key [keys]: "cache_unpin b s = Ret t \<Longrightarrow> fkey t = fkey s"
  by (auto simp: cache_unpin_def kres)

lemma write_head_key [keys]: "write_head cur s = Ret t \<Longrightarrow> fkey t = fkey s"
  by (auto simp: write_head_def kres dest!: keys)

lemma read_head_key [keys]: "read_head cur s = Ret t \<Longrightarrow> fkey t = fkey s"
  by (auto simp: read_head_def kres Let_def dest!: keys)

lemma write_log_loop_key [keys]: "write_log_loop cur k i s = Ret t \<Longrightarrow> fkey t = fkey s"
proof (induction k arbitrary: i s)
  case (Suc k)
  then show ?case by (auto simp: kres dest!: keys Suc.IH)
qed simp

lemma install_loop_key [keys]: "install_loop cur r k i s = Ret t \<Longrightarrow> fkey t = fkey s"
proof (induction k arbitrary: i s)
  case (Suc k)
  then show ?case by (auto simp: kres dest!: keys Suc.IH split: if_splits)
qed simp

lemma commit_key [keys]: "commit cur s = Ret t \<Longrightarrow> fkey t = fkey s"
  by (auto simp: commit_def write_log_def install_trans_def kres dest!: keys split: if_splits)

lemma log_init_key [keys]: "log_init cur dev a n s = Ret t \<Longrightarrow> fkey t = fkey s"
  by (auto simp: log_init_def recover_from_log_def install_trans_def kres dest!: keys)

lemma log_write_key [keys]: "log_write b s = Ret t \<Longrightarrow> fkey t = fkey s"
  by (auto simp: log_write_def kres Let_def split: if_splits)

lemma begin_op_key [keys]: "begin_op s = Ret t \<Longrightarrow> fkey t = fkey s"
  by (auto simp: begin_op_def kres)

lemma end_op_key [keys]: "end_op cur s = Ret t \<Longrightarrow> fkey t = fkey s"
  by (auto simp: end_op_def kres Let_def dest!: keys split: if_splits)

section \<open>Blocks and inodes\<close>

lemma with_buf_key:
  assumes "with_buf cur dev blk f s = Ret (x, t)" "\<And>b s x t. f b s = Ret (x, t) \<Longrightarrow> fkey t = fkey s"
  shows "fkey t = fkey s"
  using assms(1) by (auto simp: with_buf_def elim!: kbind_RetE dest!: keys assms(2))

lemma with_buf_keyE:
  assumes "with_buf cur dev blk f s = Ret (x, t)" "fkey s = k" "\<And>b s x t. f b s = Ret (x, t) \<Longrightarrow> fkey t = fkey s"
  shows "fkey t = k"
  using with_buf_key [OF assms(1,3)] assms(2) by simp

lemma readsb_key [keys]: "readsb cur dev s = Ret t \<Longrightarrow> fkey t = fkey s"
  by (auto simp: readsb_def elim!: kbind_RetE with_buf_key)

lemma fsinit_key [keys]: "fsinit cur dev s = Ret t \<Longrightarrow> fkey t = fkey s"
  by (auto simp: fsinit_def elim!: kbind_RetE dest!: keys split: if_splits)

lemma bzero_key [keys]: "bzero cur dev blk s = Ret t \<Longrightarrow> fkey t = fkey s"
  by (auto simp: bzero_def elim!: kbind_RetE with_buf_key dest!: keys)

lemma balloc_round_key [keys]: "balloc_round cur dev b s = Ret (x, t) \<Longrightarrow> fkey t = fkey s"
  unfolding balloc_round_def by (erule with_buf_key) (auto elim!: kbind_RetE dest!: keys split: option.splits)

lemma balloc_loop_key [keys]: "balloc_loop cur dev k b s = Ret (x, t) \<Longrightarrow> fkey t = fkey s"
proof (induction k arbitrary: b s)
  case (Suc k)
  then show ?case by (auto elim!: kbind_RetE dest!: keys Suc.IH split: option.splits)
qed simp

lemma balloc_key [keys]: "balloc cur dev s = Ret (x, t) \<Longrightarrow> fkey t = fkey s"
  by (auto simp: balloc_def dest!: keys)

lemma bfree_key [keys]: "bfree cur dev b s = Ret t \<Longrightarrow> fkey t = fkey s"
  unfolding bfree_def by (erule kbind_RetE) (auto simp: Let_def elim!: kbind_RetE with_buf_key dest!: keys split: if_splits)

lemma iget_key [keys]: "iget dev inum s = Ret (ip, t) \<Longrightarrow> fkey t = fkey s"
  by (auto simp: iget_def split: option.splits)

lemma ialloc_loop_key [keys]: "ialloc_loop cur dev type k inum s = Ret (r, t) \<Longrightarrow> fkey t = fkey s"
proof (induction k arbitrary: inum s)
  case (Suc k)
  have 1: "fkey t = fkey s"
    if "with_buf cur dev blk (\<lambda>bp s. let ofs = inode_off i; d = buf_data (bufs s bp) in
       if get16 ofs d = 0
       then kbind (log_write bp (buf_set_data bp (put16 ofs type (put_bytes ofs (replicate DINODE_SIZE 0) d)) s)) (\<lambda>s.
            kbind (iget dev j s) (\<lambda>(ip, s). Ret (Some ip, s)))
       else Ret (None, s)) s = Ret (x, t)" for blk i j s t x
    using that by (rule with_buf_key) (auto simp: Let_def elim!: kbind_RetE dest!: keys split: if_splits)
  show ?case using Suc.prems by (auto elim!: kbind_RetE dest!: 1 Suc.IH split: option.splits)
qed simp

lemma ialloc_key [keys]: "ialloc cur dev type s = Ret (r, t) \<Longrightarrow> fkey t = fkey s"
  by (auto simp: ialloc_def dest!: keys)

lemma inode_acquire_key [keys]: "inode_acquire cur ip s = Ret t \<Longrightarrow> fkey t = fkey s"
  by (auto simp: inode_acquire_def split: if_splits)

lemma ilock_key [keys]: "ilock cur ip s = Ret t \<Longrightarrow> fkey t = fkey s"
proof -
  have 1: "fkey t = fkey s"
    if "with_buf cur dev blk (\<lambda>bp s. let s = upd_inode ip (f s bp) s in
        if d_type (din s ip) = 0 then Panic m else Ret ((), s)) s = Ret (x, t)" for dev blk f m s t x
    using that by (rule with_buf_key) (auto simp: Let_def split: if_splits)
  show "ilock cur ip s = Ret t \<Longrightarrow> fkey t = fkey s"
    unfolding ilock_def by (auto elim!: kbind_RetE dest!: keys 1 split: if_splits)
qed

lemma iunlock_key [keys]: "iunlock cur ip s = Ret t \<Longrightarrow> fkey t = fkey s"
  by (auto simp: iunlock_def split: if_splits)

lemma iupdate_key [keys]: "iupdate cur ip s = Ret t \<Longrightarrow> fkey t = fkey s"
  unfolding iupdate_def by (erule kbind_RetE) (auto elim!: kbind_RetE with_buf_key dest!: keys)

lemma bmap_direct_key [keys]: "bmap_direct cur ip bn s = Ret (x, t) \<Longrightarrow> fkey t = fkey s"
  by (auto simp: bmap_direct_def elim!: kbind_RetE dest!: keys split: if_splits)

lemma bmap_key [keys]: "bmap cur ip bn s = Ret (x, t) \<Longrightarrow> fkey t = fkey s"
  unfolding bmap_def Let_def
  by (auto elim!: kbind_RetE with_buf_keyE dest!: keys split: if_splits)

section \<open>Contents of files\<close>

lemma copyout_bytes_key [keys]: "copyout_bytes pt va bs s = Ret (r, t) \<Longrightarrow> fkey t = fkey s"
  by (subst (asm) copyout_bytes_bare) (auto elim!: kbind_RetE)

lemma readi_out_key [keys]: "readi_out cur dst tot bs s = Ret (r, dst', t) \<Longrightarrow> fkey t = fkey s"
  by (auto simp: readi_out_def elim!: kbind_RetE dest!: keys split: buffer.splits)

lemma readi_loop_key [keys]: "readi_loop cur ip dst off n tot s = Ret (r, dst', t) \<Longrightarrow> fkey t = fkey s"
proof (induction n arbitrary: dst off tot s rule: less_induct)
  case (less n)
  have 1: "fkey t = fkey s"
    if "with_buf cur dev blk (\<lambda>bp s. kbind (readi_out cur dst tot (f s bp) s) (\<lambda>(r, dst, s). Ret ((r, dst), s))) s = Ret (x, t)"
    for dev blk f s t x
    using that by (rule with_buf_key) (auto elim!: kbind_RetE dest!: keys)
  have m: "n - min n (BSIZE - off mod BSIZE) < n" if "0 < n" using that mod_less_divisor [of BSIZE off] by simp
  show ?case using less.prems
    by (subst (asm) readi_loop.simps)
      (auto simp: Let_def elim!: kbind_RetE dest!: keys 1 less.IH [OF m, rotated] split: if_splits)
qed

lemma readi_key [keys]: "readi cur ip dst off n s = Ret (r, dst', t) \<Longrightarrow> fkey t = fkey s"
  by (auto simp: readi_def Let_def elim!: kbind_RetE dest!: keys split: if_splits)

lemma writei_loop_key [keys]: "writei_loop cur ip src off n tot s = Ret (o', tot', t) \<Longrightarrow> fkey t = fkey s"
proof (induction n arbitrary: off tot s rule: less_induct)
  case (less n)
  have 1: "fkey t = fkey s"
    if "with_buf cur dev blk (\<lambda>bp s. kbind (writei_in cur src tot m s) (\<lambda>(ok, bs).
       let s = buf_set_data bp (f s bp bs) s in
       if \<not> ok then Ret (False, s) else kbind (log_write bp s) (\<lambda>s. Ret (True, s)))) s = Ret (x, t)" for dev blk m f s t x
    using that by (rule with_buf_key) (auto simp: Let_def elim!: kbind_RetE dest!: keys split: if_splits)
  have m: "n - min n (BSIZE - off mod BSIZE) < n" if "0 < n" using that mod_less_divisor [of BSIZE off] by simp
  show ?case using less.prems
    by (subst (asm) writei_loop.simps)
      (auto elim!: kbind_RetE dest!: keys 1 less.IH [OF m, rotated] simp del: min_less_iff_conj split: if_splits simp: Let_def [of "min _ _"])
qed

lemma writei_key [keys]: "writei cur ip src off n s = Ret (r, t) \<Longrightarrow> fkey t = fkey s"
  by (auto simp: writei_def Let_def elim!: kbind_RetE dest!: keys split: if_splits)

lemma itrunc_direct_key [keys]: "itrunc_direct cur ip k i s = Ret t \<Longrightarrow> fkey t = fkey s"
proof (induction k arbitrary: i s)
  case (Suc k)
  then show ?case by (auto elim!: kbind_RetE dest!: keys Suc.IH split: if_splits)
qed simp

lemma itrunc_indirect_key [keys]: "itrunc_indirect cur dev d k j s = Ret t \<Longrightarrow> fkey t = fkey s"
proof (induction k arbitrary: j s)
  case (Suc k)
  then show ?case by (auto elim!: kbind_RetE dest!: keys Suc.IH split: if_splits)
qed simp

lemma itrunc_key [keys]: "itrunc cur ip s = Ret t \<Longrightarrow> fkey t = fkey s"
proof -
  have 1: "fkey t = fkey s"
    if "with_buf cur dev blk (\<lambda>bp s. kbind (itrunc_indirect cur (f s) (g s bp) n 0 s) (\<lambda>s. Ret ((), s))) s = Ret (x, t)"
    for dev blk f g n s t x
    using that by (rule with_buf_key) (auto elim!: kbind_RetE dest!: keys)
  show "itrunc cur ip s = Ret t \<Longrightarrow> fkey t = fkey s"
    unfolding itrunc_def by (auto elim!: kbind_RetE dest!: keys 1 split: if_splits)
qed

lemma iput_key [keys]: "iput cur ip s = Ret t \<Longrightarrow> fkey t = fkey s"
  by (auto simp: iput_def elim!: kbind_RetE dest!: keys split: if_splits)

lemma iunlockput_key [keys]: "iunlockput cur ip s = Ret t \<Longrightarrow> fkey t = fkey s"
  by (auto simp: iunlockput_def elim!: kbind_RetE dest!: keys)

section \<open>Directories and paths\<close>

lemma read_dirent_key [keys]: "read_dirent cur dp off m s = Ret (r, t) \<Longrightarrow> fkey t = fkey s"
  by (auto simp: read_dirent_def elim!: kbind_RetE dest!: keys split: if_splits)

lemma dirlookup_loop_key [keys]: "dirlookup_loop cur dp name sz0 off s = Ret (r, t) \<Longrightarrow> fkey t = fkey s"
proof (induction "sz0 - off" arbitrary: off s rule: less_induct)
  case less
  show ?case using less.prems
    by (subst (asm) dirlookup_loop.simps)
      (auto elim!: kbind_RetE dest!: keys less.hyps [rotated] split: if_splits)
qed

lemma dirlookup_key [keys]: "dirlookup cur dp name s = Ret (r, t) \<Longrightarrow> fkey t = fkey s"
  by (auto simp: dirlookup_def dest!: keys split: if_splits)

lemma dirlink_slot_key [keys]: "dirlink_slot cur dp sz0 off s = Ret (r, t) \<Longrightarrow> fkey t = fkey s"
proof (induction "sz0 - off" arbitrary: off s rule: less_induct)
  case less
  show ?case using less.prems
    by (subst (asm) dirlink_slot.simps)
      (auto elim!: kbind_RetE dest!: keys less.hyps [rotated] split: if_splits)
qed

lemma dirlink_key [keys]: "dirlink cur dp name inum s = Ret (r, t) \<Longrightarrow> fkey t = fkey s"
  by (auto simp: dirlink_def elim!: kbind_RetE dest!: keys split: option.splits)

lemma namex_loop_key [keys]: "namex_loop cur np pth name ip s = Ret (r, name', t) \<Longrightarrow> fkey t = fkey s"
proof (induction "length pth" arbitrary: pth name ip s rule: less_induct)
  case less
  have IH: "namex_loop cur np' a b ip' s' = Ret (r, name', t) \<Longrightarrow> np' = np \<Longrightarrow> skipelem pth name = Some (a, b) \<Longrightarrow> fkey t = fkey s'" for np' a b ip' s'
    using less.hyps [OF skipelem_shorter] by simp
  show ?case using less.prems
    by (subst (asm) namex_loop.simps)
      (auto elim!: kbind_RetE dest!: keys IH split: if_splits option.splits)
qed

lemma namei_key [keys]: "namei cur pth s = Ret (r, t) \<Longrightarrow> fkey t = fkey s"
  by (auto simp: namei_def namex_def elim!: kbind_RetE dest!: keys split: if_splits option.splits)

lemma nameiparent_key [keys]: "nameiparent cur pth s = Ret (r, name, t) \<Longrightarrow> fkey t = fkey s"
  by (auto simp: nameiparent_def namex_def elim!: kbind_RetE dest!: keys split: if_splits option.splits)

section \<open>System calls on paths\<close>

lemma with_op_key: 
  assumes "with_op cur f s = Ret (x, t)" "\<And>s x t. f s = Ret (x, t) \<Longrightarrow> fkey t = fkey s"
  shows "fkey t = fkey s"
  using assms(1) by (auto simp: with_op_def elim!: kbind_RetE dest!: keys assms(2))

lemma with_lock_key:
  assumes "with_lock cur ip f s = Ret (x, t)" "\<And>s x t. f s = Ret (x, t) \<Longrightarrow> fkey t = fkey s"
  shows "fkey t = fkey s"
  using assms(1) by (auto simp: with_lock_def elim!: kbind_RetE dest!: keys assms(2))

lemma iput_opt_key [keys]: "iput_opt cur ip s = Ret t \<Longrightarrow> fkey t = fkey s"
  by (auto simp: iput_opt_def dest!: keys split: option.splits)

lemma link_new_key [keys]: "link_new cur ip name dp s = Ret (r, t) \<Longrightarrow> fkey t = fkey s"
  by (auto simp: link_new_def elim!: kbind_RetE with_lock_key dest!: keys split: option.splits if_splits)

lemma link_inode_key [keys]: "link_inode cur ip newp s = Ret (r, t) \<Longrightarrow> fkey t = fkey s"
  by (auto simp: link_inode_def elim!: kbind_RetE dest!: keys split: if_splits)

lemma isdirempty_loop_key [keys]: "isdirempty_loop cur dp sz0 off s = Ret (r, t) \<Longrightarrow> fkey t = fkey s"
proof (induction "sz0 - off" arbitrary: off s rule: less_induct)
  case less
  show ?case using less.prems
    by (subst (asm) isdirempty_loop.simps)
      (auto elim!: kbind_RetE dest!: keys less.hyps [rotated] split: if_splits)
qed

lemma unlink_entry_key [keys]: "unlink_entry cur dp ip off s = Ret (r, t) \<Longrightarrow> fkey t = fkey s"
  by (auto simp: unlink_entry_def isdirempty_def elim!: kbind_RetE dest!: keys split: if_splits)

lemma create_links_key [keys]: "create_links cur dp ip name type s = Ret (r, t) \<Longrightarrow> fkey t = fkey s"
  by (auto simp: create_links_def elim!: kbind_RetE dest!: keys split: if_splits)

lemma create_new_key [keys]: "create_new cur dp name type major minor s = Ret (r, t) \<Longrightarrow> fkey t = fkey s"
  by (auto simp: create_new_def elim!: kbind_RetE dest!: keys split: if_splits option.splits)

lemma create_key [keys]: "create cur pth type major minor s = Ret (r, t) \<Longrightarrow> fkey t = fkey s"
  by (auto simp: create_def elim!: kbind_RetE dest!: keys split: if_splits option.splits)

lemma create_and_put_key [keys]: "create_and_put cur pth type major minor s = Ret (r, t) \<Longrightarrow> fkey t = fkey s"
  by (auto simp: create_and_put_def elim!: kbind_RetE dest!: keys split: option.splits)

lemma sys_link_key [keys]: "sys_link cur s = Ret (r, t) \<Longrightarrow> fkey t = fkey s"
  by (auto simp: sys_link_def elim!: kbind_RetE with_op_key dest!: keys split: option.splits)

lemma sys_unlink_key [keys]: "sys_unlink cur s = Ret (r, t) \<Longrightarrow> fkey t = fkey s"
  by (auto simp: sys_unlink_def elim!: kbind_RetE with_op_key dest!: keys split: option.splits if_splits)

lemma sys_mkdir_key [keys]: "sys_mkdir cur s = Ret (r, t) \<Longrightarrow> fkey t = fkey s"
  by (auto simp: sys_mkdir_def elim!: kbind_RetE with_op_key dest!: keys split: option.splits)

lemma sys_mknod_key [keys]: "sys_mknod cur s = Ret (r, t) \<Longrightarrow> fkey t = fkey s"
  by (auto simp: sys_mknod_def elim!: kbind_RetE with_op_key dest!: keys split: option.splits)

lemma file_stat_key [keys]: "file_stat cur f addr s = Ret (r, t) \<Longrightarrow> fkey t = fkey s"
  by (auto simp: file_stat_def elim!: kbind_RetE with_lock_key dest!: keys split: option.splits if_splits)

section \<open>exec\<close>

lemma read_local_key [keys]: "read_local cur ip off n s = Ret (r, t) \<Longrightarrow> fkey t = fkey s"
  by (auto simp: read_local_def elim!: kbind_RetE dest!: keys)

lemma loadseg_loop_key [keys]: "loadseg_loop cur pt va ip offset n i s = Ret (r, t) \<Longrightarrow> fkey t = fkey s"
proof (induction "n - i" arbitrary: i s rule: less_induct)
  case less
  have IH: "loadseg_loop cur pt va ip offset n (i + 4096) s' = Ret (r, t) \<Longrightarrow> i < n \<Longrightarrow> fkey t = fkey s'" for s'
    by (rule less.hyps) auto
  show ?case using less.prems
    by (subst (asm) loadseg_loop.simps) (auto simp: Let_def elim!: kbind_RetE dest!: keys IH split: if_splits)
qed

lemma exec_load_key [keys]: "exec_load kend cur ip pt k off n s = Ret (r, n', t) \<Longrightarrow> fkey t = fkey s"
proof (induction k arbitrary: off n s)
  case (Suc k)
  then show ?case by (auto simp: Let_def loadseg_def elim!: kbind_RetE dest!: keys Suc.IH split: option.splits if_splits)
qed simp

lemma exec_error_key [keys]: "exec_error kend pt n s = Ret (r, t) \<Longrightarrow> fkey t = fkey s"
  by (auto simp: exec_error_def elim!: kbind_RetE dest!: keys split: if_splits)

lemma exec_image_key [keys]: "exec_image kend tr cur ip s = Ret (r, t) \<Longrightarrow> fkey t = fkey s"
  by (auto simp: exec_image_def Let_def elim!: kbind_RetE dest!: keys split: option.splits if_splits)

lemma exec_open_key [keys]: "exec_open kend tr cur pth s = Ret (r, t) \<Longrightarrow> fkey t = fkey s"
proof -
  have 1: "with_lock cur ip (exec_image kend tr cur ip) s = Ret (x, t) \<Longrightarrow> fkey t = fkey s" for ip s x and t :: "'a kfs_scheme"
    by (erule with_lock_key) (rule exec_image_key)
  show "exec_open kend tr cur pth s = Ret (r, t) \<Longrightarrow> fkey t = fkey s"
    unfolding exec_open_def by (erule with_op_key) (auto elim!: kbind_RetE dest!: keys 1 split: option.splits)
qed

lemma exec_push_key [keys]: "exec_push pt b argv sp u s = Ret (r, t) \<Longrightarrow> fkey t = fkey s"
proof (induction argv arbitrary: sp u s)
  case (Cons a argv)
  then show ?case by (auto simp: Let_def elim!: kbind_RetE dest!: keys Cons.IH split: if_splits)
qed simp

lemma exec_argv_key [keys]: "exec_argv pt b argv sp s = Ret (r, t) \<Longrightarrow> fkey t = fkey s"
  by (auto simp: exec_argv_def Let_def elim!: kbind_RetE dest!: keys split: option.splits if_splits)

end
