(* ===== verification/Descriptors.thy ===== *)
theory Descriptors
  imports Fs_Frame
begin

text \<open>
  File descriptors and the table of open files: the reference count of a file is the number of
  descriptors that name it, over all processes, plus the references that a system call in progress holds in its
  guards. Every system call keeps this.
\<close>

section \<open>The invariant\<close>

definition fd_refs :: "'a kfiles_scheme \<Rightarrow> nat \<Rightarrow> (nat \<times> nat) set" where
  "fd_refs s f = {(i, fd). i < NPROC \<and> fd < NOFILE \<and> ofile (processes s i) fd = Some f}"

definition dead :: "process \<Rightarrow> bool" where
  "dead p \<longleftrightarrow> pstate p = UNUSED \<or> pstate p = ZOMBIE"

text \<open>
  \<open>E f\<close> is the number of references to \<open>f\<close> that guards hold; the files \<open>N\<close> may be named by a descriptor before
  their type has been set.
\<close>

definition file_typed :: "ofile_t \<Rightarrow> bool" where
  "file_typed x \<longleftrightarrow> (f_ref x = 0 \<longrightarrow> f_type x = FD_NONE) \<and> (f_type x = FD_PIPE \<longrightarrow> f_pp x \<noteq> None) \<and>
     (f_type x = FD_INODE \<or> f_type x = FD_DEVICE \<longrightarrow> f_ip x \<noteq> None)"

definition fd_ok :: "(nat \<Rightarrow> nat) \<Rightarrow> nat set \<Rightarrow> 'a kfiles_scheme \<Rightarrow> bool" where
  "fd_ok E N s \<longleftrightarrow>
     (\<forall>f < NFILE. unat (f_ref (files s f)) = card (fd_refs s f) + E f \<and> file_typed (files s f) \<and>
        (f_type (files s f) = FD_NONE \<and> f \<notin> N \<longrightarrow> fd_refs s f = {})) \<and>
     (\<forall>i < NPROC. \<forall>fd < NOFILE. \<forall>f. ofile (processes s i) fd = Some f \<longrightarrow> f < NFILE) \<and>
     (\<forall>i < NPROC. dead (processes s i) \<longrightarrow> (\<forall>fd < NOFILE. ofile (processes s i) fd = None))"

text \<open>What the invariant depends on.\<close>

definition fdkey :: "'a kfiles_scheme \<Rightarrow> (nat \<Rightarrow> u32 \<times> file_type \<times> bool \<times> bool) \<times> (nat \<Rightarrow> (nat \<Rightarrow> nat option) \<times> bool)" where
  "fdkey s = (\<lambda>f. let x = files s f in (f_ref x, f_type x, f_pp x = None, f_ip x = None),
     \<lambda>i. (ofile (processes s i), dead (processes s i)))"

lemma fdkey_eqD:
  assumes "fdkey t = fdkey s"
  shows "f_ref (files t f) = f_ref (files s f)" "f_type (files t f) = f_type (files s f)"
    "file_typed (files t f) = file_typed (files s f)"
    "ofile (processes t i) = ofile (processes s i)" "dead (processes t i) = dead (processes s i)"
    "fd_refs t f = fd_refs s f"
proof -
  have a: "(f_ref (files t f), f_type (files t f), f_pp (files t f) = None, f_ip (files t f) = None) =
      (f_ref (files s f), f_type (files s f), f_pp (files s f) = None, f_ip (files s f) = None)" for f
    using fun_cong [OF arg_cong [OF assms, of fst], of f] unfolding fdkey_def fst_conv Let_def .
  have b: "(ofile (processes t i), dead (processes t i)) = (ofile (processes s i), dead (processes s i))" for i
    using fun_cong [OF arg_cong [OF assms, of snd], of i] unfolding fdkey_def snd_conv Let_def .
  show "f_ref (files t f) = f_ref (files s f)" "f_type (files t f) = f_type (files s f)"
    "file_typed (files t f) = file_typed (files s f)" using a [of f] by (auto simp: file_typed_def)
  show "ofile (processes t i) = ofile (processes s i)" "dead (processes t i) = dead (processes s i)" using b [of i] by auto
  show "fd_refs t f = fd_refs s f" using b by (auto simp: fd_refs_def)
qed

lemma fd_ok_key: "fdkey t = fdkey s \<Longrightarrow> fd_ok E N t = fd_ok E N s"
  unfolding fd_ok_def by (simp add: fdkey_eqD [of t s])

lemma fkey_fdkey: "fkey t = fkey s \<Longrightarrow> fdkey t = fdkey s"
proof -
  assume a: "fkey t = fkey s"
  have f: "files t = files s" using a by (cases s, cases t) (simp add: fkey_def)
  have p: "pcore (processes t i) = pcore (processes s i)" for i using a by (simp add: fkey_def fun_eq_iff)
  have o: "ofile (processes t i) = ofile (processes s i)" for i using arg_cong [OF p, of ofile] by (simp add: pcore_def)
  have "dead p \<longleftrightarrow> dead (pcore p)" for p by (cases "pstate p") (simp_all add: dead_def pcore_def)
  then have "dead (processes t i) = dead (processes s i)" for i using p [of i] by metis
  then show ?thesis by (simp add: fdkey_def f o)
qed

lemma finite_fd_refs [simp]: "finite (fd_refs s f)"
  by (rule finite_subset [of _ "{..<NPROC} \<times> {..<NOFILE}"]) (auto simp: fd_refs_def)

lemma card_fd_refs: "card (fd_refs s f) \<le> 1024"
proof -
  have "card (fd_refs s f) \<le> card ({..<NPROC} \<times> {..<NOFILE})" by (rule card_mono) (auto simp: fd_refs_def)
  then show ?thesis by simp
qed

section \<open>Operations on the table\<close>

lemma upd_file_simps [simp]:
  "files (upd_file f g s) = (files s)(f := g (files s f))" "processes (upd_file f g s) = processes s"
  "fd_refs (upd_file f g s) = fd_refs s" "pipes (upd_file f g s) = pipes s" "ram (upd_file f g s) = ram s"
  by (simp_all add: upd_file_def fd_refs_def fun_eq_iff)

lemma files_set_ofile [simp]: "files (set_ofile cur fd x s) = files s"
  by (simp add: set_ofile_def upd_proc_def)

lemma ofile_set_ofile [simp]:
  "ofile (processes (set_ofile cur fd x s) i) =
     (if i = cur then (ofile (processes s cur))(fd := x) else ofile (processes s i))"
  by (simp add: set_ofile_def upd_proc_def)

lemma dead_set_ofile [simp]: "dead (processes (set_ofile cur fd x s) i) = dead (processes s i)"
  by (simp add: dead_def set_ofile_def upd_proc_def)

lemma fd_refs_set_Some:
  assumes "cur < NPROC" "fd < NOFILE" "ofile (processes s cur) fd = None"
  shows "fd_refs (set_ofile cur fd (Some f) s) g = (if g = f then insert (cur, fd) (fd_refs s f) else fd_refs s g)"
  using assms by (auto simp: fd_refs_def split: if_splits)

lemma fd_refs_set_None:
  assumes "ofile (processes s cur) fd = Some f"
  shows "fd_refs (set_ofile cur fd None s) g = (if g = f then fd_refs s f - {(cur, fd)} else fd_refs s g)"
  using assms by (auto simp: fd_refs_def split: if_splits)

text \<open>A reference moves from a guard to a descriptor, and back.\<close>

lemma fd_ok_set_Some:
  assumes ok: "fd_ok E N s" and c: "cur < NPROC" "fd < NOFILE" "ofile (processes s cur) fd = None" "\<not> dead (processes s cur)"
    and f: "f < NFILE" "E f = Suc k" "f_type (files s f) = FD_NONE \<longrightarrow> f \<in> N"
  shows "fd_ok (E(f := k)) N (set_ofile cur fd (Some f) s)"
proof -
  note r = fd_refs_set_Some [OF c(1-3), of f]
  have "(cur, fd) \<notin> fd_refs s f" using c(3) by (simp add: fd_refs_def)
  then have "card (insert (cur, fd) (fd_refs s f)) = Suc (card (fd_refs s f))" by simp
  then show ?thesis unfolding fd_ok_def r using ok f c(4) by (auto simp: fd_ok_def)
qed

lemma fd_ok_set_None:
  assumes ok: "fd_ok E N s" and c: "cur < NPROC" "fd < NOFILE" "ofile (processes s cur) fd = Some f"
  shows "fd_ok (E(f := Suc (E f))) N (set_ofile cur fd None s)"
proof -
  note r = fd_refs_set_None [OF c(3)]
  have m: "(cur, fd) \<in> fd_refs s f" using c by (simp add: fd_refs_def)
  then have "Suc (card (fd_refs s f - {(cur, fd)})) = card (fd_refs s f)" by (intro card_Suc_Diff1) simp_all
  then have "card (fd_refs s f) = Suc (card (fd_refs s f - {(cur, fd)}))" by simp
  then show ?thesis unfolding fd_ok_def r using ok by (auto simp: fd_ok_def split: if_splits)
qed

text \<open>The operations on files change only the references in guards.\<close>

lemma file_dup_ok:
  assumes ok: "fd_ok E N s" and f: "f < NFILE" "E f \<le> 1" "fd_refs s f \<noteq> {}"
  shows "\<exists>t. file_dup f s = Ret t \<and> fd_ok (E(f := Suc (E f))) N t \<and> processes t = processes s \<and>
    files t = (files s)(f := (files s f)\<lparr>f_ref := f_ref (files s f) + 1\<rparr>)"
proof -
  let ?x = "files s f"
  have u: "unat (f_ref ?x) = card (fd_refs s f) + E f" using ok f(1) by (simp add: fd_ok_def)
  moreover have "0 < card (fd_refs s f)" using f(3) by (simp add: card_gt_0_iff)
  ultimately have r: "\<not> f_ref ?x < 1" "unat (f_ref ?x) + 1 < 2 ^ 32" using card_fd_refs [of s f] f(2) by (auto simp: word_less_nat_alt)
  then have "unat (f_ref ?x + 1) = unat (f_ref ?x) + 1" by (simp add: unat_word_ariths)
  moreover have "f_ref ?x + 1 \<noteq> 0" using calculation by (metis add_is_0 unat_0 one_neq_zero)
  ultimately have "fd_ok (E(f := Suc (E f))) N (upd_file f (\<lambda>x. x\<lparr>f_ref := f_ref x + 1\<rparr>) s)"
    using ok u by (auto simp: fd_ok_def file_typed_def)
  then show ?thesis using r(1) by (auto simp: file_dup_def)
qed

lemma fdkey_wakeup [simp]: "fdkey (wakeup cur c s) = fdkey s"
  by (auto simp: fdkey_def wakeup_def dead_def Let_def fun_eq_iff)

lemma fdkey_upd_pipe [simp]: "fdkey (upd_pipe p f s) = fdkey s"
  by (simp add: fdkey_def upd_pipe_def)

lemma pipe_close_key [simp]: "fdkey (pipe_close cur p w s) = fdkey s"
  by (simp add: pipe_close_def)

text \<open>Closing the last reference goes through the log or the pipe, which do not see the table.\<close>

lemma file_close_ok:
  assumes ok: "fd_ok E N s" and f: "f < NFILE" "E f = Suc k" "k \<le> 1" and c: "file_close cur f s = Ret t"
  shows "fd_ok (E(f := k)) N t"
proof -
  let ?x = "files s f"
  have u: "unat (f_ref ?x) = card (fd_refs s f) + Suc k" using ok f by (simp add: fd_ok_def)
  then have r: "\<not> f_ref ?x < 1" "unat (f_ref ?x - 1) = card (fd_refs s f) + k"
    by (auto simp: word_less_nat_alt) (metis add_Suc_right diff_Suc_1 unat_0 unat_minus_one nat.distinct(1))
  show ?thesis
  proof (cases "f_ref ?x - 1 > 0")
    case True
    then have "t = upd_file f (\<lambda>x. x\<lparr>f_ref := f_ref x - 1\<rparr>) s" using c r(1) by (simp add: file_close_def)
    moreover have "f_ref ?x - 1 \<noteq> 0" using True by auto
    ultimately show ?thesis using ok r(2) by (auto simp: fd_ok_def file_typed_def)
  next
    case False
    let ?s = "upd_file f (\<lambda>x. x\<lparr>f_ref := 0, f_type := FD_NONE\<rparr>) s"
    have z: "card (fd_refs s f) = 0" "k = 0" using False r(2) by (auto simp: word_less_nat_alt)
    then have "fd_refs s f = {}" by simp
    then have ok': "fd_ok (E(f := k)) N ?s" using ok z by (auto simp: fd_ok_def file_typed_def)
    have w: "with_op cur (\<lambda>s. kbind (iput_opt cur i s) (\<lambda>s. Ret ((), s))) ?s = Ret (x, t) \<Longrightarrow> fkey t = fkey ?s" for i x
      by (erule with_op_key) (auto elim!: kbind_RetE dest!: keys)
    have c': "(case f_type ?x of
          FD_PIPE \<Rightarrow> (case f_pp ?x of None \<Rightarrow> Panic ''null pipe'' | Some p \<Rightarrow> Ret (pipe_close cur p (f_writable ?x) ?s))
        | FD_NONE \<Rightarrow> Ret ?s
        | _ \<Rightarrow> kbind (with_op cur (\<lambda>s. kbind (iput_opt cur (f_ip ?x) s) (\<lambda>s. Ret ((), s))) ?s) (\<lambda>(_, s). Ret s)) = Ret t"
      using c r(1) False by (simp only: file_close_def Let_def if_False)
    have "fdkey t = fdkey ?s"
    proof (cases "f_type ?x")
      case FD_PIPE
      then show ?thesis using c' by (cases "f_pp ?x") auto
    qed (use c' in \<open>auto elim!: kbind_RetE dest!: w fkey_fdkey\<close>)
    then show ?thesis using ok' fd_ok_key by blast
  qed
qed

lemma alloc_file_ok:
  assumes ok: "fd_ok E N s" and a: "alloc_file s = (Some f, t)"
  shows "f < NFILE" "E f = 0" "fd_refs s f = {}" "fd_ok (E(f := 1)) N t" "processes t = processes s"
    "files t = (files s)(f := (files s f)\<lparr>f_ref := 1\<rparr>)" "f_type (files s f) = FD_NONE"
proof -
  have f: "f < NFILE" "f_ref (files s f) = 0" and t: "t = upd_file f (\<lambda>x. x\<lparr>f_ref := 1\<rparr>) s"
    using a find_upt_Some [of "\<lambda>f. f_ref (files s f) = 0" NFILE f] unfolding alloc_file_def by (simp_all split: option.splits)
  then show "f < NFILE" "processes t = processes s" "files t = (files s)(f := (files s f)\<lparr>f_ref := 1\<rparr>)" by simp_all
  have z: "card (fd_refs s f) + E f = 0" "f_type (files s f) = FD_NONE" using ok f by (auto simp: fd_ok_def file_typed_def)
  then show "E f = 0" "f_type (files s f) = FD_NONE" by simp_all
  show e: "fd_refs s f = {}" using z(1) by simp
  show "fd_ok (E(f := 1)) N t" unfolding t using ok z e by (auto simp: fd_ok_def file_typed_def)
qed

lemma fdalloc_Some:
  "fdalloc cur f s = (Some fd, t) \<Longrightarrow>
    fd < NOFILE \<and> ofile (processes s cur) fd = None \<and> t = set_ofile cur fd (Some f) s \<and>
    (\<forall>fd' < fd. ofile (processes s cur) fd' \<noteq> None)"
  using find_upt_Some [of "\<lambda>fd. get_ofile cur fd s = None" NOFILE]
  by (fastforce simp: fdalloc_def get_ofile_def split: option.splits)

lemma fdalloc_None: "fdalloc cur f s = (None, t) \<Longrightarrow> t = s"
  by (auto simp: fdalloc_def split: option.splits)

section \<open>System calls on descriptors\<close>

definition refs_ok :: "'a kfiles_scheme \<Rightarrow> bool" where
  "refs_ok s \<longleftrightarrow> fd_ok (\<lambda>_. 0) {} s"

lemma zero_upd [simp]: "(\<lambda>_. 0 :: nat)(f := 0) = (\<lambda>_. 0)"
  by auto

definition live :: "nat \<Rightarrow> 'a kprocs_scheme \<Rightarrow> bool" where
  "live cur s \<longleftrightarrow> cur < NPROC \<and> \<not> dead (processes s cur)"

lemma argfd_Some:
  "argfd cur n s = Ret (Some (fd, f)) \<Longrightarrow> fd < NOFILE \<and> ofile (processes s cur) fd = Some f"
  by (auto simp: argfd_def get_ofile_def elim!: kbind_RetE split: if_splits)

lemma refs_ok_file:
  assumes "refs_ok s" "cur < NPROC" "fd < NOFILE" "ofile (processes s cur) fd = Some f"
  shows "f < NFILE" "fd_refs s f \<noteq> {}" "f_type (files s f) \<noteq> FD_NONE" "f_ref (files s f) \<noteq> 0" "file_typed (files s f)"
proof -
  have m: "(cur, fd) \<in> fd_refs s f" using assms(2-) by (simp add: fd_refs_def)
  then show "fd_refs s f \<noteq> {}" by blast
  have "card (fd_refs s f) \<noteq> 0" using m by auto
  moreover show f: "f < NFILE" using assms by (auto simp: refs_ok_def fd_ok_def)
  ultimately show "f_ref (files s f) \<noteq> 0" using assms(1) by (auto simp: refs_ok_def fd_ok_def)
  show "f_type (files s f) \<noteq> FD_NONE" "file_typed (files s f)" using assms(1) f m by (auto simp: refs_ok_def fd_ok_def)
qed

lemma upd_file_set_ofile: "upd_file f g (set_ofile cur fd x s) = set_ofile cur fd x (upd_file f g s)"
  by (simp add: upd_file_def set_ofile_def upd_proc_def)

lemma sys_dup_ok:
  assumes ok: "refs_ok s" and l: "live cur s" and a: "argfd cur 0 s = Ret (Some (fd, f))"
    and d: "fdalloc cur f s = (Some fd', s')"
  shows "\<exists>t. sys_dup cur s = Ret (int fd', t) \<and> refs_ok t \<and> f_ref (files t f) = f_ref (files s f) + 1 \<and>
    ofile (processes t cur) = (ofile (processes s cur))(fd' := Some f)"
proof -
  have c: "cur < NPROC" "\<not> dead (processes s cur)" using l by (auto simp: live_def)
  have fd: "fd < NOFILE" "ofile (processes s cur) fd = Some f" using argfd_Some [OF a] by auto
  note rf = refs_ok_file [OF ok c(1) fd]
  have d': "fd' < NOFILE" "ofile (processes s cur) fd' = None" "s' = set_ofile cur fd' (Some f) s" using fdalloc_Some [OF d] by auto
  obtain s1 where s1: "file_dup f s = Ret s1" "fd_ok ((\<lambda>_. 0)(f := Suc 0)) {} s1" "processes s1 = processes s"
      "files s1 = (files s)(f := (files s f)\<lparr>f_ref := f_ref (files s f) + 1\<rparr>)"
    using file_dup_ok [OF ok [unfolded refs_ok_def] rf(1) _ rf(2)] by auto
  have "\<not> f_ref (files s f) < 1" using rf(4) by (simp add: word_less_nat_alt unat_eq_zero)
  then have "file_dup f s' = Ret (set_ofile cur fd' (Some f) s1)"
    using s1(1) by (auto simp: file_dup_def d'(3) upd_file_set_ofile)
  moreover have "fd_ok ((\<lambda>_. 0)(f := 0)) {} (set_ofile cur fd' (Some f) s1)"
    using fd_ok_set_Some [OF s1(2) c(1) d'(1), of f 0] d'(2) c(2) rf(1,3) s1(3,4) by simp
  ultimately show ?thesis using a d s1(3,4) by (auto simp: sys_dup_def refs_ok_def)
qed

lemma sys_dup_keeps: "refs_ok s \<Longrightarrow> live cur s \<Longrightarrow> sys_dup cur s = Ret (r, t) \<Longrightarrow> refs_ok t"
proof -
  assume a: "refs_ok s" "live cur s" "sys_dup cur s = Ret (r, t)"
  obtain x where x: "argfd cur 0 s = Ret x" using a(3) by (auto simp: sys_dup_def elim!: kbind_RetE)
  show ?thesis
  proof (cases x)
    case None
    then show ?thesis using a x by (simp add: sys_dup_def)
  next
    case (Some y)
    obtain fd f where y: "y = (fd, f)" by (cases y)
    obtain o' s' where d: "fdalloc cur f s = (o', s')" by (cases "fdalloc cur f s")
    show ?thesis
    proof (cases o')
      case None
      then show ?thesis using a x d Some y fdalloc_None [of cur f s s'] by (auto simp: sys_dup_def)
    next
      case (Some fd')
      then show ?thesis using sys_dup_ok [OF a(1,2), of fd f fd' s'] a(3) x d y \<open>x = Some y\<close> by auto
    qed
  qed
qed

lemma sys_close_keeps: "refs_ok s \<Longrightarrow> live cur s \<Longrightarrow> sys_close cur s = Ret (r, t) \<Longrightarrow> refs_ok t"
proof -
  assume a: "refs_ok s" "live cur s" "sys_close cur s = Ret (r, t)"
  have *: "refs_ok t" if x: "argfd cur 0 s = Ret (Some (fd, f))" "file_close cur f (set_ofile cur fd None s) = Ret t" for fd f
  proof -
    have fd: "fd < NOFILE" "ofile (processes s cur) fd = Some f" and c: "cur < NPROC"
      using argfd_Some [OF x(1)] a(2) by (auto simp: live_def)
    note rf = refs_ok_file [OF a(1) c fd]
    have "fd_ok ((\<lambda>_. 0)(f := Suc 0)) {} (set_ofile cur fd None s)"
      using fd_ok_set_None [OF a(1) [unfolded refs_ok_def] c fd] .
    from file_close_ok [OF this rf(1) _ _ x(2)] show ?thesis by (simp add: refs_ok_def)
  qed
  show ?thesis using a(1,3) by (auto simp: sys_close_def elim!: kbind_RetE dest: * split: option.splits)
qed

text \<open>Giving an allocated file its type.\<close>

lemma fd_ok_set_type:
  assumes "fd_ok E N s" "f_ref (g (files s f)) = f_ref (files s f)" "file_typed (g (files s f))" "f_type (g (files s f)) \<noteq> FD_NONE"
  shows "fd_ok E (N - {f}) (upd_file f g s)"
  using assms by (auto simp: fd_ok_def)

lemma open_inode_keeps:
  assumes ok: "refs_ok s" and l: "live cur s" and e: "open_inode cur omode ip s = Ret (r, t)"
  shows "refs_ok t"
proof -
  have c: "cur < NPROC" "\<not> dead (processes s cur)" using l by (auto simp: live_def)
  have k: "iunlockput cur ip s' = Ret t' \<Longrightarrow> fd_ok E N s' \<Longrightarrow> fd_ok E N t'" for s' E N and t' :: "'a kfiles_scheme"
    using fd_ok_key fkey_fdkey iunlockput_key by blast
  consider (dev) "kbind (iunlockput cur ip s) (\<lambda>s. Ret (- 1 :: int, s)) = Ret (r, t)"
    | (none) s1 where "alloc_file s = (None, s1)" "kbind (iunlockput cur ip s1) (\<lambda>s. Ret (- 1 :: int, s)) = Ret (r, t)"
    | (full) f s1 s2 where "alloc_file s = (Some f, s1)" "fdalloc cur f s1 = (None, s2)"
        "kbind (file_close cur f s2) (\<lambda>s. kbind (iunlockput cur ip s) (\<lambda>s. Ret (- 1 :: int, s))) = Ret (r, t)"
    | (ok) f s1 fd s2 s3 where "alloc_file s = (Some f, s1)" "fdalloc cur f s1 = (Some fd, s2)"
        "fkey t = fkey s3" "s3 = upd_file f (open_file ip omode (din s2 ip)) s2"
    using e unfolding open_inode_def Let_def
    by (auto elim!: kbind_RetE dest!: itrunc_key iunlock_key split: if_splits prod.splits option.splits)
  then show ?thesis
  proof cases
    case dev
    then show ?thesis using k ok by (auto simp: refs_ok_def elim!: kbind_RetE)
  next
    case none
    then have "s1 = s" by (auto simp: alloc_file_def split: option.splits)
    then show ?thesis using none k ok by (auto simp: refs_ok_def elim!: kbind_RetE)
  next
    case full
    note al = alloc_file_ok [OF ok [unfolded refs_ok_def] full(1)]
    have s2: "s2 = s1" using fdalloc_None [OF full(2)] .
    obtain s3 where s3: "file_close cur f s2 = Ret s3" "iunlockput cur ip s3 = Ret t" using full(3) by (auto elim!: kbind_RetE)
    have "fd_ok ((\<lambda>_. 0)(f := 0)) {} s3" using file_close_ok [OF al(4) al(1), of 0 cur s3] s3(1) s2 by simp
    then show ?thesis using k s3(2) by (auto simp: refs_ok_def)
  next
    case ok': ok
    note al = alloc_file_ok [OF ok [unfolded refs_ok_def] ok'(1)]
    have d: "fd < NOFILE" "ofile (processes s1 cur) fd = None" "s2 = set_ofile cur fd (Some f) s1" using fdalloc_Some [OF ok'(2)] by auto
    have "fd_ok ((\<lambda>_. 0)(f := 1)) {f} s1" using al(4) by (auto simp: fd_ok_def)
    then have "fd_ok ((\<lambda>_. 0)(f := 0)) {f} s2"
      using fd_ok_set_Some [of "(\<lambda>_. 0)(f := 1)" "{f}" s1 cur fd f 0] c d al(1,5) by simp
    then have "fd_ok (\<lambda>_. 0) {f} s2" by simp
    moreover have "f_ref (files s2 f) = 1" using d(3) al(6) by simp
    ultimately have "fd_ok (\<lambda>_. 0) ({f} - {f}) s3"
      unfolding ok'(4) by (intro fd_ok_set_type) (auto simp: open_file_def file_typed_def)
    then show ?thesis using fd_ok_key fkey_fdkey [OF ok'(3)] by (auto simp: refs_ok_def)
  qed
qed

text \<open>What keeps the key keeps the invariant.\<close>

lemma refs_ok_key: "fdkey t = fdkey s \<Longrightarrow> refs_ok s \<Longrightarrow> refs_ok t"
  unfolding refs_ok_def using fd_ok_key by blast

lemma live_key: "fdkey t = fdkey s \<Longrightarrow> live cur s \<Longrightarrow> live cur t"
  using fdkey_eqD(5) by (auto simp: live_def)

lemmas ref_keys = refs_ok_key [OF fkey_fdkey] live_key [OF fkey_fdkey]

lemma with_op_keeps:
  assumes "with_op cur f s = Ret (x, t)" "refs_ok s" "live cur s"
    and f: "\<And>s x t. f s = Ret (x, t) \<Longrightarrow> refs_ok s \<Longrightarrow> live cur s \<Longrightarrow> refs_ok t"
  shows "refs_ok t"
proof -
  obtain s1 s2 where "begin_op s = Ret s1" "f s1 = Ret (x, s2)" "end_op cur s2 = Ret t"
    using assms(1) by (auto simp: with_op_def elim!: kbind_RetE)
  then show ?thesis using assms(2,3) f ref_keys begin_op_key end_op_key by metis
qed

lemma open_inode_keeps':
  "open_inode cur omode ip s' = Ret (r, t) \<Longrightarrow> fkey s' = fkey s \<Longrightarrow> refs_ok s \<Longrightarrow> live cur s \<Longrightarrow> refs_ok t"
  using open_inode_keeps ref_keys by blast

lemma sys_open_keeps:
  assumes ok: "refs_ok s" "live cur s" and e: "sys_open cur s = Ret (r, t)"
  shows "refs_ok t"
proof -
  from e obtain m pth where "argint cur 1 s = Ret m" "argstr cur 0 MAXPATH s = Ret pth" by (auto simp: sys_open_def Let_def elim!: kbind_RetE)
  with e ok show ?thesis
    by (auto simp: sys_open_def Let_def elim!: kbind_RetE with_op_keeps dest!: create_key namei_key ilock_key iunlockput_key
      split: option.splits if_splits; metis open_inode_keeps' ref_keys(1))
qed

lemma alloc_pipe_keeps:
  assumes ok: "refs_ok s" and e: "alloc_pipe cur s = Ret (r, t)"
  shows "case r of None \<Rightarrow> refs_ok t
    | Some (a, b) \<Rightarrow> a \<noteq> b \<and> a < NFILE \<and> b < NFILE \<and> fd_ok ((\<lambda>_. 0)(a := 1, b := 1)) {} t \<and>
       f_type (files t a) \<noteq> FD_NONE \<and> f_type (files t b) \<noteq> FD_NONE \<and> processes t = processes s"
proof -
  obtain f0 s1 where a0: "alloc_file s = (f0, s1)" by (cases "alloc_file s")
  show ?thesis
  proof (cases f0)
    case None
    then have "s1 = s" using a0 by (auto simp: alloc_file_def split: option.splits)
    then show ?thesis using e a0 None ok by (simp add: alloc_pipe_def close_opt_def)
  next
    case (Some a)
    note A = alloc_file_ok [OF ok [unfolded refs_ok_def] a0 [unfolded Some]]
    obtain f1 s2 where a1: "alloc_file s1 = (f1, s2)" by (cases "alloc_file s1")
    show ?thesis
    proof (cases f1)
      case None
      then have s2: "s2 = s1" using a1 by (auto simp: alloc_file_def split: option.splits)
      then have "file_close cur a s1 = Ret t" "r = None"
        using e a0 a1 None Some by (auto simp: alloc_pipe_def close_opt_def elim!: kbind_RetE)
      then show ?thesis using file_close_ok [OF A(4,1), of 0 cur t] by (simp add: refs_ok_def)
    next
      case (Some b)
      note B = alloc_file_ok [OF A(4) a1 [unfolded Some]]
      have ne: "a \<noteq> b" using B(2) by auto
      let ?E = "(\<lambda>_. 0 :: nat)(a := 1, b := 1)"
      show ?thesis
      proof (cases "find (\<lambda>p. \<not> readopen (pipes s2 p) \<and> \<not> writeopen (pipes s2 p)) [0..<NFILE div 2]")
        case None
        then obtain s3 where s3: "file_close cur b s2 = Ret s3" "file_close cur a s3 = Ret t" "r = None"
          using e a0 a1 \<open>f0 = Some a\<close> Some unfolding alloc_pipe_def Let_def by (auto elim!: kbind_RetE simp del: upt_conv_Cons)
        have "fd_ok (?E(b := 0)) {} s3" using file_close_ok [OF B(4,1), of 0 cur s3] s3(1) by simp
        then show ?thesis using file_close_ok [of "?E(b := 0)" "{}" s3 a 0 cur t] A(1) ne s3(2,3)
          by (simp add: refs_ok_def fun_upd_twist)
      next
        case (Some p)
        let ?s1 = "upd_pipe p (\<lambda>x. x\<lparr>readopen := True, writeopen := True, nwrite := 0, nread := 0\<rparr>) s2"
        let ?s2 = "upd_file a (\<lambda>x. x\<lparr>f_type := FD_PIPE, f_readable := True, f_writable := False, f_pp := Some p\<rparr>) ?s1"
        let ?s3 = "upd_file b (\<lambda>x. x\<lparr>f_type := FD_PIPE, f_readable := False, f_writable := True, f_pp := Some p\<rparr>) ?s2"
        have t: "t = ?s3" "r = Some (a, b)"
          using e a0 a1 \<open>f0 = Some a\<close> \<open>f1 = Some b\<close> Some unfolding alloc_pipe_def Let_def by simp_all
        have f: "f_ref (files s2 a) = 1" "f_ref (files s2 b) = 1" using A(6) B(6) ne by simp_all
        have fs: "files ?s1 = files s2" "processes ?s1 = processes s2" by (simp_all add: upd_pipe_def)
        have "fd_ok ?E {} ?s1" using B(4) fd_ok_key [of ?s1 s2] by simp
        then have "fd_ok ?E ({} - {a}) ?s2" by (rule fd_ok_set_type) (use f fs in \<open>auto simp: file_typed_def\<close>)
        then have "fd_ok ?E ({} - {a} - {b}) ?s3" by (rule fd_ok_set_type) (use f fs ne in \<open>auto simp: file_typed_def\<close>)
        then show ?thesis using A(1,5) B(1,5) ne unfolding t by (simp add: fs)
      qed
    qed
  qed
qed

text \<open>The two references of \<open>sys_pipe\<close>, and giving them back.\<close>

abbreviation (input) two_refs :: "nat \<Rightarrow> nat \<Rightarrow> nat \<Rightarrow> nat" where
  "two_refs a b \<equiv> (\<lambda>_. 0)(a := 1, b := 1)"

lemma close_both:
  assumes c: "kbind (file_close cur b s) (\<lambda>s. kbind (file_close cur a s) (\<lambda>s. Ret (- 1 :: int, s))) = Ret (r, t)"
    and ok: "fd_ok (two_refs a b) {} s" and ab: "a \<noteq> b" "a < NFILE" "b < NFILE"
  shows "refs_ok t"
proof -
  obtain s2 where s2: "file_close cur b s = Ret s2" "file_close cur a s2 = Ret t" using c by (auto elim!: kbind_RetE)
  have "fd_ok ((two_refs a b)(b := 0)) {} s2" using file_close_ok [OF ok ab(3), of 0 cur s2] s2(1) by simp
  then show ?thesis using file_close_ok [of "(two_refs a b)(b := 0)" "{}" s2 a 0 cur t] ab s2
    by (simp add: refs_ok_def fun_upd_twist)
qed

lemma undo_both:
  assumes ok: "refs_ok s" and c: "cur < NPROC" "fd0 < NOFILE" "fd1 < NOFILE" "fd0 \<noteq> fd1" "a \<noteq> b"
    and fds: "ofile (processes s cur) fd0 = Some a" "ofile (processes s cur) fd1 = Some b"
  shows "fd_ok (two_refs a b) {} (set_ofile cur fd1 None (set_ofile cur fd0 None s))"
proof -
  have "fd_ok ((\<lambda>_. 0)(a := 1)) {} (set_ofile cur fd0 None s)"
    using fd_ok_set_None [OF ok [unfolded refs_ok_def] c(1,2) fds(1)] by simp
  then show ?thesis using fd_ok_set_None [of _ "{}" "set_ofile cur fd0 None s" cur fd1 b] c fds by fastforce
qed

lemma sys_pipe_fds:
  assumes ok: "fd_ok (two_refs a b) {} s0" and l: "live cur s0"
    and ab: "a \<noteq> b" "a < NFILE" "b < NFILE" "f_type (files s0 a) \<noteq> FD_NONE" "f_type (files s0 b) \<noteq> FD_NONE"
    and d: "fdalloc cur a s0 = (Some fd0, s1)"
  shows "fdalloc cur b s1 = (None, s2) \<Longrightarrow> fd_ok (two_refs a b) {} (set_ofile cur fd0 None s2)"
    and "fdalloc cur b s1 = (Some fd1, s2) \<Longrightarrow> refs_ok s2 \<and> fd0 < NOFILE \<and> fd1 < NOFILE \<and> fd0 \<noteq> fd1 \<and>
      ofile (processes s2 cur) fd0 = Some a \<and> ofile (processes s2 cur) fd1 = Some b"
proof -
  have c: "cur < NPROC" "\<not> dead (processes s0 cur)" using l by (auto simp: live_def)
  note f0 = fdalloc_Some [OF d]
  have o0: "ofile (processes s1 cur) fd0 = Some a" using f0 by simp
  have ok1: "fd_ok ((two_refs a b)(a := 0)) {} s1"
    using fd_ok_set_Some [OF ok c(1), of fd0 a 0] f0 c ab by (auto simp: fun_upd_twist)
  show "fdalloc cur b s1 = (None, s2) \<Longrightarrow> fd_ok (two_refs a b) {} (set_ofile cur fd0 None s2)"
    using fd_ok_set_None [OF ok1 c(1) _ o0] f0 ab(1) by (auto simp: fun_upd_twist dest!: fdalloc_None)
  assume "fdalloc cur b s1 = (Some fd1, s2)"
  note f1 = fdalloc_Some [OF this]
  have "fd_ok ((two_refs a b)(a := 0, b := 0)) {} s2"
    using fd_ok_set_Some [OF ok1 c(1), of fd1 b 0] f0 f1 c ab by (auto simp: fun_upd_twist)
  moreover have "(two_refs a b)(a := 0, b := 0) = (\<lambda>_. 0)" by auto
  ultimately show "refs_ok s2 \<and> fd0 < NOFILE \<and> fd1 < NOFILE \<and> fd0 \<noteq> fd1 \<and>
      ofile (processes s2 cur) fd0 = Some a \<and> ofile (processes s2 cur) fd1 = Some b"
    using f0 f1 o0 by (auto simp: refs_ok_def)
qed

lemma sys_pipe_keeps:
  assumes ok: "refs_ok s" and l: "live cur s" and e: "sys_pipe cur s = Ret (r, t)"
  shows "refs_ok t"
proof -
  obtain fda x s0 where x: "argaddr cur 0 s = Ret fda" "alloc_pipe cur s = Ret (x, s0)"
    using e by (auto simp: sys_pipe_def elim!: kbind_RetE)
  note p = alloc_pipe_keeps [OF ok x(2)]
  show ?thesis
  proof (cases x)
    case None
    then show ?thesis using e x p by (simp add: sys_pipe_def)
  next
    case (Some y)
    obtain a b where y: "y = (a, b)" by (cases y)
    have ab: "a \<noteq> b" "a < NFILE" "b < NFILE" "fd_ok (two_refs a b) {} s0" "f_type (files s0 a) \<noteq> FD_NONE"
        "f_type (files s0 b) \<noteq> FD_NONE" "processes s0 = processes s" using p Some y by auto
    have l0: "live cur s0" using l ab(7) by (simp add: live_def)
    let ?fail = "\<lambda>s. kbind (file_close cur b s) (\<lambda>s. kbind (file_close cur a s) (\<lambda>s. Ret (- 1 :: int, s)))"
    let ?undo = "\<lambda>fd0 fd1 s. ?fail (set_ofile cur fd1 None (set_ofile cur fd0 None s))"
    consider (1) s1 where "fdalloc cur a s0 = (None, s1)" "?fail s1 = Ret (r, t)"
      | (2) fd0 s1 s2 where "fdalloc cur a s0 = (Some fd0, s1)" "fdalloc cur b s1 = (None, s2)"
          "?fail (set_ofile cur fd0 None s2) = Ret (r, t)"
      | (3) fd0 s1 fd1 s2 s3 where "fdalloc cur a s0 = (Some fd0, s1)" "fdalloc cur b s1 = (Some fd1, s2)" "fkey s3 = fkey s2"
          "?undo fd0 fd1 s3 = Ret (r, t) \<or> t = s3"
      using e x Some y unfolding sys_pipe_def Let_def
      by (auto elim!: kbind_RetE dest!: copyout_bytes_key split: option.splits prod.splits if_splits)
    then show ?thesis
    proof cases
      case 1
      then show ?thesis using close_both ab fdalloc_None by blast
    next
      case 2
      then show ?thesis using close_both ab sys_pipe_fds(1) [OF ab(4) l0 ab(1-3,5,6)] by blast
    next
      case 3
      have s3: "refs_ok s3" "ofile (processes s3 cur) = ofile (processes s2 cur)"
        using sys_pipe_fds(2) [OF ab(4) l0 ab(1-3,5,6) 3(1,2)] ref_keys(1) [OF 3(3)] fdkey_eqD [OF fkey_fdkey [OF 3(3)]] by auto
      then have "fd_ok (two_refs a b) {} (set_ofile cur fd1 None (set_ofile cur fd0 None s3))"
        using sys_pipe_fds(2) [OF ab(4) l0 ab(1-3,5,6) 3(1,2)] l ab(1) by (intro undo_both) (auto simp: live_def)
      then show ?thesis using 3(4) close_both ab(1-3) s3(1) by blast
    qed
  qed
qed

section \<open>Reading and writing\<close>

lemma fdkey_sleep_on [simp]: "live cur s \<Longrightarrow> fdkey (sleep_on cur c s) = fdkey s"
  by (auto simp: live_def fdkey_def sleep_on_def upd_proc_def dead_def fun_eq_iff)

lemma fdkey_upd_off [simp]: "fdkey (upd_file f (\<lambda>x. x\<lparr>f_off := g x\<rparr>) s) = fdkey s"
  by (auto simp: fdkey_def upd_file_def fun_eq_iff Let_def)

fun xfer_state :: "'s xfer \<Rightarrow> 's" where
  "xfer_state (Finished r s) = s"
| "xfer_state (Waiting i s) = s"

lemma pipe_read_loop_key: "pipe_read_loop cur p addr k i s = Ret (j, t) \<Longrightarrow> fdkey t = fdkey s"
proof (induction k arbitrary: i s)
  case (Suc k)
  then show ?case
    by (auto simp: Let_def elim!: kbind_RetE dest!: copyout_bytes_key fkey_fdkey Suc.IH split: if_splits)
qed simp

lemma pipe_read_key: "pipe_read cur p addr n s = Ret x \<Longrightarrow> live cur s \<Longrightarrow> fdkey (xfer_state x) = fdkey s"
  by (auto simp: pipe_read_def elim!: kbind_RetE dest!: pipe_read_loop_key split: if_splits)

lemma pipe_write_loop_key: "pipe_write_loop cur p addr k i s = Ret x \<Longrightarrow> live cur s \<Longrightarrow> fdkey (xfer_state x) = fdkey s"
proof (induction k arbitrary: i s)
  case (Suc k)
  have l: "live cur (upd_pipe p g s)" for g using live_key [OF fdkey_upd_pipe Suc.prems(2)] .
  have w: "live cur (wakeup c d s)" for c d using live_key [OF fdkey_wakeup Suc.prems(2)] .
  show ?case using Suc.prems
    by (auto simp: l w elim!: kbind_RetE dest!: Suc.IH split: if_splits option.splits)
qed auto

lemma with_lock_fdkey:
  assumes "with_lock cur ip f s = Ret (x, t)" "\<And>s x t. f s = Ret (x, t) \<Longrightarrow> fdkey t = fdkey s"
  shows "fdkey t = fdkey (s :: 'a kfiles_scheme)"
proof -
  obtain s1 s2 where "ilock cur ip s = Ret s1" "f s1 = Ret (x, s2)" "iunlock cur ip s2 = Ret t"
    using assms(1) by (auto simp: with_lock_def elim!: kbind_RetE)
  then show ?thesis using assms(2) ilock_key iunlock_key fkey_fdkey by metis
qed

text \<open>What the code relies on of a device driver: it leaves descriptors and the table of files alone.\<close>

definition devices_keep :: "nat \<Rightarrow> (nat \<Rightarrow> 'a kfiles_scheme device) \<Rightarrow> bool" where
  "devices_keep cur devsw \<longleftrightarrow> (\<forall>d rd addr n s x. (dev_read (devsw d) = Some rd \<or> dev_write (devsw d) = Some rd) \<longrightarrow>
     live cur s \<longrightarrow> rd addr n s = Ret x \<longrightarrow> fdkey (xfer_state x) = fdkey s)"

lemma file_read_key:
  assumes e: "file_read devsw cur f addr n s = Ret x" and l: "live cur s" and d: "devices_keep cur devsw"
  shows "fdkey (xfer_state x) = fdkey s"
proof -
  have 1: "fdkey t = fdkey s'"
    if w: "with_lock cur ip (\<lambda>s. kbind (readi cur ip (User addr) (f_off (files s f)) (word_of_int n) s) (\<lambda>(r, _, s).
       Ret (r, if r > 0 then upd_file f (\<lambda>x. x\<lparr>f_off := f_off x + word_of_int r\<rparr>) s else s))) s' = Ret (r, t)" for ip s' r t
    using w by (rule with_lock_fdkey) (auto elim!: kbind_RetE dest!: readi_key fkey_fdkey)
  show ?thesis using e l d unfolding file_read_def Let_def
    by (auto simp: devices_keep_def dev_of_def elim!: kbind_RetE dest!: 1 pipe_read_key
      split: if_splits file_type.splits option.splits)
qed

lemma file_write_round_key: "file_write_round cur f addr i n s = Ret (r, t) \<Longrightarrow> fdkey t = fdkey s"
proof -
  have 1: "fdkey t = fdkey s'"
    if w: "with_lock cur ip (\<lambda>s. kbind (writei cur ip (User (addr + word_of_int i)) (f_off (files s f)) (word_of_int n) s) (\<lambda>(r, s).
       Ret (r, if r > 0 then upd_file f (\<lambda>x. x\<lparr>f_off := f_off x + word_of_int r\<rparr>) s else s))) s' = Ret (r, t)" for ip s' r t
    using w by (rule with_lock_fdkey) (auto elim!: kbind_RetE dest!: writei_key fkey_fdkey)
  show "file_write_round cur f addr i n s = Ret (r, t) \<Longrightarrow> fdkey t = fdkey s"
    unfolding file_write_round_def with_op_def
    by (auto elim!: kbind_RetE dest!: 1 begin_op_key end_op_key fkey_fdkey split: option.splits)
qed

lemma file_write_loop_key: "file_write_loop cur f addr n i s = Ret (j, t) \<Longrightarrow> fdkey t = fdkey s"
proof (induction "nat (n - i)" arbitrary: i s rule: less_induct)
  case less
  have IH: "file_write_loop cur f addr n (i + min (n - i) 3072) s' = Ret (j, t) \<Longrightarrow> i < n \<Longrightarrow> fdkey t = fdkey s'" for s'
    by (rule less.hyps) auto
  show ?case using less.prems
    by (subst (asm) file_write_loop.simps)
      (auto simp: Let_def elim!: kbind_RetE dest!: file_write_round_key IH split: if_splits)
qed

lemma file_write_key:
  assumes e: "file_write devsw cur f addr n s = Ret x" and l: "live cur s" and d: "devices_keep cur devsw"
  shows "fdkey (xfer_state x) = fdkey s"
  using e l d unfolding file_write_def Let_def
  by (auto simp: devices_keep_def dev_of_def pipe_write_def elim!: kbind_RetE dest!: file_write_loop_key pipe_write_loop_key
      split: if_splits file_type.splits option.splits)

section \<open>fork, exit, wait and exec\<close>

lemma fdkey_set_tf [simp]: "fdkey (set_tf cur r v s) = fdkey s"
  by (simp add: fdkey_def set_tf_def)

lemma fdkey_ram [simp]: "fdkey (s\<lparr>ram := m\<rparr>) = fdkey s"
  by (simp add: fdkey_def)

text \<open>An update of a process that keeps its descriptors, and does not bring it to life or end it.\<close>

lemma fdkey_upd_proc: "(\<And>p. ofile (g p) = ofile p) \<Longrightarrow> dead (g (processes s i)) = dead (processes s i) \<Longrightarrow> fdkey (upd_proc i g s) = fdkey s"
  by (auto simp: fdkey_def upd_proc_def fun_eq_iff)

lemma dead_upd [simp]:
  "dead (p\<lparr>cwd := c\<rparr>) = dead p" "dead (p\<lparr>sz := n\<rparr>) = dead p" "dead (p\<lparr>pname := m\<rparr>) = dead p" "dead (p\<lparr>parent := q\<rparr>) = dead p"
  "dead (p\<lparr>pagetable := a\<rparr>) = dead p" "dead (p\<lparr>trapframe := b\<rparr>) = dead p" "dead (p\<lparr>killed := k\<rparr>) = dead p"
  "dead (p\<lparr>context_ra := x\<rparr>) = dead p" "dead (p\<lparr>context_sp := y\<rparr>) = dead p" "dead (p\<lparr>pid := z\<rparr>) = dead p"
  "dead (p\<lparr>xstate := w\<rparr>) = dead p" "dead (p\<lparr>ofile := o'\<rparr>) = dead p" "dead (p\<lparr>pchan := d\<rparr>) = dead p"
  by (simp_all add: dead_def)

lemma memory_fdkey: "kmem.more t = kmem.more s \<Longrightarrow> fdkey t = fdkey s"
  by (rule fkey_fdkey [OF mkey_fkey])

text \<open>Bringing a process without files to life, and resetting a dead one.\<close>

lemma fd_ok_upd_proc:
  assumes "fd_ok E N s" "\<And>p. ofile (g p) = ofile p"
    and "dead (g (processes s i)) \<Longrightarrow> i < NPROC \<Longrightarrow> (\<forall>fd < NOFILE. ofile (processes s i) fd = None)"
  shows "fd_ok E N (upd_proc i g s)"
proof -
  have p: "ofile (processes (upd_proc i g s) j) = ofile (processes s j)" "files (upd_proc i g s) = files s" for j
    using assms(2) by (simp_all add: upd_proc_def)
  have r: "fd_refs (upd_proc i g s) = fd_refs s" by (simp add: fd_refs_def p fun_eq_iff)
  show ?thesis unfolding fd_ok_def r p using assms by (auto simp: fd_ok_def upd_proc_def)
qed

lemma refs_ok_upd_proc: "refs_ok s \<Longrightarrow> (\<And>p. ofile (g p) = ofile p) \<Longrightarrow> (\<And>p. dead (g p) = dead p) \<Longrightarrow> refs_ok (upd_proc i g s)"
  unfolding refs_ok_def by (rule fd_ok_upd_proc) (auto simp: fd_ok_def)

lemma proc_free_keeps:
  assumes ok: "refs_ok s" and e: "proc_free kend i s = Ret t" and n: "i < NPROC \<Longrightarrow> (\<forall>fd < NOFILE. ofile (processes s i) fd = None)"
  shows "refs_ok t"
proof -
  obtain s2 where s2: "fdkey s2 = fdkey s" "t = upd_proc i reset_process s2"
    using e by (auto simp: proc_free_def elim!: kbind_RetE dest!: mkeys memory_fdkey split: if_splits)
  then show ?thesis using refs_ok_key [OF s2(1) ok] n fdkey_eqD(4) [OF s2(1)]
    by (auto simp: refs_ok_def reset_process_def intro!: fd_ok_upd_proc)
qed

lemma process_free_keeps:
  assumes ok: "refs_ok s" and e: "process_free kend i s = Ret t" and n: "i < NPROC \<Longrightarrow> (\<forall>fd < NOFILE. ofile (processes s i) fd = None)"
  shows "refs_ok t"
proof -
  obtain s2 where s2: "fdkey s2 = fdkey s" "t = upd_proc i reset_process s2"
    using e by (auto simp: process_free_def elim!: kbind_RetE dest!: mkeys memory_fdkey split: if_splits)
  then show ?thesis using refs_ok_key [OF s2(1) ok] n fdkey_eqD(4) [OF s2(1)]
    by (auto simp: refs_ok_def reset_process_def intro!: fd_ok_upd_proc)
qed


lemma wait_scan_keeps:
  assumes ok: "refs_ok s" "live cur s" and e: "wait_scan kend cur addr s = Ret x"
  shows "case x of Waited r t \<Rightarrow> refs_ok t | Sleeps t \<Rightarrow> refs_ok t"
proof (cases "find (\<lambda>i. parent (processes s i) = Some cur \<and> pstate (processes s i) = ZOMBIE) [0..<NPROC]")
  case None
  have "refs_ok (sleep_on cur c s)" for c using refs_ok_key [OF fdkey_sleep_on [OF ok(2)] ok(1)] .
  then show ?thesis using e None ok(1) by (auto simp: wait_scan_def split: if_splits)
next
  case (Some i)
  have i: "i < NPROC" "pstate (processes s i) = ZOMBIE" using find_upt_Some [OF Some] by auto
  then have n: "\<forall>fd < NOFILE. ofile (processes s i) fd = None" using ok(1) by (auto simp: refs_ok_def fd_ok_def dead_def)
  have "(\<exists>s1. fdkey s1 = fdkey s \<and> x = Waited (- 1) s1) \<or>
      (\<exists>s1 s2 v. fdkey s1 = fdkey s \<and> proc_free kend i s1 = Ret s2 \<and> x = Waited v s2)"
    using e Some unfolding wait_scan_def Let_def
    by (auto elim!: kbind_RetE dest!: copyout_bytes_key fkey_fdkey split: if_splits) blast+
  moreover have "refs_ok s2" if "fdkey s1 = fdkey s" "proc_free kend i s1 = Ret s2" for s1 s2
    using proc_free_keeps [OF refs_ok_key [OF that(1) ok(1)] that(2)] n fdkey_eqD(4) [OF that(1)] by simp
  ultimately show ?thesis using refs_ok_key ok(1) by fastforce
qed

text \<open>\<open>alloc\<close> of the process table: a process that was unused, without files, now alive.\<close>

lemma proc_alloc_keeps:
  assumes ok: "refs_ok s" and e: "proc_alloc kend tr fr s = Ret (r, t)"
  shows "refs_ok t" "r = Some np \<Longrightarrow> np < NPROC \<and> pstate (processes s np) = UNUSED \<and> \<not> dead (processes t np) \<and>
    (\<forall>i. i \<noteq> np \<longrightarrow> dead (processes t i) = dead (processes s i)) \<and> (\<forall>i. ofile (processes t i) = ofile (processes s i))"
proof -
  have "refs_ok t \<and> (\<forall>np. r = Some np \<longrightarrow> np < NPROC \<and> pstate (processes s np) = UNUSED \<and> \<not> dead (processes t np) \<and>
    (\<forall>i. i \<noteq> np \<longrightarrow> dead (processes t i) = dead (processes s i)) \<and> (\<forall>i. ofile (processes t i) = ofile (processes s i)))"
  proof (cases "find (\<lambda>i. pstate (processes s i) = UNUSED) [0..<NPROC]")
    case None
    then show ?thesis using e ok by (simp add: proc_alloc_def)
  next
    case (Some i)
    have i: "i < NPROC" "pstate (processes s i) = UNUSED" using find_upt_Some [OF Some] by auto
    then have n: "\<forall>fd < NOFILE. ofile (processes s i) fd = None" using ok by (auto simp: refs_ok_def fd_ok_def dead_def)
    let ?s0 = "upd_proc i (\<lambda>p. p\<lparr>pid := next_pid s, pstate := USED\<rparr>) (s\<lparr>next_pid := next_pid s + 1\<rparr>)"
    have k0: "fdkey (s\<lparr>next_pid := next_pid s + 1\<rparr>) = fdkey s" by (simp add: fdkey_def)
    have "fd_ok (\<lambda>_. 0) {} ?s0"
      by (rule fd_ok_upd_proc) (use refs_ok_key [OF k0 ok] in \<open>auto simp: refs_ok_def dead_def\<close>)
    then have ok0: "refs_ok ?s0" by (simp add: refs_ok_def)
    have p0: "\<And>j. ofile (processes ?s0 j) = ofile (processes s j)" "\<not> dead (processes ?s0 i)"
        "\<And>j. j \<noteq> i \<Longrightarrow> dead (processes ?s0 j) = dead (processes s j)" by (simp_all add: upd_proc_def dead_def)
    have up: "(\<And>p. ofile (g p) = ofile p) \<Longrightarrow> (\<And>p. dead (g p) = dead p) \<Longrightarrow> fdkey (upd_proc i g s1) = fdkey s1" for g and s1 :: "'a kfiles_scheme"
      by (rule fdkey_upd_proc)
    have fr: "refs_ok t'" if "proc_free kend i s1 = Ret t'" "fdkey s1 = fdkey ?s0" for s1 t'
      using proc_free_keeps [OF refs_ok_key [OF that(2) ok0] that(1)] n fdkey_eqD(4) [OF that(2)] p0(1) by simp
    have "r = None \<and> (\<exists>s1. proc_free kend i s1 = Ret t \<and> fdkey s1 = fdkey ?s0) \<or> r = Some i \<and> fdkey t = fdkey ?s0"
      using e Some unfolding proc_alloc_def get_next_pid_def Let_def
      by (auto simp: up elim!: kbind_RetE dest!: mkeys memory_fdkey split: prod.splits option.splits)
        (intro exI conjI, assumption, simp add: up)
    then show ?thesis
      using fr refs_ok_key [OF _ ok0] fdkey_eqD(4,5) [of t ?s0] p0 i by (elim disjE) auto
  qed
  then show "refs_ok t" "r = Some np \<Longrightarrow> np < NPROC \<and> pstate (processes s np) = UNUSED \<and> \<not> dead (processes t np) \<and>
    (\<forall>i. i \<noteq> np \<longrightarrow> dead (processes t i) = dead (processes s i)) \<and> (\<forall>i. ofile (processes t i) = ofile (processes s i))" by blast+
qed


lemma fork_files_keeps:
  assumes "refs_ok s" "live cur s" "live np s" "np \<noteq> cur" "\<forall>j. i \<le> j \<and> j < NOFILE \<longrightarrow> ofile (processes s np) j = None"
    "i + k \<le> NOFILE" "fork_files cur np k i s = Ret t"
  shows "refs_ok t \<and> ofile (processes t cur) = ofile (processes s cur) \<and> (\<forall>j. dead (processes t j) = dead (processes s j))"
  using assms
proof (induction k arbitrary: i s)
  case (Suc k)
  show ?case
  proof (cases "ofile (processes s cur) i")
    case None
    then show ?thesis using Suc.IH [of s "Suc i"] Suc.prems by (simp add: get_ofile_def)
  next
    case (Some f)
    have i: "i < NOFILE" and c: "cur < NPROC" "np < NPROC" "\<not> dead (processes s np)" using Suc.prems by (auto simp: live_def)
    note rf = refs_ok_file [OF Suc.prems(1) c(1) i Some]
    obtain s1 where s1: "file_dup f s = Ret s1" "fd_ok ((\<lambda>_. 0)(f := Suc 0)) {} s1" "processes s1 = processes s"
        "files s1 = (files s)(f := (files s f)\<lparr>f_ref := f_ref (files s f) + 1\<rparr>)"
      using file_dup_ok [OF Suc.prems(1) [unfolded refs_ok_def] rf(1) _ rf(2)] by auto
    let ?s2 = "set_ofile np i (Some f) s1"
    have "fd_ok ((\<lambda>_. 0)(f := 0)) {} ?s2"
      using fd_ok_set_Some [OF s1(2) c(2) i, of f 0] Suc.prems(5) c(3) rf(1,3) s1(3,4) i by simp
    then have ok2: "refs_ok ?s2" by (simp add: refs_ok_def)
    have l: "live cur ?s2" "live np ?s2" using Suc.prems(2,3) s1(3) by (auto simp: live_def)
    have d: "dead (processes ?s2 j) = dead (processes s j)" for j using s1(3) by simp
    have "fork_files cur np k (Suc i) ?s2 = Ret t" using Suc.prems(7) Some s1(1) by (simp add: get_ofile_def)
    from Suc.IH [OF ok2 l Suc.prems(4) _ _ this] show ?thesis using Suc.prems(4-6) s1(3) d by simp
  qed
qed simp

lemma proc_fork_keeps:
  assumes ok: "refs_ok s" and l: "live cur s" and e: "proc_fork kend tr fr cur s = Ret (r, t)"
  shows "refs_ok t"
proof -
  obtain x s1 where a: "proc_alloc kend tr fr s = Ret (x, s1)" using e by (auto simp: proc_fork_def elim!: kbind_RetE)
  note ok1 = proc_alloc_keeps(1) [OF ok a]
  show ?thesis
  proof (cases x)
    case None
    then show ?thesis using e a ok1 by (simp add: proc_fork_def)
  next
    case (Some np)
    note np = proc_alloc_keeps(2) [OF ok a Some]
    have n: "\<forall>fd < NOFILE. ofile (processes s1 np) fd = None" using np ok by (auto simp: refs_ok_def fd_ok_def dead_def)
    have ne: "np \<noteq> cur" using np l by (auto simp: live_def dead_def)
    have l1: "live cur s1" "live np s1" using np l ne by (auto simp: live_def)
    let ?f = "\<lambda>s. kbind (process_free kend np s) (\<lambda>s. Ret (- 1, s))"
    have up: "(\<And>p. ofile (g p) = ofile p) \<Longrightarrow> (\<And>p. dead (g p) = dead p) \<Longrightarrow> fdkey (upd_proc np g s') = fdkey s'"
      for g and s' :: "'a kfiles_scheme"
      by (rule fdkey_upd_proc)
    have idup: "fdkey (idup ip s') = fdkey s'" for ip and s' :: "'a kfiles_scheme" by (rule fkey_fdkey) simp
    obtain rc b where vc: "vm_copy kend (pagetable (processes s1 cur)) (pagetable (processes s1 np)) (sz (processes s1 cur)) s1 = Ret (rc, b)"
      using e a Some unfolding proc_fork_def by (auto elim!: kbind_RetE)
    have kb: "fdkey b = fdkey s1" using memory_fdkey [OF vm_copy_mkey [OF vc]] .
    let ?b1 = "upd_proc np (\<lambda>p. p\<lparr>sz := sz (processes b cur)\<rparr>) b"
    let ?b2 = "?b1\<lparr>ram := wrbytes (ram ?b1) (trapframe (processes ?b1 np)) (rdbytes (ram ?b1) (trapframe (processes ?b1 cur)) 288)\<rparr>"
    have k2: "fdkey (set_tf np (tf_a 0) 0 ?b2) = fdkey s1" using kb by (simp add: up)
    consider (fail) s2 where "fdkey s2 = fdkey s1" "?f s2 = Ret (r, t)"
      | (ok) s2 s3 s4 :: "'a kfiles_scheme" where "fdkey s2 = fdkey s1" "fork_files cur np NOFILE 0 s2 = Ret s3" "fdkey s4 = fdkey s3"
          "t = upd_proc np (\<lambda>p. p\<lparr>pstate := RUNNABLE\<rparr>) s4"
    proof (cases "rc < 0")
      case True
      then show ?thesis using that(1) [OF kb] e a Some vc by (simp add: proc_fork_def)
    next
      case False
      then obtain s3 where s3: "fork_files cur np NOFILE 0 (set_tf np (tf_a 0) 0 ?b2) = Ret s3"
        using e a Some vc unfolding proc_fork_def Let_def by (auto simp del: fork_files.simps elim!: kbind_RetE)
      obtain ip where ip: "cwd (processes s3 cur) = Some ip"
        using e a Some vc False s3 unfolding proc_fork_def Let_def by (auto simp del: fork_files.simps split: option.splits)
      let ?s4 = "upd_proc np (\<lambda>p. p\<lparr>cwd := Some ip\<rparr>) (idup ip s3)"
      let ?s5 = "upd_proc np (\<lambda>p. p\<lparr>pname := copy_name (pname p) (pname (processes ?s4 cur)), parent := Some cur\<rparr>) ?s4"
      have "t = upd_proc np (\<lambda>p. p\<lparr>pstate := RUNNABLE\<rparr>) ?s5"
        using e a Some vc False s3 ip unfolding proc_fork_def Let_def by (simp del: fork_files.simps)
      moreover have "fdkey ?s5 = fdkey s3" by (simp add: up idup)
      ultimately show ?thesis using that(2) [OF k2 s3] by blast
    qed
    then show ?thesis
    proof cases
      case fail
      then show ?thesis using process_free_keeps [OF refs_ok_key [OF fail(1) ok1]] n fdkey_eqD(4) [OF fail(1)]
        by (auto elim!: kbind_RetE)
    next
      case ok
      have "refs_ok s3" using fork_files_keeps [OF refs_ok_key [OF ok(1) ok1] live_key [OF ok(1) l1(1)] live_key [OF ok(1) l1(2)] ne _ _ ok(2)]
          n fdkey_eqD(4) [OF ok(1)] by simp
      then show ?thesis unfolding ok(4) using refs_ok_key [OF ok(3)] by (auto simp: refs_ok_def dead_def intro!: fd_ok_upd_proc)
    qed
  qed
qed

lemma file_close_procs:
  assumes "file_close cur f s = Ret t"
  shows "ofile (processes t i) = ofile (processes s i)" "dead (processes t i) = dead (processes s i)"
proof -
  have w: "with_op cur (\<lambda>s. kbind (iput_opt cur ip s) (\<lambda>s. Ret ((), s))) s' = Ret (x, t') \<Longrightarrow> fdkey t' = fdkey s'"
    for ip x and s' t' :: "'a kfiles_scheme"
    by (rule fkey_fdkey, erule with_op_key) (auto elim!: kbind_RetE dest!: keys)
  have "\<exists>g. fdkey t = fdkey (upd_file f g s)"
    using assms unfolding file_close_def Let_def
    by (cases "f_type (files s f)") (auto elim!: kbind_RetE dest!: w split: if_splits option.splits)
  then obtain g where g: "fdkey t = fdkey (upd_file f g s)" by blast
  show "ofile (processes t i) = ofile (processes s i)" "dead (processes t i) = dead (processes s i)"
    using fdkey_eqD(4,5) [OF g, of i] by simp_all
qed

lemma exit_files_keeps:
  assumes "refs_ok s" "cur < NPROC" "i + k \<le> NOFILE" "\<forall>j < i. ofile (processes s cur) j = None" "exit_files cur k i s = Ret t"
  shows "refs_ok t \<and> (\<forall>j < i + k. ofile (processes t cur) j = None) \<and> (\<forall>j. dead (processes t j) = dead (processes s j))"
  using assms
proof (induction k arbitrary: i s)
  case (Suc k)
  show ?case
  proof (cases "ofile (processes s cur) i")
    case None
    then have "\<forall>j < Suc i. ofile (processes s cur) j = None" using Suc.prems(4) less_Suc_eq by auto
    then show ?thesis using Suc.IH [of s "Suc i"] Suc.prems None by (simp add: get_ofile_def)
  next
    case (Some f)
    let ?s1 = "set_ofile cur i None s"
    obtain s2 where s2: "file_close cur f ?s1 = Ret s2" "exit_files cur k (Suc i) s2 = Ret t"
      using Suc.prems(5) Some by (auto simp: get_ofile_def elim!: kbind_RetE)
    have i: "i < NOFILE" using Suc.prems(3) by simp
    have "fd_ok ((\<lambda>_. 0)(f := Suc 0)) {} ?s1" using fd_ok_set_None [OF Suc.prems(1) [unfolded refs_ok_def] Suc.prems(2) i Some] .
    from file_close_ok [OF this refs_ok_file(1) [OF Suc.prems(1,2) i Some] _ _ s2(1)] have ok2: "refs_ok s2" by (simp add: refs_ok_def)
    note p = file_close_procs [OF s2(1)]
    have "\<forall>j < Suc i. ofile (processes s2 cur) j = None" using Suc.prems(4) by (auto simp: p(1) less_Suc_eq)
    from Suc.IH [OF ok2 Suc.prems(2) _ this s2(2)] show ?thesis using Suc.prems(3) p(2) by simp
  qed
qed auto

lemma reparent_loop_key: "fdkey (reparent_loop n i cur p s) = fdkey s"
proof (induction n arbitrary: i s)
  case (Suc n)
  have "fdkey (upd_proc i (\<lambda>q. q\<lparr>parent := x\<rparr>) s) = fdkey s" for x by (rule fdkey_upd_proc) simp_all
  then show ?case using Suc by simp
qed simp

lemma proc_exit_keeps:
  assumes ok: "refs_ok s" and l: "live cur s" and e: "proc_exit cur status s = Ret t"
  shows "refs_ok t"
proof -
  have c: "cur < NPROC" using l by (simp add: live_def)
  obtain s1 x s2 where s1: "exit_files cur NOFILE 0 s = Ret s1"
    and s2: "with_op cur (\<lambda>s. kbind (iput_opt cur (cwd (processes s cur)) s) (\<lambda>s. Ret ((), s))) s1 = Ret (x, s2)"
    and t: "t = exit_finish cur (word_of_int status) (upd_proc cur (\<lambda>p. p\<lparr>cwd := None\<rparr>) s2)"
    using e by (auto simp: proc_exit_def simp del: exit_files.simps elim!: kbind_RetE split: if_splits)
  note x1 = exit_files_keeps [OF ok c _ _ s1, simplified]
  have "fkey s2 = fkey s1" using s2 by (rule with_op_key) (auto elim!: kbind_RetE dest!: keys)
  then have k2: "fdkey s2 = fdkey s1" by (rule fkey_fdkey)
  let ?s3 = "upd_proc cur (\<lambda>p. p\<lparr>cwd := None\<rparr>) s2"
  let ?s4 = "reparent (Some cur) cur ?s3"
  let ?s5 = "wakeup (Some cur) (map_option OnProcess (parent (processes ?s4 cur))) ?s4"
  have "fdkey ?s3 = fdkey s2" by (rule fdkey_upd_proc) simp_all
  then have k5: "fdkey ?s5 = fdkey s1" using k2 by (simp add: reparent_def reparent_loop_key)
  have "fd_ok (\<lambda>_. 0) {} (upd_proc cur (\<lambda>p. p\<lparr>xstate := word_of_int status, pstate := ZOMBIE\<rparr>) ?s5)"
    by (rule fd_ok_upd_proc) (use x1 refs_ok_key [OF k5] fdkey_eqD(4) [OF k5] in \<open>auto simp: refs_ok_def\<close>)
  then show ?thesis unfolding t exit_finish_def Let_def by (simp add: refs_ok_def)
qed

lemma sys_chdir_keeps:
  assumes ok: "refs_ok s" and l: "live cur s" and e: "sys_chdir cur s = Ret (r, t)"
  shows "refs_ok t"
proof -
  have up: "fdkey (upd_proc cur (\<lambda>p. p\<lparr>cwd := c\<rparr>) s') = fdkey s'" for c and s' :: "'a kfiles_scheme" by (rule fdkey_upd_proc) simp_all
  have k: "fdkey t' = fdkey s'" if f: "kbind (argstr cur 0 MAXPATH s') (\<lambda>pth. case pth of
       None \<Rightarrow> Ret (- 1, s')
     | Some pth \<Rightarrow> kbind (namei cur pth s') (\<lambda>(ip, s). case ip of
         None \<Rightarrow> Ret (- 1, s)
       | Some ip \<Rightarrow> kbind (ilock cur ip s) (\<lambda>s.
           if d_type (din s ip) \<noteq> T_DIR then kbind (iunlockput cur ip s) (\<lambda>s. Ret (- 1, s))
           else kbind (iunlock cur ip s) (\<lambda>s.
             let old = cwd (processes s cur) in
             kbind (iput_opt cur old (upd_proc cur (\<lambda>p. p\<lparr>cwd := Some ip\<rparr>) s)) (\<lambda>s. Ret (0, s)))))) = Ret (r', t')"
    for r' :: int and s' t' :: "'a kfiles_scheme"
    using f by (auto simp: Let_def up elim!: kbind_RetE dest!: namei_key ilock_key iunlockput_key iunlock_key iput_opt_key fkey_fdkey
      split: option.splits if_splits)
  show ?thesis by (rule with_op_keeps [OF e [unfolded sys_chdir_def] ok l]) (rule refs_ok_key [OF k]; assumption)
qed

lemma proc_exec_key:
  assumes "proc_exec kend tr cur pth argv s = Ret (r, t)"
  shows "fdkey t = fdkey (s :: 'a kfiles_scheme)"
proof -
  have up: "(\<And>p. ofile (g p) = ofile p) \<Longrightarrow> (\<And>p. dead (g p) = dead p) \<Longrightarrow> fdkey (upd_proc cur g s') = fdkey s'"
    for g and s' :: "'a kfiles_scheme" by (rule fdkey_upd_proc)
  have c: "exec_commit kend cur pth pt n en sp s' = Ret t' \<Longrightarrow> fdkey t' = fdkey s'" for pt n en sp and s' t' :: "'a kfiles_scheme"
    by (auto simp: exec_commit_def Let_def up dest!: free_pagetable_mkey memory_fdkey)
  show ?thesis using assms unfolding proc_exec_def Let_def
    by (auto elim!: kbind_RetE dest!: exec_open_key vm_alloc_mkey vm_clear_mkey exec_argv_key free_pagetable_mkey c memory_fdkey fkey_fdkey
      split: option.splits if_splits)
qed

section \<open>Every system call\<close>

fun outcome_state :: "'s outcome \<Rightarrow> 's" where
  "outcome_state (Returns v s) = s"
| "outcome_state (Asleep s) = s"
| "outcome_state (Exits s) = s"

lemma outcome_state_of [simp]: "outcome_state (of_xfer x) = xfer_state x"
  by (cases x) simp_all

lemma returned_state: "returned m = Ret x \<Longrightarrow> \<exists>v. m = Ret (v, outcome_state x)"
  by (auto simp: returned_def elim!: kbind_RetE)

lemma exec_args_key: "exec_args cur uargv k pages argv s = Ret (ps, a, t) \<Longrightarrow> fdkey t = fdkey s"
proof (induction k arbitrary: pages argv s)
  case (Suc k)
  then show ?case
    by (auto elim!: kbind_RetE dest!: Suc.IH page_alloc_mkey copyinstr_mkey memory_fdkey split: option.splits if_splits prod.splits)
qed simp

lemma sys_exec_key: "sys_exec kend tr cur s = Ret (r, t) \<Longrightarrow> fdkey t = fdkey s"
  by (auto simp: sys_exec_def simp del: exec_args.simps elim!: kbind_RetE
    dest!: exec_args_key proc_exec_key free_pages_mkey memory_fdkey split: option.splits)

lemma proc_grow_key: "proc_grow kend cur n s = Ret (r, t) \<Longrightarrow> fdkey t = fdkey s"
proof -
  have up: "fdkey (upd_proc cur (\<lambda>p. p\<lparr>sz := v\<rparr>) s') = fdkey s'" for v and s' :: "'a kfiles_scheme" by (rule fdkey_upd_proc) simp_all
  show "proc_grow kend cur n s = Ret (r, t) \<Longrightarrow> fdkey t = fdkey s"
    by (auto simp: proc_grow_def Let_def up elim!: kbind_RetE dest!: vm_alloc_mkey vm_dealloc_mkey memory_fdkey split: if_splits)
qed

lemma kill_key: "kill k s = (r, t) \<Longrightarrow> fdkey t = fdkey s"
  by (auto simp: kill_def Let_def dead_def split: option.splits if_splits intro!: fdkey_upd_proc)

lemma sleep_ticks_key: "live cur s \<Longrightarrow> fdkey (outcome_state (of_wait (sleep_ticks_test cur a n s))) = fdkey s"
  by (simp add: sleep_ticks_test_def)

lemma path_calls_keep:
  assumes "refs_ok s"
  shows "sys_link cur s = Ret (r, t) \<Longrightarrow> refs_ok t" "sys_unlink cur s = Ret (r, t) \<Longrightarrow> refs_ok t"
    "sys_mkdir cur s = Ret (r, t) \<Longrightarrow> refs_ok t" "sys_mknod cur s = Ret (r, t) \<Longrightarrow> refs_ok t"
    "sys_fstat cur s = Ret (r, t) \<Longrightarrow> refs_ok t" "sys_exec kend tr cur s = Ret (r, t) \<Longrightarrow> refs_ok t"
    "sys_kill cur s = Ret (r, t) \<Longrightarrow> refs_ok t" "sys_getpid cur s = Ret (r, t) \<Longrightarrow> refs_ok t"
proof -
  have k: "fdkey t = fdkey s \<Longrightarrow> refs_ok t" for t using refs_ok_key assms by blast
  show "sys_link cur s = Ret (r, t) \<Longrightarrow> refs_ok t" "sys_unlink cur s = Ret (r, t) \<Longrightarrow> refs_ok t"
    "sys_mkdir cur s = Ret (r, t) \<Longrightarrow> refs_ok t" "sys_mknod cur s = Ret (r, t) \<Longrightarrow> refs_ok t"
    by (blast intro: k fkey_fdkey keys)+
  show "sys_fstat cur s = Ret (r, t) \<Longrightarrow> refs_ok t" using assms
    by (auto simp: sys_fstat_def elim!: kbind_RetE intro!: k fkey_fdkey dest!: file_stat_key split: option.splits)
  show "sys_exec kend tr cur s = Ret (r, t) \<Longrightarrow> refs_ok t" by (rule k) (rule sys_exec_key)
  show "sys_kill cur s = Ret (r, t) \<Longrightarrow> refs_ok t" by (auto simp: sys_kill_def elim!: kbind_RetE intro!: k dest!: kill_key)
  show "sys_getpid cur s = Ret (r, t) \<Longrightarrow> refs_ok t" using assms by (simp add: sys_getpid_def)
qed

lemma returned_keeps:
  "returned m = Ret x \<Longrightarrow> (\<And>v t. m = Ret (v, t) \<Longrightarrow> refs_ok t) \<Longrightarrow> refs_ok (outcome_state x)"
  using returned_state by blast

lemma waiting_calls_keep:
  assumes ok: "refs_ok s" "live cur s" and d: "devices_keep cur devsw"
  shows "sys_read devsw cur s = Ret y \<Longrightarrow> refs_ok (xfer_state y)" "sys_write devsw cur s = Ret y \<Longrightarrow> refs_ok (xfer_state y)"
    "sys_wait kend cur s = Ret z \<Longrightarrow> refs_ok (outcome_state (of_wait z))"
    "sys_sleep cur s = Ret z \<Longrightarrow> refs_ok (outcome_state (of_wait z))"
    "sys_exit cur s = Ret x \<Longrightarrow> refs_ok (outcome_state x)" "sys_sbrk kend cur s = Ret x \<Longrightarrow> refs_ok (outcome_state x)"
proof -
  have k: "fdkey t = fdkey s \<Longrightarrow> refs_ok t" for t using refs_ok_key ok(1) by blast
  show "sys_read devsw cur s = Ret y \<Longrightarrow> refs_ok (xfer_state y)" "sys_write devsw cur s = Ret y \<Longrightarrow> refs_ok (xfer_state y)"
    using ok(1) by (auto simp: sys_read_def sys_write_def elim!: kbind_RetE
      dest!: file_read_key [OF _ ok(2) d] file_write_key [OF _ ok(2) d] dest: k split: option.splits)
  show "sys_wait kend cur s = Ret z \<Longrightarrow> refs_ok (outcome_state (of_wait z))"
    by (cases z) (auto simp: sys_wait_def elim!: kbind_RetE dest!: wait_scan_keeps [OF ok])
  show "sys_sleep cur s = Ret z \<Longrightarrow> refs_ok (outcome_state (of_wait z))"
    by (auto simp: sys_sleep_def elim!: kbind_RetE intro!: k sleep_ticks_key [OF ok(2)])
  show "sys_exit cur s = Ret x \<Longrightarrow> refs_ok (outcome_state x)"
    by (auto simp: sys_exit_def elim!: kbind_RetE intro: proc_exit_keeps [OF ok])
  show "sys_sbrk kend cur s = Ret x \<Longrightarrow> refs_ok (outcome_state x)"
    by (auto simp: sys_sbrk_def Let_def elim!: kbind_RetE dest!: proc_grow_key intro: k)
qed

lemma handler_keeps:
  assumes ok: "refs_ok s" "live cur s" and d: "devices_keep cur devsw"
    and h: "Some h \<in> set (syscalls kend tr fr devsw cur)" and e: "h s = Ret x"
  shows "refs_ok (outcome_state x)"
  using h e unfolding syscalls_def sys_fork_def
  by (auto simp: sys_uptime_def ok(1) elim!: kbind_RetE returned_keeps
    intro: path_calls_keep [OF ok(1)] waiting_calls_keep [OF ok d] sys_dup_keeps [OF ok] sys_close_keeps [OF ok]
      sys_open_keeps [OF ok] sys_pipe_keeps [OF ok] sys_chdir_keeps [OF ok] proc_fork_keeps [OF ok])

lemma syscall_keeps:
  assumes ok: "refs_ok s" "live cur s" and d: "devices_keep cur devsw" and e: "syscall kend tr fr devsw cur s = Ret x"
  shows "refs_ok (outcome_state x)"
proof -
  have tf: "refs_ok (set_tf cur a v t)" if "refs_ok t" for a v and t :: "'a kfiles_scheme" using refs_ok_key [OF fdkey_set_tf that] .
  let ?tab = "syscalls kend tr fr devsw cur" and ?n = "unat (get_tf cur (tf_a 7) s)"
  have "h \<in> set ?tab" if "get_tf cur (tf_a 7) s < of_nat (length ?tab)" "?tab ! ?n = h" for h
  proof -
    have "?n < length ?tab" using that(1) by (simp add: word_less_nat_alt syscalls_def)
    then show ?thesis using that(2) nth_mem by blast
  qed
  then show ?thesis using e ok(1) unfolding syscall_def Let_def
    by (auto simp: tf elim!: kbind_RetE dest: handler_keeps [OF ok d] split: option.splits if_splits outcome.splits)
qed

section \<open>Runs of the kernel\<close>

text \<open>
  The steps between which processes are interleaved: a system call of a live process, up to its end or the point
  where it sleeps, a visit of the scheduler, giving up the CPU, waking from sleep, and a clock tick.
\<close>

inductive kstep :: "u64 \<Rightarrow> u64 \<Rightarrow> u64 \<Rightarrow> (nat \<Rightarrow> nat \<Rightarrow> 'a kfiles_scheme device) \<Rightarrow> 'a kfiles_scheme \<Rightarrow> 'a kfiles_scheme \<Rightarrow> bool"
  for kend tr fr devsw where
  Syscall: "live cur s \<Longrightarrow> syscall kend tr fr (devsw cur) cur s = Ret x \<Longrightarrow> kstep kend tr fr devsw s (outcome_state x)"
| Resume: "live cur s \<Longrightarrow> pipe_write cur p addr n i s = Ret y \<Longrightarrow> kstep kend tr fr devsw s (xfer_state y)"
| Sched: "sched_visit i s = Some t \<Longrightarrow> kstep kend tr fr devsw s t"
| Yield: "live cur s \<Longrightarrow> kstep kend tr fr devsw s (yield_cpu cur s)"
| Woken: "kstep kend tr fr devsw s (sleep_return cur s)"
| Tick: "kstep kend tr fr devsw s (clock_tick cur s)"

inductive_cases kstepE: "kstep kend tr fr devsw s t"

lemma kstep_keeps:
  assumes "kstep kend tr fr devsw s t" "refs_ok s" "\<And>cur. devices_keep cur (devsw cur)"
  shows "refs_ok t"
  using assms(1)
proof cases
  case (Syscall cur x)
  then show ?thesis using syscall_keeps assms(2,3) by blast
next
  case (Resume cur p addr n i y)
  then have "fdkey t = fdkey s" by (auto simp: pipe_write_def dest: pipe_write_loop_key)
  then show ?thesis using refs_ok_key assms(2) by blast
next
  case (Sched i)
  then have "fdkey t = fdkey s" by (auto simp: sched_visit_def dead_def split: if_splits intro!: fdkey_upd_proc)
  then show ?thesis using refs_ok_key assms(2) by blast
next
  case (Yield cur)
  have "fdkey t = fdkey s" unfolding Yield(1) yield_cpu_def by (rule fdkey_upd_proc) (use Yield(2) in \<open>auto simp: live_def dead_def\<close>)
  then show ?thesis using refs_ok_key assms(2) by blast
next
  case (Woken cur)
  have "fdkey t = fdkey s" unfolding Woken sleep_return_def by (rule fdkey_upd_proc) simp_all
  then show ?thesis using refs_ok_key assms(2) by blast
next
  case (Tick cur)
  have "fdkey (s\<lparr>ticks := v\<rparr>) = fdkey s" for v by (simp add: fdkey_def)
  then have "fdkey t = fdkey s" unfolding Tick clock_tick_def by simp
  then show ?thesis using refs_ok_key assms(2) by blast
qed

text \<open>The state before the first process opens a file.\<close>

definition no_files :: "'a kfiles_scheme \<Rightarrow> bool" where
  "no_files s \<longleftrightarrow> (\<forall>f < NFILE. files s f = file_new) \<and> (\<forall>i < NPROC. \<forall>fd < NOFILE. ofile (processes s i) fd = None)"

lemma no_files_ok: "no_files s \<Longrightarrow> refs_ok s"
proof -
  assume a: "no_files s"
  have "fd_refs s f = {}" for f using a by (auto simp: fd_refs_def no_files_def)
  then show ?thesis using a by (auto simp: refs_ok_def fd_ok_def no_files_def file_new_def file_typed_def)
qed

text \<open>
  C3. In every state that the kernel reaches from one without open files, by system calls of any processes
  interleaved with scheduling, an open file's reference count is exactly the number of
  descriptors that name it, and a descriptor always names an open file of a definite kind whose pipe or inode is there: no call
  on a descriptor meets a stale file, a null pointer or a wrong type. Files that no descriptor names are free for \<open>alloc_file\<close>.
  Of the device drivers it is used that they do not touch descriptors.
\<close>

theorem descriptors_typed:
  assumes "no_files s0" "\<And>cur. devices_keep cur (devsw cur)" "(kstep kend tr fr devsw)\<^sup>*\<^sup>* s0 s"
  shows "(\<forall>f < NFILE. unat (f_ref (files s f)) = card {(i, fd). i < NPROC \<and> fd < NOFILE \<and> get_ofile i fd s = Some f}) \<and>
    (\<forall>i < NPROC. \<forall>fd < NOFILE. \<forall>f. get_ofile i fd s = Some f \<longrightarrow>
      f < NFILE \<and> f_ref (files s f) \<noteq> 0 \<and>
      (f_type (files s f) = FD_PIPE \<and> f_pp (files s f) \<noteq> None \<or>
       (f_type (files s f) = FD_INODE \<or> f_type (files s f) = FD_DEVICE) \<and> f_ip (files s f) \<noteq> None))"
proof (intro conjI allI impI)
  from assms(3) have ok: "refs_ok s"
    by (induction rule: rtranclp_induct) (use no_files_ok [OF assms(1)] kstep_keeps assms(2) in blast)+
  fix f
  show "f < NFILE \<Longrightarrow> unat (f_ref (files s f)) = card {(i, fd). i < NPROC \<and> fd < NOFILE \<and> get_ofile i fd s = Some f}"
    using ok by (simp add: refs_ok_def fd_ok_def fd_refs_def get_ofile_def)
  fix i fd assume a: "i < NPROC" "fd < NOFILE" "get_ofile i fd s = Some f"
  note r = refs_ok_file [OF ok a(1,2) a(3) [unfolded get_ofile_def]]
  show "f < NFILE" "f_ref (files s f) \<noteq> 0" by (rule r)+
  show "f_type (files s f) = FD_PIPE \<and> f_pp (files s f) \<noteq> None \<or>
       (f_type (files s f) = FD_INODE \<or> f_type (files s f) = FD_DEVICE) \<and> f_ip (files s f) \<noteq> None"
    using r by (cases "f_type (files s f)") (auto simp: file_typed_def)
qed

text \<open>
  C34. \<open>dup\<close> of an open descriptor returns the lowest free descriptor, which then names the same file, whose reference count is one more;
  every other descriptor is unchanged. It returns -1, changing nothing, exactly when all descriptors are taken.
\<close>

theorem sys_dup_lowest:
  assumes ok: "refs_ok s" and l: "live cur s" and a: "argfd cur 0 s = Ret (Some (fd, f))"
  shows "case find (\<lambda>j. get_ofile cur j s = None) [0..<NOFILE] of
      None \<Rightarrow> sys_dup cur s = Ret (- 1, s)
    | Some fd' \<Rightarrow> \<exists>t. sys_dup cur s = Ret (int fd', t) \<and> refs_ok t \<and> f_ref (files t f) = f_ref (files s f) + 1 \<and>
        (\<forall>j. get_ofile cur j t = (if j = fd' then Some f else get_ofile cur j s))"
proof (cases "find (\<lambda>j. get_ofile cur j s = None) [0..<NOFILE]")
  case None
  then have "fdalloc cur f s = (None, s)" by (simp add: fdalloc_def)
  then show ?thesis unfolding None using a by (simp add: sys_dup_def)
next
  case (Some fd')
  then have "fdalloc cur f s = (Some fd', set_ofile cur fd' (Some f) s)" by (simp add: fdalloc_def)
  from sys_dup_ok [OF ok l a this] show ?thesis unfolding Some by (auto simp: get_ofile_def)
qed

section \<open>An example\<close>

text \<open>A process calls \<open>pipe\<close> with the address 0x1000; its registers are in the trapframe at 0x80025000.\<close>

definition demo_regs :: "u64 \<Rightarrow> u64 \<Rightarrow> mem" where
  "demo_regs num arg = store64 (store64 demo_umem 0x800250A8 num) 0x80025070 arg"

definition demo_files :: "mem \<Rightarrow> kfiles" where
  "demo_files m = kpipes.extend ((demo_pipes (demo_pipe\<lparr>readopen := False, writeopen := False\<rparr>))\<lparr>ram := m,
     processes := (\<lambda>_. demo_proc\<lparr>pid := 1, pstate := RUNNING, pagetable := 0x80021000, trapframe := 0x80025000\<rparr>)\<rparr>)
     (kfiles.fields (\<lambda>_. file_new))"

lemma demo_files_fields:
  "ram (demo_files m) = m" "files (demo_files m) = (\<lambda>_. file_new)" "pipes (demo_files m) = (\<lambda>_. demo_pipe\<lparr>readopen := False, writeopen := False\<rparr>)"
  "processes (demo_files m) = (\<lambda>_. demo_proc\<lparr>pid := 1, pstate := RUNNING, pagetable := 0x80021000, trapframe := 0x80025000\<rparr>)"
  by (simp_all add: demo_files_def demo_pipes_def kfs.defs kpipes.defs kfiles.defs)

lemma demo_far:
  "disjoint_blocks 0x800250A8 8 0x80025070 8"
  "disjoint_blocks 0x80021000 8 0x800250A8 8" "disjoint_blocks 0x80021000 8 0x80025070 8" "disjoint_blocks 0x80021000 8 0x80024000 4"
  "disjoint_blocks 0x80022000 8 0x800250A8 8" "disjoint_blocks 0x80022000 8 0x80025070 8" "disjoint_blocks 0x80022000 8 0x80024000 4"
  "disjoint_blocks 0x80023008 8 0x800250A8 8" "disjoint_blocks 0x80023008 8 0x80025070 8" "disjoint_blocks 0x80023008 8 0x80024000 4"
proof -
  show "disjoint_blocks 0x800250A8 8 0x80025070 8" by (rule disjoint_sym, rule disjoint_blocksI; simp)
qed (rule disjoint_blocksI; simp)+

lemma demo_regs_loads:
  "load64 (demo_regs num arg) 0x800250A8 = num" "load64 (demo_regs num arg) 0x80025070 = arg"
  "load64 (demo_regs num arg) 0x80021000 = 0x20008801" "load64 (demo_regs num arg) 0x80022000 = 0x20008c01"
  "load64 (demo_regs num arg) 0x80023008 = 0x20009017"
  unfolding demo_regs_def by (simp_all add: load64_store64_other demo_far demo_loads)

text \<open>Copying four bytes to the mapped user page.\<close>

lemma demo_copyout4:
  assumes "load64 (ram s) 0x80021000 = 0x20008801" "load64 (ram s) 0x80022000 = 0x20008c01" "load64 (ram s) 0x80023008 = 0x20009017"
    and "length bs = 4" "k = 0 \<or> k = 4"
  shows "copyout_bytes 0x80021000 (0x1000 + k) bs s = Ret (0, s\<lparr>ram := wrbytes (ram s) (0x80024000 + k) bs\<rparr>)"
proof -
  have r: "PGROUNDDOWN (0x1000 + k) = 0x1000" "unat (k :: u64) \<le> 4" using assms(5) by (auto simp: PGROUNDDOWN_def)
  have "bs \<noteq> []" using assms(4) by auto
  moreover have "min (4096 - unat k) (length bs) = 4" using r(2) assms(4) by simp
  ultimately show ?thesis
    by (subst copyout_bytes.simps) (simp add: Let_def copyout_bytes.simps r demo_walk_at assms PTE2PA_def)
qed

abbreviation (input) demo_devs :: "nat \<Rightarrow> nat \<Rightarrow> kfiles device" where
  "demo_devs \<equiv> (\<lambda>_ _. \<lparr>dev_read = None, dev_write = None\<rparr>)"

lemma demo_start: "no_files (demo_files m)" "live 0 (demo_files m)" "devices_keep cur (demo_devs cur)"
  by (simp_all add: no_files_def live_def dead_def devices_keep_def demo_files_fields demo_proc_def)

lemma demo_alloc_pipe:
  "\<exists>t. alloc_pipe 0 (demo_files m) = Ret (Some (0, 1), t) \<and> ram t = m \<and> processes t = processes (demo_files m) \<and>
     f_type (files t 0) = FD_PIPE \<and> f_type (files t 1) = FD_PIPE"
proof -
  let ?s = "demo_files m"
  have up: "[0..<NFILE] = 0 # 1 # [2..<NFILE]" "[0..<NFILE div 2] = 0 # [1..<NFILE div 2]" by (simp_all add: upt_conv_Cons)
  have a: "alloc_file ?s = (Some 0, upd_file 0 (\<lambda>x. x\<lparr>f_ref := 1\<rparr>) ?s)"
    unfolding alloc_file_def up by (simp add: demo_files_fields file_new_def)
  let ?s1 = "upd_file 0 (\<lambda>x. x\<lparr>f_ref := 1\<rparr>) ?s"
  have b: "alloc_file ?s1 = (Some 1, upd_file 1 (\<lambda>x. x\<lparr>f_ref := 1\<rparr>) ?s1)"
    unfolding alloc_file_def up by (simp add: demo_files_fields file_new_def)
  show ?thesis unfolding alloc_pipe_def a prod.case Let_def up
    using b by (simp add: demo_files_fields upd_pipe_def)
qed

lemma demo_fdalloc:
  assumes "ofile (processes s 0) = (\<lambda>_. None)"
  shows "fdalloc 0 f s = (Some 0, set_ofile 0 0 (Some f) s)"
    "fdalloc 0 g (set_ofile 0 0 (Some f) s) = (Some 1, set_ofile 0 1 (Some g) (set_ofile 0 0 (Some f) s))"
proof -
  have up: "[0..<NOFILE] = 0 # 1 # [2..<NOFILE]" by (simp add: upt_conv_Cons)
  show "fdalloc 0 f s = (Some 0, set_ofile 0 0 (Some f) s)"
    "fdalloc 0 g (set_ofile 0 0 (Some f) s) = (Some 1, set_ofile 0 1 (Some g) (set_ofile 0 0 (Some f) s))"
    unfolding fdalloc_def up by (simp_all add: get_ofile_def assms)
qed

lemma demo_sys_pipe:
  "\<exists>t. sys_pipe 0 (demo_files (demo_regs 4 0x1000)) = Ret (0, t) \<and> live 0 t \<and>
     (\<forall>fd. get_ofile 0 fd t = (if fd = 0 then Some 0 else if fd = 1 then Some 1 else None))"
proof -
  let ?m = "demo_regs 4 0x1000"
  obtain t where t: "alloc_pipe 0 (demo_files ?m) = Ret (Some (0, 1), t)" "ram t = ?m" "processes t = processes (demo_files ?m)"
    using demo_alloc_pipe by blast
  have o: "ofile (processes t 0) = (\<lambda>_. None)" "pagetable (processes t 0) = 0x80021000"
    using t(3) by (simp_all add: demo_files_fields demo_proc_def)
  let ?u = "set_ofile 0 1 (Some 1) (set_ofile 0 0 (Some 0) t)"
  have u: "ram ?u = ?m" "pagetable (processes ?u 0) = 0x80021000" "trapframe (processes ?u 0) = 0x80025000"
    using t(2,3) o(2) by (simp_all add: set_ofile_def upd_proc_def demo_files_fields)
  have c0: "copyout_bytes 0x80021000 0x1000 (le_bytes 4 (0 :: u32)) ?u = Ret (0, ?u\<lparr>ram := wrbytes ?m 0x80024000 (le_bytes 4 (0 :: u32))\<rparr>)"
    using demo_copyout4 [of ?u "le_bytes 4 (0 :: u32)" 0] u by (simp add: demo_regs_loads)
  let ?v = "?u\<lparr>ram := wrbytes ?m 0x80024000 (le_bytes 4 (0 :: u32))\<rparr>"
  have c1: "\<exists>w. copyout_bytes 0x80021000 0x1004 (le_bytes 4 (1 :: u32)) ?v = Ret (0, ?v\<lparr>ram := w\<rparr>)"
    using demo_copyout4 [of ?v "le_bytes 4 (1 :: u32)" 4] by (simp add: load64_wrbytes_other demo_far demo_regs_loads) blast
  have a: "argaddr 0 0 (demo_files ?m) = Ret 0x1000"
    by (simp add: argaddr_def argraw_def get_tf_def tf_a_def demo_files_fields demo_regs_loads)
  obtain w where w: "copyout_bytes 0x80021000 0x1004 (le_bytes 4 (1 :: u32)) ?v = Ret (0, ?v\<lparr>ram := w\<rparr>)" using c1 by blast
  have "sys_pipe 0 (demo_files ?m) = Ret (0, ?v\<lparr>ram := w\<rparr>)"
    unfolding sys_pipe_def using a t(1) demo_fdalloc [OF o(1)] u(2) c0 w by simp
  moreover have "get_ofile 0 fd (?v\<lparr>ram := w\<rparr>) = (if fd = 0 then Some 0 else if fd = 1 then Some 1 else None)" for fd
    using o(1) by (simp add: get_ofile_def set_ofile_def upd_proc_def)
  moreover have "live 0 (?v\<lparr>ram := w\<rparr>)" using t(3) by (simp add: live_def dead_def set_ofile_def upd_proc_def demo_files_fields)
  ultimately show ?thesis by blast
qed

theorem descriptors_typed_witness:
  "\<exists>s. (kstep 0 0 0 demo_devs)\<^sup>*\<^sup>* (demo_files (demo_regs 4 0x1000)) s \<and> get_ofile 0 1 s = Some 1 \<and>
     unat (f_ref (files s 1)) = card {(i, fd). i < NPROC \<and> fd < NOFILE \<and> get_ofile i fd s = Some 1}"
proof -
  let ?s = "demo_files (demo_regs 4 0x1000)"
  obtain t where t: "sys_pipe 0 ?s = Ret (0, t)" "get_ofile 0 1 t = Some 1" using demo_sys_pipe by auto
  let ?t = "set_tf 0 (tf_a 0) 0 t"
  have "get_tf 0 (tf_a 7) ?s = 4" by (simp add: get_tf_def tf_a_def demo_files_fields demo_regs_loads)
  then have "syscall 0 0 0 (demo_devs 0) 0 ?s = Ret (Returns 0 ?t)"
    unfolding syscall_def using t(1) by (simp add: syscalls_def returned_def Let_def)
  from kstep.Syscall [OF demo_start(2) this] have r: "(kstep 0 0 0 demo_devs)\<^sup>*\<^sup>* ?s ?t" by auto
  have "unat (f_ref (files ?t 1)) = card {(i, fd). i < NPROC \<and> fd < NOFILE \<and> get_ofile i fd ?t = Some 1}"
    using conjunct1 [OF descriptors_typed [OF demo_start(1,3) r], rule_format, of 1] by simp
  moreover have "get_ofile 0 1 ?t = Some 1" using t(2) by (simp add: get_ofile_def set_tf_def)
  ultimately show ?thesis using r by blast
qed

theorem sys_dup_lowest_witness:
  "\<exists>s t :: kfiles. refs_ok s \<and> argfd 0 0 s = Ret (Some (0, 0)) \<and> sys_dup 0 s = Ret (2, t) \<and> get_ofile 0 2 t = Some 0"
proof -
  obtain t where t: "sys_pipe 0 (demo_files (demo_regs 4 0x1000)) = Ret (0, t)" "live 0 t"
      "\<forall>fd. get_ofile 0 fd t = (if fd = 0 then Some 0 else if fd = 1 then Some 1 else None)" using demo_sys_pipe by blast
  let ?s = "set_tf 0 (tf_a 0) 0 t"
  have ok: "refs_ok ?s" using refs_ok_key [OF fdkey_set_tf] sys_pipe_keeps [OF no_files_ok demo_start(2) t(1)] demo_start(1) by blast
  have l: "live 0 ?s" using t(2) by (simp add: live_def set_tf_def)
  have g: "get_ofile 0 fd ?s = (if fd = 0 then Some 0 else if fd = 1 then Some 1 else None)" for fd
    using t(3) by (simp add: get_ofile_def set_tf_def)
  have a: "argfd 0 0 ?s = Ret (Some (0, 0))" by (simp add: argfd_def argint_def argraw_def get_tf_def set_tf_def g [unfolded set_tf_def])
  have "find (\<lambda>j. get_ofile 0 j ?s = None) [0..<NOFILE] = Some 2" unfolding g by (simp add: upt_conv_Cons)
  then show ?thesis using sys_dup_lowest [OF ok l a] ok a by auto
qed

end
