(* ===== verification/Console.thy ===== *)
theory Console
  imports Descriptors Formatting
begin

text \<open>
  The console: the line editor of \<^verbatim>\<open>kernel/console_interface.cpp\<close> and the serial line under it,
  \<^verbatim>\<open>kernel/uart16550_driver.cpp\<close>. Of the serial device the model has what the code sees of it: the bytes that have arrived and were
  not read, how many bytes the transmitter takes before its status bit drops, and the writes to its registers in order. Waiting
  for the transmitter in a loop ends when it has room for one byte.
\<close>

section \<open>State\<close>

abbreviation (input) INPUT_BUF_SIZE :: nat where "INPUT_BUF_SIZE \<equiv> 128"
abbreviation (input) UART_TX_BUF_SIZE :: nat where "UART_TX_BUF_SIZE \<equiv> 32"
abbreviation (input) CONSOLE :: nat where "CONSOLE \<equiv> 1"

record uart_device =
  rx_fifo :: "u8 list"
  tx_room :: nat
  reg_writes :: "(nat \<times> u8) list"

record tx_ring =
  tx_buf :: "nat \<Rightarrow> u8"
  tx_w :: u64
  tx_r :: u64

record cons_ring =
  cons_buf :: "nat \<Rightarrow> u8"
  cons_r :: u32
  cons_w :: u32
  cons_e :: u32

record kcons = kfiles +
  uart :: uart_device
  tx :: tx_ring
  cons :: cons_ring
  panicked :: bool

section \<open>The serial line\<close>

abbreviation (input) THR :: nat where "THR \<equiv> 0"
abbreviation (input) IER :: nat where "IER \<equiv> 1"
abbreviation (input) FCR :: nat where "FCR \<equiv> 2"
abbreviation (input) LCR :: nat where "LCR \<equiv> 3"
abbreviation (input) LSR_RX_READY :: u8 where "LSR_RX_READY \<equiv> 1"
abbreviation (input) LSR_TX_IDLE :: u8 where "LSR_TX_IDLE \<equiv> 0x20"

text \<open>Reads of the line status register and of the receive register, and writes to registers.\<close>

definition read_LSR :: "uart_device \<Rightarrow> u8" where
  "read_LSR u = (if rx_fifo u \<noteq> [] then LSR_RX_READY else 0) OR (if 0 < tx_room u then LSR_TX_IDLE else 0)"

definition read_RHR :: "uart_device \<Rightarrow> u8 \<times> uart_device" where
  "read_RHR u = (hd (rx_fifo u), u\<lparr>rx_fifo := tl (rx_fifo u)\<rparr>)"

definition WriteReg :: "nat \<Rightarrow> u8 \<Rightarrow> uart_device \<Rightarrow> uart_device" where
  "WriteReg reg v u = u\<lparr>reg_writes := reg_writes u @ [(reg, v)]\<rparr>"

definition write_THR :: "u8 \<Rightarrow> uart_device \<Rightarrow> uart_device" where
  "write_THR c u = (WriteReg THR c u)\<lparr>tx_room := tx_room u - 1\<rparr>"

definition uart_init :: "uart_device \<Rightarrow> uart_device" where
  "uart_init u =
     (let u = WriteReg IER 0 u;
          u = WriteReg LCR 0x80 u;
          u = WriteReg 0 3 u;
          u = WriteReg 1 0 u;
          u = WriteReg LCR 3 u;
          u = WriteReg FCR (1 OR 6) u
      in WriteReg IER (2 OR 1) u)"

text \<open>\<^verbatim>\<open>uart_tx_buf[uart_tx_r % UART_TX_BUF_SIZE]\<close> and the store for the next byte.\<close>

definition tx_front :: "tx_ring \<Rightarrow> u8" where
  "tx_front q = tx_buf q (unat (tx_r q) mod UART_TX_BUF_SIZE)"

definition tx_get :: "tx_ring \<Rightarrow> tx_ring" where
  "tx_get q = q\<lparr>tx_r := tx_r q + 1\<rparr>"

definition tx_put :: "u8 \<Rightarrow> tx_ring \<Rightarrow> tx_ring" where
  "tx_put c q = q\<lparr>tx_buf := (tx_buf q)(unat (tx_w q) mod UART_TX_BUF_SIZE := c), tx_w := tx_w q + 1\<rparr>"

function uartstart :: "nat option \<Rightarrow> 'a kcons_scheme \<Rightarrow> 'a kcons_scheme" where
  "uartstart cur s =
     (if tx_w (tx s) = tx_r (tx s) then s
      else if read_LSR (uart s) AND LSR_TX_IDLE = 0 then s
      else let c = tx_front (tx s);
               s = wakeup cur (Some OnUart) (s\<lparr>tx := tx_get (tx s)\<rparr>)
           in uartstart cur (s\<lparr>uart := write_THR c (uart s)\<rparr>))"
  by pat_completeness auto
termination
  by (relation "measure (\<lambda>(cur, s). tx_room (uart s))")
    (auto simp: read_LSR_def write_THR_def WriteReg_def wakeup_def split: if_splits)

declare uartstart.simps [simp del]

text \<open>The call of \<open>putc\<close> by a process: the process goes to sleep when the ring is full.\<close>

definition uart_putc :: "nat \<Rightarrow> u8 \<Rightarrow> 'a kcons_scheme \<Rightarrow> 'a kcons_scheme wait_result res" where
  "uart_putc cur c s =
     (if panicked s then Blocked
      else if tx_w (tx s) = tx_r (tx s) + of_nat UART_TX_BUF_SIZE then Ret (Sleeps (sleep_on cur OnUart s))
      else Ret (Waited 0 (uartstart (Some cur) (s\<lparr>tx := tx_put c (tx s)\<rparr>))))"

definition uart_getc :: "uart_device \<Rightarrow> int \<times> uart_device" where
  "uart_getc u =
     (if read_LSR u AND LSR_RX_READY \<noteq> 0 then let (c, u) = read_RHR u in (uint c, u) else (- 1, u))"

definition putc_sync :: "u8 \<Rightarrow> 'a kcons_scheme \<Rightarrow> 'a kcons_scheme res" where
  "putc_sync c s = (if panicked s then Blocked else Ret (s\<lparr>uart := write_THR c (uart s)\<rparr>))"

section \<open>The line editor\<close>

text \<open>\<^verbatim>\<open>putc\<close> with an int argument: 0x100 stands for a backspace to echo.\<close>

abbreviation (input) BACKSPACE :: int where "BACKSPACE \<equiv> 0x100"

definition console_putc :: "int \<Rightarrow> 'a kcons_scheme \<Rightarrow> 'a kcons_scheme res" where
  "console_putc c s =
     (if c = BACKSPACE then kbind (putc_sync 8 s) (\<lambda>s. kbind (putc_sync 0x20 s) (\<lambda>s. putc_sync 8 s))
      else putc_sync (word_of_int c) s)"

fun console_puts :: "string \<Rightarrow> 'a kcons_scheme \<Rightarrow> 'a kcons_scheme res" where
  "console_puts [] s = Ret s"
| "console_puts (c # cs) s = kbind (console_putc (of_char c) s) (console_puts cs)"

text \<open>The kernel's \<open>printf\<close> on the console; a conversion with no argument for it has no defined result.\<close>

definition console_printf :: "string \<Rightarrow> va_arg list \<Rightarrow> 'a kcons_scheme \<Rightarrow> 'a kcons_scheme res" where
  "console_printf fmt ap s = (case kprintf fmt ap of None \<Rightarrow> Panic ''va_arg'' | Some out \<Rightarrow> console_puts out s)"

text \<open>The listing of the process table, \<open>dump\<close> of \<^verbatim>\<open>kernel/process_manager.cpp\<close>.\<close>

fun state_name :: "process_state \<Rightarrow> string" where
  "state_name UNUSED = ''unused''"
| "state_name USED = ''used''"
| "state_name SLEEPING = ''sleep ''"
| "state_name RUNNABLE = ''runble''"
| "state_name RUNNING = ''run   ''"
| "state_name ZOMBIE = ''zombie''"

fun dump_loop :: "nat \<Rightarrow> nat \<Rightarrow> 'a kcons_scheme \<Rightarrow> 'a kcons_scheme res" where
  "dump_loop 0 i s = Ret s"
| "dump_loop (Suc k) i s =
     (let p = processes s i in
      if pstate p = UNUSED then dump_loop k (Suc i) s
      else kbind (console_printf ''%d %s %s'' [VInt (ucast (pid p)), VStr (Some (state_name (pstate p))),
                    VStr (Some (map (\<lambda>b. char_of (unat b)) (takeWhile (\<lambda>b. b \<noteq> 0) (pname p))))] s) (\<lambda>s.
           kbind (console_printf [CHR 0x0a] [] s) (dump_loop k (Suc i))))"

definition process_dump :: "'a kcons_scheme \<Rightarrow> 'a kcons_scheme res" where
  "process_dump s = kbind (console_printf [CHR 0x0a] [] s) (dump_loop NPROC 0)"

definition upd_cons :: "(cons_ring \<Rightarrow> cons_ring) \<Rightarrow> 'a kcons_scheme \<Rightarrow> 'a kcons_scheme" where
  "upd_cons f s = s\<lparr>cons := f (cons s)\<rparr>"

text \<open>The loop for control-U, with as many rounds as there are bytes to edit.\<close>

fun kill_line :: "nat \<Rightarrow> 'a kcons_scheme \<Rightarrow> 'a kcons_scheme res" where
  "kill_line 0 s = Ret s"
| "kill_line (Suc k) s =
     (let q = cons s in
      if cons_e q \<noteq> cons_w q \<and> cons_buf q (unat (cons_e q - 1) mod INPUT_BUF_SIZE) \<noteq> 0x0a
      then kbind (console_putc BACKSPACE (upd_cons (\<lambda>q. q\<lparr>cons_e := cons_e q - 1\<rparr>) s)) (kill_line k)
      else Ret s)"

text \<open>
  \<open>interrupt\<close>: the byte typed is control-P, which lists the processes, control-U, control-H or delete, or a byte to keep.
\<close>

definition cons_store :: "u8 \<Rightarrow> cons_ring \<Rightarrow> cons_ring" where
  "cons_store c q = q\<lparr>cons_buf := (cons_buf q)(unat (cons_e q) mod INPUT_BUF_SIZE := c), cons_e := cons_e q + 1\<rparr>"

definition console_interrupt :: "nat option \<Rightarrow> u8 \<Rightarrow> 'a kcons_scheme \<Rightarrow> 'a kcons_scheme res" where
  "console_interrupt cur c s =
     (if c = 0x10 then process_dump s
      else if c = 0x15 then kill_line (unat (cons_e (cons s) - cons_w (cons s))) s
      else if c = 8 \<or> c = 0x7f
      then if cons_e (cons s) \<noteq> cons_w (cons s)
           then console_putc BACKSPACE (upd_cons (\<lambda>q. q\<lparr>cons_e := cons_e q - 1\<rparr>) s)
           else Ret s
      else if c \<noteq> 0 \<and> cons_e (cons s) - cons_r (cons s) < of_nat INPUT_BUF_SIZE
      then let c = (if c = 0x0d then 0x0a else c) in
           kbind (console_putc (uint c) s) (\<lambda>s.
             let s = upd_cons (cons_store c) s; q = cons s in
             Ret (if c = 0x0a \<or> c = 4 \<or> cons_e q - cons_r q = of_nat INPUT_BUF_SIZE
                  then wakeup cur (Some OnConsole) (upd_cons (\<lambda>q. q\<lparr>cons_w := cons_e q\<rparr>) s)
                  else s))
      else Ret s)"

text \<open>The interrupt of the serial line: the bytes that have arrived go to the editor, then waiting output is sent.\<close>

fun uart_input :: "nat \<Rightarrow> nat option \<Rightarrow> 'a kcons_scheme \<Rightarrow> 'a kcons_scheme res" where
  "uart_input 0 cur s = Ret s"
| "uart_input (Suc k) cur s =
     (let (c, u) = uart_getc (uart s); s = s\<lparr>uart := u\<rparr> in
      if c = - 1 then Ret s else kbind (console_interrupt cur (word_of_int c) s) (uart_input k cur))"

definition uart_handle_interrupt :: "nat option \<Rightarrow> 'a kcons_scheme \<Rightarrow> 'a kcons_scheme res" where
  "uart_handle_interrupt cur s =
     kbind (uart_input (Suc (length (rx_fifo (uart s)))) cur s) (\<lambda>s. Ret (uartstart cur s))"

section \<open>Reading and writing the console\<close>

text \<open>
  The loop of \<open>read\<close>: \<open>k\<close> is \<^verbatim>\<open>n\<close>, the bytes still wanted, and \<open>i\<close> is \<^verbatim>\<open>target - n\<close>. A read that sleeps goes on
  with the same \<open>i\<close> when it is woken.
\<close>

fun console_read_loop :: "nat \<Rightarrow> u64 \<Rightarrow> nat \<Rightarrow> nat \<Rightarrow> 'a kcons_scheme \<Rightarrow> 'a kcons_scheme xfer res" where
  "console_read_loop cur dst 0 i s = Ret (Finished (int i) s)"
| "console_read_loop cur dst (Suc k) i s =
     (let q = cons s in
      if cons_r q = cons_w q
      then if get_killed cur s then Ret (Finished (- 1) s) else Ret (Waiting i (sleep_on cur OnConsole s))
      else let c = cons_buf q (unat (cons_r q) mod INPUT_BUF_SIZE);
               t = upd_cons (\<lambda>q. q\<lparr>cons_r := cons_r q + 1\<rparr>) s
           in if c = 4
              then Ret (Finished (int i) (if 0 < i then upd_cons (\<lambda>q. q\<lparr>cons_r := cons_r q - 1\<rparr>) t else t))
              else kbind (copyout_bytes (pagetable (processes t cur)) (dst + of_nat i) [c] t) (\<lambda>(r, t).
                if r = - 1 then Ret (Finished (int i) t)
                else if c = 0x0a then Ret (Finished (int (Suc i)) t)
                else console_read_loop cur dst k (Suc i) t))"

definition console_read :: "nat \<Rightarrow> nat \<Rightarrow> u64 \<Rightarrow> int \<Rightarrow> 'a kcons_scheme \<Rightarrow> 'a kcons_scheme xfer res" where
  "console_read i cur dst n s = console_read_loop cur dst (nat n - i) i s"

fun console_write_loop :: "nat \<Rightarrow> u64 \<Rightarrow> nat \<Rightarrow> nat \<Rightarrow> 'a kcons_scheme \<Rightarrow> 'a kcons_scheme xfer res" where
  "console_write_loop cur src 0 i s = Ret (Finished (int i) s)"
| "console_write_loop cur src (Suc k) i s =
     kbind (copyin_bytes (pagetable (processes s cur)) (src + of_nat i) 1 s) (\<lambda>r. case r of
       None \<Rightarrow> Ret (Finished (int i) s)
     | Some bs \<Rightarrow> kbind (uart_putc cur (hd bs) s) (\<lambda>w. case w of
           Waited _ s \<Rightarrow> console_write_loop cur src k (Suc i) s
         | Sleeps s \<Rightarrow> Ret (Waiting i s)))"

definition console_write :: "nat \<Rightarrow> nat \<Rightarrow> u64 \<Rightarrow> int \<Rightarrow> 'a kcons_scheme \<Rightarrow> 'a kcons_scheme xfer res" where
  "console_write i cur src n s = console_write_loop cur src (nat n - i) i s"

text \<open>The constructor registers the console with the device switch.\<close>

definition console_devsw :: "nat \<Rightarrow> nat \<Rightarrow> 'a kcons_scheme device" where
  "console_devsw cur d =
     (if d = CONSOLE then \<lparr>dev_read = Some (console_read 0 cur), dev_write = Some (console_write 0 cur)\<rparr>
      else \<lparr>dev_read = None, dev_write = None\<rparr>)"

section \<open>Output of the kernel\<close>

lemma write_THR_fields [simp]: "tx_room (write_THR c u) = tx_room u - 1" "rx_fifo (write_THR c u) = rx_fifo u"
    "reg_writes (write_THR c u) = reg_writes u @ [(THR, c)]"
  by (simp_all add: write_THR_def WriteReg_def)

lemma rx_fifo_fold [simp]: "rx_fifo (fold write_THR bs u) = rx_fifo u"
  by (induction bs arbitrary: u) auto

text \<open>The synchronous output of the kernel only writes to the serial line, byte by byte.\<close>

definition sent :: "u8 list \<Rightarrow> 'a kcons_scheme \<Rightarrow> 'a kcons_scheme" where
  "sent bs s = s\<lparr>uart := fold write_THR bs (uart s)\<rparr>"

lemma sent_simps [simp]:
  "sent [] s = s" "sent bs (sent as s) = sent (as @ bs) s" "panicked (sent bs s) = panicked s" "cons (sent bs s) = cons s"
  "processes (sent bs s) = processes s" "sent bs (upd_cons f s) = upd_cons f (sent bs s)"
  by (simp_all add: sent_def upd_cons_def)

lemma upd_cons_simps [simp]:
  "cons (upd_cons f s) = f (cons s)" "uart (upd_cons f s) = uart s" "panicked (upd_cons f s) = panicked s" "processes (upd_cons f s) = processes s"
  by (simp_all add: upd_cons_def)

lemma putc_sync_sent: "\<not> panicked s \<Longrightarrow> putc_sync c s = Ret (sent [c] s)"
  by (simp add: putc_sync_def sent_def)

lemma console_putc_sent:
  "\<not> panicked s \<Longrightarrow> console_putc c s = Ret (sent (if c = BACKSPACE then [8, 0x20, 8] else [word_of_int c]) s)"
  by (simp add: console_putc_def putc_sync_sent)

lemma console_puts_sent: "\<not> panicked s \<Longrightarrow> \<exists>bs. console_puts cs s = Ret (sent bs s)"
proof (induction cs arbitrary: s)
  case Nil
  then show ?case by (auto intro: exI [of _ "[]"])
next
  case (Cons c cs)
  obtain bs where "console_puts cs (sent (if of_char c = BACKSPACE then [8, 0x20, 8] else [word_of_int (of_char c)]) s) =
      Ret (sent bs (sent (if of_char c = BACKSPACE then [8, 0x20, 8] else [word_of_int (of_char c)]) s))"
    using Cons.IH Cons.prems by (metis sent_simps(3))
  then show ?case using Cons.prems by (auto simp: console_putc_sent)
qed

lemma console_printf_sent: "\<not> panicked s \<Longrightarrow> kprintf fmt ap \<noteq> None \<Longrightarrow> \<exists>bs. console_printf fmt ap s = Ret (sent bs s)"
  using console_puts_sent by (auto simp: console_printf_def)

lemma dump_loop_sent: "\<not> panicked s \<Longrightarrow> \<exists>bs. dump_loop k i s = Ret (sent bs s)"
proof (induction k arbitrary: i s)
  case 0
  then show ?case by (auto intro: exI [of _ "[]"])
next
  case (Suc k)
  have fmt: "kprintf ''%d %s %s'' [VInt v, VStr (Some a), VStr (Some b)] \<noteq> None" "kprintf [CHR 0x0a] [] \<noteq> None" for v a b
    by (simp_all add: kprintf_def kconv_def Let_def nextc_def)
  show ?case
  proof (cases "pstate (processes s i) = UNUSED")
    case False
    obtain as where as: "console_printf ''%d %s %s'' [VInt (ucast (pid (processes s i))), VStr (Some (state_name (pstate (processes s i)))),
        VStr (Some (map (\<lambda>b. char_of (unat b)) (takeWhile (\<lambda>b. b \<noteq> 0) (pname (processes s i)))))] s = Ret (sent as s)"
      using console_printf_sent [OF Suc.prems fmt(1)] by blast
    obtain bs where bs: "console_printf [CHR 0x0a] [] (sent as s) = Ret (sent bs (sent as s))"
      using console_printf_sent [of "sent as s", OF _ fmt(2)] Suc.prems by auto
    obtain cs where "dump_loop k (Suc i) (sent (as @ bs) s) = Ret (sent cs (sent (as @ bs) s))"
      using Suc.IH [of "sent (as @ bs) s"] Suc.prems by auto
    then show ?thesis using False as bs by (auto simp: Let_def)
  qed (use Suc in \<open>simp add: Let_def\<close>)
qed

lemma process_dump_sent: "\<not> panicked s \<Longrightarrow> \<exists>bs. process_dump s = Ret (sent bs s)"
proof -
  assume p: "\<not> panicked s"
  obtain as where as: "console_printf [CHR 0x0a] [] s = Ret (sent as s)"
    using console_printf_sent [OF p, of "[CHR 0x0a]" "[]"] by (auto simp: kprintf_def)
  obtain bs where "dump_loop NPROC 0 (sent as s) = Ret (sent bs (sent as s))" using dump_loop_sent [of "sent as s"] p by auto
  then show ?thesis using as by (auto simp: process_dump_def)
qed

section \<open>What the line editor does\<close>

text \<open>
  The abstract editor: the bytes that are ready to be read, and the line that is being typed. Its functions give the new
  state for a byte typed, and the bytes echoed.
\<close>

type_synonym typed = "u8 list \<times> u8 list"

definition keeps_byte :: "u8 \<Rightarrow> typed \<Rightarrow> bool" where
  "keeps_byte c t \<longleftrightarrow> c \<noteq> 0 \<and> length (fst t) + length (snd t) < INPUT_BUF_SIZE"

definition cr_to_nl :: "u8 \<Rightarrow> u8" where
  "cr_to_nl c = (if c = 0x0d then 0x0a else c)"

definition edit :: "u8 \<Rightarrow> typed \<Rightarrow> typed" where
  "edit c t = (let (ready, line) = t in
     if c = 0x10 then t
     else if c = 0x15 then (ready, [])
     else if c = 8 \<or> c = 0x7f then (ready, butlast line)
     else if keeps_byte c t
     then let line = line @ [cr_to_nl c] in
       if cr_to_nl c = 0x0a \<or> c = 4 \<or> length ready + length line = INPUT_BUF_SIZE then (ready @ line, []) else (ready, line)
     else t)"

definition echo :: "u8 \<Rightarrow> typed \<Rightarrow> u8 list" where
  "echo c t = (let (ready, line) = t; erase = [8, 0x20, 8] in
     if c = 0x15 then concat (replicate (length line) erase)
     else if c = 8 \<or> c = 0x7f then (if line = [] then [] else erase)
     else if keeps_byte c t then [cr_to_nl c] else [])"

definition cons_abs :: "cons_ring \<Rightarrow> typed" where
  "cons_abs q = (ring INPUT_BUF_SIZE (cons_buf q) (cons_r q) (cons_w q), ring INPUT_BUF_SIZE (cons_buf q) (cons_w q) (cons_e q))"

definition cons_ok :: "cons_ring \<Rightarrow> bool" where
  "cons_ok q \<longleftrightarrow> unat (cons_w q - cons_r q) \<le> unat (cons_e q - cons_r q) \<and> unat (cons_e q - cons_r q) \<le> INPUT_BUF_SIZE \<and>
     0x0a \<notin> set (snd (cons_abs q))"

lemma cons_lengths:
  assumes "cons_ok q"
  shows "unat (cons_e q - cons_r q) = length (fst (cons_abs q)) + length (snd (cons_abs q))"
    "ring INPUT_BUF_SIZE (cons_buf q) (cons_r q) (cons_e q) = fst (cons_abs q) @ snd (cons_abs q)"
  using assms ring_split [of "cons_w q" "cons_r q" "cons_e q"] by (auto simp: cons_ok_def cons_abs_def)

lemma cons_erase:
  assumes ok: "cons_ok q" and ne: "cons_e q \<noteq> cons_w q"
  shows "cons_ok (q\<lparr>cons_e := cons_e q - 1\<rparr>)" (is "cons_ok ?q")
    "cons_abs (q\<lparr>cons_e := cons_e q - 1\<rparr>) = (fst (cons_abs q), butlast (snd (cons_abs q)))"
    "cons_buf q (unat (cons_e q - 1) mod INPUT_BUF_SIZE) \<noteq> 0x0a"
proof -
  note l = ring_last [OF ne]
  have len: "unat (cons_e q - cons_w q) = length (snd (cons_abs q))" by (simp add: cons_abs_def)
  have "snd (cons_abs q) \<noteq> []" using ne by (simp add: cons_abs_def)
  then have gt: "unat (cons_w q - cons_r q) < unat (cons_e q - cons_r q)" using cons_lengths(1) [OF ok] by (simp add: cons_abs_def unat_gt_0)
  then have "cons_e q \<noteq> cons_r q" by auto
  then have e: "unat (cons_e q - 1 - cons_r q) = unat (cons_e q - cons_r q) - 1" by (rule ring_last(2))
  show abs: "cons_abs ?q = (fst (cons_abs q), butlast (snd (cons_abs q)))" by (simp add: cons_abs_def l(1))
  have "0x0a \<notin> set (ring INPUT_BUF_SIZE (cons_buf q) (cons_w q) (cons_e q))" using ok by (simp add: cons_ok_def cons_abs_def)
  then show "cons_buf q (unat (cons_e q - 1) mod INPUT_BUF_SIZE) \<noteq> 0x0a" unfolding l(1) by simp
  show "cons_ok ?q" using ok gt e unfolding cons_ok_def abs by (auto dest: in_set_butlastD)
qed

lemma cons_keep:
  assumes ok: "cons_ok q" and room: "unat (cons_e q - cons_r q) < INPUT_BUF_SIZE"
  shows "cons_abs (cons_store c q) = (fst (cons_abs q), snd (cons_abs q) @ [c])"
    "unat (cons_e (cons_store c q) - cons_r (cons_store c q)) = Suc (unat (cons_e q - cons_r q))"
    "c \<noteq> 0x0a \<Longrightarrow> cons_ok (cons_store c q)"
    "cons_ok ((cons_store c q)\<lparr>cons_w := cons_e (cons_store c q)\<rparr>)"
    "cons_abs ((cons_store c q)\<lparr>cons_w := cons_e (cons_store c q)\<rparr>) = (fst (cons_abs q) @ snd (cons_abs q) @ [c], [])"
proof -
  let ?q = "cons_store c q"
  have all: "ring INPUT_BUF_SIZE (cons_buf ?q) (cons_r q) (cons_e ?q) = fst (cons_abs q) @ snd (cons_abs q) @ [c]"
    and len: "unat (cons_e ?q - cons_r ?q) = Suc (unat (cons_e q - cons_r q))"
    using ring_put(1) [of INPUT_BUF_SIZE "cons_e q" "cons_r q" "cons_buf q" c] ring_put(2) [of INPUT_BUF_SIZE "cons_e q" "cons_r q"] room cons_lengths(2) [OF ok]
    by (simp_all add: cons_store_def)
  show "unat (cons_e ?q - cons_r ?q) = Suc (unat (cons_e q - cons_r q))" by (rule len)
  have le: "unat (cons_w q - cons_r q) \<le> unat (cons_e q - cons_r q)" using ok by (simp add: cons_ok_def)
  then have "ring INPUT_BUF_SIZE (cons_buf ?q) (cons_r q) (cons_e ?q) =
      ring INPUT_BUF_SIZE (cons_buf ?q) (cons_r q) (cons_w q) @ ring INPUT_BUF_SIZE (cons_buf ?q) (cons_w q) (cons_e ?q)"
    using len by (intro ring_split(1)) (simp add: cons_store_def)
  moreover have "length (ring INPUT_BUF_SIZE (cons_buf ?q) (cons_r q) (cons_w q)) = length (fst (cons_abs q))" by (simp add: cons_abs_def)
  ultimately show abs: "cons_abs ?q = (fst (cons_abs q), snd (cons_abs q) @ [c])"
    using all by (simp add: cons_abs_def cons_store_def)
  show "c \<noteq> 0x0a \<Longrightarrow> cons_ok ?q" using ok le len room unfolding cons_ok_def abs by (simp add: cons_store_def)
  show abs': "cons_abs (?q\<lparr>cons_w := cons_e ?q\<rparr>) = (fst (cons_abs q) @ snd (cons_abs q) @ [c], [])"
    using all by (simp add: cons_abs_def cons_store_def)
  show "cons_ok (?q\<lparr>cons_w := cons_e ?q\<rparr>)" using len room unfolding cons_ok_def abs' by simp
qed

lemma kill_line_clears:
  assumes "cons_ok (cons s)" "\<not> panicked s" "k = length (snd (cons_abs (cons s)))"
  shows "\<exists>q. kill_line k s = Ret (sent (concat (replicate k [8, 0x20, 8])) (upd_cons (\<lambda>_. q) s)) \<and> cons_ok q \<and>
    cons_abs q = (fst (cons_abs (cons s)), [])"
  using assms
proof (induction k arbitrary: s)
  case 0
  then show ?case by (intro exI [of _ "cons s"]) (auto simp: upd_cons_def prod_eq_iff)
next
  case (Suc k)
  let ?s = "upd_cons (\<lambda>q. q\<lparr>cons_e := cons_e q - 1\<rparr>) s"
  have ne: "cons_e (cons s) \<noteq> cons_w (cons s)" using Suc.prems(3) by (auto simp: cons_abs_def)
  note e = cons_erase [OF Suc.prems(1) ne]
  have len: "k = length (snd (cons_abs (cons (sent [8, 0x20, 8] ?s))))" using e(2) Suc.prems(3) [symmetric] by simp
  obtain q where q: "kill_line k (sent [8, 0x20, 8] ?s) = Ret (sent (concat (replicate k [8, 0x20, 8])) (upd_cons (\<lambda>_. q) (sent [8, 0x20, 8] ?s)))"
    "cons_ok q" "cons_abs q = (fst (cons_abs (cons s)), [])"
    using Suc.IH [of "sent [8, 0x20, 8] ?s"] e(1,2) len Suc.prems(2) by (simp add: e(2)) blast
  have "kill_line (Suc k) s = kill_line k (sent [8, 0x20, 8] ?s)"
    using ne e(3) Suc.prems(2) by (simp add: Let_def console_putc_sent)
  then show ?case using q by (intro exI [of _ q]) (simp add: sent_def upd_cons_def)
qed

lemma console_interrupt_spec:
  assumes ok: "cons_ok (cons s)" and np: "\<not> panicked s"
  shows "\<exists>q u. console_interrupt cur c s = Ret (let t = upd_cons (\<lambda>_. q) (s\<lparr>uart := u\<rparr>) in
        if fst (cons_abs q) = fst (cons_abs (cons s)) then t else wakeup cur (Some OnConsole) t) \<and>
      cons_ok q \<and> cons_abs q = edit c (cons_abs (cons s)) \<and> rx_fifo u = rx_fifo (uart s) \<and>
      (c \<noteq> 0x10 \<longrightarrow> u = fold write_THR (echo c (cons_abs (cons s))) (uart s))"
proof -
  let ?q = "cons s" let ?a = "cons_abs (cons s)"
  consider (dump) "c = 0x10" | (kill) "c = 0x15" | (erase) "c = 8 \<or> c = 0x7f"
    | (keep) "c \<noteq> 0x10" "c \<noteq> 0x15" "c \<noteq> 8" "c \<noteq> 0x7f" "keeps_byte c ?a"
    | (drop) "c \<noteq> 0x10" "c \<noteq> 0x15" "c \<noteq> 8" "c \<noteq> 0x7f" "\<not> keeps_byte c ?a" by blast
  then show ?thesis
  proof cases
    case dump
    obtain bs where "process_dump s = Ret (sent bs s)" using process_dump_sent [OF np] by blast
    then show ?thesis using ok dump
      by (intro exI [of _ ?q] exI [of _ "fold write_THR bs (uart s)"]) (simp add: console_interrupt_def sent_def upd_cons_def edit_def)
  next
    case kill
    obtain q where q: "kill_line (length (snd ?a)) s = Ret (sent (concat (replicate (length (snd ?a)) [8, 0x20, 8])) (upd_cons (\<lambda>_. q) s))"
      "cons_ok q" "cons_abs q = (fst ?a, [])"
      using kill_line_clears [OF ok np refl] by blast
    have "unat (cons_e ?q - cons_w ?q) = length (snd ?a)" by (simp add: cons_abs_def)
    then show ?thesis using q kill
      by (intro exI [of _ q] exI [of _ "fold write_THR (echo c ?a) (uart s)"])
        (simp add: console_interrupt_def edit_def echo_def sent_def upd_cons_def case_prod_beta)
  next
    case erase
    show ?thesis
    proof (cases "cons_e ?q = cons_w ?q")
      case True
      then show ?thesis using ok erase
        by (intro exI [of _ ?q] exI [of _ "uart s"])
          (auto simp: console_interrupt_def edit_def echo_def upd_cons_def cons_abs_def)
    next
      case False
      then have "snd ?a \<noteq> []" by (simp add: cons_abs_def)
      then show ?thesis using cons_erase [OF ok False] erase False np
        by (intro exI [of _ "?q\<lparr>cons_e := cons_e ?q - 1\<rparr>"] exI [of _ "fold write_THR [8, 0x20, 8] (uart s)"])
          (auto simp: console_interrupt_def edit_def echo_def console_putc_sent sent_def upd_cons_def case_prod_beta)
    qed
  next
    case keep
    have room: "unat (cons_e ?q - cons_r ?q) < INPUT_BUF_SIZE" "c \<noteq> 0" using keep(5) cons_lengths(1) [OF ok] by (auto simp: keeps_byte_def)
    note k = cons_keep [OF ok room(1), of "cr_to_nl c"]
    let ?n = "cons_store (cr_to_nl c) ?q"
    let ?full = "cr_to_nl c = 0x0a \<or> c = 4 \<or> cons_e ?n - cons_r ?n = of_nat INPUT_BUF_SIZE"
    have full: "cons_e ?n - cons_r ?n = of_nat INPUT_BUF_SIZE \<longleftrightarrow> length (fst ?a) + length (snd ?a @ [cr_to_nl c]) = INPUT_BUF_SIZE"
      using k(2) cons_lengths(1) [OF ok] by (auto simp: word_unat_eq_iff)
    have byte: "uint (cr_to_nl c) \<noteq> BACKSPACE" using uint_lt2p [of "cr_to_nl c"] by auto
    have four: "cr_to_nl c = 4 \<longleftrightarrow> c = 4" by (simp add: cr_to_nl_def)
    have test: "c \<noteq> 0 \<and> cons_e ?q - cons_r ?q < of_nat INPUT_BUF_SIZE" using room by (simp add: word_less_nat_alt)
    have ci: "console_interrupt cur c s = Ret (let t = upd_cons (cons_store (cr_to_nl c)) (sent [cr_to_nl c] s) in
        if ?full then wakeup cur (Some OnConsole) (upd_cons (\<lambda>q. q\<lparr>cons_w := cons_e q\<rparr>) t) else t)"
      using keep(1-4) test np byte
      by (simp add: console_interrupt_def cr_to_nl_def [symmetric] console_putc_sent Let_def four)
    let ?u = "fold write_THR (echo c ?a) (uart s)"
    have ec: "echo c ?a = [cr_to_nl c]" using keep by (simp add: echo_def case_prod_beta)
    show ?thesis
    proof (cases ?full)
      case True
      then have ed: "edit c ?a = (fst ?a @ snd ?a @ [cr_to_nl c], [])" using keep full by (auto simp: edit_def Let_def case_prod_beta)
      show ?thesis using True k(4,5) ed ec unfolding ci
        by (intro exI [of _ "?n\<lparr>cons_w := cons_e ?n\<rparr>"] exI [of _ ?u]) (simp add: Let_def upd_cons_def sent_def)
    next
      case False
      then have ed: "edit c ?a = (fst ?a, snd ?a @ [cr_to_nl c])" using keep full by (auto simp: edit_def Let_def case_prod_beta)
      show ?thesis using False k(1,3) ed ec unfolding ci
        by (intro exI [of _ ?n] exI [of _ ?u]) (simp add: Let_def upd_cons_def sent_def)
    qed
  next
    case drop
    then have "\<not> (c \<noteq> 0 \<and> cons_e ?q - cons_r ?q < of_nat INPUT_BUF_SIZE)"
      using cons_lengths(1) [OF ok] by (auto simp: keeps_byte_def word_less_nat_alt)
    then show ?thesis using ok drop
      by (intro exI [of _ ?q] exI [of _ "uart s"]) (auto simp: console_interrupt_def edit_def echo_def upd_cons_def case_prod_beta)
  qed
qed

section \<open>What a read of the console gives\<close>

text \<open>
  A read of up to \<open>k\<close> more bytes, when \<open>i\<close> have been read: the bytes it takes from those that are ready, what it leaves, and
  whether it is complete. A line ends it; so does control-D, which stays for the next read unless nothing was read before it.
\<close>

fun take_line :: "nat \<Rightarrow> nat \<Rightarrow> u8 list \<Rightarrow> u8 list \<times> u8 list \<times> bool" where
  "take_line 0 i q = ([], q, True)"
| "take_line (Suc k) i [] = ([], [], False)"
| "take_line (Suc k) i (c # q) =
     (if c = 4 then ([], if 0 < i then c # q else q, True)
      else if c = 0x0a then ([c], q, True)
      else let (bs, rest, complete) = take_line k (Suc i) q in (c # bs, rest, complete))"

lemma cons_next:
  assumes ok: "cons_ok q" and ne: "cons_r q \<noteq> cons_w q"
  shows "cons_ok (q\<lparr>cons_r := cons_r q + 1\<rparr>)"
    "cons_abs q = (cons_buf q (unat (cons_r q) mod INPUT_BUF_SIZE) # fst (cons_abs (q\<lparr>cons_r := cons_r q + 1\<rparr>)),
       snd (cons_abs (q\<lparr>cons_r := cons_r q + 1\<rparr>)))"
proof -
  have ne': "cons_w q \<noteq> cons_r q" using ne by simp
  have "0 < unat (cons_w q - cons_r q)" using ne' by (simp add: unat_gt_0)
  then have "cons_e q \<noteq> cons_r q" using ok by (auto simp: cons_ok_def)
  then have "unat (cons_e q - (cons_r q + 1)) = unat (cons_e q - cons_r q) - 1" by (rule ring_get(2))
  then show "cons_ok (q\<lparr>cons_r := cons_r q + 1\<rparr>)" using ok ring_get(2) [OF ne'] by (auto simp: cons_ok_def cons_abs_def)
  show "cons_abs q = (cons_buf q (unat (cons_r q) mod INPUT_BUF_SIZE) # fst (cons_abs (q\<lparr>cons_r := cons_r q + 1\<rparr>)),
       snd (cons_abs (q\<lparr>cons_r := cons_r q + 1\<rparr>)))"
    using ring_get(1) [OF ne'] by (simp add: cons_abs_def)
qed

lemma console_read_loop_line:
  assumes "cons_ok (cons s)" "take_line k i (fst (cons_abs (cons s))) = (bs, rest, complete)"
    and "user_put (pagetable (processes s cur)) (dst + of_nat i) bs (ram s) = Some m"
  shows "\<exists>q. cons_ok q \<and> cons_abs q = (rest, snd (cons_abs (cons s))) \<and>
    console_read_loop cur dst k i s = Ret (let t = (upd_cons (\<lambda>_. q) s)\<lparr>ram := m\<rparr> in
      if complete then Finished (int (i + length bs)) t
      else if get_killed cur s then Finished (- 1) t else Waiting (i + length bs) (sleep_on cur OnConsole t))"
  using assms
proof (induction k arbitrary: i s bs)
  case 0
  then show ?case by (intro exI [of _ "cons s"]) (auto simp: upd_cons_def)
next
  case (Suc k)
  let ?q = "cons s"
  show ?case
  proof (cases "cons_r ?q = cons_w ?q")
    case True
    then have "fst (cons_abs ?q) = []" by (simp add: cons_abs_def)
    then show ?thesis using Suc.prems True by (intro exI [of _ ?q]) (auto simp: upd_cons_def prod_eq_iff)
  next
    case False
    let ?n = "?q\<lparr>cons_r := cons_r ?q + 1\<rparr>" let ?c = "cons_buf ?q (unat (cons_r ?q) mod INPUT_BUF_SIZE)"
    let ?t = "upd_cons (\<lambda>q. q\<lparr>cons_r := cons_r q + 1\<rparr>) s" let ?pt = "pagetable (processes s cur)"
    note n = cons_next [OF Suc.prems(1) False]
    show ?thesis
    proof (cases "?c = 4")
      case True
      then show ?thesis using Suc.prems False n
        by (intro exI [of _ "if 0 < i then ?q else ?n"]) (auto simp: Let_def upd_cons_def prod_eq_iff)
    next
      case c4: False
      obtain bs' where bs: "bs = ?c # bs'" "?c = 0x0a \<Longrightarrow> bs' = [] \<and> rest = fst (cons_abs ?n) \<and> complete"
        "?c \<noteq> 0x0a \<Longrightarrow> take_line k (Suc i) (fst (cons_abs ?n)) = (bs', rest, complete)"
        using Suc.prems(2) n(2) c4 by (auto split: if_splits prod.splits)
      obtain r u where cp: "copyout_bytes ?pt (dst + of_nat i) [?c] (bare (ram s)) = Ret (r, u)" "r \<noteq> - 1"
        "user_put ?pt (dst + of_nat i + 1) bs' (ram u) = Some m"
        using Suc.prems(3) bs(1) by (auto split: res.splits if_splits)
      let ?u = "?t\<lparr>ram := ram u\<rparr>"
      have co: "copyout_bytes (pagetable (processes ?t cur)) (dst + of_nat i) [?c] ?t = Ret (r, ?u)"
        using cp(1) by (subst copyout_bytes_bare) (simp add: upd_cons_def)
      show ?thesis
      proof (cases "?c = 0x0a")
        case True
        then show ?thesis using False c4 co cp(2,3) bs(1,2) n
          by (intro exI [of _ ?n]) (auto simp: Let_def upd_cons_def prod_eq_iff)
      next
        case nl: False
        have p: "user_put (pagetable (processes ?u cur)) (dst + of_nat (Suc i)) bs' (ram ?u) = Some m"
          using cp(3) by (simp add: upd_cons_def algebra_simps)
        obtain q where q: "cons_ok q" "cons_abs q = (rest, snd (cons_abs ?n))"
          "console_read_loop cur dst k (Suc i) ?u = Ret (let t = (upd_cons (\<lambda>_. q) ?u)\<lparr>ram := m\<rparr> in
            if complete then Finished (int (Suc i + length bs')) t
            else if get_killed cur ?u then Finished (- 1) t else Waiting (Suc i + length bs') (sleep_on cur OnConsole t))"
          using Suc.IH [of ?u "Suc i" bs', OF _ _ p] n(1) bs(3) [OF nl] by (auto simp: upd_cons_def)
        have "console_read_loop cur dst (Suc k) i s = console_read_loop cur dst k (Suc i) ?u"
          using False c4 nl co cp(2) by (simp add: Let_def)
        then show ?thesis using q n(2) bs(1) by (intro exI [of _ q]) (auto simp: Let_def upd_cons_def get_killed_def prod_eq_iff)
      qed
    qed
  qed
qed

section \<open>The serial line as a queue\<close>

definition tx_contents :: "tx_ring \<Rightarrow> u8 list" where
  "tx_contents q = ring UART_TX_BUF_SIZE (tx_buf q) (tx_r q) (tx_w q)"

definition tx_ok :: "tx_ring \<Rightarrow> bool" where
  "tx_ok q \<longleftrightarrow> unat (tx_w q - tx_r q) \<le> UART_TX_BUF_SIZE"

interpretation txq: bounded_queue tx_put tx_get tx_front tx_contents tx_ok UART_TX_BUF_SIZE
proof
  fix q c
  assume ok: "tx_ok q"
  then show "length (tx_contents q) \<le> UART_TX_BUF_SIZE" by (simp add: tx_ok_def tx_contents_def)
  show "tx_ok (tx_put c q) \<and> tx_contents (tx_put c q) = tx_contents q @ [c]" if "length (tx_contents q) < UART_TX_BUF_SIZE"
    using that ring_put(1) [of UART_TX_BUF_SIZE "tx_w q" "tx_r q" "tx_buf q" c] ring_put(2) [of UART_TX_BUF_SIZE "tx_w q" "tx_r q"]
    by (simp add: tx_contents_def tx_ok_def tx_put_def)
  show "tx_ok (tx_get q) \<and> tx_front q = hd (tx_contents q) \<and> tx_contents (tx_get q) = tl (tx_contents q)" if "tx_contents q \<noteq> []"
    using ok that ring_get(1) [of "tx_w q" "tx_r q" UART_TX_BUF_SIZE "tx_buf q"] ring_get(2) [of "tx_w q" "tx_r q"]
    by (simp add: tx_contents_def tx_ok_def tx_get_def tx_front_def)
qed

text \<open>\<open>uartstart\<close> sends from the front of the queue as many bytes as the transmitter takes, and wakes the waiting writers if it sends any.\<close>

lemma wakeup_kcons [simp]:
  "uart (wakeup cur c s) = uart s" "tx (wakeup cur c s) = tx s" "cons (wakeup cur c s) = cons s" "panicked (wakeup cur c s) = panicked s"
  by (simp_all add: wakeup_def)

lemma tx_idle: "read_LSR u AND LSR_TX_IDLE = 0 \<longleftrightarrow> tx_room u = 0"
  by (simp add: read_LSR_def)

lemma uartstart_sends:
  assumes "tx_ok (tx s)"
  shows "\<exists>t. uartstart cur s = t \<and> tx_ok (tx t) \<and> cons t = cons s \<and> panicked t = panicked s \<and> rx_fifo (uart t) = rx_fifo (uart s) \<and>
    (let k = min (tx_room (uart s)) (length (tx_contents (tx s))) in
      tx_contents (tx t) = drop k (tx_contents (tx s)) \<and>
      reg_writes (uart t) = reg_writes (uart s) @ map (Pair THR) (take k (tx_contents (tx s))) \<and>
      tx_room (uart t) = tx_room (uart s) - k \<and>
      processes t = (if k = 0 then processes s else processes (wakeup cur (Some OnUart) s)))"
  using assms
proof (induction cur s rule: uartstart.induct)
  case (1 cur s)
  show ?case
  proof (cases "tx_contents (tx s) = [] \<or> tx_room (uart s) = 0")
    case True
    then have "uartstart cur s = s" by (subst uartstart.simps) (auto simp: tx_contents_def tx_idle)
    then show ?thesis using True 1(2) by (auto simp: Let_def)
  next
    case False
    let ?w = "wakeup cur (Some OnUart) (s\<lparr>tx := tx_get (tx s)\<rparr>)"
    let ?t = "?w\<lparr>uart := write_THR (tx_front (tx s)) (uart ?w)\<rparr>"
    have ne: "tx_w (tx s) \<noteq> tx_r (tx s)" "read_LSR (uart s) AND LSR_TX_IDLE \<noteq> 0" using False by (auto simp: tx_contents_def tx_idle)
    obtain c cs where cs: "tx_contents (tx s) = c # cs" using False by (cases "tx_contents (tx s)") auto
    have g: "tx_ok (tx_get (tx s))" "tx_front (tx s) = c" "tx_contents (tx_get (tx s)) = cs" using txq.get [OF 1(2)] cs by auto
    have idem: "processes (wakeup cur ch ?t) = processes (wakeup cur ch s)" if "ch = Some OnUart" for ch
      using that by (auto simp: wakeup_def Let_def fun_eq_iff)
    obtain m where m: "tx_room (uart s) = Suc m" using False by (cases "tx_room (uart s)") auto
    have pt: "processes ?t = processes (wakeup cur (Some OnUart) s)" by (simp add: wakeup_def)
    have step: "uartstart cur s = uartstart cur ?t" using ne by (subst uartstart.simps) (simp add: Let_def)
    have IH: "tx_ok (tx ?t) \<Longrightarrow> \<exists>t. uartstart cur ?t = t \<and> tx_ok (tx t) \<and> cons t = cons ?t \<and> panicked t = panicked ?t \<and> rx_fifo (uart t) = rx_fifo (uart ?t) \<and>
      (let k = min (tx_room (uart ?t)) (length (tx_contents (tx ?t))) in
        tx_contents (tx t) = drop k (tx_contents (tx ?t)) \<and>
        reg_writes (uart t) = reg_writes (uart ?t) @ map (Pair THR) (take k (tx_contents (tx ?t))) \<and>
        tx_room (uart t) = tx_room (uart ?t) - k \<and>
        processes t = (if k = 0 then processes ?t else processes (wakeup cur (Some OnUart) ?t)))"
      using 1(1) [OF ne refl refl] by simp
    show ?thesis unfolding step using IH g m cs idem pt by (auto simp: Let_def)
  qed
qed

section \<open>Properties\<close>

lemma uart_getc_simps:
  "uart_getc u = (case rx_fifo u of [] \<Rightarrow> (- 1, u) | c # cs \<Rightarrow> (uint c, u\<lparr>rx_fifo := cs\<rparr>))"
  by (cases "rx_fifo u") (simp_all add: uart_getc_def read_LSR_def read_RHR_def)

text \<open>The processes that a byte typed leaves asleep in a read of the console.\<close>

definition reader_asleep :: "nat \<Rightarrow> 'a kprocs_scheme \<Rightarrow> bool" where
  "reader_asleep i s \<longleftrightarrow> pstate (processes s i) = SLEEPING \<and> pchan (processes s i) = Some OnConsole"

lemma console_interrupt_edits:
  assumes ok: "cons_ok (cons s)" and np: "\<not> panicked s"
  shows "\<exists>t. console_interrupt cur c s = Ret t \<and> cons_ok (cons t) \<and> cons_abs (cons t) = edit c (cons_abs (cons s)) \<and>
    tx t = tx s \<and> panicked t = panicked s \<and> rx_fifo (uart t) = rx_fifo (uart s) \<and>
    (\<forall>i < NPROC. Some i \<noteq> cur \<longrightarrow> reader_asleep i t \<longrightarrow> reader_asleep i s \<and> fst (cons_abs (cons t)) = fst (cons_abs (cons s)))"
proof -
  obtain q u where qu: "console_interrupt cur c s = Ret (let t = upd_cons (\<lambda>_. q) (s\<lparr>uart := u\<rparr>) in
        if fst (cons_abs q) = fst (cons_abs (cons s)) then t else wakeup cur (Some OnConsole) t)"
      "cons_ok q" "cons_abs q = edit c (cons_abs (cons s))" "rx_fifo u = rx_fifo (uart s)"
    using console_interrupt_spec [OF assms, of cur c] by blast
  show ?thesis using qu np
    by (cases "fst (cons_abs q) = fst (cons_abs (cons s))")
      (auto simp: Let_def reader_asleep_def upd_cons_def, auto simp: wakeup_def Let_def split: if_splits)
qed

lemma uart_input_edits:
  assumes "cons_ok (cons s)" "\<not> panicked s" "length (rx_fifo (uart s)) < k"
  shows "\<exists>t. uart_input k cur s = Ret t \<and> cons_ok (cons t) \<and> cons_abs (cons t) = fold edit (rx_fifo (uart s)) (cons_abs (cons s)) \<and>
    tx t = tx s \<and> panicked t = panicked s \<and> rx_fifo (uart t) = [] \<and>
    (\<forall>i < NPROC. Some i \<noteq> cur \<longrightarrow> reader_asleep i t \<longrightarrow> reader_asleep i s \<and> fst (cons_abs (cons t)) = fst (cons_abs (cons s)))"
  using assms
proof (induction k arbitrary: s)
  case (Suc k)
  show ?case
  proof (cases "rx_fifo (uart s)")
    case Nil
    then show ?thesis using Suc.prems by (auto simp: uart_getc_simps)
  next
    case (Cons c cs)
    let ?s = "s\<lparr>uart := (uart s)\<lparr>rx_fifo := cs\<rparr>\<rparr>"
    obtain u where u: "console_interrupt cur c ?s = Ret u" "cons_ok (cons u)" "cons_abs (cons u) = edit c (cons_abs (cons s))"
      "tx u = tx s" "\<not> panicked u" "rx_fifo (uart u) = cs"
      "\<forall>i < NPROC. Some i \<noteq> cur \<longrightarrow> reader_asleep i u \<longrightarrow> reader_asleep i ?s \<and> fst (cons_abs (cons u)) = fst (cons_abs (cons s))"
      using console_interrupt_edits [of ?s cur c] Suc.prems by auto
    obtain t where t: "uart_input k cur u = Ret t" "cons_ok (cons t)" "cons_abs (cons t) = fold edit cs (cons_abs (cons u))"
      "tx t = tx u" "panicked t = panicked u" "rx_fifo (uart t) = []"
      "\<forall>i < NPROC. Some i \<noteq> cur \<longrightarrow> reader_asleep i t \<longrightarrow> reader_asleep i u \<and> fst (cons_abs (cons t)) = fst (cons_abs (cons u))"
      using Suc.IH [of u] u Suc.prems(3) Cons by auto
    have byte: "uint c \<noteq> - 1" using uint_ge_0 [of c] by linarith
    have "uart_input (Suc k) cur s = Ret t"
      using Cons u(1) t(1) byte by (simp add: uart_getc_simps)
    moreover have "\<forall>i < NPROC. Some i \<noteq> cur \<longrightarrow> reader_asleep i t \<longrightarrow> reader_asleep i s \<and> fst (cons_abs (cons t)) = fst (cons_abs (cons s))"
      using u(7) t(7) by (simp add: reader_asleep_def)
    moreover have "cons_abs (cons t) = fold edit (rx_fifo (uart s)) (cons_abs (cons s))" using t(3) u(3) Cons by simp
    ultimately show ?thesis using t(2,4,5,6) u(4,5) Suc.prems(2) by (intro exI [of _ t]) simp
  qed
qed simp

text \<open>
  C11. The console is a line editor. The interrupt of the serial line returns with every byte that has arrived processed, in order: the
  bytes that are ready to be read and the line being typed are what the editor \<open>edit\<close> makes of them. Backspace takes back one byte of the line
  that is being typed and never a byte of a line that is ready; control-U takes back the line; a return becomes a newline;
  a newline, control-D or a full buffer makes the line ready. When bytes have become ready, no process is left asleep in a read.
\<close>

theorem console_line_editor:
  assumes "cons_ok (cons s)" "tx_ok (tx s)" "\<not> panicked s"
  shows "\<exists>t. uart_handle_interrupt cur s = Ret t \<and> rx_fifo (uart t) = [] \<and> cons_ok (cons t) \<and>
    cons_abs (cons t) = fold edit (rx_fifo (uart s)) (cons_abs (cons s)) \<and>
    (fst (cons_abs (cons t)) \<noteq> fst (cons_abs (cons s)) \<longrightarrow> (\<forall>i < NPROC. Some i \<noteq> cur \<longrightarrow> \<not> reader_asleep i t))"
proof -
  obtain u where u: "uart_input (Suc (length (rx_fifo (uart s)))) cur s = Ret u" "cons_ok (cons u)"
    "cons_abs (cons u) = fold edit (rx_fifo (uart s)) (cons_abs (cons s))" "tx u = tx s" "rx_fifo (uart u) = []"
    "\<forall>i < NPROC. Some i \<noteq> cur \<longrightarrow> reader_asleep i u \<longrightarrow> fst (cons_abs (cons u)) = fst (cons_abs (cons s))"
    using uart_input_edits [OF assms(1,3) lessI, of cur] by blast
  let ?t = "uartstart cur u"
  have t: "cons ?t = cons u" "rx_fifo (uart ?t) = []" "processes ?t = processes u \<or> processes ?t = processes (wakeup cur (Some OnUart) u)"
    using uartstart_sends [of u cur] assms(2) u(4,5) by (auto simp: Let_def split: if_splits)
  have "reader_asleep i u" if "reader_asleep i ?t" for i
    using t(3) that by (auto simp: reader_asleep_def wakeup_def Let_def split: if_splits)
  then show ?thesis using u t by (intro exI [of _ ?t]) (auto simp: uart_handle_interrupt_def)
qed

text \<open>
  A read of the console gives one line. It copies out the ready bytes up to the newline, up to a control-D, which is taken only if it
  comes first, or as many as were asked for, and returns their number; they are no longer ready, and the rest and the line
  being typed are kept. When the ready bytes end before that, the process sleeps for more, or fails if it was killed.
\<close>

theorem console_read_line:
  assumes "cons_ok (cons s)" "take_line (nat n) 0 (fst (cons_abs (cons s))) = (bs, rest, complete)"
    and "user_put (pagetable (processes s cur)) dst bs (ram s) = Some m"
  shows "\<exists>q. cons_ok q \<and> cons_abs q = (rest, snd (cons_abs (cons s))) \<and>
    console_read 0 cur dst n s = Ret (let t = s\<lparr>cons := q, ram := m\<rparr> in
      if complete then Finished (int (length bs)) t
      else if get_killed cur s then Finished (- 1) t else Waiting (length bs) (sleep_on cur OnConsole t))"
  using console_read_loop_line [of s "nat n" 0 bs rest complete cur dst m] assms
  by (auto simp: console_read_def upd_cons_def Let_def)

text \<open>
  C36. Output keeps its order and loses nothing. \<open>putc\<close> sleeps exactly when the ring of the driver is full. Otherwise the byte is behind
  all bytes accepted before it: what has been written to the device, followed by what waits in the ring, is as before with the byte at the
  end; and bytes wait only while the transmitter has no room.
\<close>

theorem uart_putc_order:
  assumes "tx_ok (tx s)" "\<not> panicked s"
  shows "if length (tx_contents (tx s)) = UART_TX_BUF_SIZE then uart_putc cur c s = Ret (Sleeps (sleep_on cur OnUart s))
    else \<exists>t. uart_putc cur c s = Ret (Waited 0 t) \<and> tx_ok (tx t) \<and>
      reg_writes (uart t) @ map (Pair THR) (tx_contents (tx t)) = reg_writes (uart s) @ map (Pair THR) (tx_contents (tx s) @ [c]) \<and>
      (tx_contents (tx t) = [] \<or> tx_room (uart t) = 0)"
proof -
  have full: "tx_w (tx s) = tx_r (tx s) + of_nat UART_TX_BUF_SIZE \<longleftrightarrow> length (tx_contents (tx s)) = UART_TX_BUF_SIZE"
  proof -
    have "tx_w (tx s) = tx_r (tx s) + 32 \<longleftrightarrow> tx_w (tx s) - tx_r (tx s) = 32" by (auto simp: algebra_simps)
    also have "\<dots> \<longleftrightarrow> unat (tx_w (tx s) - tx_r (tx s)) = unat (32 :: u64)" by (metis word_unatI)
    finally show ?thesis by (simp add: tx_contents_def)
  qed
  show ?thesis
  proof (cases "length (tx_contents (tx s)) = UART_TX_BUF_SIZE")
    case False
    then have p: "tx_ok (tx_put c (tx s))" "tx_contents (tx_put c (tx s)) = tx_contents (tx s) @ [c]"
      using txq.put [OF assms(1), of c] txq.cap [OF assms(1)] by auto
    let ?t = "uartstart (Some cur) (s\<lparr>tx := tx_put c (tx s)\<rparr>)"
    have "uart_putc cur c s = Ret (Waited 0 ?t)" using full False assms(2) by (simp add: uart_putc_def)
    moreover obtain k where k: "k = min (tx_room (uart s)) (length (tx_contents (tx s) @ [c]))" "tx_ok (tx ?t)"
        "tx_contents (tx ?t) = drop k (tx_contents (tx s) @ [c])" "tx_room (uart ?t) = tx_room (uart s) - k"
        "reg_writes (uart ?t) = reg_writes (uart s) @ map (Pair THR) (take k (tx_contents (tx s) @ [c]))"
      using uartstart_sends [of "s\<lparr>tx := tx_put c (tx s)\<rparr>" "Some cur"] p by (auto simp: Let_def)
    have "map (Pair THR) (take k (tx_contents (tx s) @ [c])) @ map (Pair THR) (drop k (tx_contents (tx s) @ [c])) =
        map (Pair THR) (tx_contents (tx s) @ [c])"
      unfolding map_append [symmetric] append_take_drop_id ..
    moreover have "tx_contents (tx ?t) = [] \<or> tx_room (uart ?t) = 0" unfolding k(3,4) by (auto simp: k(1))
    ultimately show ?thesis using False k(2,3,5) by auto
  qed (use full assms(2) in \<open>simp add: uart_putc_def\<close>)
qed

section \<open>The counters stay in their bounds\<close>

text \<open>Steps that act on the console: a byte typed, a read, and anything else the kernel does.\<close>

inductive cstep :: "'a kcons_scheme \<Rightarrow> 'a kcons_scheme \<Rightarrow> bool" where
  Typed: "console_interrupt cur c s = Ret t \<Longrightarrow> cstep s t"
| Read: "console_read i cur dst n s = Ret x \<Longrightarrow> cstep s (xfer_state x)"
| Other: "cons t = cons s \<Longrightarrow> cstep s t"

inductive_cases cstepE: "cstep s t"

lemma panicked_silent:
  assumes p: "panicked s"
  shows "console_putc c s = Blocked" "kill_line k s = Ret t \<Longrightarrow> t = s" "process_dump s = Blocked"
proof -
  show c: "console_putc c s = Blocked" for c using p by (simp add: console_putc_def putc_sync_def)
  have "console_putc b (upd_cons f s) = Blocked" for b f using p by (simp add: console_putc_def putc_sync_def)
  then show "kill_line k s = Ret t \<Longrightarrow> t = s" by (cases k) (auto simp: Let_def split: if_splits)
  show "process_dump s = Blocked" by (simp add: process_dump_def console_printf_def kprintf_def c)
qed

lemma interrupt_cons_ok: "console_interrupt cur c s = Ret t \<Longrightarrow> cons_ok (cons s) \<Longrightarrow> cons_ok (cons t)"
proof (cases "panicked s")
  case True
  assume a: "console_interrupt cur c s = Ret t" "cons_ok (cons s)"
  have "console_putc b (upd_cons f s) = Blocked" for b f using True by (simp add: panicked_silent)
  then have "t = s" using a(1) panicked_silent [OF True] by (auto simp: console_interrupt_def Let_def split: if_splits)
  then show ?thesis using a(2) by simp
next
  case False
  assume "console_interrupt cur c s = Ret t" "cons_ok (cons s)"
  then show ?thesis using console_interrupt_edits [OF _ False, of cur c] by auto
qed

lemma copyout_bytes_cons: "copyout_bytes pt va bs s = Ret (r, t) \<Longrightarrow> cons t = cons s"
  by (subst (asm) copyout_bytes_bare) (auto elim!: kbind_RetE)

lemma read_cons_ok: "console_read_loop cur dst k i s = Ret x \<Longrightarrow> cons_ok (cons s) \<Longrightarrow> cons_ok (cons (xfer_state x))"
proof (induction k arbitrary: i s)
  case (Suc k)
  show ?case
  proof (cases "cons_r (cons s) = cons_w (cons s)")
    case True
    then show ?thesis using Suc.prems by (auto simp: Let_def sleep_on_def upd_proc_def split: if_splits)
  next
    case False
    note n = cons_next(1) [OF Suc.prems(2) False]
    have IH: "console_read_loop cur dst k (Suc i) t = Ret x \<Longrightarrow> cons t = (cons s)\<lparr>cons_r := cons_r (cons s) + 1\<rparr> \<Longrightarrow> cons_ok (cons (xfer_state x))" for t
      using Suc.IH [of "Suc i" t] n by simp
    show ?thesis using Suc.prems False n IH
      by (auto simp: Let_def elim!: kbind_RetE dest!: copyout_bytes_cons split: if_splits)
  qed
qed auto

lemma cstep_cons_ok: "cstep s t \<Longrightarrow> cons_ok (cons s) \<Longrightarrow> cons_ok (cons t)"
  by (induction rule: cstep.induct) (auto simp: console_read_def intro: interrupt_cons_ok read_cons_ok)

text \<open>
  C35. The console never loses or overwrites input. Whatever bytes are typed and whatever reads are made, starting with an empty ring, also when
  the 32-bit counters have wrapped, the reader is not ahead of the bytes that are ready, nor those of the bytes typed, and the bytes
  typed and not read fill at most the 128 places; the place for the next byte holds none of them.
\<close>

theorem console_bounds:
  assumes "cstep\<^sup>*\<^sup>* s0 s" and "cons_w (cons s0) = cons_r (cons s0)" "cons_e (cons s0) = cons_r (cons s0)"
  shows "let q = cons s; n = unat (cons_e q - cons_r q) in
    unat (cons_w q - cons_r q) \<le> n \<and> n \<le> INPUT_BUF_SIZE \<and>
    (n < INPUT_BUF_SIZE \<longrightarrow> (\<forall>k < n. unat (cons_r q + of_nat k) mod INPUT_BUF_SIZE \<noteq> unat (cons_e q) mod INPUT_BUF_SIZE))"
proof -
  let ?q = "cons s" let ?n = "unat (cons_e ?q - cons_r ?q)"
  have "cons_ok (cons s0)" using assms(2,3) by (simp add: cons_ok_def cons_abs_def)
  with assms(1) have ok: "cons_ok ?q" by (induction rule: rtranclp_induct) (auto dest: cstep_cons_ok)
  have d: "INPUT_BUF_SIZE dvd 2 ^ LENGTH(32)" by simp
  have e: "unat (cons_e ?q) mod INPUT_BUF_SIZE = (unat (cons_r ?q) + ?n) mod INPUT_BUF_SIZE"
    using unat_mod_add [OF d, of "cons_r ?q" ?n] by simp
  have "unat (cons_r ?q + of_nat k) mod INPUT_BUF_SIZE \<noteq> unat (cons_e ?q) mod INPUT_BUF_SIZE" if "?n < INPUT_BUF_SIZE" "k < ?n" for k
    using mod_eq_less [of "unat (cons_r ?q)" k INPUT_BUF_SIZE ?n] that unat_mod_add [OF d, of "cons_r ?q" k] e by auto
  then show ?thesis using ok by (simp add: cons_ok_def Let_def)
qed

section \<open>The console as a device\<close>

text \<open>Reads and writes of the console keep descriptors, as the result on descriptors asks of devices.\<close>

lemma fdkey_kcons [simp]: "fdkey (upd_cons f s) = fdkey s" "fdkey (s\<lparr>uart := u\<rparr>) = fdkey s" "fdkey (s\<lparr>tx := q\<rparr>) = fdkey s"
  by (simp_all add: fdkey_def upd_cons_def)

lemma live_kcons [simp]: "live cur (upd_cons f s) = live cur s"
  by (simp add: live_def)

lemma console_read_key: "console_read_loop cur dst k i s = Ret x \<Longrightarrow> live cur s \<Longrightarrow> fdkey (xfer_state x) = fdkey s"
proof (induction k arbitrary: i s)
  case (Suc k)
  have IH: "console_read_loop cur dst k (Suc i) t = Ret x \<Longrightarrow> fdkey t = fdkey s \<Longrightarrow> fdkey (xfer_state x) = fdkey s" for t
    using Suc.IH [of "Suc i" t] live_key [of t s cur] Suc.prems(2) by simp
  show ?case using Suc.prems
    by (auto simp: Let_def elim!: kbind_RetE dest!: copyout_bytes_key fkey_fdkey dest: IH split: if_splits)
qed auto

lemma uartstart_key: "fdkey (uartstart cur s) = fdkey s"
proof (induction cur s rule: uartstart.induct)
  case (1 cur s)
  then show ?case by (subst uartstart.simps) (simp add: Let_def)
qed

lemma console_write_key: "console_write_loop cur src k i s = Ret x \<Longrightarrow> live cur s \<Longrightarrow> fdkey (xfer_state x) = fdkey s"
proof (induction k arbitrary: i s)
  case (Suc k)
  have IH: "console_write_loop cur src k (Suc i) t = Ret x \<Longrightarrow> fdkey t = fdkey s \<Longrightarrow> fdkey (xfer_state x) = fdkey s" for t
    using Suc.IH [of "Suc i" t] live_key [of t s cur] Suc.prems(2) by simp
  have sends: "fdkey (uartstart (Some cur) (s\<lparr>tx := q\<rparr>)) = fdkey s" for q by (simp add: uartstart_key)
  show ?case using Suc.prems
    by (auto simp: uart_putc_def elim!: kbind_RetE dest!: IH [OF _ sends] split: if_splits option.splits wait_result.splits)
qed auto

lemma console_devices_keep: "devices_keep cur (console_devsw cur)"
  by (auto simp: devices_keep_def console_devsw_def console_read_def console_write_def dest: console_read_key console_write_key)

section \<open>A small console\<close>

text \<open>The user types \<open>ab\<close>, a backspace, \<open>c\<close> and return; process 0 has a page of memory.\<close>

definition demo_console :: kcons where
  "demo_console = kfiles.extend (demo_files demo_umem)
     (kcons.fields \<lparr>rx_fifo = [0x61, 0x62, 8, 0x63, 0x0d], tx_room = 16, reg_writes = []\<rparr>
       \<lparr>tx_buf = \<lambda>_. 0, tx_w = 0, tx_r = 0\<rparr> \<lparr>cons_buf = \<lambda>_. 0, cons_r = 0xFFFFFFFF, cons_w = 0xFFFFFFFF, cons_e = 0xFFFFFFFF\<rparr> False)"

lemma demo_console_fields:
  "ram demo_console = demo_umem" "pagetable (processes demo_console i) = 0x80021000" "\<not> panicked demo_console"
  "uart demo_console = \<lparr>rx_fifo = [0x61, 0x62, 8, 0x63, 0x0d], tx_room = 16, reg_writes = []\<rparr>"
  "tx demo_console = \<lparr>tx_buf = \<lambda>_. 0, tx_w = 0, tx_r = 0\<rparr>"
  "cons demo_console = \<lparr>cons_buf = \<lambda>_. 0, cons_r = 0xFFFFFFFF, cons_w = 0xFFFFFFFF, cons_e = 0xFFFFFFFF\<rparr>"
  by (simp_all add: demo_console_def demo_files_def demo_pipes_def kfs.defs kpipes.defs kfiles.defs kcons.defs)

lemma demo_console_ok: "cons_ok (cons demo_console)" "cons_abs (cons demo_console) = ([], [])" "tx_ok (tx demo_console)" "tx_contents (tx demo_console) = []"
  by (simp_all add: demo_console_fields cons_ok_def cons_abs_def tx_ok_def tx_contents_def)

theorem console_line_editor_witness:
  "\<exists>t. uart_handle_interrupt None demo_console = Ret t \<and> cons_abs (cons t) = ([0x61, 0x63, 0x0a], [])"
proof -
  have "fold edit [0x61, 0x62, 8, 0x63, 0x0d] ([], []) = ([0x61, 0x63, 0x0a], [])"
    by (simp add: edit_def keeps_byte_def cr_to_nl_def Let_def)
  then show ?thesis using console_line_editor [OF demo_console_ok(1,3) demo_console_fields(3), of None]
    by (auto simp: demo_console_ok demo_console_fields(4))
qed

theorem uart_putc_order_witness:
  "\<exists>t. uart_putc 0 0x41 demo_console = Ret (Waited 0 t) \<and> reg_writes (uart t) @ map (Pair THR) (tx_contents (tx t)) = [(THR, 0x41)]"
  using uart_putc_order [OF demo_console_ok(3) demo_console_fields(3), of 0 "0x41"] by (auto simp: demo_console_ok demo_console_fields(4))

theorem console_bounds_witness:
  "let q = cons (the_ret (console_interrupt None 0x61 demo_console)) in
   unat (cons_e q - cons_r q) \<le> INPUT_BUF_SIZE"
proof -
  obtain t where t: "console_interrupt None 0x61 demo_console = Ret t"
    using console_interrupt_edits [OF demo_console_ok(1) demo_console_fields(3)] by blast
  have "cstep\<^sup>*\<^sup>* demo_console t" using Typed [OF t] by auto
  from console_bounds [OF this] show ?thesis using t by (auto simp: Let_def demo_console_fields)
qed

theorem console_read_line_witness:
  "let s = upd_cons (\<lambda>q. q\<lparr>cons_buf := \<lambda>_. 9, cons_w := 1, cons_e := 1\<rparr>) demo_console in
   \<exists>q. cons_abs q = ([9], []) \<and> console_read 0 0 0x1000 1 s = Ret (Finished 1 (s\<lparr>cons := q, ram := demo_umem(0x80024000 := 9)\<rparr>))"
proof -
  let ?s = "upd_cons (\<lambda>q. q\<lparr>cons_buf := \<lambda>_. 9, cons_w := 1, cons_e := 1\<rparr>) demo_console"
  have q: "cons ?s = \<lparr>cons_buf = \<lambda>_. 9, cons_r = 0xFFFFFFFF, cons_w = 1, cons_e = 1\<rparr>" by (simp add: demo_console_fields(6))
  have a: "cons_abs (cons ?s) = ([9, 9], [])" unfolding q by (simp add: cons_abs_def ring_def upt_conv_Cons)
  have ok: "cons_ok (cons ?s)" unfolding cons_ok_def a unfolding q by simp
  obtain t where t: "copyout_bytes 0x80021000 0x1000 [9] (bare demo_umem) = Ret (0, t)" "ram t = demo_umem(0x80024000 := 9)"
    using demo_copyout by blast
  have u: "user_put (pagetable (processes ?s 0)) 0x1000 [9] (ram ?s) = Some (demo_umem(0x80024000 := 9))"
    using t by (simp add: upd_cons_def demo_console_fields(1,2))
  have l: "take_line (nat 1) 0 (fst (cons_abs (cons ?s))) = ([9], [9], True)" unfolding a by simp
  show ?thesis using console_read_line [OF ok l u] unfolding a by (simp add: Let_def) blast
qed

end
