(* ===== verification/Virtio.thy ===== *)
theory Virtio
  imports Console "HOL-Library.Multiset"
begin

text \<open>
  The disk driver, \<^verbatim>\<open>kernel/virtio_driver.cpp\<close>: requests as chains of three descriptors in a table of eight, the ring in which the driver
  gives chains to the device and the ring in which the device gives them back. A pointer that the driver puts into a descriptor
  is a value of a datatype. The device is the one that the specification of virtio block devices describes: it takes
  chains from the first ring in order, does the transfer, and puts them into the second.
\<close>

section \<open>State\<close>

abbreviation (input) NUM :: nat where "NUM \<equiv> 8"
abbreviation (input) VRING_DESC_F_NEXT :: u16 where "VRING_DESC_F_NEXT \<equiv> 1"
abbreviation (input) VRING_DESC_F_WRITE :: u16 where "VRING_DESC_F_WRITE \<equiv> 2"
abbreviation (input) VIRTIO_BLK_T_IN :: u32 where "VIRTIO_BLK_T_IN \<equiv> 0"
abbreviation (input) VIRTIO_BLK_T_OUT :: u32 where "VIRTIO_BLK_T_OUT \<equiv> 1"

text \<open>Null, \<^verbatim>\<open>&ops[i]\<close>, \<^verbatim>\<open>b->data\<close> and \<^verbatim>\<open>&info[i].status\<close>.\<close>

datatype vptr = VNull | VOp nat | VData nat | VStatus nat

record virtq_desc =
  d_addr :: vptr
  d_len :: u32
  d_flags :: u16
  d_next :: u16

record virtio_blk_req =
  req_type :: u32
  req_reserved :: u32
  req_sector :: u64

record vinfo =
  info_b :: "nat option"
  info_status :: u8

text \<open>
  \<open>avail_idx\<close>, \<open>avail_ring\<close> and \<open>dev_used\<close>, \<open>used_ring\<close> are the two rings in memory; \<open>dev_avail\<close> is how far the device has read the first, and
  \<open>used_idx\<close> how far the driver has read the second.
\<close>

record virtio =
  desc :: "nat \<Rightarrow> virtq_desc"
  desc_free :: "nat \<Rightarrow> bool"
  avail_ring :: "nat \<Rightarrow> u16"
  avail_idx :: u16
  dev_avail :: u16
  used_ring :: "nat \<Rightarrow> u32"
  dev_used :: u16
  used_idx :: u16
  info :: "nat \<Rightarrow> vinfo"
  ops :: "nat \<Rightarrow> virtio_blk_req"

record kdisk = kcons +
  vd :: virtio
  buf_disk :: "nat \<Rightarrow> bool"

definition upd_vd :: "(virtio \<Rightarrow> virtio) \<Rightarrow> 'a kdisk_scheme \<Rightarrow> 'a kdisk_scheme" where
  "upd_vd f s = s\<lparr>vd := f (vd s)\<rparr>"

definition set_desc :: "nat \<Rightarrow> vptr \<Rightarrow> u32 \<Rightarrow> u16 \<Rightarrow> u16 \<Rightarrow> virtio \<Rightarrow> virtio" where
  "set_desc i a l f n v = v\<lparr>desc := (desc v)(i := \<lparr>d_addr = a, d_len = l, d_flags = f, d_next = n\<rparr>)\<rparr>"

section \<open>Descriptors\<close>

definition alloc_desc :: "virtio \<Rightarrow> nat option \<times> virtio" where
  "alloc_desc v =
     (case find (desc_free v) [0..<NUM] of
        None \<Rightarrow> (None, v)
      | Some i \<Rightarrow> (Some i, v\<lparr>desc_free := (desc_free v)(i := False)\<rparr>))"

definition free_desc :: "nat option \<Rightarrow> nat \<Rightarrow> 'a kdisk_scheme \<Rightarrow> 'a kdisk_scheme res" where
  "free_desc cur i s =
     (if i \<ge> NUM then Panic ''free_desc 1''
      else if desc_free (vd s) i then Panic ''free_desc 2''
      else let s = upd_vd (set_desc i VNull 0 0 0) s;
               s = upd_vd (\<lambda>v. v\<lparr>desc_free := (desc_free v)(i := True)\<rparr>) s
           in Ret (wakeup cur (Some OnDiskFree) s))"

lemma free_desc_measure:
  assumes "free_desc cur i s = Ret t"
  shows "card {j. j < NUM \<and> \<not> desc_free (vd t) j} < card {j. j < NUM \<and> \<not> desc_free (vd s) j}"
proof -
  have "{j. j < NUM \<and> \<not> desc_free (vd t) j} = {j. j < NUM \<and> \<not> desc_free (vd s) j} - {i}" "i \<in> {j. j < NUM \<and> \<not> desc_free (vd s) j}"
    using assms by (auto simp: free_desc_def Let_def upd_vd_def set_desc_def wakeup_def split: if_splits)
  then show ?thesis using card_Diff1_less [of "{j. j < NUM \<and> \<not> desc_free (vd s) j}" i] by simp
qed

function free_chain :: "nat option \<Rightarrow> nat \<Rightarrow> 'a kdisk_scheme \<Rightarrow> 'a kdisk_scheme res" where
  "free_chain cur i s =
     (let flag = d_flags (desc (vd s) i); nxt = d_next (desc (vd s) i) in
      kbind (free_desc cur i s) (\<lambda>s. if flag AND VRING_DESC_F_NEXT \<noteq> 0 then free_chain cur (unat nxt) s else Ret s))"
  by pat_completeness auto
termination
  by (relation "measure (\<lambda>(cur, i, s). card {j. j < NUM \<and> \<not> desc_free (vd s) j})") (auto dest: free_desc_measure)

declare free_chain.simps [simp del]

text \<open>\<open>alloc3_desc\<close> takes three descriptors, or gives back those it got.\<close>

definition alloc3_desc :: "nat option \<Rightarrow> 'a kdisk_scheme \<Rightarrow> ((nat \<times> nat \<times> nat) option \<times> 'a kdisk_scheme) res" where
  "alloc3_desc cur s =
     (case alloc_desc (vd s) of
        (None, v) \<Rightarrow> Ret (None, s\<lparr>vd := v\<rparr>)
      | (Some i0, v) \<Rightarrow> (case alloc_desc v of
           (None, v) \<Rightarrow> kbind (free_desc cur i0 (s\<lparr>vd := v\<rparr>)) (\<lambda>s. Ret (None, s))
         | (Some i1, v) \<Rightarrow> (case alloc_desc v of
              (None, v) \<Rightarrow> kbind (free_desc cur i0 (s\<lparr>vd := v\<rparr>)) (\<lambda>s. kbind (free_desc cur i1 s) (\<lambda>s. Ret (None, s)))
            | (Some i2, v) \<Rightarrow> Ret (Some (i0, i1, i2), s\<lparr>vd := v\<rparr>))))"

section \<open>Requests\<close>

text \<open>The three descriptors of a request and the entry for the device; \<^verbatim>\<open>sector\<close> is computed in 32 bits and then widened.\<close>

definition format_request :: "nat \<Rightarrow> bool \<Rightarrow> nat \<Rightarrow> nat \<Rightarrow> nat \<Rightarrow> 'a kdisk_scheme \<Rightarrow> 'a kdisk_scheme" where
  "format_request b write i0 i1 i2 s =
     (let sector = ucast (blockno (bufs s b) * 2) in
      (upd_vd (\<lambda>v.
         let v = v\<lparr>ops := (ops v)(i0 := \<lparr>req_type = if write then VIRTIO_BLK_T_OUT else VIRTIO_BLK_T_IN, req_reserved = 0, req_sector = sector\<rparr>)\<rparr>;
             v = set_desc i0 (VOp i0) 16 VRING_DESC_F_NEXT (of_nat i1) v;
             v = set_desc i1 (VData b) (of_nat BSIZE) ((if write then 0 else VRING_DESC_F_WRITE) OR VRING_DESC_F_NEXT) (of_nat i2) v;
             v = v\<lparr>info := (info v)(i0 := (info v i0)\<lparr>info_status := 0xff\<rparr>)\<rparr>;
             v = set_desc i2 (VStatus i0) 1 VRING_DESC_F_WRITE 0 v;
             v = v\<lparr>info := (info v)(i0 := (info v i0)\<lparr>info_b := Some b\<rparr>)\<rparr>;
             v = v\<lparr>avail_ring := (avail_ring v)(unat (avail_idx v) mod NUM := of_nat i0)\<rparr>
         in v\<lparr>avail_idx := avail_idx v + 1\<rparr>) s)\<lparr>buf_disk := (buf_disk s)(b := True)\<rparr>)"

text \<open>
  \<open>read_write\<close> in three parts: the request is made, or the process sleeps for descriptors and tries again; it sleeps
  until the buffer is done; then the descriptors are given back.
\<close>

datatype 's disk_wait = Requested nat 's | No_desc 's

definition read_write_submit :: "nat \<Rightarrow> nat \<Rightarrow> bool \<Rightarrow> 'a kdisk_scheme \<Rightarrow> 'a kdisk_scheme disk_wait res" where
  "read_write_submit cur b write s =
     kbind (alloc3_desc (Some cur) s) (\<lambda>(idx, s). case idx of
       None \<Rightarrow> Ret (No_desc (sleep_on cur OnDiskFree s))
     | Some (i0, i1, i2) \<Rightarrow> Ret (Requested i0 (sleep_on cur (OnDiskBuf b) (format_request b write i0 i1 i2 s))))"

definition read_write_finish :: "nat \<Rightarrow> nat \<Rightarrow> nat \<Rightarrow> 'a kdisk_scheme \<Rightarrow> 'a kdisk_scheme wait_result res" where
  "read_write_finish cur b i0 s =
     (if buf_disk s b then Ret (Sleeps (sleep_on cur (OnDiskBuf b) s))
      else kbind (free_chain (Some cur) i0 (upd_vd (\<lambda>v. v\<lparr>info := (info v)(i0 := (info v i0)\<lparr>info_b := None\<rparr>)\<rparr>) s)) (\<lambda>s.
        Ret (Waited 0 s)))"

section \<open>Completion\<close>

text \<open>The loop of the interrupt handler over the entries that the device has added; a null \<^verbatim>\<open>info[id].b\<close>, whose use would be a fault in the
  kernel, is an outcome \<open>Panic\<close> of its own. The writes to the notify and acknowledge registers only tell the device to look at the rings,
  which \<open>device_step\<close> may do at any time.\<close>

function virtio_intr_loop :: "nat option \<Rightarrow> 'a kdisk_scheme \<Rightarrow> 'a kdisk_scheme res" where
  "virtio_intr_loop cur s =
     (if used_idx (vd s) = dev_used (vd s) then Ret s
      else let i = unat (used_ring (vd s) (unat (used_idx (vd s)) mod NUM)) in
        if info_status (info (vd s) i) \<noteq> 0 then Panic ''virtio_disk_intr status''
        else case info_b (info (vd s) i) of
            None \<Rightarrow> Panic ''null buf''
          | Some b \<Rightarrow>
              let s = wakeup cur (Some (OnDiskBuf b)) (s\<lparr>buf_disk := (buf_disk s)(b := False)\<rparr>)
              in virtio_intr_loop cur (upd_vd (\<lambda>v. v\<lparr>used_idx := used_idx v + 1\<rparr>) s))"
  by pat_completeness auto
termination
proof (relation "measure (\<lambda>(cur, s). unat (dev_used (vd s) - used_idx (vd s)))", goal_cases)
  case (2 cur s i b t)
  then have "unat (dev_used (vd s) - (used_idx (vd s) + 1)) = unat (dev_used (vd s) - used_idx (vd s)) - 1"
    "0 < unat (dev_used (vd s) - used_idx (vd s))"
    using unat_diff_pred [of "dev_used (vd s)" "used_idx (vd s)"] by (auto simp: unat_gt_0)
  then show ?case using 2 by (simp add: upd_vd_def wakeup_def)
qed simp

declare virtio_intr_loop.simps [simp del]

section \<open>Initialisation\<close>

text \<open>
  The handshake through the device's registers. What a read of a register gives is a function of the register and of the writes so far,
  oldest first; it is a parameter, since it is the device's. \<open>negotiate\<close> is the part up to the check of the negotiated features.
\<close>

type_synonym mmio = "(nat \<times> u32) list \<Rightarrow> nat \<Rightarrow> u32"

abbreviation (input) VIRTIO_MMIO_MAGIC_VALUE :: nat where "VIRTIO_MMIO_MAGIC_VALUE \<equiv> 0x000"
abbreviation (input) VIRTIO_MMIO_VERSION :: nat where "VIRTIO_MMIO_VERSION \<equiv> 0x004"
abbreviation (input) VIRTIO_MMIO_DEVICE_ID :: nat where "VIRTIO_MMIO_DEVICE_ID \<equiv> 0x008"
abbreviation (input) VIRTIO_MMIO_VENDOR_ID :: nat where "VIRTIO_MMIO_VENDOR_ID \<equiv> 0x00c"
abbreviation (input) VIRTIO_MMIO_DEVICE_FEATURES :: nat where "VIRTIO_MMIO_DEVICE_FEATURES \<equiv> 0x010"
abbreviation (input) VIRTIO_MMIO_DRIVER_FEATURES :: nat where "VIRTIO_MMIO_DRIVER_FEATURES \<equiv> 0x020"
abbreviation (input) VIRTIO_MMIO_QUEUE_SEL :: nat where "VIRTIO_MMIO_QUEUE_SEL \<equiv> 0x030"
abbreviation (input) VIRTIO_MMIO_QUEUE_NUM_MAX :: nat where "VIRTIO_MMIO_QUEUE_NUM_MAX \<equiv> 0x034"
abbreviation (input) VIRTIO_MMIO_QUEUE_NUM :: nat where "VIRTIO_MMIO_QUEUE_NUM \<equiv> 0x038"
abbreviation (input) VIRTIO_MMIO_QUEUE_READY :: nat where "VIRTIO_MMIO_QUEUE_READY \<equiv> 0x044"
abbreviation (input) VIRTIO_MMIO_STATUS :: nat where "VIRTIO_MMIO_STATUS \<equiv> 0x070"
abbreviation (input) VIRTIO_MMIO_QUEUE_DESC_LOW :: nat where "VIRTIO_MMIO_QUEUE_DESC_LOW \<equiv> 0x080"
abbreviation (input) VIRTIO_MMIO_DRIVER_DESC_LOW :: nat where "VIRTIO_MMIO_DRIVER_DESC_LOW \<equiv> 0x090"
abbreviation (input) VIRTIO_MMIO_DEVICE_DESC_LOW :: nat where "VIRTIO_MMIO_DEVICE_DESC_LOW \<equiv> 0x0a0"
abbreviation (input) VIRTIO_CONFIG_S_ACKNOWLEDGE :: u32 where "VIRTIO_CONFIG_S_ACKNOWLEDGE \<equiv> 1"
abbreviation (input) VIRTIO_CONFIG_S_DRIVER :: u32 where "VIRTIO_CONFIG_S_DRIVER \<equiv> 2"
abbreviation (input) VIRTIO_CONFIG_S_DRIVER_OK :: u32 where "VIRTIO_CONFIG_S_DRIVER_OK \<equiv> 4"
abbreviation (input) VIRTIO_CONFIG_S_FEATURES_OK :: u32 where "VIRTIO_CONFIG_S_FEATURES_OK \<equiv> 8"

text \<open>The features that are turned off: read-only disk, SCSI, write-back mode, several queues, any layout, event index, indirect descriptors.\<close>

definition accept_features :: "u32 \<Rightarrow> u32" where
  "accept_features f = fold (\<lambda>k f. f AND NOT (push_bit k 1)) [5, 7, 11, 12, 27, 29, 28] f"

definition negotiate :: "mmio \<Rightarrow> (u32 \<times> (nat \<times> u32) list) res" where
  "negotiate dev =
     (if dev [] VIRTIO_MMIO_MAGIC_VALUE \<noteq> 0x74726976 \<or> dev [] VIRTIO_MMIO_VERSION \<noteq> 2 \<or> dev [] VIRTIO_MMIO_DEVICE_ID \<noteq> 2 \<or>
         dev [] VIRTIO_MMIO_VENDOR_ID \<noteq> 0x554d4551 then Panic ''could not find virtio disk''
      else let status = 0; w = [(VIRTIO_MMIO_STATUS, status)];
               status = status OR VIRTIO_CONFIG_S_ACKNOWLEDGE; w = w @ [(VIRTIO_MMIO_STATUS, status)];
               status = status OR VIRTIO_CONFIG_S_DRIVER; w = w @ [(VIRTIO_MMIO_STATUS, status)];
               w = w @ [(VIRTIO_MMIO_DRIVER_FEATURES, accept_features (dev w VIRTIO_MMIO_DEVICE_FEATURES))];
               status = status OR VIRTIO_CONFIG_S_FEATURES_OK; w = w @ [(VIRTIO_MMIO_STATUS, status)];
               status = dev w VIRTIO_MMIO_STATUS
           in if status AND VIRTIO_CONFIG_S_FEATURES_OK = 0 then Panic ''virtio disk FEATURES_OK unset'' else Ret (status, w))"

definition addr_writes :: "nat \<Rightarrow> u64 \<Rightarrow> (nat \<times> u32) list" where
  "addr_writes reg p = [(reg, ucast p), (reg + 4, ucast (drop_bit 32 p))]"

text \<open>
  The rest of \<open>init\<close>: the queue's three pages are taken from the page allocator and cleared, and their addresses given to the device. That the
  device starts to read the first ring at its beginning is what a reset does.
\<close>

definition clear_queue :: "virtio \<Rightarrow> virtio" where
  "clear_queue v = v\<lparr>desc := \<lambda>_. \<lparr>d_addr = VNull, d_len = 0, d_flags = 0, d_next = 0\<rparr>, avail_ring := \<lambda>_. 0, avail_idx := 0, dev_avail := 0,
     used_ring := \<lambda>_. 0, dev_used := 0, desc_free := \<lambda>i. i < NUM \<or> desc_free v i\<rparr>"

definition virtio_init :: "mmio \<Rightarrow> 'a kdisk_scheme \<Rightarrow> ((nat \<times> u32) list \<times> 'a kdisk_scheme) res" where
  "virtio_init dev s =
     kbind (negotiate dev) (\<lambda>(status, w).
       let w = w @ [(VIRTIO_MMIO_QUEUE_SEL, 0)]; max = dev w VIRTIO_MMIO_QUEUE_NUM_MAX in
       if dev w VIRTIO_MMIO_QUEUE_READY \<noteq> 0 then Panic ''virtio disk should not be ready''
       else if max = 0 then Panic ''virtio disk has no queue 0''
       else if max < of_nat NUM then Panic ''virtio disk max queue too short''
       else let (d, s) = page_alloc s; (a, s) = page_alloc s; (u, s) = page_alloc s in
         case (d, a, u) of
           (Some d, Some a, Some u) \<Rightarrow>
             let s = zero_page u (zero_page a (zero_page d s));
                 w = w @ [(VIRTIO_MMIO_QUEUE_NUM, of_nat NUM)] @ addr_writes VIRTIO_MMIO_QUEUE_DESC_LOW d @
                   addr_writes VIRTIO_MMIO_DRIVER_DESC_LOW a @ addr_writes VIRTIO_MMIO_DEVICE_DESC_LOW u @ [(VIRTIO_MMIO_QUEUE_READY, 1)]
             in Ret (w @ [(VIRTIO_MMIO_STATUS, status OR VIRTIO_CONFIG_S_DRIVER_OK)], upd_vd clear_queue s)
         | _ \<Rightarrow> Panic ''virtio disk kalloc'')"

section \<open>The device\<close>

text \<open>
  The device takes the next chain: it reads the request from the first descriptor, moves the block between the disk and the memory
  that the second names, in the direction of the request, writes 0 through the third, and adds the chain to the second
  ring. It does nothing with a chain that has not this form, or whose second descriptor does not allow the direction.
\<close>

definition device_step :: "'a kdisk_scheme \<Rightarrow> 'a kdisk_scheme option" where
  "device_step s =
     (let v = vd s; h = unat (avail_ring v (unat (dev_avail v) mod NUM)); d0 = desc v h;
          d1 = desc v (unat (d_next d0)); d2 = desc v (unat (d_next d1)) in
      if dev_avail v = avail_idx v then None
      else case (d_addr d0, d_addr d1, d_addr d2) of
          (VOp i, VData b, VStatus j) \<Rightarrow>
            let blk = ucast (req_sector (ops v i) div 2);
                s' = (if req_type (ops v i) = VIRTIO_BLK_T_IN
                      then upd_buf b (\<lambda>x. x\<lparr>buf_data := disk s blk\<rparr>) s
                      else s\<lparr>disk := (disk s)(blk := buf_data (bufs s b)), disk_trace := disk_trace s @ [(blk, buf_data (bufs s b))]\<rparr>)
            in if (d_flags d1 AND VRING_DESC_F_WRITE \<noteq> 0) = (req_type (ops v i) = VIRTIO_BLK_T_IN) \<and> d_len d1 = of_nat BSIZE
               then Some (upd_vd (\<lambda>v. v\<lparr>info := (info v)(j := (info v j)\<lparr>info_status := 0\<rparr>),
                  used_ring := (used_ring v)(unat (dev_used v) mod NUM := of_nat h),
                  dev_used := dev_used v + 1, dev_avail := dev_avail v + 1\<rparr>) s')
               else None
        | _ \<Rightarrow> None)"

section \<open>What the driver promises\<close>

text \<open>
  The abstract view: the requests that wait for the device, those that the device has done and the driver has not seen, and those that are done
  and whose process has not yet come back; each with its three descriptors, its buffer and its direction.
\<close>

record request =
  r_head :: nat
  r_mid :: nat
  r_tail :: nat
  r_buf :: nat
  r_write :: bool

definition cells :: "request \<Rightarrow> nat list" where
  "cells r = [r_head r, r_mid r, r_tail r]"

definition formatted :: "request \<Rightarrow> 'a kdisk_scheme \<Rightarrow> bool" where
  "formatted r s \<longleftrightarrow> (let v = vd s; d0 = desc v (r_head r); d1 = desc v (r_mid r); d2 = desc v (r_tail r) in
     d_addr d0 = VOp (r_head r) \<and> d_flags d0 AND VRING_DESC_F_NEXT \<noteq> 0 \<and> unat (d_next d0) = r_mid r \<and>
     d_addr d1 = VData (r_buf r) \<and> d_flags d1 AND VRING_DESC_F_NEXT \<noteq> 0 \<and> unat (d_next d1) = r_tail r \<and> d_len d1 = of_nat BSIZE \<and>
     (d_flags d1 AND VRING_DESC_F_WRITE \<noteq> 0) = (\<not> r_write r) \<and>
     d_addr d2 = VStatus (r_head r) \<and> d_flags d2 AND VRING_DESC_F_NEXT = 0 \<and>
     req_type (ops v (r_head r)) = (if r_write r then VIRTIO_BLK_T_OUT else VIRTIO_BLK_T_IN) \<and>
     req_sector (ops v (r_head r)) = ucast (blockno (bufs s (r_buf r)) * 2) \<and>
     info_b (info v (r_head r)) = Some (r_buf r))"

lemma formatted_cong:
  assumes "\<And>i. i \<in> set (cells r) \<Longrightarrow> desc (vd t) i = desc (vd s) i" "ops (vd t) (r_head r) = ops (vd s) (r_head r)"
    "info_b (info (vd t) (r_head r)) = info_b (info (vd s) (r_head r))" "blockno (bufs t (r_buf r)) = blockno (bufs s (r_buf r))"
  shows "formatted r t = formatted r s"
  using assms by (simp add: formatted_def cells_def Let_def)

definition vrel :: "'a kdisk_scheme \<Rightarrow> request list \<Rightarrow> request list \<Rightarrow> request list \<Rightarrow> bool" where
  "vrel s P C D \<longleftrightarrow>
     map r_head P = map unat (ring NUM (avail_ring (vd s)) (dev_avail (vd s)) (avail_idx (vd s))) \<and>
     map r_head C = map unat (ring NUM (used_ring (vd s)) (used_idx (vd s)) (dev_used (vd s))) \<and>
     distinct (concat (map cells (P @ C @ D))) \<and>
     (\<forall>i. i < NUM \<and> \<not> desc_free (vd s) i \<longleftrightarrow> i \<in> set (concat (map cells (P @ C @ D)))) \<and>
     (\<forall>r \<in> set (P @ C @ D). formatted r s) \<and>
     distinct (map r_buf (P @ C @ D)) \<and>
     (\<forall>b. buf_disk s b \<longleftrightarrow> b \<in> r_buf ` set (P @ C)) \<and>
     (\<forall>r \<in> set (C @ D). info_status (info (vd s) (r_head r)) = 0) \<and>
     (\<forall>i b. info_b (info (vd s) i) = Some b \<longrightarrow> i \<in> r_head ` set (P @ C @ D))"

lemma vrelI:
  assumes "map r_head P = map unat (ring NUM (avail_ring (vd s)) (dev_avail (vd s)) (avail_idx (vd s)))"
    "map r_head C = map unat (ring NUM (used_ring (vd s)) (used_idx (vd s)) (dev_used (vd s)))"
    "distinct (concat (map cells (P @ C @ D)))"
    "\<And>i. i < NUM \<and> \<not> desc_free (vd s) i \<longleftrightarrow> i \<in> set (concat (map cells (P @ C @ D)))"
    "\<And>r. r \<in> set (P @ C @ D) \<Longrightarrow> formatted r s" "distinct (map r_buf (P @ C @ D))"
    "\<And>b. buf_disk s b \<longleftrightarrow> b \<in> r_buf ` set (P @ C)" "\<And>r. r \<in> set (C @ D) \<Longrightarrow> info_status (info (vd s) (r_head r)) = 0"
    "\<And>i b. info_b (info (vd s) i) = Some b \<Longrightarrow> i \<in> r_head ` set (P @ C @ D)"
  shows "vrel s P C D"
  using assms unfolding vrel_def by blast

lemma vrelD:
  assumes "vrel s P C D"
  shows "map r_head P = map unat (ring NUM (avail_ring (vd s)) (dev_avail (vd s)) (avail_idx (vd s)))"
    "map r_head C = map unat (ring NUM (used_ring (vd s)) (used_idx (vd s)) (dev_used (vd s)))"
    "distinct (concat (map cells (P @ C @ D)))"
    "i < NUM \<and> \<not> desc_free (vd s) i \<longleftrightarrow> i \<in> set (concat (map cells (P @ C @ D)))"
    "r \<in> set (P @ C @ D) \<Longrightarrow> formatted r s" "distinct (map r_buf (P @ C @ D))"
    "buf_disk s b \<longleftrightarrow> b \<in> r_buf ` set (P @ C)" "r \<in> set (C @ D) \<Longrightarrow> info_status (info (vd s) (r_head r)) = 0"
    "info_b (info (vd s) i) = Some b \<Longrightarrow> i \<in> r_head ` set (P @ C @ D)"
  using assms unfolding vrel_def by blast+

lemma vrel_small:
  assumes "vrel s P C D"
  shows "3 * length (P @ C @ D) \<le> NUM"
proof -
  let ?l = "concat (map cells (P @ C @ D))"
  have "set ?l \<subseteq> {0..<NUM}" using assms by (auto simp: vrel_def)
  then have "card (set ?l) \<le> NUM" using card_mono [of "{0..<NUM}" "set ?l"] by simp
  moreover have "card (set ?l) = length ?l" using assms by (intro distinct_card) (simp add: vrel_def)
  moreover have "length (concat (map cells rs)) = 3 * length rs" for rs by (induction rs) (auto simp: cells_def)
  ultimately show ?thesis by metis
qed

lemma vd_simps [simp]:
  "vd (wakeup cur c s) = vd s" "bufs (wakeup cur c s) = bufs s" "buf_disk (wakeup cur c s) = buf_disk s"
  "vd (upd_vd f s) = f (vd s)" "bufs (upd_vd f s) = bufs s" "buf_disk (upd_vd f s) = buf_disk s"
  "vd (sleep_on p ch s) = vd s" "bufs (sleep_on p ch s) = bufs s" "buf_disk (sleep_on p ch s) = buf_disk s"
  "disk (wakeup cur c s) = disk s" "disk_trace (wakeup cur c s) = disk_trace s" "disk (upd_vd f s) = disk s" "disk_trace (upd_vd f s) = disk_trace s"
  "disk (sleep_on p ch s) = disk s" "disk_trace (sleep_on p ch s) = disk_trace s" "processes (upd_vd f s) = processes s"
  by (simp_all add: wakeup_def upd_vd_def sleep_on_def upd_proc_def)

text \<open>The relation looks only at the driver's own data and at the block numbers of the buffers.\<close>

lemma vrel_cong:
  assumes "vd t = vd s" "buf_disk t = buf_disk s" "\<And>b. blockno (bufs t b) = blockno (bufs s b)"
  shows "vrel t P C D = vrel s P C D"
  using assms by (simp add: vrel_def formatted_def)

section \<open>Making a request\<close>

lemma alloc_desc_None: "alloc_desc v = (None, v') \<Longrightarrow> v' = v \<and> (\<forall>i < NUM. \<not> desc_free v i)"
  by (auto simp: alloc_desc_def dest: find_upt_None split: option.splits)

lemma alloc_desc_Some: "alloc_desc v = (Some i, v') \<Longrightarrow> i < NUM \<and> desc_free v i \<and> v' = v\<lparr>desc_free := (desc_free v)(i := False)\<rparr>"
  by (auto simp: alloc_desc_def dest: find_upt_Some split: option.splits)

lemma cells_used:
  assumes "vrel s P C D" "r \<in> set (P @ C @ D)" "i \<in> set (cells r)"
  shows "i < NUM" "\<not> desc_free (vd s) i"
  using assms by (auto simp: vrel_def)

text \<open>A descriptor that is free may hold anything.\<close>

lemma vrel_free_desc:
  assumes rel: "vrel s P C D" and same: "buf_disk t = buf_disk s" "bufs t = bufs s"
    and v: "vd t = (vd s)\<lparr>desc := ds\<rparr>" and ds: "\<And>i. i < NUM \<Longrightarrow> \<not> desc_free (vd s) i \<Longrightarrow> ds i = desc (vd s) i"
  shows "vrel t P C D"
proof -
  have "formatted r t" if "r \<in> set (P @ C @ D)" for r
  proof -
    have "ds i = desc (vd s) i" if "i \<in> set (cells r)" for i using cells_used [OF rel \<open>r \<in> _\<close> that] ds by blast
    moreover have "formatted r s" using rel that by (auto simp: vrel_def)
    ultimately show ?thesis using same v formatted_cong [of r t s] by simp
  qed
  then show ?thesis using rel same v by (simp add: vrel_def)
qed

lemma free_desc_new:
  assumes "i < NUM" "\<not> desc_free (vd s) i"
  shows "\<exists>t. free_desc cur i s = Ret t \<and> vd t = (set_desc i VNull 0 0 0 (vd s))\<lparr>desc_free := (desc_free (vd s))(i := True)\<rparr> \<and>
    bufs t = bufs s \<and> buf_disk t = buf_disk s \<and> disk t = disk s \<and> disk_trace t = disk_trace s"
  using assms by (simp add: free_desc_def Let_def set_desc_def)

text \<open>\<open>alloc3_desc\<close> takes three free descriptors, or there are fewer than three and it leaves them free.\<close>

lemma alloc3_spec:
  shows "\<exists>x t. alloc3_desc cur s = Ret (x, t) \<and> bufs t = bufs s \<and> buf_disk t = buf_disk s \<and> disk t = disk s \<and> disk_trace t = disk_trace s \<and>
    (case x of
       None \<Rightarrow> card {i. i < NUM \<and> desc_free (vd s) i} < 3 \<and>
         (\<exists>ds. vd t = (vd s)\<lparr>desc := ds\<rparr> \<and> (\<forall>i. i < NUM \<and> \<not> desc_free (vd s) i \<longrightarrow> ds i = desc (vd s) i))
     | Some (i0, i1, i2) \<Rightarrow> {i0, i1, i2} \<subseteq> {i. i < NUM \<and> desc_free (vd s) i} \<and> distinct [i0, i1, i2] \<and>
         vd t = (vd s)\<lparr>desc_free := (desc_free (vd s))(i0 := False, i1 := False, i2 := False)\<rparr>)"
proof -
  let ?F = "{i. i < NUM \<and> desc_free (vd s) i}"
  obtain x0 v0 where a0: "alloc_desc (vd s) = (x0, v0)" by fastforce
  show ?thesis
  proof (cases x0)
    case None
    then have v0: "v0 = vd s" and F: "?F = {}" using alloc_desc_None [of "vd s" v0] a0 by auto
    have "card ?F < 3" unfolding F by simp
    then show ?thesis using a0 None v0
      by (intro exI [of _ None] exI [of _ "s\<lparr>vd := vd s\<rparr>"]) (simp add: alloc3_desc_def, intro exI [of _ "desc (vd s)"], simp)
  next
    case (Some i0)
    then have i0: "i0 < NUM" "desc_free (vd s) i0" "v0 = (vd s)\<lparr>desc_free := (desc_free (vd s))(i0 := False)\<rparr>"
      using alloc_desc_Some a0 by blast+
    obtain x1 v1 where a1: "alloc_desc v0 = (x1, v1)" by fastforce
    show ?thesis
    proof (cases x1)
      case None
      then have v1: "v1 = v0" "?F \<subseteq> {i0}" using alloc_desc_None [of v0 v1] a1 i0 by (auto split: if_splits)
      obtain t where t: "free_desc cur i0 (s\<lparr>vd := v1\<rparr>) = Ret t" "vd t = (set_desc i0 VNull 0 0 0 v1)\<lparr>desc_free := (desc_free v1)(i0 := True)\<rparr>"
        "bufs t = bufs s" "buf_disk t = buf_disk s" "disk t = disk s" "disk_trace t = disk_trace s"
        using free_desc_new [of i0 "s\<lparr>vd := v1\<rparr>" cur] i0 v1 by auto
      have "card ?F \<le> card {i0}" using v1(2) by (rule card_mono [rotated]) simp
      moreover have "vd t = (vd s)\<lparr>desc := desc (vd t)\<rparr>" using t(2) v1(1) i0 by (simp add: set_desc_def fun_upd_idem)
      moreover have "desc (vd t) j = desc (vd s) j" if "\<not> desc_free (vd s) j" for j
        using t(2) v1(1) i0 that by (auto simp: set_desc_def)
      ultimately show ?thesis using a0 a1 Some None t(1,3-6)
        by (intro exI [of _ None] exI [of _ t]) (auto simp: alloc3_desc_def intro!: exI [of _ "desc (vd t)"])
    next
      case x1: (Some i1)
      then have i1: "i1 < NUM" "desc_free (vd s) i1" "i1 \<noteq> i0" "v1 = (vd s)\<lparr>desc_free := (desc_free (vd s))(i0 := False, i1 := False)\<rparr>"
        using alloc_desc_Some [of v0 i1 v1] a1 i0 by (auto split: if_splits)
      obtain x2 v2 where a2: "alloc_desc v1 = (x2, v2)" by fastforce
      show ?thesis
      proof (cases x2)
        case None
        then have v2: "v2 = v1" "?F \<subseteq> {i0, i1}" using alloc_desc_None [of v1 v2] a2 i1 by (auto split: if_splits)
        obtain t where t: "free_desc cur i0 (s\<lparr>vd := v2\<rparr>) = Ret t" "vd t = (set_desc i0 VNull 0 0 0 v2)\<lparr>desc_free := (desc_free v2)(i0 := True)\<rparr>"
          "bufs t = bufs s" "buf_disk t = buf_disk s" "disk t = disk s" "disk_trace t = disk_trace s"
          using free_desc_new [of i0 "s\<lparr>vd := v2\<rparr>" cur] i0 i1 v2 by auto
        obtain u where u: "free_desc cur i1 t = Ret u" "vd u = (set_desc i1 VNull 0 0 0 (vd t))\<lparr>desc_free := (desc_free (vd t))(i1 := True)\<rparr>"
          "bufs u = bufs s" "buf_disk u = buf_disk s" "disk u = disk s" "disk_trace u = disk_trace s"
          using free_desc_new [of i1 t cur] i0 i1 v2 t by (auto simp: set_desc_def)
        have "card ?F \<le> card {i0, i1}" using v2(2) by (rule card_mono [rotated]) simp
        then have "card ?F < 3" using i1(3) by simp
        moreover have "vd u = (vd s)\<lparr>desc := desc (vd u)\<rparr>"
          using u(2) t(2) v2(1) i0(2) i1(2-4) by (simp add: set_desc_def fun_upd_idem fun_upd_twist)
        moreover have "desc (vd u) j = desc (vd s) j" if "\<not> desc_free (vd s) j" for j
          using u(2) t(2) v2(1) i0(2) i1(2,4) that by (auto simp: set_desc_def)
        ultimately show ?thesis using a0 a1 a2 Some x1 None t(1) u(1,3-6)
          by (intro exI [of _ None] exI [of _ u]) (auto simp: alloc3_desc_def intro!: exI [of _ "desc (vd u)"])
      next
        case x2: (Some i2)
        then have i2: "i2 < NUM" "desc_free (vd s) i2" "i2 \<noteq> i0" "i2 \<noteq> i1"
          "v2 = (vd s)\<lparr>desc_free := (desc_free (vd s))(i0 := False, i1 := False, i2 := False)\<rparr>"
          using alloc_desc_Some [of v1 i2 v2] a2 i1 by (auto split: if_splits)
        then show ?thesis using a0 a1 a2 Some x1 x2 i0 i1
          by (intro exI [of _ "Some (i0, i1, i2)"] exI [of _ "s\<lparr>vd := v2\<rparr>"]) (auto simp: alloc3_desc_def)
      qed
    qed
  qed
qed

lemma unat_small: "i < NUM \<Longrightarrow> unat (of_nat i :: u16) = i" "i < NUM \<Longrightarrow> unat (of_nat i :: u32) = i"
  by (simp_all add: unat_of_nat)

text \<open>A request that is formatted in three new descriptors, for a buffer that is not in use, joins those that wait.\<close>

lemma format_request_vrel:
  fixes w :: bool
  assumes rel: "vrel s P C D" and b: "b \<notin> r_buf ` set (P @ C @ D)"
    and new: "{i0, i1, i2} \<subseteq> {i. i < NUM \<and> desc_free (vd s) i}" "distinct [i0, i1, i2]"
    and v: "vd t = (vd s)\<lparr>desc_free := (desc_free (vd s))(i0 := False, i1 := False, i2 := False)\<rparr>" "bufs t = bufs s" "buf_disk t = buf_disk s"
  defines "r \<equiv> \<lparr>r_head = i0, r_mid = i1, r_tail = i2, r_buf = b, r_write = w\<rparr>"
  shows "vrel (format_request b w i0 i1 i2 t) (P @ [r]) C D"
proof -
  let ?u = "format_request b w i0 i1 i2 t"
  have i: "i0 < NUM" "i1 < NUM" "i2 < NUM" "i0 \<noteq> i1" "i0 \<noteq> i2" "i1 \<noteq> i2" using new by auto
  have old: "i \<notin> {i0, i1, i2}" if "q \<in> set (P @ C @ D)" "i \<in> set (cells q)" for q i
    using cells_used(2) [OF rel that] new(1) by auto
  have u: "bufs ?u = bufs s" "buf_disk ?u = (buf_disk s)(b := True)"
    "desc_free (vd ?u) = (desc_free (vd s))(i0 := False, i1 := False, i2 := False)"
    "used_ring (vd ?u) = used_ring (vd s)" "used_idx (vd ?u) = used_idx (vd s)" "dev_used (vd ?u) = dev_used (vd s)"
    "dev_avail (vd ?u) = dev_avail (vd s)" "avail_idx (vd ?u) = avail_idx (vd s) + 1"
    "avail_ring (vd ?u) = (avail_ring (vd s))(unat (avail_idx (vd s)) mod NUM := of_nat i0)"
    using v by (simp_all add: format_request_def Let_def set_desc_def)
  have keep: "i \<notin> {i0, i1, i2} \<Longrightarrow> desc (vd ?u) i = desc (vd s) i" "i \<noteq> i0 \<Longrightarrow> ops (vd ?u) i = ops (vd s) i"
    "i \<noteq> i0 \<Longrightarrow> info (vd ?u) i = info (vd s) i" for i
    using v by (simp_all add: format_request_def Let_def set_desc_def)
  have fr: "formatted r ?u" using v i by (simp add: formatted_def r_def format_request_def Let_def set_desc_def unat_small)
  have fo: "formatted q ?u" if "q \<in> set (P @ C @ D)" for q
  proof -
    have "formatted q s" using rel that by (auto simp: vrel_def)
    moreover have "desc (vd ?u) i = desc (vd s) i" "ops (vd ?u) i = ops (vd s) i" "info (vd ?u) i = info (vd s) i" if "i \<in> set (cells q)" for i
      using old [OF \<open>q \<in> _\<close> that] keep [of i] by auto
    ultimately show ?thesis using u(1) formatted_cong [of q ?u s] by (simp add: cells_def)
  qed
  have small: "unat (avail_idx (vd s) - dev_avail (vd s)) < NUM"
  proof -
    have "length (map r_head P) = unat (avail_idx (vd s) - dev_avail (vd s))" using rel by (simp add: vrel_def)
    then show ?thesis using vrel_small [OF rel] by simp
  qed
  have "ring NUM (avail_ring (vd ?u)) (dev_avail (vd ?u)) (avail_idx (vd ?u)) =
      ring NUM (avail_ring (vd s)) (dev_avail (vd s)) (avail_idx (vd s)) @ [of_nat i0]"
    unfolding u by (rule ring_put(1)) (use small in simp_all)
  then have pend: "map r_head (P @ [r]) = map unat (ring NUM (avail_ring (vd ?u)) (dev_avail (vd ?u)) (avail_idx (vd ?u)))"
    using rel i(1) by (simp add: vrel_def r_def unat_small)
  have dist: "distinct (concat (map cells ((P @ [r]) @ C @ D)))"
  proof (subst mset_eq_imp_distinct_iff)
    show "mset (concat (map cells ((P @ [r]) @ C @ D))) = mset (cells r @ concat (map cells (P @ C @ D)))" by simp
    have "i \<notin> set (concat (map cells (P @ C @ D)))" if "i \<in> {i0, i1, i2}" for i
      unfolding vrelD(4) [OF rel, symmetric] using that new(1) by auto
    moreover have "set (cells r) = {i0, i1, i2}" by (simp add: r_def cells_def)
    ultimately have "set (cells r) \<inter> set (concat (map cells (P @ C @ D))) = {}" by blast
    moreover have "distinct (concat (map cells (P @ C @ D)))" using rel unfolding vrel_def by (elim conjE)
    ultimately show "distinct (cells r @ concat (map cells (P @ C @ D)))" using new(2) by (simp add: r_def cells_def)
  qed
  note rel' = vrelD [OF rel]
  have cells_r: "set (concat (map cells ((P @ [r]) @ C @ D))) = {i0, i1, i2} \<union> set (concat (map cells (P @ C @ D)))"
    by (auto simp: r_def cells_def)
  show ?thesis
  proof (rule vrelI)
    show "i < NUM \<and> \<not> desc_free (vd ?u) i \<longleftrightarrow> i \<in> set (concat (map cells ((P @ [r]) @ C @ D)))" for i
      unfolding cells_r u(3) Un_iff rel'(4) [symmetric] using i(1-3) by auto
    show "map r_head C = map unat (ring NUM (used_ring (vd ?u)) (used_idx (vd ?u)) (dev_used (vd ?u)))"
      using rel'(2) unfolding u(4-6) .
    show "formatted q ?u" if "q \<in> set ((P @ [r]) @ C @ D)" for q using that fr fo by auto
    show "distinct (map r_buf ((P @ [r]) @ C @ D))" using rel'(6) b by (auto simp: r_def)
    show "buf_disk ?u c \<longleftrightarrow> c \<in> r_buf ` set ((P @ [r]) @ C)" for c using rel'(7) [of c] unfolding u(2) by (auto simp: r_def)
    show "info_status (info (vd ?u) (r_head q)) = 0" if "q \<in> set (C @ D)" for q
      using rel'(8) [OF that] that old [of q "r_head q"] keep(3) [of "r_head q"] by (auto simp: cells_def)
    show "i \<in> r_head ` set ((P @ [r]) @ C @ D)" if "info_b (info (vd ?u) i) = Some c" for i c
      using that keep(3) [of i] rel'(9) [of i c] by (cases "i = i0") (auto simp: r_def)
  qed (fact pend dist)+
qed

lemma free_count:
  assumes "vrel s P C D"
  shows "card {i. i < NUM \<and> desc_free (vd s) i} + 3 * length (P @ C @ D) = NUM"
proof -
  define l where "l = concat (map cells (P @ C @ D))"
  let ?F = "{i. i < NUM \<and> desc_free (vd s) i}"
  have "{i. i < NUM} = ?F \<union> set l" "?F \<inter> set l = {}" using vrelD(4) [OF assms] unfolding l_def by blast+
  moreover have "finite ?F" by simp
  ultimately have "card {i. i < NUM} = card ?F + card (set l)" using card_Un_disjoint [of ?F "set l"] by simp
  moreover have "card (set l) = length l" using vrelD(3) [OF assms] unfolding l_def by (rule distinct_card)
  moreover have "length (concat (map cells rs)) = 3 * length rs" for rs by (induction rs) (auto simp: cells_def)
  ultimately show ?thesis unfolding l_def by (metis card_Collect_less_nat)
qed

lemma submit_spec:
  assumes rel: "vrel s P C D" and b: "b \<notin> r_buf ` set (P @ C @ D)"
  shows "\<exists>w. read_write_submit cur b wr s = Ret w \<and>
    (case w of
       Requested i t \<Rightarrow> (\<exists>r. r_head r = i \<and> r_buf r = b \<and> r_write r = wr \<and> vrel t (P @ [r]) C D \<and> length (P @ C @ D) < 2 \<and>
         bufs t = bufs s \<and> disk t = disk s \<and> disk_trace t = disk_trace s)
     | No_desc t \<Rightarrow> vrel t P C D \<and> 2 \<le> length (P @ C @ D) \<and> bufs t = bufs s \<and> disk t = disk s \<and> disk_trace t = disk_trace s)"
proof -
  obtain x t where a: "alloc3_desc (Some cur) s = Ret (x, t)" and keep: "bufs t = bufs s" "buf_disk t = buf_disk s" "disk t = disk s" "disk_trace t = disk_trace s"
    and x: "case x of
       None \<Rightarrow> card {i. i < NUM \<and> desc_free (vd s) i} < 3 \<and>
         (\<exists>ds. vd t = (vd s)\<lparr>desc := ds\<rparr> \<and> (\<forall>i. i < NUM \<and> \<not> desc_free (vd s) i \<longrightarrow> ds i = desc (vd s) i))
     | Some (i0, i1, i2) \<Rightarrow> {i0, i1, i2} \<subseteq> {i. i < NUM \<and> desc_free (vd s) i} \<and> distinct [i0, i1, i2] \<and>
         vd t = (vd s)\<lparr>desc_free := (desc_free (vd s))(i0 := False, i1 := False, i2 := False)\<rparr>"
    using alloc3_spec [of "Some cur" s] by blast
  show ?thesis
  proof (cases x)
    case None
    then obtain ds where ds: "card {i. i < NUM \<and> desc_free (vd s) i} < 3" "vd t = (vd s)\<lparr>desc := ds\<rparr>"
      "\<And>i. i < NUM \<Longrightarrow> \<not> desc_free (vd s) i \<Longrightarrow> ds i = desc (vd s) i" using x by auto
    have "vrel t P C D" by (rule vrel_free_desc [OF rel keep(2,1) ds(2,3)])
    then have "vrel (sleep_on cur OnDiskFree t) P C D" by (subst vrel_cong [of _ t]) simp_all
    then show ?thesis using a None keep free_count [OF rel] ds(1)
      by (intro exI [of _ "No_desc (sleep_on cur OnDiskFree t)"]) (simp add: read_write_submit_def)
  next
    case (Some y)
    obtain i0 i1 i2 where y: "y = (i0, i1, i2)" by (cases y)
    let ?r = "\<lparr>r_head = i0, r_mid = i1, r_tail = i2, r_buf = b, r_write = wr\<rparr>"
    let ?u = "format_request b wr i0 i1 i2 t"
    have new: "{i0, i1, i2} \<subseteq> {i. i < NUM \<and> desc_free (vd s) i}" "distinct [i0, i1, i2]"
      "vd t = (vd s)\<lparr>desc_free := (desc_free (vd s))(i0 := False, i1 := False, i2 := False)\<rparr>" using x Some y by auto
    have "vrel ?u (P @ [?r]) C D" by (rule format_request_vrel [OF rel b new keep(1,2)])
    then have v: "vrel (sleep_on cur (OnDiskBuf b) ?u) (P @ [?r]) C D" by (subst vrel_cong [of _ ?u]) simp_all
    have "bufs ?u = bufs t" "disk ?u = disk t" "disk_trace ?u = disk_trace t" by (simp_all add: format_request_def Let_def)
    moreover have "length (P @ C @ D) < 2" using vrel_small [OF \<open>vrel ?u (P @ [?r]) C D\<close>] by simp
    ultimately show ?thesis using a Some y v keep
      by (intro exI [of _ "Requested i0 (sleep_on cur (OnDiskBuf b) ?u)"]) (auto simp: read_write_submit_def intro!: exI [of _ ?r])
  qed
qed

lemma submit_room:
  assumes "vrel s P C D" "b \<notin> r_buf ` set (P @ C @ D)" "length (P @ C @ D) < 2"
  shows "\<exists>i t r. read_write_submit cur b wr s = Ret (Requested i t) \<and> r_head r = i \<and> r_buf r = b \<and> r_write r = wr \<and>
    vrel t (P @ [r]) C D \<and> bufs t = bufs s \<and> disk t = disk s \<and> disk_trace t = disk_trace s"
  using submit_spec [OF assms(1,2), of cur wr] assms(3)
  apply (elim exE conjE)
  subgoal for x by (cases x) auto
  done

section \<open>The transfer\<close>

text \<open>What the buffer cache asks for is what the device does when it takes the request.\<close>

definition transfer :: "nat \<times> bool \<Rightarrow> 'a kdisk_scheme \<Rightarrow> 'a kdisk_scheme" where
  "transfer r s = (if snd r then disk_write (fst r) s else disk_read (fst r) s)"

definition perform :: "request \<Rightarrow> 'a kdisk_scheme \<Rightarrow> 'a kdisk_scheme" where
  "perform r = transfer (r_buf r, r_write r)"

lemma sector_block:
  assumes "unat (k :: u32) < 2 ^ 31"
  shows "ucast ((ucast (k * 2) :: u64) div 2) = k"
proof -
  have "unat (k * 2) = unat k * 2" using assms by (simp add: unat_word_ariths)
  moreover have "unat (ucast w :: u64) = unat w" for w :: u32
    using unsigned_less [of w] by (simp add: unsigned_ucast_eq take_bit_nat_eq_self)
  ultimately have "unat ((ucast (k * 2) :: u64) div 2) = unat k" by (simp only: unat_div) simp
  then show ?thesis using assms by (intro word_unatI) (simp add: unsigned_ucast_eq take_bit_nat_eq_self)
qed

text \<open>The device does the first request that waits, which then is one that the driver has still to see.\<close>

lemma device_spec:
  assumes rel: "vrel s (r # P) C D" and blk: "unat (blockno (bufs s (r_buf r))) < 2 ^ 31"
  shows "\<exists>t. device_step s = Some t \<and> vrel t P (C @ [r]) D \<and>
    bufs t = bufs (perform r s) \<and> disk t = disk (perform r s) \<and> disk_trace t = disk_trace (perform r s) \<and> processes t = processes s"
proof -
  note rel' = vrelD [OF rel]
  have ne: "dev_avail (vd s) \<noteq> avail_idx (vd s)" using rel'(1) by auto
  have head: "unat (avail_ring (vd s) (unat (dev_avail (vd s)) mod NUM)) = r_head r"
    and rest: "map r_head P = map unat (ring NUM (avail_ring (vd s)) (dev_avail (vd s) + 1) (avail_idx (vd s)))"
    using rel'(1) ring_get(1) [of "avail_idx (vd s)" "dev_avail (vd s)" NUM "avail_ring (vd s)"] ne by auto
  have hd: "r_head r < NUM" using cells_used(1) [OF rel, of r "r_head r"] by (simp add: cells_def)
  have fr: "formatted r s" using rel'(5) by simp
  define t where "t = upd_vd (\<lambda>v. v\<lparr>info := (info v)(r_head r := (info v (r_head r))\<lparr>info_status := 0\<rparr>),
     used_ring := (used_ring v)(unat (dev_used v) mod NUM := of_nat (r_head r)),
     dev_used := dev_used v + 1, dev_avail := dev_avail v + 1\<rparr>) (perform r s)"
  have pv: "vd (perform r s) = vd s" "buf_disk (perform r s) = buf_disk s" "processes (perform r s) = processes s"
    "blockno (bufs (perform r s) b) = blockno (bufs s b)" for b
    by (simp_all add: perform_def transfer_def disk_write_def disk_read_def upd_buf_def Let_def)
  let ?v = "vd s"
  have f: "d_addr (desc ?v (r_head r)) = VOp (r_head r)" "unat (d_next (desc ?v (r_head r))) = r_mid r"
    "d_addr (desc ?v (r_mid r)) = VData (r_buf r)" "unat (d_next (desc ?v (r_mid r))) = r_tail r" "d_len (desc ?v (r_mid r)) = of_nat BSIZE"
    "(d_flags (desc ?v (r_mid r)) AND VRING_DESC_F_WRITE \<noteq> 0) = (\<not> r_write r)" "d_addr (desc ?v (r_tail r)) = VStatus (r_head r)"
    "req_type (ops ?v (r_head r)) = (if r_write r then VIRTIO_BLK_T_OUT else VIRTIO_BLK_T_IN)"
    "ucast (req_sector (ops ?v (r_head r)) div 2) = blockno (bufs s (r_buf r))"
    using fr sector_block [OF blk] unfolding formatted_def Let_def by (elim conjE, simp only: )+
  have ty: "(req_type (ops ?v (r_head r)) = VIRTIO_BLK_T_IN) = (\<not> r_write r)" using f(8) by simp
  have tr: "(if \<not> r_write r then upd_buf (r_buf r) (\<lambda>x. x\<lparr>buf_data := disk s (blockno (bufs s (r_buf r)))\<rparr>) s
      else s\<lparr>disk := (disk s)(blockno (bufs s (r_buf r)) := buf_data (bufs s (r_buf r))),
        disk_trace := disk_trace s @ [(blockno (bufs s (r_buf r)), buf_data (bufs s (r_buf r)))]\<rparr>) = perform r s"
    by (simp add: perform_def transfer_def disk_write_def disk_read_def upd_buf_def Let_def)
  have step: "device_step s = Some t"
    unfolding device_step_def Let_def head f(1-7,9) ty t_def prod.case vptr.case tr by (simp only: ne simp_thms if_False if_True)
  have small: "unat (dev_used (vd s) - used_idx (vd s)) < NUM"
  proof -
    have "length (map r_head C) = unat (dev_used (vd s) - used_idx (vd s))" unfolding rel'(2) by simp
    then show ?thesis using vrel_small [OF rel] by simp
  qed
  have v: "vd t = (vd s)\<lparr>info := (info (vd s))(r_head r := (info (vd s) (r_head r))\<lparr>info_status := 0\<rparr>),
     used_ring := (used_ring (vd s))(unat (dev_used (vd s)) mod NUM := of_nat (r_head r)),
     dev_used := dev_used (vd s) + 1, dev_avail := dev_avail (vd s) + 1\<rparr>" "buf_disk t = buf_disk s"
    by (simp_all add: t_def pv)
  have "vrel t P (C @ [r]) D"
  proof (rule vrelI)
    show "map r_head P = map unat (ring NUM (avail_ring (vd t)) (dev_avail (vd t)) (avail_idx (vd t)))" using rest v by simp
    have "ring NUM (used_ring (vd t)) (used_idx (vd t)) (dev_used (vd t)) =
        ring NUM (used_ring (vd s)) (used_idx (vd s)) (dev_used (vd s)) @ [of_nat (r_head r)]"
      using ring_put(1) [of NUM "dev_used (vd s)" "used_idx (vd s)" "used_ring (vd s)"] small v by simp
    then show "map r_head (C @ [r]) = map unat (ring NUM (used_ring (vd t)) (used_idx (vd t)) (dev_used (vd t)))"
      using rel'(2) hd by (simp add: unat_small)
    show "distinct (concat (map cells (P @ (C @ [r]) @ D)))" using rel'(3) by auto
    show "i < NUM \<and> \<not> desc_free (vd t) i \<longleftrightarrow> i \<in> set (concat (map cells (P @ (C @ [r]) @ D)))" for i
      using rel'(4) [of i] v by auto
    show "formatted q t" if "q \<in> set (P @ (C @ [r]) @ D)" for q
    proof -
      have "formatted q s" using rel'(5) [of q] that by auto
      then show ?thesis by (subst formatted_cong [of q t s]) (auto simp: v t_def pv)
    qed
    show "distinct (map r_buf (P @ (C @ [r]) @ D))" using rel'(6) by auto
    show "buf_disk t b \<longleftrightarrow> b \<in> r_buf ` set (P @ C @ [r])" for b using rel'(7) [of b] v by auto
    show "info_status (info (vd t) (r_head q)) = 0" if "q \<in> set ((C @ [r]) @ D)" for q using rel'(8) [of q] that v by auto
    show "i \<in> r_head ` set (P @ (C @ [r]) @ D)" if "info_b (info (vd t) i) = Some b" for i b
      using that rel'(9) [of i b] v by (auto split: if_splits)
  qed
  then show ?thesis using step by (auto simp: t_def pv)
qed

text \<open>The interrupt handler takes all that the device has done, and wakes the processes that sleep on those buffers; it never panics.\<close>

definition wake_all :: "nat option \<Rightarrow> nat list \<Rightarrow> 'a kdisk_scheme \<Rightarrow> 'a kdisk_scheme" where
  "wake_all cur bs s = fold (\<lambda>b. wakeup cur (Some (OnDiskBuf b))) bs s"

lemma wake_all_simps [simp]:
  "vd (wake_all cur bs s) = vd s" "bufs (wake_all cur bs s) = bufs s" "buf_disk (wake_all cur bs s) = buf_disk s"
  "disk (wake_all cur bs s) = disk s" "disk_trace (wake_all cur bs s) = disk_trace s"
  by (induction bs arbitrary: s) (simp_all add: wake_all_def)

lemma interrupt_step:
  fixes cur :: "nat option"
  assumes rel: "vrel s P (r # C) D"
  defines "t \<equiv> upd_vd (\<lambda>v. v\<lparr>used_idx := used_idx v + 1\<rparr>)
    (wakeup cur (Some (OnDiskBuf (r_buf r))) (s\<lparr>buf_disk := (buf_disk s)(r_buf r := False)\<rparr>))"
  shows "virtio_intr_loop cur s = virtio_intr_loop cur t" "vrel t P C (D @ [r])"
proof -
  note rel' = vrelD [OF rel]
  have ne: "used_idx (vd s) \<noteq> dev_used (vd s)" using rel'(2) by auto
  have head: "unat (used_ring (vd s) (unat (used_idx (vd s)) mod NUM)) = r_head r"
    and rest: "map r_head C = map unat (ring NUM (used_ring (vd s)) (used_idx (vd s) + 1) (dev_used (vd s)))"
    using rel'(2) ring_get(1) [of "dev_used (vd s)" "used_idx (vd s)" NUM "used_ring (vd s)"] ne by auto
  have "info_status (info (vd s) (r_head r)) = 0" using rel'(8) [of r] by simp
  moreover have "info_b (info (vd s) (r_head r)) = Some (r_buf r)" using rel'(5) [of r] by (simp add: formatted_def Let_def)
  ultimately show "virtio_intr_loop cur s = virtio_intr_loop cur t"
    using ne by (simp add: virtio_intr_loop.simps [of cur s] Let_def head t_def)
  have v: "vd t = (vd s)\<lparr>used_idx := used_idx (vd s) + 1\<rparr>" "buf_disk t = (buf_disk s)(r_buf r := False)" "bufs t = bufs s"
    by (simp_all add: t_def)
  show "vrel t P C (D @ [r])"
  proof (rule vrelI)
    show "map r_head C = map unat (ring NUM (used_ring (vd t)) (used_idx (vd t)) (dev_used (vd t)))" using rest v by simp
    show "map r_head P = map unat (ring NUM (avail_ring (vd t)) (dev_avail (vd t)) (avail_idx (vd t)))" using rel'(1) v by simp
    show "distinct (concat (map cells (P @ C @ D @ [r])))" using rel'(3) by auto
    show "i < NUM \<and> \<not> desc_free (vd t) i \<longleftrightarrow> i \<in> set (concat (map cells (P @ C @ D @ [r])))" for i using rel'(4) [of i] v by auto
    show "formatted q t" if "q \<in> set (P @ C @ D @ [r])" for q
    proof -
      have "formatted q s" using rel'(5) [of q] that by auto
      then show ?thesis by (subst formatted_cong [of q t s]) (auto simp: v)
    qed
    show dist: "distinct (map r_buf (P @ C @ D @ [r]))" using rel'(6) by auto
    show "buf_disk t b \<longleftrightarrow> b \<in> r_buf ` set (P @ C)" for b using rel'(6) rel'(7) [of b] v by auto
    show "info_status (info (vd t) (r_head q)) = 0" if "q \<in> set (C @ D @ [r])" for q using rel'(8) [of q] that v by auto
    show "i \<in> r_head ` set (P @ C @ D @ [r])" if "info_b (info (vd t) i) = Some b" for i b using that rel'(9) [of i b] v by auto
  qed
qed

lemma interrupt_spec:
  assumes "vrel s P C D"
  shows "\<exists>t. virtio_intr_loop cur s = Ret t \<and> vrel t P [] (D @ C) \<and> bufs t = bufs s \<and> disk t = disk s \<and> disk_trace t = disk_trace s \<and>
    processes t = processes (wake_all cur (map r_buf C) s)"
  using assms
proof (induction C arbitrary: s D)
  case Nil
  then have "used_idx (vd s) = dev_used (vd s)" using vrelD(2) [OF Nil] by simp
  then show ?case using Nil by (simp add: virtio_intr_loop.simps [of cur s] wake_all_def)
next
  case (Cons r C)
  define u where "u = upd_vd (\<lambda>v. v\<lparr>used_idx := used_idx v + 1\<rparr>)
    (wakeup cur (Some (OnDiskBuf (r_buf r))) (s\<lparr>buf_disk := (buf_disk s)(r_buf r := False)\<rparr>))"
  note st = interrupt_step [OF Cons.prems, of cur, folded u_def]
  have cong: "processes (wake_all cur bs a) = processes (wake_all cur bs b)" if "processes a = processes b" for bs and a b :: "'a kdisk_scheme"
    using that by (induction bs arbitrary: a b) (auto simp: wake_all_def wakeup_def)
  have "processes u = processes (wakeup cur (Some (OnDiskBuf (r_buf r))) s)" by (simp add: u_def upd_vd_def wakeup_def)
  then have "processes (wake_all cur (map r_buf C) u) = processes (wake_all cur (map r_buf (r # C)) s)"
    using cong [of u "wakeup cur (Some (OnDiskBuf (r_buf r))) s"] by (simp add: wake_all_def)
  then show ?case using Cons.IH [OF st(2)] st(1) by (simp add: u_def)
qed

section \<open>Giving the descriptors back\<close>

lemma free_chain_next:
  assumes "free_desc cur i s = Ret t" "d_flags (desc (vd s) i) AND VRING_DESC_F_NEXT \<noteq> 0"
  shows "free_chain cur i s = free_chain cur (unat (d_next (desc (vd s) i))) t"
  using assms by (simp add: free_chain.simps [of cur i s] Let_def)

lemma free_chain_last:
  assumes "free_desc cur i s = Ret t" "d_flags (desc (vd s) i) AND VRING_DESC_F_NEXT = 0"
  shows "free_chain cur i s = Ret t"
  using assms by (simp add: free_chain.simps [of cur i s] Let_def)

lemma free_chain_request:
  assumes f: "d_flags (desc (vd s) h) AND VRING_DESC_F_NEXT \<noteq> 0" "unat (d_next (desc (vd s) h)) = m"
    "d_flags (desc (vd s) m) AND VRING_DESC_F_NEXT \<noteq> 0" "unat (d_next (desc (vd s) m)) = l" "d_flags (desc (vd s) l) AND VRING_DESC_F_NEXT = 0"
    and c: "distinct [h, m, l]" "\<And>i. i \<in> {h, m, l} \<Longrightarrow> i < NUM \<and> \<not> desc_free (vd s) i"
  shows "\<exists>t ds. free_chain cur h s = Ret t \<and> vd t = (vd s)\<lparr>desc := ds, desc_free := (desc_free (vd s))(h := True, m := True, l := True)\<rparr> \<and>
    (\<forall>i. i \<notin> {h, m, l} \<longrightarrow> ds i = desc (vd s) i) \<and> bufs t = bufs s \<and> buf_disk t = buf_disk s \<and> disk t = disk s \<and> disk_trace t = disk_trace s"
proof -
  obtain t0 where t0: "free_desc cur h s = Ret t0" "vd t0 = (set_desc h VNull 0 0 0 (vd s))\<lparr>desc_free := (desc_free (vd s))(h := True)\<rparr>"
    "bufs t0 = bufs s" "buf_disk t0 = buf_disk s" "disk t0 = disk s" "disk_trace t0 = disk_trace s"
    using free_desc_new [of h s cur] c(2) by auto
  obtain t1 where t1: "free_desc cur m t0 = Ret t1" "vd t1 = (set_desc m VNull 0 0 0 (vd t0))\<lparr>desc_free := (desc_free (vd t0))(m := True)\<rparr>"
    "bufs t1 = bufs s" "buf_disk t1 = buf_disk s" "disk t1 = disk s" "disk_trace t1 = disk_trace s"
    using free_desc_new [of m t0 cur] c t0 by (auto simp: set_desc_def)
  obtain t2 where t2: "free_desc cur l t1 = Ret t2" "vd t2 = (set_desc l VNull 0 0 0 (vd t1))\<lparr>desc_free := (desc_free (vd t1))(l := True)\<rparr>"
    "bufs t2 = bufs s" "buf_disk t2 = buf_disk s" "disk t2 = disk s" "disk_trace t2 = disk_trace s"
    using free_desc_new [of l t1 cur] c t0 t1 by (auto simp: set_desc_def)
  have "free_chain cur h s = free_chain cur m t0" using free_chain_next [OF t0(1) f(1)] f(2) by simp
  also have "desc (vd t0) m = desc (vd s) m" using t0(2) c(1) by (simp add: set_desc_def)
  then have "free_chain cur m t0 = free_chain cur l t1" using free_chain_next [OF t1(1)] f(3,4) by simp
  also have "desc (vd t1) l = desc (vd s) l" using t0(2) t1(2) c(1) by (simp add: set_desc_def)
  then have "free_chain cur l t1 = Ret t2" using free_chain_last [OF t2(1)] f(5) by simp
  finally have "free_chain cur h s = Ret t2" .
  moreover have "vd t2 = (vd s)\<lparr>desc := desc (vd t2), desc_free := (desc_free (vd s))(h := True, m := True, l := True)\<rparr>"
    using t0(2) t1(2) t2(2) by (simp add: set_desc_def)
  moreover have "\<forall>i. i \<notin> {h, m, l} \<longrightarrow> desc (vd t2) i = desc (vd s) i" using t0(2) t1(2) t2(2) by (simp add: set_desc_def)
  ultimately show ?thesis using t2(3-6) by blast
qed

text \<open>A process whose request is done gives the descriptors back, and the request is no longer there; one whose request is not done sleeps again.\<close>

lemma finish_spec:
  assumes rel: "vrel s P C D" and r: "r \<in> set D"
  shows "\<exists>t. read_write_finish cur (r_buf r) (r_head r) s = Ret (Waited 0 t) \<and> vrel t P C (remove1 r D) \<and>
    bufs t = bufs s \<and> disk t = disk s \<and> disk_trace t = disk_trace s"
proof -
  note rel' = vrelD [OF rel]
  let ?u = "upd_vd (\<lambda>v. v\<lparr>info := (info v)(r_head r := (info v (r_head r))\<lparr>info_b := None\<rparr>)\<rparr>) s"
  obtain D1 D2 where D: "D = D1 @ r # D2" "r \<notin> set D1" using r by (meson split_list_first)
  then have rem: "remove1 r D = D1 @ D2" by (simp add: remove1_append)
  have used: "set (cells r) \<inter> set (cells q) = {}" if "q \<in> set (P @ C @ D1 @ D2)" for q
    using rel'(3) that unfolding D by auto
  have fr: "formatted r s" using rel'(5) [of r] r by simp
  have nb: "r_buf r \<notin> r_buf ` set (P @ C)" using rel'(6) r by force
  have dist: "distinct [r_head r, r_mid r, r_tail r]" using rel'(3) unfolding D by (simp add: cells_def)
  have cu: "i < NUM \<and> \<not> desc_free (vd ?u) i" if "i \<in> {r_head r, r_mid r, r_tail r}" for i
    using cells_used [OF rel, of r i] r that by (auto simp: cells_def)
  have f: "d_flags (desc (vd ?u) (r_head r)) AND VRING_DESC_F_NEXT \<noteq> 0" "unat (d_next (desc (vd ?u) (r_head r))) = r_mid r"
    "d_flags (desc (vd ?u) (r_mid r)) AND VRING_DESC_F_NEXT \<noteq> 0" "unat (d_next (desc (vd ?u) (r_mid r))) = r_tail r"
    "d_flags (desc (vd ?u) (r_tail r)) AND VRING_DESC_F_NEXT = 0"
    using fr unfolding formatted_def Let_def by simp_all
  obtain t ds where t: "free_chain (Some cur) (r_head r) ?u = Ret t"
    "vd t = (vd ?u)\<lparr>desc := ds, desc_free := (desc_free (vd ?u))(r_head r := True, r_mid r := True, r_tail r := True)\<rparr>"
    "\<And>i. i \<notin> set (cells r) \<Longrightarrow> ds i = desc (vd s) i" "bufs t = bufs s" "buf_disk t = buf_disk s" "disk t = disk s" "disk_trace t = disk_trace s"
    using free_chain_request [OF f dist cu, of "Some cur"] by (auto simp: cells_def)
  have "\<not> buf_disk s (r_buf r)" using rel'(7) [of "r_buf r"] nb by simp
  then have "read_write_finish cur (r_buf r) (r_head r) s = Ret (Waited 0 t)" using t(1) by (simp add: read_write_finish_def)
  moreover have "vrel t P C (D1 @ D2)"
  proof (rule vrelI)
    show "map r_head C = map unat (ring NUM (used_ring (vd t)) (used_idx (vd t)) (dev_used (vd t)))" using rel'(2) t(2) by simp
    show "map r_head P = map unat (ring NUM (avail_ring (vd t)) (dev_avail (vd t)) (avail_idx (vd t)))" using rel'(1) t(2) by simp
    show "distinct (concat (map cells (P @ C @ D1 @ D2)))" using rel'(3) unfolding D by auto
    show "i < NUM \<and> \<not> desc_free (vd t) i \<longleftrightarrow> i \<in> set (concat (map cells (P @ C @ D1 @ D2)))" for i
    proof (cases "i \<in> set (cells r)")
      case True
      then have "desc_free (vd t) i" using t(2) by (auto simp: cells_def)
      moreover have "i \<notin> set (cells q)" if "q \<in> set (P @ C @ D1 @ D2)" for q using used [OF that] True by blast
      then have "i \<notin> set (concat (map cells (P @ C @ D1 @ D2)))" unfolding set_concat set_map by blast
      ultimately show ?thesis by blast
    next
      case False
      then have "i < NUM \<and> \<not> desc_free (vd t) i \<longleftrightarrow> i < NUM \<and> \<not> desc_free (vd s) i" using t(2) by (simp add: cells_def)
      then show ?thesis using rel'(4) [of i] False unfolding D by simp
    qed
    show "formatted q t" if q: "q \<in> set (P @ C @ D1 @ D2)" for q
    proof -
      have "formatted q s" using rel'(5) [of q] q unfolding D by auto
      moreover have "r_head q \<noteq> r_head r" using used [OF q] by (auto simp: cells_def)
      moreover have "ds i = desc (vd s) i" if "i \<in> set (cells q)" for i using used [OF q] t(3) [of i] that by blast
      ultimately show ?thesis using t(2,4) by (subst formatted_cong [of q t s]) simp_all
    qed
    show "distinct (map r_buf (P @ C @ D1 @ D2))" using rel'(6) unfolding D by auto
    show "buf_disk t b \<longleftrightarrow> b \<in> r_buf ` set (P @ C)" for b using rel'(7) [of b] t(5) by simp
    show "info_status (info (vd t) (r_head q)) = 0" if "q \<in> set (C @ D1 @ D2)" for q using rel'(8) [of q] that t(2) unfolding D by auto
    show "i \<in> r_head ` set (P @ C @ D1 @ D2)" if "info_b (info (vd t) i) = Some b" for i b
      using that rel'(9) [of i b] t(2) unfolding D by (auto split: if_splits)
  qed
  ultimately show ?thesis using t(4-7) rem by auto
qed

lemma wait_spec:
  assumes "vrel s P C D" "r \<in> set (P @ C)"
  shows "read_write_finish cur (r_buf r) (r_head r) s = Ret (Sleeps (sleep_on cur (OnDiskBuf (r_buf r)) s))"
    "vrel (sleep_on cur (OnDiskBuf (r_buf r)) s) P C D"
  using assms vrelD(7) [OF assms(1), of "r_buf r"] vrel_cong [of "sleep_on cur (OnDiskBuf (r_buf r)) s" s P C D]
  by (simp_all add: read_write_finish_def)

section \<open>Processes, interrupts and the device together\<close>

text \<open>
  The abstract disk: requests, each a buffer and a direction, that wait in order, that are done, and that the driver has seen to be done.
  A buffer has at most one request at a time, and there are at most two requests, since each takes three of the eight descriptors.
\<close>

datatype disk_event = Ev_submit nat bool | Ev_full | Ev_transfer | Ev_interrupt | Ev_complete nat | Ev_wait nat

type_synonym dspec = "(nat \<times> bool) list \<times> (nat \<times> bool) list \<times> (nat \<times> bool) list"

fun spec_step :: "disk_event \<Rightarrow> dspec \<Rightarrow> dspec option" where
  "spec_step (Ev_submit b w) (P, C, D) =
     (if b \<notin> fst ` set (P @ C @ D) \<and> length (P @ C @ D) < 2 then Some (P @ [(b, w)], C, D) else None)"
| "spec_step Ev_full (P, C, D) = (if 2 \<le> length (P @ C @ D) then Some (P, C, D) else None)"
| "spec_step Ev_transfer (P, C, D) = (case P of [] \<Rightarrow> None | r # P \<Rightarrow> Some (P, C @ [r], D))"
| "spec_step Ev_interrupt (P, C, D) = Some (P, [], D @ C)"
| "spec_step (Ev_complete b) (P, C, D) = (if b \<in> fst ` set D then Some (P, C, filter (\<lambda>r. fst r \<noteq> b) D) else None)"
| "spec_step (Ev_wait b) (P, C, D) = (if b \<in> fst ` set (P @ C) then Some (P, C, D) else None)"

text \<open>
  A step of the driver or of the device. A process asks for a transfer of a buffer for which no request is under way, since it
  holds the buffer's sleep lock; \<open>info\<close> has the buffer from the request to its end.
\<close>

inductive dstep :: "'a kdisk_scheme \<Rightarrow> disk_event \<Rightarrow> 'a kdisk_scheme \<Rightarrow> bool" where
  Submit: "dstep s (Ev_submit b w) t" if "\<And>i. info_b (info (vd s) i) \<noteq> Some b" "read_write_submit cur b w s = Ret (Requested i t)"
| Full: "dstep s Ev_full t" if "\<And>i. info_b (info (vd s) i) \<noteq> Some b" "read_write_submit cur b w s = Ret (No_desc t)"
| Device: "dstep s Ev_transfer t" if "device_step s = Some t"
| Intr: "dstep s Ev_interrupt t" if "virtio_intr_loop cur s = Ret t"
| Complete: "dstep s (Ev_complete b) t" if "info_b (info (vd s) i) = Some b" "read_write_finish cur b i s = Ret (Waited k t)"
| Wait: "dstep s (Ev_wait b) t" if "info_b (info (vd s) i) = Some b" "read_write_finish cur b i s = Ret (Sleeps t)"

inductive_cases dstepE: "dstep s e t"

definition reqs :: "request list \<Rightarrow> (nat \<times> bool) list" where
  "reqs rs = map (\<lambda>r. (r_buf r, r_write r)) rs"

definition stored :: "'a kdisk_scheme \<Rightarrow> (nat \<Rightarrow> buf) \<times> (u32 \<Rightarrow> block) \<times> (u32 \<times> block) list" where
  "stored s = (bufs s, disk s, disk_trace s)"

lemma reqs_simps [simp]: "reqs [] = []" "reqs (r # rs) = (r_buf r, r_write r) # reqs rs" "reqs (rs @ rs') = reqs rs @ reqs rs'"
  "length (reqs rs) = length rs" "fst ` set (reqs rs) = r_buf ` set rs"
  by (auto simp: reqs_def image_image)

lemma reqs_remove:
  "distinct (map r_buf D) \<Longrightarrow> r \<in> set D \<Longrightarrow> reqs (remove1 r D) = filter (\<lambda>q. fst q \<noteq> r_buf r) (reqs D)"
  by (induction D) (auto simp: reqs_def intro!: filter_True [symmetric])

lemma ex3I: "Q x y z \<Longrightarrow> \<exists>x y z. Q x y z"
  by blast

lemma idle_buffer:
  assumes "vrel s P C D" "\<And>i. info_b (info (vd s) i) \<noteq> Some b"
  shows "b \<notin> r_buf ` set (P @ C @ D)"
  using vrelD(5) [OF assms(1)] assms(2) by (auto simp: formatted_def Let_def)

lemma busy_buffer:
  assumes "vrel s P C D" "info_b (info (vd s) i) = Some b"
  shows "\<exists>r \<in> set (P @ C @ D). r_head r = i \<and> r_buf r = b"
proof -
  obtain r where r: "r \<in> set (P @ C @ D)" "i = r_head r" using vrelD(9) [OF assms] by blast
  have "info_b (info (vd s) (r_head r)) = Some (r_buf r)" using vrelD(5) [OF assms(1) r(1)] by (simp add: formatted_def Let_def)
  then show ?thesis using r assms(2) by auto
qed

text \<open>
  C4. The driver, its interrupt handler and the device together are the abstract disk, in whatever order they step. A step that was
  asked for is one that the abstract disk allows, and the relation between descriptors, rings and requests is kept: the requests that wait
  are done one at a time in the order in which they were made, each exactly once and with the block of its own buffer, and
  nothing but a transfer touches the blocks.
\<close>

theorem virtio_refines:
  assumes rel: "vrel s P C D" and step: "dstep s e t" and blk: "\<And>b. unat (blockno (bufs s b)) < 2 ^ 31"
  shows "\<exists>P' C' D'. vrel t P' C' D' \<and> spec_step e (reqs P, reqs C, reqs D) = Some (reqs P', reqs C', reqs D') \<and>
    stored t = (if e = Ev_transfer then stored (transfer (hd (reqs P)) s) else stored s)"
  using step
proof (cases rule: dstep.cases)
  case (Submit b cur w i)
  have "b \<notin> r_buf ` set (P @ C @ D)" by (rule idle_buffer [OF rel Submit(2)])
  then obtain r where "r_buf r = b" "r_write r = w" "vrel t (P @ [r]) C D" "length (P @ C @ D) < 2" "stored t = stored s"
    using submit_spec [OF rel, of b cur w] Submit(3) by (auto simp: stored_def)
  then show ?thesis using Submit(1) \<open>b \<notin> _\<close> by (intro ex3I [of _ "P @ [r]" C D]) (simp add: image_Un)
next
  case (Full b cur w)
  have "b \<notin> r_buf ` set (P @ C @ D)" by (rule idle_buffer [OF rel Full(2)])
  then have "vrel t P C D" "2 \<le> length (P @ C @ D)" "stored t = stored s"
    using submit_spec [OF rel, of b cur w] Full(3) by (auto simp: stored_def)
  then show ?thesis using Full(1) by auto
next
  case Device
  have "P \<noteq> []" using Device(2) vrelD(1) [OF rel] by (auto simp: device_step_def Let_def split: if_splits)
  then obtain r Q where P: "P = r # Q" by (cases P) auto
  then have "vrel t Q (C @ [r]) D" "stored t = stored (transfer (r_buf r, r_write r) s)"
    using device_spec [of s r Q C D] rel blk Device by (auto simp: stored_def perform_def)
  then show ?thesis using Device(1) P by (intro ex3I [of _ Q "C @ [r]" D]) simp
next
  case (Intr cur)
  then have "vrel t P [] (D @ C)" "stored t = stored s" using interrupt_spec [OF rel, of cur] by (auto simp: stored_def)
  then show ?thesis using Intr(1) by (intro ex3I [of _ P "[]" "D @ C"]) simp
next
  case (Complete i b cur k)
  obtain r where r: "r \<in> set (P @ C @ D)" "r_head r = i" "r_buf r = b" using busy_buffer [OF rel Complete(2)] by blast
  have "r \<in> set D" using wait_spec(1) [OF rel, of r cur] Complete(3) r by auto
  then obtain "vrel t P C (remove1 r D)" "stored t = stored s" "r \<in> set D"
    using finish_spec [OF rel \<open>r \<in> set D\<close>, of cur] Complete(3) r by (auto simp: stored_def)
  then show ?thesis using vrelD(6) [OF rel] Complete(1) r(3)
    by (intro ex3I [of _ P C "remove1 r D"]) (auto simp: reqs_remove)
next
  case (Wait i b cur)
  obtain r where r: "r \<in> set (P @ C @ D)" "r_head r = i" "r_buf r = b" using busy_buffer [OF rel Wait(2)] by blast
  have "r \<notin> set D" using finish_spec [OF rel, of r cur] Wait(3) r by auto
  then have "vrel t P C D" "stored t = stored s" "r \<in> set (P @ C)"
    using wait_spec [OF rel, of r cur] Wait(3) r by (auto simp: stored_def)
  then show ?thesis using Wait(1) r(3) by (intro ex3I [of _ P C D]) (auto simp: image_Un)
qed

text \<open>The device, for as many requests as there are.\<close>

primrec device_run :: "nat \<Rightarrow> 'a kdisk_scheme \<Rightarrow> 'a kdisk_scheme option" where
  "device_run 0 s = Some s"
| "device_run (Suc n) s = (case device_step s of None \<Rightarrow> None | Some t \<Rightarrow> device_run n t)"

lemma stored_transfer: "stored s = stored t \<Longrightarrow> stored (transfer r s) = stored (transfer r t)"
  by (simp add: stored_def transfer_def disk_write_def disk_read_def upd_buf_def Let_def)

lemma stored_fold: "stored s = stored t \<Longrightarrow> stored (fold transfer rs s) = stored (fold transfer rs t)"
  by (induction rs arbitrary: s t) (auto dest: stored_transfer)

lemma device_run_spec:
  assumes "vrel s P C D" "\<And>b. unat (blockno (bufs s b)) < 2 ^ 31"
  shows "\<exists>t. device_run (length P) s = Some t \<and> vrel t [] (C @ P) D \<and> stored t = stored (fold transfer (reqs P) s) \<and> processes t = processes s"
  using assms
proof (induction P arbitrary: s C)
  case (Cons r P)
  obtain u where u: "device_step s = Some u" "vrel u P (C @ [r]) D" "stored u = stored (perform r s)" "processes u = processes s"
    using device_spec [OF Cons.prems(1,2)] by (auto simp: stored_def)
  have "unat (blockno (bufs u b)) < 2 ^ 31" for b
    using Cons.prems(2) [of b] u(3)
    by (auto simp: stored_def perform_def transfer_def disk_write_def disk_read_def upd_buf_def Let_def)
  then obtain t where "device_run (length P) u = Some t" "vrel t [] ((C @ [r]) @ P) D" "stored t = stored (fold transfer (reqs P) u)" "processes t = processes u"
    using Cons.IH [OF u(2)] by blast
  then show ?case using u stored_fold [OF u(3), of "reqs P"] by (simp add: perform_def)
qed simp

lemma wake_all_wakes:
  assumes "p < NPROC" "cpu \<noteq> Some p" "b \<in> set bs" "pstate (processes s p) = SLEEPING" "pchan (processes s p) = Some (OnDiskBuf b)"
  shows "pstate (processes (wake_all cpu bs s) p) = RUNNABLE"
proof -
  have stay: "pstate (processes s p) = RUNNABLE \<Longrightarrow> pstate (processes (wake_all cpu bs s) p) = RUNNABLE" for bs and s :: "'a kdisk_scheme"
    by (induction bs arbitrary: s) (simp_all add: wake_all_def wakeup_def Let_def)
  show ?thesis using assms(3-5)
  proof (induction bs arbitrary: s)
    case (Cons c bs)
    show ?case
    proof (cases "c = b")
      case True
      then have "pstate (processes (wakeup cpu (Some (OnDiskBuf c)) s) p) = RUNNABLE" using Cons.prems assms(1,2) by (simp add: wakeup_def Let_def)
      from stay [OF this, of bs] show ?thesis by (simp add: wake_all_def)
    next
      case False
      then have "processes (wakeup cpu (Some (OnDiskBuf c)) s) p = processes s p" using Cons.prems by (auto simp: wakeup_def Let_def)
      then show ?thesis using Cons.IH [of "wakeup cpu (Some (OnDiskBuf c)) s"] Cons.prems False by (simp add: wake_all_def)
    qed
  qed simp
qed

text \<open>
  C12. A transfer that is asked for is done. When there is room for the request, the process goes to sleep with its request made; once the
  device has taken the requests that wait, one interrupt wakes the process, which finds its buffer done, gives the three
  descriptors back and returns. The blocks and buffers are then those that the transfers asked for give, in their order,
  whichever CPU takes the interrupt.
\<close>

theorem read_write_completes:
  assumes rel: "vrel s P C D" and room: "length (P @ C @ D) < 2" and b: "b \<notin> r_buf ` set (P @ C @ D)"
    and blk: "\<And>b. unat (blockno (bufs s b)) < 2 ^ 31" and cur: "cur < NPROC" "cpu \<noteq> Some cur"
  shows "\<exists>i t1 t2 t3 t4. read_write_submit cur b w s = Ret (Requested i t1) \<and> pstate (processes t1 cur) = SLEEPING \<and>
    device_run (Suc (length P)) t1 = Some t2 \<and> virtio_intr_loop cpu t2 = Ret t3 \<and> pstate (processes t3 cur) = RUNNABLE \<and>
    read_write_finish cur b i t3 = Ret (Waited 0 t4) \<and> vrel t4 [] [] (D @ C @ P) \<and>
    stored t4 = stored (fold transfer (reqs P @ [(b, w)]) s)"
proof -
  obtain i t1 r where t1: "read_write_submit cur b w s = Ret (Requested i t1)" and r: "r_head r = i" "r_buf r = b" "r_write r = w"
    and rel1: "vrel t1 (P @ [r]) C D" and st1: "stored t1 = stored s"
    using submit_room [OF rel b room, of cur w] by (auto simp: stored_def)
  have p1: "pstate (processes t1 cur) = SLEEPING" "pchan (processes t1 cur) = Some (OnDiskBuf b)"
    using t1 by (auto simp: read_write_submit_def sleep_on_def upd_proc_def split: option.splits elim!: kbind_RetE)
  obtain t2 where t2: "device_run (length (P @ [r])) t1 = Some t2" "vrel t2 [] (C @ P @ [r]) D"
    "stored t2 = stored (fold transfer (reqs (P @ [r])) t1)" "processes t2 = processes t1"
    using device_run_spec [OF rel1] blk st1 by (auto simp: stored_def)
  obtain t3 where t3: "virtio_intr_loop cpu t2 = Ret t3" "vrel t3 [] [] (D @ C @ P @ [r])" "stored t3 = stored t2"
    "processes t3 = processes (wake_all cpu (map r_buf (C @ P @ [r])) t2)"
    using interrupt_spec [OF t2(2), of cpu] by (auto simp: stored_def)
  have "pstate (processes t3 cur) = RUNNABLE"
    unfolding t3(4) by (rule wake_all_wakes [OF cur]) (use p1 t2(4) r in auto)
  moreover obtain t4 where t4: "read_write_finish cur b i t3 = Ret (Waited 0 t4)" "vrel t4 [] [] (remove1 r (D @ C @ P @ [r]))" "stored t4 = stored t3"
    using finish_spec [OF t3(2), of r cur] r by (auto simp: stored_def)
  moreover have "remove1 r (D @ C @ P @ [r]) = D @ C @ P" using b r(2) by (auto simp: remove1_append)
  moreover have "stored t4 = stored (fold transfer (reqs P @ [(b, w)]) s)"
    using t4(3) t3(3) t2(3) stored_fold [OF st1, of "reqs (P @ [r])"] r by simp
  ultimately show ?thesis using t1 t2(1) t3(1) p1(1) by (auto intro!: exI)
qed

section \<open>The first state\<close>

lemma vrel_fresh:
  assumes "\<And>i. i < NUM \<Longrightarrow> desc_free (vd s) i" "dev_avail (vd s) = avail_idx (vd s)" "used_idx (vd s) = dev_used (vd s)"
    "\<And>i. info_b (info (vd s) i) = None" "\<And>b. \<not> buf_disk s b"
  shows "vrel s [] [] []"
  using assms by (intro vrelI) auto

text \<open>
  With a device that says what it should, and three pages, the driver starts with no request and all descriptors free; the three
  pages are no longer in the pool, and the last write of the handshake says that the driver is ready.
\<close>

lemma virtio_init_ready:
  assumes dev: "negotiate dev = Ret (st, w0)" "dev (w0 @ [(VIRTIO_MMIO_QUEUE_SEL, 0)]) VIRTIO_MMIO_QUEUE_READY = 0"
      "dev (w0 @ [(VIRTIO_MMIO_QUEUE_SEL, 0)]) VIRTIO_MMIO_QUEUE_NUM_MAX \<ge> 8"
    and pages: "Page_Allocator.free_pages kend s (d # a # u # ps)"
    and zero: "used_idx (vd s) = 0" "\<And>i. info_b (info (vd s) i) = None" "\<And>b. \<not> buf_disk s b"
  shows "\<exists>w t. virtio_init dev s = Ret (w, t) \<and> vrel t [] [] [] \<and> Page_Allocator.free_pages kend t ps \<and> last w = (VIRTIO_MMIO_STATUS, st OR VIRTIO_CONFIG_S_DRIVER_OK)"
proof -
  obtain s1 where s1: "page_alloc s = (Some d, s1)" "Page_Allocator.free_pages kend s1 (a # u # ps)"
    using page_alloc_free_pages [OF pages] by (cases "page_alloc s") auto
  obtain s2 where s2: "page_alloc s1 = (Some a, s2)" "Page_Allocator.free_pages kend s2 (u # ps)"
    using page_alloc_free_pages [OF s1(2)] by (cases "page_alloc s1") auto
  obtain s3 where s3: "page_alloc s2 = (Some u, s3)" "Page_Allocator.free_pages kend s3 ps"
    using page_alloc_free_pages [OF s2(2)] by (cases "page_alloc s2") auto
  let ?z = "zero_page u (zero_page a (zero_page d s3))"
  have al: "page_aligned d" "page_aligned a" "page_aligned u"
    using kernel_pages.pool_page [OF pages] by (auto simp: page_ok_def)
  have dis: "d \<notin> set ps" "a \<notin> set ps" "u \<notin> set ps" using free_pages_distinct [OF pages] by auto
  have "Page_Allocator.free_pages kend ?z ps" using s3(2) al dis by (intro free_pages_zero_page)
  then have fp: "Page_Allocator.free_pages kend (upd_vd clear_queue ?z) ps" by (simp add: free_pages_def upd_vd_def)
  have more: "kmem.more ?z = kmem.more s"
    using page_alloc_state [OF s1(1)] page_alloc_state [OF s2(1)] page_alloc_state [OF s3(1)] by simp
  have "vd ?z = vd s" "buf_disk ?z = buf_disk s" using more by (cases s, cases ?z, simp)+
  then have "vrel (upd_vd clear_queue ?z) [] [] []" using zero by (intro vrel_fresh) (simp_all add: clear_queue_def)
  moreover have "dev (w0 @ [(VIRTIO_MMIO_QUEUE_SEL, 0)]) VIRTIO_MMIO_QUEUE_NUM_MAX \<noteq> 0" "\<not> dev (w0 @ [(VIRTIO_MMIO_QUEUE_SEL, 0)]) VIRTIO_MMIO_QUEUE_NUM_MAX < 8"
    using dev(3) by (auto simp: not_less)
  ultimately show ?thesis using dev(1,2) s1(1) s2(1) s3(1) fp by (simp add: virtio_init_def Let_def)
qed

section \<open>A small disk\<close>

definition demo_vdisk :: kdisk where
  "demo_vdisk = kcons.extend (demo_console\<lparr>bufs := (\<lambda>b. (bufs demo_console b)\<lparr>blockno := 7, buf_data := replicate BSIZE 5\<rparr>), disk := (\<lambda>_. replicate BSIZE 0), disk_trace := []\<rparr>)
     (kdisk.fields \<lparr>desc = \<lambda>_. \<lparr>d_addr = VNull, d_len = 0, d_flags = 0, d_next = 0\<rparr>, desc_free = \<lambda>_. True, avail_ring = \<lambda>_. 0, avail_idx = 0xFFFF,
        dev_avail = 0xFFFF, used_ring = \<lambda>_. 0, dev_used = 0xFFFF, used_idx = 0xFFFF, info = \<lambda>_. \<lparr>info_b = None, info_status = 0\<rparr>,
        ops = \<lambda>_. \<lparr>req_type = 0, req_reserved = 0, req_sector = 0\<rparr>\<rparr> (\<lambda>_. False))"

lemma demo_vdisk_fields:
  "blockno (bufs demo_vdisk b) = 7" "buf_data (bufs demo_vdisk b) = replicate BSIZE 5" "disk demo_vdisk = (\<lambda>_. replicate BSIZE 0)" "info_b (info (vd demo_vdisk) i) = None"
  "vrel demo_vdisk [] [] []"
  by (rule vrel_fresh | simp add: demo_vdisk_def kcons.defs kdisk.defs)+

theorem virtio_refines_witness:
  "\<exists>t u. dstep demo_vdisk (Ev_submit 3 True) t \<and> dstep t Ev_transfer u \<and> disk u 7 = replicate BSIZE 5 \<and> (\<exists>C. vrel u [] C [] \<and> reqs C = [(3, True)])"
proof -
  have blk: "unat (blockno (bufs demo_vdisk b)) < 2 ^ 31" for b by (simp add: demo_vdisk_fields)
  obtain i t where t: "read_write_submit 0 3 True demo_vdisk = Ret (Requested i t)"
    using submit_room [OF demo_vdisk_fields(5), of 3 0 True] by auto
  have st: "dstep demo_vdisk (Ev_submit 3 True) t" by (rule Submit [OF _ t]) (simp add: demo_vdisk_fields)
  obtain P C D where r: "vrel t P C D" "reqs P = [(3, True)]" "reqs C = []" "reqs D = []" "stored t = stored demo_vdisk"
    using virtio_refines [OF demo_vdisk_fields(5) st blk] by auto
  then obtain q where P: "P = [q]" "C = []" "D = []" by (auto simp: reqs_def)
  have blk': "unat (blockno (bufs t b)) < 2 ^ 31" for b using r(5) blk by (simp add: stored_def)
  obtain u where u: "device_step t = Some u" using device_spec [of t q "[]" "[]" "[]"] r(1) P blk' by auto
  then have du: "dstep t Ev_transfer u" by (rule Device)
  obtain C' where "vrel u [] C' []" "reqs C' = [(3, True)]" "stored u = stored (transfer (3, True) t)"
    using virtio_refines [OF r(1) du blk'] r(2-4) by (auto simp: reqs_def)
  moreover have "disk (transfer (3, True) t) 7 = replicate BSIZE 5"
    using r(5) by (simp add: stored_def transfer_def disk_write_def Let_def demo_vdisk_fields)
  ultimately have "disk u 7 = replicate BSIZE 5" "\<exists>C. vrel u [] C [] \<and> reqs C = [(3, True)]" by (auto simp: stored_def)
  then show ?thesis using st du by blast
qed

theorem read_write_completes_witness:
  "\<exists>i t1 t2 t3 t4. read_write_submit 0 3 True demo_vdisk = Ret (Requested i t1) \<and> device_run 1 t1 = Some t2 \<and>
     virtio_intr_loop None t2 = Ret t3 \<and> read_write_finish 0 3 i t3 = Ret (Waited 0 t4) \<and> disk t4 7 = replicate BSIZE 5"
proof -
  have "unat (blockno (bufs demo_vdisk b)) < 2 ^ 31" for b by (simp add: demo_vdisk_fields)
  moreover have "disk (transfer (3, True) demo_vdisk) 7 = replicate BSIZE 5"
    by (simp add: transfer_def disk_write_def Let_def demo_vdisk_fields)
  ultimately show ?thesis
    using read_write_completes [OF demo_vdisk_fields(5), of 3 0 None True] by (fastforce simp: stored_def)
qed

end
