(* ===== verification/Spin_Locks.thy ===== *)
theory Spin_Locks
  imports Riscv
begin

text \<open>
  Interrupts, CPUs and spin locks: \<^verbatim>\<open>kernel/cpu_state.h\<close>, \<^verbatim>\<open>kernel/cpu_manager.cpp\<close>, \<^verbatim>\<open>kernel/spin_lock.cpp\<close>,
  \<^verbatim>\<open>kernel/lock_base.h\<close> and the interrupt switches of \<^verbatim>\<open>kernel/interrupt_manager.cpp\<close>. The CPUs
  run in parallel: the code of \<open>acquire\<close> and \<open>release\<close> is cut where another CPU may come between, and the steps of the CPUs interleave
  in every order. A counter of a lock's holder is the number of the CPU, or -1.
\<close>

section \<open>A CPU and its interrupts\<close>

abbreviation (input) SSTATUS_SPP :: u64 where "SSTATUS_SPP \<equiv> 0x100"
abbreviation (input) SSTATUS_SPIE :: u64 where "SSTATUS_SPIE \<equiv> 0x20"
abbreviation (input) SSTATUS_SIE :: u64 where "SSTATUS_SIE \<equiv> 2"

record hart =
  sstatus :: u64
  hart_proc :: "nat option"
  noff :: int
  intena :: bool
  hkintr :: bool

definition intr_on :: "'h hart_scheme \<Rightarrow> 'h hart_scheme" where
  "intr_on h = h\<lparr>sstatus := sstatus h OR SSTATUS_SIE\<rparr>"

definition intr_off :: "'h hart_scheme \<Rightarrow> 'h hart_scheme" where
  "intr_off h = h\<lparr>sstatus := sstatus h AND NOT SSTATUS_SIE\<rparr>"

definition intr_get :: "'h hart_scheme \<Rightarrow> bool" where
  "intr_get h \<longleftrightarrow> sstatus h AND SSTATUS_SIE \<noteq> 0"

definition push_off :: "'h hart_scheme \<Rightarrow> 'h hart_scheme" where
  "push_off h =
     (let old = intr_get h; h = intr_off h; h = (if noff h = 0 then h\<lparr>intena := old\<rparr> else h)
      in h\<lparr>noff := noff h + 1\<rparr>)"

definition pop_off :: "'h hart_scheme \<Rightarrow> 'h hart_scheme res" where
  "pop_off h =
     (if intr_get h then Panic ''pop_off - interruptible''
      else if noff h < 1 then Panic ''pop_off''
      else let h = h\<lparr>noff := noff h - 1\<rparr> in Ret (if noff h = 0 \<and> intena h then intr_on h else h))"

text \<open>The state of a CPU after the constructor of \<open>cpu_manager\<close>, with interrupts off as the boot code leaves them.\<close>

definition cpu_new :: hart where
  "cpu_new = \<lparr>sstatus = 0, hart_proc = None, noff = 0, intena = False, hkintr = False\<rparr>"

lemma intr_get_simps [simp]:
  "intr_get (intr_on h)" "\<not> intr_get (intr_off h)" "intr_get (h\<lparr>noff := n\<rparr>) = intr_get h" "intr_get (h\<lparr>intena := b\<rparr>) = intr_get h"
  by (simp_all add: intr_get_def intr_on_def intr_off_def and.assoc)

lemma intr_fields [simp]:
  "noff (intr_on h) = noff h" "noff (intr_off h) = noff h" "intena (intr_on h) = intena h" "intena (intr_off h) = intena h"
  by (simp_all add: intr_on_def intr_off_def)

section \<open>Locks\<close>

record spin_lock =
  locked :: bool
  lock_cpuid :: int

text \<open>Where the code of a CPU is: outside, or in one of the steps of \<open>acquire\<close> or \<open>release\<close> of a lock.\<close>

datatype control =
    Outside
  | Acq_check nat | Acq_check2 nat | Acq_spin nat | Acq_got nat
  | Rel_check nat | Rel_check2 nat | Rel_free nat | Rel_pop nat

text \<open>
  The machine: its CPUs, its locks, the control point of each CPU, and, as a record of the history, the locks for which a
  CPU's code is between the return of \<open>acquire\<close> and the call of \<open>release\<close>.
\<close>

record machine_locks =
  harts :: "nat \<Rightarrow> hart"
  locks :: "nat \<Rightarrow> spin_lock"
  at :: "nat \<Rightarrow> control"
  inside :: "nat \<Rightarrow> nat set"

definition set_at :: "nat \<Rightarrow> control \<Rightarrow> machine_locks \<Rightarrow> machine_locks" where
  "set_at c p s = s\<lparr>at := (at s)(c := p)\<rparr>"

definition upd_hart :: "nat \<Rightarrow> (hart \<Rightarrow> hart) \<Rightarrow> machine_locks \<Rightarrow> machine_locks" where
  "upd_hart c f s = s\<lparr>harts := (harts s)(c := f (harts s c))\<rparr>"

definition upd_lock :: "nat \<Rightarrow> (spin_lock \<Rightarrow> spin_lock) \<Rightarrow> machine_locks \<Rightarrow> machine_locks" where
  "upd_lock l f s = s\<lparr>locks := (locks s)(l := f (locks s l))\<rparr>"

definition holding :: "nat \<Rightarrow> nat \<Rightarrow> machine_locks \<Rightarrow> bool" where
  "holding c l s \<longleftrightarrow> locked (locks s l) \<and> lock_cpuid (locks s l) = int c"

text \<open>
  \<open>acquire\<close>: \<open>push_off\<close>; the test of \<open>holding\<close>, which reads \<open>locked\<close> and then \<open>cpuid\<close>; the atomic swap, repeated while the lock is
  taken; the store of the CPU's number.
\<close>

fun acquire_step :: "nat \<Rightarrow> control \<Rightarrow> machine_locks \<Rightarrow> machine_locks res" where
  "acquire_step c (Acq_check l) s = Ret (set_at c (if locked (locks s l) then Acq_check2 l else Acq_spin l) s)"
| "acquire_step c (Acq_check2 l) s =
     (if lock_cpuid (locks s l) = int c then Panic ''acquire'' else Ret (set_at c (Acq_spin l) s))"
| "acquire_step c (Acq_spin l) s =
     Ret (if locked (locks s l) then s else set_at c (Acq_got l) (upd_lock l (\<lambda>x. x\<lparr>locked := True\<rparr>) s))"
| "acquire_step c (Acq_got l) s =
     Ret (set_at c Outside (upd_lock l (\<lambda>x. x\<lparr>lock_cpuid := int c\<rparr>) (s\<lparr>inside := (inside s)(c := insert l (inside s c))\<rparr>)))"
| "acquire_step c p s = Blocked"

text \<open>\<open>release\<close>: the test of \<open>holding\<close>; the store of -1; the store that frees the lock; \<open>pop_off\<close>.\<close>

fun release_step :: "nat \<Rightarrow> control \<Rightarrow> machine_locks \<Rightarrow> machine_locks res" where
  "release_step c (Rel_check l) s = (if locked (locks s l) then Ret (set_at c (Rel_check2 l) s) else Panic ''release'')"
| "release_step c (Rel_check2 l) s =
     (if lock_cpuid (locks s l) = int c then Ret (set_at c (Rel_free l) (upd_lock l (\<lambda>x. x\<lparr>lock_cpuid := - 1\<rparr>) s))
      else Panic ''release'')"
| "release_step c (Rel_free l) s = Ret (set_at c (Rel_pop l) (upd_lock l (\<lambda>x. x\<lparr>locked := False\<rparr>) s))"
| "release_step c (Rel_pop l) s = kbind (pop_off (harts s c)) (\<lambda>h. Ret (set_at c Outside (upd_hart c (\<lambda>_. h) s)))"
| "release_step c p s = Blocked"

definition acquire_call :: "nat \<Rightarrow> nat \<Rightarrow> machine_locks \<Rightarrow> machine_locks" where
  "acquire_call c l s = set_at c (Acq_check l) (upd_hart c push_off s)"

definition release_call :: "nat \<Rightarrow> nat \<Rightarrow> machine_locks \<Rightarrow> machine_locks" where
  "release_call c l s = set_at c (Rel_check l) (s\<lparr>inside := (inside s)(c := inside s c - {l})\<rparr>)"

text \<open>
  The steps of the machine. Code calls \<open>release\<close> for a lock it has acquired, and turns interrupts on and off
  where it holds no lock; each CPU does one thing at a time.
\<close>

inductive lstep :: "machine_locks \<Rightarrow> machine_locks \<Rightarrow> bool" where
  Acquire: "c < NCPU \<Longrightarrow> at s c = Outside \<Longrightarrow> lstep s (acquire_call c l s)"
| Acquire_step: "c < NCPU \<Longrightarrow> acquire_step c (at s c) s = Ret t \<Longrightarrow> lstep s t"
| Release: "c < NCPU \<Longrightarrow> at s c = Outside \<Longrightarrow> l \<in> inside s c \<Longrightarrow> lstep s (release_call c l s)"
| Release_step: "c < NCPU \<Longrightarrow> release_step c (at s c) s = Ret t \<Longrightarrow> lstep s t"
| Intr_on: "c < NCPU \<Longrightarrow> at s c = Outside \<Longrightarrow> noff (harts s c) = 0 \<Longrightarrow> lstep s (upd_hart c intr_on s)"
| Intr_off: "c < NCPU \<Longrightarrow> at s c = Outside \<Longrightarrow> noff (harts s c) = 0 \<Longrightarrow> lstep s (upd_hart c intr_off s)"

inductive_cases lstepE: "lstep s t"

definition locks_boot :: machine_locks where
  "locks_boot = \<lparr>harts = \<lambda>_. cpu_new, locks = \<lambda>_. \<lparr>locked = False, lock_cpuid = - 1\<rparr>, at = \<lambda>_. Outside, inside = \<lambda>_. {}\<rparr>"

section \<open>The invariant\<close>

text \<open>A CPU whose number is in the lock, and one that has the lock while its number is not there.\<close>

definition named :: "nat \<Rightarrow> nat \<Rightarrow> machine_locks \<Rightarrow> bool" where
  "named c l s \<longleftrightarrow> l \<in> inside s c \<or> at s c = Rel_check l \<or> at s c = Rel_check2 l"

definition unnamed :: "nat \<Rightarrow> nat \<Rightarrow> machine_locks \<Rightarrow> bool" where
  "unnamed c l s \<longleftrightarrow> at s c = Acq_got l \<or> at s c = Rel_free l"

definition owners_ok :: "machine_locks \<Rightarrow> bool" where
  "owners_ok s \<longleftrightarrow> (\<forall>c l. (lock_cpuid (locks s l) = int c \<longleftrightarrow> named c l s) \<and>
     (unnamed c l s \<longrightarrow> (\<forall>c'. \<not> named c' l s \<and> (unnamed c' l s \<longrightarrow> c' = c))) \<and>
     (at s c \<in> {Acq_spin l, Rel_check l, Rel_check2 l} \<longrightarrow> l \<notin> inside s c)) \<and>
   (\<forall>l. locked (locks s l) \<longleftrightarrow> (\<exists>c. named c l s \<or> unnamed c l s))"

definition hart_ok :: "nat \<Rightarrow> machine_locks \<Rightarrow> bool" where
  "hart_ok c s \<longleftrightarrow> finite (inside s c) \<and> noff (harts s c) = int (card (inside s c)) + (if at s c = Outside then 0 else 1) \<and>
     (0 < noff (harts s c) \<longrightarrow> \<not> intr_get (harts s c))"

lemmas lock_ops = set_at_def upd_hart_def upd_lock_def acquire_call_def release_call_def

lemma owners_boot: "owners_ok locks_boot" "hart_ok c locks_boot"
  by (auto simp: owners_ok_def named_def unnamed_def hart_ok_def locks_boot_def cpu_new_def)

lemma owners_quiet:
  assumes "owners_ok s" "locks t = locks s" "inside t = inside s" "at t = (at s)(c := p)"
    and "\<And>l. named c l t = named c l s" "\<And>l. \<not> unnamed c l s" "\<And>l. \<not> unnamed c l t"
    and "\<And>l. p \<in> {Acq_spin l, Rel_check l, Rel_check2 l} \<Longrightarrow> l \<notin> inside s c"
  shows "owners_ok t"
proof -
  have n: "named c' l t = named c' l s" "unnamed c' l t = unnamed c' l s" for c' l
    using assms by (cases "c' = c"; simp add: named_def unnamed_def)+
  have a: "at t c' \<in> {Acq_spin l, Rel_check l, Rel_check2 l} \<Longrightarrow> l \<notin> inside t c'" for c' l
    using assms(1,3,4,8) by (cases "c' = c") (auto simp: owners_ok_def)
  show ?thesis using assms(1) a unfolding owners_ok_def n assms(2) by blast
qed

lemma named_unique: "owners_ok s \<Longrightarrow> named c l s \<Longrightarrow> named c' l s \<Longrightarrow> c = c'"
  unfolding owners_ok_def by (metis of_nat_eq_iff)

lemma owners_acquire:
  assumes ok: "owners_ok s" and st: "acquire_step c (at s c) s = Ret t"
  shows "owners_ok t"
proof (cases "at s c")
  case (Acq_check l)
  have nu: "\<not> locked (locks s l) \<Longrightarrow> l \<notin> inside s c" using ok by (auto simp: owners_ok_def named_def)
  show ?thesis by (rule owners_quiet [OF ok, where c = c and p = "at t c"]) (use st Acq_check nu in \<open>auto simp: lock_ops named_def unnamed_def split: if_splits\<close>)
next
  case (Acq_check2 l)
  have nu: "lock_cpuid (locks s l) \<noteq> int c \<Longrightarrow> l \<notin> inside s c" using ok by (auto simp: owners_ok_def named_def)
  show ?thesis by (rule owners_quiet [OF ok, where c = c and p = "at t c"]) (use st Acq_check2 nu in \<open>auto simp: lock_ops named_def unnamed_def split: if_splits\<close>)
next
  case (Acq_spin l)
  show ?thesis
  proof (cases "locked (locks s l)")
    case False
    have t: "t = set_at c (Acq_got l) (upd_lock l (\<lambda>x. x\<lparr>locked := True\<rparr>) s)" using st Acq_spin False by simp
    have free: "\<not> named c' l s" "\<not> unnamed c' l s" for c' using ok False by (auto simp: owners_ok_def)
    have n: "named c' k t = named c' k s" "unnamed c' k t = (unnamed c' k s \<or> c' = c \<and> k = l)" for c' k
      using Acq_spin by (cases "c' = c"; auto simp: t lock_ops named_def unnamed_def)+
    show ?thesis using ok free unfolding owners_ok_def n by (auto simp: t lock_ops)
  qed (use st ok Acq_spin in simp)
next
  case (Acq_got l)
  have t: "t = set_at c Outside (upd_lock l (\<lambda>x. x\<lparr>lock_cpuid := int c\<rparr>) (s\<lparr>inside := (inside s)(c := insert l (inside s c))\<rparr>))"
    using st Acq_got by simp
  have mine: "\<not> named c' l s" "unnamed c' l s \<longleftrightarrow> c' = c" for c'
    using ok Acq_got by (auto simp: owners_ok_def unnamed_def)
  have n: "named c' k t = (named c' k s \<or> c' = c \<and> k = l)" "unnamed c' k t = (unnamed c' k s \<and> \<not> (c' = c \<and> k = l))" for c' k
    using Acq_got by (cases "c' = c"; auto simp: t lock_ops named_def unnamed_def)+
  show ?thesis using ok mine unfolding owners_ok_def n by (auto simp: t lock_ops)
qed (use st in auto)

lemma owners_release:
  assumes ok: "owners_ok s" and st: "release_step c (at s c) s = Ret t"
  shows "owners_ok t"
proof (cases "at s c")
  case (Rel_check l)
  then have "l \<notin> inside s c" using ok by (auto simp: owners_ok_def)
  then show ?thesis
    by (intro owners_quiet [OF ok, where c = c and p = "at t c"])
      (use st Rel_check in \<open>auto simp: lock_ops named_def unnamed_def split: if_splits\<close>)
next
  case (Rel_check2 l)
  have t: "t = set_at c (Rel_free l) (upd_lock l (\<lambda>x. x\<lparr>lock_cpuid := - 1\<rparr>) s)" using st Rel_check2 by (auto split: if_splits)
  have here: "l \<notin> inside s c" "named c l s" using ok Rel_check2 by (auto simp: owners_ok_def named_def)
  then have mine: "named c' l s \<longleftrightarrow> c' = c" "\<not> unnamed c' l s" for c'
    using named_unique [OF ok here(2), of c'] ok unfolding owners_ok_def by blast+
  have n: "named c' k t = (named c' k s \<and> \<not> (c' = c \<and> k = l))" "unnamed c' k t = (unnamed c' k s \<or> c' = c \<and> k = l)" for c' k
    using Rel_check2 here(1) by (cases "c' = c"; auto simp: t lock_ops named_def unnamed_def)+
  show ?thesis using ok mine unfolding owners_ok_def n by (auto simp: t lock_ops)
next
  case (Rel_free l)
  have t: "t = set_at c (Rel_pop l) (upd_lock l (\<lambda>x. x\<lparr>locked := False\<rparr>) s)" using st Rel_free by simp
  have mine: "\<not> named c' l s" "unnamed c' l s \<longleftrightarrow> c' = c" for c'
    using ok Rel_free by (auto simp: owners_ok_def unnamed_def)
  have n: "named c' k t = named c' k s" "unnamed c' k t = (unnamed c' k s \<and> \<not> (c' = c \<and> k = l))" for c' k
    using Rel_free by (cases "c' = c"; auto simp: t lock_ops named_def unnamed_def)+
  show ?thesis using ok mine unfolding owners_ok_def n by (auto simp: t lock_ops)
next
  case (Rel_pop l)
  show ?thesis
    by (rule owners_quiet [OF ok, where c = c and p = "at t c"])
      (use st Rel_pop in \<open>auto simp: lock_ops named_def unnamed_def elim!: kbind_RetE\<close>)
qed (use st in auto)

lemma owners_release_call: "owners_ok s \<Longrightarrow> at s c = Outside \<Longrightarrow> l \<in> inside s c \<Longrightarrow> owners_ok (release_call c l s)"
proof -
  assume a: "owners_ok s" "at s c = Outside" "l \<in> inside s c"
  have "named c' k (release_call c l s) = named c' k s" "unnamed c' k (release_call c l s) = unnamed c' k s" for c' k
    using a by (cases "c' = c"; auto simp: lock_ops named_def unnamed_def)+
  then show ?thesis using a(1) by (auto simp: owners_ok_def lock_ops)
qed

lemma owners_step: "lstep s t \<Longrightarrow> owners_ok s \<Longrightarrow> owners_ok t"
proof (induction rule: lstep.induct)
  case (Acquire c s l)
  show ?case by (rule owners_quiet [OF Acquire(3), where c = c and p = "Acq_check l"])
      (use Acquire in \<open>auto simp: lock_ops named_def unnamed_def\<close>)
next
  case (Intr_on c s)
  then show ?case by (auto simp: owners_ok_def named_def unnamed_def lock_ops)
next
  case (Intr_off c s)
  then show ?case by (auto simp: owners_ok_def named_def unnamed_def lock_ops)
qed (auto intro: owners_acquire owners_release owners_release_call)

section \<open>The nesting of interrupt switches\<close>

lemma push_off_facts:
  "noff (push_off h) = noff h + 1" "\<not> intr_get (push_off h)" "intena (push_off h) = (if noff h = 0 then intr_get h else intena h)"
  by (simp_all add: push_off_def Let_def)

lemma pop_off_facts:
  "pop_off h = Ret h' \<Longrightarrow> noff h' = noff h - 1 \<and> (0 < noff h' \<longrightarrow> \<not> intr_get h')"
  by (auto simp: pop_off_def Let_def split: if_splits)

lemma hart_step: "lstep s t \<Longrightarrow> owners_ok s \<Longrightarrow> hart_ok c s \<Longrightarrow> hart_ok c t"
proof (induction rule: lstep.induct)
  case (Acquire d s l)
  then show ?case by (auto simp: hart_ok_def lock_ops push_off_facts)
next
  case (Acquire_step d s t)
  have "\<And>l. at s d = Acq_got l \<Longrightarrow> l \<notin> inside s d" using Acquire_step(3) by (auto simp: owners_ok_def named_def unnamed_def)
  then show ?case using Acquire_step(2,4)
    by (cases "at s d") (auto simp: hart_ok_def lock_ops split: if_splits)
next
  case (Release d s l)
  then have "hart_ok d s \<Longrightarrow> 0 < card (inside s d)" by (auto simp: hart_ok_def card_gt_0_iff)
  then show ?case using Release by (auto simp: hart_ok_def lock_ops card_Diff_singleton_if)
next
  case (Release_step d s t)
  then show ?case
    by (cases "at s d") (auto simp: hart_ok_def lock_ops elim!: kbind_RetE dest: pop_off_facts split: if_splits)
qed (auto simp: hart_ok_def lock_ops)

text \<open>
  A \<open>push_off\<close> and the \<open>pop_off\<close> that matches it leave the CPU as it was, interrupts included; only the note of whether
  they were on is new, and only at the outermost level.
\<close>

lemma push_pop:
  assumes "0 \<le> noff h" "0 < noff h \<Longrightarrow> \<not> intr_get h"
  shows "pop_off (push_off h) = Ret (if noff h = 0 then h\<lparr>intena := intr_get h\<rparr> else h)"
proof -
  have b: "bit SSTATUS_SIE n \<longleftrightarrow> n = 1" for n using bit_exp_iff [of 1 n, where 'a = "64 word"] by auto
  have off: "x AND SSTATUS_SIE = 0 \<longleftrightarrow> \<not> bit x 1" for x :: u64 using and_exp_eq_0_iff_not_bit [of x 1] by simp
  have "x AND NOT SSTATUS_SIE = x" if "x AND SSTATUS_SIE = 0" for x :: u64
    using that unfolding off by (intro bit_word_eqI) (auto simp: bit_simps b)
  moreover have "x AND NOT SSTATUS_SIE OR SSTATUS_SIE = x" if "x AND SSTATUS_SIE \<noteq> 0" for x :: u64
    using that unfolding off by (intro bit_word_eqI) (auto simp: bit_simps b)
  ultimately show ?thesis using assms
    by (cases h) (auto simp: push_off_def pop_off_def Let_def intr_get_def intr_off_def intr_on_def and.assoc)
qed

text \<open>
  C10. Spin locks exclude. In every interleaving of the CPUs, down to single reads and writes of a lock, at most one CPU is between the
  return of \<open>acquire\<close> and the call of \<open>release\<close> for a lock; it is the one that \<open>holding\<close> says holds it, and its interrupts are off. A
  release of a lock that was acquired never panics, neither in its test nor in \<open>pop_off\<close>; \<open>acquire\<close> panics
  exactly when the CPU already has the lock. A CPU that is outside with no lock has undone all its \<open>push_off\<close>s.
\<close>

theorem spin_lock_exclusion:
  assumes "lstep\<^sup>*\<^sup>* locks_boot s"
  shows "(\<forall>c c' l. l \<in> inside s c \<inter> inside s c' \<longrightarrow> c = c') \<and>
    (\<forall>c l. l \<in> inside s c \<longrightarrow> holding c l s \<and> \<not> intr_get (harts s c)) \<and>
    (\<forall>c m. release_step c (at s c) s \<noteq> Panic m) \<and>
    (\<forall>c m. acquire_step c (at s c) s = Panic m \<longleftrightarrow> (\<exists>l. at s c = Acq_check2 l \<and> l \<in> inside s c \<and> m = ''acquire'')) \<and>
    (\<forall>c. at s c = Outside \<and> inside s c = {} \<longrightarrow> noff (harts s c) = 0)"
proof -
  have ok: "owners_ok s \<and> (\<forall>c. hart_ok c s)" using assms
    by (induction rule: rtranclp_induct) (auto simp: owners_boot dest: owners_step hart_step)
  then have o: "owners_ok s" and h: "hart_ok c s" for c by auto
  have in_named: "named c l s" if "l \<in> inside s c" for c l using that by (simp add: named_def)
  have hold: "holding c l s \<longleftrightarrow> named c l s" for c l using o unfolding owners_ok_def holding_def by blast
  have rel: "at s c = Rel_check l \<or> at s c = Rel_check2 l \<Longrightarrow> locked (locks s l) \<and> lock_cpuid (locks s l) = int c" for c l
    using hold [of c l] by (auto simp: holding_def named_def)
  have excl: "c = c'" if "l \<in> inside s c \<inter> inside s c'" for c c' l using that named_unique [OF o] in_named by blast
  have off: "holding c l s \<and> \<not> intr_get (harts s c)" if "l \<in> inside s c" for c l
  proof -
    have "0 < card (inside s c)" using h [of c] that by (auto simp: hart_ok_def card_gt_0_iff)
    then show ?thesis using h [of c] hold in_named [OF that] by (auto simp: hart_ok_def split: if_splits)
  qed
  have no_panic: "release_step c (at s c) s \<noteq> Panic m" for c m
  proof (cases "at s c")
    case (Rel_pop l)
    then have "pop_off (harts s c) \<noteq> Panic x" for x using h [of c] by (auto simp: hart_ok_def pop_off_def Let_def)
    then show ?thesis using Rel_pop by (cases "pop_off (harts s c)") auto
  qed (use rel in auto)
  have cpu: "lock_cpuid (locks s l) = int c \<longleftrightarrow> l \<in> inside s c" if "at s c = Acq_check2 l" for c l
    using o that unfolding owners_ok_def by (simp add: named_def)
  have self: "acquire_step c (at s c) s = Panic m \<longleftrightarrow> (\<exists>l. at s c = Acq_check2 l \<and> l \<in> inside s c \<and> m = ''acquire'')" for c m
    using cpu by (cases "at s c") auto
  have out: "noff (harts s c) = 0" if "at s c = Outside \<and> inside s c = {}" for c using h [of c] that by (simp add: hart_ok_def)
  show ?thesis by (intro conjI allI impI) ((rule no_panic self | erule excl out | drule off, simp)+)
qed

text \<open>CPU 0 has lock 5, and CPU 1 spins for it.\<close>

definition demo_contended :: machine_locks where
  "demo_contended =
     (let h = push_off cpu_new in
      \<lparr>harts = (\<lambda>_. cpu_new)(0 := h, 1 := h), locks = (\<lambda>_. \<lparr>locked = False, lock_cpuid = - 1\<rparr>)(5 := \<lparr>locked = True, lock_cpuid = 0\<rparr>),
       at = (\<lambda>_. Outside)(1 := Acq_spin 5), inside = (\<lambda>_. {})(0 := {5})\<rparr>)"

lemma demo_contended_reached: "lstep\<^sup>*\<^sup>* locks_boot demo_contended"
proof -
  have call: "lstep\<^sup>*\<^sup>* locks_boot (acquire_call c 5 s)" if "lstep\<^sup>*\<^sup>* locks_boot s" "c < NCPU" "at s c = Outside" for c s
    using that by (auto intro: rtranclp.rtrancl_into_rtrancl Acquire)
  have steps: "lstep\<^sup>*\<^sup>* locks_boot t" if "lstep\<^sup>*\<^sup>* locks_boot s" "c < NCPU" "acquire_step c (at s c) s = Ret t" for c s t
    using that by (auto intro: rtranclp.rtrancl_into_rtrancl Acquire_step)
  let ?h = "push_off cpu_new" let ?l = "(\<lambda>_. \<lparr>locked = False, lock_cpuid = - 1\<rparr>) :: nat \<Rightarrow> spin_lock"
  let ?m = "\<lambda>hs ls p q i. \<lparr>harts = (\<lambda>_. cpu_new)(0 := ?h, 1 := hs), locks = ?l(5 := ls), at = (\<lambda>_. Outside)(0 := p, 1 := q), inside = (\<lambda>_. {})(0 := i)\<rparr>"
  have "lstep\<^sup>*\<^sup>* locks_boot (?m cpu_new (?l 5) (Acq_check 5) Outside {})"
    using call [OF rtranclp.rtrancl_refl, of 0] by (simp add: lock_ops locks_boot_def fun_upd_idem fun_upd_twist)
  then have "lstep\<^sup>*\<^sup>* locks_boot (?m cpu_new (?l 5) (Acq_spin 5) Outside {})"
    by (rule steps [of _ 0]) (simp_all add: lock_ops fun_upd_twist)
  then have "lstep\<^sup>*\<^sup>* locks_boot (?m cpu_new \<lparr>locked = True, lock_cpuid = - 1\<rparr> (Acq_got 5) Outside {})"
    by (rule steps [of _ 0]) (simp_all add: lock_ops fun_upd_twist)
  then have "lstep\<^sup>*\<^sup>* locks_boot (?m cpu_new \<lparr>locked = True, lock_cpuid = 0\<rparr> Outside Outside {5})"
    by (rule steps [of _ 0]) (simp_all add: lock_ops fun_upd_twist)
  then have "lstep\<^sup>*\<^sup>* locks_boot (acquire_call 1 5 (?m cpu_new \<lparr>locked = True, lock_cpuid = 0\<rparr> Outside Outside {5}))"
    by (rule call) simp_all
  then have "lstep\<^sup>*\<^sup>* locks_boot (?m ?h \<lparr>locked = True, lock_cpuid = 0\<rparr> Outside (Acq_check 5) {5})"
    by (simp add: lock_ops)
  then have "lstep\<^sup>*\<^sup>* locks_boot (?m ?h \<lparr>locked = True, lock_cpuid = 0\<rparr> Outside (Acq_check2 5) {5})"
    by (rule steps [of _ 1]) (simp_all add: lock_ops)
  then have "lstep\<^sup>*\<^sup>* locks_boot (?m ?h \<lparr>locked = True, lock_cpuid = 0\<rparr> Outside (Acq_spin 5) {5})"
    by (rule steps [of _ 1]) (simp_all add: lock_ops)
  then show ?thesis by (simp add: demo_contended_def Let_def fun_upd_idem)
qed

theorem spin_lock_exclusion_witness:
  "lstep\<^sup>*\<^sup>* locks_boot demo_contended \<and> 5 \<in> inside demo_contended 0 \<and> at demo_contended 1 = Acq_spin 5 \<and>
   holding 0 5 demo_contended \<and> \<not> intr_get (harts demo_contended 0)"
proof -
  have d: "5 \<in> inside demo_contended 0" "at demo_contended 1 = Acq_spin 5" by (simp_all add: demo_contended_def Let_def)
  have "\<forall>c l. l \<in> inside demo_contended c \<longrightarrow> holding c l demo_contended \<and> \<not> intr_get (harts demo_contended c)"
    using spin_lock_exclusion [OF demo_contended_reached] by (elim conjE)
  then show ?thesis using d demo_contended_reached by blast
qed

end
