(* ===== verification/Interrupts.thy ===== *)
theory Interrupts
  imports Virtio Spin_Locks
begin

text \<open>
  Traps: \<^verbatim>\<open>kernel/interrupt_manager.cpp\<close> and the entry to the scheduler in \<^verbatim>\<open>kernel/process_scheduler.cpp\<close>. A trap runs on a CPU, with its control registers, and on
  the state of the kernel. The assembly that saves the user registers in the trapframe and gets them back is not modelled; its addresses, and
  those of the kernel's trap routines, are arguments, as is the number of the device that the interrupt controller reports. A trap that gives up
  the CPU is cut there: the rest runs on whatever CPU and state the process finds when it runs again.
\<close>

unbundle bit_operations_syntax

section \<open>Registers\<close>

abbreviation (input) UART0_IRQ :: u32 where "UART0_IRQ \<equiv> 10"
abbreviation (input) VIRTIO0_IRQ :: u32 where "VIRTIO0_IRQ \<equiv> 1"

definition PLIC_SENABLE :: "nat \<Rightarrow> u64" where
  "PLIC_SENABLE c = PLIC + 0x2080 + of_nat c * 0x100"

definition PLIC_SPRIORITY :: "nat \<Rightarrow> u64" where
  "PLIC_SPRIORITY c = PLIC + 0x201000 + of_nat c * 0x2000"

definition PLIC_SCLAIM :: "nat \<Rightarrow> u64" where
  "PLIC_SCLAIM c = PLIC + 0x201004 + of_nat c * 0x2000"

text \<open>The control registers of a CPU, and the writes to the interrupt controller in their order.\<close>

record cpu_regs = hart +
  sepc :: u64
  scause :: u64
  stvec :: u64
  satp :: u64
  stimecmp :: u64
  mtime :: u64
  plic_writes :: "(u64 \<times> u32) list"

record trap_addrs =
  k_end :: u64
  k_trampoline :: u64
  k_forkret :: u64
  kernelvec :: u64
  usertrap :: u64
  uservec_off :: u64

abbreviation (input) tf_kernel_satp :: u64 where "tf_kernel_satp \<equiv> 0"
abbreviation (input) tf_kernel_sp :: u64 where "tf_kernel_sp \<equiv> 8"
abbreviation (input) tf_kernel_trap :: u64 where "tf_kernel_trap \<equiv> 16"
abbreviation (input) tf_kernel_hartid :: u64 where "tf_kernel_hartid \<equiv> 32"

definition plic_write :: "u64 \<Rightarrow> u32 \<Rightarrow> 'h cpu_regs_scheme \<Rightarrow> 'h cpu_regs_scheme" where
  "plic_write a v h = h\<lparr>plic_writes := plic_writes h @ [(a, v)]\<rparr>"

definition interrupts_init :: "'h cpu_regs_scheme \<Rightarrow> 'h cpu_regs_scheme" where
  "interrupts_init h = plic_write (PLIC + ucast VIRTIO0_IRQ * 4) 1 (plic_write (PLIC + ucast UART0_IRQ * 4) 1 h)"

definition interrupts_inithart :: "trap_addrs \<Rightarrow> nat \<Rightarrow> 'h cpu_regs_scheme \<Rightarrow> 'h cpu_regs_scheme" where
  "interrupts_inithart k c h =
     plic_write (PLIC_SPRIORITY c) 0 (plic_write (PLIC_SENABLE c) (push_bit (unat UART0_IRQ) 1 OR push_bit (unat VIRTIO0_IRQ) 1) (h\<lparr>stvec := kernelvec k\<rparr>))"

definition plic_complete :: "nat \<Rightarrow> u32 \<Rightarrow> 'h cpu_regs_scheme \<Rightarrow> 'h cpu_regs_scheme" where
  "plic_complete c irq h = plic_write (PLIC_SCLAIM c) irq h"

text \<open>The constructor and the destructor of \<open>flag_guard\<close> on the flag of the CPU.\<close>

definition flag_set :: "'h cpu_regs_scheme \<Rightarrow> 'h cpu_regs_scheme res" where
  "flag_set h = (if hkintr h then Panic ''flag_guard: flag is already set!'' else Ret (h\<lparr>hkintr := True\<rparr>))"

definition flag_clear :: "'h cpu_regs_scheme \<Rightarrow> 'h cpu_regs_scheme res" where
  "flag_clear h = (if hkintr h then Ret (h\<lparr>hkintr := False\<rparr>) else Panic ''flag_guard: flag was already cleared!'')"

section \<open>Devices\<close>

text \<open>The whole of the clock interrupt: \<open>clock_tick\<close> on the first CPU, and the time of the next one.\<close>

definition timer_interrupt :: "nat \<Rightarrow> 'h cpu_regs_scheme \<Rightarrow> 'a kdisk_scheme \<Rightarrow> 'h cpu_regs_scheme \<times> 'a kdisk_scheme" where
  "timer_interrupt c h s = (h\<lparr>stimecmp := mtime h + 1000000\<rparr>, if c = 0 then clock_tick (hart_proc h) s else s)"

definition device_interrupt :: "nat \<Rightarrow> u32 \<Rightarrow> 'h cpu_regs_scheme \<Rightarrow> 'a kdisk_scheme \<Rightarrow> (nat \<times> 'h cpu_regs_scheme \<times> 'a kdisk_scheme) res" where
  "device_interrupt c irq h s =
     (if scause h = 0x8000000000000009
      then kbind (if irq = UART0_IRQ then uart_handle_interrupt (hart_proc h) s
                  else if irq = VIRTIO0_IRQ then virtio_intr_loop (hart_proc h) s
                  else Ret s) (\<lambda>s.
             Ret (1, if irq \<noteq> 0 then plic_complete c irq h else h, s))
      else if scause h = 0x8000000000000005
      then let (h, s) = timer_interrupt c h s in Ret (2, h, s)
      else Ret (0, h, s))"

section \<open>Giving up the CPU\<close>

text \<open>
  \<open>sched\<close> up to the switch, and after it; \<open>held\<close> says whether the CPU holds the process's lock.
\<close>

definition sched_enter :: "bool \<Rightarrow> nat \<Rightarrow> 'h cpu_regs_scheme \<Rightarrow> 'a kprocs_scheme \<Rightarrow> bool res" where
  "sched_enter held p h s =
     (if \<not> held then Panic ''sched p->lock''
      else if noff h \<noteq> 1 then Panic ''sched locks''
      else if pstate (processes s p) = RUNNING then Panic ''sched running''
      else if intr_get h then Panic ''sched interruptible''
      else Ret (intena h))"

definition sched_leave :: "bool \<Rightarrow> 'h cpu_regs_scheme \<Rightarrow> 'h cpu_regs_scheme" where
  "sched_leave ena h = h\<lparr>intena := ena\<rparr>"

text \<open>\<open>yield\<close>, with the lock of the process taken by the guard and, in the second part, given back.\<close>

definition yield_enter :: "nat \<Rightarrow> 'h cpu_regs_scheme \<Rightarrow> 'a kprocs_scheme \<Rightarrow> (bool \<times> 'h cpu_regs_scheme \<times> 'a kprocs_scheme) res" where
  "yield_enter p h s =
     (let h = push_off h; s = yield_cpu p s in kbind (sched_enter True p h s) (\<lambda>ena. Ret (ena, h, s)))"

definition yield_leave :: "bool \<Rightarrow> 'h cpu_regs_scheme \<Rightarrow> 'h cpu_regs_scheme res" where
  "yield_leave ena h = pop_off (sched_leave ena h)"

section \<open>A trap in the kernel\<close>

datatype ('h, 's) kernel_trap = KReturns 'h 's | KYields nat bool 'h 's

definition kernel_restore :: "u64 \<Rightarrow> u64 \<Rightarrow> 'h cpu_regs_scheme \<Rightarrow> 'h cpu_regs_scheme" where
  "kernel_restore pc st h = h\<lparr>sepc := pc, sstatus := st\<rparr>"

definition kernel_interrupt ::
  "nat \<Rightarrow> u32 \<Rightarrow> 'h cpu_regs_scheme \<Rightarrow> 'a kdisk_scheme \<Rightarrow> ('h cpu_regs_scheme, 'a kdisk_scheme) kernel_trap res" where
  "kernel_interrupt c irq h s =
     (let pc = sepc h; st = sstatus h in
      kbind (flag_set h) (\<lambda>h.
      if st AND SSTATUS_SPP = 0 then Panic ''kerneltrap: not from supervisor mode''
      else if intr_get h then Panic ''kerneltrap: interrupts enabled''
      else kbind (device_interrupt c irq h s) (\<lambda>(which_dev, h, s).
        if which_dev = 0 then Panic ''kerneltrap''
        else kbind (flag_clear h) (\<lambda>h. case hart_proc h of
            Some p \<Rightarrow> if which_dev = 2 then kbind (yield_enter p h s) (\<lambda>(ena, h, s). Ret (KYields p ena h s))
                      else Ret (KReturns (kernel_restore pc st h) s)
          | None \<Rightarrow> Ret (KReturns (kernel_restore pc st h) s)))))"

definition kernel_interrupt_resume :: "u64 \<Rightarrow> u64 \<Rightarrow> bool \<Rightarrow> 'h cpu_regs_scheme \<Rightarrow> 'h cpu_regs_scheme res" where
  "kernel_interrupt_resume pc st ena h = kbind (yield_leave ena h) (\<lambda>h. Ret (kernel_restore pc st h))"

section \<open>A trap from user code\<close>

definition prepare_return :: "trap_addrs \<Rightarrow> nat \<Rightarrow> nat \<Rightarrow> 'h cpu_regs_scheme \<Rightarrow> 'a kdisk_scheme \<Rightarrow> 'h cpu_regs_scheme \<times> 'a kdisk_scheme" where
  "prepare_return k c p h s =
     (let h = intr_off h; h = h\<lparr>stvec := TRAMPOLINE + uservec_off k\<rparr>;
          s = set_tf p tf_kernel_satp (satp h) s;
          s = set_tf p tf_kernel_sp (kstack (processes s p) + PGSIZE) s;
          s = set_tf p tf_kernel_trap (usertrap k) s;
          s = set_tf p tf_kernel_hartid (of_nat c) s;
          x = sstatus h AND NOT SSTATUS_SPP; x = x OR SSTATUS_SPIE;
          h = h\<lparr>sstatus := x\<rparr>
      in (h\<lparr>sepc := get_tf p tf_epc s\<rparr>, s))"

text \<open>A trap from user code returns to it with the page table to use, exits, sleeps in a system call, or gives up the CPU.\<close>

datatype ('h, 's) user_trap = UReturns u64 'h 's | UExits 's | UAsleep 'h 's | UYields bool 'h 's

definition user_return :: "trap_addrs \<Rightarrow> nat \<Rightarrow> nat \<Rightarrow> 'h cpu_regs_scheme \<Rightarrow> 'a kdisk_scheme \<Rightarrow> ('h cpu_regs_scheme, 'a kdisk_scheme) user_trap" where
  "user_return k c p h s = (let (h, s) = prepare_return k c p h s in UReturns (MAKE_SATP (pagetable (processes s p))) h s)"

definition user_exit :: "nat \<Rightarrow> 'a kdisk_scheme \<Rightarrow> ('h cpu_regs_scheme, 'a kdisk_scheme) user_trap res" where
  "user_exit p s = kbind (proc_exit p (- 1) s) (\<lambda>s. Ret (UExits s))"

text \<open>From the second test of \<open>killed\<close> on; also where a system call that slept ends.\<close>

definition user_interrupt_end ::
  "trap_addrs \<Rightarrow> nat \<Rightarrow> nat \<Rightarrow> nat \<Rightarrow> 'h cpu_regs_scheme \<Rightarrow> 'a kdisk_scheme \<Rightarrow> ('h cpu_regs_scheme, 'a kdisk_scheme) user_trap res" where
  "user_interrupt_end k c p which_dev h s =
     (if get_killed p s then user_exit p s
      else if which_dev = 2 then kbind (yield_enter p h s) (\<lambda>(ena, h, s). Ret (UYields ena h s))
      else Ret (user_return k c p h s))"

definition user_interrupt ::
  "trap_addrs \<Rightarrow> (nat \<Rightarrow> 'a kdisk_scheme device) \<Rightarrow> nat \<Rightarrow> u32 \<Rightarrow> nat \<Rightarrow> 'h cpu_regs_scheme \<Rightarrow> 'a kdisk_scheme \<Rightarrow>
    ('h cpu_regs_scheme, 'a kdisk_scheme) user_trap res" where
  "user_interrupt k devsw c irq p h s =
     (if sstatus h AND SSTATUS_SPP \<noteq> 0 then Panic ''usertrap: not from user mode''
      else let h = h\<lparr>stvec := kernelvec k\<rparr>; s = set_tf p tf_epc (sepc h) s in
        if scause h = 8
        then if get_killed p s then user_exit p s
             else let s = set_tf p tf_epc (get_tf p tf_epc s + 4) s; h = intr_on h in
               kbind (syscall (k_end k) (k_trampoline k) (k_forkret k) devsw p s) (\<lambda>r. case r of
                 Returns v s \<Rightarrow> user_interrupt_end k c p 0 h s
               | Asleep s \<Rightarrow> Ret (UAsleep h s)
               | Exits s \<Rightarrow> Ret (UExits s))
        else kbind (device_interrupt c irq h s) (\<lambda>(which_dev, h, s).
          user_interrupt_end k c p which_dev h (if which_dev = 0 then set_killed p True s else s)))"

definition user_interrupt_resume ::
  "trap_addrs \<Rightarrow> nat \<Rightarrow> nat \<Rightarrow> bool \<Rightarrow> 'h cpu_regs_scheme \<Rightarrow> 'a kdisk_scheme \<Rightarrow> ('h cpu_regs_scheme, 'a kdisk_scheme) user_trap res" where
  "user_interrupt_resume k c p ena h s = kbind (yield_leave ena h) (\<lambda>h. Ret (user_return k c p h s))"

section \<open>The first process\<close>

text \<open>
  \<open>initial_process\<close>; \<open>alloc\<close> returns no process only when memory is exhausted, and using it then would be a fault. \<open>forkret\<close>, where a new process starts, with
  the lock of the process held by the scheduler: the first process reads the file system and executes \<^verbatim>\<open>/init\<close>.
\<close>

definition slash :: "u8 list" where
  "slash = [0x2f]"

definition init_path :: "u8 list" where
  "init_path = map (\<lambda>c. of_nat (of_char c)) ''/init''"

definition initial_process :: "trap_addrs \<Rightarrow> 'a kdisk_scheme \<Rightarrow> 'a kdisk_scheme res" where
  "initial_process k s =
     kbind (proc_alloc (k_end k) (k_trampoline k) (k_forkret k) s) (\<lambda>(p, s). case p of
       None \<Rightarrow> Panic ''null process''
     | Some p \<Rightarrow> let s = s\<lparr>initprocess := Some p\<rparr> in
         kbind (namei p slash s) (\<lambda>(ip, s). Ret (upd_proc p (\<lambda>q. q\<lparr>cwd := ip, pstate := RUNNABLE\<rparr>) s)))"

definition forkret ::
  "trap_addrs \<Rightarrow> nat \<Rightarrow> nat \<Rightarrow> bool \<Rightarrow> 'h cpu_regs_scheme \<Rightarrow> 'a kdisk_scheme \<Rightarrow> (bool \<times> ('h cpu_regs_scheme, 'a kdisk_scheme) user_trap) res" where
  "forkret k c p first h s =
     kbind (pop_off h) (\<lambda>h.
     kbind (if first
            then kbind (fsinit p ROOTDEV s) (\<lambda>s.
                 kbind (proc_exec (k_end k) (k_trampoline k) p init_path [init_path] s) (\<lambda>(r, s).
                   let s = set_tf p (tf_a 0) (word_of_int r) s in
                   if get_tf p (tf_a 0) s = - 1 then Panic ''exec'' else Ret s))
            else Ret s) (\<lambda>s. Ret (False, user_return k c p h s)))"

section \<open>What traps keep\<close>

text \<open>Interrupt handlers leave memory, the disk driver's requests and the parts of a process that the trap code uses as they are.\<close>

definition trap_same :: "'a kdisk_scheme \<Rightarrow> 'a kdisk_scheme \<Rightarrow> bool" where
  "trap_same s t \<longleftrightarrow> ram t = ram s \<and> bufs t = bufs s \<and> disk t = disk s \<and>
     (\<forall>p. trapframe (processes t p) = trapframe (processes s p) \<and> kstack (processes t p) = kstack (processes s p) \<and>
        pagetable (processes t p) = pagetable (processes s p) \<and> killed (processes t p) = killed (processes s p) \<and>
        (pstate (processes t p) \<noteq> pstate (processes s p) \<longrightarrow> pstate (processes s p) = SLEEPING \<and> pstate (processes t p) = RUNNABLE))"

lemma trap_same_refl [simp]: "trap_same s s"
  by (simp add: trap_same_def)

lemma trap_same_trans: "trap_same s t \<Longrightarrow> trap_same t u \<Longrightarrow> trap_same s u"
  by (auto simp: trap_same_def) metis+

lemma trap_same_wakeup: "trap_same s (wakeup cur ch s)"
  by (auto simp: trap_same_def wakeup_def Let_def)

definition dev_inv :: "'a kdisk_scheme \<Rightarrow> bool" where
  "dev_inv s \<longleftrightarrow> cons_ok (cons s) \<and> tx_ok (tx s) \<and> \<not> panicked s \<and> (\<exists>P C D. vrel s P C D)"

text \<open>What the disk driver looks at, for handlers that leave it alone.\<close>

definition vkey :: "'a kdisk_scheme \<Rightarrow> virtio \<times> (nat \<Rightarrow> bool) \<times> (nat \<Rightarrow> buf)" where
  "vkey s = (vd s, buf_disk s, bufs s)"

lemma vkey_vrel: "vkey t = vkey s \<Longrightarrow> vrel t P C D = vrel s P C D"
  by (rule vrel_cong) (auto simp: vkey_def)

lemma vkey_simps [simp]: "vkey (wakeup cur ch s) = vkey s" "vkey (s\<lparr>uart := u\<rparr>) = vkey s" "vkey (s\<lparr>tx := q\<rparr>) = vkey s" "vkey (upd_cons f s) = vkey s"
  "vkey (s\<lparr>ticks := n\<rparr>) = vkey s"
  by (simp_all add: vkey_def upd_cons_def)

lemma trap_same_regs: "trap_same s (s\<lparr>uart := u\<rparr>)" "trap_same s (s\<lparr>tx := q\<rparr>)" "trap_same s (upd_cons f s)" "trap_same s (s\<lparr>ticks := n\<rparr>)"
  by (simp_all add: trap_same_def upd_cons_def)

lemma uartstart_same: "trap_same s (uartstart cur s) \<and> vkey (uartstart cur s) = vkey (s :: 'a kdisk_scheme)"
proof (induction cur s rule: uartstart.induct)
  case (1 cur s)
  let ?t = "(wakeup cur (Some OnUart) (s\<lparr>tx := tx_get (tx s)\<rparr>))\<lparr>uart := write_THR (tx_front (tx s)) (uart s)\<rparr>"
  have "trap_same s ?t" by (rule trap_same_trans [OF trap_same_trans [OF trap_same_regs(2) trap_same_wakeup] trap_same_regs(1)])
  then show ?case using 1 by (subst (1 2) uartstart.simps) (auto simp: Let_def intro: trap_same_trans)
qed

lemma uart_input_same:
  assumes "cons_ok (cons s)" "\<not> panicked s" "uart_input n cur s = Ret t"
  shows "trap_same s t \<and> vkey t = vkey (s :: 'a kdisk_scheme)"
  using assms
proof (induction n arbitrary: s)
  case (Suc n)
  obtain c u where g: "uart_getc (uart s) = (c, u)" by fastforce
  let ?s = "s\<lparr>uart := u\<rparr>"
  show ?case
  proof (cases "c = - 1")
    case True
    then show ?thesis using Suc.prems(3) g trap_same_regs(1) by auto
  next
    case False
    have ok: "cons_ok (cons ?s)" "\<not> panicked ?s" using Suc.prems by simp_all
    obtain q v where i: "console_interrupt cur (word_of_int c) ?s = Ret (let t = upd_cons (\<lambda>_. q) (?s\<lparr>uart := v\<rparr>) in
        if fst (cons_abs q) = fst (cons_abs (cons ?s)) then t else wakeup cur (Some OnConsole) t)" "cons_ok q"
      using console_interrupt_spec [OF ok, of cur "word_of_int c"] by (elim exE conjE) (rule that)
    let ?a = "upd_cons (\<lambda>_. q) (?s\<lparr>uart := v\<rparr>)"
    define x where "x = (if fst (cons_abs q) = fst (cons_abs (cons ?s)) then ?a else wakeup cur (Some OnConsole) ?a)"
    have a: "trap_same s ?a" by (rule trap_same_trans [OF trap_same_trans [OF trap_same_regs(1) trap_same_regs(1)] trap_same_regs(3)])
    have x: "trap_same s x" "vkey x = vkey s" "cons_ok (cons x)" "\<not> panicked x"
      using a trap_same_trans [OF a trap_same_wakeup] i(2) Suc.prems(2) by (auto simp: x_def upd_cons_def wakeup_def vkey_def)
    have "console_interrupt cur (word_of_int c) ?s = Ret x" using i(1) by (simp only: Let_def x_def)
    then have "uart_input n cur x = Ret t" using Suc.prems(3) g False by simp
    from Suc.IH [OF x(3,4) this] show ?thesis using x(2) trap_same_trans [OF x(1)] by auto
  qed
qed simp

lemma uart_interrupt_keeps:
  assumes "dev_inv s"
  shows "\<exists>t. uart_handle_interrupt cur s = Ret t \<and> dev_inv t \<and> trap_same s t"
proof -
  have i: "cons_ok (cons s)" "tx_ok (tx s)" "\<not> panicked s" using assms by (auto simp: dev_inv_def)
  obtain u where u: "uart_input (Suc (length (rx_fifo (uart s)))) cur s = Ret u" "cons_ok (cons u)" "tx u = tx s" "\<not> panicked u"
    using uart_input_edits [OF i(1,3) lessI, of cur] i(3) by auto
  note k = uart_input_same [OF i(1,3) u(1)] uartstart_same [of u cur]
  have "tx_ok (tx (uartstart cur u))" "cons (uartstart cur u) = cons u" "panicked (uartstart cur u) = panicked u"
    using uartstart_sends [of u cur] i(2) u(3) by auto
  moreover have "vrel (uartstart cur u) P C D = vrel s P C D" for P C D using vkey_vrel k by metis
  ultimately have "dev_inv (uartstart cur u)" using assms u(2,4) by (simp add: dev_inv_def)
  then show ?thesis using u(1) k trap_same_trans by (fastforce simp: uart_handle_interrupt_def)
qed

lemma disk_interrupt_keeps:
  assumes "dev_inv s"
  shows "\<exists>t. virtio_intr_loop cur s = Ret t \<and> dev_inv t \<and> trap_same s t"
proof -
  obtain P C D where rel: "vrel s P C D" using assms by (auto simp: dev_inv_def)
  have keep: "virtio_intr_loop cur s = Ret t \<Longrightarrow> trap_same s t \<and> cons t = cons s \<and> tx t = tx s \<and> panicked t = panicked s" for t
  proof (induction cur s rule: virtio_intr_loop.induct)
    case (1 cur s)
    show ?case
    proof (cases "used_idx (vd s) = dev_used (vd s)")
      case True
      then show ?thesis using 1 by (simp add: virtio_intr_loop.simps [of cur s])
    next
      case False
      let ?i = "unat (used_ring (vd s) (unat (used_idx (vd s)) mod NUM))"
      obtain b where b: "info_status (info (vd s) ?i) = 0" "info_b (info (vd s) ?i) = Some b"
        using "1.prems" False by (auto simp: virtio_intr_loop.simps [of cur s] Let_def split: if_splits option.splits)
      let ?u = "wakeup cur (Some (OnDiskBuf b)) (s\<lparr>buf_disk := (buf_disk s)(b := False)\<rparr>)"
      let ?t = "upd_vd (\<lambda>v. v\<lparr>used_idx := used_idx v + 1\<rparr>) ?u"
      have "trap_same s (s\<lparr>buf_disk := (buf_disk s)(b := False)\<rparr>)" by (simp add: trap_same_def)
      then have "trap_same s ?u" using trap_same_trans trap_same_wakeup by blast
      moreover have "trap_same ?u ?t" by (simp add: trap_same_def upd_vd_def)
      ultimately have st: "trap_same s ?t" by (rule trap_same_trans)
      have go: "virtio_intr_loop cur ?t = Ret t" using "1.prems" False b by (simp add: virtio_intr_loop.simps [of cur s] Let_def)
      have "trap_same ?t t \<and> cons t = cons ?t \<and> tx t = tx ?t \<and> panicked t = panicked ?t"
        by (rule "1.IH" [OF False refl _ b(2) refl go]) (simp add: b(1))
      then show ?thesis using st trap_same_trans [OF st] by (auto simp: upd_vd_def wakeup_def)
    qed
  qed
  obtain t where t: "virtio_intr_loop cur s = Ret t" "vrel t P [] (D @ C)" using interrupt_spec [OF rel, of cur] by blast
  then show ?thesis using keep [OF t(1)] assms by (auto simp: dev_inv_def)
qed

text \<open>The handler for devices and the clock returns, and leaves the registers that the trap code needs alone.\<close>

definition regs_same :: "'h cpu_regs_scheme \<Rightarrow> 'h cpu_regs_scheme \<Rightarrow> bool" where
  "regs_same h h' \<longleftrightarrow> sstatus h' = sstatus h \<and> hart_proc h' = hart_proc h \<and> noff h' = noff h \<and> intena h' = intena h \<and> hkintr h' = hkintr h \<and>
     sepc h' = sepc h \<and> stvec h' = stvec h \<and> satp h' = satp h"

definition known_cause :: "u64 \<Rightarrow> bool" where
  "known_cause c \<longleftrightarrow> c = 0x8000000000000009 \<or> c = 0x8000000000000005"

lemma device_interrupt_spec:
  assumes "dev_inv s"
  shows "\<exists>w h' t. device_interrupt c irq h s = Ret (w, h', t) \<and> dev_inv t \<and> trap_same s t \<and> regs_same h h' \<and>
    w = (if scause h = 0x8000000000000009 then 1 else if scause h = 0x8000000000000005 then 2 else 0)"
proof -
  consider "scause h = 0x8000000000000009" | "scause h = 0x8000000000000005" | "\<not> known_cause (scause h)" by (auto simp: known_cause_def)
  then show ?thesis
  proof cases
    case 1
    obtain t where t: "(if irq = UART0_IRQ then uart_handle_interrupt (hart_proc h) s
        else if irq = VIRTIO0_IRQ then virtio_intr_loop (hart_proc h) s else Ret s) = Ret t" "dev_inv t" "trap_same s t"
      using uart_interrupt_keeps [OF assms] disk_interrupt_keeps [OF assms] assms by (cases "irq = UART0_IRQ"; cases "irq = VIRTIO0_IRQ") auto
    then show ?thesis using 1 by (simp add: device_interrupt_def regs_same_def plic_complete_def plic_write_def)
  next
    case 2
    let ?t = "if c = 0 then clock_tick (hart_proc h) s else s"
    have tick: "trap_same s (clock_tick (hart_proc h) s)" unfolding clock_tick_def by (rule trap_same_trans [OF trap_same_regs(4) trap_same_wakeup])
    have "vkey ?t = vkey s" by (simp add: clock_tick_def)
    then have "vrel ?t P C D = vrel s P C D" for P C D by (rule vkey_vrel)
    moreover have "cons ?t = cons s" "tx ?t = tx s" "panicked ?t = panicked s" by (simp_all add: clock_tick_def wakeup_def)
    ultimately have "dev_inv ?t" using assms by (simp add: dev_inv_def)
    then show ?thesis using 2 tick by (auto simp: device_interrupt_def timer_interrupt_def regs_same_def)
  next
    case 3
    then show ?thesis using assms by (auto simp: device_interrupt_def known_cause_def regs_same_def)
  qed
qed

section \<open>Interrupts in the kernel\<close>

lemma push_off_spec: "noff h = 0 \<Longrightarrow> noff (push_off h) = 1 \<and> \<not> intr_get (push_off h) \<and> hkintr (push_off h) = hkintr h"
  by (simp add: push_off_def Let_def intr_off_def intr_get_def and.assoc)

lemma yield_enter_spec:
  assumes "noff h = 0"
  shows "yield_enter p h s = Ret (intena (push_off h), push_off h, yield_cpu p s)"
  using push_off_spec [OF assms] by (simp add: yield_enter_def sched_enter_def Let_def yield_cpu_def upd_proc_def)

lemma yield_leave_spec:
  assumes "noff h = 1" "\<not> intr_get h"
  shows "\<exists>h'. yield_leave ena h = Ret h' \<and> noff h' = 0 \<and> hkintr h' = hkintr h \<and> satp h' = satp h \<and> hart_proc h' = hart_proc h"
  using assms by (simp add: yield_leave_def sched_leave_def pop_off_def Let_def intr_get_def intr_on_def)

lemma yield_dev_inv: "dev_inv s \<Longrightarrow> dev_inv (yield_cpu p s)"
proof -
  have "vkey (yield_cpu p s) = vkey s" by (simp add: vkey_def yield_cpu_def upd_proc_def)
  then have "vrel (yield_cpu p s) P C D = vrel s P C D" for P C D by (rule vkey_vrel)
  then show "dev_inv s \<Longrightarrow> dev_inv (yield_cpu p s)" by (simp add: dev_inv_def yield_cpu_def upd_proc_def)
qed

text \<open>
  C8. An interrupt is not seen by the kernel code it interrupts. From supervisor mode with interrupts off, as the hardware leaves them, and outside another such
  trap, an interrupt of a device or of the clock never panics. It returns to the instruction that was interrupted with the status that
  was saved, with the flag of the CPU clear and memory and blocks untouched, at most sleeping processes having become runnable; or, on the clock, the
  process is made runnable and gives up the CPU, and on whatever CPU the scheduler runs it again it returns with the same
  instruction and status.
\<close>

theorem kernel_interrupt_transparent:
  assumes inv: "dev_inv s" and cause: "known_cause (scause h)"
    and hw: "sstatus h AND SSTATUS_SPP \<noteq> 0" "\<not> intr_get h" "noff h = 0" "\<not> hkintr h"
  shows "\<exists>r. kernel_interrupt c irq h s = Ret r \<and> (case r of
      KReturns h' t \<Rightarrow> sepc h' = sepc h \<and> sstatus h' = sstatus h \<and> noff h' = 0 \<and> \<not> hkintr h' \<and> dev_inv t \<and> trap_same s t
    | KYields p ena h' t \<Rightarrow> hart_proc h = Some p \<and> noff h' = 1 \<and> \<not> intr_get h' \<and> \<not> hkintr h' \<and> dev_inv t \<and>
        (\<exists>u. trap_same s u \<and> t = yield_cpu p u) \<and>
        (\<forall>g. noff g = 1 \<longrightarrow> \<not> intr_get g \<longrightarrow> (\<exists>g'. kernel_interrupt_resume (sepc h) (sstatus h) ena g = Ret g' \<and>
           sepc g' = sepc h \<and> sstatus g' = sstatus h \<and> noff g' = 0)))"
proof -
  let ?h = "h\<lparr>hkintr := True\<rparr>"
  obtain w h1 t where d: "device_interrupt c irq ?h s = Ret (w, h1, t)" "dev_inv t" "trap_same s t" "regs_same ?h h1" "w \<noteq> 0"
    using device_interrupt_spec [OF inv, of c irq ?h] cause by (auto simp: known_cause_def)
  let ?h2 = "h1\<lparr>hkintr := False\<rparr>"
  have f: "flag_set h = Ret ?h" "flag_clear h1 = Ret ?h2" "\<not> intr_get ?h" "noff ?h2 = 0" "hart_proc ?h2 = hart_proc h"
    using hw d(4) by (auto simp: flag_set_def flag_clear_def regs_same_def intr_get_def)
  show ?thesis
  proof (cases "w = 2 \<and> hart_proc h \<noteq> None")
    case True
    then obtain p where p: "hart_proc h = Some p" by auto
    have "kernel_interrupt c irq h s = Ret (KYields p (intena (push_off ?h2)) (push_off ?h2) (yield_cpu p t))"
      using True p f d(1) hw(1) yield_enter_spec [OF f(4), of p t] by (simp add: kernel_interrupt_def Let_def)
    moreover have "\<exists>g'. kernel_interrupt_resume (sepc h) (sstatus h) ena g = Ret g' \<and> sepc g' = sepc h \<and> sstatus g' = sstatus h \<and> noff g' = 0"
      if "noff g = 1" "\<not> intr_get g" for g :: "'c cpu_regs_scheme" and ena
      using yield_leave_spec [OF that, of ena] by (auto simp: kernel_interrupt_resume_def kernel_restore_def)
    ultimately show ?thesis using p d(2,3) yield_dev_inv push_off_spec [OF f(4)] by auto
  next
    case False
    have "kernel_interrupt c irq h s = Ret (KReturns (kernel_restore (sepc h) (sstatus h) ?h2) t)"
      using False f d(1,5) hw(1) by (auto simp: kernel_interrupt_def Let_def split: option.splits)
    then show ?thesis using d(2,3) f(4) by (simp add: kernel_restore_def)
  qed
qed

section \<open>Traps from user code\<close>

lemma disjoint_offsets: "disjoint_blocks (a + x) n (a + y) k \<longleftrightarrow> disjoint_blocks x n y k"
proof -
  have "z - (a + x) = (z - a) - x" for z x :: u64 by simp
  then show ?thesis unfolding disjoint_blocks_def by (metis add_diff_cancel_left')
qed

text \<open>The words of a trapframe do not overlap.\<close>

lemma get_set_tf:
  "get_tf p x (set_tf p x v s) = v"
  "disjoint_blocks x 8 y 8 \<Longrightarrow> get_tf p x (set_tf p y v s) = get_tf p x s"
  by (simp_all add: get_tf_def set_tf_def load64_store64_other disjoint_offsets)

lemma tf_words:
  "disjoint_blocks 24 8 0 8" "disjoint_blocks 24 8 8 8" "disjoint_blocks 24 8 16 8" "disjoint_blocks 24 8 32 8"
proof -
  show "disjoint_blocks 24 8 32 8" by (rule disjoint_blocksI) simp_all
qed (rule disjoint_sym, rule disjoint_blocksI; simp)+

lemma tf_user_words:
  assumes "40 \<le> unat r" "unat r \<le> 280"
  shows "disjoint_blocks r 8 0 8" "disjoint_blocks r 8 8 8" "disjoint_blocks r 8 16 8" "disjoint_blocks r 8 24 8" "disjoint_blocks r 8 32 8"
  by (rule disjoint_sym, rule disjoint_blocksI; use assms in simp)+

lemma set_tf_simps [simp]: "processes (set_tf p r v s) = processes s" "vkey (set_tf p r v s) = vkey s" "get_killed q (set_tf p r v s) = get_killed q s"
  by (simp_all add: set_tf_def vkey_def get_killed_def)

text \<open>What the return to user code leaves in the registers and in the trapframe.\<close>

definition user_mode :: "trap_addrs \<Rightarrow> 'h cpu_regs_scheme \<Rightarrow> bool" where
  "user_mode k h \<longleftrightarrow> sstatus h AND SSTATUS_SPP = 0 \<and> sstatus h AND SSTATUS_SPIE \<noteq> 0 \<and> \<not> intr_get h \<and> stvec h = TRAMPOLINE + uservec_off k"

lemma status_bits:
  fixes x :: u64
  defines "y \<equiv> (x AND NOT SSTATUS_SIE) AND NOT SSTATUS_SPP OR SSTATUS_SPIE"
  shows "y AND SSTATUS_SPP = 0" "y AND SSTATUS_SPIE \<noteq> 0" "y AND SSTATUS_SIE = 0"
proof -
  have "(z OR SSTATUS_SPIE) AND SSTATUS_SPP = z AND SSTATUS_SPP" "(z OR SSTATUS_SPIE) AND SSTATUS_SIE = z AND SSTATUS_SIE" for z :: u64
    by (simp_all add: bit.conj_disj_distrib2)
  moreover have "(z OR SSTATUS_SPIE) AND SSTATUS_SPIE = SSTATUS_SPIE" for z :: u64 by (auto simp: bit_eq_iff bit_simps)
  ultimately have a: "(z OR SSTATUS_SPIE) AND SSTATUS_SPP = z AND SSTATUS_SPP" "(z OR SSTATUS_SPIE) AND SSTATUS_SIE = z AND SSTATUS_SIE"
    "(z OR SSTATUS_SPIE) AND SSTATUS_SPIE = SSTATUS_SPIE" for z :: u64 by blast+
  show "y AND SSTATUS_SPP = 0" "y AND SSTATUS_SPIE \<noteq> 0" "y AND SSTATUS_SIE = 0"
    unfolding y_def a by (simp_all add: and.assoc)
qed

lemma user_return_spec:
  "\<exists>h' t. user_return k c p h s = UReturns (MAKE_SATP (pagetable (processes s p))) h' t \<and> user_mode k h' \<and> sepc h' = get_tf p tf_epc s \<and>
    processes t = processes s \<and> get_tf p tf_kernel_satp t = satp h \<and> get_tf p tf_kernel_trap t = usertrap k \<and> get_tf p tf_kernel_hartid t = of_nat c \<and>
    (\<forall>r. 40 \<le> unat r \<and> unat r \<le> 280 \<longrightarrow> get_tf p r t = get_tf p r s)"
proof -
  obtain h' t where e: "prepare_return k c p h s = (h', t)" by fastforce
  have p: "processes t = processes s" and ep: "sepc h' = get_tf p tf_epc t" "get_tf p tf_epc t = get_tf p tf_epc s"
    using e by (auto simp: prepare_return_def Let_def get_set_tf(2) tf_words)
  have "user_mode k h'" using e status_bits [of "sstatus h"] by (auto simp: prepare_return_def Let_def user_mode_def intr_get_def intr_off_def)
  moreover have "disjoint_blocks 0 8 8 8" "disjoint_blocks 0 8 16 8" "disjoint_blocks 0 8 32 8" "disjoint_blocks 16 8 32 8"
    by (rule disjoint_blocksI; simp)+
  then have "get_tf p tf_kernel_satp t = satp h \<and> get_tf p tf_kernel_trap t = usertrap k \<and> get_tf p tf_kernel_hartid t = of_nat c"
    using e by (auto simp: prepare_return_def Let_def get_set_tf intr_off_def)
  moreover have "get_tf p r t = get_tf p r s" if "40 \<le> unat r" "unat r \<le> 280" for r
    using e by (auto simp: prepare_return_def Let_def get_set_tf(2) tf_user_words [OF that])
  ultimately show ?thesis using p ep e by (auto simp: user_return_def)
qed

lemma set_tf_dev_inv: "dev_inv s \<Longrightarrow> dev_inv (set_tf p r v s)"
proof -
  have "vrel (set_tf p r v s) P C D = vrel s P C D" for P C D by (rule vkey_vrel) simp
  then show "dev_inv s \<Longrightarrow> dev_inv (set_tf p r v s)" by (simp add: dev_inv_def set_tf_def)
qed

text \<open>The user program goes on where it was, with the registers it had.\<close>

definition back_in_user :: "trap_addrs \<Rightarrow> nat \<Rightarrow> 'h cpu_regs_scheme \<Rightarrow> 'a kdisk_scheme \<Rightarrow> u64 \<Rightarrow> 'h cpu_regs_scheme \<Rightarrow> 'a kdisk_scheme \<Rightarrow> bool" where
  "back_in_user k p h s sp h' t \<longleftrightarrow> sp = MAKE_SATP (pagetable (processes s p)) \<and> user_mode k h' \<and> sepc h' = sepc h \<and>
     (\<forall>r. 40 \<le> unat r \<and> unat r \<le> 280 \<longrightarrow> get_tf p r t = get_tf p r s)"

lemma get_tf_cong: "ram t = ram s \<Longrightarrow> trapframe (processes t p) = trapframe (processes s p) \<Longrightarrow> get_tf p r t = get_tf p r s"
  by (simp add: get_tf_def)

text \<open>
  C7. An interrupt is not seen by the user program it interrupts. A device or clock interrupt of a process that has not been killed never panics; it returns to the
  user with the process's page table, in user mode with interrupts on after the return and traps going to the trampoline, at the instruction that was interrupted,
  and every user register in the trapframe is what it was. On the clock the process first gives up the CPU, runnable, and all
  this holds when it runs again on whatever CPU, provided its memory is then as it left it.
\<close>

theorem user_interrupt_transparent:
  assumes inv: "dev_inv s" and cause: "known_cause (scause h)" and hw: "sstatus h AND SSTATUS_SPP = 0" "noff h = 0" and live: "\<not> killed (processes s p)"
  shows "\<exists>x. user_interrupt k devsw c irq p h s = Ret x \<and> (case x of
      UReturns sp h' t \<Rightarrow> back_in_user k p h s sp h' t
    | UYields ena h' t \<Rightarrow> pstate (processes t p) = RUNNABLE \<and> noff h' = 1 \<and> \<not> intr_get h' \<and>
        (\<forall>c' g u. noff g = 1 \<and> \<not> intr_get g \<and> ram u = ram t \<and> trapframe (processes u p) = trapframe (processes t p) \<and> pagetable (processes u p) = pagetable (processes t p)
          \<longrightarrow> (\<exists>sp g' v. user_interrupt_resume k c' p ena g u = Ret (UReturns sp g' v) \<and> back_in_user k p h s sp g' v))
    | _ \<Rightarrow> False)"
proof -
  let ?h = "h\<lparr>stvec := kernelvec k\<rparr>" let ?s = "set_tf p tf_epc (sepc h) s"
  obtain w h1 t where d: "device_interrupt c irq ?h ?s = Ret (w, h1, t)" "trap_same ?s t" "regs_same ?h h1" "w \<noteq> 0"
    using device_interrupt_spec [OF set_tf_dev_inv [OF inv], of c irq ?h p tf_epc "sepc h"] cause by (auto simp: known_cause_def)
  have tf: "get_tf p tf_epc t = sepc h" "40 \<le> unat r \<Longrightarrow> unat r \<le> 280 \<Longrightarrow> get_tf p r t = get_tf p r s" for r
    using d(2) get_tf_cong [of t ?s p] get_set_tf(1) [of p tf_epc "sepc h" s] get_set_tf(2) [OF tf_user_words(4), of r p "sepc h" s] by (auto simp: trap_same_def)
  have pt: "pagetable (processes t p) = pagetable (processes s p)" "\<not> get_killed p t" using d(2) live by (auto simp: trap_same_def get_killed_def)
  have u: "user_interrupt k devsw c irq p h s = user_interrupt_end k c p w h1 t"
    using d(1,4) hw(1) cause by (auto simp: user_interrupt_def Let_def known_cause_def)
  have ret: "\<exists>sp g' v. user_return k c' p g u = UReturns sp g' v \<and> back_in_user k p h s sp g' v"
    if "ram u = ram t" "trapframe (processes u p) = trapframe (processes t p)" "pagetable (processes u p) = pagetable (processes t p)" for c' g u
    using user_return_spec [of k c' p g u] get_tf_cong [OF that(1,2)] that(3) tf pt(1) by (auto simp: back_in_user_def)
  show ?thesis
  proof (cases "w = 2")
    case True
    have n: "noff h1 = 0" using d(3) hw(2) by (simp add: regs_same_def)
    let ?t = "yield_cpu p t"
    have y: "ram ?t = ram t" "trapframe (processes ?t p) = trapframe (processes t p)" "pagetable (processes ?t p) = pagetable (processes t p)"
      "pstate (processes ?t p) = RUNNABLE" by (simp_all add: yield_cpu_def upd_proc_def)
    have "user_interrupt k devsw c irq p h s = Ret (UYields (intena (push_off h1)) (push_off h1) ?t)"
      using u True pt(2) yield_enter_spec [OF n, of p t] by (simp add: user_interrupt_end_def)
    moreover have "\<exists>sp g' v. user_interrupt_resume k c' p ena g u = Ret (UReturns sp g' v) \<and> back_in_user k p h s sp g' v"
      if g: "noff g = 1" "\<not> intr_get g" and u: "ram u = ram ?t" "trapframe (processes u p) = trapframe (processes ?t p)" "pagetable (processes u p) = pagetable (processes ?t p)" for c' ena g u
      using yield_leave_spec [OF g, of ena] ret [OF u [unfolded y]] by (fastforce simp: user_interrupt_resume_def)
    ultimately show ?thesis using y(4) push_off_spec [OF n] by auto
  next
    case False
    then show ?thesis using u pt(2) ret [of t c h1] by (auto simp: user_interrupt_end_def)
  qed
qed

section \<open>Examples\<close>

definition demo_cpu :: "u64 \<Rightarrow> u64 \<Rightarrow> cpu_regs" where
  "demo_cpu st cause = \<lparr>sstatus = st, hart_proc = Some 0, noff = 0, intena = True, hkintr = False, sepc = 0x1004, scause = cause, stvec = 0, satp = 0,
     stimecmp = 0, mtime = 5, plic_writes = []\<rparr>"

definition demo_addrs :: trap_addrs where
  "demo_addrs = \<lparr>k_end = 0x80021000, k_trampoline = 0x80007000, k_forkret = 0x80001000, kernelvec = 0x80006000, usertrap = 0x80002000, uservec_off = 0\<rparr>"

lemma demo_dev_inv: "dev_inv demo_vdisk" "\<not> killed (processes demo_vdisk 0)"
proof -
  have e: "cons demo_vdisk = cons demo_console" "tx demo_vdisk = tx demo_console" "panicked demo_vdisk = panicked demo_console" "processes demo_vdisk = processes demo_console"
    by (simp_all add: demo_vdisk_def kcons.defs kdisk.defs)
  show "dev_inv demo_vdisk" unfolding dev_inv_def e using demo_console_ok demo_console_fields(3) demo_vdisk_fields(5) by auto
  show "\<not> killed (processes demo_vdisk 0)" unfolding e by (simp add: demo_console_def demo_files_def demo_pipes_def demo_proc_def kfs.defs kpipes.defs kfiles.defs kcons.defs)
qed

theorem kernel_interrupt_transparent_witness:
  "\<exists>r. kernel_interrupt 0 0 (demo_cpu 0x100 0x8000000000000005) demo_vdisk = Ret r \<and>
     (case r of KReturns h' t \<Rightarrow> sepc h' = 0x1004 | KYields p ena h' t \<Rightarrow> p = 0 \<and> noff h' = 1)"
proof -
  have "known_cause (scause (demo_cpu 0x100 0x8000000000000005))" "sstatus (demo_cpu 0x100 0x8000000000000005) AND SSTATUS_SPP \<noteq> 0"
    "\<not> intr_get (demo_cpu 0x100 0x8000000000000005)" "noff (demo_cpu 0x100 0x8000000000000005) = 0" "\<not> hkintr (demo_cpu 0x100 0x8000000000000005)"
    by (simp_all add: demo_cpu_def known_cause_def intr_get_def)
  from kernel_interrupt_transparent [OF demo_dev_inv(1) this, of 0 0] show ?thesis
    apply (elim exE conjE)
    subgoal for r by (intro exI [of _ r] conjI) (assumption, cases r, simp_all add: demo_cpu_def)
    done
qed

theorem user_interrupt_transparent_witness:
  "\<exists>x. user_interrupt demo_addrs (console_devsw 0) 0 1 0 (demo_cpu 0 0x8000000000000009) demo_vdisk = Ret x \<and>
     (case x of UReturns sp h' t \<Rightarrow> sepc h' = 0x1004 | UYields ena h' t \<Rightarrow> pstate (processes t 0) = RUNNABLE | _ \<Rightarrow> False)"
proof -
  have "known_cause (scause (demo_cpu 0 0x8000000000000009))" "sstatus (demo_cpu 0 0x8000000000000009) AND SSTATUS_SPP = 0" "noff (demo_cpu 0 0x8000000000000009) = 0"
    by (simp_all add: demo_cpu_def known_cause_def)
  from user_interrupt_transparent [OF demo_dev_inv(1) this demo_dev_inv(2), of demo_addrs "console_devsw 0" 0 1] show ?thesis
    apply (elim exE conjE)
    subgoal for x by (intro exI [of _ x] conjI) (assumption, cases x, simp_all add: back_in_user_def demo_cpu_def)
    done
qed

end
