(* ===== verification/Process_Memory.thy ===== *)
theory Process_Memory
  imports Address_Spaces User_Memory
begin

text \<open>
  The memory of a process: what \<open>vm_alloc\<close> of \<^verbatim>\<open>kernel/virtual_memory.cpp\<close> and \<open>grow\<close> of \<^verbatim>\<open>kernel/process.cpp\<close> do to it
  when the allocator has pages.
\<close>

text \<open>
  The memory of a process from \<open>lo\<close> to the page boundary \<open>a\<close>: every address translates to a page that the user may read and
  write, which is an allocated page and no table page; different pages are at different places; and above \<open>a\<close> nothing is mapped up to the trapframe.
\<close>

definition umem :: "u64 \<Rightarrow> u64 \<Rightarrow> u64 \<Rightarrow> u64 \<Rightarrow> u64 list \<Rightarrow> 'a kmem_scheme \<Rightarrow> bool" where
  "umem kend root lo a ps s \<longleftrightarrow> pt_wf kend s root ps \<and> page_aligned a \<and> a \<le> TRAPFRAME \<and>
     (\<forall>x. lo \<le> x \<and> x < a \<longrightarrow> (let e = lookup (ram s) root x in user_ok e \<and> e AND PTE_R \<noteq> 0 \<and> e AND PTE_W \<noteq> 0 \<and>
        page_ok kend (PTE2PA e) \<and> PTE2PA e \<notin> tables (ram s) root \<union> set ps)) \<and>
     (\<forall>x y. lo \<le> x \<and> x < a \<and> lo \<le> y \<and> y < a \<and> PTE2PA (lookup (ram s) root x) = PTE2PA (lookup (ram s) root y) \<longrightarrow>
        PGROUNDDOWN x = PGROUNDDOWN y) \<and>
     (\<forall>x. a \<le> x \<and> x < TRAPFRAME \<longrightarrow> lookup (ram s) root x AND PTE_V = 0)"

text \<open>What a growth keeps: it takes pages from the free list, and writes only to them and to table pages.\<close>

definition grown :: "u64 \<Rightarrow> u64 list \<Rightarrow> 'a kmem_scheme \<Rightarrow> u64 list \<Rightarrow> 'a kmem_scheme \<Rightarrow> bool" where
  "grown root ps s ps' s' \<longleftrightarrow> tables (ram s') root \<union> set ps' \<subseteq> tables (ram s) root \<union> set ps \<and>
     (\<forall>q i. page_aligned q \<and> q \<notin> tables (ram s) root \<union> set ps \<and> i < 4096 \<longrightarrow> ram s' (q + of_nat i) = ram s (q + of_nat i))"

lemma grown_refl: "grown root ps s ps s"
  by (simp add: grown_def)

lemma grown_trans:
  assumes "grown root ps s ps1 s1" "grown root ps1 s1 ps2 s2"
  shows "grown root ps s ps2 s2"
proof -
  have s: "tables (ram s1) root \<union> set ps1 \<subseteq> tables (ram s) root \<union> set ps" "tables (ram s2) root \<union> set ps2 \<subseteq> tables (ram s1) root \<union> set ps1"
    using assms by (simp_all add: grown_def)
  have "ram s2 (q + of_nat i) = ram s (q + of_nat i)" if q: "page_aligned q" "q \<notin> tables (ram s) root \<union> set ps" "i < 4096" for q i
  proof -
    have "q \<notin> tables (ram s1) root \<union> set ps1" using s(1) q(2) by blast
    then show ?thesis using assms q unfolding grown_def by simp
  qed
  then show ?thesis using s unfolding grown_def by blast
qed

lemma grown_frame: "vm_frame kend root ps s ps' s' \<Longrightarrow> grown root ps s ps' s'"
  by (auto simp: vm_frame_def grown_def)

lemma mapped_entry:
  fixes p :: u64
  defines "e \<equiv> PA2PTE p OR (PTE_R OR PTE_U OR PTE_W) OR PTE_V"
  assumes "page_aligned p"
  shows "PTE2PA e = p" "user_ok e" "e AND PTE_R \<noteq> 0" "e AND PTE_W \<noteq> 0"
proof -
  have e: "e = PA2PTE p OR 0x17" by (simp add: e_def)
  show "PTE2PA e = p" using assms(2) by (simp add: e)
  have "PTE_FLAGS e = 0x17" by (simp add: e)
  moreover have "e AND PTE_V = PTE_FLAGS e AND PTE_V" "e AND PTE_U = PTE_FLAGS e AND PTE_U" "e AND PTE_R = PTE_FLAGS e AND PTE_R"
    "e AND PTE_W = PTE_FLAGS e AND PTE_W" by (simp_all add: PTE_FLAGS_def and.assoc)
  ultimately show "user_ok e" "e AND PTE_R \<noteq> 0" "e AND PTE_W \<noteq> 0" unfolding user_ok_def by simp_all
qed

lemma PGROUNDDOWN_between:
  assumes "page_aligned a" "a < MAXVA" "x < MAXVA"
  shows "PGROUNDDOWN x = a \<longleftrightarrow> a \<le> x \<and> x < a + PGSIZE"
proof -
  have "unat (PGROUNDDOWN x) = unat a \<longleftrightarrow> unat a \<le> unat x \<and> unat x < unat a + 4096"
    using assms(1) by (auto simp: unat_PGROUNDDOWN page_aligned_unat elim!: dvdE)
  then show ?thesis using page_step(1) [OF assms(1,2)] by (metis word_le_nat_alt word_less_nat_alt word_unat_eq_iff)
qed

lemma umemD:
  assumes "umem kend root lo a ps s"
  shows "pt_wf kend s root ps" "page_aligned a" "a \<le> TRAPFRAME"
    "lo \<le> x \<Longrightarrow> x < a \<Longrightarrow> user_ok (lookup (ram s) root x) \<and> lookup (ram s) root x AND PTE_R \<noteq> 0 \<and> lookup (ram s) root x AND PTE_W \<noteq> 0 \<and>
        page_ok kend (PTE2PA (lookup (ram s) root x)) \<and> PTE2PA (lookup (ram s) root x) \<notin> tables (ram s) root \<union> set ps"
    "lo \<le> x \<Longrightarrow> x < a \<Longrightarrow> lo \<le> y \<Longrightarrow> y < a \<Longrightarrow> PTE2PA (lookup (ram s) root x) = PTE2PA (lookup (ram s) root y) \<Longrightarrow> PGROUNDDOWN x = PGROUNDDOWN y"
    "a \<le> x \<Longrightarrow> x < TRAPFRAME \<Longrightarrow> lookup (ram s) root x AND PTE_V = 0"
  using assms unfolding umem_def Let_def by blast+

text \<open>A page taken from the allocator and cleared.\<close>

lemma fresh_page:
  assumes wf: "pt_wf kend s root (p # ps)" and a: "page_alloc s = (Some p, s1)"
  shows "pt_wf kend (zero_page p s1) root ps" "lookup (ram (zero_page p s1)) root x = lookup (ram s) root x"
    "tables (ram (zero_page p s1)) root = tables (ram s) root" "page_ok kend p" "page_aligned p" "p \<notin> tables (ram s) root \<union> set ps"
    "grown root (p # ps) s ps (zero_page p s1)" "i < 4096 \<Longrightarrow> ram (zero_page p s1) (p + of_nat i) = 0"
proof -
  have 1: "pt_wf kend s1 root ps" "ram s1 = ram s" using pt_wf_page_alloc [OF wf a] by auto
  show p: "page_ok kend p" "page_aligned p" "p \<notin> tables (ram s) root \<union> set ps"
    using kernel_pages.pool_page [OF pt_wfD(1) [OF wf]] wf by (auto simp: page_ok_def pt_wf_def)
  have al: "page_aligned q" if "q \<in> tables (ram s) root \<union> set ps" for q
    using that wf kernel_pages.pool_page [OF pt_wfD(1) [OF 1(1)]] by (auto simp: page_ok_def pt_wf_def)
  have same: "ram (zero_page p s1) (q + of_nat i) = ram s1 (q + of_nat i)" if "q \<in> tables (ram s1) root \<union> set ps" "i < 4096" for q i
    using that ram_zero_page_other [OF p(2) al] p(3) 1(2) by metis
  show "pt_wf kend (zero_page p s1) root ps" "lookup (ram (zero_page p s1)) root x = lookup (ram s) root x"
    and t: "tables (ram (zero_page p s1)) root = tables (ram s) root"
    using pt_wf_cong [OF 1(1) free_list_zero_page same] 1(2) by auto
  show "grown root (p # ps) s ps (zero_page p s1)"
    unfolding grown_def t using ram_zero_page_other [OF p(2), of _ _ s1] 1(2) by auto
  show "i < 4096 \<Longrightarrow> ram (zero_page p s1) (p + of_nat i) = 0" using zero_page_byte [OF p(2), of i s1] by simp
qed

lemma grow_page:
  assumes u: "umem kend root lo a ps s" and a: "a < TRAPFRAME" and len: "3 < length ps"
  shows "\<exists>p s1 s2 ps2. page_alloc s = (Some p, s1) \<and> mappages root a PGSIZE p (PTE_R OR PTE_U OR PTE_W) (zero_page p s1) = Ret (0, s2) \<and>
    umem kend root lo (a + PGSIZE) ps2 s2 \<and> grown root ps s ps2 s2 \<and> length ps \<le> length ps2 + 3 \<and>
    (\<forall>x < MAXVA. PGROUNDDOWN x \<noteq> a \<longrightarrow> lookup (ram s2) root x = lookup (ram s) root x) \<and>
    (\<forall>x < MAXVA. PGROUNDDOWN x = a \<longrightarrow> ram s2 (upa (ram s2) root x) = 0)"
proof -
  note U = umemD [OF u]
  have am: "a < MAXVA" using a by (simp add: word_less_nat_alt)
  obtain p ps1 where ps: "ps = p # ps1" using len by (cases ps) auto
  obtain s1 where s1: "page_alloc s = (Some p, s1)" using pt_wf_page_alloc [OF U(1) [unfolded ps]] by (metis surj_pair)
  note F = fresh_page [OF U(1) [unfolded ps] s1]
  have free: "\<forall>x < MAXVA. PGROUNDDOWN x = a \<longrightarrow> lookup (ram (zero_page p s1)) root x AND PTE_V = 0"
    using U(6) [OF order_refl a] lookup_PGROUNDDOWN [of "ram s" root] unfolding F(2) by metis
  obtain s2 ps2 where m: "mappages root a PGSIZE p (PTE_R OR PTE_U OR PTE_W) (zero_page p s1) = Ret (0, s2)"
    "vm_frame kend root ps1 (zero_page p s1) ps2 s2" "length ps1 \<le> length ps2 + 2"
    "\<And>x. x < MAXVA \<Longrightarrow> lookup (ram s2) root x = (if PGROUNDDOWN x = a then PA2PTE p OR (PTE_R OR PTE_U OR PTE_W) OR PTE_V else lookup (ram s) root x)"
    using mappages_one [OF F(1) U(2) am _ free, of p "PTE_R OR PTE_U OR PTE_W"] len ps F(2) by auto
  have gr: "grown root ps1 (zero_page p s1) ps2 s2" "grown root ps s ps2 s2"
    using grown_frame [OF m(2)] grown_trans [OF F(7) grown_frame [OF m(2)]] ps by simp_all
  have top: "a + PGSIZE \<le> TRAPFRAME" using page_less_step(1) [OF U(2) _ am, of TRAPFRAME] a by (simp add: page_aligned_def)
  have mx: "x < MAXVA" if "x < TRAPFRAME" for x using that by (simp add: word_less_nat_alt)
  have new: "PGROUNDDOWN x = a \<longleftrightarrow> a \<le> x \<and> x < a + PGSIZE" if "x < TRAPFRAME" for x using PGROUNDDOWN_between [OF U(2) am mx [OF that]] .
  note e = mapped_entry [OF F(5)]
  have lk: "lookup (ram s2) root x = (if a \<le> x then PA2PTE p OR (PTE_R OR PTE_U OR PTE_W) OR PTE_V else lookup (ram s) root x)" if "x < a + PGSIZE" for x
    using m(4) [OF mx] new [of x] that top by (simp add: order_less_le_trans)
  have np: "p \<notin> tables (ram s2) root \<union> set ps2" using gr(1) F(3,6) unfolding grown_def by blast
  have old: "x < a \<Longrightarrow> lo \<le> x \<Longrightarrow> PTE2PA (lookup (ram s) root x) \<notin> insert p (tables (ram s2) root \<union> set ps2)" for x
    using U(4) [of x] gr(2) ps unfolding grown_def by auto
  define pa where "pa x = (if a \<le> x then p else PTE2PA (lookup (ram s) root x))" for x
  have pa: "PTE2PA (lookup (ram s2) root x) = pa x" if "x < a + PGSIZE" for x using lk [OF that] e(1) by (simp add: pa_def)
  have "umem kend root lo (a + PGSIZE) ps2 s2"
    unfolding umem_def
  proof (intro conjI allI impI)
    show "pt_wf kend s2 root ps2" using m(2) by (simp add: vm_frame_def)
    show "page_aligned (a + PGSIZE)" "a + PGSIZE \<le> TRAPFRAME" using page_step(2) [OF U(2) am] top by simp_all
    show "let e = lookup (ram s2) root x in user_ok e \<and> e AND PTE_R \<noteq> 0 \<and> e AND PTE_W \<noteq> 0 \<and>
        page_ok kend (PTE2PA e) \<and> PTE2PA e \<notin> tables (ram s2) root \<union> set ps2" if "lo \<le> x \<and> x < a + PGSIZE" for x
      using that U(4) [of x] old [of x] lk [of x] e F(4) np unfolding Let_def by (cases "a \<le> x") (simp_all add: not_le)
    show "PGROUNDDOWN x = PGROUNDDOWN y" if "lo \<le> x \<and> x < a + PGSIZE \<and> lo \<le> y \<and> y < a + PGSIZE \<and>
        PTE2PA (lookup (ram s2) root x) = PTE2PA (lookup (ram s2) root y)" for x y
    proof -
      have xy: "lo \<le> x" "x < a + PGSIZE" "lo \<le> y" "y < a + PGSIZE" "pa x = pa y" using that pa [of x] pa [of y] by simp_all
      have "PGROUNDDOWN z = a" if "a \<le> z" "z < a + PGSIZE" for z using new [of z] that top by (simp add: order_less_le_trans)
      moreover have "pa z \<noteq> p" if "z < a" "lo \<le> z" for z using old [OF that] that(1) unfolding pa_def by auto
      moreover have "PGROUNDDOWN x = PGROUNDDOWN y" if "x < a" "y < a" using U(5) [OF xy(1) that(1) xy(3) that(2)] xy(5) that unfolding pa_def not_le [symmetric] by simp
      ultimately show ?thesis using xy pa_def by (metis not_le)
    qed
    show "lookup (ram s2) root x AND PTE_V = 0" if "a + PGSIZE \<le> x \<and> x < TRAPFRAME" for x
    proof -
      have "PGROUNDDOWN x \<noteq> a" "a \<le> x" using that new [of x] page_step(3) [OF U(2) am] by auto
      then show ?thesis using that m(4) [OF mx] U(6) [of x] by simp
    qed
  qed
  moreover have "ram s2 (upa (ram s2) root x) = 0" if x: "x < MAXVA" "PGROUNDDOWN x = a" for x
  proof -
    have "upa (ram s2) root x = p + of_nat (unat x mod 4096)" using m(4) [OF x(1)] x(2) e(1) by (simp add: upa_def flip: unat_page_offset)
    moreover have "ram s2 (p + of_nat i) = ram (zero_page p s1) (p + of_nat i)" if "i < 4096" for i
      using that gr(1) F(3,5,6) unfolding grown_def by simp
    ultimately show ?thesis using F(8) [of "unat x mod 4096"] by simp
  qed
  ultimately show ?thesis using s1 m(1,3,4) gr(2) ps by (intro exI [of _ p] exI [of _ s1] exI [of _ s2] exI [of _ ps2]) simp
qed

lemma grown_keeps:
  assumes "umem kend root lo a ps s" "grown root ps s ps' s'" "lo \<le> x" "x < a" "lookup (ram s') root x = lookup (ram s) root x"
  shows "ram s' (upa (ram s') root x) = ram s (upa (ram s) root x)"
proof -
  let ?q = "PTE2PA (lookup (ram s) root x)"
  have "page_aligned ?q" "?q \<notin> tables (ram s) root \<union> set ps" using umemD(4) [OF assms(1,3,4)] by (auto simp: page_ok_def)
  then have "ram s' (?q + of_nat (unat x mod 4096)) = ram s (?q + of_nat (unat x mod 4096))" using assms(2) unfolding grown_def by simp
  then show ?thesis using assms(5) by (simp add: upa_def flip: unat_page_offset)
qed

lemma vm_alloc_loop_maps:
  assumes "umem kend root lo a ps s" "lo \<le> a" "newsz \<le> TRAPFRAME" "a \<le> PGROUNDUP newsz" "3 * ((unat newsz - unat a + 4095) div 4096) < length ps"
  shows "\<exists>s' ps'. vm_alloc_loop kend root oldsz a newsz PTE_W s = Ret (newsz, s') \<and> umem kend root lo (PGROUNDUP newsz) ps' s' \<and> grown root ps s ps' s' \<and>
    length ps \<le> length ps' + 3 * ((unat newsz - unat a + 4095) div 4096) \<and>
    (\<forall>x < MAXVA. \<not> (a \<le> x \<and> x < PGROUNDUP newsz) \<longrightarrow> lookup (ram s') root x = lookup (ram s) root x) \<and>
    (\<forall>x. a \<le> x \<and> x < PGROUNDUP newsz \<longrightarrow> ram s' (upa (ram s') root x) = 0)"
  using assms
proof (induction kend root oldsz a newsz "PTE_W" s arbitrary: ps rule: vm_alloc_loop.induct)
  case (1 kend root oldsz a newsz s)
  note U = umemD [OF 1(2)]
  have up: "unat (PGROUNDUP newsz) = (unat newsz + 4095) div 4096 * 4096" using 1(4) by (intro unat_PGROUNDUP) (simp add: word_le_nat_alt)
  show ?case
  proof (cases "a < newsz")
    case False
    have "unat a = unat (PGROUNDUP newsz)" using False 1(5) U(2) unfolding up by (auto simp: word_less_nat_alt word_le_nat_alt up page_aligned_unat elim!: dvdE)
    then have "a = PGROUNDUP newsz" by (rule word_unatI)
    then show ?thesis using 1(2) False grown_refl [of root ps s] by (subst vm_alloc_loop.simps) (auto intro!: exI [of _ ps])
  next
    case True
    then have a: "a < TRAPFRAME" "a < MAXVA" using 1(4) by (simp_all add: word_less_nat_alt word_le_nat_alt)
    note st = page_step [OF U(2) a(2)]
    have cnt: "(unat newsz - unat a + 4095) div 4096 = Suc ((unat newsz - unat (a + PGSIZE) + 4095) div 4096)"
      using True unfolding st(1) word_less_nat_alt by (cases "unat newsz - unat a \<le> 4096") (simp_all add: le_div_geq div_add_self1)
    obtain p s1 s2 ps2 where g: "page_alloc s = (Some p, s1)" "mappages root a PGSIZE p (PTE_R OR PTE_U OR PTE_W) (zero_page p s1) = Ret (0, s2)"
      "umem kend root lo (a + PGSIZE) ps2 s2" "grown root ps s ps2 s2" "length ps \<le> length ps2 + 3"
      "\<forall>x < MAXVA. PGROUNDDOWN x \<noteq> a \<longrightarrow> lookup (ram s2) root x = lookup (ram s) root x"
      "\<forall>x < MAXVA. PGROUNDDOWN x = a \<longrightarrow> ram s2 (upa (ram s2) root x) = 0"
      using grow_page [OF 1(2) a(1)] 1(6) cnt by auto
    have le: "a + PGSIZE \<le> PGROUNDUP newsz" "lo \<le> a + PGSIZE" "3 * ((unat newsz - unat (a + PGSIZE) + 4095) div 4096) < length ps2"
    proof -
      have "a < PGROUNDUP newsz" using True up by (simp add: word_less_nat_alt)
      then show "a + PGSIZE \<le> PGROUNDUP newsz" using page_less_step(1) [OF U(2) _ a(2)] by simp
      show "lo \<le> a + PGSIZE" using 1(3) st(3) by simp
      show "3 * ((unat newsz - unat (a + PGSIZE) + 4095) div 4096) < length ps2" using 1(6) g(5) unfolding cnt by simp
    qed
    obtain s' ps' where IH: "vm_alloc_loop kend root oldsz (a + PGSIZE) newsz PTE_W s2 = Ret (newsz, s')" "umem kend root lo (PGROUNDUP newsz) ps' s'"
      "grown root ps2 s2 ps' s'" "\<forall>x < MAXVA. \<not> (a + PGSIZE \<le> x \<and> x < PGROUNDUP newsz) \<longrightarrow> lookup (ram s') root x = lookup (ram s2) root x"
      "\<forall>x. a + PGSIZE \<le> x \<and> x < PGROUNDUP newsz \<longrightarrow> ram s' (upa (ram s') root x) = 0"
      "length ps2 \<le> length ps' + 3 * ((unat newsz - unat (a + PGSIZE) + 4095) div 4096)"
      using 1(1) [OF _ g(1) [symmetric] refl g(2) refl _ g(3) le(2) 1(4) le(1,3)] True by auto
    have r: "vm_alloc_loop kend root oldsz a newsz PTE_W s = Ret (newsz, s')" using True g(1,2) IH(1) by (subst vm_alloc_loop.simps) simp
    have top: "PGROUNDUP newsz \<le> TRAPFRAME" using umemD(3) [OF IH(2)] .
    have "lookup (ram s') root x = lookup (ram s) root x" if "x < MAXVA" "\<not> (a \<le> x \<and> x < PGROUNDUP newsz)" for x
    proof -
      have "PGROUNDDOWN x \<noteq> a" using that(2) PGROUNDDOWN_between [OF U(2) a(2) that(1)] le(1) by (auto intro: order_less_le_trans)
      moreover have "\<not> (a + PGSIZE \<le> x \<and> x < PGROUNDUP newsz)" using that(2) order_trans [OF less_imp_le [OF st(3)]] by blast
      ultimately show ?thesis using IH(4) g(6) that(1) by simp
    qed
    moreover have "ram s' (upa (ram s') root x) = 0" if x: "a \<le> x" "x < PGROUNDUP newsz" for x
    proof (cases "x < a + PGSIZE")
      case True
      have m: "x < MAXVA" using x(2) top by (simp add: word_less_nat_alt word_le_nat_alt)
      have "lookup (ram s') root x = lookup (ram s2) root x" using IH(4) m True by (simp add: not_le)
      then have "ram s' (upa (ram s') root x) = ram s2 (upa (ram s2) root x)" using grown_keeps [OF g(3) IH(3)] x(1) 1(3) True by simp
      then show ?thesis using g(7) m PGROUNDDOWN_between [OF U(2) a(2) m] x(1) True by simp
    qed (use IH(5) x in simp)
    moreover have "length ps \<le> length ps' + 3 * ((unat newsz - unat a + 4095) div 4096)" using IH(6) g(5) unfolding cnt by simp
    ultimately show ?thesis using r IH(2) grown_trans [OF g(4) IH(3)] by blast
  qed
qed

text \<open>The memory of a process, from \<open>lo\<close> to its size. Its last page is mapped as a whole.\<close>

definition proc_mem :: "u64 \<Rightarrow> nat \<Rightarrow> u64 \<Rightarrow> u64 list \<Rightarrow> 'a kprocs_scheme \<Rightarrow> bool" where
  "proc_mem kend cur lo ps s \<longleftrightarrow> sz (processes s cur) \<le> TRAPFRAME \<and> lo \<le> sz (processes s cur) \<and>
     umem kend (pagetable (processes s cur)) lo (PGROUNDUP (sz (processes s cur))) ps s"

text \<open>What is at a user address.\<close>

definition ubyte :: "nat \<Rightarrow> 'a kprocs_scheme \<Rightarrow> u64 \<Rightarrow> u8" where
  "ubyte cur s x = ram s (upa (ram s) (pagetable (processes s cur)) x)"

lemma umem_cong: "ram t = ram s \<Longrightarrow> free_list t = free_list s \<Longrightarrow> umem kend root lo a ps t = umem kend root lo a ps s"
  by (simp add: umem_def pt_wf_def free_pages_def)

lemma proc_grow_ok:
  assumes m: "proc_mem kend cur lo ps s" and n: "0 < n" "unat (sz (processes s cur)) + nat n \<le> unat TRAPFRAME"
    and len: "3 * ((nat n + 4095) div 4096) < length ps"
  shows "\<exists>t ps'. proc_grow kend cur n s = Ret (0, t) \<and> proc_mem kend cur lo ps' t \<and> length ps \<le> length ps' + 3 * ((nat n + 4095) div 4096) \<and>
    processes t = (processes s)(cur := (processes s cur)\<lparr>sz := sz (processes s cur) + word_of_int n\<rparr>) \<and>
    (\<forall>x. lo \<le> x \<and> x < PGROUNDUP (sz (processes s cur)) \<longrightarrow> ubyte cur t x = ubyte cur s x) \<and>
    (\<forall>x. PGROUNDUP (sz (processes s cur)) \<le> x \<and> x < sz (processes t cur) \<longrightarrow> ubyte cur t x = 0) \<and>
    (\<forall>x < MAXVA. \<not> (PGROUNDUP (sz (processes s cur)) \<le> x \<and> x < TRAPFRAME) \<longrightarrow>
      lookup (ram t) (pagetable (processes s cur)) x = lookup (ram s) (pagetable (processes s cur)) x)"
proof -
  let ?z = "sz (processes s cur)" and ?pt = "pagetable (processes s cur)" let ?w = "?z + word_of_int n" let ?a = "PGROUNDUP ?z"
  have u: "umem kend ?pt lo ?a ps s" "lo \<le> ?z" using m by (simp_all add: proc_mem_def)
  have w: "unat ?w = unat ?z + nat n"
  proof -
    have "unat (word_of_int n :: u64) = nat n" using n by (subst unsigned_of_int, subst take_bit_int_eq_self) auto
    then show ?thesis using n by (simp add: unat_word_ariths)
  qed
  have up: "unat ?a = (unat ?z + 4095) div 4096 * 4096" "unat (PGROUNDUP ?w) = (unat ?w + 4095) div 4096 * 4096"
    by (rule unat_PGROUNDUP; use n w in simp)+
  have le: "lo \<le> ?a" "?w \<le> TRAPFRAME" "?a \<le> PGROUNDUP ?w" "\<not> ?w < ?z" "?w \<noteq> 0"
    using u(2) n w up by (auto simp: word_le_nat_alt word_less_nat_alt)
  have "unat ?w - unat ?a \<le> nat n" using w up(1) by linarith
  then have few: "(unat ?w - unat ?a + 4095) div 4096 \<le> (nat n + 4095) div 4096" by (intro div_le_mono) simp
  then have cnt: "3 * ((unat ?w - unat ?a + 4095) div 4096) < length ps" using len by linarith
  obtain t ps' where t: "vm_alloc_loop kend ?pt ?a ?a ?w PTE_W s = Ret (?w, t)" "umem kend ?pt lo (PGROUNDUP ?w) ps' t" "grown ?pt ps s ps' t"
    "\<forall>x < MAXVA. \<not> (?a \<le> x \<and> x < PGROUNDUP ?w) \<longrightarrow> lookup (ram t) ?pt x = lookup (ram s) ?pt x"
    "\<forall>x. ?a \<le> x \<and> x < PGROUNDUP ?w \<longrightarrow> ram t (upa (ram t) ?pt x) = 0" "length ps \<le> length ps' + 3 * ((unat ?w - unat ?a + 4095) div 4096)"
    using vm_alloc_loop_maps [OF u(1) le(1-3) cnt] by blast
  have va: "vm_alloc kend ?pt ?z ?w PTE_W s = Ret (?w, t)" using t(1) le(4) by (simp add: vm_alloc_def)
  have pr: "processes t = processes s" using mkey_pids [OF vm_alloc_mkey [OF va]] by simp
  let ?t = "upd_proc cur (\<lambda>p. p\<lparr>sz := ?w\<rparr>) t"
  have g: "proc_grow kend cur n s = Ret (0, ?t)" using va n le(5) by (simp add: proc_grow_def Let_def)
  have T: "processes ?t = (processes s)(cur := (processes s cur)\<lparr>sz := ?w\<rparr>)" "ram ?t = ram t" "free_list ?t = free_list t"
    using pr by (simp_all add: upd_proc_def fun_eq_iff)
  have pm: "proc_mem kend cur lo ps' ?t" using t(2) le(2) u(2) le(4) umem_cong [OF T(2,3)] T(1) by (auto simp: proc_mem_def)
  have low: "x < MAXVA" if "x < ?a" for x using that umemD(3) [OF u(1)] by (simp add: word_less_nat_alt word_le_nat_alt)
  have "ubyte cur ?t x = ubyte cur s x" if "lo \<le> x" "x < ?a" for x
    using grown_keeps [OF u(1) t(3) that] t(4) low [OF that(2)] that(2) T by (simp add: ubyte_def not_le)
  moreover have "ubyte cur ?t x = 0" if "?a \<le> x" "x < ?w" for x
  proof -
    have "x < PGROUNDUP ?w" using that(2) up(2) by (simp add: word_less_nat_alt)
    then show ?thesis using t(5) that(1) T by (simp add: ubyte_def)
  qed
  moreover have "lookup (ram ?t) ?pt x = lookup (ram s) ?pt x" if "x < MAXVA" "\<not> (?a \<le> x \<and> x < TRAPFRAME)" for x
  proof -
    have "\<not> (?a \<le> x \<and> x < PGROUNDUP ?w)" using that(2) order_less_le_trans [OF _ umemD(3) [OF t(2)]] by blast
    then show ?thesis using t(4) that(1) T(2) by simp
  qed
  moreover have "length ps \<le> length ps' + 3 * ((nat n + 4095) div 4096)" using t(6) few by linarith
  ultimately show ?thesis using g pm T(1) by (intro exI [of _ ?t] exI [of _ ps']) simp
qed

text \<open>
  C38. Growing a process gives it memory. When the allocator has more than three pages for each page of the growth,
  \<open>grow\<close> by a positive number of bytes succeeds and the process is larger by exactly that number. Its memory is again
  complete: every address from \<open>lo\<close> on up to the new size translates to an allocated page that the user may read and
  write, different pages to different ones, none of them a table page. The bytes the process had are unchanged and those on the
  new pages are zero. The translations outside the new part, such as those of the trapframe and the trampoline, are unchanged, and
  so are the other processes.
\<close>

theorem proc_grow_maps:
  assumes m: "proc_mem kend cur lo ps s" and n: "0 < n" "unat (sz (processes s cur)) + nat n \<le> unat TRAPFRAME"
    and len: "3 * ((nat n + 4095) div 4096) < length ps"
  shows "\<exists>t ps'. proc_grow kend cur n s = Ret (0, t) \<and> proc_mem kend cur lo ps' t \<and> length ps \<le> length ps' + 3 * ((nat n + 4095) div 4096) \<and>
    processes t = (processes s)(cur := (processes s cur)\<lparr>sz := sz (processes s cur) + word_of_int n\<rparr>) \<and>
    (\<forall>x. lo \<le> x \<and> x < PGROUNDUP (sz (processes s cur)) \<longrightarrow> ubyte cur t x = ubyte cur s x) \<and>
    (\<forall>x. PGROUNDUP (sz (processes s cur)) \<le> x \<and> x < sz (processes t cur) \<longrightarrow> ubyte cur t x = 0) \<and>
    (\<forall>x < MAXVA. \<not> (PGROUNDUP (sz (processes s cur)) \<le> x \<and> x < TRAPFRAME) \<longrightarrow>
      lookup (ram t) (pagetable (processes s cur)) x = lookup (ram s) (pagetable (processes s cur)) x)"
  by (rule proc_grow_ok [OF assms])

text \<open>A process without memory on a machine with sixty-three free pages.\<close>

definition demo_pages :: "u64 list" where
  "demo_pages = map (\<lambda>i. 0x80021000 + of_nat (4096 * i)) [0..<64]"

definition demo_process :: kprocs where
  "demo_process = upd_proc 0 (\<lambda>p. p\<lparr>pagetable := 0x80021000, sz := 0\<rparr>)
     (snd (vm_create (foldr (\<lambda>p s. the_ret (page_free demo_end p s)) demo_pages (demo_table\<lparr>free_list := slist_new\<rparr>))))"

lemma free_pages_foldr:
  assumes "free_pages kend s []" "distinct qs" "\<forall>q \<in> set qs. page_ok kend q"
  shows "free_pages kend (foldr (\<lambda>p s. the_ret (page_free kend p s)) qs s) qs"
  using assms(2,3)
proof (induction qs)
  case (Cons q qs)
  then show ?case using free_pages_page_free [of kend _ qs q] by simp
qed (simp add: assms(1))

lemma demo_pages_ok: "distinct demo_pages" "\<forall>q \<in> set demo_pages. page_ok demo_end q" "demo_pages = 0x80021000 # tl demo_pages" "length (tl demo_pages) = 63"
proof -
  have u: "unat (0x80021000 + of_nat (4096 * i) :: u64) = 0x80021000 + 4096 * i" if "i < 64" for i
    using that by (subst unat_add_of_nat) simp_all
  have "inj_on (\<lambda>i. 0x80021000 + of_nat (4096 * i) :: u64) {0..<64}"
    by (rule inj_onI, drule arg_cong [where f = unat]) (simp add: u del: of_nat_mult)
  then show "distinct demo_pages" by (simp add: demo_pages_def distinct_map)
  have "page_ok demo_end (0x80021000 + of_nat (4096 * i))" if "i < 64" for i
    unfolding page_ok_def page_aligned_unat word_le_nat_alt word_less_nat_alt u [OF that] using that by (simp add: demo_end_def)
  then show "\<forall>q \<in> set demo_pages. page_ok demo_end q" by (auto simp: demo_pages_def)
  show "demo_pages = 0x80021000 # tl demo_pages" by (simp add: demo_pages_def upt_conv_Cons)
qed (simp add: demo_pages_def)

lemma demo_process_mem: "proc_mem demo_end 0 0 (tl demo_pages) demo_process"
proof -
  let ?s = "foldr (\<lambda>p s. the_ret (page_free demo_end p s)) demo_pages (demo_table\<lparr>free_list := slist_new\<rparr>)"
  have "free_pages demo_end (demo_table\<lparr>free_list := slist_new\<rparr>) []" by (simp add: free_pages_def slist_abs_new demo_end_def)
  then have "free_pages demo_end ?s demo_pages" by (rule free_pages_foldr) (rule demo_pages_ok(1,2))+
  then have "free_pages demo_end ?s (0x80021000 # tl demo_pages)" using demo_pages_ok(3) by simp
  then have v: "pt_wf demo_end (snd (vm_create ?s)) 0x80021000 (tl demo_pages)" "lookup (ram (snd (vm_create ?s))) 0x80021000 x = 0" for x
    using vm_create_wf [of demo_end ?s "0x80021000" "tl demo_pages" "fst (vm_create ?s)" "snd (vm_create ?s)"] by auto
  have "umem demo_end 0x80021000 0 0 (tl demo_pages) (snd (vm_create ?s))" using v by (simp add: umem_def page_aligned_def)
  then show ?thesis using umem_cong [of demo_process "snd (vm_create ?s)"] by (simp add: proc_mem_def demo_process_def upd_proc_def PGROUNDUP_def)
qed

theorem proc_grow_maps_witness:
  "\<exists>t ps'. proc_grow demo_end 0 0x4000 demo_process = Ret (0, t) \<and> proc_mem demo_end 0 0 ps' t \<and> sz (processes t 0) = 0x4000 \<and> ubyte 0 t 0x3abc = 0"
proof -
  have z: "sz (processes demo_process 0) = 0" by (simp add: demo_process_def upd_proc_def)
  obtain t ps' where t: "proc_grow demo_end 0 0x4000 demo_process = Ret (0, t)" "proc_mem demo_end 0 0 ps' t"
    "processes t = (processes demo_process)(0 := (processes demo_process 0)\<lparr>sz := sz (processes demo_process 0) + word_of_int 0x4000\<rparr>)"
    "\<forall>x. PGROUNDUP (sz (processes demo_process 0)) \<le> x \<and> x < sz (processes t 0) \<longrightarrow> ubyte 0 t x = 0"
    using proc_grow_maps [OF demo_process_mem, of "0x4000"] z demo_pages_ok(4) by auto
  then show ?thesis using z by (auto simp: PGROUNDUP_def)
qed

end
