(* ===== verification/Umalloc.thy ===== *)
theory Umalloc
  imports Ulib
begin

text \<open>
  The memory allocator of user programs, \<^verbatim>\<open>user/umalloc.c\<close>: a circular list of free blocks in the order of their addresses, with headers of 16 bytes
  in memory. An address is a natural number, 0 the null pointer; user addresses are far below the end of the address space. A header
  is a value at its address, so that pointers into blocks are as in the code and pointer arithmetic moves by 16 bytes. The
  address of the static header \<^verbatim>\<open>base\<close> is a parameter.
\<close>

unbundle bit_operations_syntax

section \<open>Program\<close>

record header =
  hptr :: nat
  hsize :: u32

record umalloc =
  heap :: "nat \<Rightarrow> header"
  freep :: nat

text \<open>\<open>p + n\<close> for a pointer to headers.\<close>

definition hadd :: "nat \<Rightarrow> u32 \<Rightarrow> nat" where
  "hadd p n = p + 16 * unat n"

definition set_ptr :: "nat \<Rightarrow> nat \<Rightarrow> umalloc \<Rightarrow> umalloc" where
  "set_ptr p q u = u\<lparr>heap := (heap u)(p := (heap u p)\<lparr>hptr := q\<rparr>)\<rparr>"

definition set_size :: "nat \<Rightarrow> u32 \<Rightarrow> umalloc \<Rightarrow> umalloc" where
  "set_size p n u = u\<lparr>heap := (heap u)(p := (heap u p)\<lparr>hsize := n\<rparr>)\<rparr>"

text \<open>The loop of \<open>free\<close> over the circular list, \<open>None\<close> when it does not end.\<close>

partial_function (option) free_search :: "(nat \<Rightarrow> header) \<Rightarrow> nat \<Rightarrow> nat \<Rightarrow> nat option" where
  "free_search h bp p =
     (if bp > p \<and> bp < hptr (h p) then Some p
      else if p \<ge> hptr (h p) \<and> (bp > p \<or> bp < hptr (h p)) then Some p
      else free_search h bp (hptr (h p)))"

definition free_link :: "nat \<Rightarrow> nat \<Rightarrow> umalloc \<Rightarrow> umalloc" where
  "free_link bp p u =
     (let q = hptr (heap u p);
          u = (if hadd bp (hsize (heap u bp)) = q
               then set_ptr bp (hptr (heap u q)) (set_size bp (hsize (heap u bp) + hsize (heap u q)) u)
               else set_ptr bp q u);
          u = (if hadd p (hsize (heap u p)) = bp
               then set_ptr p (hptr (heap u bp)) (set_size p (hsize (heap u p) + hsize (heap u bp)) u)
               else set_ptr p bp u)
      in u\<lparr>freep := p\<rparr>)"

definition ufree :: "nat \<Rightarrow> umalloc \<Rightarrow> umalloc option" where
  "ufree ap u = (let bp = ap - 16 in
     case free_search (heap u) bp (freep u) of None \<Rightarrow> None | Some p \<Rightarrow> Some (free_link bp p u))"

text \<open>The number of bytes is computed in 64 bits and then passed as an \<^verbatim>\<open>int\<close>.\<close>

definition morecore :: "'w sys \<Rightarrow> u32 \<Rightarrow> umalloc \<Rightarrow> 'w \<Rightarrow> (nat \<times> umalloc \<times> 'w) option" where
  "morecore S nu u w =
     (let nu = (if nu < 4096 then 4096 else nu);
          (p, w) = sys_sbrk S (sint (ucast (ucast nu * 16 :: u64) :: u32)) w in
      if p = - 1 then Some (0, u, w)
      else case ufree (nat p + 16) (set_size (nat p) nu u) of
          None \<Rightarrow> None
        | Some u \<Rightarrow> Some (freep u, u, w))"

text \<open>What \<open>malloc\<close> does with a block that is large enough: it takes all of it, or its end.\<close>

definition malloc_take :: "u32 \<Rightarrow> nat \<Rightarrow> nat \<Rightarrow> umalloc \<Rightarrow> nat \<times> umalloc" where
  "malloc_take nunits prevp p u =
     (let (p, u) =
        (if hsize (heap u p) = nunits then (p, set_ptr prevp (hptr (heap u p)) u)
         else let u = set_size p (hsize (heap u p) - nunits) u;
                  p = hadd p (hsize (heap u p))
              in (p, set_size p nunits u))
      in (p + 16, u\<lparr>freep := prevp\<rparr>))"

partial_function (option) malloc_loop ::
  "'w sys \<Rightarrow> u32 \<Rightarrow> nat \<Rightarrow> nat \<Rightarrow> umalloc \<Rightarrow> 'w \<Rightarrow> (nat \<times> umalloc \<times> 'w) option" where
  "malloc_loop S nunits prevp p u w =
     (if hsize (heap u p) \<ge> nunits then Some (case malloc_take nunits prevp p u of (r, u) \<Rightarrow> (r, u, w))
      else if p = freep u
      then Option.bind (morecore S nunits u w) (\<lambda>(p, u, w).
             if p = 0 then Some (0, u, w) else malloc_loop S nunits p (hptr (heap u p)) u w)
      else malloc_loop S nunits p (hptr (heap u p)) u w)"

definition malloc_units :: "u32 \<Rightarrow> u32" where
  "malloc_units nbytes = ucast ((ucast nbytes + 16 - 1 :: u64) div 16 + 1)"

definition malloc_start :: "nat \<Rightarrow> umalloc \<Rightarrow> umalloc" where
  "malloc_start base u = (if freep u = 0 then set_size base 0 (set_ptr base base (u\<lparr>freep := base\<rparr>)) else u)"

definition malloc :: "'w sys \<Rightarrow> nat \<Rightarrow> u32 \<Rightarrow> umalloc \<Rightarrow> 'w \<Rightarrow> (nat \<times> umalloc \<times> 'w) option" where
  "malloc S base nbytes u w =
     (let nunits = malloc_units nbytes; u = malloc_start base u in
      malloc_loop S nunits (freep u) (hptr (heap u (freep u))) u w)"

section \<open>The circular list\<close>

text \<open>In a circle of addresses each points to the next, and the last to the first.\<close>

definition succ_in :: "nat set \<Rightarrow> nat \<Rightarrow> nat \<Rightarrow> bool" where
  "succ_in A p q \<longleftrightarrow> q \<in> A \<and> (p < q \<and> (\<forall>r \<in> A. r \<le> p \<or> q \<le> r) \<or> (\<forall>r \<in> A. q \<le> r \<and> r \<le> p))"

definition circle :: "nat set \<Rightarrow> (nat \<Rightarrow> nat) \<Rightarrow> bool" where
  "circle A f \<longleftrightarrow> finite A \<and> (\<forall>p \<in> A. succ_in A p (f p))"

lemma circle_in: "circle A f \<Longrightarrow> p \<in> A \<Longrightarrow> f p \<in> A"
  by (auto simp: circle_def succ_in_def)

lemma succ_inI:
  "q \<in> A \<Longrightarrow> p < q \<Longrightarrow> (\<And>r. r \<in> A \<Longrightarrow> p < r \<Longrightarrow> q \<le> r) \<Longrightarrow> succ_in A p q"
  "q \<in> A \<Longrightarrow> (\<And>r. r \<in> A \<Longrightarrow> q \<le> r) \<Longrightarrow> (\<And>r. r \<in> A \<Longrightarrow> r \<le> p) \<Longrightarrow> succ_in A p q"
  by (auto simp: succ_in_def not_le [symmetric])

lemma succ_inE:
  assumes "succ_in A p q"
  obtains "q \<in> A" "p < q" "\<And>r. r \<in> A \<Longrightarrow> p < r \<Longrightarrow> q \<le> r" | "q \<in> A" "\<And>r. r \<in> A \<Longrightarrow> q \<le> r" "\<And>r. r \<in> A \<Longrightarrow> r \<le> p"
  using assms unfolding succ_in_def by (metis not_le)

lemma succ_in_inj:
  assumes "succ_in A p n" "succ_in A a n" "p \<in> A" "a \<in> A"
  shows "p = a"
  using assms(1)
proof (cases rule: succ_inE)
  case 1
  from assms(2) show ?thesis
  proof (cases rule: succ_inE)
    case 1
    then show ?thesis using \<open>p < n\<close> \<open>\<And>r. r \<in> A \<Longrightarrow> p < r \<Longrightarrow> n \<le> r\<close> assms(3,4) by (meson not_le not_less_iff_gr_or_eq)
  next
    case 2
    then show ?thesis using \<open>p < n\<close> assms(3) by (meson not_le)
  qed
next
  case 2
  from assms(2) show ?thesis
  proof (cases rule: succ_inE)
    case 1
    then show ?thesis using 2(2) [OF assms(4)] by simp
  next
    case 2
    then show ?thesis using \<open>\<And>r. r \<in> A \<Longrightarrow> r \<le> p\<close> assms(3,4) by (simp add: order_antisym)
  qed
qed

lemma circle_insert:
  assumes "circle A f" "r \<in> A" "b \<notin> A" "r < b" "\<And>q. q \<in> A \<Longrightarrow> r < q \<Longrightarrow> b < q"
  shows "circle (insert b A) (f(b := f r, r := b))"
proof -
  have "succ_in (insert b A) p ((f(b := f r, r := b)) p)" if p: "p \<in> insert b A" for p
  proof (cases "p = b \<or> p = r")
    case True
    have "succ_in A r (f r)" using assms by (simp add: circle_def)
    then have "succ_in (insert b A) b (f r)"
    proof (cases rule: succ_inE)
      case 1
      then show ?thesis using assms(4,5) by (intro succ_inI(1)) (auto intro: less_trans)
    next
      case 2
      then show ?thesis using assms(2,4) by (intro succ_inI(2)) force+
    qed
    moreover have "succ_in (insert b A) r b" using assms(4,5) by (intro succ_inI(1)) force+
    ultimately show ?thesis using True assms(4) by auto
  next
    case False
    then have pA: "p \<in> A" using p by auto
    then have "succ_in A p (f p)" using assms by (simp add: circle_def)
    then have "succ_in (insert b A) p (f p)"
    proof (cases rule: succ_inE)
      case 1
      have "f p \<le> b" if "p < b"
      proof -
        have "p < r" using assms(5) [OF pA] that False by (cases "r < p") auto
        then show ?thesis using 1(3) [OF assms(2)] assms(4) by simp
      qed
      then show ?thesis using 1 by (intro succ_inI(1)) auto
    next
      case 2
      have "b < p" using 2(3) [OF assms(2)] assms(2,5) pA False by force
      then show ?thesis using 2 2(2) [OF assms(2)] assms(4) by (intro succ_inI(2)) auto
    qed
    then show ?thesis using False by simp
  qed
  then show ?thesis using assms(1) by (simp add: circle_def)
qed

lemma circle_remove:
  assumes "circle A f" "a \<in> A" "f a \<noteq> a"
  shows "circle (A - {f a}) (f(a := f (f a)))"
proof -
  let ?n = "f a" let ?m = "f ?n"
  have nA: "?n \<in> A" using assms circle_in [of A f a] by simp
  have n: "succ_in A a ?n" and m: "succ_in A ?n ?m" using assms nA by (auto simp: circle_def)
  have "succ_in (A - {?n}) a ?m"
    using m
  proof (cases rule: succ_inE)
    case 1
    from n show ?thesis
    proof (cases rule: succ_inE)
      case 1
      then show ?thesis using m(1) \<open>?n < ?m\<close> \<open>\<And>r. r \<in> A \<Longrightarrow> ?n < r \<Longrightarrow> ?m \<le> r\<close> circle_in [OF assms(1) nA]
        by (intro succ_inI(1)) (auto intro: le_neq_implies_less)
    next
      case 2
      then show ?thesis using \<open>?n < ?m\<close> \<open>\<And>r. r \<in> A \<Longrightarrow> ?n < r \<Longrightarrow> ?m \<le> r\<close> circle_in [OF assms(1) nA]
        by (intro succ_inI(2)) (auto intro: le_neq_implies_less)
    qed
  next
    case 2
    then have last: "a < ?n" "?m \<noteq> ?n" using assms(2,3) by (force intro: le_neq_implies_less)+
    from n show ?thesis
    proof (cases rule: succ_inE)
      case 1
      then show ?thesis using 2 last by (intro succ_inI(2)) (auto, force)
    next
      case 2
      then show ?thesis using last assms(2) by force
    qed
  qed
  moreover have "succ_in (A - {?n}) p (f p)" if p: "p \<in> A - {?n}" "p \<noteq> a" for p
  proof -
    have "succ_in A p (f p)" using p assms by (simp add: circle_def)
    moreover have "f p \<noteq> ?n"
    proof
      assume "f p = ?n"
      then have "succ_in A p ?n" using \<open>succ_in A p (f p)\<close> by simp
      then show False using succ_in_inj [OF _ n _ assms(2)] p by blast
    qed
    ultimately show ?thesis by (auto simp: succ_in_def)
  qed
  ultimately show ?thesis using assms(1) by (simp add: circle_def)
qed

section \<open>Free memory\<close>

text \<open>
  The free blocks: their addresses \<open>A\<close> form a circle with \<open>base\<close> as its first and only empty block; only those in \<open>T\<close> may touch the
  block that follows, and between calls none does. The bound on addresses keeps the number of units of a block in 32 bits when blocks are joined.
\<close>

abbreviation block_end :: "umalloc \<Rightarrow> nat \<Rightarrow> nat" where
  "block_end u p \<equiv> hadd p (hsize (heap u p))"

definition fbytes :: "umalloc \<Rightarrow> nat set \<Rightarrow> nat set" where
  "fbytes u A = (\<Union>p \<in> A. {p..<block_end u p})"

definition heap_w :: "nat \<Rightarrow> nat set \<Rightarrow> umalloc \<Rightarrow> nat set \<Rightarrow> bool" where
  "heap_w base T u A \<longleftrightarrow> circle A (\<lambda>p. hptr (heap u p)) \<and> base \<in> A \<and> 0 < base \<and> hsize (heap u base) = 0 \<and>
     (\<forall>p \<in> A. p \<noteq> base \<longrightarrow> base + 16 \<le> p \<and> 0 < hsize (heap u p) \<and> block_end u p \<le> 2 ^ 36) \<and>
     (\<forall>p \<in> A. \<forall>q \<in> A. base < p \<and> p < q \<longrightarrow> block_end u p \<le> q \<and> (block_end u p = q \<longrightarrow> p \<in> T))"

definition heap_ok :: "nat \<Rightarrow> umalloc \<Rightarrow> nat set \<Rightarrow> bool" where
  "heap_ok base u A \<longleftrightarrow> heap_w base {} u A \<and> freep u \<in> A"

lemma heap_wD:
  assumes "heap_w base T u A"
  shows "circle A (\<lambda>p. hptr (heap u p))" "finite A" "base \<in> A" "0 < base" "hsize (heap u base) = 0"
    "p \<in> A \<Longrightarrow> p \<noteq> base \<Longrightarrow> base + 16 \<le> p" "p \<in> A \<Longrightarrow> p \<noteq> base \<Longrightarrow> 0 < hsize (heap u p)"
    "p \<in> A \<Longrightarrow> p \<noteq> base \<Longrightarrow> block_end u p \<le> 2 ^ 36" "p \<in> A \<Longrightarrow> base \<le> p"
    "p \<in> A \<Longrightarrow> q \<in> A \<Longrightarrow> base < p \<Longrightarrow> p < q \<Longrightarrow> block_end u p \<le> q"
    "p \<in> A \<Longrightarrow> q \<in> A \<Longrightarrow> base < p \<Longrightarrow> p < q \<Longrightarrow> block_end u p = q \<Longrightarrow> p \<in> T"
  using assms by (force simp: heap_w_def circle_def)+

lemma heap_okI:
  assumes "circle A (\<lambda>p. hptr (heap u p))" "base \<in> A" "0 < base" "hsize (heap u base) = 0" "\<And>p. p \<in> A \<Longrightarrow> p \<noteq> base \<Longrightarrow> base + 16 \<le> p"
    "\<And>p. p \<in> A \<Longrightarrow> p \<noteq> base \<Longrightarrow> 0 < hsize (heap u p)" "\<And>p. p \<in> A \<Longrightarrow> p \<noteq> base \<Longrightarrow> block_end u p \<le> 2 ^ 36"
    "\<And>p q. p \<in> A \<Longrightarrow> q \<in> A \<Longrightarrow> base < p \<Longrightarrow> p < q \<Longrightarrow> block_end u p < q" "freep u \<in> A"
  shows "heap_ok base u A"
proof -
  have "block_end u p \<le> q \<and> block_end u p \<noteq> q" if "p \<in> A" "q \<in> A" "base < p" "p < q" for p q using assms(8) [OF that] by simp
  then show ?thesis using assms(1-7,9) unfolding heap_ok_def heap_w_def by blast
qed

lemma fbytes_cong: "(\<And>p. p \<in> A \<Longrightarrow> block_end v p = block_end u p) \<Longrightarrow> fbytes v A = fbytes u A"
  by (simp add: fbytes_def)

lemma hadd_simps [simp]: "hadd p 0 = p" "p \<le> hadd p n" "p < hadd p n \<longleftrightarrow> 0 < n"
  by (auto simp: hadd_def unat_gt_0 word_gt_0)

text \<open>The search ends at the free block before the one that is given back, wherever it starts.\<close>

lemma free_search_spec:
  assumes c: "circle A (\<lambda>p. hptr (h p))" and base: "base \<in> A" "\<And>q. q \<in> A \<Longrightarrow> base \<le> q" and bp: "bp \<notin> A" "base < bp" and p: "p \<in> A"
  shows "\<exists>r \<in> A. free_search h bp p = Some r \<and> r < bp \<and> (\<forall>q \<in> A. r < q \<longrightarrow> bp < q)"
  using p
proof (induction "if p < bp then card {q \<in> A. p < q \<and> q < bp} else card A + card {q \<in> A. p < q}" arbitrary: p rule: less_induct)
  case less
  have fin: "finite A" using c by (simp add: circle_def)
  let ?q = "hptr (h p)"
  have q: "succ_in A p ?q" "?q \<in> A" using c less.prems circle_in [OF c less.prems] by (auto simp: circle_def)
  note step = free_search.simps [of h bp p]
  from q(1) show ?case
  proof (cases rule: succ_inE)
    case 1
    show ?thesis
    proof (cases "p < bp")
      case True
      show ?thesis
      proof (cases "bp < ?q")
        case True
        then show ?thesis using 1 \<open>p < bp\<close> less.prems step by (intro bexI [of _ p]) (auto intro: less_le_trans)
      next
        case False
        then have qb: "?q < bp" using bp(1) q(2) by (cases "?q = bp") auto
        have "{r \<in> A. ?q < r \<and> r < bp} \<subset> {r \<in> A. p < r \<and> r < bp}" using 1 qb by auto
        then have "card {r \<in> A. ?q < r \<and> r < bp} < card {r \<in> A. p < r \<and> r < bp}" using fin by (intro psubset_card_mono) auto
        then show ?thesis using less.hyps [of ?q] q(2) qb True 1 False step by auto
      qed
    next
      case False
      then have pb: "bp < p" using bp(1) less.prems by (cases "bp = p") auto
      have "{r \<in> A. ?q < r} \<subset> {r \<in> A. p < r}" using 1 by auto
      then have "card {r \<in> A. ?q < r} < card {r \<in> A. p < r}" using fin by (intro psubset_card_mono) auto
      then show ?thesis using less.hyps [of ?q] q(2) pb 1 step by auto
    qed
  next
    case 2
    then have qb: "?q = base" using base q(2) by (meson order_antisym)
    show ?thesis
    proof (cases "p < bp")
      case True
      then show ?thesis using 2 qb less.prems step by (intro bexI [of _ p]) (auto dest: 2(3))
    next
      case False
      then have pb: "bp < p" using bp(1) less.prems by (cases "bp = p") auto
      have "{r \<in> A. base < r \<and> r < bp} \<subset> A" using base by auto
      then have "card {r \<in> A. base < r \<and> r < bp} < card A" using fin by (intro psubset_card_mono) auto
      then show ?thesis using less.hyps [of ?q] q(2) pb qb bp(2) 2 step by auto
    qed
  qed
qed

lemma circle_cong: "circle A f \<Longrightarrow> (\<And>p. p \<in> A \<Longrightarrow> g p = f p) \<Longrightarrow> circle A g"
  by (auto simp: circle_def)

lemma heap_set [simp]: "heap (set_ptr p q u) = (heap u)(p := (heap u p)\<lparr>hptr := q\<rparr>)" "heap (set_size p n u) = (heap u)(p := (heap u p)\<lparr>hsize := n\<rparr>)"
  "freep (set_ptr p q u) = freep u" "freep (set_size p n u) = freep u"
  by (simp_all add: set_ptr_def set_size_def)

text \<open>A block that joins the circle.\<close>

lemma insert_block:
  assumes w: "heap_w base {} u A" and r: "r \<in> A" "r < bp" "\<And>q. q \<in> A \<Longrightarrow> r < q \<Longrightarrow> bp < q" and bp: "bp \<notin> A" "base + 16 \<le> bp"
    "0 < hsize (heap u bp)" "block_end u bp \<le> 2 ^ 36" "{bp..<block_end u bp} \<inter> fbytes u A = {}"
  defines "v \<equiv> set_ptr r bp (set_ptr bp (hptr (heap u r)) u)"
  shows "heap_w base {r, bp} v (insert bp A)" "fbytes v (insert bp A) = fbytes u A \<union> {bp..<block_end u bp}"
proof -
  note D = heap_wD [OF w]
  have sz: "hsize (heap v q) = hsize (heap u q)" for q by (simp add: v_def)
  have up: "block_end u bp \<le> q" if "q \<in> A" "r < q" for q
  proof (rule ccontr)
    assume "\<not> ?thesis"
    moreover have "bp < q" "base < q" using r(3) [OF that] bp(2) by auto
    moreover have "q \<in> fbytes u A" using that(1) D(7) [of q] \<open>base < q\<close> unfolding fbytes_def by (intro UN_I [of q]) auto
    ultimately have "q \<in> {bp..<block_end u bp} \<inter> fbytes u A" by simp
    then show False using bp(5) by blast
  qed
  have down: "block_end u q \<le> bp" if "q \<in> A" "q \<le> r" for q
  proof (rule ccontr)
    assume "\<not> ?thesis"
    then have "bp \<in> fbytes u A" using that r(2) unfolding fbytes_def by (intro UN_I [of q]) auto
    moreover have "bp \<in> {bp..<block_end u bp}" using bp(3) by simp
    ultimately show False using bp(5) by blast
  qed
  have "circle (insert bp A) ((\<lambda>p. hptr (heap u p))(bp := hptr (heap u r), r := bp))"
    by (rule circle_insert [OF D(1) r(1) bp(1) r(2,3)])
  then have c: "circle (insert bp A) (\<lambda>p. hptr (heap v p))" using r(2) by (elim circle_cong) (simp add: v_def)
  have gap: "block_end u p \<le> q \<and> (block_end u p = q \<longrightarrow> p \<in> {r, bp})" if "p \<in> insert bp A" "q \<in> insert bp A" "base < p" "p < q" for p q
  proof (cases "p = bp")
    case True
    then show ?thesis using that up [of q] r(2) by auto
  next
    case False
    show ?thesis
    proof (cases "q = bp")
      case True
      then have "p \<le> r" using that False r(3) [of p] by (cases "r < p") auto
      then have "block_end u p \<le> bp" "p \<noteq> r \<longrightarrow> block_end u p < bp"
        using down [of p] D(10) [of p r] that False r(1,2) by (auto simp: le_less)
      then show ?thesis using True by auto
    next
      case q: False
      then show ?thesis using that False D(10,11) [of p q] by auto
    qed
  qed
  show "heap_w base {r, bp} v (insert bp A)"
    unfolding heap_w_def sz using c D bp(2-4) gap by auto
  show "fbytes v (insert bp A) = fbytes u A \<union> {bp..<block_end u bp}"
    by (auto simp: fbytes_def sz)
qed

text \<open>A block is joined with the next one when they touch.\<close>

definition join_next :: "nat \<Rightarrow> umalloc \<Rightarrow> umalloc" where
  "join_next p u = (let n = hptr (heap u p) in
     if block_end u p = n then set_ptr p (hptr (heap u n)) (set_size p (hsize (heap u p) + hsize (heap u n)) u) else u)"

lemma join_next_spec:
  assumes w: "heap_w base (insert p T) u A" and p: "p \<in> A" "p < hptr (heap u p)" "p \<notin> T" "hptr (heap u p) \<notin> insert p T"
  defines "n \<equiv> hptr (heap u p)"
  shows "heap_w base T (join_next p u) (if block_end u p = n then A - {n} else A)"
    "fbytes (join_next p u) (if block_end u p = n then A - {n} else A) = fbytes u A"
proof -
  note D = heap_wD [OF w]
  have n: "n \<in> A" "p < n" "succ_in A p n" using D(1) p unfolding n_def by (auto simp: circle_def succ_in_def)
  have nb: "n \<noteq> base" "base < n" using D(9) [OF p(1)] n(2) by auto
  have after: "n \<le> q" if "q \<in> A" "p < q" for q using n(2,3) that by (force simp: succ_in_def)
  have "heap_w base T (join_next p u) (if block_end u p = n then A - {n} else A) \<and>
    fbytes (join_next p u) (if block_end u p = n then A - {n} else A) = fbytes u A"
  proof (cases "block_end u p = n")
    case True
    then have pb: "p \<noteq> base" using n(2) D(5) by auto
    have fit: "p + 16 * (unat (hsize (heap u p)) + unat (hsize (heap u n))) = block_end u n" using True by (simp add: hadd_def)
    then have "16 * (unat (hsize (heap u p)) + unat (hsize (heap u n))) < 2 ^ 36" using D(8) [OF n(1) nb(1)] D(4) D(9) [OF p(1)] by linarith
    then have sum: "unat (hsize (heap u p) + hsize (heap u n)) = unat (hsize (heap u p)) + unat (hsize (heap u n))"
      by (simp add: unat_word_ariths)
    let ?v = "set_ptr p (hptr (heap u n)) (set_size p (hsize (heap u p) + hsize (heap u n)) u)"
    have v: "join_next p u = ?v" using True by (simp add: join_next_def n_def Let_def)
    have ends: "block_end ?v q = (if q = p then block_end u n else block_end u q)" for q
      using fit sum by (simp add: hadd_def)
    have "circle (A - {n}) ((\<lambda>p. hptr (heap u p))(p := hptr (heap u n)))"
      using circle_remove [OF D(1) p(1)] n(2) unfolding n_def by simp
    then have c: "circle (A - {n}) (\<lambda>p. hptr (heap ?v p))" by (elim circle_cong) simp
    have pos: "0 < hsize (heap ?v p)" using sum D(7) [OF p(1) pb] by (simp add: word_less_nat_alt)
    have pos': "0 < hsize (heap ?v q)" if "q \<in> A" "q \<noteq> base" for q using pos D(7) [OF that] by (cases "q = p") auto
    have top: "block_end ?v q \<le> 2 ^ 36" if "q \<in> A" "q \<noteq> base" for q
      unfolding ends using D(8) [OF n(1) nb(1)] D(8) [OF that] by auto
    have gap: "block_end ?v q \<le> q' \<and> (block_end ?v q = q' \<longrightarrow> q \<in> T)" if "q \<in> A - {n}" "q' \<in> A - {n}" "base < q" "q < q'" for q q'
    proof (cases "q = p")
      case True
      then have "n < q'" using after [of q'] that by (auto simp: le_less)
      then have "block_end u n < q'" using D(10,11) [of n q'] n(1) nb that p(4) unfolding n_def by (auto simp: le_less)
      then show ?thesis unfolding ends using True by simp
    next
      case False
      then show ?thesis unfolding ends using D(10,11) [of q q'] that by auto
    qed
    have "heap_w base T ?v (A - {n})"
      unfolding heap_w_def using c D(3,4,5,6) pos' top gap nb pb by auto
    moreover have "fbytes ?v (A - {n}) = fbytes u A"
    proof -
      have "{p..<block_end u n} = {p..<block_end u p} \<union> {n..<block_end u n}" using True n(2) by (auto simp: ivl_disj_un_two(3))
      moreover have "fbytes u A = fbytes u (A - {p, n}) \<union> ({p..<block_end u p} \<union> {n..<block_end u n})"
        using p(1) n(1) unfolding fbytes_def by blast
      moreover have "fbytes ?v (A - {n}) = fbytes u (A - {p, n}) \<union> {p..<block_end u n}"
      proof -
        have "A - {n} = insert p (A - {p, n})" using p(1) n(2) by auto
        then show ?thesis unfolding fbytes_def by (simp only: UN_insert ends) auto
      qed
      ultimately show ?thesis by simp
    qed
    ultimately show ?thesis using True v by simp
  next
    case False
    have "block_end u p < q" if "q \<in> A" "p < q" "base < p" for q
      using after [OF that(1,2)] D(10) [OF p(1) n(1) that(3) n(2)] False by auto
    then have "heap_w base T u A" using w unfolding heap_w_def by (metis insert_iff less_irrefl)
    then show ?thesis using False by (simp add: join_next_def n_def Let_def)
  qed
  then show "heap_w base T (join_next p u) (if block_end u p = n then A - {n} else A)"
    "fbytes (join_next p u) (if block_end u p = n then A - {n} else A) = fbytes u A" by blast+
qed

lemma join_next_last:
  assumes w: "heap_w base (insert p T) u A" and p: "\<And>q. q \<in> A \<Longrightarrow> q \<le> p" "hptr (heap u p) < p"
  shows "join_next p u = u" "heap_w base T u A"
proof -
  have "block_end u p \<noteq> hptr (heap u p)" using p(2) hadd_simps(2) [of p "hsize (heap u p)"] by linarith
  then show "join_next p u = u" by (simp add: join_next_def Let_def)
  show "heap_w base T u A" using w p(1) unfolding heap_w_def by (metis insert_iff not_less)
qed

lemma free_link_joins:
  assumes "bp \<noteq> r" "hptr (heap u r) \<noteq> bp" "block_end u bp = hptr (heap u r) \<Longrightarrow> hptr (heap u r) \<noteq> r"
  shows "free_link bp r u = (join_next r (join_next bp (set_ptr r bp (set_ptr bp (hptr (heap u r)) u))))\<lparr>freep := r\<rparr>"
  using assms by (simp add: free_link_def join_next_def Let_def set_ptr_def set_size_def fun_upd_twist)

text \<open>\<open>free\<close> returns, and adds the block to the free memory; it changes no header but those of free blocks and its own.\<close>

lemma free_spec:
  assumes ok: "heap_ok base u A" and bp: "base + 16 \<le> bp" "0 < hsize (heap u bp)" "block_end u bp \<le> 2 ^ 36" "{bp..<block_end u bp} \<inter> fbytes u A = {}"
  shows "\<exists>v B. ufree (bp + 16) u = Some v \<and> heap_ok base v B \<and> fbytes v B = fbytes u A \<union> {bp..<block_end u bp} \<and>
    (\<forall>q. q \<notin> A \<and> q \<noteq> bp \<longrightarrow> heap v q = heap u q)"
proof -
  have w: "heap_w base {} u A" and fp: "freep u \<in> A" using ok by (auto simp: heap_ok_def)
  note D = heap_wD [OF w]
  have bA: "bp \<notin> A"
  proof
    assume "bp \<in> A"
    then have "bp \<in> {bp..<block_end u bp} \<inter> fbytes u A" using bp(2) by (auto simp: fbytes_def)
    then show False using bp(4) by blast
  qed
  have "base < bp" using bp(1) by simp
  obtain r where r: "r \<in> A" "free_search (heap u) bp (freep u) = Some r" "r < bp" "\<And>q. q \<in> A \<Longrightarrow> r < q \<Longrightarrow> bp < q"
    using free_search_spec [OF D(1,3) D(9) bA \<open>base < bp\<close> fp] by blast
  let ?n = "hptr (heap u r)" let ?v = "set_ptr r bp (set_ptr bp ?n u)"
  have nA: "?n \<in> A" and ns: "succ_in A r ?n" using D(1) r(1) by (auto simp: circle_def succ_in_def)
  note ins = insert_block [OF w r(1,3,4) bA bp]
  have vn: "hptr (heap ?v bp) = ?n" "block_end ?v bp = block_end u bp" using r(3) by simp_all
  have n_up: "r < ?n \<Longrightarrow> bp < ?n" using r(4) nA by blast
  have ends: "block_end u bp = ?n \<Longrightarrow> r < ?n" using bp(2) r(3) hadd_simps(3) [of bp "hsize (heap u bp)"] by linarith
  have tw: "insert bp {r} = {r, bp}" by auto
  obtain B where B: "heap_w base {r} (join_next bp ?v) B" "fbytes (join_next bp ?v) B = fbytes ?v (insert bp A)" "bp \<in> B" "r \<in> B" "B \<subseteq> insert bp A"
  proof (cases "r < ?n")
    case True
    have np: "bp < hptr (heap ?v bp)" "bp \<notin> {r}" "hptr (heap ?v bp) \<notin> insert bp {r}" using vn n_up True r(3) by auto
    have "bp \<in> insert bp A" by simp
    note j = join_next_spec [of base bp "{r}" ?v "insert bp A", unfolded tw, OF ins(1) this np [unfolded tw]]
    then show thesis using that [of "if block_end ?v bp = hptr (heap ?v bp) then insert bp A - {hptr (heap ?v bp)} else insert bp A"] np r(1,3) n_up True vn
      by (auto split: if_splits)
  next
    case False
    then have last: "q \<in> A \<Longrightarrow> q \<le> r" for q using ns by (auto simp: succ_in_def)
    have "q \<le> bp" if "q \<in> insert bp A" for q using last [of q] that r(3) by auto
    moreover have "hptr (heap ?v bp) < bp" using vn False r(3) by simp
    ultimately have "join_next bp ?v = ?v" "heap_w base {r} ?v (insert bp A)" using join_next_last [of base bp "{r}" ?v "insert bp A", unfolded tw] ins(1) by blast+
    then show thesis using that [of "insert bp A"] r(1) by simp
  qed
  let ?x = "join_next bp ?v"
  have xr: "hptr (heap ?x r) = bp" using r(3) by (auto simp: join_next_def Let_def)
  have rp: "r < hptr (heap ?x r)" "r \<notin> {}" "hptr (heap ?x r) \<notin> insert r {}" using xr r(3) by auto
  let ?B = "if block_end ?x r = hptr (heap ?x r) then B - {hptr (heap ?x r)} else B"
  note j = join_next_spec [of base r "{}" ?x B, OF B(1,4) rp]
  let ?y = "(join_next r ?x)\<lparr>freep := r\<rparr>"
  have "free_link bp r u = ?y"
  proof (rule free_link_joins)
    show "?n \<noteq> bp" using nA bA by blast
    show "?n \<noteq> r" if "block_end u bp = ?n" using ends [OF that] by simp
  qed (use r(3) in simp)
  then have "ufree (bp + 16) u = Some ?y" using r(2) by (simp add: ufree_def Let_def)
  moreover have "heap_ok base ?y ?B" using j(1) B(4) xr r(3) by (auto simp: heap_ok_def heap_w_def)
  moreover have "fbytes ?y ?B = fbytes u A \<union> {bp..<block_end u bp}" using j(2) B(2) ins(2) by (simp add: fbytes_def)
  moreover have "heap ?y q = heap u q" if "q \<notin> A" "q \<noteq> bp" for q using that r(1) by (auto simp: join_next_def Let_def)
  ultimately show ?thesis by blast
qed

section \<open>Taking memory\<close>

text \<open>The blocks of a circle are apart from each other.\<close>

lemma free_blocks_apart:
  assumes "heap_w base {} u A" "p \<in> A" "q \<in> A" "p \<noteq> q"
  shows "{p..<block_end u p} \<inter> {q..<block_end u q} = {}"
proof -
  have *: "{p..<block_end u p} \<inter> {q..<block_end u q} = {}" if "p \<in> A" "q \<in> A" "p < q" for p q
  proof (cases "p = base")
    case True
    then show ?thesis using heap_wD(5) [OF assms(1)] by simp
  next
    case False
    then have "block_end u p \<le> q" using heap_wD(9,10) [OF assms(1)] that by (metis le_neq_implies_less)
    then show ?thesis by auto
  qed
  show ?thesis using * [of p q] * [of q p] assms(2-4) by (cases "p < q") auto
qed

lemma fbytes_minus:
  assumes "heap_w base {} u A" "p \<in> A"
  shows "fbytes u A = {p..<block_end u p} \<union> fbytes u (A - {p})" "{p..<block_end u p} \<inter> fbytes u (A - {p}) = {}"
proof -
  show "fbytes u A = {p..<block_end u p} \<union> fbytes u (A - {p})" using assms(2) by (auto simp: fbytes_def)
  show "{p..<block_end u p} \<inter> fbytes u (A - {p}) = {}" unfolding fbytes_def Int_UN_distrib
    using free_blocks_apart [OF assms] by blast
qed

text \<open>The result of a successful \<open>malloc\<close>: a block of the units asked for, taken out of the memory \<open>F\<close>.\<close>

definition taken :: "nat \<Rightarrow> u32 \<Rightarrow> nat set \<Rightarrow> umalloc \<Rightarrow> nat \<Rightarrow> umalloc \<Rightarrow> bool" where
  "taken base nunits F u r v \<longleftrightarrow> (\<exists>p B. r = p + 16 \<and> base + 16 \<le> p \<and> heap_ok base v B \<and> hsize (heap v p) = nunits \<and> hadd p nunits \<le> 2 ^ 36 \<and>
     {p..<hadd p nunits} \<subseteq> F \<and> fbytes v B = F - {p..<hadd p nunits} \<and> (\<forall>q. q \<notin> insert base F \<longrightarrow> heap v q = heap u q))"

lemma take_all:
  assumes w: "heap_w base {} u A" and pr: "pr \<in> A" "hptr (heap u pr) = p" "p \<noteq> base" "hsize (heap u p) = nunits"
  shows "\<exists>r v. malloc_take nunits pr p u = (r, v) \<and> taken base nunits (fbytes u A) u r v"
proof -
  note D = heap_wD [OF w]
  have p: "p \<in> A" using circle_in [OF D(1) pr(1)] pr(2) by simp
  have "succ_in A pr p" using D(1) pr(1,2) by (auto simp: circle_def)
  then have ne: "p \<noteq> pr" using D(3) pr(3) by (force simp: succ_in_def)
  let ?v = "(set_ptr pr (hptr (heap u p)) u)\<lparr>freep := pr\<rparr>"
  have ends: "block_end ?v q = block_end u q" for q by simp
  have "circle (A - {p}) ((\<lambda>q. hptr (heap u q))(pr := hptr (heap u p)))" using circle_remove [OF D(1) pr(1)] ne pr(2) by simp
  then have c: "circle (A - {p}) (\<lambda>q. hptr (heap ?v q))" by (elim circle_cong) simp
  have gap: "q \<in> A \<Longrightarrow> q' \<in> A \<Longrightarrow> base < q \<Longrightarrow> q < q' \<Longrightarrow> block_end u q < q'" for q q' using D(10,11) [of q q'] by (auto simp: le_less)
  have ok: "heap_ok base ?v (A - {p})"
    by (rule heap_okI, unfold ends) (use c D(3-8) pr(1,3) ne gap in auto)
  have "fbytes ?v (A - {p}) = fbytes u (A - {p})" by (rule fbytes_cong) (rule ends)
  then have f: "fbytes ?v (A - {p}) = fbytes u A - {p..<hadd p nunits}" using fbytes_minus [OF w p] pr(4) by auto
  have "pr \<in> insert base (fbytes u A)" using D(7) [OF pr(1)] pr(1) by (force simp: fbytes_def)
  then have "heap ?v q = heap u q" if "q \<notin> insert base (fbytes u A)" for q using that by auto
  moreover have "{p..<hadd p nunits} \<subseteq> fbytes u A" using p pr(4) by (auto simp: fbytes_def)
  ultimately have "taken base nunits (fbytes u A) u (p + 16) ?v"
    unfolding taken_def using ok f D(6) [OF p pr(3)] D(8) [OF p pr(3)] pr(4) ne by (intro exI [of _ p] exI [of _ "A - {p}"]) auto
  then show ?thesis using pr(4) by (simp add: malloc_take_def)
qed

lemma take_tail:
  assumes w: "heap_w base {} u A" and pr: "pr \<in> A" "p \<in> A" "p \<noteq> base" "nunits < hsize (heap u p)" "0 < nunits"
  shows "\<exists>r v. malloc_take nunits pr p u = (r, v) \<and> taken base nunits (fbytes u A) u r v"
proof -
  note D = heap_wD [OF w]
  let ?s = "hsize (heap u p)" let ?x = "hadd p (?s - nunits)"
  let ?v = "(set_size ?x nunits (set_size p (?s - nunits) u))\<lparr>freep := pr\<rparr>"
  have u: "unat (?s - nunits) = unat ?s - unat nunits" "unat nunits < unat ?s" "0 < unat nunits"
    using pr(4,5) unat_sub [of nunits ?s] by (auto simp: word_less_nat_alt word_le_nat_alt)
  have x: "p < ?x" "?x < block_end u p" "hadd ?x nunits = block_end u p" using u by (auto simp: hadd_def)
  have xA: "?x \<notin> A"
  proof
    assume "?x \<in> A"
    then have "block_end u p \<le> ?x" using D(10) [OF pr(2) _ _ x(1)] D(9) [OF pr(2)] pr(3) by simp
    then show False using x(2) by simp
  qed
  have ends: "block_end ?v q = (if q = p then ?x else block_end u q)" if "q \<in> A" for q using that xA x(1) by auto
  have sz: "q \<in> A \<Longrightarrow> q \<noteq> base \<Longrightarrow> 0 < hsize (heap ?v q)" "q \<in> A \<Longrightarrow> hptr (heap ?v q) = hptr (heap u q)" for q
    using D(7) [of q] xA u by (auto simp: word_less_nat_alt)
  have c: "circle A (\<lambda>q. hptr (heap ?v q))" using D(1) by (rule circle_cong) (use sz(2) in blast)
  have gap: "block_end ?v q < q'" if "q \<in> A" "q' \<in> A" "base < q" "q < q'" for q q'
    unfolding ends [OF that(1)] using D(10,11) [OF that] x(2) by (auto simp: le_less)
  have top: "block_end ?v q \<le> 2 ^ 36" if "q \<in> A" "q \<noteq> base" for q unfolding ends [OF that(1)] using D(8) [OF that] x(2) by auto
  have base: "hsize (heap ?v base) = 0" using D(5,3) xA pr(3) by auto
  have ok: "heap_ok base ?v A" using pr(1) by (intro heap_okI c D(3,4,6) base sz(1) top gap) simp_all
  have "fbytes ?v A = {p..<block_end ?v p} \<union> fbytes ?v (A - {p})" using pr(2) unfolding fbytes_def by blast
  then have "fbytes ?v A = {p..<?x} \<union> fbytes ?v (A - {p})" unfolding ends [OF pr(2)] by simp
  moreover have "fbytes ?v (A - {p}) = fbytes u (A - {p})" by (rule fbytes_cong) (subst ends, auto)
  moreover have "{p..<block_end u p} = {p..<?x} \<union> {?x..<block_end u p}" "{p..<?x} \<inter> {?x..<block_end u p} = {}"
    using x(1,2) by (auto simp del: hadd_simps)
  ultimately have f: "fbytes ?v A = fbytes u A - {?x..<hadd ?x nunits}"
    unfolding x(3) using fbytes_minus [OF w pr(2)] by blast
  have "{p..<block_end u p} \<subseteq> fbytes u A" using pr(2) unfolding fbytes_def by blast
  moreover have "{?x..<hadd ?x nunits} \<subseteq> {p..<block_end u p}" "?x \<in> {p..<block_end u p}" "p \<in> {p..<block_end u p}"
    using x by (auto simp del: hadd_simps)
  ultimately have sub: "{?x..<hadd ?x nunits} \<subseteq> fbytes u A" "?x \<in> fbytes u A" "p \<in> fbytes u A" by blast+
  then have "heap ?v q = heap u q" if "q \<notin> insert base (fbytes u A)" for q using that by auto
  moreover have "base + 16 \<le> ?x" using D(6) [OF pr(2,3)] x(1) by linarith
  ultimately have "taken base nunits (fbytes u A) u (?x + 16) ?v"
    unfolding taken_def using ok f sub(1) D(8) [OF pr(2,3)] x(3) by (intro exI [of _ ?x] exI [of _ A]) auto
  moreover have "?s \<noteq> nunits" using pr(4) by auto
  ultimately show ?thesis by (simp add: malloc_take_def Let_def)
qed

lemma take_spec:
  assumes "heap_w base {} u A" "pr \<in> A" "hptr (heap u pr) = p" "nunits \<le> hsize (heap u p)" "0 < nunits"
  shows "\<exists>r v. malloc_take nunits pr p u = (r, v) \<and> taken base nunits (fbytes u A) u r v"
proof -
  have "p \<noteq> base" using heap_wD(5) [OF assms(1)] assms(4,5) by auto
  moreover have "p \<in> A" using circle_in [OF heap_wD(1) [OF assms(1)] assms(2)] assms(3) by simp
  ultimately show ?thesis using take_all [OF assms(1-3)] take_tail [OF assms(1,2)] assms(4,5) by (auto simp: le_less)
qed

section \<open>The loop of malloc\<close>

text \<open>The blocks that the loop has still to see, from \<open>p\<close> to \<open>freep\<close> around the circle.\<close>

definition arc :: "nat set \<Rightarrow> nat \<Rightarrow> nat \<Rightarrow> nat set" where
  "arc A p f = {q \<in> A. if p \<le> f then p \<le> q \<and> q \<le> f else p \<le> q \<or> q \<le> f}"

lemma arc_step:
  assumes "circle A g" "p \<in> A" "f \<in> A" "p \<noteq> f"
  shows "arc A (g p) f = arc A p f - {p}"
proof -
  have "succ_in A p (g p)" using assms by (simp add: circle_def)
  then show ?thesis
  proof (cases rule: succ_inE)
    case 1
    have *: "q \<in> A \<Longrightarrow> g p \<le> q \<longleftrightarrow> p < q" for q using 1(2) 1(3) [of q] by auto
    show ?thesis using * [OF assms(3)] * assms(3,4) 1(2) by (auto simp: arc_def)
  next
    case 2
    then have "f < p" "g p \<le> f" using assms(3,4) by (auto simp: le_less)
    then show ?thesis using 2 by (auto simp: arc_def order_antisym)
  qed
qed

lemma arc_full:
  assumes "circle A g" "f \<in> A"
  shows "arc A (g f) f = A"
proof -
  have "succ_in A f (g f)" using assms by (simp add: circle_def)
  then show ?thesis
  proof (cases rule: succ_inE)
    case 1
    then show ?thesis by (auto simp: arc_def not_le)
  next
    case 2
    then show ?thesis using assms(2) by (auto simp: arc_def)
  qed
qed

text \<open>The loop takes the first block that is large enough; when there is none it asks for more memory.\<close>

lemma malloc_loop_search:
  assumes ok: "heap_ok base u A" and n: "0 < nunits" and pr: "pr \<in> A" "hptr (heap u pr) = p"
  shows "(\<exists>r v. malloc_loop S nunits pr p u w = Some (r, v, w) \<and> taken base nunits (fbytes u A) u r v) \<or>
    (\<forall>q \<in> arc A p (freep u). hsize (heap u q) < nunits) \<and>
    malloc_loop S nunits pr p u w = Option.bind (morecore S nunits u w) (\<lambda>(p, u, w).
      if p = 0 then Some (0, u, w) else malloc_loop S nunits p (hptr (heap u p)) u w)"
  using pr
proof (induction "card (arc A p (freep u))" arbitrary: pr p rule: less_induct)
  case less
  have w: "heap_w base {} u A" and f: "freep u \<in> A" using ok by (auto simp: heap_ok_def)
  note D = heap_wD [OF w]
  have p: "p \<in> A" using circle_in [OF D(1) less.prems(1)] less.prems(2) by simp
  note step = malloc_loop.simps [of S nunits pr p u w]
  show ?case
  proof (cases "nunits \<le> hsize (heap u p)")
    case True
    then show ?thesis using take_spec [OF w less.prems True n] step by auto
  next
    case small: False
    show ?thesis
    proof (cases "p = freep u")
      case True
      moreover have "arc A p p = {p}" using p by (auto simp: arc_def)
      ultimately show ?thesis using small step by auto
    next
      case False
      have arc: "arc A (hptr (heap u p)) (freep u) = arc A p (freep u) - {p}" by (rule arc_step [OF D(1) p f False])
      have "p \<in> arc A p (freep u)" using p by (auto simp: arc_def)
      moreover have "finite (arc A p (freep u))" using D(2) by (simp add: arc_def)
      ultimately have "card (arc A (hptr (heap u p)) (freep u)) < card (arc A p (freep u))" unfolding arc by (metis card_Diff1_less)
      then show ?thesis using less.hyps [of "hptr (heap u p)" p] p arc small False step by auto
    qed
  qed
qed

section \<open>More memory\<close>

text \<open>What \<open>sbrk\<close> does, in the addresses that matter: it fails, or moves the end of memory and gives the old one.\<close>

definition core_ok :: "'w sys \<Rightarrow> ('w \<Rightarrow> nat) \<Rightarrow> bool" where
  "core_ok S brk \<longleftrightarrow> (\<forall>n w. 0 \<le> n \<and> brk w + nat n \<le> 2 ^ 36 \<longrightarrow> (let (r, w') = sys_sbrk S n w in
     r = - 1 \<and> brk w' = brk w \<or> r = int (brk w) \<and> brk w' = brk w + nat n))"

text \<open>Free memory without a gap lies in one block.\<close>

lemma interval_in_block:
  assumes w: "heap_w base {} u A" and i: "{a..<b} \<subseteq> fbytes u A" "a < b"
  shows "\<exists>q \<in> A. q \<le> a \<and> b \<le> block_end u q"
proof -
  note D = heap_wD [OF w]
  have "a \<in> fbytes u A" using i by auto
  then obtain q where q: "q \<in> A" "q \<le> a" "a < block_end u q" by (auto simp: fbytes_def)
  have gap: "x \<in> A \<Longrightarrow> y \<in> A \<Longrightarrow> base < x \<Longrightarrow> x < y \<Longrightarrow> block_end u x < y" for x y using D(10,11) [of x y] by (auto simp: le_less)
  have nb: "base < x" if "x \<in> A" "x \<le> y" "y < block_end u x" for x y using that D(5) D(9) [of x] by (cases "x = base") auto
  have "b \<le> block_end u q"
  proof (rule ccontr)
    assume "\<not> ?thesis"
    then have "block_end u q \<in> fbytes u A" using q i(1) by (auto simp del: hadd_simps)
    then obtain x where x: "x \<in> A" "x \<le> block_end u q" "block_end u q < block_end u x" by (auto simp: fbytes_def)
    then have "q \<noteq> x" by auto
    then consider "q < x" | "x < q" by (rule linorder_neqE_nat)
    then show False
    proof cases
      case 1
      then show False using gap [OF q(1) x(1)] nb [OF q] x(2) by simp
    next
      case 2
      then show False using gap [OF x(1) q(1)] nb [OF x] x(3) q(2,3) by linarith
    qed
  qed
  then show ?thesis using q by blast
qed

lemma sbrk_bytes:
  assumes "unat (k :: u32) < 2 ^ 27"
  shows "sint (ucast (ucast k * 16 :: u64) :: u32) = 16 * int (unat k)"
proof -
  have "unat (ucast k :: u64) = unat k" using assms by (simp add: unsigned_ucast_eq take_bit_nat_eq_self)
  then have "unat (ucast k * 16 :: u64) = 16 * unat k" using assms by (simp add: unat_word_ariths)
  then have "unat (ucast (ucast k * 16 :: u64) :: u32) = 16 * unat k" using assms by (simp add: unsigned_ucast_eq take_bit_nat_eq_self)
  moreover from this have "sint (ucast (ucast k * 16 :: u64) :: u32) = int (unat (ucast (ucast k * 16 :: u64) :: u32))"
    using assms by (intro sint_of_small) simp
  ultimately show ?thesis by simp
qed

lemma morecore_spec:
  assumes ok: "heap_ok base u A" and core: "core_ok S brk" and n: "unat nunits < 2 ^ 27" "0 < nunits"
    and mem: "fbytes u A \<subseteq> {..<brk w}" "base + 16 \<le> brk w" "brk w + 16 * max 4096 (unat nunits) \<le> 2 ^ 36"
  shows "\<exists>w'. morecore S nunits u w = Some (0, u, w') \<and> brk w' = brk w \<and> fst (sys_sbrk S (16 * int (max 4096 (unat nunits))) w) = - 1 \<or>
    (\<exists>v B q. morecore S nunits u w = Some (freep v, v, w') \<and> w' = snd (sys_sbrk S (16 * int (max 4096 (unat nunits))) w) \<and> brk w' = brk w + 16 * max 4096 (unat nunits) \<and> heap_ok base v B \<and>
      fbytes v B = fbytes u A \<union> {brk w..<brk w'} \<and> q \<in> B \<and> nunits \<le> hsize (heap v q) \<and> (\<forall>q. q \<notin> A \<and> q \<noteq> brk w \<longrightarrow> heap v q = heap u q))"
proof -
  define nu where "nu = (if nunits < 4096 then 4096 else nunits)"
  have nu: "unat nu = max 4096 (unat nunits)" "nunits \<le> nu" "0 < nu" "unat nu < 2 ^ 27"
    using n by (auto simp: nu_def word_less_nat_alt word_le_nat_alt max_def)
  let ?p = "brk w"
  obtain r w' where s: "sys_sbrk S (16 * int (unat nu)) w = (r, w')" by fastforce
  have c: "r = - 1 \<and> brk w' = ?p \<or> r = int ?p \<and> brk w' = ?p + 16 * unat nu"
    using core [unfolded core_ok_def, rule_format, of "16 * int (unat nu)" w] s mem(3) nu(1) by (simp add: nat_mult_distrib)
  have m: "morecore S nunits u w = (if r = - 1 then Some (0, u, w')
      else case ufree (nat r + 16) (set_size (nat r) nu u) of None \<Rightarrow> None | Some u \<Rightarrow> Some (freep u, u, w'))"
    unfolding morecore_def Let_def nu_def [symmetric] using s sbrk_bytes [OF nu(4)] by simp
  show ?thesis
  proof (cases "r = - 1")
    case True
    then show ?thesis using m c s nu(1) by (intro exI [of _ w'] disjI1) auto
  next
    case False
    then have r: "r = int ?p" "brk w' = ?p + 16 * unat nu" using c by auto
    have w: "heap_w base {} u A" "freep u \<in> A" using ok by (auto simp: heap_ok_def)
    let ?u = "set_size ?p nu u"
    have pA: "?p \<notin> A"
    proof
      assume "?p \<in> A"
      then have "?p \<in> fbytes u A" using heap_wD(7) [OF w(1), of ?p] mem(2) unfolding fbytes_def by (intro UN_I [of ?p]) auto
      then show False using mem(1) by auto
    qed
    have e: "block_end ?u q = block_end u q" "hptr (heap ?u q) = hptr (heap u q)" "hsize (heap ?u q) = hsize (heap u q)" if "q \<in> A" for q
      using that pA by auto
    have bu: "block_end ?u ?p = ?p + 16 * unat nu" by (simp add: hadd_def)
    note D = heap_wD [OF w(1)]
    have ok': "heap_ok base ?u A"
    proof (rule heap_okI)
      show "circle A (\<lambda>p. hptr (heap ?u p))" using D(1) by (rule circle_cong) (rule e(2))
      show "block_end ?u p < q" if "p \<in> A" "q \<in> A" "base < p" "p < q" for p q
        unfolding e(1) [OF that(1)] using D(10,11) [OF that] by (auto simp: le_less)
      show "block_end ?u p \<le> 2 ^ 36" if "p \<in> A" "p \<noteq> base" for p unfolding e(1) [OF that(1)] by (rule D(8) [OF that])
      show "0 < hsize (heap ?u p)" if "p \<in> A" "p \<noteq> base" for p unfolding e(3) [OF that(1)] by (rule D(7) [OF that])
      show "hsize (heap ?u base) = 0" unfolding e(3) [OF D(3)] by (rule D(5))
    qed (use D(3,4,6) w(2) in auto)
    have f: "fbytes ?u A = fbytes u A" by (rule fbytes_cong) (rule e(1))
    have "\<exists>v B. ufree (?p + 16) ?u = Some v \<and> heap_ok base v B \<and> fbytes v B = fbytes ?u A \<union> {?p..<block_end ?u ?p} \<and>
      (\<forall>q. q \<notin> A \<and> q \<noteq> ?p \<longrightarrow> heap v q = heap ?u q)"
    proof (rule free_spec [OF ok' mem(2)])
      show "0 < hsize (heap ?u ?p)" using nu(3) by simp
      show "block_end ?u ?p \<le> 2 ^ 36" unfolding bu nu(1) by (rule mem(3))
      show "{?p..<block_end ?u ?p} \<inter> fbytes ?u A = {}" unfolding f using mem(1) by auto
    qed
    then obtain v B where v: "ufree (?p + 16) ?u = Some v" "heap_ok base v B" "fbytes v B = fbytes u A \<union> {?p..<brk w'}"
      "\<And>q. q \<notin> A \<Longrightarrow> q \<noteq> ?p \<Longrightarrow> heap v q = heap u q" unfolding f bu r(2) by auto
    have "heap_w base {} v B" using v(2) by (simp add: heap_ok_def)
    then obtain q where q: "q \<in> B" "q \<le> ?p" "brk w' \<le> block_end v q"
      using interval_in_block [of base v B ?p "brk w'"] v(3) r(2) nu(3) by (auto simp: word_less_nat_alt)
    then have "16 * unat nu \<le> 16 * unat (hsize (heap v q))" using r(2) unfolding hadd_def by linarith
    then have "nunits \<le> hsize (heap v q)" using nu(2) by (simp add: word_le_nat_alt)
    moreover have "w' = snd (sys_sbrk S (16 * int (max 4096 (unat nunits))) w)" using s nu(1) by simp
    ultimately show ?thesis using m False r v q(1) nu(1) by (intro exI [of _ w'] disjI2 exI [of _ v] exI [of _ B] exI [of _ q]) simp
  qed
qed

section \<open>malloc\<close>

lemma malloc_units: "unat (malloc_units nbytes) = (unat nbytes + 15) div 16 + 1"
proof -
  let ?k = "(ucast nbytes + 15 :: u64)"
  have n: "unat nbytes < 2 ^ 32" using unsigned_less [of nbytes, where ?'a = nat] by simp
  have "unat (ucast nbytes :: u64) = unat nbytes" using n by (simp add: unsigned_ucast_eq take_bit_nat_eq_self)
  then have "unat ?k = unat nbytes + 15" using n by (simp add: unat_word_ariths)
  then have "unat (?k div 16) = (unat nbytes + 15) div 16" by (simp add: unat_div)
  then have k: "unat (?k div 16 + 1) = (unat nbytes + 15) div 16 + 1" using n by (simp add: unat_word_ariths)
  have "malloc_units nbytes = ucast (?k div 16 + 1)" by (simp add: malloc_units_def add.commute)
  then show ?thesis using n k by (simp add: unsigned_ucast_eq take_bit_nat_eq_self)
qed

text \<open>Before the first call the list is empty and \<^verbatim>\<open>freep\<close> null.\<close>

definition heap_inv :: "nat \<Rightarrow> umalloc \<Rightarrow> nat set \<Rightarrow> bool" where
  "heap_inv base u A \<longleftrightarrow> freep u = 0 \<and> A = {} \<and> 0 < base \<or> heap_ok base u A"

lemma heap_ok_pos:
  assumes "heap_ok base u A"
  shows "freep u \<in> A" "0 < freep u" "heap_w base {} u A"
  using assms heap_wD(4) [of base "{}" u A] heap_wD(9) [of base "{}" u A "freep u"] by (auto simp: heap_ok_def)

lemma free_in: "heap_ok base u A \<Longrightarrow> A \<subseteq> insert base (fbytes u A)"
  using heap_wD(7) [OF heap_ok_pos(3)] by (force simp: fbytes_def)

lemma malloc_start_ok:
  assumes "heap_inv base u A"
  shows "heap_ok base (malloc_start base u) (insert base A)" "fbytes (malloc_start base u) (insert base A) = fbytes u A"
    "q \<noteq> base \<Longrightarrow> heap (malloc_start base u) q = heap u q"
proof -
  show "q \<noteq> base \<Longrightarrow> heap (malloc_start base u) q = heap u q" by (simp add: malloc_start_def)
  have "heap_ok base (malloc_start base u) (insert base A) \<and> fbytes (malloc_start base u) (insert base A) = fbytes u A"
  proof (cases "freep u = 0")
    case True
    then have "A = {}" "0 < base" using assms heap_ok_pos(2) [of base u A] by (auto simp: heap_inv_def)
    then show ?thesis using True by (auto simp: malloc_start_def fbytes_def circle_def succ_in_def intro!: heap_okI)
  next
    case False
    then have ok: "heap_ok base u A" using assms by (simp add: heap_inv_def)
    then have "insert base A = A" using heap_wD(3) [OF heap_ok_pos(3)] by blast
    then show ?thesis using ok False by (simp add: malloc_start_def)
  qed
  then show "heap_ok base (malloc_start base u) (insert base A)" "fbytes (malloc_start base u) (insert base A) = fbytes u A" by blast+
qed

lemma malloc_loop_spec:
  assumes ok: "heap_ok base u A" and core: "core_ok S brk" and n: "unat nunits < 2 ^ 27" "0 < nunits"
    and mem: "fbytes u A \<subseteq> {..<brk w}" "base + 16 \<le> brk w" "brk w + 16 * max 4096 (unat nunits) \<le> 2 ^ 36"
  shows "\<exists>r v w'. malloc_loop S nunits (freep u) (hptr (heap u (freep u))) u w = Some (r, v, w') \<and>
    (r = 0 \<and> brk w' = brk w \<and> v = u \<and> fst (sys_sbrk S (16 * int (max 4096 (unat nunits))) w) = - 1 \<or> (w' = w \<or> w' = snd (sys_sbrk S (16 * int (max 4096 (unat nunits))) w)) \<and> brk w \<le> brk w' \<and> brk w' \<le> 2 ^ 36 \<and> taken base nunits (fbytes u A \<union> {brk w..<brk w'}) u r v)"
proof -
  note search = malloc_loop_search [OF ok n(2) heap_ok_pos(1) [OF ok] refl, of S w]
  show ?thesis
  proof (cases "\<exists>r v. malloc_loop S nunits (freep u) (hptr (heap u (freep u))) u w = Some (r, v, w) \<and> taken base nunits (fbytes u A) u r v")
    case True
    then obtain r v where "malloc_loop S nunits (freep u) (hptr (heap u (freep u))) u w = Some (r, v, w)" "taken base nunits (fbytes u A) u r v" by blast
    then show ?thesis using mem(3) by (intro exI [of _ r] exI [of _ v] exI [of _ w]) auto
  next
    case False
    then have go: "malloc_loop S nunits (freep u) (hptr (heap u (freep u))) u w = Option.bind (morecore S nunits u w) (\<lambda>(p, u, w).
      if p = 0 then Some (0, u, w) else malloc_loop S nunits p (hptr (heap u p)) u w)" using search by blast
    from morecore_spec [OF ok core n mem] consider
        w' where "morecore S nunits u w = Some (0, u, w')" "brk w' = brk w" "fst (sys_sbrk S (16 * int (max 4096 (unat nunits))) w) = - 1"
      | w' v B q where "morecore S nunits u w = Some (freep v, v, w')" "brk w' = brk w + 16 * max 4096 (unat nunits)" "heap_ok base v B"
          "fbytes v B = fbytes u A \<union> {brk w..<brk w'}" "q \<in> B" "nunits \<le> hsize (heap v q)" "\<And>q. q \<notin> A \<Longrightarrow> q \<noteq> brk w \<Longrightarrow> heap v q = heap u q"
          "w' = snd (sys_sbrk S (16 * int (max 4096 (unat nunits))) w)"
      by blast
    then show ?thesis
    proof cases
      case 1
      then show ?thesis using go by simp
    next
      case (2 w' v B q)
      note c = heap_wD(1) [OF heap_ok_pos(3) [OF 2(3)]]
      have "q \<in> arc B (hptr (heap v (freep v))) (freep v)" using arc_full [OF c heap_ok_pos(1) [OF 2(3)]] 2(5) by simp
      then obtain r x where x: "malloc_loop S nunits (freep v) (hptr (heap v (freep v))) v w' = Some (r, x, w')" "taken base nunits (fbytes v B) v r x"
        using malloc_loop_search [OF 2(3) n(2) heap_ok_pos(1) [OF 2(3)] refl, of S w'] 2(6) by (auto simp: not_le [symmetric])
      have "heap v p = heap u p" if "p \<notin> insert base (fbytes v B)" for p
      proof -
        have "brk w < brk w'" using 2(2) by simp
        then have "brk w \<in> fbytes v B" using 2(4) by simp
        then show ?thesis using 2(4) 2(7) [of p] that free_in [OF ok] by blast
      qed
      then have "taken base nunits (fbytes u A \<union> {brk w..<brk w'}) u r x" using x(2) 2(4) unfolding taken_def by metis
      then show ?thesis using go 2(1,2,8) x(1) heap_ok_pos(2) [OF 2(3)] mem(3) by auto
    qed
  qed
qed

section \<open>A program and its memory\<close>

text \<open>
  A program that calls \<open>malloc\<close> and \<open>free\<close>, and writes what it likes into the blocks it has, \<open>L\<close> being the headers of those blocks. The bounds are those below
  which the number of bytes is the same in every width the code uses.
\<close>

inductive mstep :: "'w sys \<Rightarrow> ('w \<Rightarrow> nat) \<Rightarrow> nat \<Rightarrow> umalloc \<times> 'w \<times> nat set \<Rightarrow> umalloc \<times> 'w \<times> nat set \<Rightarrow> bool" for S brk base where
  Malloc: "mstep S brk base (u, w, L) (v, w', if r = 0 then L else insert (r - 16) L)"
    if "malloc S base n u w = Some (r, v, w')" "unat n \<le> 2 ^ 31 - 32" "brk w + 2 ^ 31 \<le> 2 ^ 36"
| Free: "mstep S brk base (u, w, L) (v, w, L - {p})" if "p \<in> L" "ufree (p + 16) u = Some v"
| Use: "mstep S brk base (u, w, L) (v, w, L)"
    if "freep v = freep u" "\<And>q. heap v q \<noteq> heap u q \<Longrightarrow> \<exists>p \<in> L. p < q \<and> q < block_end u p"

definition live_ok :: "nat \<Rightarrow> nat \<Rightarrow> umalloc \<Rightarrow> nat set \<Rightarrow> nat set \<Rightarrow> bool" where
  "live_ok base e u A L \<longleftrightarrow> heap_inv base u A \<and> base + 16 \<le> e \<and> fbytes u A \<subseteq> {..<e} \<and>
     (\<forall>p \<in> L. heap_ok base u A \<and> base + 16 \<le> p \<and> 0 < hsize (heap u p) \<and> block_end u p \<le> e \<and> block_end u p \<le> 2 ^ 36 \<and> {p..<block_end u p} \<inter> fbytes u A = {}) \<and>
     (\<forall>p \<in> L. \<forall>q \<in> L. p \<noteq> q \<longrightarrow> {p..<block_end u p} \<inter> {q..<block_end u q} = {})"

lemma live_okD:
  assumes "live_ok base e u A L"
  shows "p \<in> L \<Longrightarrow> base + 16 \<le> p" "p \<in> L \<Longrightarrow> 0 < hsize (heap u p)" "p \<in> L \<Longrightarrow> block_end u p \<le> e" "p \<in> L \<Longrightarrow> block_end u p \<le> 2 ^ 36"
    "p \<in> L \<Longrightarrow> {p..<block_end u p} \<inter> fbytes u A = {}" "p \<in> L \<Longrightarrow> q \<in> L \<Longrightarrow> p \<noteq> q \<Longrightarrow> {p..<block_end u p} \<inter> {q..<block_end u q} = {}"
    "p \<in> L \<Longrightarrow> heap_ok base u A" "heap_inv base u A" "base + 16 \<le> e" "fbytes u A \<subseteq> {..<e}"
  using assms unfolding live_ok_def by blast+

lemma live_okI:
  assumes "heap_inv base u A" "base + 16 \<le> e" "fbytes u A \<subseteq> {..<e}" "\<And>p. p \<in> L \<Longrightarrow> heap_ok base u A"
    "\<And>p. p \<in> L \<Longrightarrow> base + 16 \<le> p" "\<And>p. p \<in> L \<Longrightarrow> 0 < hsize (heap u p)" "\<And>p. p \<in> L \<Longrightarrow> block_end u p \<le> e" "\<And>p. p \<in> L \<Longrightarrow> block_end u p \<le> 2 ^ 36"
    "\<And>p. p \<in> L \<Longrightarrow> {p..<block_end u p} \<inter> fbytes u A = {}"
    "\<And>p q. p \<in> L \<Longrightarrow> q \<in> L \<Longrightarrow> p \<noteq> q \<Longrightarrow> {p..<block_end u p} \<inter> {q..<block_end u q} = {}"
  shows "live_ok base e u A L"
  using assms unfolding live_ok_def by blast

lemma live_ok_keep:
  assumes live: "live_ok base e u A L" and v: "heap_inv base v B" "heap_ok base u A \<Longrightarrow> heap_ok base v B" "fbytes v B = fbytes u A" "\<And>p. p \<in> L \<Longrightarrow> hsize (heap v p) = hsize (heap u p)"
  shows "live_ok base e v B L"
proof (rule live_okI)
  note D = live_okD [OF live]
  show "{p..<block_end v p} \<inter> {q..<block_end v q} = {}" if "p \<in> L" "q \<in> L" "p \<noteq> q" for p q
    unfolding v(4) [OF that(1)] v(4) [OF that(2)] by (rule D(6) [OF that])
  show "{p..<block_end v p} \<inter> fbytes v B = {}" if "p \<in> L" for p unfolding v(3) v(4) [OF that] by (rule D(5) [OF that])
  show "heap_ok base v B" if "p \<in> L" for p by (rule v(2) [OF D(7) [OF that]])
  show "fbytes v B \<subseteq> {..<e}" unfolding v(3) by (rule D(10))
qed (use v(1,4) live_okD [OF live] in auto)

text \<open>A call of \<open>malloc\<close> in such a state.\<close>

lemma malloc_live:
  assumes live: "live_ok base (brk w) u A L" and core: "core_ok S brk" and n: "unat n \<le> 2 ^ 31 - 32" "brk w + 2 ^ 31 \<le> 2 ^ 36"
  shows "\<exists>r v w' B. malloc S base n u w = Some (r, v, w') \<and> brk w \<le> brk w' \<and> live_ok base (brk w') v B (if r = 0 then L else insert (r - 16) L) \<and>
    (\<forall>p \<in> L. heap v p = heap u p) \<and> (r \<noteq> 0 \<longrightarrow> 16 \<le> r \<and> r - 16 \<notin> L \<and> hsize (heap v (r - 16)) = malloc_units n) \<and>
    (if r = 0 then fst (sys_sbrk S (16 * int (max 4096 (unat (malloc_units n)))) w) = - 1
     else w' = w \<or> w' = snd (sys_sbrk S (16 * int (max 4096 (unat (malloc_units n)))) w)) \<and>
    fbytes v B \<subseteq> fbytes u A \<union> {brk w..<brk w'} \<and> (r \<noteq> 0 \<longrightarrow> {r - 16..<block_end v (r - 16)} \<subseteq> fbytes u A \<union> {brk w..<brk w'})"
proof -
  let ?u = "malloc_start base u" let ?A = "insert base A" let ?k = "malloc_units n"
  have inv: "heap_inv base u A" "base + 16 \<le> brk w" "fbytes u A \<subseteq> {..<brk w}" using live by (auto simp: live_ok_def)
  note st = malloc_start_ok [OF inv(1)]
  have k: "unat ?k = (unat n + 15) div 16 + 1" by (rule malloc_units)
  then have k': "unat ?k < 2 ^ 27" "0 < ?k" using n(1) by (auto simp: word_less_nat_alt)
  have room: "brk w + 16 * max 4096 (unat ?k) \<le> 2 ^ 36" using n(2) k'(1) by (auto simp: max_def)
  obtain r v w' where l: "malloc_loop S ?k (freep ?u) (hptr (heap ?u (freep ?u))) ?u w = Some (r, v, w')"
    and c: "r = 0 \<and> brk w' = brk w \<and> v = ?u \<and> fst (sys_sbrk S (16 * int (max 4096 (unat ?k))) w) = - 1 \<or> (w' = w \<or> w' = snd (sys_sbrk S (16 * int (max 4096 (unat ?k))) w)) \<and> brk w \<le> brk w' \<and> brk w' \<le> 2 ^ 36 \<and> taken base ?k (fbytes u A \<union> {brk w..<brk w'}) ?u r v"
    using malloc_loop_spec [where w = w, OF st(1) core k', unfolded st(2), OF inv(3,2) room] by blast
  have m: "malloc S base n u w = Some (r, v, w')" using l by (simp only: malloc_def Let_def)
  note Lf = live_okD [OF live]
  have Lb: "p \<noteq> base" "p \<notin> fbytes u A" "p < brk w" if "p \<in> L" for p
  proof -
    have "p < block_end u p" using Lf(2) [OF that] by simp
    then have "p \<in> {p..<block_end u p}" by simp
    then show "p \<notin> fbytes u A" using Lf(5) [OF that] by blast
    show "p < brk w" using \<open>p < block_end u p\<close> Lf(3) [OF that] by (rule less_le_trans)
    show "p \<noteq> base" using Lf(1) [OF that] by simp
  qed
  show ?thesis
  proof (cases "r = 0 \<and> brk w' = brk w \<and> v = ?u \<and> fst (sys_sbrk S (16 * int (max 4096 (unat ?k))) w) = - 1")
    case True
    have same: "heap ?u p = heap u p" if "p \<in> L" for p using st(3) Lb(1) [OF that] by blast
    have "live_ok base (brk w) ?u ?A L" by (rule live_ok_keep [OF live _ _ st(2)]) (use st(1) same in \<open>simp_all add: heap_inv_def\<close>)
    then show ?thesis using True m same st(2) by auto
  next
    case False
    then obtain p B where p: "r = p + 16" "base + 16 \<le> p" "heap_ok base v B" "hsize (heap v p) = ?k" "hadd p ?k \<le> 2 ^ 36" "brk w \<le> brk w'"
      "{p..<hadd p ?k} \<subseteq> fbytes u A \<union> {brk w..<brk w'}" "fbytes v B = (fbytes u A \<union> {brk w..<brk w'}) - {p..<hadd p ?k}"
      "\<And>q. q \<notin> insert base (fbytes u A \<union> {brk w..<brk w'}) \<Longrightarrow> heap v q = heap ?u q"
      "w' = w \<or> w' = snd (sys_sbrk S (16 * int (max 4096 (unat ?k))) w)"
      using c unfolding taken_def by blast
    have same: "heap v q = heap u q" if "q \<in> L" for q using p(9) [of q] st(3) [of q] Lb [OF that] by auto
    have apart: "{q..<block_end u q} \<inter> {p..<hadd p ?k} = {}" "{q..<block_end u q} \<inter> fbytes v B = {}" if "q \<in> L" for q
    proof -
      have "{q..<block_end u q} \<inter> {brk w..<brk w'} = {}" using Lf(3) [OF that] by auto
      then have "{q..<block_end u q} \<inter> (fbytes u A \<union> {brk w..<brk w'}) = {}" using Lf(5) [OF that] by blast
      then show "{q..<block_end u q} \<inter> {p..<hadd p ?k} = {}" "{q..<block_end u q} \<inter> fbytes v B = {}" using p(7,8) by blast+
    qed
    have top: "hadd p ?k \<le> brk w'"
    proof -
      have "hadd p ?k - 1 \<in> {p..<hadd p ?k}" using k'(2) hadd_simps(3) [of p ?k] by (auto simp del: hadd_simps)
      then have "hadd p ?k - 1 < brk w'" using p(6,7) inv(3) by fastforce
      then show ?thesis by simp
    qed
    have "p \<in> {p..<hadd p ?k}" using k'(2) by simp
    moreover have "p \<in> {p..<block_end u p}" if "p \<in> L" using Lf(2) [OF that] by simp
    ultimately have pL: "p \<notin> L" using apart(1) [of p] by blast
    have "live_ok base (brk w') v B (insert p L)"
    proof (rule live_okI)
      show "heap_inv base v B" using p(3) by (simp add: heap_inv_def)
      show "base + 16 \<le> brk w'" using inv(2) p(6) by simp
      show "fbytes v B \<subseteq> {..<brk w'}" using p(6,8) inv(3) by auto
      show "{a..<block_end v a} \<inter> {b..<block_end v b} = {}" if ab: "a \<in> insert p L" "b \<in> insert p L" "a \<noteq> b" for a b
      proof -
        consider "a = p" "b \<in> L" | "b = p" "a \<in> L" | "a \<in> L" "b \<in> L" using ab by blast
        then show ?thesis
        proof cases
          case 1
          show ?thesis unfolding 1(1) p(4) same [OF 1(2)] by (subst Int_commute) (rule apart(1) [OF 1(2)])
        next
          case 2
          show ?thesis unfolding 2(1) p(4) same [OF 2(2)] by (rule apart(1) [OF 2(2)])
        next
          case 3
          then show ?thesis unfolding same [OF 3(1)] same [OF 3(2)] by (rule Lf(6)) (rule ab(3))
        qed
      qed
      show "{q..<block_end v q} \<inter> fbytes v B = {}" if "q \<in> insert p L" for q
      proof (cases "q \<in> L")
        case True
        show ?thesis unfolding same [OF True] by (rule apart(2) [OF True])
      next
        case False
        then have "q = p" using that by simp
        show ?thesis unfolding \<open>q = p\<close> p(4,8) by blast
      qed
      show "block_end v q \<le> brk w'" if "q \<in> insert p L" for q using that top p(4,6) same [of q] Lf(3) [of q] by (cases "q \<in> L") auto
    qed (use p(2-5) k'(2) same Lf(1,2,4) in auto)
    moreover have "fbytes v B \<subseteq> fbytes u A \<union> {brk w..<brk w'}" unfolding p(8) by blast
    ultimately show ?thesis using m same p(1,4,6,7,10) pL by (intro exI [of _ r] exI [of _ v] exI [of _ w'] exI [of _ B]) simp
  qed
qed

lemma free_live:
  assumes live: "live_ok base e u A L" and p: "p \<in> L"
  shows "\<exists>v B. ufree (p + 16) u = Some v \<and> live_ok base e v B (L - {p}) \<and> (\<forall>q \<in> L - {p}. heap v q = heap u q) \<and>
    fbytes v B = fbytes u A \<union> {p..<block_end u p}"
proof -
  note D = live_okD [OF live]
  obtain v B where v: "ufree (p + 16) u = Some v" "heap_ok base v B" "fbytes v B = fbytes u A \<union> {p..<block_end u p}"
    "\<And>q. q \<notin> A \<Longrightarrow> q \<noteq> p \<Longrightarrow> heap v q = heap u q"
    using free_spec [OF D(7) [OF p] D(1,2,4,5) [OF p]] by blast
  have same: "heap v q = heap u q" if "q \<in> L - {p}" for q
  proof (rule v(4))
    have q: "q \<in> L" "q \<noteq> p" using that by auto
    have "q \<in> {q..<block_end u q}" using D(2) [OF q(1)] by simp
    then have "q \<notin> fbytes u A" using D(5) [OF q(1)] by blast
    then show "q \<notin> A" using free_in [OF D(7) [OF p]] D(1) [OF q(1)] by auto
    show "q \<noteq> p" by (rule q(2))
  qed
  have "live_ok base e v B (L - {p})"
  proof (rule live_okI)
    show "{a..<block_end v a} \<inter> {b..<block_end v b} = {}" if "a \<in> L - {p}" "b \<in> L - {p}" "a \<noteq> b" for a b
      unfolding same [OF that(1)] same [OF that(2)] using that by (intro D(6)) auto
    show "{q..<block_end v q} \<inter> fbytes v B = {}" if "q \<in> L - {p}" for q
    proof -
      have "q \<in> L" "q \<noteq> p" using that by auto
      then show ?thesis unfolding same [OF that] v(3) using D(5) [OF \<open>q \<in> L\<close>] D(6) [OF \<open>q \<in> L\<close> p \<open>q \<noteq> p\<close>] by blast
    qed
    show "fbytes v B \<subseteq> {..<e}" unfolding v(3) using D(10) D(3) [OF p] by auto
  qed (use v(2) D(1-4,9) same in \<open>auto simp: heap_inv_def\<close>)
  then show ?thesis using v(1,3) same by blast
qed

lemma use_live:
  assumes live: "live_ok base e u A L" and v: "freep v = freep u" "\<And>q. heap v q \<noteq> heap u q \<Longrightarrow> \<exists>p \<in> L. p < q \<and> q < block_end u p"
  shows "live_ok base e v A L" "p \<in> L \<Longrightarrow> heap v p = heap u p" "fbytes v A = fbytes u A"
proof -
  note D = live_okD [OF live]
  have inside: "q \<notin> insert base (fbytes u A) \<and> q \<notin> L" if ch: "heap v q \<noteq> heap u q" for q
  proof -
    obtain p where p: "p \<in> L" "p < q" "q < block_end u p" using v(2) [OF ch] by blast
    have q: "q \<in> {p..<block_end u p}" "base < q" using p(2,3) D(1) [OF p(1)] by auto
    have "q \<notin> L"
    proof
      assume "q \<in> L"
      then have "q \<in> {q..<block_end u q}" using D(2) by simp
      then show False using D(6) [OF p(1) \<open>q \<in> L\<close>] p(2) q(1) by blast
    qed
    then show ?thesis using D(5) [OF p(1)] q by blast
  qed
  then show same: "p \<in> L \<Longrightarrow> heap v p = heap u p" for p by blast
  have A: "heap v q = heap u q" if "q \<in> A" for q
  proof (rule ccontr)
    assume ch: "heap v q \<noteq> heap u q"
    then obtain p where "p \<in> L" using v(2) by blast
    then show False using inside [OF ch] free_in [OF D(7)] that by blast
  qed
  show f: "fbytes v A = fbytes u A" by (rule fbytes_cong) (simp add: A)
  have ok: "heap_ok base v A" if "heap_ok base u A"
    using that A unfolding heap_ok_def heap_w_def v(1) by (auto intro: circle_cong)
  show "live_ok base e v A L"
    by (rule live_ok_keep [OF live _ ok f]) (use D(8) v(1) ok same in \<open>auto simp: heap_inv_def\<close>)
qed

text \<open>All of that memory came from \<open>sbrk\<close>: it lies above the end of memory at the start, \<open>lo\<close>.\<close>

definition live_above :: "nat \<Rightarrow> ('w \<Rightarrow> nat) \<Rightarrow> nat \<Rightarrow> nat set \<Rightarrow> umalloc \<times> 'w \<times> nat set \<Rightarrow> bool" where
  "live_above base brk lo A = (\<lambda>(u, w, L). live_ok base (brk w) u A L \<and> lo \<le> brk w \<and> fbytes u A \<subseteq> {lo..} \<and> (\<forall>p \<in> L. {p..<block_end u p} \<subseteq> {lo..}))"

lemma mstep_live:
  assumes step: "mstep S brk base x y" and core: "core_ok S brk" and live: "live_above base brk lo A x"
  shows "\<exists>B. live_above base brk lo B y"
  using step
proof cases
  case (Malloc n u w r v w' L)
  have l: "live_ok base (brk w) u A L" "lo \<le> brk w" "fbytes u A \<subseteq> {lo..}" "\<And>p. p \<in> L \<Longrightarrow> {p..<block_end u p} \<subseteq> {lo..}"
    using live Malloc by (auto simp: live_above_def)
  obtain B where m: "brk w \<le> brk w'" "live_ok base (brk w') v B (if r = 0 then L else insert (r - 16) L)" "\<forall>p \<in> L. heap v p = heap u p"
    "fbytes v B \<subseteq> fbytes u A \<union> {brk w..<brk w'}" "r \<noteq> 0 \<longrightarrow> {r - 16..<block_end v (r - 16)} \<subseteq> fbytes u A \<union> {brk w..<brk w'}"
    using malloc_live [OF l(1) core Malloc(4,5)] Malloc(3) by auto
  have sub: "fbytes u A \<union> {brk w..<brk w'} \<subseteq> {lo..}" using l(2,3) by auto
  have "{p..<block_end v p} \<subseteq> {lo..}" if "p \<in> (if r = 0 then L else insert (r - 16) L)" for p
  proof (cases "p \<in> L")
    case True
    show ?thesis using l(4) [OF True] m(3) True by simp
  next
    case False
    then have "r \<noteq> 0" "p = r - 16" using that by (auto split: if_splits)
    then show ?thesis using m(5) sub by blast
  qed
  then have "live_above base brk lo B (v, w', if r = 0 then L else insert (r - 16) L)"
    unfolding live_above_def using m(1,2,4) l(2) sub by auto
  then show ?thesis using Malloc(2) by blast
next
  case (Free p L u v w)
  have l: "live_ok base (brk w) u A L" "lo \<le> brk w" "fbytes u A \<subseteq> {lo..}" "\<And>p. p \<in> L \<Longrightarrow> {p..<block_end u p} \<subseteq> {lo..}"
    using live Free by (auto simp: live_above_def)
  obtain B where m: "live_ok base (brk w) v B (L - {p})" "\<forall>q \<in> L - {p}. heap v q = heap u q" "fbytes v B = fbytes u A \<union> {p..<block_end u p}"
    using free_live [OF l(1) Free(3)] Free(4) by auto
  have "{q..<block_end v q} \<subseteq> {lo..}" if "q \<in> L - {p}" for q using l(4) [of q] m(2) that by simp
  then have "live_above base brk lo B (v, w, L - {p})" unfolding live_above_def using m(1,3) l(2,3) l(4) [OF Free(3)] by auto
  then show ?thesis using Free(2) by blast
next
  case (Use v u L w)
  have l: "live_ok base (brk w) u A L" "lo \<le> brk w" "fbytes u A \<subseteq> {lo..}" "\<And>p. p \<in> L \<Longrightarrow> {p..<block_end u p} \<subseteq> {lo..}"
    using live Use by (auto simp: live_above_def)
  have "live_above base brk lo A (v, w, L)" unfolding live_above_def using use_live [OF l(1) Use(3,4)] l(2-4) by auto
  then show ?thesis using Use(2) by blast
qed

lemma reach_live:
  assumes "(mstep S brk base)\<^sup>*\<^sup>* x y" "core_ok S brk" "live_above base brk lo A x"
  shows "\<exists>B. live_above base brk lo B y"
  using assms by (induction rule: rtranclp_induct) (auto dest: mstep_live)

lemma payload:
  assumes "hsize (heap v p) = malloc_units n"
  shows "{p + 16..<p + 16 + unat n} \<subseteq> {p..<block_end v p}"
proof -
  have "unat n \<le> 16 * ((unat n + 15) div 16)" by presburger
  then show ?thesis unfolding assms by (auto simp: hadd_def malloc_units)
qed

text \<open>The interface to the system: a program relies on nothing but the law of \<open>sbrk\<close>.\<close>

locale program_break =
  fixes S :: "'w sys" and brk :: "'w \<Rightarrow> nat"
  assumes core: "core_ok S brk"
begin

lemma run_live:
  assumes "(mstep S brk base)\<^sup>*\<^sup>* (u0, w0, {}) (u, w, L)" "freep u0 = 0" "0 < base" "base + 16 \<le> brk w0"
  shows "\<exists>A. live_above base brk (brk w0) A (u, w, L)"
proof -
  have "live_ok base (brk w0) u0 {} {}" using assms(2-4) by (intro live_okI) (auto simp: heap_inv_def fbytes_def)
  then have "live_above base brk (brk w0) {} (u0, w0, {})" by (simp add: live_above_def fbytes_def)
  then show ?thesis using reach_live [OF assms(1) core] by blast
qed

lemma blocks_apart:
  assumes run: "(mstep S brk base)\<^sup>*\<^sup>* (u0, w0, {}) (u, w, L)" and start: "freep u0 = 0" "0 < base" "base + 16 \<le> brk w0"
    and room: "brk w + 2 ^ 31 \<le> 2 ^ 36" and n: "unat n \<le> 2 ^ 31 - 32"
  shows "(\<forall>p \<in> L. \<exists>v. ufree (p + 16) u = Some v) \<and>
    (\<exists>r v w'. malloc S base n u w = Some (r, v, w') \<and>
      (if r = 0 then fst (sys_sbrk S (16 * int (max 4096 (unat (malloc_units n)))) w) = - 1
       else (w' = w \<or> w' = snd (sys_sbrk S (16 * int (max 4096 (unat (malloc_units n)))) w)) \<and>
         {r..<r + unat n} \<subseteq> {brk w0..<brk w'} \<and> (\<forall>p \<in> L. {r..<r + unat n} \<inter> {p..<block_end u p} = {})))"
proof -
  obtain A where live: "live_ok base (brk w) u A L" "brk w0 \<le> brk w" "fbytes u A \<subseteq> {brk w0..}" using run_live [OF run start] by (auto simp: live_above_def)
  obtain r v w' B where m: "malloc S base n u w = Some (r, v, w')" "live_ok base (brk w') v B (if r = 0 then L else insert (r - 16) L)"
    "\<And>p. p \<in> L \<Longrightarrow> heap v p = heap u p" "r \<noteq> 0 \<Longrightarrow> 16 \<le> r" "r \<noteq> 0 \<Longrightarrow> r - 16 \<notin> L" "r \<noteq> 0 \<Longrightarrow> hsize (heap v (r - 16)) = malloc_units n"
    "if r = 0 then fst (sys_sbrk S (16 * int (max 4096 (unat (malloc_units n)))) w) = - 1
     else w' = w \<or> w' = snd (sys_sbrk S (16 * int (max 4096 (unat (malloc_units n)))) w)"
    "r \<noteq> 0 \<Longrightarrow> {r - 16..<block_end v (r - 16)} \<subseteq> fbytes u A \<union> {brk w..<brk w'}"
    using malloc_live [OF live(1) core n room] by blast
  have "{r..<r + unat n} \<subseteq> {brk w0..<brk w'} \<and> (\<forall>p \<in> L. {r..<r + unat n} \<inter> {p..<block_end u p} = {})" if r: "r \<noteq> 0"
  proof -
    let ?p = "r - 16"
    have l: "live_ok base (brk w') v B (insert ?p L)" using m(2) r by simp
    have sub: "{r..<r + unat n} \<subseteq> {?p..<block_end v ?p}" using payload [OF m(6) [OF r]] m(4) [OF r] by simp
    have "{?p..<block_end v ?p} \<subseteq> {..<brk w'}" using live_okD(3) [OF l, of ?p] by auto
    moreover have "{?p..<block_end v ?p} \<subseteq> {brk w0..}" using m(8) [OF r] live(2,3) by auto
    moreover have "{brk w0..} \<inter> {..<brk w'} = {brk w0..<brk w'}" by auto
    ultimately have "{?p..<block_end v ?p} \<subseteq> {brk w0..<brk w'}" by blast
    moreover have "{?p..<block_end v ?p} \<inter> {q..<block_end u q} = {}" if "q \<in> L" for q
    proof -
      have "{?p..<block_end v ?p} \<inter> {q..<block_end v q} = {}" using m(5) [OF r] that by (intro live_okD(6) [OF l]) auto
      then show ?thesis unfolding m(3) [OF that] .
    qed
    ultimately show ?thesis using sub by blast
  qed
  then have "if r = 0 then fst (sys_sbrk S (16 * int (max 4096 (unat (malloc_units n)))) w) = - 1
    else (w' = w \<or> w' = snd (sys_sbrk S (16 * int (max 4096 (unat (malloc_units n)))) w)) \<and> {r..<r + unat n} \<subseteq> {brk w0..<brk w'} \<and> (\<forall>p \<in> L. {r..<r + unat n} \<inter> {p..<block_end u p} = {})" using m(7) by simp
  then show ?thesis using m(1) free_live [OF live(1)] by blast
qed

end

text \<open>
  C6. \<open>malloc\<close> and \<open>free\<close> keep blocks apart. Whatever a program does with them, in whatever order, as long as it writes only into its own blocks,
  \<open>free\<close> of a block it has and \<open>malloc\<close> of any size below two gigabytes return; and what \<open>malloc\<close> returns is null, when \<open>sbrk\<close> refused the memory that the request needs (at least 4096 units), or, with one call of \<open>sbrk\<close> at most, the address of as many bytes as were asked for, in the memory that
  \<open>sbrk\<close> has given since the start, none of which belongs to a block that the program has.
\<close>

theorem malloc_blocks_apart:
  assumes core: "core_ok S brk" and start: "freep u0 = 0" "0 < base" "base + 16 \<le> brk w0"
    and run: "(mstep S brk base)\<^sup>*\<^sup>* (u0, w0, {}) (u, w, L)" and room: "brk w + 2 ^ 31 \<le> 2 ^ 36" and n: "unat n \<le> 2 ^ 31 - 32"
  shows "(\<forall>p \<in> L. \<exists>v. ufree (p + 16) u = Some v) \<and>
    (\<exists>r v w'. malloc S base n u w = Some (r, v, w') \<and>
      (if r = 0 then fst (sys_sbrk S (16 * int (max 4096 (unat (malloc_units n)))) w) = - 1
       else (w' = w \<or> w' = snd (sys_sbrk S (16 * int (max 4096 (unat (malloc_units n)))) w)) \<and>
         {r..<r + unat n} \<subseteq> {brk w0..<brk w'} \<and> (\<forall>p \<in> L. {r..<r + unat n} \<inter> {p..<block_end u p} = {})))"
proof -
  from core have "program_break S brk" by (simp add: program_break_def)
  then show ?thesis by (rule program_break.blocks_apart [OF _ run start room n])
qed

text \<open>
  C31. Above two gigabytes the number of bytes that \<open>morecore\<close> asks for no longer fits: it is computed in 64 bits but \<open>sbrk\<close> takes an \<^verbatim>\<open>int\<close>. For the
  largest request the system is asked for 16 bytes, and when it gives them \<open>malloc\<close> returns the end of memory as the address of a block of four gigabytes.
\<close>

theorem malloc_huge_wraps:
  assumes "freep u = 0" "0 < base" "base + 16 \<le> e" "sys_sbrk S 16 w = (int e, w')"
  shows "\<exists>v. malloc S base 0xFFFFFFFF u w = Some (e + 16, v, w') \<and> unat (hsize (heap v e)) = 2 ^ 28 + 1"
proof -
  have units: "malloc_units 0xFFFFFFFF = 0x10000001" by (simp add: malloc_units_def)
  have bytes: "sint (ucast (ucast (0x10000001 :: u32) * 16 :: u64) :: u32) = 16" by simp
  let ?u = "malloc_start base u" let ?x = "set_size e 0x10000001 ?u"
  have u: "freep ?u = base" "hptr (heap ?u base) = base" "hsize (heap ?u base) = 0" using assms by (simp_all add: malloc_start_def)
  have "free_search (heap ?x) e base = Some base" using u assms(3) by (subst free_search.simps) simp
  moreover have "hadd e 0x10000001 \<noteq> base" using assms(3) by (simp add: hadd_def)
  ultimately have f: "ufree (e + 16) ?x = Some ((set_ptr base e (set_ptr e base ?x))\<lparr>freep := base\<rparr>)"
    using u assms(3) by (simp add: ufree_def free_link_def Let_def)
  let ?y = "(set_ptr base e (set_ptr e base ?x))\<lparr>freep := base\<rparr>"
  have core: "morecore S 0x10000001 ?u w = Some (base, ?y, w')"
    using f assms(4) bytes by (simp add: morecore_def Let_def)
  have "malloc_loop S 0x10000001 base base ?u w = malloc_loop S 0x10000001 base e ?y w'"
    using u core assms(2) by (subst malloc_loop.simps) simp
  moreover have "malloc_loop S 0x10000001 base e ?y w' = Some (e + 16, (set_ptr base base ?y)\<lparr>freep := base\<rparr>, w')"
    using assms(3) by (subst malloc_loop.simps) (simp add: malloc_take_def)
  ultimately have "malloc S base 0xFFFFFFFF u w = Some (e + 16, (set_ptr base base ?y)\<lparr>freep := base\<rparr>, w')"
    unfolding malloc_def Let_def units u(1,2) by simp
  then show ?thesis using assms(3) by simp
qed

section \<open>A small heap\<close>

text \<open>A system whose only call is \<open>sbrk\<close>.\<close>

definition core_sys :: "(int \<Rightarrow> 'w \<Rightarrow> int \<times> 'w) \<Rightarrow> 'w sys" where
  "core_sys f = \<lparr>sys_fork = (\<lambda>w. (-1, w)), sys_wait = (\<lambda>w. (-1, w)), sys_pipe = (\<lambda>w. ((-1, 0, 0), w)), sys_write = (\<lambda>_ _ w. (-1, w)),
     sys_read = (\<lambda>_ _ w. ((-1, []), w)), sys_close = (\<lambda>_ w. (-1, w)), sys_kill = (\<lambda>_ w. (-1, w)), sys_exec = (\<lambda>_ _ w. (Some (-1), w)),
     sys_open = (\<lambda>_ _ w. (-1, w)), sys_mknod = (\<lambda>_ _ _ w. (-1, w)), sys_unlink = (\<lambda>_ w. (-1, w)),
     sys_fstat = (\<lambda>_ w. ((-1, \<lparr>st_type = 0, st_ino = 0, st_size = 0\<rparr>), w)), sys_link = (\<lambda>_ _ w. (-1, w)), sys_mkdir = (\<lambda>_ w. (-1, w)),
     sys_chdir = (\<lambda>_ w. (-1, w)), sys_dup = (\<lambda>_ w. (-1, w)), sys_sleep = (\<lambda>_ w. (-1, w)), sys_sbrk = f\<rparr>"

lemma sys_sbrk_core [simp]: "sys_sbrk (core_sys f) = f"
  by (simp add: core_sys_def)

definition demo_core :: "nat sys" where
  "demo_core = core_sys (\<lambda>n e. if 0x100000 < e then (- 1, e) else (int e, e + nat n))"

definition demo_heap :: umalloc where
  "demo_heap = \<lparr>heap = \<lambda>_. \<lparr>hptr = 0, hsize = 0\<rparr>, freep = 0\<rparr>"

lemma demo_core_ok: "core_ok demo_core id"
  by (simp add: core_ok_def demo_core_def)

theorem malloc_blocks_apart_witness:
  "\<exists>r v w'. malloc demo_core 0x2000 100 demo_heap 0x4000 = Some (r, v, w') \<and> r \<noteq> 0 \<and> {r..<r + 100} \<subseteq> {0x4000..<w'}"
  using malloc_blocks_apart [OF demo_core_ok, of demo_heap "0x2000" "0x4000" demo_heap "0x4000" "{}" 100]
  by (auto simp: demo_heap_def demo_core_def split: if_splits)

theorem malloc_huge_wraps_witness:
  "\<exists>v. malloc demo_core 0x2000 0xFFFFFFFF demo_heap 0x4000 = Some (0x4010, v, 0x4010) \<and> unat (hsize (heap v 0x4000)) = 2 ^ 28 + 1"
  using malloc_huge_wraps [of demo_heap "0x2000" "0x4000" demo_core "0x4000" "0x4010"] by (simp add: demo_heap_def demo_core_def)

end
