(* ===== verification/Mkfs.thy ===== *)
theory Mkfs
  imports Fs_Inodes
begin

text \<open>
  \<^verbatim>\<open>mkfs/mkfs.c\<close>: the program that builds the first disk image, on the host. The image is a regular file of
  the host, here the list of its sectors; the globals of the program are the fields of a record. A failed assertion
  and a call of \<open>die\<close> end the program, which is the outcome \<open>Panic\<close> with the text. The host is little-endian, as the structures
  of the image; its files are a parameter, a function that gives for a name the results of the reads, in their
  order. The messages that the program prints are left out.
\<close>

section \<open>State\<close>

abbreviation (input) NINODES :: nat where "NINODES \<equiv> 200"
abbreviation (input) nbitmap :: nat where "nbitmap \<equiv> FSSIZE div BPB + 1"
abbreviation (input) ninodeblocks :: nat where "ninodeblocks \<equiv> NINODES div IPB + 1"
abbreviation (input) nlog :: nat where "nlog \<equiv> LOGSIZE"
abbreviation (input) nmeta :: nat where "nmeta \<equiv> 2 + nlog + ninodeblocks + nbitmap"

definition zeroes :: block where
  "zeroes = replicate BSIZE 0"

text \<open>The field \<open>host_room\<close> is the number of sectors that the disk of the host has room for.\<close>

record mkfs =
  sectors :: "block list"
  msb :: superblock
  freeinode :: u32
  freeblock :: u32
  host_room :: nat

section \<open>Byte order\<close>

definition xshort :: "u16 \<Rightarrow> u16" where
  "xshort x = le_word [ucast x, ucast (drop_bit 8 x)]"

definition xint :: "u32 \<Rightarrow> u32" where
  "xint x = le_word [ucast x, ucast (drop_bit 8 x), ucast (drop_bit 16 x), ucast (drop_bit 24 x)]"

section \<open>Sectors\<close>

text \<open>The offset of a sector is computed in 32 bits. A sector past the end extends the file, the gap reads as zeroes.\<close>

definition sector :: "u32 \<Rightarrow> nat" where
  "sector sec = unat (sec * of_nat BSIZE) div BSIZE"

definition wsect :: "u32 \<Rightarrow> block \<Rightarrow> mkfs \<Rightarrow> mkfs res" where
  "wsect sec buf s = (let k = sector sec; n = length (sectors s) in
     if k < n then Ret (s\<lparr>sectors := (sectors s)[k := buf]\<rparr>)
     else if k < host_room s then Ret (s\<lparr>sectors := sectors s @ replicate (k - n) zeroes @ [buf]\<rparr>)
     else Panic ''write'')"

definition rsect :: "u32 \<Rightarrow> mkfs \<Rightarrow> block res" where
  "rsect sec s = (if sector sec < length (sectors s) then Ret (sectors s ! sector sec) else Panic ''read'')"

section \<open>Inodes\<close>

definition winode :: "u32 \<Rightarrow> dinode \<Rightarrow> mkfs \<Rightarrow> mkfs res" where
  "winode inum ip s =
     (let bn = IBLOCK inum (msb s) in
      kbind (rsect bn s) (\<lambda>buf. wsect bn (put_dinode (inode_off inum) ip buf) s))"

definition rinode :: "u32 \<Rightarrow> mkfs \<Rightarrow> dinode res" where
  "rinode inum s = kbind (rsect (IBLOCK inum (msb s)) s) (\<lambda>buf. Ret (get_dinode (inode_off inum) buf))"

definition mkfs_ialloc :: "u16 \<Rightarrow> mkfs \<Rightarrow> (u32 \<times> mkfs) res" where
  "mkfs_ialloc type s =
     (let inum = freeinode s; s = s\<lparr>freeinode := freeinode s + 1\<rparr>;
          di = \<lparr>d_type = xshort type, d_major = 0, d_minor = 0, d_nlink = xshort 1, d_size = xint 0, d_addrs = (\<lambda>_. 0)\<rparr> in
      kbind (winode inum di s) (\<lambda>s. Ret (inum, s)))"

definition mkfs_balloc :: "int \<Rightarrow> mkfs \<Rightarrow> mkfs res" where
  "mkfs_balloc used' s =
     (if \<not> used' < int BPB then Panic ''used < BPB''
      else wsect (sb_bmapstart (msb s)) (fold bit_use [0..<nat used'] zeroes) s)"

section \<open>Appending to a file\<close>

text \<open>An address in the inode, given out when it is still zero.\<close>

definition new_addr :: "nat \<Rightarrow> dinode \<Rightarrow> mkfs \<Rightarrow> dinode \<times> mkfs" where
  "new_addr k di s =
     (if xint (d_addrs di k) = 0
      then (di\<lparr>d_addrs := (d_addrs di)(k := xint (freeblock s))\<rparr>, s\<lparr>freeblock := freeblock s + 1\<rparr>)
      else (di, s))"

definition append_block :: "nat \<Rightarrow> dinode \<Rightarrow> mkfs \<Rightarrow> (u32 \<times> dinode \<times> mkfs) res" where
  "append_block fbn di s =
     (if fbn < NDIRECT
      then let (di, s) = new_addr fbn di s in Ret (xint (d_addrs di fbn), di, s)
      else let (di, s) = new_addr NDIRECT di s; j = 4 * (fbn - NDIRECT); b = xint (d_addrs di NDIRECT) in
           kbind (rsect b s) (\<lambda>indirect.
             if get32 j indirect = 0
             then let indirect = put32 j (xint (freeblock s)) indirect; s = s\<lparr>freeblock := freeblock s + 1\<rparr> in
                  kbind (wsect b indirect s) (\<lambda>s. Ret (xint (get32 j indirect), di, s))
             else Ret (xint (get32 j indirect), di, s)))"

text \<open>Offset and block number as numbers: the rest of the block is not empty, so each round takes a byte.\<close>

lemma off_block:
  fixes off :: u32
  assumes "off div 1024 < 268"
  shows "unat (off div 1024) = unat off div 1024" "unat off div 1024 < 268" "unat (off - off div 1024 * 1024) = unat off mod 1024"
    "unat ((off div 1024 + 1) * 1024 - off) = 1024 - unat off mod 1024"
proof -
  show d: "unat (off div 1024) = unat off div 1024" by (simp add: unat_div_distrib)
  have "unat (off div 1024) < unat (268 :: u32)" using assms by (simp only: word_less_nat_alt)
  then show l: "unat off div 1024 < 268" using d by simp
  have m: "unat (off div 1024 * 1024) = unat off div 1024 * 1024"
    using l by (simp add: unat_word_ariths d)
  have le: "off div 1024 * 1024 \<le> off" unfolding word_le_nat_alt m by simp
  then have "unat (off - off div 1024 * 1024) = unat off - unat off div 1024 * 1024"
    by (simp only: unat_sub m)
  then show "unat (off - off div 1024 * 1024) = unat off mod 1024" by (simp add: minus_div_mult_eq_mod)
  have s: "unat (off div 1024 + 1) = unat off div 1024 + 1"
    using l by (simp add: unat_word_ariths d)
  have n: "unat ((off div 1024 + 1) * 1024) = (unat off div 1024 + 1) * 1024"
    using l by (simp only: unat_word_ariths s) simp
  have r: "unat off = unat off div 1024 * 1024 + unat off mod 1024" "unat off mod 1024 < 1024" by simp_all
  have "unat off \<le> (unat off div 1024 + 1) * 1024" using r unfolding add_mult_distrib by linarith
  then have "off \<le> (off div 1024 + 1) * 1024" unfolding word_le_nat_alt n .
  then have "unat ((off div 1024 + 1) * 1024 - off) = (unat off div 1024 + 1) * 1024 - unat off" by (simp only: unat_sub n)
  then show "unat ((off div 1024 + 1) * 1024 - off) = 1024 - unat off mod 1024"
    using r unfolding add_mult_distrib by linarith
qed

function iappend_loop :: "u8 list \<Rightarrow> u32 \<Rightarrow> dinode \<Rightarrow> mkfs \<Rightarrow> (u32 \<times> dinode \<times> mkfs) res" where
  "iappend_loop p off di s =
     (if p = [] then Ret (off, di, s)
      else let fbn = off div of_nat BSIZE in
        if \<not> fbn < of_nat MAXFILE then Panic ''fbn < MAXFILE''
        else kbind (append_block (unat fbn) di s) (\<lambda>(x, di, s).
          let n1 = min (length p) (unat ((fbn + 1) * of_nat BSIZE - off)) in
          kbind (rsect x s) (\<lambda>buf.
          kbind (wsect x (put_bytes (unat (off - fbn * of_nat BSIZE)) (take n1 p) buf) s) (\<lambda>s.
            iappend_loop (drop n1 p) (off + of_nat n1) di s))))"
  by pat_completeness auto

termination
proof (relation "measure (\<lambda>(p, off, di, s). length p)")
  fix p :: "u8 list" and off fbn :: u32 and n1 :: nat
  assume "p \<noteq> []" "fbn = off div of_nat BSIZE" "\<not> \<not> fbn < of_nat MAXFILE" "n1 = min (length p) (unat ((fbn + 1) * of_nat BSIZE - off))"
  then have "0 < n1" "n1 \<le> length p" using off_block(4) [of off] by (auto simp: mod_less_divisor)
  then show "((drop n1 p, off + of_nat n1, di', s'), (p, off, di, s)) \<in> measure (\<lambda>(p, off, di, s). length p)" for di' s' di s
    by auto
qed simp

declare iappend_loop.simps [simp del]

definition iappend :: "u32 \<Rightarrow> u8 list \<Rightarrow> mkfs \<Rightarrow> mkfs res" where
  "iappend inum xp s =
     kbind (rinode inum s) (\<lambda>di.
     kbind (iappend_loop xp (xint (d_size di)) di s) (\<lambda>(off, di, s).
       winode inum (di\<lparr>d_size := xint off\<rparr>) s))"

section \<open>The program\<close>

definition entry :: "u32 \<Rightarrow> u8 list \<Rightarrow> u8 list" where
  "entry inum name = le_bytes 2 (xshort (ucast inum)) @ take DIRSIZ name @ replicate (DIRSIZ - length name) 0"

text \<open>\<^verbatim>\<open>"user/"\<close> in front of the name, and the underscore.\<close>

definition shortname :: "u8 list \<Rightarrow> u8 list" where
  "shortname a = (if take 5 a = [0x75, 0x73, 0x65, 0x72, 0x2F] then drop 5 a else a)"

definition skip_underscore :: "u8 list \<Rightarrow> u8 list" where
  "skip_underscore a = (if a \<noteq> [] \<and> hd a = 0x5F then tl a else a)"

fun append_reads :: "u32 \<Rightarrow> u8 list list \<Rightarrow> mkfs \<Rightarrow> mkfs res" where
  "append_reads inum [] s = Ret s"
| "append_reads inum (buf # rest) s =
     (if buf = [] then Ret s else kbind (iappend inum buf s) (append_reads inum rest))"

definition add_file :: "(u8 list \<Rightarrow> u8 list list option) \<Rightarrow> u32 \<Rightarrow> u8 list \<Rightarrow> mkfs \<Rightarrow> mkfs res" where
  "add_file host rootino arg s =
     (let sn = shortname arg in
      if SLASH \<in> set sn then Panic ''index(shortname, '/') == 0''
      else case host arg of
        None \<Rightarrow> Panic ''open''
      | Some reads \<Rightarrow>
          let sn = skip_underscore sn in
          if \<not> length sn \<le> DIRSIZ then Panic ''strlen(shortname) <= DIRSIZ''
          else kbind (mkfs_ialloc T_FILE s) (\<lambda>(inum, s).
               kbind (iappend rootino (entry inum sn) s) (\<lambda>s.
               append_reads inum reads s)))"

fun add_files :: "(u8 list \<Rightarrow> u8 list list option) \<Rightarrow> u32 \<Rightarrow> u8 list list \<Rightarrow> mkfs \<Rightarrow> mkfs res" where
  "add_files host rootino [] s = Ret s"
| "add_files host rootino (arg # args) s = kbind (add_file host rootino arg s) (add_files host rootino args)"

fun clear_sectors :: "nat \<Rightarrow> nat \<Rightarrow> mkfs \<Rightarrow> mkfs res" where
  "clear_sectors 0 i s = Ret s"
| "clear_sectors (Suc n) i s = kbind (wsect (of_nat i) zeroes s) (clear_sectors n (i + 1))"

definition mkfs_sb :: superblock where
  "mkfs_sb = \<lparr>sb_magic = FSMAGIC, sb_size = xint (of_nat FSSIZE), sb_nblocks = xint (of_nat (FSSIZE - nmeta)),
     sb_ninodes = xint (of_nat NINODES), sb_nlog = xint (of_nat nlog), sb_logstart = xint 2,
     sb_inodestart = xint (of_nat (2 + nlog)), sb_bmapstart = xint (of_nat (2 + nlog + ninodeblocks))\<rparr>"

definition put_sb :: "superblock \<Rightarrow> block \<Rightarrow> block" where
  "put_sb x d = put32 28 (sb_bmapstart x) (put32 24 (sb_inodestart x) (put32 20 (sb_logstart x) (put32 16 (sb_nlog x)
     (put32 12 (sb_ninodes x) (put32 8 (sb_nblocks x) (put32 4 (sb_size x) (put32 0 (sb_magic x) d)))))))"

definition fix_root :: "u32 \<Rightarrow> mkfs \<Rightarrow> mkfs res" where
  "fix_root rootino s =
     kbind (rinode rootino s) (\<lambda>di.
       let off = xint (d_size di); off = (off div of_nat BSIZE + 1) * of_nat BSIZE in
       winode rootino (di\<lparr>d_size := xint off\<rparr>) s)"

text \<open>\<open>main\<close>: \<open>argv\<close> are the arguments after the name of the program; \<open>creates\<close> tells whether the image can be opened, which empties it.\<close>

definition mkfs_start :: "nat \<Rightarrow> mkfs" where
  "mkfs_start room = \<lparr>sectors = [], msb = mkfs_sb, freeinode = 1, freeblock = of_nat nmeta, host_room = room\<rparr>"

definition mkfs_main :: "nat \<Rightarrow> (u8 list \<Rightarrow> bool) \<Rightarrow> (u8 list \<Rightarrow> u8 list list option) \<Rightarrow> u8 list list \<Rightarrow> mkfs res" where
  "mkfs_main room creates host argv = (case argv of
     [] \<Rightarrow> Panic ''Usage: mkfs fs.img files...''
   | img # args \<Rightarrow>
       if BSIZE mod DINODE_SIZE \<noteq> 0 \<or> BSIZE mod DIRENT_SIZE \<noteq> 0 then Panic ''BSIZE''
       else if \<not> creates img then Panic ''open''
       else
         kbind (clear_sectors FSSIZE 0 (mkfs_start room)) (\<lambda>s.
         kbind (wsect 1 (put_sb (msb s) zeroes) s) (\<lambda>s.
         kbind (mkfs_ialloc T_DIR s) (\<lambda>(rootino, s).
           if rootino \<noteq> ROOTINO then Panic ''rootino == ROOTINO''
           else kbind (iappend rootino (entry rootino [0x2E]) s) (\<lambda>s.
                kbind (iappend rootino (entry rootino [0x2E, 0x2E]) s) (\<lambda>s.
                kbind (add_files host rootino args s) (\<lambda>s.
                kbind (fix_root rootino s) (\<lambda>s.
                mkfs_balloc (sint (freeblock s)) s))))))))"

section \<open>Byte order and sectors\<close>

lemma xshort_id [simp]: "xshort x = x"
proof -
  have "[ucast x, ucast (drop_bit 8 x)] = le_bytes 2 x" by (simp add: le_bytes_def upt_rec)
  then show ?thesis by (simp only: xshort_def) simp
qed

lemma xint_id [simp]: "xint x = x"
proof -
  have "[ucast x, ucast (drop_bit 8 x), ucast (drop_bit 16 x), ucast (drop_bit 24 x)] = le_bytes 4 x"
    by (simp add: le_bytes_def upt_rec)
  then show ?thesis by (simp only: xint_def) simp
qed

lemma sector_small [simp]: "unat b < 2 ^ 22 \<Longrightarrow> sector b = unat b"
proof -
  assume "unat b < 2 ^ 22"
  then have "unat (b * 1024) = unat b * 1024" by (simp add: unat_word_ariths)
  then show ?thesis by (simp add: sector_def)
qed

lemma rsect_ok: "length (sectors s) = FSSIZE \<Longrightarrow> unat b < FSSIZE \<Longrightarrow> rsect b s = Ret (sectors s ! unat b)"
  by (simp add: rsect_def)

lemma wsect_ok: "length (sectors s) = FSSIZE \<Longrightarrow> unat b < FSSIZE \<Longrightarrow> wsect b d s = Ret (s\<lparr>sectors := (sectors s)[unat b := d]\<rparr>)"
  by (simp add: wsect_def)

section \<open>What an image holds\<close>

text \<open>
  The addresses of an inode in one row: the direct ones, the one of the indirect block, and those in the indirect block.
  Block \<open>fbn\<close> of the file is at \<open>place fbn\<close> of the row.
\<close>

definition row :: "(nat \<Rightarrow> block) \<Rightarrow> dinode \<Rightarrow> nat \<Rightarrow> u32" where
  "row v di k = (if k \<le> NDIRECT then d_addrs di k
     else if d_addrs di NDIRECT = 0 then 0 else get32 (4 * (k - 13)) (v (unat (d_addrs di NDIRECT))))"

definition place :: "nat \<Rightarrow> nat" where
  "place fbn = (if fbn < NDIRECT then fbn else fbn + 1)"

text \<open>Block \<open>fbn\<close> of a file with contents \<open>f\<close>, filled up with zeroes.\<close>

definition block_of :: "u8 list \<Rightarrow> nat \<Rightarrow> block" where
  "block_of f fbn = (let c = take BSIZE (drop (fbn * BSIZE) f) in c @ drop (length c) zeroes)"

text \<open>The places of the row that a file of \<open>n\<close> bytes uses, and their number.\<close>

definition places :: "nat \<Rightarrow> nat set" where
  "places n = place ` {fbn. fbn * BSIZE < n} \<union> (if NDIRECT * BSIZE < n then {NDIRECT} else {})"

definition nblocks :: "nat \<Rightarrow> nat" where
  "nblocks n = (n + BSIZE - 1) div BSIZE + (if NDIRECT * BSIZE < n then 1 else 0)"

text \<open>
  The data blocks while files grow: \<open>D\<close> are the inodes, \<open>A\<close> the places of each that have a block, \<open>F\<close> the contents of the
  files. Every block belongs to one place of one inode, and what is not given out yet is zero.
\<close>

definition data_ok :: "mkfs \<Rightarrow> (nat \<Rightarrow> dinode) \<Rightarrow> (nat \<Rightarrow> nat set) \<Rightarrow> (nat \<Rightarrow> u8 list) \<Rightarrow> bool" where
  "data_ok s D A F \<longleftrightarrow> length (sectors s) = FSSIZE \<and> (\<forall>b < FSSIZE. length (sectors s ! b) = BSIZE) \<and>
     nmeta \<le> unat (freeblock s) \<and> unat (freeblock s) \<le> FSSIZE \<and>
     (\<forall>b < FSSIZE. unat (freeblock s) \<le> b \<longrightarrow> sectors s ! b = zeroes) \<and>
     (\<forall>i. dinode_ok (D i)) \<and>
     (\<forall>i. \<forall>k < 269. row (nth (sectors s)) (D i) k \<noteq> 0 \<longleftrightarrow> k \<in> A i) \<and>
     (\<forall>i k. k \<in> A i \<longrightarrow> k < 269 \<and> nmeta \<le> unat (row (nth (sectors s)) (D i) k) \<and> row (nth (sectors s)) (D i) k < freeblock s) \<and>
     (\<forall>i j k l. k \<in> A i \<longrightarrow> l \<in> A j \<longrightarrow> row (nth (sectors s)) (D i) k = row (nth (sectors s)) (D j) l \<longrightarrow> i = j \<and> k = l) \<and>
     (\<forall>i fbn. place fbn \<in> A i \<longrightarrow> sectors s ! unat (row (nth (sectors s)) (D i) (place fbn)) = block_of (F i) fbn)"

lemma data_okD:
  assumes "data_ok s D A F"
  shows "length (sectors s) = FSSIZE" "b < FSSIZE \<Longrightarrow> length (sectors s ! b) = BSIZE"
    "nmeta \<le> unat (freeblock s)" "unat (freeblock s) \<le> FSSIZE" "b < FSSIZE \<Longrightarrow> unat (freeblock s) \<le> b \<Longrightarrow> sectors s ! b = zeroes"
    "dinode_ok (D i)" "k < 269 \<Longrightarrow> row (nth (sectors s)) (D i) k \<noteq> 0 \<longleftrightarrow> k \<in> A i"
    "k \<in> A i \<Longrightarrow> k < 269" "k \<in> A i \<Longrightarrow> nmeta \<le> unat (row (nth (sectors s)) (D i) k)"
    "k \<in> A i \<Longrightarrow> unat (row (nth (sectors s)) (D i) k) < unat (freeblock s)"
    "k \<in> A i \<Longrightarrow> l \<in> A j \<Longrightarrow> row (nth (sectors s)) (D i) k = row (nth (sectors s)) (D j) l \<Longrightarrow> i = j \<and> k = l"
    "place fbn \<in> A i \<Longrightarrow> sectors s ! unat (row (nth (sectors s)) (D i) (place fbn)) = block_of (F i) fbn"
  using assms unfolding data_ok_def word_less_nat_alt by blast+

lemma place_simps [simp]: "place a = place b \<longleftrightarrow> a = b" "place a \<noteq> 12" "fbn < 268 \<Longrightarrow> place fbn < 269"
  by (auto simp: place_def split: if_splits)

lemma length_zeroes [simp]: "length zeroes = BSIZE"
  unfolding zeroes_def by (rule length_replicate)

lemma length_block_of [simp]: "length (block_of f fbn) = BSIZE"
  by (simp add: block_of_def Let_def)

lemma block_of_past: "length f \<le> fbn * BSIZE \<Longrightarrow> block_of f fbn = zeroes"
  by (simp add: block_of_def)

lemma get_bytes_zeroes: "j + n \<le> BSIZE \<Longrightarrow> get_bytes j n zeroes = replicate n 0"
  unfolding get_bytes_def zeroes_def drop_replicate take_replicate by (simp only: min_def) simp

lemma get32_zeroes: "j + 4 \<le> BSIZE \<Longrightarrow> get32 j zeroes = 0"
  unfolding get32_def by (subst get_bytes_zeroes) (simp_all add: le_word_def numeral_eq_Suc)

lemma block_of_append:
  assumes "fbn = length f div BSIZE" "length c \<le> BSIZE - length f mod BSIZE"
  shows "block_of (f @ c) fbn = put_bytes (length f mod BSIZE) c (block_of f fbn)"
    "fbn' \<noteq> fbn \<Longrightarrow> block_of (f @ c) fbn' = block_of f fbn'"
proof -
  have f: "length f = fbn * 1024 + length f mod 1024" "length f mod 1024 < 1024" using assms(1) by simp_all
  show "block_of (f @ c) fbn = put_bytes (length f mod BSIZE) c (block_of f fbn)"
  proof -
    have "length f + length c - fbn * 1024 = length f mod 1024 + length c" "length f - fbn * 1024 = length f mod 1024" "fbn * 1024 - length f = 0"
      using f(1) by linarith+
    then show ?thesis using assms(2) f(2) by (simp add: block_of_def put_bytes_def Let_def add.commute)
  qed
  show "block_of (f @ c) fbn' = block_of f fbn'" if "fbn' \<noteq> fbn"
  proof (cases "fbn' < fbn")
    case True
    then have "Suc fbn' * 1024 \<le> fbn * 1024" by (intro mult_le_mono1) simp
    then show ?thesis using f by (simp add: block_of_def Let_def)
  next
    case False
    then have "Suc fbn * 1024 \<le> fbn' * 1024" using that by (intro mult_le_mono1) simp
    then show ?thesis using f assms(2) by (simp add: block_of_past)
  qed
qed

section \<open>Giving out a block\<close>

lemma data_ok_new:
  assumes ok: "data_ok s D A F" and k: "k \<notin> A i" "k < 269" "unat (freeblock s) < FSSIZE"
    and s': "length (sectors s') = FSSIZE" "\<And>b. b < FSSIZE \<Longrightarrow> length (sectors s' ! b) = BSIZE" "freeblock s' = freeblock s + 1" "\<And>j. dinode_ok (D' j)"
    and rows: "\<And>j l. l < 269 \<Longrightarrow> row (nth (sectors s')) (D' j) l = (if j = i \<and> l = k then freeblock s else row (nth (sectors s)) (D j) l)"
    and same: "\<And>b. b < FSSIZE \<Longrightarrow> unat (freeblock s) \<le> b \<or> (\<exists>j fbn. place fbn \<in> A j \<and> b = unat (row (nth (sectors s)) (D j) (place fbn))) \<Longrightarrow>
      sectors s' ! b = sectors s ! b"
    and past: "\<And>fbn. place fbn = k \<Longrightarrow> length (F i) \<le> fbn * BSIZE"
  shows "data_ok s' D' (A(i := insert k (A i))) F"
proof -
  note old = data_okD [OF ok]
  let ?A = "A(i := insert k (A i))" let ?z = "row (nth (sectors s))" let ?z' = "row (nth (sectors s'))"
  have fb: "unat (freeblock s + 1) = unat (freeblock s) + 1" using k(3) by (simp add: unat_word_ariths)
  have nz: "freeblock s \<noteq> 0" using old(3) by auto
  have mem: "l \<in> ?A j \<longleftrightarrow> (j = i \<and> l = k) \<or> l \<in> A j" for j l by auto
  have less: "l < 269" if "l \<in> ?A j" for j l using that old(8) k(2) unfolding mem by blast
  have sl: "?z' (D' j) l = (if j = i \<and> l = k then freeblock s else ?z (D j) l)" if "l \<in> ?A j" for j l using rows less [OF that] .
  have lt: "?z (D j) l \<noteq> freeblock s" if "l \<in> A j" for j l using old(10) [OF that] by auto
  have "?z' (D' j) l \<noteq> 0 \<longleftrightarrow> l \<in> ?A j" if "l < 269" for j l unfolding rows [OF that] mem using old(7) [OF that] nz k(1) by auto
  moreover have "nmeta \<le> unat (?z' (D' j) l) \<and> ?z' (D' j) l < freeblock s'" if "l \<in> ?A j" for j l
    using old(3) old(9,10) [of l j] that [unfolded mem] unfolding sl [OF that] word_less_nat_alt s'(3) fb by auto
  moreover have "j = j' \<and> l = l'" if m1: "l \<in> ?A j" and m2: "l' \<in> ?A j'" and e: "?z' (D' j) l = ?z' (D' j') l'" for j j' l l'
  proof -
    consider "l \<in> A j" "l' \<in> A j'" "\<not> (j = i \<and> l = k)" "\<not> (j' = i \<and> l' = k)" | "j = i \<and> l = k" | "j' = i \<and> l' = k"
      using m1 [unfolded mem] m2 [unfolded mem] by blast
    then show ?thesis
    proof cases
      case 1
      then show ?thesis using old(11) [OF 1(1,2)] e unfolding sl [OF m1] sl [OF m2] by (simp only: if_False)
    next
      case 2
      then show ?thesis using lt [of l' j'] m2 e unfolding sl [OF m1] sl [OF m2] by (auto simp: mem split: if_splits)
    next
      case 3
      then show ?thesis using lt [of l j] m1 e unfolding sl [OF m1] sl [OF m2] by (auto simp: mem split: if_splits)
    qed
  qed
  moreover have "sectors s' ! unat (?z' (D' j) (place fbn)) = block_of (F j) fbn" if m: "place fbn \<in> ?A j" for j fbn
  proof (cases "j = i \<and> place fbn = k")
    case True
    then show ?thesis using sl [OF m] same [OF k(3)] old(5) [OF k(3)] past [of fbn] by (simp add: block_of_past)
  next
    case False
    then have m': "place fbn \<in> A j" using m by (auto split: if_splits)
    have "unat (?z (D j) (place fbn)) < FSSIZE" using old(10) [OF m'] old(4) by simp
    then have "sectors s' ! unat (?z (D j) (place fbn)) = sectors s ! unat (?z (D j) (place fbn))" using same m' by blast
    then show ?thesis using False sl [OF m] old(12) [OF m'] by auto
  qed
  moreover have "sectors s' ! b = zeroes" if "b < FSSIZE" "unat (freeblock s') \<le> b" for b
    using same [OF that(1)] old(5) [OF that(1)] that(2) unfolding s'(3) fb by simp
  moreover have "nmeta \<le> unat (freeblock s') \<and> unat (freeblock s') \<le> FSSIZE" using old(3) k(3) unfolding s'(3) fb by simp
  ultimately show ?thesis unfolding data_ok_def using s'(1,2,4) less by (intro conjI allI impI) (simp_all only:)
qed

lemma alloc_addr:
  assumes ok: "data_ok s D A F" and k: "k \<notin> A i" "k \<le> NDIRECT" "unat (freeblock s) < FSSIZE" "k < NDIRECT \<Longrightarrow> length (F i) \<le> k * BSIZE"
  shows "data_ok (s\<lparr>freeblock := freeblock s + 1\<rparr>) (D(i := (D i)\<lparr>d_addrs := (d_addrs (D i))(k := freeblock s)\<rparr>)) (A(i := insert k (A i))) F"
proof (rule data_ok_new [OF ok k(1) _ k(3)])
  note old = data_okD [OF ok]
  have z: "d_addrs (D i) k = 0" using old(7) [of k i] k(1,2) by (simp add: row_def)
  fix j l :: nat assume "l < 269"
  then show "row (nth (sectors (s\<lparr>freeblock := freeblock s + 1\<rparr>))) ((D(i := (D i)\<lparr>d_addrs := (d_addrs (D i))(k := freeblock s)\<rparr>)) j) l =
      (if j = i \<and> l = k then freeblock s else row (nth (sectors s)) (D j) l)"
    using z k(2,3) old(5) [OF k(3)] get32_zeroes [of "4 * (l - 13)"] by (auto simp: row_def)
next
  show "dinode_ok ((D(i := (D i)\<lparr>d_addrs := (d_addrs (D i))(k := freeblock s)\<rparr>)) j)" for j
    using data_okD(6) [OF ok] k(2) by (auto simp: dinode_ok_def)
  show "length (F i) \<le> fbn * BSIZE" if "place fbn = k" for fbn using that k(2,4) by (auto simp: place_def split: if_splits)
qed (use k(2) data_okD [OF ok] in auto)

lemma row_upd:
  assumes "d_addrs di NDIRECT \<noteq> 0 \<Longrightarrow> unat (d_addrs di NDIRECT) \<noteq> b"
  shows "row (nth ((sectors s)[b := d])) di k = row (nth (sectors s)) di k"
  using assms by (auto simp: row_def)

lemma row_12: "row v di NDIRECT = d_addrs di NDIRECT"
  by (simp add: row_def)

lemma indirect_row: "data_ok s D A F \<Longrightarrow> d_addrs (D j) NDIRECT \<noteq> 0 \<longleftrightarrow> NDIRECT \<in> A j"
  using data_okD(7) [of s D A F 12 j] by (simp add: row_def)

lemma alloc_indirect:
  assumes ok: "data_ok s D A F" and i: "NDIRECT \<in> A i" "k \<notin> A i" "NDIRECT < k" "k < 269" "unat (freeblock s) < FSSIZE" "length (F i) \<le> (k - 1) * BSIZE"
  defines "b \<equiv> unat (d_addrs (D i) NDIRECT)"
  shows "data_ok (s\<lparr>freeblock := freeblock s + 1, sectors := (sectors s)[b := put32 (4 * (k - 13)) (freeblock s) (sectors s ! b)]\<rparr>) D (A(i := insert k (A i))) F"
proof (rule data_ok_new [OF ok i(2,4,5)])
  note old = data_okD [OF ok]
  let ?j = "4 * (k - 13)" let ?s = "s\<lparr>freeblock := freeblock s + 1, sectors := (sectors s)[b := put32 ?j (freeblock s) (sectors s ! b)]\<rparr>"
  have b: "d_addrs (D i) 12 \<noteq> 0" "row (nth (sectors s)) (D i) 12 = d_addrs (D i) 12" using i(1) indirect_row [OF ok] by (auto simp: row_def)
  have bl: "b < unat (freeblock s)" "b < length (sectors s)" "length (sectors s ! b) = 1024" "?j + 4 \<le> 1024"
    using old(10) [OF i(1)] b(2) old(1,2,4) i(3,4) by (auto simp: b_def)
  have other: "unat (d_addrs (D j) 12) \<noteq> b" if "d_addrs (D j) 12 \<noteq> 0" "j \<noteq> i" for j
    using that old(11) [of 12 j 12 i] i(1) indirect_row [OF ok, of j] b(2) unfolding b_def by (auto simp: row_12 dest: word_unatI)
  show "row (nth (sectors ?s)) (D j) l = (if j = i \<and> l = k then freeblock s else row (nth (sectors s)) (D j) l)" if "l < 269" for j l
  proof (cases "j = i \<and> 12 < l")
    case True
    have "get32 (4 * (l - 13)) (put32 ?j (freeblock s) (sectors s ! b)) = get32 (4 * (l - 13)) (sectors s ! b)" if ne: "l \<noteq> k"
      by (rule get32_put32_other) (use True ne bl(3,4) i(3) in auto)
    moreover have "get32 ?j (put32 ?j (freeblock s) (sectors s ! b)) = freeblock s" using bl(3,4) by (simp add: get32_put32)
    ultimately show ?thesis using True b bl(2) by (auto simp: row_def b_def [symmetric])
  next
    case False
    then have "l \<le> 12 \<or> j \<noteq> i" by auto
    then show ?thesis using other [of j] i(3) False by (auto simp: row_def)
  qed
  show "length (sectors ?s ! c) = BSIZE" if "c < FSSIZE" for c using old(1,2) that bl by (cases "c = b") auto
  show "sectors ?s ! c = sectors s ! c" if "c < FSSIZE"
    "unat (freeblock s) \<le> c \<or> (\<exists>j fbn. place fbn \<in> A j \<and> c = unat (row (nth (sectors s)) (D j) (place fbn)))" for c
  proof -
    have "row (nth (sectors s)) (D j) (place fbn) \<noteq> d_addrs (D i) 12" if "place fbn \<in> A j" for j fbn
      using old(11) [OF that i(1)] b(2) by auto
    then have "c \<noteq> b" using that(2) bl(1) unfolding b_def by (metis not_le word_unatI)
    then show ?thesis by simp
  qed
qed (use data_okD [OF ok] i(3,6) in \<open>auto simp: place_def split: if_splits\<close>)

section \<open>Writing into a block\<close>

lemma data_ok_write:
  assumes ok: "data_ok s D A F" and m: "place fbn \<in> A i" and l: "fbn = length (F i) div BSIZE" "length c \<le> BSIZE - length (F i) mod BSIZE"
  defines "b \<equiv> unat (row (nth (sectors s)) (D i) (place fbn))"
  shows "data_ok (s\<lparr>sectors := (sectors s)[b := put_bytes (length (F i) mod BSIZE) c (sectors s ! b)]\<rparr>) D A (F(i := F i @ c))"
proof -
  note old = data_okD [OF ok]
  let ?s = "s\<lparr>sectors := (sectors s)[b := put_bytes (length (F i) mod BSIZE) c (sectors s ! b)]\<rparr>"
  have b: "b < unat (freeblock s)" "b < 2000" "sectors s ! b = block_of (F i) fbn"
    using old(10) [OF m] old(4) old(12) [OF m] by (auto simp: b_def)
  have len: "length (F i) mod 1024 + length c \<le> 1024" using l(2) by (simp add: add.commute le_diff_conv2)
  have "d_addrs (D j) 12 \<noteq> 0 \<Longrightarrow> unat (d_addrs (D j) 12) \<noteq> b" for j
    using old(11) [OF m, of 12 j] indirect_row [OF ok, of j] unfolding b_def by (auto simp: row_12 dest: word_unatI)
  then have r: "row (nth (sectors ?s)) (D j) k = row (nth (sectors s)) (D j) k" for j k by (simp add: row_upd)
  have "length (sectors ?s ! d) = BSIZE" if "d < FSSIZE" for d
    using old(1,2) that b len by (cases "d = b") auto
  moreover have "sectors ?s ! d = zeroes" if "d < FSSIZE" "unat (freeblock s) \<le> d" for d using b(1) that old(5) by auto
  moreover have "sectors ?s ! unat (row (nth (sectors ?s)) (D j) (place x)) = block_of ((F(i := F i @ c)) j) x" if "place x \<in> A j" for j x
  proof (cases "j = i \<and> x = fbn")
    case True
    then show ?thesis using b old(1) block_of_append(1) [OF l] unfolding r by (simp add: b_def [symmetric])
  next
    case False
    then have "row (nth (sectors s)) (D j) (place x) \<noteq> row (nth (sectors s)) (D i) (place fbn)" using old(11) [OF that m] by auto
    then have "unat (row (nth (sectors s)) (D j) (place x)) \<noteq> b" unfolding b_def by (metis word_unatI)
    then show ?thesis using False old(12) [OF that] block_of_append(2) [OF l, of x] unfolding r by auto
  qed
  ultimately show ?thesis unfolding data_ok_def r using old by (intro conjI allI impI) (simp_all add: word_less_nat_alt)
qed

section \<open>Appending\<close>

lemma places_iff: "k \<in> places n \<longleftrightarrow> k < 12 \<and> k * 1024 < n \<or> k = 12 \<and> 12 * 1024 < n \<or> 12 < k \<and> (k - 1) * 1024 < n"
proof -
  have "(\<exists>f. f * 1024 < n \<and> k = place f) \<longleftrightarrow> k < 12 \<and> k * 1024 < n \<or> 12 < k \<and> (k - 1) * 1024 < n"
  proof (rule iffI)
    assume "k < 12 \<and> k * 1024 < n \<or> 12 < k \<and> (k - 1) * 1024 < n"
    then show "\<exists>f. f * 1024 < n \<and> k = place f"
    proof
      assume "12 < k \<and> (k - 1) * 1024 < n"
      then have "(k - 1) * 1024 < n \<and> k = place (k - 1)" by (auto simp: place_def)
      then show ?thesis ..
    qed (auto simp: place_def)
  qed (auto simp: place_def split: if_splits)
  then show ?thesis by (auto simp: places_def)
qed

text \<open>The next bytes go into a block that is there, or they need a new one, or the first one through the indirect block.\<close>

lemma places_grow:
  assumes "fbn = len div 1024" "0 < n" "n \<le> 1024 - len mod 1024"
  shows "len mod 1024 \<noteq> 0 \<Longrightarrow> places (len + n) = places len \<and> nblocks (len + n) = nblocks len \<and> place fbn \<in> places len \<and> (12 \<le> fbn \<longrightarrow> 12 \<in> places len)"
    "len mod 1024 = 0 \<Longrightarrow> fbn \<noteq> 12 \<Longrightarrow> places (len + n) = insert (place fbn) (places len) \<and> nblocks (len + n) = nblocks len + 1 \<and>
      place fbn \<notin> places len \<and> (12 < fbn \<longrightarrow> 12 \<in> places len) \<and> len = fbn * 1024"
    "len mod 1024 = 0 \<Longrightarrow> fbn = 12 \<Longrightarrow> places (len + n) = insert 13 (insert 12 (places len)) \<and> nblocks (len + n) = nblocks len + 2 \<and>
      12 \<notin> places len \<and> 13 \<notin> places len \<and> len = 12288"
proof -
  have len: "len = fbn * 1024 + len mod 1024" "len mod 1024 < 1024" using assms(1) by simp_all
  have lt: "k * 1024 < len + n \<longleftrightarrow> k \<le> fbn" for k using assms(2,3) len by linarith
  show "places (len + n) = places len \<and> nblocks (len + n) = nblocks len \<and> place fbn \<in> places len \<and> (12 \<le> fbn \<longrightarrow> 12 \<in> places len)" if r: "len mod 1024 \<noteq> 0"
  proof -
    have lt': "k * 1024 < len \<longleftrightarrow> k \<le> fbn" for k using r len by linarith
    have "(len + n + 1023) div 1024 = fbn + 1" "(len + 1023) div 1024 = fbn + 1" using assms(2,3) len r by linarith+
    then show ?thesis using lt [of 12] lt' [of 12] by (auto simp: set_eq_iff places_iff lt lt' nblocks_def place_def add.commute)
  qed
  assume r: "len mod 1024 = 0"
  have lt': "k * 1024 < len \<longleftrightarrow> k < fbn" for k using r len by linarith
  have d: "(len + n + 1023) div 1024 = fbn + 1" "(len + 1023) div 1024 = fbn" using assms(2,3) len r by linarith+
  show "places (len + n) = insert (place fbn) (places len) \<and> nblocks (len + n) = nblocks len + 1 \<and>
      place fbn \<notin> places len \<and> (12 < fbn \<longrightarrow> 12 \<in> places len) \<and> len = fbn * 1024" if "fbn \<noteq> 12"
    using d lt [of 12] lt' [of 12] that len(1) r by (auto simp: set_eq_iff places_iff lt lt' nblocks_def place_def)
  show "places (len + n) = insert 13 (insert 12 (places len)) \<and> nblocks (len + n) = nblocks len + 2 \<and>
      12 \<notin> places len \<and> 13 \<notin> places len \<and> len = 12288" if "fbn = 12"
    using d lt [of 12] lt' [of 12] that len(1) r by (auto simp: set_eq_iff places_iff lt lt' nblocks_def)
qed

definition below :: "mkfs \<Rightarrow> mkfs \<Rightarrow> bool" where
  "below s s' \<longleftrightarrow> msb s' = msb s \<and> freeinode s' = freeinode s \<and> host_room s' = host_room s \<and> (\<forall>b < nmeta. sectors s' ! b = sectors s ! b)"

lemma below_refl [simp]: "below s s" "below s (s\<lparr>freeblock := x\<rparr>)"
  by (simp_all add: below_def)

lemma below_trans: "below s t \<Longrightarrow> below t u \<Longrightarrow> below s u"
  by (simp add: below_def)

lemma below_upd: "nmeta \<le> b \<Longrightarrow> below s (s\<lparr>sectors := (sectors s)[b := d]\<rparr>)" "nmeta \<le> b \<Longrightarrow> below s (s\<lparr>freeblock := x, sectors := (sectors s)[b := d]\<rparr>)"
  by (auto simp: below_def)

lemma new_addr_ok:
  assumes ok: "data_ok s D A F" and k: "k \<le> NDIRECT" "k \<notin> A i \<Longrightarrow> unat (freeblock s) < FSSIZE" "k \<notin> A i \<Longrightarrow> k < NDIRECT \<Longrightarrow> length (F i) \<le> k * BSIZE"
  shows "\<exists>di s'. new_addr k (D i) s = (di, s') \<and> data_ok s' (D(i := di)) (A(i := insert k (A i))) F \<and> d_addrs di k \<noteq> 0 \<and> below s s' \<and>
    unat (freeblock s') = unat (freeblock s) + (if k \<in> A i then 0 else 1) \<and> (\<exists>a. di = (D i)\<lparr>d_addrs := a\<rparr>)"
proof (cases "k \<in> A i")
  case True
  then have "d_addrs (D i) k \<noteq> 0" using data_okD(7) [OF ok, of k i] k(1) by (simp add: row_def)
  moreover have "\<exists>a. D i = (D i)\<lparr>d_addrs := a\<rparr>" by (rule exI [of _ "d_addrs (D i)"]) simp
  moreover have "A(i := insert k (A i)) = A" "D(i := D i) = D" using True by (auto simp: insert_absorb)
  ultimately show ?thesis using True ok by (simp add: new_addr_def)
next
  case False
  have "d_addrs (D i) k = 0" using data_okD(7) [OF ok, of k i] k(1) False by (simp add: row_def)
  moreover have "unat (freeblock s + 1) = unat (freeblock s) + 1" using k(2) [OF False] by (simp add: unat_word_ariths)
  moreover have "freeblock s \<noteq> 0" using data_okD(3) [OF ok] by auto
  ultimately show ?thesis using alloc_addr [OF ok False k(1) k(2) [OF False] k(3) [OF False]] False by (simp add: new_addr_def) blast
qed

lemma append_block_ok:
  assumes ok: "data_ok s D A F" and A: "A i = places (length (F i))" and fbn: "fbn = length (F i) div BSIZE" "fbn < MAXFILE"
    and n: "0 < n" "n \<le> BSIZE - length (F i) mod BSIZE" "unat (freeblock s) + nblocks (length (F i) + n) \<le> FSSIZE + nblocks (length (F i))"
  shows "\<exists>di s'. append_block fbn (D i) s = Ret (row (nth (sectors s')) di (place fbn), di, s') \<and>
    data_ok s' (D(i := di)) (A(i := places (length (F i) + n))) F \<and> below s s' \<and>
    unat (freeblock s') + nblocks (length (F i)) = unat (freeblock s) + nblocks (length (F i) + n) \<and> (\<exists>a. di = (D i)\<lparr>d_addrs := a\<rparr>)"
proof -
  note g = places_grow [OF fbn(1) n(1) n(2)]
  let ?len = "length (F i)"
  show ?thesis
  proof (cases "fbn < 12")
    case True
    have p: "place fbn = fbn" using True by (simp add: place_def)
    have "places (?len + n) = insert fbn (A i)" "nblocks (?len + n) = nblocks ?len + (if fbn \<in> A i then 0 else 1)" "fbn \<notin> A i \<Longrightarrow> ?len \<le> fbn * 1024"
      using g(1,2) True unfolding p A by (cases "?len mod 1024 = 0"; auto)+
    moreover from this have "fbn \<notin> A i \<Longrightarrow> unat (freeblock s) < FSSIZE" using n(3) by auto
    ultimately show ?thesis using new_addr_ok [OF ok, of fbn i] True by (auto simp: append_block_def p row_def)
  next
    case False
    have p: "place fbn = fbn + 1" using False by (simp add: place_def)
    have i: "places (?len + n) = insert (fbn + 1) (insert 12 (A i))" "?len mod 1024 \<noteq> 0 \<Longrightarrow> 12 \<in> A i \<and> fbn + 1 \<in> A i"
      "fbn + 1 \<notin> A i \<Longrightarrow> ?len \<le> fbn * 1024" and
      nb: "nblocks (?len + n) = nblocks ?len + (if 12 \<in> A i then 0 else 1) + (if fbn + 1 \<in> A i then 0 else 1)"
      using g False unfolding p A by (cases "?len mod 1024 = 0"; cases "fbn = 12"; auto)+
    have "12 \<notin> A i \<Longrightarrow> unat (freeblock s) < FSSIZE" using n(3) nb by auto
    then obtain di s1 where 1: "new_addr 12 (D i) s = (di, s1)" "data_ok s1 (D(i := di)) (A(i := insert 12 (A i))) F" "d_addrs di 12 \<noteq> 0" "below s s1"
      "unat (freeblock s1) = unat (freeblock s) + (if 12 \<in> A i then 0 else 1)" "\<exists>a. di = (D i)\<lparr>d_addrs := a\<rparr>"
      using new_addr_ok [OF ok, of 12 i] by auto
    note ok1 = data_okD [OF 1(2)]
    let ?b = "unat (d_addrs di 12)" let ?j = "4 * (fbn - 12)"
    have b: "46 \<le> ?b" "?b < 2000" using ok1(9,10) [of 12 i] ok1(4) by (auto simp: row_def)
    have rd: "rsect (d_addrs di 12) s1 = Ret (sectors s1 ! ?b)" by (rule rsect_ok [OF ok1(1) b(2)])
    have e: "get32 ?j (sectors s1 ! ?b) = row (nth (sectors s1)) di (fbn + 1)" using False 1(3) by (simp add: row_def)
    have z: "get32 ?j (sectors s1 ! ?b) \<noteq> 0 \<longleftrightarrow> fbn + 1 \<in> A i" using ok1(7) [of "fbn + 1" i] fbn(2) False unfolding e by auto
    show ?thesis
    proof (cases "fbn + 1 \<in> A i")
      case True
      then show ?thesis using False 1 rd z e nb i(1) by (auto simp: append_block_def p insert_absorb insert_commute)
    next
      case new: False
      let ?s = "s1\<lparr>freeblock := freeblock s1 + 1, sectors := (sectors s1)[?b := put32 ?j (freeblock s1) (sectors s1 ! ?b)]\<rparr>"
      have fb: "unat (freeblock s1) < FSSIZE" using 1(5) n(3) nb new by (auto split: if_splits)
      have "data_ok ?s (D(i := di)) ((A(i := insert 12 (A i)))(i := insert (fbn + 1) ((A(i := insert 12 (A i))) i))) F"
        using alloc_indirect [OF 1(2), of i "fbn + 1"] new False fbn(2) fb i(3) by auto
      then have 2: "data_ok ?s (D(i := di)) (A(i := places (?len + n))) F" using i(1) by simp
      have "unat (freeblock s1 + 1) = unat (freeblock s1) + 1" using fb by (simp add: unat_word_ariths)
      moreover have "below s ?s" using below_trans [OF 1(4) below_upd(2)] b(1) by simp
      moreover have r: "row (nth (sectors ?s)) di (fbn + 1) = get32 ?j (put32 ?j (freeblock s1) (sectors s1 ! ?b))" using False 1(3) b(2) ok1(1) by (simp add: row_def)
      moreover have w: "wsect (d_addrs di 12) (put32 ?j (freeblock s1) (sectors s1 ! ?b)) (s1\<lparr>freeblock := freeblock s1 + 1\<rparr>) = Ret ?s"
        by (subst wsect_ok) (use ok1(1) b(2) in simp_all)
      moreover have "append_block fbn (D i) s = Ret (row (nth (sectors ?s)) di (place fbn), di, ?s)"
        unfolding p r using False 1(1) rd z w new by (simp add: append_block_def Let_def)
      moreover have "unat (freeblock s1) + 1 + nblocks ?len = unat (freeblock s) + nblocks (?len + n)" using 1(5) nb new by simp
      ultimately show ?thesis using 1(6) 2 by (intro exI [of _ di] exI [of _ ?s] conjI) simp_all
    qed
  qed
qed

text \<open>The loop appends the bytes, when the file stays within the largest size and the image has the blocks.\<close>

lemma nblocks_mono: "m \<le> n \<Longrightarrow> nblocks m \<le> nblocks n"
  by (auto simp: nblocks_def intro: add_mono div_le_mono)

lemma iappend_loop_step:
  assumes p: "p \<noteq> []" and off: "off div 1024 < 268" and n: "n = min (length p) (1024 - unat off mod 1024)"
    and st: "append_block (unat off div 1024) di s = Ret (x, di', s1)" "rsect x s1 = Ret buf" "wsect x (put_bytes (unat off mod 1024) (take n p) buf) s1 = Ret s2"
  shows "iappend_loop p off di s = iappend_loop (drop n p) (off + of_nat n) di' s2"
proof -
  note ob = off_block [OF off]
  have r: "unat (off div 1024 * 1024 + 1024 - off) = 1024 - unat off mod 1024" using ob(4) by (simp add: distrib_right)
  show ?thesis using p off st unfolding n by (subst iappend_loop.simps) (simp add: Let_def ob(1,3) r)
qed

lemma iappend_loop_ok:
  "data_ok s D A F \<Longrightarrow> A i = places (length (F i)) \<Longrightarrow> off = of_nat (length (F i)) \<Longrightarrow> length (F i) + length p \<le> MAXFILE * BSIZE \<Longrightarrow>
   unat (freeblock s) + nblocks (length (F i) + length p) \<le> FSSIZE + nblocks (length (F i)) \<Longrightarrow>
   \<exists>di s'. iappend_loop p off (D i) s = Ret (of_nat (length (F i) + length p), di, s') \<and>
     data_ok s' (D(i := di)) (A(i := places (length (F i) + length p))) (F(i := F i @ p)) \<and> below s s' \<and>
     unat (freeblock s') + nblocks (length (F i)) = unat (freeblock s) + nblocks (length (F i) + length p) \<and> (\<exists>a. di = (D i)\<lparr>d_addrs := a\<rparr>)"
proof (induction "length p" arbitrary: p off s D A F rule: less_induct)
  case less
  let ?len = "length (F i)" let ?fbn = "?len div 1024" let ?n = "min (length p) (1024 - ?len mod 1024)"
  show ?case
  proof (cases "p = []")
    case True
    have "A(i := places ?len) = A" using less.prems(2) by (metis fun_upd_triv)
    moreover have "\<exists>a. D i = (D i)\<lparr>d_addrs := a\<rparr>" by (rule exI [of _ "d_addrs (D i)"]) simp
    ultimately show ?thesis using True less.prems by (subst iappend_loop.simps) simp
  next
    case False
    have "1 \<le> length p" using False by (cases p) auto
    then have l268: "?len < 268 * 1024" using less.prems(4) by simp
    then have off: "unat off = ?len" "?fbn < MAXFILE" using less.prems(3) by (simp_all add: unat_of_nat32 less_mult_imp_div_less)
    have lt: "off div 1024 < 268" using off unfolding word_less_nat_alt by (simp add: unat_div_distrib)
    have m: "?len mod 1024 < 1024" by simp
    have n: "0 < ?n" "?n \<le> BSIZE - ?len mod BSIZE" "?n \<le> length p" using False m by auto
    have room: "unat (freeblock s) + nblocks (?len + ?n) \<le> FSSIZE + nblocks ?len" using less.prems(5) nblocks_mono [of "?len + ?n" "?len + length p"] n(3) by linarith
    obtain di s1 where 1: "append_block ?fbn (D i) s = Ret (row (nth (sectors s1)) di (place ?fbn), di, s1)"
      "data_ok s1 (D(i := di)) (A(i := places (?len + ?n))) F" "below s s1"
      "unat (freeblock s1) + nblocks ?len = unat (freeblock s) + nblocks (?len + ?n)" "\<exists>a. di = (D i)\<lparr>d_addrs := a\<rparr>"
      using append_block_ok [OF less.prems(1,2) refl off(2) n(1,2) room] by blast
    let ?x = "row (nth (sectors s1)) di (place ?fbn)" let ?d = "put_bytes (?len mod 1024) (take ?n p) (sectors s1 ! unat ?x)"
    let ?s = "s1\<lparr>sectors := (sectors s1)[unat ?x := ?d]\<rparr>" let ?F = "F(i := F i @ take ?n p)"
    note ok1 = data_okD [OF 1(2)]
    have "?fbn * 1024 < ?len + ?n" using n(1) div_times_less_eq_dividend [of ?len 1024] by linarith
    then have pl: "place ?fbn \<in> (A(i := places (?len + ?n))) i" by (simp add: places_def)
    have x: "nmeta \<le> unat ?x" "unat ?x < FSSIZE" using ok1(9) [OF pl] ok1(10) [OF pl] ok1(4) by auto
    have 2: "data_ok ?s (D(i := di)) (A(i := places (?len + ?n))) ?F"
      using data_ok_write [OF 1(2), of ?fbn i "take ?n p"] pl n(2) by simp
    have b: "below s ?s" using below_trans [OF 1(3) below_upd(1) [OF x(1)]] .
    have l: "length (?F i) = ?len + ?n" by simp
    have "iappend_loop p off (D i) s = iappend_loop (drop ?n p) (off + of_nat ?n) di ?s"
      by (rule iappend_loop_step [OF False lt _ _ rsect_ok [OF ok1(1) x(2)]]) (use 1(1) wsect_ok [OF ok1(1) x(2)] in \<open>simp_all add: off(1)\<close>)
    then have step: "iappend_loop p off (D i) s = iappend_loop (drop ?n p) (of_nat (?len + ?n)) di ?s" using less.prems(3) by simp
    have "\<exists>di' s'. iappend_loop (drop ?n p) (of_nat (?len + ?n)) ((D(i := di)) i) ?s = Ret (of_nat (length (?F i) + length (drop ?n p)), di', s') \<and>
      data_ok s' ((D(i := di))(i := di')) ((A(i := places (?len + ?n)))(i := places (length (?F i) + length (drop ?n p)))) (?F(i := ?F i @ drop ?n p)) \<and> below ?s s' \<and>
      unat (freeblock s') + nblocks (length (?F i)) = unat (freeblock ?s) + nblocks (length (?F i) + length (drop ?n p)) \<and> (\<exists>a. di' = ((D(i := di)) i)\<lparr>d_addrs := a\<rparr>)"
      by (rule less.hyps [OF _ 2]) (use n less.prems(4,5) 1(4) in \<open>simp_all add: l\<close>)
    then obtain di' s' where 3: "iappend_loop (drop ?n p) (of_nat (?len + ?n)) di ?s = Ret (of_nat (?len + length p), di', s')"
      "data_ok s' (D(i := di')) (A(i := places (?len + length p))) (F(i := F i @ p))" "below ?s s'"
      "unat (freeblock s') + nblocks (?len + ?n) = unat (freeblock s1) + nblocks (?len + length p)" "\<exists>a. di' = di\<lparr>d_addrs := a\<rparr>"
      using n(3) unfolding l by auto
    have "\<exists>a. di' = (D i)\<lparr>d_addrs := a\<rparr>" using 1(5) 3(5) by auto
    moreover have "unat (freeblock s') + nblocks ?len = unat (freeblock s) + nblocks (?len + length p)" using 1(4) 3(4) by linarith
    ultimately show ?thesis using step 3(1,2) below_trans [OF b 3(3)] by auto
  qed
qed

section \<open>The inodes of the image\<close>

lemma mkfs_sb_fields [simp]: "sb_inodestart mkfs_sb = 32" "sb_bmapstart mkfs_sb = 45" "sb_size mkfs_sb = 2000" "sb_nlog mkfs_sb = 30" "sb_logstart mkfs_sb = 2"
  "sb_magic mkfs_sb = FSMAGIC" "sb_ninodes mkfs_sb = 200"
  by (simp_all add: mkfs_sb_def)

lemma IBLOCK_mkfs: "i < 208 \<Longrightarrow> unat (IBLOCK (of_nat i) mkfs_sb) = i div 16 + 32"
proof -
  assume i: "i < 208"
  then have "unat ((of_nat i :: u32) div 16) = i div 16" by (simp add: unat_div_distrib unat_of_nat32)
  moreover have "i div 16 < 13" using i by (simp add: less_mult_imp_div_less)
  ultimately show ?thesis by (simp add: IBLOCK_def unat_word_ariths)
qed

definition inode_of :: "mkfs \<Rightarrow> nat \<Rightarrow> dinode" where
  "inode_of s i = get_dinode (inode_off (of_nat i)) (sectors s ! (i div IPB + 32))"

definition meta_ok :: "mkfs \<Rightarrow> bool" where
  "meta_ok s \<longleftrightarrow> msb s = mkfs_sb \<and> (\<forall>b < nmeta. b \<notin> {32..<45} \<longrightarrow> sectors s ! b = (if b = 1 then put_sb mkfs_sb zeroes else zeroes))"

lemma data_ok_addrs:
  assumes "\<And>j. d_addrs (D' j) = d_addrs (D j)" "data_ok s D A F"
  shows "data_ok s D' A F"
proof -
  have "row v (D' j) k = row v (D j) k" "dinode_ok (D' j) = dinode_ok (D j)" for v j k using assms(1) by (simp_all add: row_def dinode_ok_def)
  then have "data_ok s D' A F = data_ok s D A F" unfolding data_ok_def by (simp only:)
  then show ?thesis using assms(2) by simp
qed

lemma data_ok_meta:
  assumes ok: "data_ok s D A F" and b: "b < nmeta" "length d = BSIZE"
  shows "data_ok (s\<lparr>sectors := (sectors s)[b := d]\<rparr>) D A F"
proof -
  note old = data_okD [OF ok]
  let ?s = "s\<lparr>sectors := (sectors s)[b := d]\<rparr>"
  have far: "k \<in> A j \<Longrightarrow> unat (row (nth (sectors s)) (D j) k) \<noteq> b" for j k using old(9) [of k j] b(1) by auto
  have r: "row (nth (sectors ?s)) (D j) k = row (nth (sectors s)) (D j) k" for j k
    using far [of 12 j] indirect_row [OF ok, of j] row_upd [of "D j" b s d k] by (simp add: row_12)
  have "length (sectors ?s ! c) = BSIZE" if "c < FSSIZE" for c using old(1,2) that b by (cases "c = b") auto
  moreover have "sectors ?s ! c = zeroes" if "c < FSSIZE" "unat (freeblock s) \<le> c" for c using old(3,5) that b(1) by auto
  moreover have "sectors ?s ! unat (row (nth (sectors s)) (D j) (place x)) = block_of (F j) x" if "place x \<in> A j" for j x
    using far [OF that] old(12) [OF that] by simp
  ultimately show ?thesis unfolding data_ok_def r using old by (intro conjI allI impI) (simp_all add: word_less_nat_alt)
qed

lemma data_ok_freeinode [simp]: "data_ok (s\<lparr>freeinode := x\<rparr>) = data_ok s" "inode_of (s\<lparr>freeinode := x\<rparr>) = inode_of s" "meta_ok (s\<lparr>freeinode := x\<rparr>) = meta_ok s"
  by (simp_all add: data_ok_def inode_of_def meta_ok_def fun_eq_iff)

lemma winode_ok:
  assumes ok: "data_ok s D A F" "meta_ok s" and i: "i < 208" "dinode_ok di"
  shows "\<exists>s'. winode (of_nat i) di s = Ret s' \<and> data_ok s' D A F \<and> meta_ok s' \<and> inode_of s' i = di \<and>
    (\<forall>j < 208. j \<noteq> i \<longrightarrow> inode_of s' j = inode_of s j) \<and> freeinode s' = freeinode s \<and> freeblock s' = freeblock s"
proof -
  note old = data_okD [OF ok(1)]
  let ?o = "inode_off (of_nat i)" let ?b = "i div 16 + 32" let ?d = "put_dinode ?o di (sectors s ! ?b)"
  let ?s = "s\<lparr>sectors := (sectors s)[?b := ?d]\<rparr>"
  have sb: "msb s = mkfs_sb" using ok(2) by (simp add: meta_ok_def)
  have b: "i div 16 < 13" using i(1) by (simp add: less_mult_imp_div_less)
  then have bl: "unat (IBLOCK (of_nat i) (msb s)) = ?b" "?b < FSSIZE" "length (sectors s ! ?b) = BSIZE" using IBLOCK_mkfs [OF i(1)] old(2) sb by auto
  have o: "?o + DINODE_SIZE \<le> length (sectors s ! ?b)" using inode_off_bound bl(3) by simp
  have "winode (of_nat i) di s = Ret ?s"
    using rsect_ok [OF old(1), of "IBLOCK (of_nat i) (msb s)"] wsect_ok [OF old(1), of "IBLOCK (of_nat i) (msb s)"] bl(2) by (simp add: winode_def bl(1))
  moreover have "data_ok ?s D A F" by (rule data_ok_meta [OF ok(1)]) (use b o bl(3) in simp_all)
  moreover have "meta_ok ?s" using ok(2) b by (auto simp: meta_ok_def)
  moreover have "inode_of ?s i = di" using get_put_dinode [OF o i(2)] old(1) bl(2) by (simp add: inode_of_def)
  moreover have "inode_of ?s j = inode_of s j" if "j < 208" "j \<noteq> i" for j
  proof (cases "j div 16 = i div 16")
    case True
    have "unat (of_nat j :: u32) = j" "unat (of_nat i :: u32) = i" using that(1) i(1) by (simp_all add: unat_of_nat32)
    then have "(of_nat j :: u32) \<noteq> of_nat i" using that(2) by metis
    moreover have "IBLOCK (of_nat j) mkfs_sb = IBLOCK (of_nat i) mkfs_sb" by (rule word_unatI) (simp add: IBLOCK_mkfs that(1) i(1) True)
    ultimately show ?thesis using get_put_dinode_other [OF o, of "inode_off (of_nat j)" di] inode_place True old(1) bl(2) by (simp add: inode_of_def)
  qed (simp add: inode_of_def)
  ultimately show ?thesis by auto
qed

section \<open>The files of the image\<close>

text \<open>
  With \<open>N\<close> inodes given out: the inodes on the image have the types \<open>T\<close> and the sizes of the contents \<open>F\<close>, and the blocks
  they name hold the contents.
\<close>

definition blank :: dinode where
  "blank = \<lparr>d_type = 0, d_major = 0, d_minor = 0, d_nlink = 0, d_size = 0, d_addrs = (\<lambda>_. 0)\<rparr>"

definition inodes_of :: "mkfs \<Rightarrow> nat \<Rightarrow> nat \<Rightarrow> dinode" where
  "inodes_of s N i = (if 1 \<le> i \<and> i \<le> N then inode_of s i else blank)"

definition fs_ok :: "mkfs \<Rightarrow> (nat \<Rightarrow> u16) \<Rightarrow> (nat \<Rightarrow> u8 list) \<Rightarrow> nat \<Rightarrow> bool" where
  "fs_ok s T F N \<longleftrightarrow> meta_ok s \<and> freeinode s = of_nat (N + 1) \<and> N < 208 \<and>
     data_ok s (inodes_of s N) (\<lambda>j. places (length (F j))) F \<and>
     (\<forall>j. 1 \<le> j \<and> j \<le> N \<longrightarrow> d_type (inode_of s j) = T j \<and> d_nlink (inode_of s j) = 1 \<and> d_size (inode_of s j) = of_nat (length (F j)) \<and>
        length (F j) \<le> MAXFILE * BSIZE) \<and>
     (\<forall>j. \<not> (1 \<le> j \<and> j \<le> N) \<longrightarrow> F j = [])"

lemma mkfs_ialloc_ok:
  assumes fs: "fs_ok s T F N" and N: "N < 207"
  shows "\<exists>s'. mkfs_ialloc t s = Ret (of_nat (N + 1), s') \<and> fs_ok s' (T(N + 1 := t)) F (N + 1) \<and> freeblock s' = freeblock s"
proof -
  let ?i = "N + 1" let ?D = "inodes_of s N" let ?A = "\<lambda>j. places (length (F j))"
  let ?di = "\<lparr>d_type = t, d_major = 0, d_minor = 0, d_nlink = 1, d_size = 0, d_addrs = (\<lambda>_. 0 :: u32)\<rparr>"
  have fs': "meta_ok s" "freeinode s = of_nat ?i" "data_ok s ?D ?A F" "F ?i = []" using fs by (auto simp: fs_ok_def)
  obtain s' where 1: "winode (of_nat ?i) ?di (s\<lparr>freeinode := of_nat ?i + 1\<rparr>) = Ret s'" "data_ok s' ?D ?A F" "meta_ok s'" "inode_of s' ?i = ?di"
    "\<forall>j < 208. j \<noteq> ?i \<longrightarrow> inode_of s' j = inode_of s j" "freeinode s' = of_nat ?i + 1" "freeblock s' = freeblock s"
    using winode_ok [of "s\<lparr>freeinode := of_nat ?i + 1\<rparr>" ?D ?A F ?i ?di] fs'(1,3) N by (auto simp: dinode_ok_def)
  have D: "inodes_of s' (N + 1) j = (?D(?i := ?di)) j" for j using 1(4,5) N by (auto simp: inodes_of_def le_Suc_eq)
  have "data_ok s' (inodes_of s' (N + 1)) ?A F" by (rule data_ok_addrs [OF _ 1(2)]) (unfold D, simp add: inodes_of_def blank_def)
  moreover have "d_type (inode_of s' j) = (T(?i := t)) j \<and> d_nlink (inode_of s' j) = 1 \<and> d_size (inode_of s' j) = of_nat (length (F j)) \<and> length (F j) \<le> MAXFILE * BSIZE"
    if "1 \<le> j" "j \<le> N + 1" for j
    using that fs fs'(4) 1(4,5) N by (cases "j = ?i") (auto simp: fs_ok_def)
  ultimately have "fs_ok s' (T(?i := t)) F ?i" using fs 1(3,6) N unfolding fs_ok_def by auto
  moreover have "mkfs_ialloc t s = Ret (of_nat ?i, s')" using 1(1) fs'(2) by (simp add: mkfs_ialloc_def)
  ultimately show ?thesis using 1(7) by blast
qed

lemma iappend_ok:
  assumes fs: "fs_ok s T F N" and i: "1 \<le> i" "i \<le> N" "length (F i) + length p \<le> MAXFILE * BSIZE"
    "unat (freeblock s) + nblocks (length (F i) + length p) \<le> FSSIZE + nblocks (length (F i))"
  shows "\<exists>s'. iappend (of_nat i) p s = Ret s' \<and> fs_ok s' T (F(i := F i @ p)) N \<and>
    unat (freeblock s') + nblocks (length (F i)) = unat (freeblock s) + nblocks (length (F i) + length p)"
proof -
  let ?D = "inodes_of s N" let ?A = "\<lambda>j. places (length (F j))" let ?n = "length (F i) + length p" let ?F = "F(i := F i @ p)"
  have fs': "meta_ok s" "data_ok s ?D ?A F" "N < 208" "msb s = mkfs_sb" "?D i = inode_of s i" "d_size (inode_of s i) = of_nat (length (F i))"
    using fs i by (auto simp: fs_ok_def meta_ok_def inodes_of_def)
  have i8: "i < 208" "i div 16 < 13" using i fs'(3) by (auto simp: less_mult_imp_div_less)
  have rd: "rinode (of_nat i) s = Ret (inode_of s i)"
    using rsect_ok [OF data_okD(1) [OF fs'(2)], of "IBLOCK (of_nat i) mkfs_sb"] fs'(4) i8 by (simp add: rinode_def IBLOCK_mkfs inode_of_def)
  obtain di s1 where 1: "iappend_loop p (of_nat (length (F i))) (inode_of s i) s = Ret (of_nat ?n, di, s1)"
    "data_ok s1 (?D(i := di)) (?A(i := places ?n)) ?F" "below s s1"
    "unat (freeblock s1) + nblocks (length (F i)) = unat (freeblock s) + nblocks ?n" "\<exists>a. di = (inode_of s i)\<lparr>d_addrs := a\<rparr>"
    using iappend_loop_ok [OF fs'(2) refl refl i(3,4)] unfolding fs'(5) by blast
  have A: "?A(i := places ?n) = (\<lambda>j. places (length (?F j)))" by (auto simp: fun_eq_iff)
  have m1: "meta_ok s1" using 1(3) fs'(1) by (simp add: below_def meta_ok_def)
  have in1: "inode_of s1 j = inode_of s j" if "j < 208" for j
  proof -
    have "j div 16 < 13" using that by (simp add: less_mult_imp_div_less)
    then show ?thesis using 1(3) by (simp add: below_def inode_of_def)
  qed
  let ?di = "di\<lparr>d_size := of_nat ?n\<rparr>"
  have "dinode_ok ?di" using data_okD(6) [OF 1(2), of i] by (simp add: dinode_ok_def)
  then obtain s' where 2: "winode (of_nat i) ?di s1 = Ret s'" "data_ok s' (?D(i := di)) (\<lambda>j. places (length (?F j))) ?F" "meta_ok s'" "inode_of s' i = ?di"
    "\<forall>j < 208. j \<noteq> i \<longrightarrow> inode_of s' j = inode_of s j" "freeinode s' = freeinode s" "freeblock s' = freeblock s1"
    using winode_ok [OF 1(2) [unfolded A] m1 i8(1), of ?di] in1 1(3) unfolding below_def by auto
  have "data_ok s' (inodes_of s' N) (\<lambda>j. places (length (?F j))) ?F"
    by (rule data_ok_addrs [OF _ 2(2)]) (use i 2(4,5) fs'(3) in \<open>auto simp: inodes_of_def\<close>)
  moreover have "d_type (inode_of s' j) = T j \<and> d_nlink (inode_of s' j) = 1 \<and> d_size (inode_of s' j) = of_nat (length (?F j)) \<and> length (?F j) \<le> MAXFILE * BSIZE"
    if "1 \<le> j" "j \<le> N" for j
    using that fs 2(4,5) 1(5) i(3) fs'(3) by (cases "j = i") (auto simp: fs_ok_def)
  ultimately have "fs_ok s' T ?F N" using fs 2(3,6) i(1,2) unfolding fs_ok_def by auto
  moreover have "iappend (of_nat i) p s = Ret s'" using rd 1(1) 2(1) fs'(6) by (simp add: iappend_def)
  ultimately show ?thesis using 1(4) 2(7) by auto
qed

section \<open>The files of the host\<close>

text \<open>What the reads of a file give before the first that is empty, and the name that the file gets.\<close>

definition content :: "(u8 list \<Rightarrow> u8 list list option) \<Rightarrow> u8 list \<Rightarrow> u8 list" where
  "content host a = concat (takeWhile (\<lambda>c. c \<noteq> []) (the (host a)))"

definition short :: "u8 list \<Rightarrow> u8 list" where
  "short a = skip_underscore (shortname a)"

definition arg_ok :: "(u8 list \<Rightarrow> u8 list list option) \<Rightarrow> u8 list \<Rightarrow> bool" where
  "arg_ok host a \<longleftrightarrow> SLASH \<notin> set (shortname a) \<and> host a \<noteq> None \<and> length (short a) \<le> DIRSIZ \<and> length (content host a) \<le> MAXFILE * BSIZE"

lemma append_reads_ok:
  "fs_ok s T F N \<Longrightarrow> 1 \<le> i \<Longrightarrow> i \<le> N \<Longrightarrow> c = concat (takeWhile (\<lambda>c. c \<noteq> []) cs) \<Longrightarrow> length (F i) + length c \<le> MAXFILE * BSIZE \<Longrightarrow>
   unat (freeblock s) + nblocks (length (F i) + length c) \<le> FSSIZE + nblocks (length (F i)) \<Longrightarrow>
   \<exists>s'. append_reads (of_nat i) cs s = Ret s' \<and> fs_ok s' T (F(i := F i @ c)) N \<and>
     unat (freeblock s') + nblocks (length (F i)) = unat (freeblock s) + nblocks (length (F i) + length c)"
proof (induction cs arbitrary: s F c)
  case (Cons b cs)
  show ?case
  proof (cases "b = []")
    case False
    let ?c = "concat (takeWhile (\<lambda>c. c \<noteq> []) cs)" let ?F = "F(i := F i @ b)"
    have c: "c = b @ ?c" using Cons.prems(4) False by simp
    have m: "nblocks (length (F i) + length b) \<le> nblocks (length (F i) + length c)" by (rule nblocks_mono) (simp add: c)
    obtain s1 where 1: "iappend (of_nat i) b s = Ret s1" "fs_ok s1 T ?F N"
      "unat (freeblock s1) + nblocks (length (F i)) = unat (freeblock s) + nblocks (length (F i) + length b)"
      using iappend_ok [OF Cons.prems(1,2,3), of b] Cons.prems(5,6) m unfolding c by auto
    have "\<exists>s'. append_reads (of_nat i) cs s1 = Ret s' \<and> fs_ok s' T (?F(i := ?F i @ ?c)) N \<and>
      unat (freeblock s') + nblocks (length (?F i)) = unat (freeblock s1) + nblocks (length (?F i) + length ?c)"
      by (rule Cons.IH [OF 1(2) Cons.prems(2,3) refl]) (use Cons.prems(5,6) 1(3) in \<open>simp_all add: c add.assoc\<close>)
    then obtain s' where 2: "append_reads (of_nat i) cs s1 = Ret s'" "fs_ok s' T (?F(i := ?F i @ ?c)) N"
      "unat (freeblock s') + nblocks (length (?F i)) = unat (freeblock s1) + nblocks (length (?F i) + length ?c)" by blast
    have "?F(i := ?F i @ ?c) = F(i := F i @ c)" unfolding c by simp
    then have "fs_ok s' T (F(i := F i @ c)) N" using 2(2) by simp
    moreover have "unat (freeblock s') + nblocks (length (F i)) = unat (freeblock s) + nblocks (length (F i) + length c)"
      using 1(3) 2(3) unfolding c by (simp add: add.assoc)
    ultimately show ?thesis using False 1(1) 2(1) by (intro exI [of _ s'] conjI) (simp_all only: append_reads.simps kbind.simps if_False)
  qed (use Cons.prems in \<open>simp add: fun_upd_idem\<close>)
qed (simp add: fun_upd_idem)

text \<open>The directory entries of the files from inode \<open>i\<close> on.\<close>

fun entries :: "nat \<Rightarrow> u8 list list \<Rightarrow> u8 list" where
  "entries i [] = []"
| "entries i (a # as) = entry (of_nat i) (short a) @ entries (i + 1) as"

lemma length_entry [simp]: "length (entry i n) = DIRENT_SIZE"
  by (simp add: entry_def)

lemma length_entries [simp]: "length (entries i as) = DIRENT_SIZE * length as"
  by (induction as arbitrary: i) auto

lemma add_files_ok:
  "fs_ok s T F N \<Longrightarrow> 1 \<le> N \<Longrightarrow> N + length args < 208 \<Longrightarrow> \<forall>a \<in> set args. arg_ok host a \<Longrightarrow>
   length (F 1) + DIRENT_SIZE * length args \<le> MAXFILE * BSIZE \<Longrightarrow>
   unat (freeblock s) + nblocks (length (F 1) + DIRENT_SIZE * length args) + (\<Sum>a\<leftarrow>args. nblocks (length (content host a))) \<le> FSSIZE + nblocks (length (F 1)) \<Longrightarrow>
   \<exists>s'. add_files host 1 args s = Ret s' \<and>
     fs_ok s' (\<lambda>j. if N < j \<and> j \<le> N + length args then T_FILE else T j)
       (\<lambda>j. if N < j \<and> j \<le> N + length args then content host (args ! (j - N - 1)) else if j = 1 then F 1 @ entries (N + 1) args else F j) (N + length args) \<and>
     unat (freeblock s') + nblocks (length (F 1)) =
       unat (freeblock s) + nblocks (length (F 1) + DIRENT_SIZE * length args) + (\<Sum>a\<leftarrow>args. nblocks (length (content host a)))"
proof (induction args arbitrary: s T F N)
  case Nil
  have "(\<lambda>j. if N < j \<and> j \<le> N + length [] then content host ([] ! (j - N - 1)) else if j = 1 then F 1 @ entries (N + 1) [] else F j) = F"
    "(\<lambda>j. if N < j \<and> j \<le> N + length [] then T_FILE else T j) = T" by (auto simp: fun_eq_iff)
  then show ?case using Nil.prems(1) by simp
next
  case (Cons a args)
  let ?i = "N + 1" let ?e = "entry (of_nat ?i) (short a)" let ?c = "content host a"
  let ?F1 = "F(1 := F 1 @ ?e)" let ?F2 = "?F1(?i := ?c)" let ?T = "T(?i := T_FILE)"
  have a: "arg_ok host a" and Fi: "F ?i = []" using Cons.prems(1,4) by (auto simp: fs_ok_def)
  have mono: "nblocks (length (F 1) + 16) \<le> nblocks (length (F 1) + 16 * length (a # args))" by (rule nblocks_mono) simp
  obtain cs where cs: "host a = Some cs" using a by (auto simp: arg_ok_def)
  have c: "?c = concat (takeWhile (\<lambda>c. c \<noteq> []) cs)" by (simp add: content_def cs)
  obtain s0 where 0: "mkfs_ialloc T_FILE s = Ret (of_nat ?i, s0)" "fs_ok s0 ?T F ?i" "freeblock s0 = freeblock s"
    using mkfs_ialloc_ok [OF Cons.prems(1)] Cons.prems(3) by auto
  obtain s1 where 1: "iappend 1 ?e s0 = Ret s1" "fs_ok s1 ?T ?F1 ?i"
    "unat (freeblock s1) + nblocks (length (F 1)) = unat (freeblock s) + nblocks (length (F 1) + 16)"
    using iappend_ok [OF 0(2), of 1 ?e] Cons.prems(5,6) mono unfolding 0(3) by auto
  have F1i: "?F1 ?i = []" using Fi Cons.prems(2) by simp
  obtain s2 where 2: "append_reads (of_nat ?i) cs s1 = Ret s2" "fs_ok s2 ?T ?F2 ?i"
    "unat (freeblock s2) = unat (freeblock s1) + nblocks (length ?c)"
    using append_reads_ok [OF 1(2) _ order_refl c] a 1(3) Cons.prems(6) mono unfolding F1i by (auto simp: arg_ok_def nblocks_def)
  have add: "add_file host 1 a s = Ret s2" using a cs 0(1) 1(1) 2(1) by (simp add: add_file_def arg_ok_def short_def)
  have F21: "?F2 1 = F 1 @ ?e" using Cons.prems(2) by simp
  have T: "(\<lambda>j. if ?i < j \<and> j \<le> ?i + length args then T_FILE else ?T j) = (\<lambda>j. if N < j \<and> j \<le> N + length (a # args) then T_FILE else T j)"
    by (auto simp: fun_eq_iff)
  have F: "(\<lambda>j. if ?i < j \<and> j \<le> ?i + length args then content host (args ! (j - ?i - 1)) else if j = 1 then ?F2 1 @ entries (?i + 1) args else ?F2 j) =
    (\<lambda>j. if N < j \<and> j \<le> N + length (a # args) then content host ((a # args) ! (j - N - 1)) else if j = 1 then F 1 @ entries ?i (a # args) else F j)"
    using Cons.prems(2) by (auto simp: fun_eq_iff nth_Cons' F21)
  have l: "length (F 1 @ ?e) + 16 * length args = length (F 1) + 16 * length (a # args)" by simp
  have "\<exists>s'. add_files host 1 args s2 = Ret s' \<and>
     fs_ok s' (\<lambda>j. if ?i < j \<and> j \<le> ?i + length args then T_FILE else ?T j)
       (\<lambda>j. if ?i < j \<and> j \<le> ?i + length args then content host (args ! (j - ?i - 1)) else if j = 1 then ?F2 1 @ entries (?i + 1) args else ?F2 j) (?i + length args) \<and>
     unat (freeblock s') + nblocks (length (?F2 1)) =
       unat (freeblock s2) + nblocks (length (?F2 1) + 16 * length args) + (\<Sum>a\<leftarrow>args. nblocks (length (content host a)))"
  proof (rule Cons.IH [OF 2(2)])
    show "length (?F2 1) + 16 * length args \<le> MAXFILE * BSIZE" unfolding F21 l by (rule Cons.prems(5))
    show "unat (freeblock s2) + nblocks (length (?F2 1) + 16 * length args) + (\<Sum>a\<leftarrow>args. nblocks (length (content host a))) \<le> FSSIZE + nblocks (length (?F2 1))"
      unfolding F21 l using Cons.prems(6) 1(3) 2(3) by simp
  qed (use Cons.prems(3,4) in auto)
  then obtain s' where 3: "add_files host 1 args s2 = Ret s'"
    "fs_ok s' (\<lambda>j. if N < j \<and> j \<le> N + length (a # args) then T_FILE else T j)
       (\<lambda>j. if N < j \<and> j \<le> N + length (a # args) then content host ((a # args) ! (j - N - 1)) else if j = 1 then F 1 @ entries ?i (a # args) else F j) (?i + length args)"
    "unat (freeblock s') + nblocks (length (F 1 @ ?e)) =
       unat (freeblock s2) + nblocks (length (F 1 @ ?e) + 16 * length args) + (\<Sum>a\<leftarrow>args. nblocks (length (content host a)))"
    unfolding T unfolding F unfolding F21 by (elim exE conjE)
  have "?i + length args = N + length (a # args)" by simp
  moreover have "unat (freeblock s') + nblocks (length (F 1)) =
      unat (freeblock s) + nblocks (length (F 1) + 16 * length (a # args)) + (\<Sum>a\<leftarrow>a # args. nblocks (length (content host a)))"
    using 3(3) 1(3) 2(3) unfolding l by simp
  ultimately show ?case using 3(1,2) add by (intro exI [of _ s'] conjI) (simp_all only: add_files.simps kbind.simps)
qed

section \<open>The start\<close>

lemma clear_sectors_ok:
  "length (sectors s) = i \<Longrightarrow> i + n \<le> host_room s \<Longrightarrow> i + n < 2 ^ 22 \<Longrightarrow> clear_sectors n i s = Ret (s\<lparr>sectors := sectors s @ replicate n zeroes\<rparr>)"
proof (induction n arbitrary: i s)
  case (Suc n)
  have "sector (of_nat i) = i" using Suc.prems(3) by (simp add: unat_of_nat32)
  then have "wsect (of_nat i) zeroes s = Ret (s\<lparr>sectors := sectors s @ [zeroes]\<rparr>)" using Suc.prems(1,2) by (simp add: wsect_def)
  then show ?case using Suc.IH [of "s\<lparr>sectors := sectors s @ [zeroes]\<rparr>" "i + 1"] Suc.prems by simp
qed simp

lemma length_put_sb [simp]: "length d = BSIZE \<Longrightarrow> length (put_sb x d) = BSIZE"
  by (simp add: put_sb_def)

lemma sb_of_put_sb: "length d = BSIZE \<Longrightarrow> sb_of (put_sb x d) = x"
  by (simp add: sb_of_def put_sb_def field_simps_le)

lemma places_0 [simp]: "places 0 = {}"
  by (simp add: places_def)

lemma nblocks_entries [simp]: "nblocks 0 = 0" "0 < n \<Longrightarrow> n \<le> 1024 \<Longrightarrow> nblocks n = 1"
proof -
  show "nblocks n = 1" if "0 < n" "n \<le> 1024"
  proof -
    have "(n + 1023) div 1024 = 1" using that by linarith
    then show ?thesis using that(2) by (simp add: nblocks_def add.commute)
  qed
qed (simp add: nblocks_def)

lemma fs_ok_empty:
  assumes "length (sectors s) = FSSIZE" "\<And>b. b < FSSIZE \<Longrightarrow> sectors s ! b = (if b = 1 then put_sb mkfs_sb zeroes else zeroes)"
    "msb s = mkfs_sb" "freeinode s = 1" "freeblock s = of_nat nmeta"
  shows "fs_ok s T (\<lambda>_. []) 0"
proof -
  have "inodes_of s 0 = (\<lambda>_. blank)" by (auto simp: inodes_of_def fun_eq_iff)
  moreover have "row v blank k = 0" "dinode_ok blank" for v k by (simp_all add: row_def blank_def dinode_ok_def)
  moreover have "length (sectors s ! b) = BSIZE" if "b < FSSIZE" for b using assms(2) [OF that] by simp
  ultimately have "data_ok s (inodes_of s 0) (\<lambda>j. places (length [])) (\<lambda>_. [])" using assms(1,2,5) unfolding data_ok_def by simp
  then show ?thesis using assms(2,3,4) by (simp add: fs_ok_def meta_ok_def)
qed

text \<open>The start of \<open>main\<close>, up to the entries \<open>.\<close> and \<open>..\<close> of the root directory.\<close>

definition root_start :: "u8 list" where
  "root_start = entry ROOTINO [0x2E] @ entry ROOTINO [0x2E, 0x2E]"

definition mkfs_prefix :: "nat \<Rightarrow> mkfs res" where
  "mkfs_prefix room =
     kbind (clear_sectors FSSIZE 0 (mkfs_start room)) (\<lambda>s.
     kbind (wsect 1 (put_sb (msb s) zeroes) s) (\<lambda>s.
     kbind (mkfs_ialloc T_DIR s) (\<lambda>(rootino, s).
       if rootino \<noteq> ROOTINO then Panic ''rootino == ROOTINO''
       else kbind (iappend rootino (entry rootino [0x2E]) s) (\<lambda>s. iappend rootino (entry rootino [0x2E, 0x2E]) s))))"

lemma mkfs_prefix_ok:
  assumes "FSSIZE \<le> room"
  shows "\<exists>s. mkfs_prefix room = Ret s \<and> fs_ok s ((\<lambda>_. 0)(1 := T_DIR)) ((\<lambda>_. [])(1 := root_start)) 1 \<and> unat (freeblock s) = nmeta + 1"
proof -
  obtain z where z: "z = replicate FSSIZE zeroes" by blast
  then have z': "length z = 2000" "\<And>b. b < 2000 \<Longrightarrow> z ! b = zeroes" by (simp_all only: length_replicate nth_replicate)
  let ?s = "(mkfs_start room)\<lparr>sectors := z\<rparr>" let ?s1 = "?s\<lparr>sectors := z[1 := put_sb mkfs_sb zeroes]\<rparr>"
  have c: "clear_sectors FSSIZE 0 (mkfs_start room) = Ret ?s"
  proof -
    have "(0 :: nat) + 2000 < 2 ^ 22" by simp
    then show ?thesis using clear_sectors_ok [of "mkfs_start room" 0 FSSIZE] assms unfolding z by (simp only: mkfs_start_def mkfs.simps list.size append_Nil add_0)
  qed
  have w: "wsect 1 (put_sb (msb ?s) zeroes) ?s = Ret ?s1" by (subst wsect_ok) (use z' in \<open>simp_all add: mkfs_start_def\<close>)
  have 0: "fs_ok ?s1 (\<lambda>_. 0) (\<lambda>_. []) 0" by (rule fs_ok_empty) (use z' in \<open>simp_all add: mkfs_start_def nth_list_update\<close>)
  obtain s2 where 2: "mkfs_ialloc T_DIR ?s1 = Ret (1, s2)" "fs_ok s2 ((\<lambda>_. 0)(1 := T_DIR)) (\<lambda>_. []) 1" "unat (freeblock s2) = 46"
    using mkfs_ialloc_ok [OF 0, of T_DIR] by (auto simp: mkfs_start_def)
  obtain s3 where 3: "iappend 1 (entry 1 [0x2E]) s2 = Ret s3" "fs_ok s3 ((\<lambda>_. 0)(1 := T_DIR)) ((\<lambda>_. [])(1 := entry 1 [0x2E])) 1" "unat (freeblock s3) = 47"
    using iappend_ok [OF 2(2), of 1 "entry 1 [0x2E]"] 2(3) by auto
  let ?F = "(\<lambda>_. [])(1 :: nat := entry 1 [0x2E])"
  have "\<exists>s'. iappend (of_nat 1) (entry 1 [0x2E, 0x2E]) s3 = Ret s' \<and> fs_ok s' ((\<lambda>_. 0)(1 := T_DIR)) (?F(1 := ?F 1 @ entry 1 [0x2E, 0x2E])) 1 \<and>
    unat (freeblock s') + nblocks (length (?F 1)) = unat (freeblock s3) + nblocks (length (?F 1) + length (entry 1 [0x2E, 0x2E]))"
    by (rule iappend_ok [OF 3(2)]) (use 3(3) in simp_all)
  then obtain s4 where "iappend 1 (entry 1 [0x2E, 0x2E]) s3 = Ret s4" "fs_ok s4 ((\<lambda>_. 0)(1 := T_DIR)) ((\<lambda>_. [])(1 := root_start)) 1" "unat (freeblock s4) = 47"
    using 3(3) by (auto simp: root_start_def)
  then show ?thesis using c w 2(1) 3(1) by (simp add: mkfs_prefix_def)
qed

section \<open>The end\<close>

lemma fix_root_ok:
  assumes fs: "fs_ok s T F N" and N: "1 \<le> N"
  shows "\<exists>s'. fix_root 1 s = Ret s' \<and> meta_ok s' \<and> data_ok s' (inodes_of s' N) (\<lambda>j. places (length (F j))) F \<and>
    inode_of s' 1 = (inode_of s 1)\<lparr>d_size := of_nat ((length (F 1) div BSIZE + 1) * BSIZE)\<rparr> \<and>
    (\<forall>j. 1 < j \<and> j \<le> N \<longrightarrow> inode_of s' j = inode_of s j) \<and> freeblock s' = freeblock s"
proof -
  let ?n = "(length (F 1) div 1024 + 1) * 1024" let ?D = "inodes_of s N" let ?di = "(inode_of s 1)\<lparr>d_size := of_nat ?n\<rparr>"
  have fs': "meta_ok s" "data_ok s ?D (\<lambda>j. places (length (F j))) F" "N < 208" "msb s = mkfs_sb" "?D 1 = inode_of s 1"
    "d_size (inode_of s 1) = of_nat (length (F 1))" "length (F 1) < 2 ^ 32"
    using fs N by (auto simp: fs_ok_def meta_ok_def inodes_of_def)
  have u: "unat (IBLOCK 1 mkfs_sb) = 32" using IBLOCK_mkfs [of 1] by simp
  have rd: "rinode 1 s = Ret (inode_of s 1)"
    using rsect_ok [OF data_okD(1) [OF fs'(2)], of "IBLOCK 1 mkfs_sb"] fs'(4) by (simp add: rinode_def u inode_of_def)
  have "unat (d_size (inode_of s 1) div 1024) = length (F 1) div 1024" using fs'(6,7) by (simp add: unat_div_distrib unat_of_nat32)
  then have "d_size (inode_of s 1) div 1024 = of_nat (length (F 1) div 1024)" by (intro word_unatI) (use fs'(7) in \<open>simp add: unat_of_nat32 div_less_dividend le_less_trans [OF div_le_dividend]\<close>)
  then have sz: "(d_size (inode_of s 1) div 1024 + 1) * 1024 = of_nat ?n" by simp
  have "dinode_ok ?di" using data_okD(6) [OF fs'(2), of 1] fs'(5) by (simp add: dinode_ok_def)
  then obtain s' where 1: "winode 1 ?di s = Ret s'" "data_ok s' ?D (\<lambda>j. places (length (F j))) F" "meta_ok s'" "inode_of s' 1 = ?di"
    "\<forall>j < 208. j \<noteq> 1 \<longrightarrow> inode_of s' j = inode_of s j" "freeblock s' = freeblock s"
    using winode_ok [OF fs'(2,1), of 1 ?di] by auto
  have "data_ok s' (inodes_of s' N) (\<lambda>j. places (length (F j))) F"
  proof (rule data_ok_addrs [OF _ 1(2)])
    fix j show "d_addrs (inodes_of s' N j) = d_addrs (?D j)" using 1(4,5) fs'(3) by (cases "j = 1") (auto simp: inodes_of_def)
  qed
  moreover have "fix_root 1 s = Ret s'" using rd 1(1) sz by (simp only: fix_root_def kbind.simps Let_def xint_id of_nat_numeral)
  ultimately show ?thesis using 1(3-6) fs'(3) by (intro exI [of _ s']) auto
qed

lemma fold_bit_use:
  "m \<le> BPB \<Longrightarrow> length (fold bit_use [0..<m] zeroes) = BSIZE \<and> (\<forall>j < BPB. bit_free (fold bit_use [0..<m] zeroes) j \<longleftrightarrow> m \<le> j)"
proof (induction m)
  case 0
  have "zeroes ! k = 0" if "k < 1024" for k unfolding zeroes_def using that by (rule nth_replicate)
  then have "bit_free zeroes j" if "j < BPB" for j using that by (simp add: bit_free_def less_mult_imp_div_less)
  then show ?case by simp
next
  case (Suc m)
  then have "m div 8 < length (fold bit_use [0..<m] zeroes)" by (simp add: less_mult_imp_div_less)
  then show ?case using Suc by (auto simp: bit_use_iff)
qed

definition disk_of :: "mkfs \<Rightarrow> u32 \<Rightarrow> block" where
  "disk_of s b = sectors s ! unat b"

lemma mkfs_balloc_ok:
  assumes ok: "data_ok s D A F" "meta_ok s"
  shows "\<exists>s'. mkfs_balloc (sint (freeblock s)) s = Ret s' \<and> data_ok s' D A F \<and> (\<forall>b < 45. sectors s' ! b = sectors s ! b) \<and>
    freeblock s' = freeblock s \<and> bitmap_ok mkfs_sb {} (disk_of s') \<and> (\<forall>b < FSSIZE. used mkfs_sb (disk_of s') b \<longleftrightarrow> b < unat (freeblock s))"
proof -
  let ?m = "unat (freeblock s)" let ?d = "fold bit_use [0..<?m] zeroes"
  note old = data_okD [OF ok(1)]
  have sb: "msb s = mkfs_sb" using ok(2) by (simp add: meta_ok_def)
  have m: "sint (freeblock s) = int ?m"
  proof -
    have i: "uint (freeblock s) = int ?m" and p: "(2 :: int) ^ 31 = 2147483648" by simp_all
    have "uint (freeblock s) \<le> 2000" unfolding i using old(4) by linarith
    then have "signed_take_bit 31 (uint (freeblock s)) = uint (freeblock s)"
      using uint_ge_0 [of "freeblock s"] by (intro signed_take_bit_int_eq_self) (unfold p, linarith+)
    then show ?thesis unfolding i [symmetric] by (simp add: sint_uint)
  qed
  let ?s = "s\<lparr>sectors := (sectors s)[45 := ?d]\<rparr>"
  have f: "length ?d = 1024" "\<And>j. j < 8192 \<Longrightarrow> bit_free ?d j \<longleftrightarrow> ?m \<le> j"
  proof -
    have "?m \<le> BPB" using old(4) by simp
    then show "length ?d = 1024" "\<And>j. j < 8192 \<Longrightarrow> bit_free ?d j \<longleftrightarrow> ?m \<le> j" using fold_bit_use [of ?m] by blast+
  qed
  have "wsect 45 ?d s = Ret ?s" by (subst wsect_ok [OF old(1)]) simp_all
  moreover have "int ?m < 8192" using old(4) by linarith
  ultimately have "mkfs_balloc (sint (freeblock s)) s = Ret ?s" using sb by (simp add: mkfs_balloc_def m)
  moreover have "data_ok ?s D A F" by (rule data_ok_meta [OF ok(1)]) (simp_all add: f)
  moreover have BB: "disk_of ?s (BBLOCK (of_nat b) mkfs_sb) = ?d" "BBLOCK (of_nat b) mkfs_sb = 45" if "b < 2000" for b
    using that old(1) BBLOCK_div [of b mkfs_sb] by (auto simp: disk_of_def)
  moreover have us: "used mkfs_sb (disk_of ?s) b \<longleftrightarrow> b < ?m" if "b < 2000" for b using BB(1) [OF that] f(2) [of b] that by (simp add: used_def not_le)
  moreover have "bitmap_ok mkfs_sb {} (disk_of ?s)"
  proof -
    have "b < ?m" if "b < 2000" "(of_nat b :: u32) = 45" for b
    proof -
      have "unat (of_nat b :: u32) = b" using that(1) by (simp add: unat_of_nat32)
      then have "b = 45" unfolding that(2) by simp
      then show ?thesis using old(3) by simp
    qed
    moreover have "disk_of ?s 45 = ?d" using BB [of 0] by simp
    ultimately show ?thesis using old(3) by (auto simp: bitmap_ok_def us BB f(1))
  qed
  ultimately show ?thesis by (intro exI [of _ ?s]) auto
qed

text \<open>The contents of a file, as its inode tells.\<close>

lemma concat_blocks: "concat (map (block_of f) [0..<m]) = take (m * BSIZE) f @ replicate (m * BSIZE - length f) 0"
proof (induction m)
  case (Suc m)
  have b: "block_of f m = take 1024 (drop (m * 1024) f) @ replicate (1024 - (length f - m * 1024)) 0"
    unfolding block_of_def Let_def zeroes_def drop_replicate by (simp add: min_def)
  show ?case
  proof (cases "m * 1024 \<le> length f")
    case True
    then have "1024 - (length f - m * 1024) = Suc m * 1024 - length f" by simp
    then show ?thesis using Suc True take_add [of "m * 1024" 1024 f] by (simp add: b add.commute)
  next
    case False
    then have "m * 1024 - length f + (1024 - (length f - m * 1024)) = Suc m * 1024 - length f" by simp
    then show ?thesis using Suc False by (simp add: b replicate_add [symmetric] del: replicate_add)
  qed
qed simp

definition file_data :: "(nat \<Rightarrow> block) \<Rightarrow> dinode \<Rightarrow> u8 list" where
  "file_data v di = (let n = unat (d_size di) in
     take n (concat (map (\<lambda>fbn. v (unat (row v di (place fbn)))) [0..<(n + BSIZE - 1) div BSIZE])))"

text \<open>The blocks of a file, with the one of addresses.\<close>

definition file_blocks :: "(nat \<Rightarrow> block) \<Rightarrow> dinode \<Rightarrow> u32 list" where
  "file_blocks v di = filter (\<lambda>b. b \<noteq> 0) (map (row v di) [0..<MAXFILE + 1])"

lemma div_1023: "k < (n + 1023) div 1024 \<longleftrightarrow> k * 1024 < (n :: nat)"
proof -
  have "k < (n + 1023) div 1024 \<longleftrightarrow> (k + 1) * 1024 \<le> n + 1023" by (simp add: less_eq_div_iff_mult_less_eq Suc_le_eq [symmetric])
  then show ?thesis by auto
qed

lemma file_data_ok:
  assumes ok: "data_ok s D (\<lambda>j. places (length (F j))) F" and n: "unat (d_size (D i)) = n" "(n + 1023) div 1024 = (length (F i) + 1023) div 1024" "length (F i) \<le> n"
  shows "file_data (nth (sectors s)) (D i) = F i @ replicate (n - length (F i)) 0"
proof -
  let ?m = "(n + 1023) div 1024"
  have e: "n + 1024 - 1 = n + 1023" by simp
  have "sectors s ! unat (row (nth (sectors s)) (D i) (place fbn)) = block_of (F i) fbn" if "fbn < ?m" for fbn
    using data_okD(12) [OF ok, of fbn i] that unfolding n(2) div_1023 by (simp add: places_def)
  then have "map (\<lambda>fbn. sectors s ! unat (row (nth (sectors s)) (D i) (place fbn))) [0..<?m] = map (block_of (F i)) [0..<?m]" by simp
  then have "file_data (nth (sectors s)) (D i) = take n (concat (map (block_of (F i)) [0..<?m]))"
    by (simp only: file_data_def Let_def n(1) e)
  moreover have "n \<le> ?m * 1024" by linarith
  ultimately show ?thesis using n(3) by (simp add: concat_blocks)
qed

lemma distinct_concat_map:
  "distinct is \<Longrightarrow> (\<And>i. distinct (f i)) \<Longrightarrow> (\<And>i j. i \<noteq> j \<Longrightarrow> set (f i) \<inter> set (f j) = {}) \<Longrightarrow> distinct (concat (map f is))"
proof (induction "is")
  case (Cons a "is")
  have "set (f a) \<inter> set (f i) = {}" if "i \<in> set is" for i using Cons.prems(1,3) that by (metis distinct.simps(2))
  then have "set (f a) \<inter> set (concat (map f is)) = {}" by auto
  then show ?case using Cons by simp
qed simp

lemma file_blocks_set: "data_ok s D A F \<Longrightarrow> set (file_blocks (nth (sectors s)) (D i)) = row (nth (sectors s)) (D i) ` A i"
  using data_okD(7,8) [of s D A F] by (auto simp: file_blocks_def)

lemma file_blocks_ok:
  assumes ok: "data_ok s D A F"
  shows "distinct (concat (map (\<lambda>i. file_blocks (nth (sectors s)) (D i)) [1..<n]))"
    "b \<in> set (file_blocks (nth (sectors s)) (D i)) \<Longrightarrow> nmeta \<le> unat b \<and> unat b < unat (freeblock s)"
proof -
  note old = data_okD [OF ok]
  have "distinct (file_blocks (nth (sectors s)) (D i))" for i
    unfolding file_blocks_def filter_map distinct_map
    by (auto simp: inj_on_def) (metis old(7,11))
  moreover have "set (file_blocks (nth (sectors s)) (D i)) \<inter> set (file_blocks (nth (sectors s)) (D j)) = {}" if "i \<noteq> j" for i j
    unfolding file_blocks_set [OF ok] using that old(11) by fastforce
  ultimately show "distinct (concat (map (\<lambda>i. file_blocks (nth (sectors s)) (D i)) [1..<n]))" by (intro distinct_concat_map) simp_all
  show "nmeta \<le> unat b \<and> unat b < unat (freeblock s)" if "b \<in> set (file_blocks (nth (sectors s)) (D i))"
    using that old(9,10) unfolding file_blocks_set [OF ok] by auto
qed

section \<open>The image\<close>

text \<open>An inode of the image, where the kernel looks for it, and the first block after all files.\<close>

definition disk_inode :: "mkfs \<Rightarrow> nat \<Rightarrow> dinode" where
  "disk_inode s i = get_dinode (inode_off (of_nat i)) (disk_of s (IBLOCK (of_nat i) (sb_of (disk_of s 1))))"

definition image_end :: "(u8 list \<Rightarrow> u8 list list option) \<Rightarrow> u8 list list \<Rightarrow> nat" where
  "image_end host args = nmeta + nblocks (DIRENT_SIZE * (length args + 2)) + (\<Sum>a\<leftarrow>args. nblocks (length (content host a)))"

lemma mkfs_main_prefix:
  "mkfs_main room creates host (img # args) = (if \<not> creates img then Panic ''open''
     else kbind (mkfs_prefix room) (\<lambda>s. kbind (add_files host 1 args s) (\<lambda>s. kbind (fix_root 1 s) (\<lambda>s. mkfs_balloc (sint (freeblock s)) s))))"
proof -
  let ?m = "''rootino == ROOTINO''" let ?k = "\<lambda>s. mkfs_balloc (sint (freeblock s)) s"
  have eq: "(\<lambda>(rootino, s). if rootino \<noteq> 1 then Panic ?m
      else kbind (iappend rootino (entry rootino [0x2E]) s) (\<lambda>s. kbind (iappend rootino (entry rootino [0x2E, 0x2E]) s)
        (\<lambda>s. kbind (add_files host rootino args s) (\<lambda>s. kbind (fix_root rootino s) ?k)))) =
    (\<lambda>x. kbind (case x of (rootino, s) \<Rightarrow> if rootino \<noteq> 1 then Panic ?m
        else kbind (iappend rootino (entry rootino [0x2E]) s) (\<lambda>s. iappend rootino (entry rootino [0x2E, 0x2E]) s))
      (\<lambda>s. kbind (add_files host 1 args s) (\<lambda>s. kbind (fix_root 1 s) ?k)))"
    by (auto simp: fun_eq_iff kbind_assoc)
  show ?thesis unfolding mkfs_main_def mkfs_prefix_def kbind_assoc list.case eq by simp
qed

lemma round_block:
  fixes len :: nat
  assumes "len mod 1024 \<noteq> 0"
  shows "((len div 1024 + 1) * 1024 + 1023) div 1024 = (len + 1023) div 1024" "(len div 1024 + 1) * 1024 - len = 1024 - len mod 1024" "len \<le> (len div 1024 + 1) * 1024"
proof -
  define q r where "q = len div 1024" and "r = len mod 1024"
  have l: "len = q * 1024 + r" "0 < r" "r < 1024" using assms by (auto simp: q_def r_def)
  then have "(len + 1023) div 1024 = q + 1" by linarith
  moreover have "((q + 1) * 1024 + 1023) div 1024 = q + 1" by simp
  ultimately show "((len div 1024 + 1) * 1024 + 1023) div 1024 = (len + 1023) div 1024" by (simp only: q_def)
  show "(len div 1024 + 1) * 1024 - len = 1024 - len mod 1024" "len \<le> (len div 1024 + 1) * 1024"
    unfolding q_def [symmetric] r_def [symmetric] using l by simp_all
qed

lemma finish_ok:
  assumes fs: "fs_ok s T F N" and N: "1 \<le> N"
  shows "\<exists>s'. kbind (fix_root 1 s) (\<lambda>s. mkfs_balloc (sint (freeblock s)) s) = Ret s' \<and>
    sb_of (disk_of s' 1) = mkfs_sb \<and> get32 0 (disk_of s' 2) = 0 \<and> bitmap_ok mkfs_sb {} (disk_of s') \<and>
    (\<forall>b < FSSIZE. used mkfs_sb (disk_of s') b \<longleftrightarrow> b < unat (freeblock s)) \<and> freeblock s' = freeblock s \<and>
    data_ok s' (inodes_of s' N) (\<lambda>j. places (length (F j))) F \<and>
    (\<forall>j. 1 \<le> j \<and> j \<le> N \<longrightarrow> disk_inode s' j = inodes_of s' N j \<and> d_type (disk_inode s' j) = T j \<and>
      unat (d_size (disk_inode s' j)) = (if j = 1 then (length (F j) div BSIZE + 1) * BSIZE else length (F j)))"
proof -
  obtain s1 where 1: "fix_root 1 s = Ret s1" "meta_ok s1" "data_ok s1 (inodes_of s1 N) (\<lambda>j. places (length (F j))) F"
    "inode_of s1 1 = (inode_of s 1)\<lparr>d_size := of_nat ((length (F 1) div 1024 + 1) * 1024)\<rparr>"
    "\<And>j. 1 < j \<and> j \<le> N \<Longrightarrow> inode_of s1 j = inode_of s j" "freeblock s1 = freeblock s"
    using fix_root_ok [OF fs N] by blast
  obtain s2 where 2: "mkfs_balloc (sint (freeblock s1)) s1 = Ret s2" "data_ok s2 (inodes_of s1 N) (\<lambda>j. places (length (F j))) F"
    "\<And>b. b < 45 \<Longrightarrow> sectors s2 ! b = sectors s1 ! b" "freeblock s2 = freeblock s1" "bitmap_ok mkfs_sb {} (disk_of s2)"
    "\<forall>b < FSSIZE. used mkfs_sb (disk_of s2) b \<longleftrightarrow> b < unat (freeblock s1)"
    using mkfs_balloc_ok [OF 1(3,2)] by blast
  have m: "sectors s2 ! 1 = put_sb mkfs_sb zeroes" "sectors s2 ! 2 = zeroes" using 1(2) by (simp_all add: 2(3) meta_ok_def)
  then have sb: "sb_of (disk_of s2 1) = mkfs_sb" and lg: "get32 0 (disk_of s2 2) = 0" by (simp_all add: disk_of_def sb_of_put_sb get32_zeroes)
  have N8: "N < 208" using fs by (simp add: fs_ok_def)
  have i2: "inode_of s2 j = inode_of s1 j" "disk_inode s2 j = inode_of s2 j" if "j \<le> N" for j
  proof -
    have "j < 208" using that N8 by simp
    then have "j div 16 < 13" "unat (IBLOCK (of_nat j) mkfs_sb) = j div 16 + 32" by (simp_all add: less_mult_imp_div_less IBLOCK_mkfs)
    then show "inode_of s2 j = inode_of s1 j" "disk_inode s2 j = inode_of s2 j"
      using 2(3) unfolding disk_inode_def sb by (simp_all add: inode_of_def disk_of_def)
  qed
  have D: "inodes_of s2 N = inodes_of s1 N" by (auto simp: inodes_of_def i2 fun_eq_iff)
  have "disk_inode s2 j = inodes_of s2 N j \<and> d_type (disk_inode s2 j) = T j \<and>
      unat (d_size (disk_inode s2 j)) = (if j = 1 then (length (F j) div 1024 + 1) * 1024 else length (F j))" if j: "1 \<le> j" "j \<le> N" for j
  proof -
    have f: "d_type (inode_of s j) = T j" "d_size (inode_of s j) = of_nat (length (F j))" "length (F j) \<le> 274432" using fs j by (auto simp: fs_ok_def)
    have "(length (F j) div 1024 + 1) * 1024 \<le> length (F j) + 1024" by simp
    then have "(length (F j) div 1024 + 1) * 1024 < 2 ^ 32" using f(3) by simp
    then have "unat (of_nat ((length (F j) div 1024 + 1) * 1024) :: u32) = (length (F j) div 1024 + 1) * 1024" by (rule unat_of_nat32)
    moreover have "unat (of_nat (length (F j)) :: u32) = length (F j)" using f(3) by (intro unat_of_nat32) simp
    ultimately show ?thesis using i2 [OF j(2)] 1(4) 1(5) [of j] f(1,2) j by (cases "j = 1") (simp_all add: inodes_of_def del: of_nat_mult of_nat_add)
  qed
  moreover have "kbind (fix_root 1 s) (\<lambda>s. mkfs_balloc (sint (freeblock s)) s) = Ret s2" by (simp add: 1(1) 2(1))
  moreover have "data_ok s2 (inodes_of s2 N) (\<lambda>j. places (length (F j))) F" unfolding D by (rule 2(2))
  ultimately show ?thesis using sb lg 2(4,5) 2(6) unfolding 1(6) by blast
qed

text \<open>The image before the last two steps.\<close>

lemma files_ok:
  assumes args: "\<forall>a \<in> set args. arg_ok host a" "length args + 1 < NINODES" and room: "image_end host args \<le> FSSIZE" "FSSIZE \<le> room"
  shows "\<exists>s T F. kbind (mkfs_prefix room) (add_files host 1 args) = Ret s \<and> fs_ok s T F (1 + length args) \<and>
    unat (freeblock s) = image_end host args \<and> F 1 = root_start @ entries 2 args \<and> T 1 = T_DIR \<and>
    (\<forall>i < length args. F (i + 2) = content host (args ! i) \<and> T (i + 2) = T_FILE)"
proof -
  define n where "n = length args"
  define T where "T = (\<lambda>j :: nat. if 1 < j \<and> j \<le> 1 + n then T_FILE else ((\<lambda>_. 0)(1 := T_DIR)) j)"
  define G where "G = (\<lambda>_. [])(1 :: nat := root_start)"
  define F where "F = (\<lambda>j. if 1 < j \<and> j \<le> 1 + n then content host (args ! (j - 1 - 1)) else if j = 1 then G 1 @ entries (1 + 1) args else G j)"
  note defs = n_def T_def G_def F_def
  obtain s0 where 0: "mkfs_prefix room = Ret s0" "fs_ok s0 ((\<lambda>_. 0)(1 := T_DIR)) G 1" "unat (freeblock s0) = nmeta + 1"
    using mkfs_prefix_ok [OF room(2)] unfolding G_def by (elim exE conjE)
  have len: "length (G 1) + 16 * length args = 16 * (n + 2)" "nblocks (length (G 1)) = 1" "16 * (n + 2) \<le> 3232"
    using args(2) by (simp_all add: defs root_start_def)
  have "\<exists>s'. add_files host 1 args s0 = Ret s' \<and> fs_ok s' T F (1 + n) \<and>
      unat (freeblock s') + nblocks (length (G 1)) = unat (freeblock s0) + nblocks (length (G 1) + 16 * length args) + (\<Sum>a\<leftarrow>args. nblocks (length (content host a)))"
    unfolding T_def F_def n_def
  proof (rule add_files_ok [OF 0(2) _ _ args(1)])
    show "length (G 1) + 16 * length args \<le> MAXFILE * BSIZE" unfolding len(1) using len(3) by simp
    show "unat (freeblock s0) + nblocks (length (G 1) + 16 * length args) + (\<Sum>a\<leftarrow>args. nblocks (length (content host a))) \<le> FSSIZE + nblocks (length (G 1))"
      unfolding len(1,2) 0(3) using room(1) unfolding image_end_def n_def by linarith
  qed (use args(2) in simp_all)
  then obtain s1 where 1: "add_files host 1 args s0 = Ret s1" "fs_ok s1 T F (1 + n)" "unat (freeblock s1) = image_end host args"
    unfolding len(1,2) 0(3) unfolding image_end_def n_def by auto
  have "F 1 = root_start @ entries 2 args" "\<And>i. i < n \<Longrightarrow> F (i + 2) = content host (args ! i)" "T 1 = T_DIR" "\<And>i. i < n \<Longrightarrow> T (i + 2) = T_FILE"
    by (simp_all add: defs numeral_2_eq_2)
  moreover have "kbind (mkfs_prefix room) (add_files host 1 args) = Ret s1" using 0(1) 1(1) by simp
  ultimately show ?thesis using 1(2,3) unfolding n_def by blast
qed

text \<open>
  C5. The program builds the image that its arguments ask for. When every name can be used, every file can be opened and is not too long, and
  the inodes and blocks suffice, it ends without an error: the kernel finds the super block, an empty log, and a bitmap that marks exactly
  the blocks up to the end of the files; the root directory holds its own two entries and one for each file, followed by empty
  ones; each inode gives the contents of its file, however the reads delivered them; and no two places of any inodes name the same block.
\<close>

theorem mkfs_image:
  assumes args: "\<forall>a \<in> set args. arg_ok host a" "length args + 1 < NINODES" "(length args + 2) mod 64 \<noteq> 0"
    and room: "image_end host args \<le> FSSIZE" "FSSIZE \<le> room" "creates img"
  shows "\<exists>s. mkfs_main room creates host (img # args) = Ret s \<and> length (sectors s) = FSSIZE \<and>
    sb_of (disk_of s 1) = mkfs_sb \<and> get32 0 (disk_of s 2) = 0 \<and>
    bitmap_ok mkfs_sb {} (disk_of s) \<and> (\<forall>b < FSSIZE. used mkfs_sb (disk_of s) b \<longleftrightarrow> b < image_end host args) \<and>
    d_type (disk_inode s 1) = T_DIR \<and>
    file_data (nth (sectors s)) (disk_inode s 1) = root_start @ entries 2 args @ replicate (BSIZE - DIRENT_SIZE * (length args + 2) mod BSIZE) 0 \<and>
    (\<forall>i < length args. d_type (disk_inode s (i + 2)) = T_FILE \<and> file_data (nth (sectors s)) (disk_inode s (i + 2)) = content host (args ! i)) \<and>
    distinct (concat (map (\<lambda>i. file_blocks (nth (sectors s)) (disk_inode s i)) [1..<length args + 2])) \<and>
    (\<forall>i \<le> length args. \<forall>b \<in> set (file_blocks (nth (sectors s)) (disk_inode s (i + 1))). nmeta \<le> unat b \<and> unat b < image_end host args)"
proof -
  define n where "n = length args"
  obtain s1 T F where 1: "kbind (mkfs_prefix room) (add_files host 1 args) = Ret s1" "fs_ok s1 T F (1 + n)" "unat (freeblock s1) = image_end host args"
    "F 1 = root_start @ entries 2 args" "T 1 = T_DIR" "\<forall>i < n. F (i + 2) = content host (args ! i) \<and> T (i + 2) = T_FILE"
    using files_ok [OF args(1,2) room(1,2)] unfolding n_def by blast
  have F: "F 1 = root_start @ entries 2 args" "length (F 1) = 16 * (n + 2)" "\<And>i. i < n \<Longrightarrow> F (i + 2) = content host (args ! i)"
    "T 1 = T_DIR" "\<And>i. i < n \<Longrightarrow> T (i + 2) = T_FILE" using 1(4,5,6) by (auto simp: n_def root_start_def)
  have m: "length (F 1) mod 1024 \<noteq> 0" unfolding F(2) using args(3) mult_mod_right [of 16 "n + 2" 64] by (simp add: n_def)
  obtain s where 2: "kbind (fix_root 1 s1) (\<lambda>s. mkfs_balloc (sint (freeblock s)) s) = Ret s"
    "sb_of (disk_of s 1) = mkfs_sb" "get32 0 (disk_of s 2) = 0" "bitmap_ok mkfs_sb {} (disk_of s)"
    "\<forall>b < FSSIZE. used mkfs_sb (disk_of s) b \<longleftrightarrow> b < unat (freeblock s1)" "freeblock s = freeblock s1"
    "data_ok s (inodes_of s (1 + n)) (\<lambda>j. places (length (F j))) F"
    "\<forall>j. 1 \<le> j \<and> j \<le> 1 + n \<longrightarrow> disk_inode s j = inodes_of s (1 + n) j \<and> d_type (disk_inode s j) = T j \<and>
      unat (d_size (disk_inode s j)) = (if j = 1 then (length (F j) div 1024 + 1) * 1024 else length (F j))"
    using finish_ok [OF 1(2) le_add1] by (elim exE conjE)
  note at = 2(8) [rule_format]
  let ?v = "nth (sectors s)"
  have d1: "file_data ?v (disk_inode s 1) = F 1 @ replicate (1024 - length (F 1) mod 1024) 0"
  proof -
    let ?k = "(length (F 1) div 1024 + 1) * 1024"
    show ?thesis using file_data_ok [OF 2(7), of 1 ?k] at [of 1] round_block [OF m] by auto
  qed
  have di: "file_data ?v (disk_inode s (i + 2)) = content host (args ! i)" if "i < n" for i
    using file_data_ok [OF 2(7), of "i + 2" "length (F (i + 2))"] at [of "i + 2"] F(3) [OF that] that by auto
  have "map (\<lambda>i. file_blocks ?v (disk_inode s i)) [1..<n + 2] = map (\<lambda>i. file_blocks ?v (inodes_of s (1 + n) i)) [1..<n + 2]"
    by (rule map_cong [OF refl]) (use at in auto)
  then have "distinct (concat (map (\<lambda>i. file_blocks ?v (disk_inode s i)) [1..<n + 2]))" using file_blocks_ok(1) [OF 2(7)] by (simp only:)
  moreover have "nmeta \<le> unat b \<and> unat b < image_end host args" if "i \<le> n" "b \<in> set (file_blocks ?v (disk_inode s (i + 1)))" for i b
    using file_blocks_ok(2) [OF 2(7), of b "i + 1"] 2(6) 1(3) at [of "i + 1"] that by auto
  moreover have "mkfs_main room creates host (img # args) = Ret s"
    using 1(1) 2(1) room(3) unfolding mkfs_main_prefix kbind_assoc [symmetric] by simp
  moreover have "d_type (disk_inode s 1) = T_DIR" using at [of 1] F(4) by auto
  moreover have "d_type (disk_inode s (i + 2)) = T_FILE" if "i < n" for i using at [of "i + 2"] F(5) [OF that] that by auto
  moreover have "file_data ?v (disk_inode s 1) = root_start @ entries 2 args @ replicate (1024 - 16 * (n + 2) mod 1024) 0" using d1 F(1,2) by simp
  ultimately show ?thesis using 2(2-5) di data_okD(1) [OF 2(7)] unfolding n_def 1(3) by blast
qed

text \<open>A file \<open>_cat\<close> of two bytes becomes the file \<open>cat\<close>.\<close>

definition demo_host :: "u8 list \<Rightarrow> u8 list list option" where
  "demo_host a = (if a = [0x5F, 0x63, 0x61, 0x74] then Some [[0x68], [0x69]] else None)"

theorem mkfs_image_witness:
  "\<exists>s. mkfs_main FSSIZE (\<lambda>_. True) demo_host [[0x66, 0x73], [0x5F, 0x63, 0x61, 0x74]] = Ret s \<and>
    file_data (nth (sectors s)) (disk_inode s 1) = entry 1 [0x2E] @ entry 1 [0x2E, 0x2E] @ entry 2 [0x63, 0x61, 0x74] @ replicate 976 0 \<and>
    file_data (nth (sectors s)) (disk_inode s 2) = [0x68, 0x69]"
proof -
  let ?a = "[0x5F, 0x63, 0x61, 0x74] :: u8 list"
  have c: "content demo_host ?a = [0x68, 0x69]" "short ?a = [0x63, 0x61, 0x74]" "shortname ?a = ?a"
    by (simp_all add: content_def demo_host_def short_def shortname_def skip_underscore_def)
  then have a: "arg_ok demo_host ?a" by (simp add: arg_ok_def demo_host_def)
  have e: "image_end demo_host [?a] = 48" by (simp add: image_end_def c)
  have r: "root_start @ entries 2 [?a] @ x = entry 1 [0x2E] @ entry 1 [0x2E, 0x2E] @ entry 2 [0x63, 0x61, 0x74] @ x" for x by (simp add: root_start_def c)
  have h: "\<forall>a \<in> set [?a]. arg_ok demo_host a" "length [?a] + 1 < NINODES" "(length [?a] + 2) mod 64 \<noteq> 0" "image_end demo_host [?a] \<le> FSSIZE"
    using a e by simp_all
  obtain s where s: "mkfs_main FSSIZE (\<lambda>_. True) demo_host ([0x66, 0x73] # [?a]) = Ret s"
    "file_data (nth (sectors s)) (disk_inode s 1) = root_start @ entries 2 [?a] @ replicate (BSIZE - DIRENT_SIZE * (length [?a] + 2) mod BSIZE) 0"
    "\<forall>i < length [?a]. d_type (disk_inode s (i + 2)) = T_FILE \<and> file_data (nth (sectors s)) (disk_inode s (i + 2)) = content demo_host ([?a] ! i)"
    using mkfs_image [OF h order_refl, of "\<lambda>_. True" "[0x66, 0x73]"] by blast
  have "replicate (BSIZE - DIRENT_SIZE * (length [?a] + 2) mod BSIZE) (0 :: u8) = replicate 976 0" by (rule arg_cong [of _ _ "\<lambda>n. replicate n 0"]) simp
  moreover have "file_data (nth (sectors s)) (disk_inode s 2) = [0x68, 0x69]" using s(3) [rule_format, of 0] c(1) by (simp add: numeral_2_eq_2)
  ultimately show ?thesis using s(1,2) unfolding r by (intro exI [of _ s]) (simp only: simp_thms)
qed

text \<open>
  The size of the root directory is rounded up past its last entry even when that entry ends a block. Then the directory ends in a block that it does not have: the
  address is zero, and the kernel allocates the block when the directory is read.
\<close>

theorem mkfs_root_hole:
  assumes args: "\<forall>a \<in> set args. arg_ok host a" "length args + 1 < NINODES" "(length args + 2) mod 64 = 0"
    and room: "image_end host args \<le> FSSIZE" "FSSIZE \<le> room" "creates img"
  shows "\<exists>s. mkfs_main room creates host (img # args) = Ret s \<and>
    unat (d_size (disk_inode s 1)) = DIRENT_SIZE * (length args + 2) + BSIZE \<and>
    row (nth (sectors s)) (disk_inode s 1) (place (DIRENT_SIZE * (length args + 2) div BSIZE)) = 0"
proof -
  let ?n = "length args" let ?k = "16 * (?n + 2) div 1024"
  obtain s1 T F where 1: "kbind (mkfs_prefix room) (add_files host 1 args) = Ret s1" "fs_ok s1 T F (1 + ?n)" "F 1 = root_start @ entries 2 args"
    using files_ok [OF args(1,2) room(1,2)] by blast
  have F: "length (F 1) = 16 * (?n + 2)" using 1(3) by (simp add: root_start_def)
  have "16 * (?n + 2) mod 1024 = 0" using args(3) mult_mod_right [of 16 "?n + 2" 64] by simp
  then have k: "16 * (?n + 2) = ?k * 1024" using div_mult_mod_eq [of "16 * (?n + 2)" 1024] by linarith
  have k8: "?k < 268" using args(2) by simp
  obtain s where 2: "kbind (fix_root 1 s1) (\<lambda>s. mkfs_balloc (sint (freeblock s)) s) = Ret s"
    "data_ok s (inodes_of s (1 + ?n)) (\<lambda>j. places (length (F j))) F"
    "\<forall>j. 1 \<le> j \<and> j \<le> 1 + ?n \<longrightarrow> disk_inode s j = inodes_of s (1 + ?n) j \<and> d_type (disk_inode s j) = T j \<and>
      unat (d_size (disk_inode s j)) = (if j = 1 then (length (F j) div 1024 + 1) * 1024 else length (F j))"
    using finish_ok [OF 1(2) le_add1] by (elim exE conjE)
  have i: "disk_inode s 1 = inodes_of s (1 + ?n) 1" "unat (d_size (disk_inode s 1)) = (length (F 1) div 1024 + 1) * 1024"
    using 2(3) [rule_format, of 1] by auto
  have "place ?k \<notin> places (length (F 1))" unfolding F using k by (auto simp: places_def)
  then have "row (nth (sectors s)) (disk_inode s 1) (place ?k) = 0" using data_okD(7) [OF 2(2), of "place ?k" 1] k8 i(1) by simp
  moreover have "mkfs_main room creates host (img # args) = Ret s"
    using 1(1) 2(1) room(3) unfolding mkfs_main_prefix kbind_assoc [symmetric] by simp
  ultimately show ?thesis using i(2) k unfolding F by (intro exI [of _ s] conjI) simp_all
qed

section \<open>The log of the image\<close>

fun log_writes :: "nat list \<Rightarrow> 'a fslog_scheme \<Rightarrow> 'a fslog_scheme res" where
  "log_writes [] s = Ret s"
| "log_writes (b # bs) s = kbind (log_write b s) (log_writes bs)"

lemma log_writes_ok:
  "log_n s = int n \<Longrightarrow> n + length bs < LOGSIZE \<Longrightarrow> log_size s = int LOGSIZE \<Longrightarrow> 1 \<le> log_outstanding s \<Longrightarrow>
   distinct (map (\<lambda>b. blockno (bufs s b)) bs) \<Longrightarrow> (\<lambda>b. blockno (bufs s b)) ` set bs \<inter> log_block s ` {..<n} = {} \<Longrightarrow>
   \<exists>t. log_writes bs s = Ret t \<and> log_n t = int (n + length bs) \<and> log_size t = log_size s"
proof (induction bs arbitrary: s n)
  case (Cons b bs)
  let ?t = "(cache_pin b (s\<lparr>log_block := (log_block s)(n := blockno (bufs s b))\<rparr>))\<lparr>log_n := int n + 1\<rparr>"
  have w: "log_write b s = Ret ?t" by (rule log_write_appended) (use Cons.prems in auto)
  have f: "log_n ?t = int (n + 1)" "log_size ?t = log_size s" "log_outstanding ?t = log_outstanding s" "\<And>c. blockno (bufs ?t c) = blockno (bufs s c)"
    "log_block ?t ` {..<n + 1} = insert (blockno (bufs s b)) (log_block s ` {..<n})"
    by (auto simp: cache_pin_def upd_buf_def lessThan_Suc)
  have "\<exists>t. log_writes bs ?t = Ret t \<and> log_n t = int (n + 1 + length bs) \<and> log_size t = log_size ?t"
    by (rule Cons.IH) (use Cons.prems f in auto)
  then show ?case using w f(2) by auto
qed simp

text \<open>
  C14. The log that the program lays out is one block too short. It has \<open>LOGSIZE\<close> blocks with the header, where \<open>begin_op\<close> admits three calls of ten
  blocks each: after three calls of \<open>begin_op\<close> and 29 writes of different blocks, the thirtieth write, which is within the
  limits of the three calls, makes the kernel panic, whatever block it is for.
\<close>

theorem mkfs_log_short:
  assumes "log_n s = 0" "log_outstanding s = 0" "\<not> log_committing s" "log_size s = sint (sb_nlog mkfs_sb)" "distinct (map (\<lambda>b. blockno (bufs s b)) bs)" "length bs = 29"
  shows "\<exists>t. kbind (begin_op s) (\<lambda>s. kbind (begin_op s) (\<lambda>s. kbind (begin_op s) (log_writes bs))) = Ret t \<and>
    29 < 3 * MAXOPBLOCKS \<and> log_write b t = Panic ''too big a transaction''"
proof -
  have z: "log_size s = int LOGSIZE" using assms(4) by simp
  let ?s = "s\<lparr>log_outstanding := 3\<rparr>"
  have "kbind (begin_op s) (\<lambda>s. kbind (begin_op s) (\<lambda>s. kbind (begin_op s) (log_writes bs))) = log_writes bs ?s"
    using assms(1-3) by (simp add: begin_op_def)
  moreover obtain t where "log_writes bs ?s = Ret t" "log_n t = 29" "log_size t = 30"
    using log_writes_ok [of ?s 0 bs] assms(1,5,6) z by auto
  ultimately show ?thesis by (simp add: log_write_def)
qed

theorem mkfs_log_short_witness:
  "\<exists>s :: fslog. \<exists>t. kbind (begin_op s) (\<lambda>s. kbind (begin_op s) (\<lambda>s. kbind (begin_op s) (log_writes [0..<29]))) = Ret t \<and>
    log_write 29 t = Panic ''too big a transaction''"
proof -
  let ?s = "demo_log\<lparr>log_size := 30, bufs := (\<lambda>b. zero_buf\<lparr>blockno := of_nat b\<rparr>)\<rparr>"
  have "unat (of_nat b :: u32) = b" if "b \<in> set [0..<29]" for b using that by (simp add: unat_of_nat32)
  then have "inj_on (\<lambda>b. of_nat b :: u32) (set [0..<29])" by (metis inj_onI)
  then have "distinct (map (\<lambda>b. blockno (bufs ?s b)) [0..<29])" by (simp only: distinct_map) simp
  then show ?thesis using mkfs_log_short [of ?s "[0..<29]" 29] by - (rule exI [where x = ?s], simp add: demo_log_fields)
qed

end
